(* ===== verification/Turn_Prelude.thy ===== *)
theory Turn_Prelude
  imports Main "HOL-Library.Word" "HOL-Library.Multiset"
begin

unbundle bit_operations_syntax

text \<open>
  Shared vocabulary of the development: the machine integers of the Go code, the big-endian
  integers of \<open>encoding/binary\<close>, readers and connections as the standard library offers
  them (\<open>io.ReadFull\<close>, \<open>net.Conn.Write\<close>), buffered channels, the ASCII string functions of
  package \<open>strings\<close> and \<open>strconv\<close>, and three interfaces that several components share:
  a stream codec, a registry that removes an entry only when it still is the wanted one,
  and a transition system with an inductive invariant.
\<close>

section \<open>Types\<close>

type_synonym byte = "8 word"
type_synonym u16 = "16 word"
type_synonym u32 = "32 word"
type_synonym u64 = "64 word"
type_synonym bytes = "byte list"

named_theorems codec_simps \<open>round trips of the byte formats\<close>
named_theorems inv_intros \<open>operations keep their component's invariant\<close>
named_theorems frame_simps \<open>fields an operation does not write\<close>

section \<open>Big-endian integers\<close>

text \<open>\<open>binary.BigEndian.PutUintN\<close> writes the \<open>n\<close> bytes of a word, most significant first;
  \<open>binary.BigEndian.UintN\<close> reads them back.\<close>

fun be_bytes :: "nat \<Rightarrow> 'a::len word \<Rightarrow> bytes" where
  "be_bytes 0 w = []"
| "be_bytes (Suc n) w = be_bytes n (drop_bit 8 w) @ [ucast w]"

definition be_word :: "bytes \<Rightarrow> 'a::len word" where
  "be_word bs = foldl (\<lambda>acc b. push_bit 8 acc OR ucast b) 0 bs"

lemma length_be_bytes [simp]: "length (be_bytes n w) = n"
  by (induction n arbitrary: w) auto

lemma be_word_Nil [simp]: "be_word [] = 0"
  by (simp add: be_word_def)

lemma be_word_snoc [simp]: "be_word (bs @ [b]) = push_bit 8 (be_word bs) OR ucast b"
  by (simp add: be_word_def)

lemma be_word_be_bytes_take: "be_word (be_bytes n w) = take_bit (8 * n) w"
proof (induction n arbitrary: w)
  case 0
  then show ?case by simp
next
  case (Suc n)
  have "push_bit 8 (take_bit (8 * n) (drop_bit 8 w)) OR ucast (ucast w :: byte)
      = take_bit (8 * Suc n) w"
    by (rule bit_word_eqI) (auto simp: bit_simps)
  then show ?case by (simp add: Suc)
qed

lemma be_word_be_bytes:
  fixes w :: "'a::len word"
  assumes "LENGTH('a) \<le> 8 * n"
  shows "be_word (be_bytes n w) = w"
  using assms by (simp add: be_word_be_bytes_take take_bit_word_eq_self)

lemma be_word16 [codec_simps]: "be_word (be_bytes 2 (w :: u16)) = w"
  and be_word32 [codec_simps]: "be_word (be_bytes 4 (v :: u32)) = v"
  and be_word64 [codec_simps]: "be_word (be_bytes 8 (u :: u64)) = u"
  by (simp_all add: be_word_be_bytes)

text \<open>The other direction: the bytes of the word that \<open>n\<close> bytes spell are those bytes.\<close>

lemma be_word_bit_bound: "bit (be_word bs :: 'a::len word) k \<Longrightarrow> k < 8 * length bs"
proof (induction bs arbitrary: k rule: rev_induct)
  case Nil
  then show ?case by simp
next
  case (snoc b bs)
  then consider "k < 8" | "8 \<le> k" "bit (be_word bs :: 'a word) (k - 8)"
    by (auto simp: bit_simps dest: bit_imp_le_length)
  then show ?case
  proof cases
    case 1
    then show ?thesis by simp
  next
    case 2
    from snoc.IH [OF 2(2)] 2(1) show ?thesis by simp
  qed
qed

lemma be_bytes_be_word:
  assumes "8 * length bs \<le> LENGTH('a::len)"
  shows "be_bytes (length bs) (be_word bs :: 'a word) = bs"
  using assms
proof (induction bs rule: rev_induct)
  case Nil
  then show ?case by simp
next
  case (snoc b bs)
  let ?w = "be_word bs :: 'a word"
  have bits: "k + 8 < LENGTH('a)" if "bit ?w k" for k
    using be_word_bit_bound [OF that] snoc.prems by simp
  have low: "(ucast (push_bit 8 ?w OR ucast b) :: byte) = b"
    by (rule bit_word_eqI) (use snoc.prems in \<open>auto simp: bit_simps\<close>)
  have high: "drop_bit 8 (push_bit 8 ?w OR ucast b) = ?w"
    by (rule bit_word_eqI) (auto simp: bit_simps dest: bits bit_imp_le_length)
  have "be_bytes (length (bs @ [b])) (be_word (bs @ [b]) :: 'a word) = be_bytes (length bs) ?w @ [b]"
    by (simp only: length_append length_Cons list.size add_0_right add_Suc_right be_word_snoc
        be_bytes.simps low high)
  with snoc show ?case by simp
qed

lemma be_bytes_inject:
  fixes v w :: "'a::len word"
  assumes "LENGTH('a) \<le> 8 * n"
  shows "be_bytes n v = be_bytes n w \<longleftrightarrow> v = w"
  using assms be_word_be_bytes by metis

text \<open>Words below a power of two have no higher bits.\<close>

lemma take_bit_small: "unat w < 2 ^ n \<Longrightarrow> take_bit n w = w"
  by (simp add: word_unat_eq_iff unsigned_take_bit_eq take_bit_nat_eq_self)

lemma bit_small: "unat w < 2 ^ n \<Longrightarrow> bit w k \<Longrightarrow> k < n"
  by (metis bit_take_bit_iff take_bit_small)

lemma bit_0x80: "bit (0x80 :: byte) k \<longleftrightarrow> k = 7"
proof -
  have "(0x80 :: byte) = push_bit 7 1" by simp
  then have "bit (0x80 :: byte) k \<longleftrightarrow> bit (push_bit 7 (1 :: byte)) k" by simp
  also have "\<dots> \<longleftrightarrow> k = 7" by (simp only: bit_push_bit_iff bit_1_iff) (auto simp: possible_bit_def)
  finally show ?thesis .
qed

lemma and_0x80_iff: "b AND 0x80 \<noteq> (0 :: byte) \<longleftrightarrow> bit b 7"
proof -
  have "b AND 0x80 = (0 :: byte) \<longleftrightarrow> (\<forall>k. \<not> bit (b AND 0x80) k)"
    by (metis bit_0_eq bit_eq_iff bot_apply bot_bool_def)
  also have "\<dots> \<longleftrightarrow> \<not> bit b 7"
    by (auto simp only: bit_and_iff bit_0x80)
  finally show ?thesis by simp
qed

section \<open>Readers\<close>

text \<open>
  An \<open>io.Reader\<close> is the bytes it still delivers and the error it reports after them
  (\<open>EOF\<close> for an orderly end). \<open>io.ReadFull\<close> reads exactly \<open>n\<close> bytes; fewer bytes followed
  by \<open>EOF\<close> are \<open>ErrUnexpectedEOF\<close>, unless none arrived at all.
\<close>

datatype io_error = EOF | ErrUnexpectedEOF | ErrShortWrite | ErrIO string

record reader =
  rd_bytes :: bytes
  rd_end :: io_error

definition ReadFull :: "nat \<Rightarrow> reader \<Rightarrow> (io_error + bytes) \<times> reader" where
  "ReadFull n r =
     (let got = rd_bytes r in
      if n \<le> length got then (Inr (take n got), r\<lparr>rd_bytes := drop n got\<rparr>)
      else if rd_end r = EOF \<and> got \<noteq> [] then (Inl ErrUnexpectedEOF, r\<lparr>rd_bytes := []\<rparr>)
      else (Inl (rd_end r), r\<lparr>rd_bytes := []\<rparr>))"

lemma ReadFull_append [simp]:
  "rd_bytes r = xs @ rest \<Longrightarrow> n = length xs \<Longrightarrow> ReadFull n r = (Inr xs, r\<lparr>rd_bytes := rest\<rparr>)"
  by (simp add: ReadFull_def)

lemma ReadFull_Inr:
  "ReadFull n r = (Inr xs, r') \<Longrightarrow> length xs = n \<and> rd_bytes r = xs @ rd_bytes r' \<and> rd_end r' = rd_end r"
  by (auto simp: ReadFull_def Let_def split: if_splits)

lemma ReadFull_Inl: "ReadFull n r = (Inl e, r') \<Longrightarrow> rd_bytes r' = [] \<and> length (rd_bytes r) < n"
  by (auto simp: ReadFull_def Let_def split: if_splits)

text \<open>A loop that decodes items until the decoder fails, as the reader goroutines do. Every
  successful decode consumes input, so fuel beyond the length of the input is never used up.\<close>

primrec read_loop ::
  "(reader \<Rightarrow> ('e + 'a) \<times> reader) \<Rightarrow> nat \<Rightarrow> reader \<Rightarrow> 'a list \<times> 'e option" where
  "read_loop dec 0 r = ([], None)"
| "read_loop dec (Suc fuel) r =
     (case dec r of
        (Inl e, _) \<Rightarrow> ([], Some e)
      | (Inr a, r') \<Rightarrow> (let (as, e) = read_loop dec fuel r' in (a # as, e)))"

section \<open>Connections\<close>

text \<open>
  A \<open>net.Conn\<close> (or a smux stream) as the writers see it: the bytes it accepted so far and a
  script of the outcomes of its next writes. \<open>None\<close> is a write that succeeds, \<open>Some k\<close> one
  that fails after accepting \<open>k\<close> bytes; when the script is used up every write succeeds.
\<close>

record conn =
  cn_sent :: bytes
  cn_script :: "nat option list"

definition conn_Write :: "conn \<Rightarrow> bytes \<Rightarrow> conn \<times> io_error option" where
  "conn_Write c p =
     (case cn_script c of
        [] \<Rightarrow> (c\<lparr>cn_sent := cn_sent c @ p\<rparr>, None)
      | None # s \<Rightarrow> (c\<lparr>cn_sent := cn_sent c @ p, cn_script := s\<rparr>, None)
      | Some k # s \<Rightarrow> (c\<lparr>cn_sent := cn_sent c @ take k p, cn_script := s\<rparr>, Some (ErrIO ''write'')))"

definition reliable :: "conn \<Rightarrow> bool" where
  "reliable c \<longleftrightarrow> list_all (\<lambda>o'. o' = None) (cn_script c)"

lemma conn_Write_ok:
  "conn_Write c p = (c', None) \<Longrightarrow> cn_sent c' = cn_sent c @ p"
  by (auto simp: conn_Write_def split: list.splits option.splits)

lemma conn_Write_err:
  "conn_Write c p = (c', Some e) \<Longrightarrow> \<exists>k. cn_sent c' = cn_sent c @ take k p"
  by (auto simp: conn_Write_def split: list.splits option.splits)

lemma conn_Write_reliable:
  "reliable c \<Longrightarrow> \<exists>c'. conn_Write c p = (c', None) \<and> reliable c' \<and> cn_sent c' = cn_sent c @ p"
  by (auto simp: conn_Write_def reliable_def split: list.splits option.splits)

text \<open>A connection that keeps message boundaries (DTLS, UDP): the packets it accepted and the
  outcomes of its next writes; \<open>True\<close> is a write that fails, or whose deadline cannot be set.\<close>

record pconn =
  pc_sent :: "bytes list"
  pc_script :: "bool list"

definition pconn_Write :: "pconn \<Rightarrow> bytes \<Rightarrow> pconn \<times> io_error option" where
  "pconn_Write c p =
     (case pc_script c of
        [] \<Rightarrow> (c\<lparr>pc_sent := pc_sent c @ [p]\<rparr>, None)
      | False # s \<Rightarrow> (c\<lparr>pc_sent := pc_sent c @ [p], pc_script := s\<rparr>, None)
      | True # s \<Rightarrow> (c\<lparr>pc_script := s\<rparr>, Some (ErrIO ''write'')))"

lemma pconn_Write_sent:
  "pconn_Write c p = (c', e) \<Longrightarrow> pc_sent c' = pc_sent c @ (if e = None then [p] else [])"
  by (auto simp: pconn_Write_def split: list.splits bool.splits)

section \<open>Lists that are updated by index\<close>

lemma nth_update_same: "g (f (xs ! c)) = g (xs ! c) \<Longrightarrow> g (xs[c := f (xs ! c)] ! d) = g (xs ! d)"
  by (cases "c < length xs"; cases "d = c") (simp_all add: list_update_beyond)

section \<open>Actions\<close>

text \<open>A piece of code that changes a state and returns a result or an error.\<close>

type_synonym ('s, 'e, 'a) sact = "'s \<Rightarrow> 's \<times> ('e + 'a)"

definition act_return :: "'a \<Rightarrow> ('s, 'e, 'a) sact" where
  "act_return a l = (l, Inr a)"

definition act_fail :: "'e \<Rightarrow> ('s, 'e, 'a) sact" where
  "act_fail e l = (l, Inl e)"

definition act_bind :: "('s, 'e, 'a) sact \<Rightarrow> ('a \<Rightarrow> ('s, 'e, 'b) sact) \<Rightarrow> ('s, 'e, 'b) sact" where
  "act_bind m f l = (case m l of (l1, Inl e) \<Rightarrow> (l1, Inl e) | (l1, Inr a) \<Rightarrow> f a l1)"

section \<open>Buffered channels\<close>

text \<open>A \<open>select\<close> with a \<open>default\<close> branch on a channel of capacity \<open>n\<close>: the value is queued, or
  the default branch runs because the channel is full.\<close>

definition try_send :: "nat \<Rightarrow> 'a list \<Rightarrow> 'a \<Rightarrow> 'a list option" where
  "try_send n q x = (if length q < n then Some (q @ [x]) else None)"

lemma try_send_Some [simp]: "try_send n q x = Some q' \<longleftrightarrow> length q < n \<and> q' = q @ [x]"
  by (auto simp: try_send_def)

lemma try_send_None [simp]: "try_send n q x = None \<longleftrightarrow> n \<le> length q"
  by (auto simp: try_send_def)

section \<open>Interfaces\<close>

subsection \<open>A codec of self-delimiting items on a stream\<close>

locale stream_codec =
  fixes enc :: "'a \<Rightarrow> bytes"
    and dec :: "reader \<Rightarrow> ('e + 'a) \<times> reader"
    and ok :: "'a \<Rightarrow> bool"
  assumes dec_enc: "ok a \<Longrightarrow> rd_bytes r = enc a @ rest \<Longrightarrow> dec r = (Inr a, r\<lparr>rd_bytes := rest\<rparr>)"
    and dec_consumes: "dec r = (Inr a, r') \<Longrightarrow> length (rd_bytes r') < length (rd_bytes r)"
    and dec_end: "rd_bytes r = [] \<Longrightarrow> \<exists>e. dec r = (Inl e, r)"
begin

lemma read_loop_encoded:
  assumes "list_all ok as" and "rd_bytes r = concat (map enc as) @ rest" and "length as \<le> n"
  shows "read_loop dec n r
    = (let (bs, e) = read_loop dec (n - length as) (r\<lparr>rd_bytes := rest\<rparr>) in (as @ bs, e))"
  using assms
proof (induction as arbitrary: r n)
  case Nil
  then have "r\<lparr>rd_bytes := rest\<rparr> = r" by simp
  then show ?case by (simp split: prod.splits)
next
  case (Cons a as)
  then obtain m where n: "n = Suc m" and le: "length as \<le> m" by (cases n) auto
  let ?r = "r\<lparr>rd_bytes := concat (map enc as) @ rest\<rparr>"
  have d: "dec r = (Inr a, ?r)" using Cons.prems by (intro dec_enc) auto
  have "read_loop dec m ?r
      = (let (bs, e) = read_loop dec (m - length as) (?r\<lparr>rd_bytes := rest\<rparr>) in (as @ bs, e))"
    using Cons.prems le by (intro Cons.IH) auto
  with n d show ?case by (simp split: prod.splits)
qed

lemma read_loop_fuel:
  assumes "length (rd_bytes r) < n"
  shows "\<exists>as e. read_loop dec n r = (as, Some e)
    \<and> (\<forall>m \<ge> n. read_loop dec m r = (as, Some e))"
  using assms
proof (induction n arbitrary: r)
  case 0
  then show ?case by simp
next
  case (Suc n)
  show ?case
  proof (cases "dec r")
    case (Pair x r')
    show ?thesis
    proof (cases x)
      case (Inl e)
      have "read_loop dec m r = ([], Some e)" if "Suc n \<le> m" for m
        using that Pair Inl by (cases m) auto
      then show ?thesis using Pair Inl by auto
    next
      case (Inr a)
      with Pair Suc.prems have "length (rd_bytes r') < n" using dec_consumes by fastforce
      then obtain as e where IH: "read_loop dec n r' = (as, Some e)"
        "\<forall>m \<ge> n. read_loop dec m r' = (as, Some e)"
        using Suc.IH by blast
      have "read_loop dec m r = (a # as, Some e)" if "Suc n \<le> m" for m
        using that Pair Inr IH by (cases m) auto
      then show ?thesis using Pair Inr IH by auto
    qed
  qed
qed

text \<open>Everything that was encoded is read back, and then the loop ends with an error: the
  reader goroutine of a lane delivers exactly the items its peer wrote.\<close>

lemma read_loop_complete:
  assumes "list_all ok as" and "rd_bytes r = concat (map enc as)" and "length (rd_bytes r) < n"
    and "\<And>a. ok a \<Longrightarrow> enc a \<noteq> []"
  shows "\<exists>e. read_loop dec n r = (as, Some e)"
proof -
  have "length as \<le> length (concat (map enc as))"
    using assms(1)
  proof (induction as)
    case Nil
    then show ?case by simp
  next
    case (Cons a as)
    then have "enc a \<noteq> []" using assms(4) by simp
    moreover have "length as \<le> length (concat (map enc as))" using Cons by simp
    ultimately show ?case by (cases "enc a") auto
  qed
  then have le: "length as < n" using assms(2,3) by simp
  obtain e where e: "dec (r\<lparr>rd_bytes := []\<rparr>) = (Inl e, r\<lparr>rd_bytes := []\<rparr>)"
    using dec_end [of "r\<lparr>rd_bytes := []\<rparr>"] by auto
  obtain k where k: "n - length as = Suc k" using le by (cases "n - length as") auto
  have "read_loop dec n r
      = (let (bs, e) = read_loop dec (n - length as) (r\<lparr>rd_bytes := []\<rparr>) in (as @ bs, e))"
    using assms(1,2) le by (intro read_loop_encoded) auto
  then show ?thesis by (simp add: k e)
qed

end

subsection \<open>A registry whose entries are removed by identity\<close>

text \<open>Both session registries of the server store shared objects under a key and let an object
  remove itself later: the entry goes only if it still is that object.\<close>

locale identity_registry =
  fixes lookup :: "'reg \<Rightarrow> 'k \<Rightarrow> 'ref option"
    and put :: "'k \<Rightarrow> 'ref \<Rightarrow> 'reg \<Rightarrow> 'reg"
    and drop_if :: "'k \<Rightarrow> 'ref \<Rightarrow> 'reg \<Rightarrow> 'reg"
  assumes lookup_put: "lookup (put k v r) k' = (if k' = k then Some v else lookup r k')"
    and lookup_drop_if:
      "lookup (drop_if k v r) k' = (if k' = k \<and> lookup r k = Some v then None else lookup r k')"
begin

lemma stale_drop_if: "lookup r k \<noteq> Some v \<Longrightarrow> lookup (drop_if k v r) k' = lookup r k'"
  by (simp add: lookup_drop_if)

lemma drop_if_after_put: "v \<noteq> v' \<Longrightarrow> lookup (drop_if k v (put k v' r)) k' = lookup (put k v' r) k'"
  by (simp add: lookup_drop_if lookup_put)

lemma drop_if_put_same: "lookup (drop_if k v (put k v r)) k' = (if k' = k then None else lookup r k')"
  by (simp add: lookup_drop_if lookup_put)

lemma drop_if_le: "lookup (drop_if k v r) k' = Some w \<Longrightarrow> lookup r k' = Some w"
  by (simp add: lookup_drop_if split: if_splits)

lemma drop_if_other: "k' \<noteq> k \<Longrightarrow> lookup (drop_if k v r) k' = lookup r k'"
  by (simp add: lookup_drop_if)

lemma drop_if_gone: "lookup (drop_if k v r) k \<noteq> Some v"
  by (simp add: lookup_drop_if)

end

subsection \<open>Transition systems with an inductive invariant\<close>

locale invariant_system =
  fixes start :: "'s \<Rightarrow> bool"
    and step :: "'s \<Rightarrow> 's \<Rightarrow> bool"
    and inv :: "'s \<Rightarrow> bool"
  assumes start_inv: "start s \<Longrightarrow> inv s"
    and step_inv: "step s t \<Longrightarrow> inv s \<Longrightarrow> inv t"
begin

lemma steps_inv: "rtranclp step s t \<Longrightarrow> inv s \<Longrightarrow> inv t"
  by (induction rule: rtranclp_induct) (auto intro: step_inv)

lemma reachable_inv: "start s \<Longrightarrow> rtranclp step s t \<Longrightarrow> inv t"
  using steps_inv start_inv by blast

lemma steps_stable:
  assumes "\<And>s t. step s t \<Longrightarrow> inv s \<Longrightarrow> P s \<Longrightarrow> P t"
  shows "rtranclp step s t \<Longrightarrow> inv s \<Longrightarrow> P s \<Longrightarrow> P t"
proof (induction rule: rtranclp_induct)
  case base
  then show ?case by simp
next
  case (step t u)
  then show ?case using assms steps_inv by blast
qed

end

text \<open>An observation that never decreases along the steps.\<close>

locale monotone_system = invariant_system start step inv
  for start :: "'s \<Rightarrow> bool" and step :: "'s \<Rightarrow> 's \<Rightarrow> bool" and inv :: "'s \<Rightarrow> bool" +
  fixes obs :: "'s \<Rightarrow> 'o::preorder"
  assumes step_mono: "step s t \<Longrightarrow> inv s \<Longrightarrow> obs s \<le> obs t"
begin

lemma steps_mono:
  assumes "rtranclp step s t" and "inv s"
  shows "obs s \<le> obs t"
  using assms
proof (induction rule: rtranclp_induct)
  case base
  then show ?case by simp
next
  case (step t u)
  then show ?case using step_mono steps_inv order_trans by blast
qed

end

text \<open>The executions of a system whose steps are labelled with what can be observed of them.\<close>

fun runs :: "('l \<Rightarrow> 's \<Rightarrow> 's \<Rightarrow> bool) \<Rightarrow> 's \<Rightarrow> 'l list \<Rightarrow> 's \<Rightarrow> bool" where
  "runs step s [] t \<longleftrightarrow> s = t"
| "runs step s (l # ls) t \<longleftrightarrow> (\<exists>u. step l s u \<and> runs step u ls t)"

lemma runs_append: "runs step s (ls @ ls') t \<longleftrightarrow> (\<exists>u. runs step s ls u \<and> runs step u ls' t)"
  by (induction ls arbitrary: s) auto

lemma runs_steps: "runs step s ls t \<Longrightarrow> rtranclp (\<lambda>s t. \<exists>l. step l s t) s t"
  by (induction ls arbitrary: s) (auto intro: converse_rtranclp_into_rtranclp)

text \<open>A simulation: under an abstraction every step is a step of the specification with the same label, so every execution
  is one of the specification with the same observations.\<close>

locale simulation = invariant_system start "\<lambda>s t. \<exists>l. step l s t" inv
  for start :: "'s \<Rightarrow> bool" and step :: "'l \<Rightarrow> 's \<Rightarrow> 's \<Rightarrow> bool" and inv :: "'s \<Rightarrow> bool" +
  fixes abstraction :: "'s \<Rightarrow> 'a"
    and spec_step :: "'l \<Rightarrow> 'a \<Rightarrow> 'a \<Rightarrow> bool"
  assumes simulates: "step l s t \<Longrightarrow> inv s \<Longrightarrow> spec_step l (abstraction s) (abstraction t)"
begin

lemma runs_simulated:
  assumes "runs step s ls t" and "inv s"
  shows "runs spec_step (abstraction s) ls (abstraction t)"
  using assms
proof (induction ls arbitrary: s)
  case (Cons l ls)
  then obtain u where u: "step l s u" "runs step u ls t" by auto
  then have "inv u" using step_inv Cons.prems by blast
  then show ?case using Cons.IH [OF u(2)] simulates [OF u(1) Cons.prems(2)] by auto
qed simp

end

end
