(* ===== verification/Session_Preface.thy ===== *)
theory Session_Preface
  imports Turn_Prelude
begin

text \<open>
  \<open>server/session_udp.go\<close> and \<open>server/probe.go\<close>: how the server classifies the first packet
  of a DTLS connection (a 17-byte session preface of an aggregating Android client, or ordinary
  traffic) and how it recognises the 12-byte keep-alive probes that it echoes. The first
  section transcribes the two parsers; \<open>preface_packet\<close> and \<open>probe_packet\<close> are the
  formats the comments describe, against which the parsers are proved exact.
\<close>

section \<open>The session preface\<close>

definition udpSessionPrefaceLen :: nat where
  "udpSessionPrefaceLen = 17"

definition udpSessionMaxStreams :: nat where
  "udpSessionMaxStreams = 64"

definition udpSessionReorderFlag :: byte where
  "udpSessionReorderFlag = 0x80"

record udpSessionHello =
  hello_id :: bytes
  hello_streamID :: byte
  hello_supportsReorder :: bool

text \<open>\<open>None\<close> stands for the \<open>false\<close> result; the callers ignore the hello beside it.\<close>

definition parseUDPSessionPreface :: "bytes \<Rightarrow> udpSessionHello option" where
  "parseUDPSessionPreface packet =
     (if length packet \<noteq> udpSessionPrefaceLen \<or> drop_bit 4 (packet ! 6) \<noteq> 4
         \<or> packet ! 8 AND 0xc0 \<noteq> 0x80 then None
      else
        let rawStreamID = packet ! 16;
            supportsReorder = (rawStreamID AND udpSessionReorderFlag \<noteq> 0);
            streamID = rawStreamID AND NOT udpSessionReorderFlag
        in if udpSessionMaxStreams \<le> unat streamID then None
           else Some \<lparr>hello_id = take 16 packet, hello_streamID = streamID,
                      hello_supportsReorder = supportsReorder\<rparr>)"

section \<open>Probe packets\<close>

definition probePingMagic :: bytes where
  "probePingMagic = [0xff, 0x50, 0x4e, 0x47]"

definition probePacketLen :: nat where
  "probePacketLen = length probePingMagic + 8"

text \<open>The loop over the magic compares byte by byte and gives up at the first difference.\<close>

fun magic_matches :: "bytes \<Rightarrow> bytes \<Rightarrow> bool" where
  "magic_matches [] packet = True"
| "magic_matches (expected # es) (b # bs) = (if b \<noteq> expected then False else magic_matches es bs)"
| "magic_matches (expected # es) [] = False"

definition parseProbePacket :: "bytes \<Rightarrow> u64 option" where
  "parseProbePacket packet =
     (if length packet \<noteq> probePacketLen then None
      else if \<not> magic_matches probePingMagic packet then None
      else Some (be_word (drop (length probePingMagic) packet)))"

section \<open>The formats\<close>

text \<open>A UUIDv4 has version nibble 4 and variant bits 10.\<close>

definition uuid4 :: "bytes \<Rightarrow> bool" where
  "uuid4 u \<longleftrightarrow> length u = 16 \<and> drop_bit 4 (u ! 6) = 4 \<and> u ! 8 AND 0xc0 = 0x80"

definition preface_packet :: "udpSessionHello \<Rightarrow> bytes" where
  "preface_packet h = hello_id h @
     [if hello_supportsReorder h then hello_streamID h OR udpSessionReorderFlag else hello_streamID h]"

definition valid_hello :: "udpSessionHello \<Rightarrow> bool" where
  "valid_hello h \<longleftrightarrow> uuid4 (hello_id h) \<and> unat (hello_streamID h) < udpSessionMaxStreams"

definition probe_packet :: "u64 \<Rightarrow> bytes" where
  "probe_packet n = probePingMagic @ be_bytes 8 n"

section \<open>Lemmas\<close>

lemma length_preface_packet: "valid_hello h \<Longrightarrow> length (preface_packet h) = 17"
  by (simp add: preface_packet_def valid_hello_def uuid4_def)

lemma length_probe_packet [simp]: "length (probe_packet n) = 12"
  by (simp add: probe_packet_def probePingMagic_def)

text \<open>Stream numbers below 64 leave the flag bit alone, and any byte splits into the two.\<close>

lemma bit_flag: "bit udpSessionReorderFlag k \<longleftrightarrow> k = 7"
  unfolding udpSessionReorderFlag_def by (rule bit_0x80)

lemma and_flag_iff: "b AND udpSessionReorderFlag \<noteq> 0 \<longleftrightarrow> bit b 7"
  unfolding udpSessionReorderFlag_def by (rule and_0x80_iff)

lemma small_stream_bit7:
  fixes s :: byte
  assumes "unat s < udpSessionMaxStreams"
  shows "s AND udpSessionReorderFlag = 0"
    and "(s OR udpSessionReorderFlag) AND NOT udpSessionReorderFlag = s"
    and "s AND NOT udpSessionReorderFlag = s"
    and "(s OR udpSessionReorderFlag) AND udpSessionReorderFlag \<noteq> 0"
proof -
  have bits: "k < 6" if "bit s k" for k
    using bit_small [of s 6 k] assms that by (simp add: udpSessionMaxStreams_def)
  show "s AND udpSessionReorderFlag = 0" using and_flag_iff [of s] bits [of 7] by auto
  show "(s OR udpSessionReorderFlag) AND udpSessionReorderFlag \<noteq> 0"
    by (simp only: and_flag_iff bit_or_iff bit_flag) simp
  show "(s OR udpSessionReorderFlag) AND NOT udpSessionReorderFlag = s"
    by (rule bit_word_eqI) (use bits in \<open>fastforce simp: bit_and_iff bit_or_iff bit_not_iff bit_flag\<close>)
  show "s AND NOT udpSessionReorderFlag = s"
    by (rule bit_word_eqI) (use bits in \<open>fastforce simp: bit_and_iff bit_not_iff bit_flag\<close>)
qed

lemma split_bit7:
  fixes b :: byte
  shows "(if b AND udpSessionReorderFlag \<noteq> 0
          then (b AND NOT udpSessionReorderFlag) OR udpSessionReorderFlag
          else b AND NOT udpSessionReorderFlag) = b"
proof (cases "bit b 7")
  case True
  then have "(b AND NOT udpSessionReorderFlag) OR udpSessionReorderFlag = b"
    by (intro bit_word_eqI) (auto simp: bit_simps bit_flag)
  with True show ?thesis by (simp add: and_flag_iff)
next
  case False
  then have "b AND NOT udpSessionReorderFlag = b"
    by (intro bit_word_eqI) (auto simp: bit_simps bit_flag)
  with False show ?thesis using and_flag_iff [of b] by simp
qed

lemma parse_preface_packet:
  assumes "valid_hello h"
  shows "parseUDPSessionPreface (preface_packet h) = Some h"
proof -
  let ?b = "if hello_supportsReorder h then hello_streamID h OR udpSessionReorderFlag else hello_streamID h"
  have id: "length (hello_id h) = 16" "drop_bit 4 (hello_id h ! 6) = 4" "hello_id h ! 8 AND 0xc0 = 0x80"
    and small: "unat (hello_streamID h) < udpSessionMaxStreams"
    using assms by (simp_all add: valid_hello_def uuid4_def)
  have nth: "preface_packet h ! 6 = hello_id h ! 6" "preface_packet h ! 8 = hello_id h ! 8"
    "preface_packet h ! 16 = ?b" "take 16 (preface_packet h) = hello_id h"
    using id(1) by (simp_all add: preface_packet_def nth_append)
  have b: "?b AND NOT udpSessionReorderFlag = hello_streamID h"
    "?b AND udpSessionReorderFlag \<noteq> 0 \<longleftrightarrow> hello_supportsReorder h"
    using small_stream_bit7 [OF small] by simp_all
  show ?thesis
    unfolding parseUDPSessionPreface_def nth Let_def
    using id b small by (simp add: length_preface_packet [OF assms] udpSessionPrefaceLen_def)
qed

lemma parse_preface_Some:
  assumes "parseUDPSessionPreface p = Some h"
  shows "valid_hello h \<and> p = preface_packet h"
proof -
  from assms have len: "length p = 17" and u: "drop_bit 4 (p ! 6) = 4" "p ! 8 AND 0xc0 = 0x80"
    and sid: "unat (p ! 16 AND NOT udpSessionReorderFlag) < udpSessionMaxStreams"
    and h: "h = \<lparr>hello_id = take 16 p, hello_streamID = p ! 16 AND NOT udpSessionReorderFlag,
              hello_supportsReorder = (p ! 16 AND udpSessionReorderFlag \<noteq> 0)\<rparr>"
    by (auto simp: parseUDPSessionPreface_def udpSessionPrefaceLen_def Let_def split: if_splits)
  have "p = take 16 p @ [p ! 16]"
    using len take_Suc_conv_app_nth [of 16 p] by simp
  moreover have "preface_packet h = take 16 p @ [p ! 16]"
    unfolding h preface_packet_def by (simp only: udpSessionHello.select_convs split_bit7)
  moreover have "valid_hello h"
    using len u sid by (simp add: h valid_hello_def uuid4_def)
  ultimately show ?thesis by simp
qed

lemma magic_matches_iff:
  "magic_matches m p \<longleftrightarrow> (\<exists>rest. p = m @ rest)"
  by (induction m p rule: magic_matches.induct) auto

lemma parse_probe_packet: "parseProbePacket (probe_packet n) = Some n"
  by (auto simp: parseProbePacket_def probe_packet_def probePacketLen_def magic_matches_iff codec_simps)

lemma parse_probe_Some:
  assumes "parseProbePacket p = Some n"
  shows "p = probe_packet n"
proof -
  from assms obtain rest where p: "p = probePingMagic @ rest" and len: "length rest = 8"
    and n: "n = be_word rest"
    by (auto simp: parseProbePacket_def probePacketLen_def magic_matches_iff split: if_splits)
  have "be_bytes 8 (be_word rest :: u64) = rest"
    using be_bytes_be_word [where bs = rest and 'a = 64] len by simp
  then show ?thesis by (simp add: p n probe_packet_def)
qed

section \<open>Properties\<close>

text \<open>C2: the server takes a first packet for a session preface exactly when it is the 17-byte
  encoding of a UUIDv4 and a stream number below 64 with the optional capability bit, and it
  then recovers that identifier, stream number and capability unchanged.\<close>

theorem preface_exact:
  "parseUDPSessionPreface p = Some h \<longleftrightarrow> valid_hello h \<and> p = preface_packet h"
  using parse_preface_packet parse_preface_Some by blast

text \<open>A packet is echoed as a probe exactly when it is the four magic bytes followed by a
  64-bit big-endian token, and no probe is ever mistaken for a session preface.\<close>

theorem probe_exact:
  "(parseProbePacket p = Some n \<longleftrightarrow> p = probe_packet n)
   \<and> parseUDPSessionPreface (probe_packet n) = None"
  using parse_probe_packet parse_probe_Some
  by (auto simp: parseUDPSessionPreface_def udpSessionPrefaceLen_def)

end
