(* ===== verification/Packet_Pool.thy ===== *)
theory Packet_Pool
  imports Turn_Prelude
begin

text \<open>
  The packet buffers of \<open>server/session_udp.go\<close>. A downlink packet is copied into a buffer
  taken from a \<open>sync.Pool\<close>, so that the read buffer of the backend socket can be reused; the
  buffer goes back to the pool after the packet was written. A pooled buffer keeps the bytes
  of its last use, and the pool may hand out any of its buffers or a new one.
\<close>

definition udpSessionPacketSize :: nat where
  "udpSessionPacketSize = 2048"

text \<open>The Go slice \<open>packet.buf\<close> is its backing array (whose length is the capacity) and its
  length.\<close>

record udpSessionPacket =
  pk_backing :: bytes
  pk_len :: nat

definition packet_bytes :: "udpSessionPacket \<Rightarrow> bytes" where
  "packet_bytes p = take (pk_len p) (pk_backing p)"

definition new_packet :: udpSessionPacket where
  "new_packet = \<lparr>pk_backing = replicate udpSessionPacketSize 0, pk_len = udpSessionPacketSize\<rparr>"

text \<open>\<open>udpSessionPacketPool.Get()\<close>: a pooled buffer chosen by the runtime, else a new one.\<close>

definition pool_get :: "udpSessionPacket list \<Rightarrow> nat \<Rightarrow> udpSessionPacket \<times> udpSessionPacket list" where
  "pool_get pool i =
     (if i < length pool then (pool ! i, take i pool @ drop (Suc i) pool) else (new_packet, pool))"

text \<open>\<open>copy(packet.buf, payload)\<close> overwrites the first \<open>len\<close> bytes of the backing array.\<close>

definition acquireUDPSessionPacket ::
  "udpSessionPacket list \<Rightarrow> nat \<Rightarrow> bytes \<Rightarrow> udpSessionPacket \<times> udpSessionPacket list" where
  "acquireUDPSessionPacket pool i payload =
     (let (packet, pool') = pool_get pool i;
          backing = (if length (pk_backing packet) < length payload
                     then replicate (length payload) 0 else pk_backing packet)
      in (\<lparr>pk_backing = payload @ drop (length payload) backing, pk_len = length payload\<rparr>, pool'))"

definition releaseUDPSessionPacket ::
  "udpSessionPacket option \<Rightarrow> udpSessionPacket list \<Rightarrow> udpSessionPacket list" where
  "releaseUDPSessionPacket packet pool =
     (case packet of
        None \<Rightarrow> pool
      | Some p \<Rightarrow> pool @ [p\<lparr>pk_len := length (pk_backing p)\<rparr>])"

text \<open>Every pooled buffer is at full length and no shorter than the packet size.\<close>

definition pool_ok :: "udpSessionPacket list \<Rightarrow> bool" where
  "pool_ok pool \<longleftrightarrow>
     list_all (\<lambda>p. pk_len p = length (pk_backing p) \<and> udpSessionPacketSize \<le> length (pk_backing p)) pool"

lemma packet_bytes_acquire [simp]:
  "acquireUDPSessionPacket pool i payload = (p, pool') \<Longrightarrow> packet_bytes p = payload"
  by (auto simp: acquireUDPSessionPacket_def packet_bytes_def Let_def split: prod.splits)

lemma pool_get_ok:
  "pool_ok pool \<Longrightarrow> pool_get pool i = (p, pool') \<Longrightarrow>
     udpSessionPacketSize \<le> length (pk_backing p) \<and> pool_ok pool'"
  by (fastforce simp: pool_ok_def pool_get_def new_packet_def list_all_iff
      dest: in_set_takeD in_set_dropD split: if_splits)

lemma acquire_ok [inv_intros]:
  assumes "pool_ok pool" and "acquireUDPSessionPacket pool i payload = (p, pool')"
  shows "pool_ok pool' \<and> udpSessionPacketSize \<le> length (pk_backing p) \<and> pk_len p \<le> length (pk_backing p)"
proof -
  obtain q where g: "pool_get pool i = (q, pool')"
    and p: "p = \<lparr>pk_backing = payload @ drop (length payload)
                (if length (pk_backing q) < length payload then replicate (length payload) 0
                 else pk_backing q), pk_len = length payload\<rparr>"
    using assms(2) by (auto simp: acquireUDPSessionPacket_def Let_def split: prod.splits)
  show ?thesis using pool_get_ok [OF assms(1) g] by (auto simp: p)
qed

lemma release_ok [inv_intros]:
  "pool_ok pool \<Longrightarrow> (\<And>q. p = Some q \<Longrightarrow> udpSessionPacketSize \<le> length (pk_backing q)) \<Longrightarrow>
     pool_ok (releaseUDPSessionPacket p pool)"
  by (cases p) (auto simp: pool_ok_def releaseUDPSessionPacket_def)

section \<open>Properties\<close>

text \<open>Whatever stale bytes the pool hands out, an acquired packet holds exactly the payload,
  and putting it back keeps every pooled buffer at full length and at least the packet size.\<close>

theorem packet_pool_sound:
  assumes "pool_ok pool" and "acquireUDPSessionPacket pool i payload = (p, pool')"
  shows "packet_bytes p = payload \<and> pool_ok (releaseUDPSessionPacket (Some p) pool')"
  using assms acquire_ok [OF assms] by (auto intro!: release_ok)

theorem packet_pool_sound_witness:
  "packet_bytes (fst (acquireUDPSessionPacket
      [\<lparr>pk_backing = replicate 2048 7, pk_len = 2048\<rparr>] 0 [1, 2, 3])) = [1, 2, 3]"
proof -
  let ?pool = "[\<lparr>pk_backing = replicate 2048 7, pk_len = 2048\<rparr>]"
  have "pool_ok ?pool" by (simp add: pool_ok_def udpSessionPacketSize_def)
  then show ?thesis
    using packet_pool_sound [of ?pool 0 "[1, 2, 3]"
        "fst (acquireUDPSessionPacket ?pool 0 [1, 2, 3])" "snd (acquireUDPSessionPacket ?pool 0 [1, 2, 3])"]
    by simp
qed

end
