(* ===== verification/Lane_Selector.thy ===== *)
theory Lane_Selector
  imports Session_Preface Packet_Pool
begin

text \<open>
  The downlink scheduler of an aggregated UDP session (\<open>udpLaneSelector.choose\<close> of
  \<open>server/session_udp.go\<close>). With a client that has no reorder buffer the downlink stays on one
  lane; otherwise packets go out in stripes of sixteen on the least loaded lane, and a pause
  of more than two milliseconds starts a new stripe. Array accesses out of bounds would panic
  in Go: they are the result \<open>None\<close> of the outer option, and the first property shows that it
  never arises.
\<close>

section \<open>State\<close>

definition udpSessionQueueSize :: nat where
  "udpSessionQueueSize = 128"

definition udpSessionStripeSize :: nat where
  "udpSessionStripeSize = 16"

definition udpSessionFlowletGap :: int where
  \<comment> \<open>nanoseconds\<close>
  "udpSessionFlowletGap = 2000000"

record udpSessionLane =
  lane_streamID :: byte
  lane_supportsReorder :: bool
  lane_conn :: pconn
  lane_out :: "udpSessionPacket list"
  lane_done :: bool
  lane_closed :: bool

type_synonym lane_array = "udpSessionLane option list"

record udpLaneSelector =
  sel_current :: byte
  sel_hasCurrent :: bool
  sel_remaining :: int
  sel_cursor :: byte
  sel_lastPacket :: "int option"

definition new_selector :: udpLaneSelector where
  "new_selector = \<lparr>sel_current = 0, sel_hasCurrent = False, sel_remaining = 0, sel_cursor = 0,
                   sel_lastPacket = None\<rparr>"

section \<open>The scheduler\<close>

text \<open>The first loop: do all open lanes support reordering, and how many are open.\<close>

definition scan_lanes :: "lane_array \<Rightarrow> bool \<times> nat" where
  "scan_lanes lanes = foldl
     (\<lambda>(canStripe, activeLanes) lane.
        case lane of
          None \<Rightarrow> (canStripe, activeLanes)
        | Some l \<Rightarrow> if lane_closed l then (canStripe, activeLanes)
                    else (canStripe \<and> lane_supportsReorder l, activeLanes + 1))
     (True, 0) lanes"

text \<open>The search loops: from the cursor around the array, the first open lane with \<open>P\<close>.\<close>

definition ring_from :: "nat \<Rightarrow> nat \<Rightarrow> nat list" where
  "ring_from n c = map (\<lambda>offset. (c + offset) mod n) [0..<n]"

definition find_lane :: "(udpSessionLane \<Rightarrow> bool) \<Rightarrow> lane_array \<Rightarrow> nat \<Rightarrow> nat option" where
  "find_lane P lanes c =
     List.find (\<lambda>index. case lanes ! index of
                          None \<Rightarrow> False
                        | Some l \<Rightarrow> \<not> lane_closed l \<and> P l)
               (ring_from (length lanes) c)"

text \<open>What both search loops do with the lane they find; \<open>stripe\<close> is the new \<open>remaining\<close>.\<close>

definition take_lane ::
  "udpLaneSelector \<Rightarrow> lane_array \<Rightarrow> int \<Rightarrow> nat option \<Rightarrow> udpLaneSelector \<times> nat option" where
  "take_lane s lanes stripe found =
     (case found of
        None \<Rightarrow> (s\<lparr>sel_hasCurrent := False\<rparr>, None)
      | Some index \<Rightarrow>
          (s\<lparr>sel_cursor := of_nat ((index + 1) mod length lanes), sel_current := of_nat index,
             sel_hasCurrent := True, sel_remaining := stripe\<rparr>, Some index))"

definition choose_pinned ::
  "udpLaneSelector \<Rightarrow> lane_array \<Rightarrow> (udpLaneSelector \<times> nat option) option" where
  "choose_pinned s lanes =
     (let pick = take_lane s lanes 0
            (find_lane (\<lambda>l. length (lane_out l) < udpSessionQueueSize) lanes (unat (sel_cursor s)))
      in if \<not> sel_hasCurrent s then Some pick
         else if length lanes \<le> unat (sel_current s) then None
         else case lanes ! unat (sel_current s) of
                None \<Rightarrow> Some pick
              | Some l \<Rightarrow>
                  if lane_closed l then Some pick
                  else if length (lane_out l) < udpSessionQueueSize
                  then Some (s, Some (unat (sel_current s)))
                  else Some (s, None))"

definition minimum_depth :: "lane_array \<Rightarrow> nat" where
  "minimum_depth lanes = foldl
     (\<lambda>minimumDepth lane.
        case lane of
          None \<Rightarrow> minimumDepth
        | Some l \<Rightarrow> if \<not> lane_closed l \<and> length (lane_out l) < minimumDepth
                    then length (lane_out l) else minimumDepth)
     (udpSessionQueueSize + 1) lanes"

definition choose_stripe :: "udpLaneSelector \<Rightarrow> lane_array \<Rightarrow> udpLaneSelector \<times> nat option" where
  "choose_stripe s lanes =
     (let minimumDepth = minimum_depth lanes
      in if udpSessionQueueSize \<le> minimumDepth then (s\<lparr>sel_hasCurrent := False\<rparr>, None)
         else take_lane s lanes (int udpSessionStripeSize - 1)
                (find_lane (\<lambda>l. length (lane_out l) = minimumDepth) lanes (unat (sel_cursor s))))"

definition note_packet :: "udpLaneSelector \<Rightarrow> int \<Rightarrow> udpLaneSelector" where
  "note_packet s now =
     (case sel_lastPacket s of
        None \<Rightarrow> s
      | Some t \<Rightarrow> if udpSessionFlowletGap < now - t
                  then s\<lparr>sel_hasCurrent := False, sel_remaining := 0\<rparr> else s)
     \<lparr>sel_lastPacket := Some now\<rparr>"

definition choose_striped ::
  "udpLaneSelector \<Rightarrow> lane_array \<Rightarrow> int \<Rightarrow> (udpLaneSelector \<times> nat option) option" where
  "choose_striped s0 lanes now =
     (let s = note_packet s0 now
      in if sel_hasCurrent s \<and> 0 < sel_remaining s
         then if length lanes \<le> unat (sel_current s) then None
              else case lanes ! unat (sel_current s) of
                     None \<Rightarrow> Some (choose_stripe s lanes)
                   | Some l \<Rightarrow>
                       if \<not> lane_closed l \<and> length (lane_out l) < udpSessionStripeSize
                       then Some (s\<lparr>sel_remaining := sel_remaining s - 1\<rparr>, Some (unat (sel_current s)))
                       else Some (choose_stripe s lanes)
         else Some (choose_stripe s lanes))"

definition choose_lane ::
  "udpLaneSelector \<Rightarrow> lane_array \<Rightarrow> int \<Rightarrow> (udpLaneSelector \<times> nat option) option" where
  "choose_lane s lanes now =
     (let (canStripe, activeLanes) = scan_lanes lanes
      in if activeLanes = 0 then Some (s\<lparr>sel_hasCurrent := False\<rparr>, None)
         else if \<not> canStripe then choose_pinned s lanes
         else choose_striped s lanes now)"

section \<open>Lemmas on the loops\<close>

text \<open>The open lanes, by their index.\<close>

definition open_at :: "lane_array \<Rightarrow> nat \<Rightarrow> udpSessionLane \<Rightarrow> bool" where
  "open_at lanes i l \<longleftrightarrow> i < length lanes \<and> lanes ! i = Some l \<and> \<not> lane_closed l"

definition selector_wf :: "udpLaneSelector \<Rightarrow> bool" where
  "selector_wf s \<longleftrightarrow> unat (sel_cursor s) < udpSessionMaxStreams
     \<and> (sel_hasCurrent s \<longrightarrow> unat (sel_current s) < udpSessionMaxStreams)
     \<and> 0 \<le> sel_remaining s \<and> sel_remaining s < int udpSessionStripeSize"

lemma selector_wf_new: "selector_wf new_selector"
  by (simp add: selector_wf_def new_selector_def udpSessionMaxStreams_def udpSessionStripeSize_def)

lemma scan_lanes_fold:
  "foldl (\<lambda>(c, n) lane. case lane of None \<Rightarrow> (c, n)
      | Some l \<Rightarrow> if lane_closed l then (c, n) else (c \<and> lane_supportsReorder l, n + 1)) (c, n) lanes
   = (c \<and> (\<forall>l. Some l \<in> set lanes \<and> \<not> lane_closed l \<longrightarrow> lane_supportsReorder l),
      n + length (filter (\<lambda>x. case x of None \<Rightarrow> False | Some l \<Rightarrow> \<not> lane_closed l) lanes))"
  by (induction lanes arbitrary: c n) (auto split: option.splits)

lemma Some_in_lanes: "(Some l \<in> set lanes \<and> \<not> lane_closed l) \<longleftrightarrow> (\<exists>i. open_at lanes i l)"
  by (auto simp: open_at_def in_set_conv_nth)

lemma scan_lanes_eq:
  "scan_lanes lanes =
     (\<forall>i l. open_at lanes i l \<longrightarrow> lane_supportsReorder l,
      length (filter (\<lambda>x. case x of None \<Rightarrow> False | Some l \<Rightarrow> \<not> lane_closed l) lanes))"
  using Some_in_lanes [of _ lanes] by (auto simp: scan_lanes_def scan_lanes_fold)

lemma snd_scan_lanes_0: "snd (scan_lanes lanes) = 0 \<longleftrightarrow> (\<forall>i l. \<not> open_at lanes i l)"
proof -
  have "snd (scan_lanes lanes) = 0 \<longleftrightarrow> (\<forall>l. \<not> (Some l \<in> set lanes \<and> \<not> lane_closed l))"
    by (auto simp: scan_lanes_eq filter_empty_conv split: option.splits)
  then show ?thesis using Some_in_lanes by metis
qed

lemma set_ring_from: "c < n \<Longrightarrow> set (ring_from n c) = {..<n}"
proof -
  assume c: "c < n"
  have "k \<in> set (ring_from n c)" if "k < n" for k
  proof -
    have "(c + (k + n - c) mod n) mod n = (c + (k + n - c)) mod n" by (simp add: mod_add_right_eq)
    also have "\<dots> = k" using c that by simp
    finally have k: "k = (c + (k + n - c) mod n) mod n" by simp
    have "(k + n - c) mod n \<in> set [0..<n]" using that by simp
    with k show ?thesis unfolding ring_from_def set_map by (rule image_eqI)
  qed
  moreover have "set (ring_from n c) \<subseteq> {..<n}" using c by (auto simp: ring_from_def)
  ultimately show ?thesis by auto
qed

lemma length_ring_from [simp]: "length (ring_from n c) = n"
  by (simp add: ring_from_def)

lemma find_lane_Some:
  assumes "find_lane P lanes c = Some i" and "c < length lanes"
  shows "\<exists>l. open_at lanes i l \<and> P l"
proof -
  from assms(1) obtain k where k: "k < length lanes" "i = ring_from (length lanes) c ! k"
    and P: "case lanes ! i of None \<Rightarrow> False | Some l \<Rightarrow> \<not> lane_closed l \<and> P l"
    by (auto simp: find_lane_def find_Some_iff)
  have "i < length lanes"
    using k set_ring_from [OF assms(2)] by (metis length_ring_from lessThan_iff nth_mem)
  then show ?thesis using P by (auto simp: open_at_def split: option.splits)
qed

lemma find_lane_None:
  assumes "c < length lanes"
  shows "find_lane P lanes c = None \<longleftrightarrow> (\<forall>i l. open_at lanes i l \<longrightarrow> \<not> P l)"
  using set_ring_from [OF assms]
  by (auto simp: find_lane_def find_None_iff open_at_def split: option.splits)

lemma Min_insert_insert:
  "finite S \<Longrightarrow> Min (insert a (insert b S)) = Min (insert (min b a) S)" for a b :: nat
  by (cases "S = {}") (simp_all add: min.commute min.left_commute)

lemma minimum_depth_fold:
  "foldl (\<lambda>m lane. case lane of None \<Rightarrow> m
      | Some l \<Rightarrow> if \<not> lane_closed l \<and> length (lane_out l) < m then length (lane_out l) else m) m lanes
   = Min (insert m {length (lane_out l) |l. Some l \<in> set lanes \<and> \<not> lane_closed l})"
proof (induction lanes arbitrary: m)
  case Nil
  then show ?case by simp
next
  case (Cons x lanes)
  let ?D = "\<lambda>xs. {length (lane_out l) |l. Some l \<in> set xs \<and> \<not> lane_closed l}"
  have fin: "finite (?D lanes)"
  proof -
    have "?D lanes \<subseteq> (\<lambda>x. case x of None \<Rightarrow> 0 | Some l \<Rightarrow> length (lane_out l)) ` set lanes"
      by force
    then show ?thesis by (rule finite_subset) simp
  qed
  show ?case
  proof (cases "\<exists>l. x = Some l \<and> \<not> lane_closed l")
    case True
    then obtain l where x: "x = Some l" "\<not> lane_closed l" by blast
    then have D: "?D (x # lanes) = insert (length (lane_out l)) (?D lanes)" by auto
    let ?f = "\<lambda>m lane. case lane of None \<Rightarrow> m
      | Some l \<Rightarrow> if \<not> lane_closed l \<and> length (lane_out l) < m then length (lane_out l) else m"
    have "foldl ?f m (x # lanes) = foldl ?f (min (length (lane_out l)) m) lanes"
      using x by (auto simp: min_def)
    also have "\<dots> = Min (insert (min (length (lane_out l)) m) (?D lanes))" by (rule Cons.IH)
    also have "\<dots> = Min (insert m (?D (x # lanes)))"
      unfolding D by (rule Min_insert_insert [OF fin, symmetric])
    finally show ?thesis .
  next
    case False
    then have "?D (x # lanes) = ?D lanes" by auto
    with False Cons.IH show ?thesis by (auto split: option.splits)
  qed
qed

lemma minimum_depth_le: "open_at lanes i l \<Longrightarrow> minimum_depth lanes \<le> length (lane_out l)"
  and minimum_depth_cases:
    "minimum_depth lanes = udpSessionQueueSize + 1
     \<or> (\<exists>i l. open_at lanes i l \<and> length (lane_out l) = minimum_depth lanes)"
proof -
  let ?D = "{length (lane_out l) |l. Some l \<in> set lanes \<and> \<not> lane_closed l}"
  have fin: "finite ?D"
  proof -
    have "?D \<subseteq> (\<lambda>x. case x of None \<Rightarrow> 0 | Some l \<Rightarrow> length (lane_out l)) ` set lanes" by force
    then show ?thesis by (rule finite_subset) simp
  qed
  have m: "minimum_depth lanes = Min (insert (udpSessionQueueSize + 1) ?D)"
    unfolding minimum_depth_def by (rule minimum_depth_fold)
  show "minimum_depth lanes \<le> length (lane_out l)" if "open_at lanes i l"
    unfolding m using that fin Some_in_lanes by (intro Min_le) auto
  have "minimum_depth lanes \<in> insert (udpSessionQueueSize + 1) ?D"
    unfolding m using fin by (intro Min_in) auto
  then show "minimum_depth lanes = udpSessionQueueSize + 1
     \<or> (\<exists>i l. open_at lanes i l \<and> length (lane_out l) = minimum_depth lanes)"
    using Some_in_lanes by fastforce
qed

section \<open>What one call does\<close>

text \<open>The result of a call is good when the selector is well formed again and the lane, if any,
  is open, has room, and became the current one.\<close>

definition good_choice :: "lane_array \<Rightarrow> udpLaneSelector \<times> nat option \<Rightarrow> bool" where
  "good_choice lanes r \<longleftrightarrow> selector_wf (fst r) \<and>
     (\<forall>i. snd r = Some i \<longrightarrow> sel_hasCurrent (fst r) \<and> unat (sel_current (fst r)) = i \<and>
        (\<exists>l. open_at lanes i l \<and> length (lane_out l) < udpSessionQueueSize))"

lemma selector_wf_drop: "selector_wf s \<Longrightarrow> selector_wf (s\<lparr>sel_hasCurrent := False\<rparr>)"
  by (simp add: selector_wf_def)

lemma take_lane_good:
  assumes "selector_wf s" and "length lanes = udpSessionMaxStreams"
    and "0 \<le> stripe" "stripe < int udpSessionStripeSize"
    and "\<And>i. found = Some i \<Longrightarrow> \<exists>l. open_at lanes i l \<and> length (lane_out l) < udpSessionQueueSize"
  shows "good_choice lanes (take_lane s lanes stripe found)"
proof (cases found)
  case None
  then show ?thesis using assms(1) by (simp add: take_lane_def good_choice_def selector_wf_drop)
next
  case (Some i)
  with assms(5) have l: "\<exists>l. open_at lanes i l \<and> length (lane_out l) < udpSessionQueueSize" by blast
  then have "i < 64" using assms(2) by (auto simp: open_at_def udpSessionMaxStreams_def)
  then have i: "unat (of_nat i :: byte) = i" "unat (of_nat ((i + 1) mod 64) :: byte) = (i + 1) mod 64"
    by (simp_all add: unsigned_of_nat take_bit_nat_eq_self)
  show ?thesis
    using Some l i assms(1,2,3,4) \<open>i < 64\<close>
    by (simp add: take_lane_def good_choice_def selector_wf_def udpSessionMaxStreams_def)
qed

lemma choose_pinned_good:
  assumes "selector_wf s" and "length lanes = udpSessionMaxStreams"
  shows "case_option False (good_choice lanes) (choose_pinned s lanes)"
proof -
  let ?found = "find_lane (\<lambda>l. length (lane_out l) < udpSessionQueueSize) lanes (unat (sel_cursor s))"
  have c: "unat (sel_cursor s) < length lanes" using assms by (simp add: selector_wf_def)
  have pick: "good_choice lanes (take_lane s lanes 0 ?found)"
    using assms find_lane_Some [OF _ c] by (intro take_lane_good) (auto simp: udpSessionStripeSize_def)
  show ?thesis
  proof (cases "sel_hasCurrent s")
    case False
    then show ?thesis using pick by (simp add: choose_pinned_def)
  next
    case True
    then have cur: "unat (sel_current s) < length lanes" using assms by (simp add: selector_wf_def)
    show ?thesis
    proof (cases "lanes ! unat (sel_current s)")
      case None
      then show ?thesis using pick True cur by (simp add: choose_pinned_def)
    next
      case (Some l)
      then show ?thesis using pick True cur assms(1)
        by (simp add: choose_pinned_def) (auto simp: good_choice_def open_at_def)
    qed
  qed
qed

lemma choose_stripe_good:
  assumes "selector_wf s" and "length lanes = udpSessionMaxStreams"
  shows "good_choice lanes (choose_stripe s lanes)"
proof -
  have c: "unat (sel_cursor s) < length lanes" using assms by (simp add: selector_wf_def)
  show ?thesis
  proof (cases "udpSessionQueueSize \<le> minimum_depth lanes")
    case True
    then show ?thesis using assms(1)
      by (simp add: choose_stripe_def good_choice_def selector_wf_drop)
  next
    case False
    have found: "\<exists>l. open_at lanes i l \<and> length (lane_out l) < udpSessionQueueSize"
      if "find_lane (\<lambda>l. length (lane_out l) = minimum_depth lanes) lanes
            (unat (sel_cursor s)) = Some i" for i
      using find_lane_Some [OF that c] False by auto
    show ?thesis
      unfolding choose_stripe_def Let_def if_not_P [OF False]
      using assms found by (intro take_lane_good) (auto simp: udpSessionStripeSize_def)
  qed
qed

lemma note_packet_wf: "selector_wf s \<Longrightarrow> selector_wf (note_packet s now)"
  by (auto simp: note_packet_def selector_wf_def udpSessionStripeSize_def split: option.splits)

lemma choose_striped_good:
  assumes "selector_wf s" and "length lanes = udpSessionMaxStreams"
  shows "case_option False (good_choice lanes) (choose_striped s lanes now)"
proof -
  let ?s = "note_packet s now"
  have wf: "selector_wf ?s" using assms(1) by (rule note_packet_wf)
  have pick: "good_choice lanes (choose_stripe ?s lanes)" using wf assms(2) by (rule choose_stripe_good)
  show ?thesis
  proof (cases "sel_hasCurrent ?s \<and> 0 < sel_remaining ?s")
    case False
    then show ?thesis using pick by (auto simp: choose_striped_def Let_def)
  next
    case True
    then have cur: "unat (sel_current ?s) < length lanes" using wf assms by (simp add: selector_wf_def)
    show ?thesis
    proof (cases "lanes ! unat (sel_current ?s)")
      case None
      then show ?thesis using pick True cur by (simp add: choose_striped_def Let_def)
    next
      case (Some l)
      then show ?thesis using pick True cur wf
        by (simp add: choose_striped_def Let_def)
          (auto simp: good_choice_def open_at_def selector_wf_def
            udpSessionQueueSize_def udpSessionStripeSize_def)
    qed
  qed
qed

lemma choose_lane_good:
  assumes "selector_wf s" and "length lanes = udpSessionMaxStreams"
  shows "case_option False (good_choice lanes) (choose_lane s lanes now)"
  using assms choose_pinned_good choose_striped_good
  by (auto simp: choose_lane_def good_choice_def selector_wf_drop split: prod.splits)

section \<open>The ranking of the lanes\<close>

text \<open>A new stripe goes to the lane with the fewest queued packets, ties broken by the distance
  from the cursor: the lexicographic minimum of these ranks.\<close>

datatype lane_rank = Lane_Rank (rank_depth: nat) (rank_offset: nat)

instantiation lane_rank :: linorder
begin

definition less_eq_lane_rank :: "lane_rank \<Rightarrow> lane_rank \<Rightarrow> bool" where
  "less_eq_lane_rank a b \<longleftrightarrow>
     rank_depth a < rank_depth b \<or> rank_depth a = rank_depth b \<and> rank_offset a \<le> rank_offset b"

definition less_lane_rank :: "lane_rank \<Rightarrow> lane_rank \<Rightarrow> bool" where
  "less_lane_rank a b \<longleftrightarrow>
     rank_depth a < rank_depth b \<or> rank_depth a = rank_depth b \<and> rank_offset a < rank_offset b"

instance
  by standard (auto simp: less_eq_lane_rank_def less_lane_rank_def lane_rank.expand)

end

definition ring_offset :: "nat \<Rightarrow> nat \<Rightarrow> nat \<Rightarrow> nat" where
  "ring_offset n c j = (j + n - c) mod n"

definition rank_at :: "lane_array \<Rightarrow> nat \<Rightarrow> nat \<Rightarrow> udpSessionLane \<Rightarrow> lane_rank" where
  "rank_at lanes c j l = Lane_Rank (length (lane_out l)) (ring_offset (length lanes) c j)"

definition open_ranks :: "lane_array \<Rightarrow> nat \<Rightarrow> lane_rank set" where
  "open_ranks lanes c = {rank_at lanes c j l |j l. open_at lanes j l}"

lemma finite_open_ranks: "finite (open_ranks lanes c)"
proof -
  have "open_ranks lanes c \<subseteq> (\<lambda>j. rank_at lanes c j (the (lanes ! j))) ` {..<length lanes}"
    by (force simp: open_ranks_def open_at_def)
  then show ?thesis by (rule finite_subset) simp
qed

lemma ring_offset_nth:
  assumes "c < n" and "k < n"
  shows "ring_offset n c (ring_from n c ! k) = k"
proof -
  have "((c + k) mod n + n - c) mod n = ((c + k) mod n + (n - c)) mod n" using assms by simp
  also have "\<dots> = (c + k + (n - c)) mod n" by (simp add: mod_add_left_eq)
  also have "\<dots> = (k + n) mod n" using assms(1) by (simp add: add.commute add.left_commute)
  also have "\<dots> = k" using assms(2) by simp
  finally show ?thesis using assms by (simp add: ring_offset_def ring_from_def)
qed

lemma find_lane_first:
  assumes f: "find_lane P lanes c = Some i" and c: "c < length lanes"
    and j: "open_at lanes j l" "P l"
  shows "ring_offset (length lanes) c i \<le> ring_offset (length lanes) c j"
proof -
  let ?n = "length lanes"
  from f obtain k where k: "k < ?n" "i = ring_from ?n c ! k"
    and before: "\<And>k'. k' < k \<Longrightarrow> \<not> (case lanes ! (ring_from ?n c ! k') of None \<Rightarrow> False
        | Some l \<Rightarrow> \<not> lane_closed l \<and> P l)"
    by (auto simp: find_lane_def find_Some_iff)
  from j(1) set_ring_from [OF c] obtain k' where k': "k' < ?n" "j = ring_from ?n c ! k'"
    by (metis in_set_conv_nth length_ring_from lessThan_iff open_at_def)
  have "\<not> k' < k" using before [of k'] j k' by (auto simp: open_at_def)
  then show ?thesis using k k' c by (simp add: ring_offset_nth)
qed

lemma choose_stripe_rank:
  assumes "choose_stripe s lanes = (s', Some i)" and c: "unat (sel_cursor s) < length lanes"
  shows "\<exists>l. open_at lanes i l
    \<and> rank_at lanes (unat (sel_cursor s)) i l = Min (open_ranks lanes (unat (sel_cursor s)))"
proof -
  let ?c = "unat (sel_cursor s)" and ?m = "minimum_depth lanes"
  have f: "find_lane (\<lambda>l. length (lane_out l) = ?m) lanes ?c = Some i"
    using assms(1) by (auto simp: choose_stripe_def take_lane_def Let_def split: if_splits option.splits)
  obtain l where l: "open_at lanes i l" "length (lane_out l) = ?m"
    using find_lane_Some [OF f c] by blast
  have "rank_at lanes ?c i l \<le> r" if "r \<in> open_ranks lanes ?c" for r
  proof -
    from that obtain j l' where r: "r = rank_at lanes ?c j l'" and j: "open_at lanes j l'"
      by (auto simp: open_ranks_def)
    show ?thesis
      using minimum_depth_le [OF j] find_lane_first [OF f c j] l(2)
      by (cases "length (lane_out l') = ?m") (auto simp: r rank_at_def less_eq_lane_rank_def)
  qed
  moreover have "rank_at lanes ?c i l \<in> open_ranks lanes ?c" using l by (auto simp: open_ranks_def)
  ultimately have "Min (open_ranks lanes ?c) = rank_at lanes ?c i l"
    using finite_open_ranks by (intro Min_eqI) auto
  then show ?thesis using l(1) by auto
qed

lemma take_lane_None: "snd (take_lane s lanes st f) = None \<longleftrightarrow> f = None"
  by (auto simp: take_lane_def split: option.splits)

lemma choose_stripe_None:
  assumes "unat (sel_cursor s) < length lanes"
  shows "snd (choose_stripe s lanes) = None
    \<longleftrightarrow> (\<forall>i l. open_at lanes i l \<longrightarrow> udpSessionQueueSize \<le> length (lane_out l))"
proof (cases "udpSessionQueueSize \<le> minimum_depth lanes")
  case True
  then show ?thesis using minimum_depth_le le_trans by (fastforce simp: choose_stripe_def)
next
  case False
  then obtain i l where l: "open_at lanes i l" "length (lane_out l) = minimum_depth lanes"
    using minimum_depth_cases [of lanes] by auto
  then have "snd (choose_stripe s lanes) \<noteq> None"
    using False find_lane_None [OF assms] by (auto simp: choose_stripe_def take_lane_None Let_def)
  then show ?thesis using l False by fastforce
qed

lemma choose_lane_striped:
  assumes "\<And>i l. open_at lanes i l \<Longrightarrow> lane_supportsReorder l" and "open_at lanes i0 l0"
  shows "choose_lane s lanes now = choose_striped s lanes now"
proof -
  have "snd (scan_lanes lanes) \<noteq> 0" using assms(2) snd_scan_lanes_0 [of lanes] by blast
  moreover have "fst (scan_lanes lanes)" using assms(1) by (auto simp: scan_lanes_eq)
  ultimately show ?thesis by (auto simp: choose_lane_def split: prod.splits)
qed

lemma choose_lane_pinned:
  assumes "open_at lanes i l" and "\<not> lane_supportsReorder l"
  shows "choose_lane s lanes now = choose_pinned s lanes"
proof -
  have "snd (scan_lanes lanes) \<noteq> 0" using assms(1) snd_scan_lanes_0 [of lanes] by blast
  moreover have "\<not> fst (scan_lanes lanes)" using assms by (auto simp: scan_lanes_eq)
  ultimately show ?thesis by (auto simp: choose_lane_def split: prod.splits)
qed

lemma choose_lane_idle:
  "(\<And>i l. \<not> open_at lanes i l) \<Longrightarrow> choose_lane s lanes now = Some (s\<lparr>sel_hasCurrent := False\<rparr>, None)"
  using snd_scan_lanes_0 [of lanes] by (auto simp: choose_lane_def split: prod.splits)

lemma choose_pinned_fresh:
  assumes "sel_hasCurrent s \<Longrightarrow> \<forall>l. \<not> open_at lanes (unat (sel_current s)) l"
    and "selector_wf s" and "length lanes = udpSessionMaxStreams"
  shows "choose_pinned s lanes = Some (take_lane s lanes 0
    (find_lane (\<lambda>l. length (lane_out l) < udpSessionQueueSize) lanes (unat (sel_cursor s))))"
proof (cases "sel_hasCurrent s")
  case False
  then show ?thesis by (simp add: choose_pinned_def)
next
  case True
  then have cur: "unat (sel_current s) < length lanes" using assms by (simp add: selector_wf_def)
  show ?thesis
  proof (cases "lanes ! unat (sel_current s)")
    case None
    then show ?thesis using True cur by (simp add: choose_pinned_def)
  next
    case (Some l)
    then have "lane_closed l" using assms(1) True cur by (auto simp: open_at_def)
    then show ?thesis using Some True cur by (simp add: choose_pinned_def)
  qed
qed

text \<open>The two ways in which a striped packet finds its lane.\<close>

lemma choose_striped_cases:
  assumes "choose_striped s0 lanes now = Some (s', Some i)" and "selector_wf s0"
    and "length lanes = udpSessionMaxStreams"
  obtains (fresh) s where "s = note_packet s0 now" "choose_stripe s lanes = (s', Some i)"
  | (same) s l where "s = note_packet s0 now" "sel_hasCurrent s" "0 < sel_remaining s"
      "i = unat (sel_current s)" "open_at lanes i l" "length (lane_out l) < udpSessionStripeSize"
      "s' = s\<lparr>sel_remaining := sel_remaining s - 1\<rparr>"
proof -
  let ?s = "note_packet s0 now"
  have wf: "selector_wf ?s" using assms(2) by (rule note_packet_wf)
  show ?thesis
  proof (cases "sel_hasCurrent ?s \<and> 0 < sel_remaining ?s")
    case False
    then show ?thesis using assms(1) fresh by (auto simp: choose_striped_def Let_def)
  next
    case True
    then have cur: "unat (sel_current ?s) < length lanes" using wf assms(3) by (simp add: selector_wf_def)
    show ?thesis
    proof (cases "lanes ! unat (sel_current ?s)")
      case None
      then show ?thesis using assms(1) True cur fresh by (simp add: choose_striped_def Let_def)
    next
      case (Some l)
      then show ?thesis using assms(1) True cur fresh same
        by (simp add: choose_striped_def Let_def open_at_def split: if_splits)
    qed
  qed
qed

lemma choose_stripe_sets:
  assumes "choose_stripe s lanes = (s', Some i)"
  shows "sel_remaining s' = 15 \<and> sel_current s' = of_nat i \<and> sel_hasCurrent s'
    \<and> sel_cursor s' = of_nat ((i + 1) mod length lanes)"
  using assms by (auto simp: choose_stripe_def take_lane_def Let_def udpSessionStripeSize_def
      split: if_splits option.splits)

lemma note_packet_cursor [simp]: "sel_cursor (note_packet s now) = sel_cursor s"
  by (simp add: note_packet_def split: option.splits)

lemma note_packet_same:
  "sel_hasCurrent (note_packet s now) \<Longrightarrow> 0 < sel_remaining (note_packet s now) \<Longrightarrow>
     sel_hasCurrent s \<and> sel_current (note_packet s now) = sel_current s
     \<and> sel_remaining (note_packet s now) = sel_remaining s
     \<and> (\<forall>t. sel_lastPacket s = Some t \<longrightarrow> now - t \<le> udpSessionFlowletGap)"
  by (auto simp: note_packet_def split: option.splits if_splits)

section \<open>Properties\<close>

text \<open>C1: from a well-formed selector and the 64-entry lane array the scheduler never indexes out
  of bounds, leaves a well-formed selector, and any lane it returns is open with room in its
  queue, so that the non-blocking enqueue that follows cannot fail.\<close>

theorem lane_choice_safe:
  assumes "selector_wf s" and "length lanes = udpSessionMaxStreams"
  shows "\<exists>s' r. choose_lane s lanes now = Some (s', r) \<and> selector_wf s'
    \<and> (\<forall>i. r = Some i \<longrightarrow> (\<exists>l. open_at lanes i l \<and> length (lane_out l) < udpSessionQueueSize))"
  using choose_lane_good [OF assms, of now]
  by (auto simp: good_choice_def split: option.splits)

theorem lane_choice_safe_witness:
  "\<exists>s' r. choose_lane new_selector (replicate 64 None) 0 = Some (s', r) \<and> selector_wf s'"
  using lane_choice_safe [OF selector_wf_new, of "replicate 64 None" 0]
  by (auto simp: udpSessionMaxStreams_def)

text \<open>While some open lane has no reorder buffer and the current lane is open, a packet goes to
  the current lane or is dropped because that lane is full; the scheduler never moves to another
  lane, so it cannot reorder the downlink.\<close>

theorem pinned_stays_on_lane:
  assumes "open_at lanes j lj" and "\<not> lane_supportsReorder lj"
    and "sel_hasCurrent s" and "open_at lanes (unat (sel_current s)) l"
  shows "choose_lane s lanes now
    = Some (s, if length (lane_out l) < udpSessionQueueSize then Some (unat (sel_current s)) else None)"
  using assms(3,4) unfolding choose_lane_pinned [OF assms(1,2)]
  by (auto simp: choose_pinned_def open_at_def)

text \<open>A packet is dropped only when it must be: in pinned mode with an open current lane exactly
  when that lane is full, and otherwise exactly when every open lane is full.\<close>

theorem lane_choice_complete:
  assumes "selector_wf s" and "length lanes = udpSessionMaxStreams"
    and "choose_lane s lanes now = Some (s', r)"
    and "\<not> (sel_hasCurrent s \<and> (\<exists>l. open_at lanes (unat (sel_current s)) l)
            \<and> (\<exists>j lj. open_at lanes j lj \<and> \<not> lane_supportsReorder lj))"
  shows "r = None \<longleftrightarrow> (\<forall>i l. open_at lanes i l \<longrightarrow> udpSessionQueueSize \<le> length (lane_out l))"
proof -
  have c: "unat (sel_cursor s) < length lanes" using assms by (simp add: selector_wf_def)
  consider (idle) "\<And>i l. \<not> open_at lanes i l"
    | (pinned) j lj where "open_at lanes j lj" "\<not> lane_supportsReorder lj"
    | (striped) i0 l0 where "open_at lanes i0 l0" "\<And>i l. open_at lanes i l \<Longrightarrow> lane_supportsReorder l"
    by blast
  then show ?thesis
  proof cases
    case idle
    then show ?thesis using assms(3) choose_lane_idle [of lanes s now] by auto
  next
    case pinned
    let ?f = "find_lane (\<lambda>l. length (lane_out l) < udpSessionQueueSize) lanes (unat (sel_cursor s))"
    have "sel_hasCurrent s \<Longrightarrow> \<forall>l. \<not> open_at lanes (unat (sel_current s)) l"
      using assms(4) pinned by blast
    then have "choose_pinned s lanes = Some (take_lane s lanes 0 ?f)"
      using assms(1,2) by (rule choose_pinned_fresh)
    then have "(s', r) = take_lane s lanes 0 ?f"
      using assms(3) choose_lane_pinned [OF pinned] by simp
    then have "r = None \<longleftrightarrow> ?f = None" using take_lane_None snd_conv by metis
    then show ?thesis using find_lane_None [OF c] by (simp add: not_less)
  next
    case striped
    let ?s = "note_packet s now"
    have c': "unat (sel_cursor ?s) < length lanes"
      using note_packet_wf [OF assms(1)] assms(2) by (simp add: selector_wf_def)
    have "choose_striped s lanes now = Some (s', r)"
      using assms(3) choose_lane_striped [OF striped(2,1)] by simp
    then consider "choose_stripe ?s lanes = (s', r)"
      | l where "r \<noteq> None" "open_at lanes (unat (sel_current ?s)) l"
        "length (lane_out l) < udpSessionStripeSize"
      by (auto simp: choose_striped_def Let_def open_at_def split: if_splits option.splits)
    then show ?thesis
    proof cases
      case 1
      then show ?thesis using choose_stripe_None [OF c'] by (metis snd_conv)
    next
      case 2
      then show ?thesis by (fastforce simp: udpSessionStripeSize_def udpSessionQueueSize_def)
    qed
  qed
qed

text \<open>When every open lane can reorder, a packet either starts a new stripe on the lane that is
  least loaded, ties broken by the distance from the cursor, and the cursor moves behind that
  lane; or it continues the current stripe on its lane, which is open and holds fewer than
  sixteen packets, within the flowlet gap, and uses up one of the stripe's sixteen packets.\<close>

theorem stripe_placement:
  assumes "selector_wf s" and "length lanes = udpSessionMaxStreams"
    and "\<And>j l. open_at lanes j l \<Longrightarrow> lane_supportsReorder l"
    and "choose_lane s lanes now = Some (s', Some i)"
  shows "if sel_remaining s' = 15
    then sel_cursor s' = of_nat ((i + 1) mod 64)
      \<and> (\<exists>l. open_at lanes i l
           \<and> rank_at lanes (unat (sel_cursor s)) i l = Min (open_ranks lanes (unat (sel_cursor s))))
    else sel_hasCurrent s \<and> i = unat (sel_current s) \<and> sel_remaining s' = sel_remaining s - 1
      \<and> 0 \<le> sel_remaining s'
      \<and> (\<forall>t. sel_lastPacket s = Some t \<longrightarrow> now - t \<le> udpSessionFlowletGap)
      \<and> (\<exists>l. open_at lanes i l \<and> length (lane_out l) < udpSessionStripeSize)"
proof -
  have "\<not> (\<forall>j l. \<not> open_at lanes j l)" using choose_lane_idle [of lanes s now] assms(4) by auto
  then obtain j0 l0 where "open_at lanes j0 l0" by blast
  then have st: "choose_striped s lanes now = Some (s', Some i)"
    using choose_lane_striped [of lanes j0 l0 s now] assms(3,4) by simp
  have c: "unat (sel_cursor s) < length lanes" using assms(1,2) by (simp add: selector_wf_def)
  from st assms(1,2) show ?thesis
  proof (cases rule: choose_striped_cases)
    case (fresh s1)
    then show ?thesis
      using choose_stripe_rank [of s1 lanes s' i] choose_stripe_sets [of s1 lanes s' i] c assms(2)
      by (simp add: udpSessionMaxStreams_def)
  next
    case (same s1 l)
    then have n: "sel_hasCurrent s" "sel_current s1 = sel_current s" "sel_remaining s1 = sel_remaining s"
      "\<forall>t. sel_lastPacket s = Some t \<longrightarrow> now - t \<le> udpSessionFlowletGap"
      using note_packet_same [of s now] by auto
    moreover have "sel_remaining s < 16" using assms(1) by (simp add: selector_wf_def udpSessionStripeSize_def)
    ultimately show ?thesis using same by auto
  qed
qed

text \<open>Concrete lanes for the witnesses: an open lane with \<open>n\<close> queued packets.\<close>

definition sample_lane :: "bool \<Rightarrow> nat \<Rightarrow> udpSessionLane" where
  "sample_lane reorder n =
     \<lparr>lane_streamID = 0, lane_supportsReorder = reorder, lane_conn = \<lparr>pc_sent = [], pc_script = []\<rparr>,
      lane_out = replicate n new_packet, lane_done = False, lane_closed = False\<rparr>"

definition sample_lanes :: "bool \<Rightarrow> nat \<Rightarrow> lane_array" where
  "sample_lanes reorder n = Some (sample_lane reorder n) # replicate 63 None"

lemma open_at_sample: "open_at (sample_lanes reorder n) i l \<longleftrightarrow> i = 0 \<and> l = sample_lane reorder n"
  by (cases i) (auto simp: open_at_def sample_lanes_def sample_lane_def)

lemma sample_lanes_simps [simp]:
  "length (sample_lanes reorder n) = udpSessionMaxStreams"
  "lane_supportsReorder (sample_lane reorder n) = reorder"
  "length (lane_out (sample_lane reorder n)) = n"
  by (simp_all add: sample_lanes_def sample_lane_def udpSessionMaxStreams_def)

theorem pinned_stays_on_lane_witness:
  "choose_lane (new_selector\<lparr>sel_hasCurrent := True\<rparr>) (sample_lanes False 128) 7
    = Some (new_selector\<lparr>sel_hasCurrent := True\<rparr>, None)"
  using pinned_stays_on_lane [of "sample_lanes False 128" 0 "sample_lane False 128"
      "new_selector\<lparr>sel_hasCurrent := True\<rparr>" "sample_lane False 128" 7]
  by (simp add: open_at_sample new_selector_def udpSessionQueueSize_def)

lemma sample_choice:
  "choose_lane new_selector (sample_lanes True 3) 7
    = Some (\<lparr>sel_current = 0, sel_hasCurrent = True, sel_remaining = 15, sel_cursor = 1,
            sel_lastPacket = Some 7\<rparr>, Some 0)"
  by code_simp

theorem lane_choice_complete_witness:
  "Some 0 = (None :: nat option) \<longleftrightarrow>
     (\<forall>i l. open_at (sample_lanes True 3) i l \<longrightarrow> udpSessionQueueSize \<le> length (lane_out l))"
  using sample_choice
  by (intro lane_choice_complete [OF selector_wf_new]) (auto simp: open_at_sample new_selector_def)

theorem stripe_placement_witness:
  "\<exists>l. open_at (sample_lanes True 3) 0 l
     \<and> rank_at (sample_lanes True 3) 0 0 l = Min (open_ranks (sample_lanes True 3) 0)"
  using stripe_placement [OF selector_wf_new _ _ sample_choice]
  by (simp add: open_at_sample new_selector_def)

end
