(* ===== verification/Go_Text.thy ===== *)
theory Go_Text
  imports Turn_Prelude
begin

text \<open>
  The functions of the Go packages \<open>strings\<close>, \<open>strconv\<close> and \<open>encoding/hex\<close> that the program
  calls, on ASCII strings: splitting, trimming, case folding, decimal integers and hexadecimal
  bytes. They are the vocabulary of the configuration, metrics and credential components.
\<close>

section \<open>Searching and splitting\<close>

fun str_HasPrefix :: "string \<Rightarrow> string \<Rightarrow> bool" where
  "str_HasPrefix s [] = True"
| "str_HasPrefix [] (p # ps) = False"
| "str_HasPrefix (c # s) (p # ps) = (c = p \<and> str_HasPrefix s ps)"

fun str_Contains :: "string \<Rightarrow> string \<Rightarrow> bool" where
  "str_Contains [] sub = (sub = [])"
| "str_Contains (c # s) sub = (str_HasPrefix (c # s) sub \<or> str_Contains s sub)"

lemma str_HasPrefix_iff: "str_HasPrefix s p \<longleftrightarrow> (\<exists>r. s = p @ r)"
  by (induction s p rule: str_HasPrefix.induct) auto

lemma str_Contains_iff: "str_Contains s sub \<longleftrightarrow> (\<exists>l r. s = l @ sub @ r)"
proof (induction s)
  case Nil
  then show ?case by auto
next
  case (Cons c s)
  have "(\<exists>l r. c # s = l @ sub @ r) \<longleftrightarrow> (\<exists>r. c # s = sub @ r) \<or> (\<exists>l r. s = l @ sub @ r)"
    by (metis append_Cons append_Nil neq_Nil_conv list.inject)
  then show ?case using Cons by (simp add: str_HasPrefix_iff)
qed

text \<open>\<open>strings.Split(s, sep)\<close> for a separator of one character.\<close>

fun str_Split :: "char \<Rightarrow> string \<Rightarrow> string list" where
  "str_Split sep [] = [[]]"
| "str_Split sep (c # s) =
     (if c = sep then [] # str_Split sep s
      else (case str_Split sep s of [] \<Rightarrow> [[c]] | w # ws \<Rightarrow> (c # w) # ws))"

fun str_Join :: "string list \<Rightarrow> string \<Rightarrow> string" where
  "str_Join [] sep = []"
| "str_Join [w] sep = w"
| "str_Join (w # v # ws) sep = w @ sep @ str_Join (v # ws) sep"

lemma str_Split_neq_Nil [simp]: "str_Split sep s \<noteq> []"
  by (cases s) (auto split: list.splits)

lemma str_Join_Cons: "ws \<noteq> [] \<Longrightarrow> str_Join (w # ws) sep = w @ sep @ str_Join ws sep"
  by (cases ws) auto

lemma str_Join_Split: "str_Join (str_Split sep s) [sep] = s"
proof (induction s)
  case Nil
  then show ?case by simp
next
  case (Cons c s)
  obtain w ws where w: "str_Split sep s = w # ws" by (cases "str_Split sep s") auto
  show ?case using Cons w by (cases ws) (auto simp: str_Join_Cons)
qed

lemma str_Split_no_sep: "w \<in> set (str_Split sep s) \<Longrightarrow> sep \<notin> set w"
  by (induction s arbitrary: w) (auto split: if_splits list.splits)

lemma str_Split_single: "sep \<notin> set s \<Longrightarrow> str_Split sep s = [s]"
  by (induction s) auto

lemma str_Split_append: "sep \<notin> set w \<Longrightarrow> str_Split sep (w @ sep # s) = w # str_Split sep s"
  by (induction w) auto

lemma str_Split_Join:
  "ws \<noteq> [] \<Longrightarrow> (\<And>w. w \<in> set ws \<Longrightarrow> sep \<notin> set w) \<Longrightarrow> str_Split sep (str_Join ws [sep]) = ws"
proof (induction ws rule: induct_list012)
  case (3 w v ws)
  then show ?case by (simp add: str_Split_append)
qed (auto simp: str_Split_single)

text \<open>\<open>strings.Split(s, sep)\<close> for a separator that is not empty: it is found from left to right.\<close>

function str_SplitSub :: "string \<Rightarrow> string \<Rightarrow> string list" where
  "str_SplitSub sep [] = [[]]"
| "str_SplitSub sep (c # s) =
     (if sep \<noteq> [] \<and> str_HasPrefix (c # s) sep then [] # str_SplitSub sep (drop (length sep) (c # s))
      else (case str_SplitSub sep s of [] \<Rightarrow> [[c]] | w # ws \<Rightarrow> (c # w) # ws))"
  by pat_completeness auto

termination str_SplitSub
  by (relation "measure (\<lambda>(sep, s). length s)") auto

lemma str_SplitSub_neq_Nil [simp]: "str_SplitSub sep s \<noteq> []"
  by (cases s) (auto split: list.splits)

lemma str_SplitSub_none: "\<not> str_Contains s sep \<Longrightarrow> str_SplitSub sep s = [s]"
  by (induction sep s rule: str_SplitSub.induct) (auto split: list.splits)

lemma str_SplitSub_found: "c # s = sep @ r \<Longrightarrow> sep \<noteq> [] \<Longrightarrow> str_SplitSub sep (c # s) = [] # str_SplitSub sep r"
  by (subst str_SplitSub.simps) (simp add: str_HasPrefix_iff del: str_SplitSub.simps)

lemma str_Join_SplitSub: "str_Join (str_SplitSub sep s) sep = s"
proof (induction sep s rule: str_SplitSub.induct)
  case (2 sep c s)
  show ?case
  proof (cases "sep \<noteq> [] \<and> str_HasPrefix (c # s) sep")
    case True
    then obtain r where "c # s = sep @ r" by (auto simp: str_HasPrefix_iff)
    then show ?thesis using 2(1) [OF True] True str_SplitSub_found [of c s sep r]
      by (simp add: str_Join_Cons del: str_SplitSub.simps)
  next
    case False
    obtain w ws where w: "str_SplitSub sep s = w # ws" by (cases "str_SplitSub sep s") auto
    have "str_SplitSub sep (c # s) = (c # w) # ws" using False w by simp
    moreover have "str_Join (w # ws) sep = s" using 2(2) [OF False] w by simp
    ultimately show ?thesis by (cases ws) auto
  qed
qed simp

text \<open>The last part contains no separator, and what comes before it ends with one.\<close>

lemma str_SplitSub_last:
  assumes "sep \<noteq> []"
  shows "\<not> str_Contains (last (str_SplitSub sep s)) sep \<and>
    (s = last (str_SplitSub sep s) \<or> (\<exists>u. s = u @ sep @ last (str_SplitSub sep s)))"
  using assms
proof (induction sep s rule: str_SplitSub.induct)
  case (2 sep c s)
  show ?case
  proof (cases "str_HasPrefix (c # s) sep")
    case True
    then obtain r where r: "c # s = sep @ r" by (auto simp: str_HasPrefix_iff)
    then have l: "last (str_SplitSub sep (c # s)) = last (str_SplitSub sep r)"
      using str_SplitSub_found [OF r 2(3)] by (simp del: str_SplitSub.simps)
    have ih: "\<not> str_Contains (last (str_SplitSub sep r)) sep \<and>
        (r = last (str_SplitSub sep r) \<or> (\<exists>u. r = u @ sep @ last (str_SplitSub sep r)))"
      using 2(1) True 2(3) r by simp
    show ?thesis
    proof (cases "r = last (str_SplitSub sep r)")
      case True
      then show ?thesis unfolding l using ih r by (metis append_Nil)
    next
      case False
      then obtain u where u: "r = u @ sep @ last (str_SplitSub sep r)" using ih by blast
      have "c # s = (sep @ u) @ sep @ last (str_SplitSub sep r)" unfolding r by (subst u) simp
      then show ?thesis unfolding l using ih by blast
    qed
  next
    case False
    obtain w ws where w: "str_SplitSub sep s = w # ws" by (cases "str_SplitSub sep s") auto
    have l: "str_SplitSub sep (c # s) = (c # w) # ws" using False w by simp
    have ih: "\<not> str_Contains (last (w # ws)) sep \<and> (s = last (w # ws) \<or> (\<exists>u. s = u @ sep @ last (w # ws)))"
      using 2(2) False 2(3) w by simp
    show ?thesis
    proof (cases ws)
      case Nil
      then have "w = s" using str_Join_SplitSub [of sep s] w by simp
      then show ?thesis unfolding l using Nil False ih by simp
    next
      case (Cons v vs)
      obtain u where "c # s = u @ sep @ last (w # ws)"
      proof (cases "s = last (w # ws)")
        case True
        have "length (str_Join (w # ws) sep) > length (last (w # ws))" unfolding Cons using 2(3)
        proof (induction vs arbitrary: w v)
          case Nil
          then show ?case by simp
        next
          case (Cons x xs)
          show ?case using Cons.IH [of v x] Cons.prems by simp
        qed
        then show ?thesis using str_Join_SplitSub [of sep s] w True by simp
      next
        case False
        then show ?thesis using ih that by (metis append_Cons)
      qed
      then show ?thesis unfolding l using Cons ih by auto
    qed
  qed
qed simp

text \<open>\<open>strings.ReplaceAll\<close> and \<open>strings.Replace\<close> with the count 1, for a pattern that is not empty.\<close>

definition str_ReplaceAll :: "string \<Rightarrow> string \<Rightarrow> string \<Rightarrow> string" where
  "str_ReplaceAll s old new = str_Join (str_SplitSub old s) new"

fun str_ReplaceFirst :: "string \<Rightarrow> string \<Rightarrow> string \<Rightarrow> string" where
  "str_ReplaceFirst [] old new = []"
| "str_ReplaceFirst (c # s) old new =
     (if str_HasPrefix (c # s) old then new @ drop (length old) (c # s) else c # str_ReplaceFirst s old new)"

lemma str_ReplaceFirst_none: "\<not> str_Contains s old \<Longrightarrow> str_ReplaceFirst s old new = s"
  by (induction s) auto

section \<open>Blanks and case\<close>

definition is_space :: "char \<Rightarrow> bool" where
  "is_space c \<longleftrightarrow> of_char c \<in> {9, 10, 11, 12, 13, 32 :: nat}"

definition str_TrimSpace :: "string \<Rightarrow> string" where
  "str_TrimSpace s = rev (dropWhile is_space (rev (dropWhile is_space s)))"

text \<open>\<open>strings.Fields\<close>: the maximal runs of characters that are no blanks.\<close>

fun fields_from :: "string \<Rightarrow> string \<Rightarrow> string list" where
  "fields_from w [] = (if w = [] then [] else [w])"
| "fields_from w (c # s) =
     (if is_space c then (if w = [] then fields_from [] s else w # fields_from [] s)
      else fields_from (w @ [c]) s)"

definition str_Fields :: "string \<Rightarrow> string list" where
  "str_Fields s = fields_from [] s"

definition is_word :: "string \<Rightarrow> bool" where
  "is_word v \<longleftrightarrow> v \<noteq> [] \<and> list_all (\<lambda>c. \<not> is_space c) v"

lemma fields_from_words: "list_all (\<lambda>c. \<not> is_space c) w \<Longrightarrow> list_all is_word (fields_from w s)"
  by (induction w s rule: fields_from.induct) (simp_all add: is_word_def)

lemma str_Fields_words: "list_all is_word (str_Fields s)"
  unfolding str_Fields_def by (rule fields_from_words) simp

definition to_lower :: "char \<Rightarrow> char" where
  "to_lower c = (let n = of_char c :: nat in if 65 \<le> n \<and> n \<le> 90 then char_of (n + 32) else c)"

definition str_ToLower :: "string \<Rightarrow> string" where
  "str_ToLower s = map to_lower s"

definition str_EqualFold :: "string \<Rightarrow> string \<Rightarrow> bool" where
  "str_EqualFold s t \<longleftrightarrow> str_ToLower s = str_ToLower t"

lemma to_lower_idem [simp]: "to_lower (to_lower c) = to_lower c"
  by (simp add: to_lower_def Let_def)

lemma str_ToLower_idem [simp]: "str_ToLower (str_ToLower s) = str_ToLower s"
  by (simp add: str_ToLower_def)

section \<open>Decimal integers\<close>

definition is_digit :: "char \<Rightarrow> bool" where
  "is_digit c \<longleftrightarrow> 48 \<le> (of_char c :: nat) \<and> (of_char c :: nat) \<le> 57"

definition digit_val :: "char \<Rightarrow> nat" where
  "digit_val c = of_char c - 48"

definition digit_char :: "nat \<Rightarrow> char" where
  "digit_char d = char_of (48 + d)"

fun nat_digits :: "nat \<Rightarrow> string" where
  "nat_digits n = (if n < 10 then [digit_char n] else nat_digits (n div 10) @ [digit_char (n mod 10)])"

declare nat_digits.simps [simp del]

definition digits_val :: "string \<Rightarrow> nat" where
  "digits_val s = foldl (\<lambda>acc c. 10 * acc + digit_val c) 0 s"

text \<open>\<open>strconv.Itoa\<close>.\<close>

definition str_Itoa :: "int \<Rightarrow> string" where
  "str_Itoa i = (if i < 0 then CHR ''-'' # nat_digits (nat (- i)) else nat_digits (nat i))"

text \<open>\<open>strconv.ParseInt(s, 10, 64)\<close> and \<open>strconv.Atoi\<close>: an optional sign and at least one digit,
  within 64 bits; \<open>None\<close> is the error.\<close>

definition in_int64 :: "int \<Rightarrow> bool" where
  "in_int64 i \<longleftrightarrow> - (2 ^ 63) \<le> i \<and> i < 2 ^ 63"

definition parse_digits :: "string \<Rightarrow> nat option" where
  "parse_digits s = (if s \<noteq> [] \<and> list_all is_digit s then Some (digits_val s) else None)"

definition parse_sign :: "string \<Rightarrow> int option" where
  "parse_sign s =
     (case s of
        [] \<Rightarrow> None
      | c # t \<Rightarrow>
          if c = CHR ''-'' then map_option (\<lambda>n. - int n) (parse_digits t)
          else if c = CHR ''+'' then map_option int (parse_digits t)
          else map_option int (parse_digits s))"

definition str_ParseInt :: "string \<Rightarrow> int option" where
  "str_ParseInt s =
     (case parse_sign s of
        None \<Rightarrow> None
      | Some i \<Rightarrow> if in_int64 i then Some i else None)"

lemma of_char_digit_char: "d < 10 \<Longrightarrow> (of_char (digit_char d) :: nat) = 48 + d"
  by (simp add: digit_char_def)

lemma digit_char_digit: "d < 10 \<Longrightarrow> is_digit (digit_char d) \<and> digit_val (digit_char d) = d"
  by (simp add: is_digit_def digit_val_def of_char_digit_char)

lemma digits_val_snoc [simp]: "digits_val (s @ [c]) = 10 * digits_val s + digit_val c"
  by (simp add: digits_val_def)

lemma nat_digits_ok: "nat_digits n \<noteq> [] \<and> list_all is_digit (nat_digits n) \<and> digits_val (nat_digits n) = n"
proof (induction n rule: nat_digits.induct)
  case (1 n)
  show ?case
  proof (cases "n < 10")
    case True
    then show ?thesis by (subst (1 2 3) nat_digits.simps) (simp add: digit_char_digit digits_val_def)
  next
    case False
    then show ?thesis using 1 by (subst (1 2 3) nat_digits.simps) (simp add: digit_char_digit)
  qed
qed

lemma nat_digits_hd: "\<exists>c t. nat_digits n = c # t \<and> is_digit c"
  using nat_digits_ok [of n] by (cases "nat_digits n") auto

lemma parse_digits_Itoa [simp]: "parse_digits (nat_digits n) = Some n"
  using nat_digits_ok [of n] by (simp add: parse_digits_def)

lemma parse_sign_Itoa [simp]: "parse_sign (str_Itoa i) = Some i"
proof (cases "i < 0")
  case True
  then show ?thesis by (simp add: str_Itoa_def parse_sign_def)
next
  case False
  obtain c t where ct: "nat_digits (nat i) = c # t" "is_digit c" using nat_digits_hd by blast
  then have "c \<noteq> CHR ''-''" "c \<noteq> CHR ''+''" by (auto simp: is_digit_def)
  then have "parse_sign (nat_digits (nat i)) = map_option int (parse_digits (nat_digits (nat i)))"
    by (simp add: parse_sign_def ct(1))
  then show ?thesis using False by (simp add: str_Itoa_def)
qed

lemma str_ParseInt_Itoa: "in_int64 i \<Longrightarrow> str_ParseInt (str_Itoa i) = Some i"
  by (simp add: str_ParseInt_def)

lemma str_ParseInt_range: "str_ParseInt s = Some i \<Longrightarrow> in_int64 i"
  by (auto simp: str_ParseInt_def split: option.splits if_splits)

section \<open>Hexadecimal bytes\<close>

definition hex_digit :: "nat \<Rightarrow> char" where
  "hex_digit d = (if d < 10 then char_of (48 + d) else char_of (87 + d))"

definition hex_val :: "char \<Rightarrow> nat option" where
  "hex_val c =
     (let n = of_char c :: nat
      in if 48 \<le> n \<and> n \<le> 57 then Some (n - 48)
         else if 97 \<le> n \<and> n \<le> 102 then Some (n - 87)
         else if 65 \<le> n \<and> n \<le> 70 then Some (n - 55)
         else None)"

definition hex_EncodeToString :: "bytes \<Rightarrow> string" where
  "hex_EncodeToString bs = concat (map (\<lambda>b. [hex_digit (unat b div 16), hex_digit (unat b mod 16)]) bs)"

fun hex_DecodeString :: "string \<Rightarrow> bytes option" where
  "hex_DecodeString [] = Some []"
| "hex_DecodeString [c] = None"
| "hex_DecodeString (c # d # s) =
     (case (hex_val c, hex_val d, hex_DecodeString s) of
        (Some h, Some l, Some bs) \<Rightarrow> Some (of_nat (16 * h + l) # bs)
      | _ \<Rightarrow> None)"

lemma hex_val_digit: "d < 16 \<Longrightarrow> hex_val (hex_digit d) = Some d"
  by (auto simp: hex_val_def hex_digit_def)

lemma hex_decode_encode [codec_simps]: "hex_DecodeString (hex_EncodeToString bs) = Some bs"
proof (induction bs)
  case Nil
  then show ?case by (simp add: hex_EncodeToString_def)
next
  case (Cons b bs)
  have unat_lt: "unat b < 256" using unsigned_less [of b] by simp
  have b: "unat b div 16 < 16" "unat b mod 16 < 16"
    using unat_lt by (simp_all add: less_mult_imp_div_less)
  have "(of_nat (16 * (unat b div 16) + unat b mod 16) :: byte) = b"
    by simp
  then show ?case using Cons b by (simp add: hex_EncodeToString_def hex_val_digit)
qed

lemma length_hex_encode [simp]: "length (hex_EncodeToString bs) = 2 * length bs"
  by (induction bs) (auto simp: hex_EncodeToString_def)

lemma hex_decode_length: "hex_DecodeString s = Some bs \<Longrightarrow> length s = 2 * length bs"
  by (induction s arbitrary: bs rule: hex_DecodeString.induct) (auto split: option.splits)

end
