(* ===== verification/Server_Metrics.thy ===== *)
theory Server_Metrics
  imports Go_Text
begin

text \<open>
  The counters of \<open>server/metrics.go\<close> and its resource monitor. The counters are 64-bit
  words that wrap; the monitor keeps the last successful sample of the descriptor counts, -1
  before the first one. The contents of the two files under \<open>/proc\<close> are arguments of the
  definitions.
\<close>

section \<open>Counters\<close>

record serverMetrics =
  m_sessionsAdmitted :: u64
  m_rejectedDrain :: u64
  m_rejectedSessions :: u64
  m_rejectedHandshakes :: u64
  m_rejectedGoroutines :: u64
  m_rejectedFDs :: u64
  m_handshakeFailures :: u64
  m_backendDialErrors :: u64
  m_backendReadErrors :: u64
  m_backendWriteErrors :: u64
  m_udpDownlinkDrops :: u64
  m_packetsToBackend :: u64
  m_packetsFromBackend :: u64
  m_drainStarted :: u64
  m_drainCompleted :: u64
  m_drainForced :: u64
  m_draining :: bool

definition newServerMetrics :: serverMetrics where
  "newServerMetrics =
     \<lparr>m_sessionsAdmitted = 0, m_rejectedDrain = 0, m_rejectedSessions = 0, m_rejectedHandshakes = 0,
      m_rejectedGoroutines = 0, m_rejectedFDs = 0, m_handshakeFailures = 0, m_backendDialErrors = 0,
      m_backendReadErrors = 0, m_backendWriteErrors = 0, m_udpDownlinkDrops = 0,
      m_packetsToBackend = 0, m_packetsFromBackend = 0, m_drainStarted = 0, m_drainCompleted = 0,
      m_drainForced = 0, m_draining = False\<rparr>"

definition admissionReasonDrain :: string where "admissionReasonDrain = ''drain''"
definition admissionReasonSessions :: string where "admissionReasonSessions = ''sessions''"
definition admissionReasonHandshakes :: string where "admissionReasonHandshakes = ''handshakes''"
definition admissionReasonGoroutines :: string where "admissionReasonGoroutines = ''goroutines''"
definition admissionReasonFDs :: string where "admissionReasonFDs = ''file_descriptors''"

lemmas admission_reasons = admissionReasonDrain_def admissionReasonSessions_def
  admissionReasonHandshakes_def admissionReasonGoroutines_def admissionReasonFDs_def

definition recordAdmissionRejected :: "string \<Rightarrow> serverMetrics \<Rightarrow> serverMetrics" where
  "recordAdmissionRejected reason m =
     (if reason = admissionReasonDrain then m\<lparr>m_rejectedDrain := m_rejectedDrain m + 1\<rparr>
      else if reason = admissionReasonSessions then m\<lparr>m_rejectedSessions := m_rejectedSessions m + 1\<rparr>
      else if reason = admissionReasonHandshakes
      then m\<lparr>m_rejectedHandshakes := m_rejectedHandshakes m + 1\<rparr>
      else if reason = admissionReasonGoroutines
      then m\<lparr>m_rejectedGoroutines := m_rejectedGoroutines m + 1\<rparr>
      else if reason = admissionReasonFDs then m\<lparr>m_rejectedFDs := m_rejectedFDs m + 1\<rparr>
      else m)"

definition recordBackendError :: "string \<Rightarrow> serverMetrics \<Rightarrow> serverMetrics" where
  "recordBackendError operation m =
     (if operation = ''dial'' then m\<lparr>m_backendDialErrors := m_backendDialErrors m + 1\<rparr>
      else if operation = ''read'' then m\<lparr>m_backendReadErrors := m_backendReadErrors m + 1\<rparr>
      else if operation = ''write'' then m\<lparr>m_backendWriteErrors := m_backendWriteErrors m + 1\<rparr>
      else m)"

definition rejected_total :: "serverMetrics \<Rightarrow> u64" where
  "rejected_total m = m_rejectedDrain m + m_rejectedSessions m + m_rejectedHandshakes m
     + m_rejectedGoroutines m + m_rejectedFDs m"

lemma rejected_total_record:
  "reason \<in> {admissionReasonDrain, admissionReasonSessions, admissionReasonHandshakes,
      admissionReasonGoroutines, admissionReasonFDs} \<Longrightarrow>
   rejected_total (recordAdmissionRejected reason m) = rejected_total m + 1"
  by (auto simp: recordAdmissionRejected_def rejected_total_def admission_reasons)

lemma recordAdmissionRejected_frame [frame_simps]:
  "m_sessionsAdmitted (recordAdmissionRejected reason m) = m_sessionsAdmitted m"
  "m_draining (recordAdmissionRejected reason m) = m_draining m"
  "m_drainStarted (recordAdmissionRejected reason m) = m_drainStarted m"
  "m_drainCompleted (recordAdmissionRejected reason m) = m_drainCompleted m"
  "m_drainForced (recordAdmissionRejected reason m) = m_drainForced m"
  by (simp_all add: recordAdmissionRejected_def)

section \<open>The resource monitor\<close>

record resourceMonitor =
  openFDs :: int
  maxFDs :: int

text \<open>The loop over the lines of \<open>/proc/self/limits\<close>. A line that is not the one wanted, or whose
  number does not parse, is skipped.\<close>

primrec scan_limits :: "string list \<Rightarrow> int" where
  "scan_limits [] = -1"
| "scan_limits (line # rest) =
     (let fields = str_Fields line
      in if 4 \<le> length fields \<and> str_Join (take 3 fields) '' '' = ''Max open files''
         then if fields ! 3 = ''unlimited'' then -1
              else (case str_ParseInt (fields ! 3) of
                      Some value \<Rightarrow> value
                    | None \<Rightarrow> scan_limits rest)
         else scan_limits rest)"

definition readMaxOpenFiles :: "string option \<Rightarrow> int" where
  "readMaxOpenFiles contents =
     (case contents of
        None \<Rightarrow> -1
      | Some c \<Rightarrow> scan_limits (str_Split (CHR 0x0A) c))"

text \<open>\<open>sample\<close>: a failed directory read or a limit that is not positive keeps the old value.\<close>

definition resource_sample ::
  "nat option \<Rightarrow> string option \<Rightarrow> resourceMonitor \<Rightarrow> resourceMonitor" where
  "resource_sample entries limits r =
     (let r1 = (case entries of None \<Rightarrow> r | Some n \<Rightarrow> r\<lparr>openFDs := int n\<rparr>);
          limit = readMaxOpenFiles limits
      in if 0 < limit then r1\<lparr>maxFDs := limit\<rparr> else r1)"

definition newResourceMonitor :: "nat option \<Rightarrow> string option \<Rightarrow> resourceMonitor" where
  "newResourceMonitor entries limits = resource_sample entries limits \<lparr>openFDs = -1, maxFDs = -1\<rparr>"

definition fdCounts :: "resourceMonitor \<Rightarrow> int \<times> int" where
  "fdCounts r = (openFDs r, maxFDs r)"

definition monitor_ok :: "resourceMonitor \<Rightarrow> bool" where
  "monitor_ok r \<longleftrightarrow> -1 \<le> openFDs r \<and> (maxFDs r = -1 \<or> 0 < maxFDs r) \<and> maxFDs r < 2 ^ 63"

lemma scan_limits_range: "in_int64 (scan_limits ls)"
  by (induction ls)
    (auto simp: Let_def in_int64_def dest!: str_ParseInt_range [unfolded in_int64_def] split: option.splits)

lemma sample_ok: "monitor_ok r \<Longrightarrow> monitor_ok (resource_sample entries limits r)"
  using scan_limits_range
  by (auto simp: resource_sample_def monitor_ok_def readMaxOpenFiles_def Let_def in_int64_def
      split: option.splits)

lemma first_three_words:
  assumes "list_all is_word ws" and "4 \<le> length ws" and "str_Join (take 3 ws) '' '' = ''Max open files''"
  shows "take 3 ws = [''Max'', ''open'', ''files'']"
proof -
  have nospace: "CHR '' '' \<notin> set w" if "w \<in> set (take 3 ws)" for w
    using assms(1) in_set_takeD [OF that] by (fastforce simp: list_all_iff is_word_def is_space_def)
  have "take 3 ws \<noteq> []" using assms(2) by auto
  then have "take 3 ws = str_Split (CHR '' '') (str_Join (take 3 ws) [CHR '' ''])"
    using nospace by (simp add: str_Split_Join)
  also have "\<dots> = str_Split (CHR '' '') ''Max open files''" by (simp only: assms(3))
  also have "\<dots> = [''Max'', ''open'', ''files'']" by simp
  finally show ?thesis .
qed

lemma scan_limits_skip:
  assumes "\<forall>l \<in> set before. take 3 (str_Fields l) \<noteq> [''Max'', ''open'', ''files'']"
  shows "scan_limits (before @ rest) = scan_limits rest"
  using assms
proof (induction before)
  case Nil
  then show ?case by simp
next
  case (Cons b bs)
  have "\<not> (4 \<le> length (str_Fields b) \<and> str_Join (take 3 (str_Fields b)) '' '' = ''Max open files'')"
    using first_three_words [OF str_Fields_words [of b]] Cons.prems by auto
  then show ?case using Cons unfolding append_Cons scan_limits.simps(2) Let_def by (subst if_not_P) auto
qed

lemma str_Itoa_not_word: "in_int64 i \<Longrightarrow> str_Itoa i \<noteq> ''unlimited''"
  using str_ParseInt_Itoa [of i]
  by (auto simp: str_ParseInt_def parse_sign_def parse_digits_def is_digit_def)

section \<open>Properties\<close>

text \<open>Whatever the two files say, the monitor holds a descriptor count of -1 or more and a
  limit that is -1 or a positive 64-bit number; and the soft limit named by the line
  "Max open files" is taken from among lines that do not start with these words.\<close>

theorem resource_monitor_sound:
  assumes "monitor_ok r"
    and "\<And>l. l \<in> set before \<Longrightarrow> take 3 (str_Fields l) \<noteq> [''Max'', ''open'', ''files'']"
    and "str_Fields line = ''Max'' # ''open'' # ''files'' # str_Itoa limit # rest"
    and "0 < limit" and "in_int64 limit" and "list_all (\<lambda>l. CHR 0x0A \<notin> set l) (before @ line # after)"
  shows "monitor_ok (resource_sample entries limits r)
    \<and> resource_sample (Some n) (Some (str_Join (before @ line # after) [CHR 0x0A])) r
      = r\<lparr>openFDs := int n, maxFDs := limit\<rparr>"
proof -
  have "scan_limits (before @ line # after) = limit"
    using assms(2,3) str_Itoa_not_word [OF assms(5)] str_ParseInt_Itoa [OF assms(5)]
    by (simp add: scan_limits_skip Let_def eval_nat_numeral)
  moreover have "str_Split (CHR 0x0A) (str_Join (before @ line # after) [CHR 0x0A]) = before @ line # after"
    using assms(6) by (intro str_Split_Join) (auto simp: list_all_iff)
  ultimately have "readMaxOpenFiles (Some (str_Join (before @ line # after) [CHR 0x0A])) = limit"
    by (simp add: readMaxOpenFiles_def)
  then show ?thesis
    using assms(4) sample_ok [OF assms(1)] by (simp add: resource_sample_def Let_def)
qed

theorem resource_monitor_sound_witness:
  "resource_sample (Some 7) (Some ''Limit Soft\<newline>Max open files 1024 4096 files\<newline>'')
     \<lparr>openFDs = -1, maxFDs = -1\<rparr> = \<lparr>openFDs = 7, maxFDs = 1024\<rparr>"
proof -
  have "str_Itoa 1024 = ''1024''" by code_simp
  moreover have "str_Fields ''Max open files 1024 4096 files''
      = [''Max'', ''open'', ''files'', ''1024'', ''4096'', ''files'']" by code_simp
  moreover have "str_Fields ''Limit Soft'' = [''Limit'', ''Soft'']" by code_simp
  ultimately show ?thesis
    using resource_monitor_sound [of "\<lparr>openFDs = -1, maxFDs = -1\<rparr>" "[''Limit Soft'']"
        "''Max open files 1024 4096 files''" 1024 "[''4096'', ''files'']" "[[]]" None None 7]
    by (simp add: monitor_ok_def in_int64_def)
qed

end
