(* ===== verification/Admission_Gate.thy ===== *)
theory Admission_Gate
  imports Server_Metrics
begin

text \<open>
  The admission gate of \<open>server/drain.go\<close>: it hands out a lease per admitted connection, counts
  the connections in their handshake and the established ones, refuses new work beyond the
  limits of its configuration, and closes admission for good when the drain begins. Leases are
  objects that handlers hold by reference: the store \<open>ad_leases\<close> maps a reference (an index) to
  the lease. The number of goroutines and the descriptor counts are inputs of the operations.
  The counters are \<open>atomic.Int64\<close>; each lies between 0 and the number of leases, so none wraps
  before the server has admitted \<open>2 ^ 63\<close> connections.
\<close>

section \<open>State\<close>

record admissionConfig =
  maxSessions :: int
  maxHandshakes :: int
  maxGoroutines :: int
  minFreeFDs :: int
  canary :: bool
  canaryMaxSessions :: int

definition effectiveMaxSessions :: "admissionConfig \<Rightarrow> int" where
  "effectiveMaxSessions c =
     (let limit = maxSessions c
      in if canary c \<and> 0 < canaryMaxSessions c \<and> (limit \<le> 0 \<or> canaryMaxSessions c < limit)
         then canaryMaxSessions c else limit)"

record connectionLease =
  ls_established :: bool
  ls_done :: bool

record connectionGate =
  gt_draining :: bool
  gt_wg :: int
  gt_active :: int
  gt_established :: int
  gt_handshakes :: int
  gt_config :: admissionConfig

record admission =
  ad_gate :: connectionGate
  ad_leases :: "connectionLease list"
  ad_metrics :: serverMetrics

record gate_env =
  env_goroutines :: int
  env_resources :: "resourceMonitor option"

definition newConnectionGate :: "admissionConfig \<Rightarrow> connectionGate" where
  "newConnectionGate config =
     \<lparr>gt_draining = False, gt_wg = 0, gt_active = 0, gt_established = 0, gt_handshakes = 0,
      gt_config = config\<rparr>"

section \<open>Operations\<close>

definition rejectionReason :: "gate_env \<Rightarrow> connectionGate \<Rightarrow> string option" where
  "rejectionReason env g =
     (let c = gt_config g in
      if gt_draining g then Some admissionReasonDrain
      else if 0 < effectiveMaxSessions c \<and> effectiveMaxSessions c \<le> gt_active g
      then Some admissionReasonSessions
      else if 0 < maxHandshakes c \<and> maxHandshakes c \<le> gt_handshakes g
      then Some admissionReasonHandshakes
      else if 0 < maxGoroutines c \<and> maxGoroutines c \<le> env_goroutines env
      then Some admissionReasonGoroutines
      else if 0 < minFreeFDs c
           \<and> (case env_resources env of
                None \<Rightarrow> False
              | Some r \<Rightarrow> (let (openFDs, maxFDs) = fdCounts r
                          in 0 \<le> openFDs \<and> 0 < maxFDs \<and> maxFDs - openFDs < minFreeFDs c))
      then Some admissionReasonFDs
      else None)"

definition admit :: "gate_env \<Rightarrow> admission \<Rightarrow> admission \<times> (string + nat)" where
  "admit env a =
     (let g = ad_gate a in
      case rejectionReason env g of
        Some reason \<Rightarrow> (a\<lparr>ad_metrics := recordAdmissionRejected reason (ad_metrics a)\<rparr>, Inl reason)
      | None \<Rightarrow>
          (a\<lparr>ad_gate := g\<lparr>gt_wg := gt_wg g + 1, gt_active := gt_active g + 1,
                        gt_handshakes := gt_handshakes g + 1\<rparr>,
             ad_metrics := (ad_metrics a)\<lparr>m_sessionsAdmitted := m_sessionsAdmitted (ad_metrics a) + 1\<rparr>,
             ad_leases := ad_leases a @ [\<lparr>ls_established = False, ls_done = False\<rparr>]\<rparr>,
           Inr (length (ad_leases a))))"

definition markEstablished :: "nat \<Rightarrow> admission \<Rightarrow> admission" where
  "markEstablished l a =
     (if ls_established (ad_leases a ! l) then a
      else a\<lparr>ad_leases := (ad_leases a)[l := (ad_leases a ! l)\<lparr>ls_established := True\<rparr>],
             ad_gate := (ad_gate a)\<lparr>gt_handshakes := gt_handshakes (ad_gate a) - 1,
                                   gt_established := gt_established (ad_gate a) + 1\<rparr>\<rparr>)"

definition lease_done :: "nat \<Rightarrow> admission \<Rightarrow> admission" where
  "lease_done l a =
     (if ls_done (ad_leases a ! l) then a
      else
        let g = ad_gate a;
            g1 = (if ls_established (ad_leases a ! l) then g\<lparr>gt_established := gt_established g - 1\<rparr>
                  else g\<lparr>gt_handshakes := gt_handshakes g - 1\<rparr>)
        in a\<lparr>ad_leases := (ad_leases a)[l := (ad_leases a ! l)\<lparr>ls_done := True\<rparr>],
             ad_gate := g1\<lparr>gt_active := gt_active g1 - 1, gt_wg := gt_wg g1 - 1\<rparr>\<rparr>)"

definition beginDrain :: "admission \<Rightarrow> admission \<times> int" where
  "beginDrain a =
     (let m = ad_metrics a in
      (a\<lparr>ad_gate := (ad_gate a)\<lparr>gt_draining := True\<rparr>,
         ad_metrics := m\<lparr>m_draining := True, m_drainStarted := m_drainStarted m + 1\<rparr>\<rparr>,
       gt_active (ad_gate a)))"

definition finishDrain :: "bool \<Rightarrow> admission \<Rightarrow> admission" where
  "finishDrain forced a =
     (let m = (ad_metrics a)\<lparr>m_draining := False\<rparr> in
      a\<lparr>ad_metrics := (if forced then m\<lparr>m_drainForced := m_drainForced m + 1\<rparr>
                      else m\<lparr>m_drainCompleted := m_drainCompleted m + 1\<rparr>)\<rparr>)"

text \<open>\<open>wait\<close> returns when the wait group is at zero.\<close>

definition wait_returns :: "admission \<Rightarrow> bool" where
  "wait_returns a \<longleftrightarrow> gt_wg (ad_gate a) = 0"

definition readiness :: "gate_env \<Rightarrow> admission \<Rightarrow> bool \<times> string" where
  "readiness env a =
     (case rejectionReason env (ad_gate a) of
        Some reason \<Rightarrow> (False, reason)
      | None \<Rightarrow> (True, ''ready''))"

text \<open>The handler of \<open>/readyz\<close>: the status code and the body.\<close>

definition readyz :: "gate_env \<Rightarrow> admission \<Rightarrow> nat \<times> string" where
  "readyz env a =
     (let (ready, reason) = readiness env a
      in (if ready then 200 else 503, reason @ [CHR 0x0A]))"

section \<open>Invariant\<close>

definition live_leases :: "admission \<Rightarrow> connectionLease list" where
  "live_leases a = filter (\<lambda>l. \<not> ls_done l) (ad_leases a)"

definition limits_ok :: "connectionGate \<Rightarrow> bool" where
  "limits_ok g \<longleftrightarrow>
     (0 < effectiveMaxSessions (gt_config g) \<longrightarrow> gt_active g \<le> effectiveMaxSessions (gt_config g))
     \<and> (0 < maxHandshakes (gt_config g) \<longrightarrow> gt_handshakes g \<le> maxHandshakes (gt_config g))"

definition gate_inv :: "admission \<Rightarrow> bool" where
  "gate_inv a \<longleftrightarrow>
     gt_active (ad_gate a) = int (length (live_leases a))
     \<and> gt_wg (ad_gate a) = gt_active (ad_gate a)
     \<and> gt_established (ad_gate a) = int (length (filter ls_established (live_leases a)))
     \<and> gt_handshakes (ad_gate a) = int (length (filter (\<lambda>l. \<not> ls_established l) (live_leases a)))
     \<and> limits_ok (ad_gate a)
     \<and> m_sessionsAdmitted (ad_metrics a) = of_nat (length (ad_leases a))"

lemma length_filter_update:
  "l < length xs \<Longrightarrow> int (length (filter P (xs[l := x])))
     = int (length (filter P xs)) - (if P (xs ! l) then 1 else 0) + (if P x then 1 else 0)"
proof (induction xs arbitrary: l)
  case Nil
  then show ?case by simp
next
  case (Cons y ys)
  show ?case
  proof (cases l)
    case 0
    then show ?thesis by simp
  next
    case (Suc k)
    then have "k < length ys" using Cons.prems by simp
    from Cons.IH [OF this] show ?thesis using Suc by (cases "P (ys ! k)"; cases "P x") simp_all
  qed
qed

lemmas lease_counts = live_leases_def filter_filter length_filter_update

lemma gate_inv_new: "gate_inv \<lparr>ad_gate = newConnectionGate c, ad_leases = [], ad_metrics = newServerMetrics\<rparr>"
  by (auto simp: gate_inv_def newConnectionGate_def live_leases_def limits_ok_def newServerMetrics_def)

lemma rejectionReason_None: "rejectionReason env g = None \<Longrightarrow>
    (0 < effectiveMaxSessions (gt_config g) \<longrightarrow> gt_active g < effectiveMaxSessions (gt_config g))
    \<and> (0 < maxHandshakes (gt_config g) \<longrightarrow> gt_handshakes g < maxHandshakes (gt_config g))"
  by (auto simp: rejectionReason_def Let_def split: if_splits)

lemma gate_inv_admit [inv_intros]:
  assumes "gate_inv a"
  shows "gate_inv (fst (admit env a))"
proof (cases "rejectionReason env (ad_gate a)")
  case None
  then show ?thesis
    using assms rejectionReason_None [OF None]
    by (auto simp: gate_inv_def admit_def live_leases_def limits_ok_def)
next
  case (Some reason)
  then show ?thesis using assms by (simp add: gate_inv_def admit_def live_leases_def frame_simps)
qed

lemma gate_inv_markEstablished [inv_intros]:
  assumes "gate_inv a" and "l < length (ad_leases a)" and "\<not> ls_done (ad_leases a ! l)"
  shows "gate_inv (markEstablished l a)"
  using assms by (auto simp: gate_inv_def markEstablished_def lease_counts limits_ok_def)

lemma gate_inv_done [inv_intros]:
  assumes "gate_inv a" and "l < length (ad_leases a)"
  shows "gate_inv (lease_done l a)"
  using assms by (auto simp: gate_inv_def lease_done_def lease_counts limits_ok_def Let_def)

lemma gate_inv_beginDrain [inv_intros]: "gate_inv a \<Longrightarrow> gate_inv (fst (beginDrain a))"
  by (auto simp: gate_inv_def beginDrain_def live_leases_def limits_ok_def Let_def)

lemma gate_inv_finishDrain [inv_intros]: "gate_inv a \<Longrightarrow> gate_inv (finishDrain forced a)"
  by (auto simp: gate_inv_def finishDrain_def live_leases_def limits_ok_def Let_def)

text \<open>Draining is final, and no lease is handed out while draining.\<close>

lemma admit_draining: "gt_draining (ad_gate a) \<Longrightarrow>
    admit env a = (a\<lparr>ad_metrics := recordAdmissionRejected admissionReasonDrain (ad_metrics a)\<rparr>,
      Inl admissionReasonDrain)"
  by (simp add: admit_def rejectionReason_def Let_def)

lemma draining_frame [frame_simps]:
  "gt_draining (ad_gate (fst (admit env a))) = gt_draining (ad_gate a)"
  "gt_draining (ad_gate (markEstablished l a)) = gt_draining (ad_gate a)"
  "gt_draining (ad_gate (lease_done l a)) = gt_draining (ad_gate a)"
  "gt_draining (ad_gate (finishDrain forced a)) = gt_draining (ad_gate a)"
  "gt_draining (ad_gate (fst (beginDrain a)))"
  by (auto simp: admit_def markEstablished_def lease_done_def finishDrain_def beginDrain_def Let_def
      split: option.splits)

lemma leases_frame [frame_simps]:
  "ad_leases (fst (beginDrain a)) = ad_leases a"
  "ad_leases (finishDrain forced a) = ad_leases a"
  "length (ad_leases (markEstablished l a)) = length (ad_leases a)"
  "length (ad_leases (lease_done l a)) = length (ad_leases a)"
  by (simp_all add: beginDrain_def finishDrain_def markEstablished_def lease_done_def Let_def)

lemma admit_lease: "admit env a = (a', Inr l) \<Longrightarrow>
    l = length (ad_leases a) \<and> ad_leases a' = ad_leases a @ [\<lparr>ls_established = False, ls_done = False\<rparr>]
    \<and> \<not> gt_draining (ad_gate a) \<and> ad_gate a' = (ad_gate a)\<lparr>gt_wg := gt_wg (ad_gate a) + 1,
        gt_active := gt_active (ad_gate a) + 1, gt_handshakes := gt_handshakes (ad_gate a) + 1\<rparr>"
  by (auto simp: admit_def Let_def rejectionReason_def split: option.splits if_splits)

lemma admit_reject: "admit env a = (a', Inl reason) \<Longrightarrow>
    rejectionReason env (ad_gate a) = Some reason
    \<and> a' = a\<lparr>ad_metrics := recordAdmissionRejected reason (ad_metrics a)\<rparr>"
  by (auto simp: admit_def Let_def split: option.splits)

lemma live_leases_Nil: "gate_inv a \<Longrightarrow> gt_wg (ad_gate a) = 0 \<longleftrightarrow> (\<forall>l \<in> set (ad_leases a). ls_done l)"
  by (auto simp: gate_inv_def live_leases_def filter_empty_conv)

section \<open>Properties\<close>

text \<open>What the four limits of the configuration mean: a connection is refused exactly when the
  gate drains, the effective session limit, the handshake limit or the goroutine limit is set
  and reached, or the descriptors that are left fall below the reserve; the readiness endpoint
  answers 200 exactly when the next connection would be admitted.\<close>

theorem admission_decision:
  "readiness env a = (case snd (admit env a) of Inl reason \<Rightarrow> (False, reason) | Inr l \<Rightarrow> (True, ''ready''))
   \<and> (fst (readyz env a) = 200 \<longleftrightarrow> (\<exists>l. snd (admit env a) = Inr l))
   \<and> ((\<exists>l. snd (admit env a) = Inr l) \<longleftrightarrow>
      \<not> gt_draining (ad_gate a)
      \<and> (effectiveMaxSessions (gt_config (ad_gate a)) \<le> 0
         \<or> gt_active (ad_gate a) < effectiveMaxSessions (gt_config (ad_gate a)))
      \<and> (maxHandshakes (gt_config (ad_gate a)) \<le> 0
         \<or> gt_handshakes (ad_gate a) < maxHandshakes (gt_config (ad_gate a)))
      \<and> (maxGoroutines (gt_config (ad_gate a)) \<le> 0
         \<or> env_goroutines env < maxGoroutines (gt_config (ad_gate a)))
      \<and> (minFreeFDs (gt_config (ad_gate a)) \<le> 0
         \<or> (case env_resources env of None \<Rightarrow> True | Some r \<Rightarrow>
              openFDs r < 0 \<or> maxFDs r \<le> 0
              \<or> minFreeFDs (gt_config (ad_gate a)) \<le> maxFDs r - openFDs r)))"
proof -
  have r: "(\<exists>l. snd (admit env a) = Inr l) \<longleftrightarrow> rejectionReason env (ad_gate a) = None"
    by (auto simp: admit_def Let_def split: option.splits)
  show ?thesis
    unfolding r
    by (auto simp: readyz_def readiness_def admit_def rejectionReason_def fdCounts_def Let_def
        split: option.splits)
qed

text \<open>Every rejection is counted exactly once and under its own reason, and changes nothing
  else; every admission is counted once and adds one lease that is still in its handshake.\<close>

theorem admission_accounting:
  "case admit env a of
     (a', Inl reason) \<Rightarrow>
       rejected_total (ad_metrics a') = rejected_total (ad_metrics a) + 1
       \<and> m_sessionsAdmitted (ad_metrics a') = m_sessionsAdmitted (ad_metrics a)
       \<and> ad_gate a' = ad_gate a \<and> ad_leases a' = ad_leases a
   | (a', Inr l) \<Rightarrow>
       rejected_total (ad_metrics a') = rejected_total (ad_metrics a)
       \<and> m_sessionsAdmitted (ad_metrics a') = m_sessionsAdmitted (ad_metrics a) + 1
       \<and> gt_active (ad_gate a') = gt_active (ad_gate a) + 1
       \<and> ad_leases a' = ad_leases a @ [\<lparr>ls_established = False, ls_done = False\<rparr>] \<and> l = length (ad_leases a)"
proof (cases "rejectionReason env (ad_gate a)")
  case None
  then show ?thesis by (simp add: admit_def Let_def rejected_total_def)
next
  case (Some reason)
  then have "reason \<in> {admissionReasonDrain, admissionReasonSessions, admissionReasonHandshakes,
      admissionReasonGoroutines, admissionReasonFDs}"
    by (auto simp: rejectionReason_def Let_def split: if_splits)
  then show ?thesis using Some by (simp add: admit_def Let_def rejected_total_record frame_simps)
qed

text \<open>A canary instance never has a looser session limit than its own ceiling, and never a
  looser one than the configured limit.\<close>

theorem canary_limit:
  "effectiveMaxSessions c = (if canary c \<and> 0 < canaryMaxSessions c
     then (if 0 < maxSessions c then min (maxSessions c) (canaryMaxSessions c) else canaryMaxSessions c)
     else maxSessions c)"
  by (auto simp: effectiveMaxSessions_def Let_def min_def)

end
