(* ===== verification/Server_Lifecycle.thy ===== *)
theory Server_Lifecycle
  imports Admission_Gate
begin

text \<open>
  The lifetime of the server process (\<open>main\<close> of \<open>server/main.go\<close> from the accept loop to the end):
  the accept goroutine admits or closes connections, a handler goroutine per lease performs the
  handshake, serves, closes its connection and releases its lease, and the main goroutine waits
  for a signal, drains, forces the end after a timeout or a second signal, cancels the lifetime
  context, closes the listener and waits for the handlers. A step of the relation is one such
  action of one goroutine.
\<close>

section \<open>State\<close>

datatype handler_pc = Handshaking | Serving | Closing | Releasing | Finished

datatype main_pc = WaitSignal | DrainWait | Finishing bool | Cancelled | ListenerClosed | Exited

record server =
  sv_adm :: admission
  sv_handlers :: "handler_pc list"
  sv_main :: main_pc
  sv_drained :: bool
  sv_ctx_done :: bool
  sv_listener_open :: bool
  sv_accepting :: bool

definition server_start :: "server \<Rightarrow> bool" where
  "server_start s \<longleftrightarrow>
     (\<exists>c. s = \<lparr>sv_adm = \<lparr>ad_gate = newConnectionGate c, ad_leases = [], ad_metrics = newServerMetrics\<rparr>,
               sv_handlers = [], sv_main = WaitSignal, sv_drained = False, sv_ctx_done = False,
               sv_listener_open = True, sv_accepting = True\<rparr>)"

section \<open>Actions\<close>

definition set_handler :: "nat \<Rightarrow> handler_pc \<Rightarrow> server \<Rightarrow> server" where
  "set_handler l pc s = s\<lparr>sv_handlers := (sv_handlers s)[l := pc]\<rparr>"

definition accept_conn :: "gate_env \<Rightarrow> server \<Rightarrow> server" where
  "accept_conn env s =
     (case admit env (sv_adm s) of
        (a, Inl reason) \<Rightarrow> s\<lparr>sv_adm := a\<rparr>
      | (a, Inr lease) \<Rightarrow> s\<lparr>sv_adm := a, sv_handlers := sv_handlers s @ [Handshaking]\<rparr>)"

text \<open>The handshake: it succeeds, it fails and is counted, or the connection has the wrong type.\<close>

datatype handshake_result = HandshakeOk | HandshakeFailed | NotDTLS

definition finish_handshake :: "nat \<Rightarrow> handshake_result \<Rightarrow> server \<Rightarrow> server" where
  "finish_handshake l res s =
     (case res of
        HandshakeOk \<Rightarrow> set_handler l Serving (s\<lparr>sv_adm := markEstablished l (sv_adm s)\<rparr>)
      | HandshakeFailed \<Rightarrow>
          (let a = sv_adm s; m = ad_metrics a in
           set_handler l Closing
             (s\<lparr>sv_adm := a\<lparr>ad_metrics := m\<lparr>m_handshakeFailures := m_handshakeFailures m + 1\<rparr>\<rparr>\<rparr>))
      | NotDTLS \<Rightarrow> set_handler l Closing s)"

definition handler_at :: "server \<Rightarrow> nat \<Rightarrow> handler_pc \<Rightarrow> bool" where
  "handler_at s l pc \<longleftrightarrow> l < length (sv_handlers s) \<and> sv_handlers s ! l = pc"

inductive server_step :: "server \<Rightarrow> server \<Rightarrow> bool" where
  accept: "sv_accepting s \<Longrightarrow> sv_listener_open s \<Longrightarrow> server_step s (accept_conn env s)"
| accept_failed: "sv_accepting s \<Longrightarrow> server_step s (s\<lparr>sv_accepting := False\<rparr>)"
| handshake: "handler_at s l Handshaking \<Longrightarrow> server_step s (finish_handshake l res s)"
| serve_end: "handler_at s l Serving \<Longrightarrow> server_step s (set_handler l Closing s)"
| conn_close: "handler_at s l Closing \<Longrightarrow> server_step s (set_handler l Releasing s)"
| release: "handler_at s l Releasing \<Longrightarrow>
    server_step s (set_handler l Finished (s\<lparr>sv_adm := lease_done l (sv_adm s)\<rparr>))"
| first_signal: "sv_main s = WaitSignal \<Longrightarrow>
    server_step s (s\<lparr>sv_adm := fst (beginDrain (sv_adm s)), sv_main := DrainWait\<rparr>)"
| drain_watch: "sv_main s \<noteq> WaitSignal \<Longrightarrow> wait_returns (sv_adm s) \<Longrightarrow>
    server_step s (s\<lparr>sv_drained := True\<rparr>)"
| drain_complete: "sv_main s = DrainWait \<Longrightarrow> sv_drained s \<Longrightarrow>
    server_step s (s\<lparr>sv_adm := finishDrain False (sv_adm s), sv_main := Finishing False\<rparr>)"
| drain_forced: "sv_main s = DrainWait \<Longrightarrow>
    server_step s (s\<lparr>sv_adm := finishDrain True (sv_adm s), sv_main := Finishing True\<rparr>)"
| cancel: "sv_main s = Finishing forced \<Longrightarrow>
    server_step s (s\<lparr>sv_ctx_done := True, sv_main := Cancelled\<rparr>)"
| close_listener: "sv_main s = Cancelled \<Longrightarrow>
    server_step s (s\<lparr>sv_listener_open := False, sv_main := ListenerClosed\<rparr>)"
| exit_main: "sv_main s = ListenerClosed \<Longrightarrow> wait_returns (sv_adm s) \<Longrightarrow> \<not> sv_accepting s \<Longrightarrow>
    server_step s (s\<lparr>sv_main := Exited\<rparr>)"

inductive_cases server_stepE: "server_step s t"

abbreviation server_steps :: "server \<Rightarrow> server \<Rightarrow> bool" where
  "server_steps \<equiv> rtranclp server_step"

section \<open>Invariant\<close>

fun lease_agrees :: "connectionLease \<Rightarrow> handler_pc \<Rightarrow> bool" where
  "lease_agrees l Handshaking = (\<not> ls_established l \<and> \<not> ls_done l)"
| "lease_agrees l Serving = (ls_established l \<and> \<not> ls_done l)"
| "lease_agrees l Closing = (\<not> ls_done l)"
| "lease_agrees l Releasing = (\<not> ls_done l)"
| "lease_agrees l Finished = ls_done l"

definition handlers_agree :: "server \<Rightarrow> bool" where
  "handlers_agree s \<longleftrightarrow> list_all2 lease_agrees (ad_leases (sv_adm s)) (sv_handlers s)"

definition drain_counts :: "server \<Rightarrow> bool" where
  "drain_counts s \<longleftrightarrow>
     (let m = ad_metrics (sv_adm s) in
      (m_drainStarted m, m_drainCompleted m + m_drainForced m, m_draining m)
        = (case sv_main s of
             WaitSignal \<Rightarrow> (0, 0, False)
           | DrainWait \<Rightarrow> (1, 0, True)
           | _ \<Rightarrow> (1, 1, False)))"

definition phase_ok :: "server \<Rightarrow> bool" where
  "phase_ok s \<longleftrightarrow>
     (gt_draining (ad_gate (sv_adm s)) \<longleftrightarrow> sv_main s \<noteq> WaitSignal)
     \<and> (sv_drained s \<longrightarrow> gt_draining (ad_gate (sv_adm s)) \<and> wait_returns (sv_adm s))
     \<and> (sv_ctx_done s \<longleftrightarrow> sv_main s \<in> {Cancelled, ListenerClosed, Exited})
     \<and> (sv_listener_open s \<longleftrightarrow> sv_main s \<notin> {ListenerClosed, Exited})
     \<and> (sv_main s = Finishing False \<longrightarrow> wait_returns (sv_adm s))
     \<and> (m_drainCompleted (ad_metrics (sv_adm s)) \<noteq> 0 \<longrightarrow>
          wait_returns (sv_adm s) \<and> sv_main s \<notin> {WaitSignal, DrainWait})
     \<and> (sv_main s = Exited \<longrightarrow> wait_returns (sv_adm s) \<and> \<not> sv_accepting s)"

definition server_inv :: "server \<Rightarrow> bool" where
  "server_inv s \<longleftrightarrow> gate_inv (sv_adm s) \<and> handlers_agree s \<and> drain_counts s \<and> phase_ok s"

lemma server_inv_start: "server_start s \<Longrightarrow> server_inv s"
  using gate_inv_new
  by (auto simp: server_start_def server_inv_def handlers_agree_def drain_counts_def
      phase_ok_def newServerMetrics_def newConnectionGate_def)

lemma set_handler_simps [simp]:
  "sv_adm (set_handler l pc s) = sv_adm s"
  "sv_main (set_handler l pc s) = sv_main s"
  "sv_drained (set_handler l pc s) = sv_drained s"
  "sv_ctx_done (set_handler l pc s) = sv_ctx_done s"
  "sv_listener_open (set_handler l pc s) = sv_listener_open s"
  "sv_accepting (set_handler l pc s) = sv_accepting s"
  "sv_handlers (set_handler l pc s) = (sv_handlers s)[l := pc]"
  by (simp_all add: set_handler_def)

text \<open>The operations of the gate on an agreeing lease store.\<close>

lemma agree_lease:
  assumes "handlers_agree s" and "handler_at s l pc"
  shows "l < length (ad_leases (sv_adm s)) \<and> lease_agrees (ad_leases (sv_adm s) ! l) pc"
  using assms by (auto simp: handlers_agree_def handler_at_def list_all2_conv_all_nth)

lemma agree_update:
  assumes "handlers_agree s" and "handler_at s l pc0" and "lease_agrees x pc"
  shows "list_all2 lease_agrees ((ad_leases (sv_adm s))[l := x]) ((sv_handlers s)[l := pc])"
  using assms by (auto simp: handlers_agree_def list_all2_update_cong)

lemma agree_update_pc:
  assumes "handlers_agree s" and "handler_at s l pc0" and "lease_agrees (ad_leases (sv_adm s) ! l) pc"
  shows "list_all2 lease_agrees (ad_leases (sv_adm s)) ((sv_handlers s)[l := pc])"
  using agree_update [OF assms] by simp

lemma metrics_frame [frame_simps]:
  "ad_metrics (markEstablished l a) = ad_metrics a"
  "ad_metrics (lease_done l a) = ad_metrics a"
  by (simp_all add: markEstablished_def lease_done_def Let_def)

lemma inv_accept: "server_inv s \<Longrightarrow> sv_accepting s \<Longrightarrow> sv_listener_open s \<Longrightarrow> server_inv (accept_conn env s)"
proof -
  assume inv: "server_inv s" and acc: "sv_accepting s" "sv_listener_open s"
  obtain a r where ar: "admit env (sv_adm s) = (a, r)" by fastforce
  have g: "gate_inv a" using gate_inv_admit [of "sv_adm s" env] inv ar by (simp add: server_inv_def)
  show ?thesis
  proof (cases r)
    case (Inl reason)
    then show ?thesis
      using inv g ar admit_reject [of env "sv_adm s" a reason]
      by (auto simp: accept_conn_def server_inv_def handlers_agree_def drain_counts_def phase_ok_def
          wait_returns_def frame_simps Let_def)
  next
    case (Inr l)
    have "ad_metrics a = (ad_metrics (sv_adm s))
        \<lparr>m_sessionsAdmitted := m_sessionsAdmitted (ad_metrics (sv_adm s)) + 1\<rparr>"
      using ar Inr by (auto simp: admit_def Let_def split: option.splits)
    then show ?thesis
      using inv g ar Inr admit_lease [of env "sv_adm s" a l] acc
      by (auto simp: accept_conn_def server_inv_def handlers_agree_def drain_counts_def phase_ok_def
          wait_returns_def frame_simps Let_def intro!: list_all2_appendI)
  qed
qed

lemma wait_returns_alive:
  assumes "server_inv s" and "handler_at s l pc" and "pc \<noteq> Finished"
  shows "\<not> wait_returns (sv_adm s)"
proof -
  have l: "l < length (ad_leases (sv_adm s))" "lease_agrees (ad_leases (sv_adm s) ! l) pc"
    using agree_lease assms by (auto simp: server_inv_def)
  then have "\<not> ls_done (ad_leases (sv_adm s) ! l)" using assms(3) by (cases pc) auto
  then show ?thesis
    using live_leases_Nil [of "sv_adm s"] l(1) assms(1) by (auto simp: server_inv_def wait_returns_def)
qed

lemma all_finished:
  assumes "server_inv s" and "wait_returns (sv_adm s)"
  shows "set (sv_handlers s) \<subseteq> {Finished}"
proof
  fix pc
  assume "pc \<in> set (sv_handlers s)"
  then obtain l where "handler_at s l pc" by (auto simp: in_set_conv_nth handler_at_def)
  then show "pc \<in> {Finished}" using wait_returns_alive [OF assms(1)] assms(2) by blast
qed

lemma inv_handler_pc:
  assumes "server_inv s" and "handler_at s l pc0" and "lease_agrees (ad_leases (sv_adm s) ! l) pc"
  shows "server_inv (set_handler l pc s)"
  using assms agree_update_pc [of s l pc0 pc]
  by (auto simp: server_inv_def handlers_agree_def drain_counts_def phase_ok_def)

lemma inv_handshake:
  assumes "server_inv s" and "handler_at s l Handshaking"
  shows "server_inv (finish_handshake l res s)"
proof -
  have l: "l < length (ad_leases (sv_adm s))" "\<not> ls_established (ad_leases (sv_adm s) ! l)"
    "\<not> ls_done (ad_leases (sv_adm s) ! l)"
    using agree_lease [of s l Handshaking] assms by (auto simp: server_inv_def)
  note alive = wait_returns_alive [OF assms]
  show ?thesis
  proof (cases res)
    case HandshakeOk
    have "gate_inv (markEstablished l (sv_adm s))"
      using assms l gate_inv_markEstablished by (auto simp: server_inv_def)
    moreover have "list_all2 lease_agrees (ad_leases (markEstablished l (sv_adm s))) ((sv_handlers s)[l := Serving])"
      using agree_update [of s l Handshaking _ Serving] assms l by (simp add: server_inv_def markEstablished_def)
    ultimately show ?thesis
      using assms(1) alive HandshakeOk
      by (auto simp: finish_handshake_def server_inv_def handlers_agree_def drain_counts_def
          phase_ok_def frame_simps)
  next
    case HandshakeFailed
    let ?t = "finish_handshake l HandshakeFailed s"
    have "list_all2 lease_agrees (ad_leases (sv_adm s)) ((sv_handlers s)[l := Closing])"
      using agree_update_pc [of s l Handshaking Closing] assms l by (simp add: server_inv_def)
    then have "handlers_agree ?t" by (simp add: finish_handshake_def handlers_agree_def Let_def)
    moreover have "gate_inv (sv_adm ?t)"
      using assms(1) by (simp add: server_inv_def finish_handshake_def gate_inv_def live_leases_def Let_def)
    moreover have "drain_counts ?t"
      using assms(1) by (simp add: server_inv_def finish_handshake_def drain_counts_def Let_def)
    moreover have "phase_ok ?t"
      using assms(1) by (auto simp: server_inv_def finish_handshake_def phase_ok_def wait_returns_def Let_def)
    ultimately show ?thesis using HandshakeFailed by (simp add: server_inv_def)
  next
    case NotDTLS
    then show ?thesis using inv_handler_pc [OF assms, of Closing] l by (simp add: finish_handshake_def)
  qed
qed

lemma inv_release:
  assumes "server_inv s" and "handler_at s l Releasing"
  shows "server_inv (set_handler l Finished (s\<lparr>sv_adm := lease_done l (sv_adm s)\<rparr>))"
proof -
  have l: "l < length (ad_leases (sv_adm s))" "\<not> ls_done (ad_leases (sv_adm s) ! l)"
    using agree_lease [of s l Releasing] assms by (auto simp: server_inv_def)
  have "gate_inv (lease_done l (sv_adm s))"
    using assms l gate_inv_done by (auto simp: server_inv_def)
  moreover have "list_all2 lease_agrees (ad_leases (lease_done l (sv_adm s))) ((sv_handlers s)[l := Finished])"
    using agree_update [of s l Releasing _ Finished] assms l by (simp add: server_inv_def lease_done_def Let_def)
  moreover have "\<not> wait_returns (sv_adm s)" using wait_returns_alive [OF assms] by simp
  ultimately show ?thesis
    using assms(1)
    by (auto simp: server_inv_def handlers_agree_def drain_counts_def phase_ok_def frame_simps)
qed

lemma inv_drain_start:
  "server_inv s \<Longrightarrow> sv_main s = WaitSignal \<Longrightarrow>
     server_inv (s\<lparr>sv_adm := fst (beginDrain (sv_adm s)), sv_main := DrainWait\<rparr>)"
  using gate_inv_beginDrain [of "sv_adm s"]
  by (auto simp: server_inv_def handlers_agree_def drain_counts_def phase_ok_def frame_simps
      beginDrain_def wait_returns_def Let_def)

lemma inv_drain_end:
  "server_inv s \<Longrightarrow> sv_main s = DrainWait \<Longrightarrow> (\<not> forced \<Longrightarrow> sv_drained s) \<Longrightarrow>
     server_inv (s\<lparr>sv_adm := finishDrain forced (sv_adm s), sv_main := Finishing forced\<rparr>)"
  using gate_inv_finishDrain [of "sv_adm s" forced]
  by (auto simp: server_inv_def handlers_agree_def drain_counts_def phase_ok_def frame_simps
      finishDrain_def wait_returns_def Let_def)

lemma server_inv_step: "server_step s t \<Longrightarrow> server_inv s \<Longrightarrow> server_inv t"
proof (induction rule: server_step.induct)
  case (serve_end s l)
  then show ?case using inv_handler_pc [of s l Serving] agree_lease [of s l Serving] by (auto simp: server_inv_def)
next
  case (conn_close s l)
  then show ?case using inv_handler_pc [of s l Closing] agree_lease [of s l Closing] by (auto simp: server_inv_def)
next
  case (drain_watch s)
  then show ?case by (auto simp: server_inv_def handlers_agree_def drain_counts_def phase_ok_def)
next
  case (drain_forced s)
  then show ?case using inv_drain_end [of s True] by simp
next
  case (accept_failed s)
  then show ?case by (auto simp: server_inv_def handlers_agree_def drain_counts_def phase_ok_def)
next
  case (cancel s forced)
  then show ?case by (auto simp: server_inv_def handlers_agree_def drain_counts_def phase_ok_def)
next
  case (close_listener s)
  then show ?case by (auto simp: server_inv_def handlers_agree_def drain_counts_def phase_ok_def)
next
  case (exit_main s)
  then show ?case by (auto simp: server_inv_def handlers_agree_def drain_counts_def phase_ok_def)
qed (use inv_accept inv_handshake inv_release inv_drain_start inv_drain_end in auto)

interpretation lifecycle: invariant_system server_start server_step server_inv
  using server_inv_start server_inv_step by unfold_locales auto

section \<open>The server can always end\<close>

definition handler_weight :: "handler_pc \<Rightarrow> nat" where
  "handler_weight pc = (case pc of Handshaking \<Rightarrow> 3 | Serving \<Rightarrow> 3 | Closing \<Rightarrow> 2 | Releasing \<Rightarrow> 1 | Finished \<Rightarrow> 0)"

definition server_weight :: "server \<Rightarrow> nat" where
  "server_weight s = sum_list (map handler_weight (sv_handlers s))"

lemma server_weight_update:
  assumes "handler_at s l pc" and "handler_weight pc' < handler_weight pc" and "sv_handlers t = (sv_handlers s)[l := pc']"
  shows "server_weight t < server_weight s"
proof -
  have l: "l < length (sv_handlers s)" and pc: "sv_handlers s ! l = pc"
    using assms(1) by (auto simp: handler_at_def)
  have "handler_weight pc \<le> server_weight s"
    using member_le_sum_list [of "handler_weight pc" "map handler_weight (sv_handlers s)"] l pc
    by (auto simp: server_weight_def)
  then show ?thesis using assms(2,3) l pc by (simp add: server_weight_def map_update sum_list_update)
qed

lemma handler_progress:
  assumes "handler_at s l pc" and "pc \<noteq> Finished"
  shows "\<exists>t. server_step s t \<and> server_weight t < server_weight s \<and> sv_main t = sv_main s
    \<and> sv_accepting t = sv_accepting s"
proof (cases pc)
  case Handshaking
  then show ?thesis
    using server_step.handshake [of s l NotDTLS] assms server_weight_update [OF assms(1), of Closing]
    by (intro exI [of _ "set_handler l Closing s"]) (auto simp: finish_handshake_def handler_weight_def)
next
  case Serving
  then show ?thesis
    using server_step.serve_end [of s l] assms server_weight_update [OF assms(1), of Closing]
    by (intro exI [of _ "set_handler l Closing s"]) (auto simp: handler_weight_def)
next
  case Closing
  then show ?thesis
    using server_step.conn_close [of s l] assms server_weight_update [OF assms(1), of Releasing]
    by (intro exI [of _ "set_handler l Releasing s"]) (auto simp: handler_weight_def)
next
  case Releasing
  then show ?thesis
    using server_step.release [of s l] assms server_weight_update [OF assms(1), of Finished]
    by (intro exI [of _ "set_handler l Finished (s\<lparr>sv_adm := lease_done l (sv_adm s)\<rparr>)"])
      (auto simp: handler_weight_def)
next
  case Finished
  then show ?thesis using assms(2) by simp
qed

lemma handlers_can_finish:
  "\<exists>t. server_steps s t \<and> set (sv_handlers t) \<subseteq> {Finished} \<and> sv_main t = sv_main s
    \<and> sv_accepting t = sv_accepting s"
proof (induction "server_weight s" arbitrary: s rule: less_induct)
  case less
  show ?case
  proof (cases "set (sv_handlers s) \<subseteq> {Finished}")
    case True
    then show ?thesis by blast
  next
    case False
    then obtain pc where "pc \<in> set (sv_handlers s)" and pc: "pc \<noteq> Finished" by blast
    then obtain l where l: "handler_at s l pc" by (auto simp: in_set_conv_nth handler_at_def)
    then obtain t where t: "server_step s t" "server_weight t < server_weight s"
      "sv_main t = sv_main s" "sv_accepting t = sv_accepting s"
      using handler_progress [OF l pc] by blast
    with less obtain u where "server_steps t u" "set (sv_handlers u) \<subseteq> {Finished}" "sv_main u = sv_main t"
      "sv_accepting u = sv_accepting t"
      by blast
    then show ?thesis using t by (intro exI [of _ u]) (auto intro: converse_rtranclp_into_rtranclp)
  qed
qed

definition can_exit :: "server \<Rightarrow> bool" where
  "can_exit s \<longleftrightarrow> (\<exists>t. server_steps s t \<and> sv_main t = Exited)"

lemma can_exit_step: "server_step s t \<Longrightarrow> can_exit t \<Longrightarrow> can_exit s"
  unfolding can_exit_def using converse_rtranclp_into_rtranclp by metis

lemma can_exit_steps: "server_steps s t \<Longrightarrow> can_exit t \<Longrightarrow> can_exit s"
  unfolding can_exit_def using rtranclp_trans by metis

lemma can_exit_listener_closed:
  assumes "server_inv s" and "sv_main s = ListenerClosed"
  shows "can_exit s"
proof -
  define s1 where "s1 = s\<lparr>sv_accepting := False\<rparr>"
  have s1: "server_steps s s1"
  proof (cases "sv_accepting s")
    case True
    then show ?thesis using server_step.accept_failed [of s] by (auto simp: s1_def)
  next
    case False
    then have "s1 = s" by (simp add: s1_def)
    then show ?thesis by simp
  qed
  obtain t where t: "server_steps s1 t" "set (sv_handlers t) \<subseteq> {Finished}" "sv_main t = ListenerClosed"
    "\<not> sv_accepting t"
    using handlers_can_finish [of s1] assms(2) by (auto simp: s1_def)
  have inv: "server_inv t" using lifecycle.steps_inv s1 t(1) assms(1) by blast
  then have "ls_done x" if "x \<in> set (ad_leases (sv_adm t))" for x
    using that t(2) unfolding server_inv_def handlers_agree_def
    by (fastforce simp: in_set_conv_nth list_all2_conv_all_nth subset_iff)
  then have "wait_returns (sv_adm t)"
    using inv live_leases_Nil by (auto simp: server_inv_def wait_returns_def)
  then have "can_exit t"
    using t server_step.exit_main [of t] unfolding can_exit_def by (auto intro!: exI r_into_rtranclp)
  then show ?thesis using can_exit_steps s1 t(1) by blast
qed

lemma can_exit_inv: "server_inv s \<Longrightarrow> can_exit s"
proof -
  assume inv: "server_inv s"
  have closed: "can_exit u" if "server_inv u" "sv_main u = Cancelled" for u
    using that server_step.close_listener [of u] can_exit_step can_exit_listener_closed server_inv_step
    by fastforce
  have cancelled: "can_exit u" if "server_inv u" "sv_main u = Finishing f" for u f
    using that server_step.cancel [of u f] can_exit_step closed server_inv_step by fastforce
  have waiting: "can_exit u" if "server_inv u" "sv_main u = DrainWait" for u
    using that server_step.drain_forced [of u] can_exit_step cancelled server_inv_step by fastforce
  show ?thesis
  proof (cases "sv_main s")
    case WaitSignal
    then show ?thesis
      using inv server_step.first_signal [of s] can_exit_step waiting server_inv_step by fastforce
  next
    case Exited
    then show ?thesis by (auto simp: can_exit_def)
  qed (use inv closed cancelled waiting can_exit_listener_closed in auto)
qed

section \<open>Properties\<close>

text \<open>C3: in every reachable state of the server the gate's counters are the numbers of handlers: the
  active ones, those in their handshake or past it, and neither session nor handshake limit is
  ever exceeded.\<close>

theorem gate_counts_handlers:
  assumes "server_start s" and "server_steps s t"
  shows "gt_active (ad_gate (sv_adm t)) = int (length (filter (\<lambda>pc. pc \<noteq> Finished) (sv_handlers t)))
    \<and> gt_established (ad_gate (sv_adm t)) + gt_handshakes (ad_gate (sv_adm t)) = gt_active (ad_gate (sv_adm t))
    \<and> int (length (filter (\<lambda>pc. pc = Handshaking) (sv_handlers t))) \<le> gt_handshakes (ad_gate (sv_adm t))
    \<and> limits_ok (ad_gate (sv_adm t))"
proof -
  have inv: "server_inv t" using lifecycle.reachable_inv assms by blast
  have a: "length (filter (\<lambda>l. \<not> ls_done l) ls) = length (filter (\<lambda>pc. pc \<noteq> Finished) hs)"
    and h: "length (filter (\<lambda>pc. pc = Handshaking) hs)
      \<le> length (filter (\<lambda>l. \<not> ls_done l \<and> \<not> ls_established l) ls)"
    if "list_all2 lease_agrees ls hs" for ls hs
    using that
  proof (induction ls hs rule: list_all2_induct)
    case (Cons l ls pc hs)
    { case 1 then show ?case using Cons by (cases pc) auto }
    { case 2 then show ?case using Cons by (cases pc) auto }
  qed simp_all
  have s: "length (filter (\<lambda>x. \<not> ls_done x \<and> ls_established x) ls)
      + length (filter (\<lambda>x. \<not> ls_done x \<and> \<not> ls_established x) ls) = length (filter (\<lambda>x. \<not> ls_done x) ls)" for ls
    by (induction ls) auto
  have "list_all2 lease_agrees (ad_leases (sv_adm t)) (sv_handlers t)"
    using inv by (simp add: server_inv_def handlers_agree_def)
  with inv show ?thesis
    using a h s [of "ad_leases (sv_adm t)"]
    by (simp add: server_inv_def gate_inv_def live_leases_def flip: of_nat_add)
qed

text \<open>The empty server, with a limit of two sessions.\<close>

definition sample_config :: admissionConfig where
  "sample_config = \<lparr>maxSessions = 2, maxHandshakes = 2, maxGoroutines = 0, minFreeFDs = 0, canary = False,
      canaryMaxSessions = 0\<rparr>"

definition sample_server :: server where
  "sample_server =
     \<lparr>sv_adm = \<lparr>ad_gate = newConnectionGate sample_config, ad_leases = [], ad_metrics = newServerMetrics\<rparr>,
      sv_handlers = [], sv_main = WaitSignal, sv_drained = False, sv_ctx_done = False,
      sv_listener_open = True, sv_accepting = True\<rparr>"

definition sample_env :: gate_env where
  "sample_env = \<lparr>env_goroutines = 10, env_resources = None\<rparr>"

definition sample_busy :: server where
  "sample_busy = finish_handshake 0 HandshakeOk (accept_conn sample_env sample_server)"

lemma sample_start: "server_start sample_server"
  by (auto simp: server_start_def sample_server_def)

lemma sample_steps: "server_steps sample_server sample_busy"
proof -
  have "server_step sample_server (accept_conn sample_env sample_server)"
    by (rule server_step.accept) (simp_all add: sample_server_def)
  moreover have "handler_at (accept_conn sample_env sample_server) 0 Handshaking" by code_simp
  then have "server_step (accept_conn sample_env sample_server) sample_busy"
    unfolding sample_busy_def by (rule server_step.handshake)
  ultimately show ?thesis by auto
qed

theorem gate_counts_handlers_witness: "gt_active (ad_gate (sv_adm sample_busy)) = 1"
proof -
  have "sv_handlers sample_busy = [Serving]" by code_simp
  then show ?thesis using gate_counts_handlers [OF sample_start sample_steps] by simp
qed

lemma draining_step:
  assumes "server_step s t" and "server_inv s" and "gt_draining (ad_gate (sv_adm s))"
  shows "gt_draining (ad_gate (sv_adm t)) \<and> length (ad_leases (sv_adm t)) = length (ad_leases (sv_adm s))
    \<and> gt_active (ad_gate (sv_adm t)) \<le> gt_active (ad_gate (sv_adm s))"
  using assms
proof (induction rule: server_step.induct)
  case (accept s env)
  then show ?case by (simp add: accept_conn_def admit_draining)
next
  case (handshake s l res)
  then show ?case
    by (cases res) (simp_all add: finish_handshake_def frame_simps markEstablished_def Let_def)
next
  case (release s l)
  then show ?case by (simp add: frame_simps lease_done_def Let_def)
next
  case (drain_complete s)
  then show ?case by (simp add: frame_simps finishDrain_def Let_def)
next
  case (drain_forced s)
  then show ?case by (simp add: frame_simps finishDrain_def Let_def)
next
  case (first_signal s)
  then show ?case by (simp add: frame_simps beginDrain_def Let_def)
qed simp_all

text \<open>Draining is a latch.\<close>

interpretation drain_latch: monotone_system server_start server_step server_inv
  "\<lambda>s. gt_draining (ad_gate (sv_adm s))"
  using draining_step by unfold_locales (auto simp: le_bool_def)

text \<open>C4: from the moment the main goroutine has taken the first signal, no further connection gets a lease, whatever the
  accept goroutine does: the gate is closed and stays closed, no handler is started, the number of active connections
  only falls, and a connection that is offered is refused because of the drain.\<close>

theorem drain_closes_admission:
  assumes "server_start s0" and "server_steps s0 s" and "sv_main s \<noteq> WaitSignal"
    and "server_steps s t"
  shows "gt_draining (ad_gate (sv_adm t)) \<and> length (sv_handlers t) = length (sv_handlers s)
    \<and> gt_active (ad_gate (sv_adm t)) \<le> gt_active (ad_gate (sv_adm s))
    \<and> snd (admit env (sv_adm t)) = Inl admissionReasonDrain"
proof -
  let ?P = "\<lambda>u. gt_draining (ad_gate (sv_adm u)) \<and> length (ad_leases (sv_adm u)) = length (ad_leases (sv_adm s))
    \<and> gt_active (ad_gate (sv_adm u)) \<le> gt_active (ad_gate (sv_adm s))"
  have inv: "server_inv s" using lifecycle.reachable_inv assms(1,2) by blast
  then have d: "gt_draining (ad_gate (sv_adm s))" using assms(3) by (simp add: server_inv_def phase_ok_def)
  have dt: "gt_draining (ad_gate (sv_adm t))"
    using drain_latch.steps_mono [OF assms(4) inv] d by (simp add: le_bool_def)
  moreover have "snd (admit env (sv_adm t)) = Inl admissionReasonDrain"
    using dt by (simp add: admit_def rejectionReason_def)
  moreover have "?P t"
    using lifecycle.steps_stable [of ?P s t] draining_step d assms(4) inv by fastforce
  moreover have "server_inv t" using lifecycle.steps_inv assms(4) inv by blast
  ultimately show ?thesis
    using inv by (auto simp: server_inv_def handlers_agree_def dest!: list_all2_lengthD)
qed

definition sample_draining :: server where
  "sample_draining = sample_busy\<lparr>sv_adm := fst (beginDrain (sv_adm sample_busy)), sv_main := DrainWait\<rparr>"

lemma sample_drain_step: "server_step sample_busy sample_draining"
  unfolding sample_draining_def by (rule server_step.first_signal) code_simp

theorem drain_closes_admission_witness:
  "length (sv_handlers (accept_conn sample_env sample_draining)) = 1"
proof -
  have d: "sv_main sample_draining \<noteq> WaitSignal" by (simp add: sample_draining_def)
  have "server_step sample_draining (accept_conn sample_env sample_draining)"
    by (rule server_step.accept) (simp_all add: sample_draining_def sample_busy_def finish_handshake_def
        accept_conn_def sample_server_def admit_def Let_def split: option.splits)
  moreover have "length (sv_handlers sample_draining) = 1" by code_simp
  ultimately show ?thesis
    using drain_closes_admission [OF sample_start _ d] sample_steps sample_drain_step
    by (metis r_into_rtranclp rtranclp.rtrancl_into_rtrancl)
qed

text \<open>The lifetime context of the handlers is cancelled only after a drain that was counted: either
  it was forced, or every admitted connection had been closed and released its lease by itself,
  and until then the listener stays open.\<close>

theorem cancel_after_drain:
  assumes "server_start s" and "server_steps s t"
  shows "(sv_main t \<in> {WaitSignal, DrainWait} \<longrightarrow> \<not> sv_ctx_done t \<and> sv_listener_open t)
    \<and> (sv_ctx_done t \<and> m_drainForced (ad_metrics (sv_adm t)) = 0 \<longrightarrow>
         set (sv_handlers t) \<subseteq> {Finished} \<and> m_drainCompleted (ad_metrics (sv_adm t)) = 1)"
proof -
  have inv: "server_inv t" using lifecycle.reachable_inv assms by blast
  have all_done: "set (sv_handlers t) \<subseteq> {Finished}" if "wait_returns (sv_adm t)"
    using all_finished inv that .
  show ?thesis
    using inv all_done
    by (auto simp: server_inv_def phase_ok_def drain_counts_def Let_def split: main_pc.splits)
qed

theorem cancel_after_drain_witness: "sv_listener_open sample_draining"
proof -
  have "server_steps sample_server sample_draining"
    using sample_steps sample_drain_step by (rule rtranclp.rtrancl_into_rtrancl)
  then show ?thesis
    using cancel_after_drain [OF sample_start, of sample_draining] by (simp add: sample_draining_def)
qed

text \<open>When the process exits, every connection it ever admitted is closed and released, the
  counters are back at zero, the accept goroutine has ended, and exactly one drain was counted
  as started and one as completed or forced.\<close>

theorem exit_is_clean:
  assumes "server_start s" and "server_steps s t" and "sv_main t = Exited"
  shows "set (sv_handlers t) \<subseteq> {Finished} \<and> gt_active (ad_gate (sv_adm t)) = 0
    \<and> \<not> sv_accepting t \<and> \<not> sv_listener_open t \<and> sv_ctx_done t
    \<and> m_drainStarted (ad_metrics (sv_adm t)) = 1
    \<and> m_drainCompleted (ad_metrics (sv_adm t)) + m_drainForced (ad_metrics (sv_adm t)) = 1"
proof -
  have inv: "server_inv t" using lifecycle.reachable_inv assms by blast
  then have w: "wait_returns (sv_adm t)" using assms(3) by (simp add: server_inv_def phase_ok_def)
  have "set (sv_handlers t) \<subseteq> {Finished}" using all_finished inv w .
  then show ?thesis
    using inv w assms(3)
    by (auto simp: server_inv_def phase_ok_def drain_counts_def gate_inv_def wait_returns_def Let_def)
qed

theorem exit_is_clean_witness:
  "\<exists>t. server_steps sample_busy t \<and> sv_main t = Exited \<and> gt_active (ad_gate (sv_adm t)) = 0"
proof -
  have "server_inv sample_busy" using lifecycle.reachable_inv sample_start sample_steps by blast
  then obtain t where "server_steps sample_busy t" "sv_main t = Exited"
    using can_exit_inv can_exit_def by blast
  then show ?thesis
    using exit_is_clean [OF sample_start, of t] sample_steps by (auto intro: rtranclp_trans)
qed

text \<open>C5: the shutdown cannot get stuck: from every reachable state the server can reach its exit, by
  the handlers finishing their work and the main goroutine going through the drain.\<close>

theorem exit_reachable:
  assumes "server_start s" and "server_steps s t"
  shows "\<exists>u. server_steps t u \<and> sv_main u = Exited"
  using can_exit_inv lifecycle.reachable_inv assms unfolding can_exit_def by blast

theorem exit_reachable_witness: "\<exists>u. server_steps sample_busy u \<and> sv_main u = Exited"
  using exit_reachable [OF sample_start sample_steps] .

end
