(* ===== verification/Aggregated_Session.thy ===== *)
theory Aggregated_Session
  imports Lane_Selector Server_Metrics "HOL-Library.AList"
begin

text \<open>
  The aggregated UDP sessions of \<open>server/session_udp.go\<close>: a registry of sessions by client UUID
  and backend address, the lanes (DTLS connections) of a session, the downlink from the backend
  socket through the scheduler into the queue of a lane, the writer goroutine of each lane, the
  uplink loop of each connection, and the shutdown of lanes and sessions. Sessions and lanes are
  shared objects; they live in a store and are named by references (indices). Every definition
  of an operation is what one goroutine does under one lock; the step function at the end
  interleaves them.
\<close>

section \<open>State\<close>

record udpSessionKey =
  key_id :: bytes
  key_connectAddr :: string

text \<open>How far \<open>close\<close> (guarded by \<open>closeOnce\<close>) has come.\<close>

datatype close_pc = NotClosed | CloseCancelled | CloseStopped | CloseDone

record aggregatedUDPSession =
  ses_key :: udpSessionKey
  ses_cancelled :: bool
  ses_backend :: pconn
  ses_backend_closed :: bool
  ses_lanes :: "(byte \<times> nat) list"
  ses_selector :: udpLaneSelector
  ses_closing :: close_pc
  ses_wants_close :: bool
  ses_reading :: bool
  ses_downlinkDrops :: u64

text \<open>The goroutine that serves a lane's connection: at the head of its loop, in its read, on its way
  out, between stopping and detaching the lane, gone.\<close>

datatype lane_pc = LaneLoop | LaneReading | LaneLeaving | LaneDetaching | LaneLeft

record lane_object =
  lo_lane :: udpSessionLane
  lo_session :: nat
  lo_writer :: bool
  lo_pc :: lane_pc

datatype udp_effect =
  Queued nat bytes | SentDown nat bytes | Dropped nat bytes | SentUp nat bytes | Echoed nat bytes

record udp_world =
  uw_sessions :: "aggregatedUDPSession list"
  uw_lanes :: "lane_object list"
  uw_registry :: "udpSessionKey \<rightharpoonup> nat"
  uw_attaching :: "(nat \<times> udpSessionHello \<times> pconn) list"
  uw_ctx_done :: bool
  uw_pool :: "udpSessionPacket list"
  uw_metrics :: serverMetrics
  uw_log :: "udp_effect list"

definition udp_start :: udp_world where
  "udp_start = \<lparr>uw_sessions = [], uw_lanes = [], uw_registry = Map.empty, uw_attaching = [],
     uw_ctx_done = False, uw_pool = [], uw_metrics = newServerMetrics, uw_log = []\<rparr>"

abbreviation session_at :: "udp_world \<Rightarrow> nat \<Rightarrow> aggregatedUDPSession" where
  "session_at w s \<equiv> uw_sessions w ! s"

abbreviation lane_at :: "udp_world \<Rightarrow> nat \<Rightarrow> udpSessionLane" where
  "lane_at w l \<equiv> lo_lane (uw_lanes w ! l)"

definition upd_session :: "nat \<Rightarrow> (aggregatedUDPSession \<Rightarrow> aggregatedUDPSession) \<Rightarrow> udp_world \<Rightarrow> udp_world" where
  "upd_session s f w = w\<lparr>uw_sessions := (uw_sessions w)[s := f (session_at w s)]\<rparr>"

definition upd_lane :: "nat \<Rightarrow> (lane_object \<Rightarrow> lane_object) \<Rightarrow> udp_world \<Rightarrow> udp_world" where
  "upd_lane l f w = w\<lparr>uw_lanes := (uw_lanes w)[l := f (uw_lanes w ! l)]\<rparr>"

definition set_pc :: "nat \<Rightarrow> lane_pc \<Rightarrow> udp_world \<Rightarrow> udp_world" where
  "set_pc l pc w = upd_lane l (\<lambda>lo. lo\<lparr>lo_pc := pc\<rparr>) w"

definition log_effect :: "udp_effect \<Rightarrow> udp_world \<Rightarrow> udp_world" where
  "log_effect e w = w\<lparr>uw_log := uw_log w @ [e]\<rparr>"

text \<open>The contexts form a tree: the server's, a session's below it, a lane's below that.\<close>

definition session_ctx_err :: "udp_world \<Rightarrow> nat \<Rightarrow> bool" where
  "session_ctx_err w s \<longleftrightarrow> uw_ctx_done w \<or> ses_cancelled (session_at w s)"

definition lane_ctx_err :: "udp_world \<Rightarrow> nat \<Rightarrow> bool" where
  "lane_ctx_err w l \<longleftrightarrow> session_ctx_err w (lo_session (uw_lanes w ! l)) \<or> lane_done (lane_at w l)"

section \<open>The registry\<close>

definition registry_remove :: "udpSessionKey \<Rightarrow> nat \<Rightarrow> (udpSessionKey \<rightharpoonup> nat) \<Rightarrow> (udpSessionKey \<rightharpoonup> nat)" where
  "registry_remove key wanted m = (if m key = Some wanted then m(key := None) else m)"

interpretation udp_registry: identity_registry
  "\<lambda>m k. m k" "\<lambda>k v m. m(k \<mapsto> v)" "registry_remove :: udpSessionKey \<Rightarrow> nat \<Rightarrow> _"
  by unfold_locales (auto simp: registry_remove_def)

definition new_session :: "udpSessionKey \<Rightarrow> pconn \<Rightarrow> aggregatedUDPSession" where
  "new_session key backend =
     \<lparr>ses_key = key, ses_cancelled = False, ses_backend = backend, ses_backend_closed = False,
      ses_lanes = [], ses_selector = new_selector, ses_closing = NotClosed, ses_wants_close = False,
      ses_reading = True, ses_downlinkDrops = 0\<rparr>"

text \<open>\<open>getOrCreate\<close>; the last argument is the result of \<open>net.Dial\<close>.\<close>

definition getOrCreate ::
  "udpSessionHello \<Rightarrow> string \<Rightarrow> pconn option \<Rightarrow> udp_world \<Rightarrow> udp_world \<times> (io_error + nat)" where
  "getOrCreate hello connectAddr dial w =
     (let key = \<lparr>key_id = hello_id hello, key_connectAddr = connectAddr\<rparr>;
          live = (case uw_registry w key of None \<Rightarrow> False | Some s \<Rightarrow> \<not> session_ctx_err w s)
      in if live then (w, Inr (the (uw_registry w key)))
         else (case dial of
                 None \<Rightarrow> (w\<lparr>uw_metrics := recordBackendError ''dial'' (uw_metrics w)\<rparr>, Inl (ErrIO ''dial''))
               | Some backend \<Rightarrow>
                   (w\<lparr>uw_sessions := uw_sessions w @ [new_session key backend],
                      uw_registry := (uw_registry w)(key \<mapsto> length (uw_sessions w))\<rparr>,
                    Inr (length (uw_sessions w)))))"

record udpRegistryStats =
  rs_sessions :: nat
  rs_lanes :: nat
  rs_queued :: nat

text \<open>\<open>stats\<close>, over the references that the registry holds in any order.\<close>

definition registry_stats :: "nat list \<Rightarrow> udp_world \<Rightarrow> udpRegistryStats" where
  "registry_stats refs w =
     foldl (\<lambda>st s. st\<lparr>rs_lanes := rs_lanes st + length (ses_lanes (session_at w s)),
                     rs_queued := rs_queued st
                       + sum_list (map (\<lambda>(_, l). length (lane_out (lane_at w l))) (ses_lanes (session_at w s)))\<rparr>)
           \<lparr>rs_sessions = length refs, rs_lanes = 0, rs_queued = 0\<rparr> refs"

section \<open>Lanes\<close>

definition lane_stop :: "nat \<Rightarrow> udp_world \<Rightarrow> udp_world" where
  "lane_stop l w =
     (if lane_closed (lane_at w l) then w
      else upd_lane l (\<lambda>lo. lo\<lparr>lo_lane := (lo_lane lo)\<lparr>lane_closed := True, lane_done := True\<rparr>\<rparr>) w)"

definition new_lane :: "udpSessionHello \<Rightarrow> pconn \<Rightarrow> udpSessionLane" where
  "new_lane hello c =
     \<lparr>lane_streamID = hello_streamID hello, lane_supportsReorder = hello_supportsReorder hello,
      lane_conn = c, lane_out = [], lane_done = False, lane_closed = False\<rparr>"

definition addLane :: "nat \<Rightarrow> udpSessionHello \<Rightarrow> pconn \<Rightarrow> udp_world \<Rightarrow> udp_world \<times> (io_error + nat)" where
  "addLane s hello c w =
     (if session_ctx_err w s then (w, Inl (ErrIO ''context canceled''))
      else
        let streamID = hello_streamID hello;
            w1 = (case map_of (ses_lanes (session_at w s)) streamID of
                    None \<Rightarrow> w
                  | Some previous \<Rightarrow> lane_stop previous w);
            l = length (uw_lanes w1);
            w2 = w1\<lparr>uw_lanes := uw_lanes w1 @
                      [\<lparr>lo_lane = new_lane hello c, lo_session = s, lo_writer = True, lo_pc = LaneLoop\<rparr>]\<rparr>
        in (upd_session s (\<lambda>S. S\<lparr>ses_lanes := AList.update streamID l (ses_lanes S)\<rparr>) w2, Inr l))"

text \<open>The part of \<open>removeLane\<close> under the lock, with the number of lanes left.\<close>

definition detach_lane :: "nat \<Rightarrow> udp_world \<Rightarrow> udp_world \<times> nat" where
  "detach_lane l w =
     (let s = lo_session (uw_lanes w ! l);
          streamID = lane_streamID (lane_at w l);
          w1 = (if map_of (ses_lanes (session_at w s)) streamID = Some l
                then upd_session s (\<lambda>S. S\<lparr>ses_lanes := AList.delete streamID (ses_lanes S)\<rparr>) w
                else w)
      in (w1, length (ses_lanes (session_at w1 s))))"

section \<open>Closing a session\<close>

definition close_cancel :: "nat \<Rightarrow> udp_world \<Rightarrow> udp_world" where
  "close_cancel s w =
     (if ses_closing (session_at w s) = NotClosed
      then upd_session s (\<lambda>S. S\<lparr>ses_cancelled := True, ses_backend_closed := True,
                               ses_closing := CloseCancelled\<rparr>) w
      else w)"

definition stop_lanes :: "nat list \<Rightarrow> udp_world \<Rightarrow> udp_world" where
  "stop_lanes ls w = fold lane_stop ls w"

definition close_stop_lanes :: "nat \<Rightarrow> udp_world \<Rightarrow> udp_world" where
  "close_stop_lanes s w =
     (if ses_closing (session_at w s) = CloseCancelled
      then upd_session s (\<lambda>S. S\<lparr>ses_lanes := [], ses_closing := CloseStopped\<rparr>)
             (stop_lanes (map snd (ses_lanes (session_at w s))) w)
      else w)"

definition close_unregister :: "nat \<Rightarrow> udp_world \<Rightarrow> udp_world" where
  "close_unregister s w =
     (if ses_closing (session_at w s) = CloseStopped
      then upd_session s (\<lambda>S. S\<lparr>ses_closing := CloseDone\<rparr>)
             (w\<lparr>uw_registry := registry_remove (ses_key (session_at w s)) s (uw_registry w)\<rparr>)
      else w)"

definition session_close :: "nat \<Rightarrow> udp_world \<Rightarrow> udp_world" where
  "session_close s w = close_unregister s (close_stop_lanes s (close_cancel s w))"

definition removeLane :: "nat \<Rightarrow> udp_world \<Rightarrow> udp_world" where
  "removeLane l w =
     (let (w1, left) = detach_lane l (lane_stop l w)
      in if left = 0 then session_close (lo_session (uw_lanes w ! l)) w1 else w1)"

section \<open>Downlink\<close>

definition snapshotLanes :: "udp_world \<Rightarrow> nat \<Rightarrow> lane_array" where
  "snapshotLanes w s =
     map (\<lambda>i. map_option (lane_at w) (map_of (ses_lanes (session_at w s)) (of_nat i)))
         [0..<udpSessionMaxStreams]"

definition count_drop :: "nat \<Rightarrow> bytes \<Rightarrow> udp_world \<Rightarrow> udp_world" where
  "count_drop s payload w =
     log_effect (Dropped s payload)
       (upd_session s (\<lambda>S. S\<lparr>ses_downlinkDrops := ses_downlinkDrops S + 1\<rparr>) w)"

text \<open>\<open>enqueueDownlink\<close>; \<open>None\<close> is a panic of the scheduler, \<open>i\<close> the buffer that the pool hands out.\<close>

definition enqueueDownlink ::
  "nat \<Rightarrow> bytes \<Rightarrow> int \<Rightarrow> nat \<Rightarrow> udp_world \<Rightarrow> (udp_world \<times> bool) option" where
  "enqueueDownlink s payload now i w =
     (case choose_lane (ses_selector (session_at w s)) (snapshotLanes w s) now of
        None \<Rightarrow> None
      | Some (sel, chosen) \<Rightarrow>
          let w1 = upd_session s (\<lambda>S. S\<lparr>ses_selector := sel\<rparr>) w in
          (case chosen of
             None \<Rightarrow> Some (count_drop s payload w1, False)
           | Some index \<Rightarrow>
               let l = the (map_of (ses_lanes (session_at w s)) (of_nat index));
                   (packet, pool) = acquireUDPSessionPacket (uw_pool w1) i payload;
                   w2 = w1\<lparr>uw_pool := pool\<rparr>
               in (case try_send udpSessionQueueSize (lane_out (lane_at w2 l)) packet of
                     Some q \<Rightarrow>
                       Some (log_effect (Queued l payload)
                         (upd_lane l (\<lambda>lo. lo\<lparr>lo_lane := (lo_lane lo)\<lparr>lane_out := q\<rparr>\<rparr>) w2), True)
                   | None \<Rightarrow>
                       Some (count_drop s payload
                         (w2\<lparr>uw_pool := releaseUDPSessionPacket (Some packet) (uw_pool w2)\<rparr>), False))))"

datatype read_result = DeadlineFailed | ReadFailed | ReadPacket bytes

text \<open>One turn of \<open>readBackend\<close>. Its deferred \<open>close\<close> is requested when the loop ends.\<close>

definition readBackend_turn ::
  "nat \<Rightarrow> read_result \<Rightarrow> int \<Rightarrow> nat \<Rightarrow> udp_world \<Rightarrow> udp_world option" where
  "readBackend_turn s res now i w =
     (let leave = upd_session s (\<lambda>S. S\<lparr>ses_reading := False, ses_wants_close := True\<rparr>) in
      case res of
        DeadlineFailed \<Rightarrow> Some (leave w)
      | ReadFailed \<Rightarrow>
          Some (leave (if session_ctx_err w s then w
                       else w\<lparr>uw_metrics := recordBackendError ''read'' (uw_metrics w)\<rparr>))
      | ReadPacket p \<Rightarrow>
          (case enqueueDownlink s (take udpSessionPacketSize p) now i
                  (w\<lparr>uw_metrics := (uw_metrics w)\<lparr>m_packetsFromBackend := m_packetsFromBackend (uw_metrics w) + 1\<rparr>\<rparr>) of
             None \<Rightarrow> None
           | Some (w1, ok) \<Rightarrow>
               Some (if ok then w1
                     else w1\<lparr>uw_metrics := (uw_metrics w1)\<lparr>m_udpDownlinkDrops := m_udpDownlinkDrops (uw_metrics w1) + 1\<rparr>\<rparr>)))"

text \<open>\<open>write\<close> of a lane, and one turn of its writer goroutine: \<open>cancelled\<close> tells which ready case the
  \<open>select\<close> takes. Packets still queued when a write fails are left to the garbage collector.\<close>

definition lane_write :: "nat \<Rightarrow> bytes \<Rightarrow> udp_world \<Rightarrow> udp_world \<times> io_error option" where
  "lane_write l p w =
     (let (c, err) = pconn_Write (lane_conn (lane_at w l)) p
      in (upd_lane l (\<lambda>lo. lo\<lparr>lo_lane := (lo_lane lo)\<lparr>lane_conn := c\<rparr>\<rparr>) w, err))"

definition writeLane_turn :: "nat \<Rightarrow> bool \<Rightarrow> udp_world \<Rightarrow> udp_world option" where
  "writeLane_turn l cancelled w =
     (if cancelled then
        if lane_ctx_err w l
        then Some (upd_lane l (\<lambda>lo. lo\<lparr>lo_writer := False, lo_lane := (lo_lane lo)\<lparr>lane_out := []\<rparr>\<rparr>)
               (w\<lparr>uw_pool := fold (\<lambda>p. releaseUDPSessionPacket (Some p)) (lane_out (lane_at w l)) (uw_pool w)\<rparr>))
        else None
      else
        case lane_out (lane_at w l) of
          [] \<Rightarrow> None
        | packet # rest \<Rightarrow>
            let w1 = upd_lane l (\<lambda>lo. lo\<lparr>lo_lane := (lo_lane lo)\<lparr>lane_out := rest\<rparr>\<rparr>) w;
                (w2, err) = lane_write l (packet_bytes packet) w1;
                w3 = w2\<lparr>uw_pool := releaseUDPSessionPacket (Some packet) (uw_pool w2)\<rparr>
            in (case err of
                  None \<Rightarrow> Some (log_effect (SentDown l (packet_bytes packet)) w3)
                | Some _ \<Rightarrow> Some (upd_lane l (\<lambda>lo. lo\<lparr>lo_writer := False\<rparr>) (lane_stop l w3))))"

section \<open>Uplink\<close>

definition writeBackend :: "nat \<Rightarrow> bytes \<Rightarrow> udp_world \<Rightarrow> udp_world \<times> io_error option" where
  "writeBackend s p w =
     (if ses_backend_closed (session_at w s) then (w, Some (ErrIO ''closed''))
      else let (c, err) = pconn_Write (ses_backend (session_at w s)) p
           in (upd_session s (\<lambda>S. S\<lparr>ses_backend := c\<rparr>) w, err))"

text \<open>The loop of \<open>handleAggregatedUDPConnection\<close>: the check of the context, then the read.\<close>

definition uplink_check :: "nat \<Rightarrow> udp_world \<Rightarrow> udp_world" where
  "uplink_check l w = set_pc l (if lane_ctx_err w l then LaneLeaving else LaneReading) w"

definition uplink_read :: "nat \<Rightarrow> read_result \<Rightarrow> udp_world \<Rightarrow> udp_world" where
  "uplink_read l res w =
     (let s = lo_session (uw_lanes w ! l) in
      case res of
        DeadlineFailed \<Rightarrow> set_pc l LaneLeaving w
      | ReadFailed \<Rightarrow> set_pc l LaneLeaving w
      | ReadPacket p \<Rightarrow>
          let packet = take udpSessionPacketSize p in
          if parseProbePacket packet \<noteq> None then
            (case lane_write l packet w of
               (w1, Some _) \<Rightarrow> set_pc l LaneLeaving w1
             | (w1, None) \<Rightarrow> log_effect (Echoed l packet) (set_pc l LaneLoop w1))
          else
            (case writeBackend s packet w of
               (w1, Some _) \<Rightarrow>
                 set_pc l LaneLeaving
                   (if session_ctx_err w1 s then w1
                    else w1\<lparr>uw_metrics := recordBackendError ''write'' (uw_metrics w1)\<rparr>)
             | (w1, None) \<Rightarrow>
                 log_effect (SentUp s packet)
                   (set_pc l LaneLoop
                     (w1\<lparr>uw_metrics := (uw_metrics w1)\<lparr>m_packetsToBackend := m_packetsToBackend (uw_metrics w1) + 1\<rparr>\<rparr>))))"

end
