(* ===== verification/Session_World.thy ===== *)
theory Session_World
  imports Aggregated_Session
begin

text \<open>
  The interleaving of the goroutines of the aggregated UDP sessions, and the invariant of their
  shared state: the registry, the sessions with their lane maps, the lanes with their queues.
  A label names the next atomic action and carries what the environment decides in it.
\<close>

section \<open>Steps\<close>

datatype udp_label =
    L_ctx_cancel
  | L_connect bytes string "pconn option" pconn
  | L_attach nat
  | L_check nat
  | L_uplink nat read_result
  | L_stop nat
  | L_detach nat
  | L_close nat
  | L_downlink nat read_result int nat
  | L_writer nat bool

definition remove_nth :: "nat \<Rightarrow> 'a list \<Rightarrow> 'a list" where
  "remove_nth i xs = take i xs @ drop (Suc i) xs"

definition lane_guard :: "udp_world \<Rightarrow> nat \<Rightarrow> lane_pc \<Rightarrow> bool" where
  "lane_guard w l pc \<longleftrightarrow> l < length (uw_lanes w) \<and> lo_pc (uw_lanes w ! l) = pc"

text \<open>\<open>handleUDPConnection\<close> for a first packet that is a session preface: the session is looked up or
  created; attaching the lane is a later action.\<close>

definition step_connect ::
  "bytes \<Rightarrow> string \<Rightarrow> pconn option \<Rightarrow> pconn \<Rightarrow> udp_world \<Rightarrow> udp_world option" where
  "step_connect first connectAddr dial c w =
     (case parseUDPSessionPreface (take 1600 first) of
        None \<Rightarrow> None
      | Some hello \<Rightarrow>
          (case getOrCreate hello connectAddr dial w of
             (w1, Inl _) \<Rightarrow> Some w1
           | (w1, Inr s) \<Rightarrow> Some (w1\<lparr>uw_attaching := uw_attaching w1 @ [(s, hello, c)]\<rparr>)))"

definition step_attach :: "nat \<Rightarrow> udp_world \<Rightarrow> udp_world option" where
  "step_attach i w =
     (if i < length (uw_attaching w)
      then (let (s, hello, c) = uw_attaching w ! i
            in Some (fst (addLane s hello c (w\<lparr>uw_attaching := remove_nth i (uw_attaching w)\<rparr>))))
      else None)"

text \<open>The deferred \<open>removeLane\<close>: stop, then detach; the last lane to leave asks for the close.\<close>

definition step_detach :: "nat \<Rightarrow> udp_world \<Rightarrow> udp_world" where
  "step_detach l w =
     (let s = lo_session (uw_lanes w ! l); (w1, left) = detach_lane l w; w2 = set_pc l LaneLeft w1
      in if left = 0 then upd_session s (\<lambda>S. S\<lparr>ses_wants_close := True\<rparr>) w2 else w2)"

definition step_close :: "nat \<Rightarrow> udp_world \<Rightarrow> udp_world option" where
  "step_close s w =
     (case ses_closing (session_at w s) of
        NotClosed \<Rightarrow> if ses_wants_close (session_at w s) then Some (close_cancel s w) else None
      | CloseCancelled \<Rightarrow> Some (close_stop_lanes s w)
      | CloseStopped \<Rightarrow> Some (close_unregister s w)
      | CloseDone \<Rightarrow> None)"

definition udp_step :: "udp_label \<Rightarrow> udp_world \<Rightarrow> udp_world option" where
  "udp_step lab w =
     (case lab of
        L_ctx_cancel \<Rightarrow> Some (w\<lparr>uw_ctx_done := True\<rparr>)
      | L_connect first connectAddr dial c \<Rightarrow> step_connect first connectAddr dial c w
      | L_attach i \<Rightarrow> step_attach i w
      | L_check l \<Rightarrow> if lane_guard w l LaneLoop then Some (uplink_check l w) else None
      | L_uplink l res \<Rightarrow> if lane_guard w l LaneReading then Some (uplink_read l res w) else None
      | L_stop l \<Rightarrow> if lane_guard w l LaneLeaving then Some (set_pc l LaneDetaching (lane_stop l w)) else None
      | L_detach l \<Rightarrow> if lane_guard w l LaneDetaching then Some (step_detach l w) else None
      | L_close s \<Rightarrow> if s < length (uw_sessions w) then step_close s w else None
      | L_downlink s res now i \<Rightarrow>
          if s < length (uw_sessions w) \<and> ses_reading (session_at w s)
             \<and> (ses_backend_closed (session_at w s) \<longrightarrow> res = DeadlineFailed \<or> res = ReadFailed)
          then readBackend_turn s res now i w else None
      | L_writer l cancelled \<Rightarrow>
          if l < length (uw_lanes w) \<and> lo_writer (uw_lanes w ! l)
          then writeLane_turn l cancelled w else None)"

definition udp_next :: "udp_world \<Rightarrow> udp_world \<Rightarrow> bool" where
  "udp_next w w' \<longleftrightarrow> (\<exists>lab. udp_step lab w = Some w')"

abbreviation udp_steps :: "udp_world \<Rightarrow> udp_world \<Rightarrow> bool" where
  "udp_steps \<equiv> rtranclp udp_next"

primrec udp_run :: "udp_label list \<Rightarrow> udp_world \<Rightarrow> udp_world option" where
  "udp_run [] w = Some w"
| "udp_run (lab # labs) w = (case udp_step lab w of None \<Rightarrow> None | Some w1 \<Rightarrow> udp_run labs w1)"

lemma udp_run_steps: "udp_run labs w = Some w' \<Longrightarrow> udp_steps w w'"
proof (induction labs arbitrary: w)
  case Nil
  then show ?case by simp
next
  case (Cons lab labs)
  then obtain w1 where "udp_step lab w = Some w1" "udp_run labs w1 = Some w'"
    by (auto split: option.splits)
  then show ?case using Cons.IH by (meson converse_rtranclp_into_rtranclp udp_next_def)
qed

section \<open>Fields\<close>

lemma upd_session_simps [simp]:
  "uw_lanes (upd_session s f w) = uw_lanes w"
  "uw_registry (upd_session s f w) = uw_registry w"
  "uw_attaching (upd_session s f w) = uw_attaching w"
  "uw_ctx_done (upd_session s f w) = uw_ctx_done w"
  "uw_pool (upd_session s f w) = uw_pool w"
  "uw_metrics (upd_session s f w) = uw_metrics w"
  "uw_log (upd_session s f w) = uw_log w"
  "length (uw_sessions (upd_session s f w)) = length (uw_sessions w)"
  "s' < length (uw_sessions w) \<Longrightarrow>
     session_at (upd_session s f w) s' = (if s' = s then f (session_at w s) else session_at w s')"
  by (simp_all add: upd_session_def nth_list_update)

lemma upd_lane_simps [simp]:
  "uw_sessions (upd_lane l g w) = uw_sessions w"
  "uw_registry (upd_lane l g w) = uw_registry w"
  "uw_attaching (upd_lane l g w) = uw_attaching w"
  "uw_ctx_done (upd_lane l g w) = uw_ctx_done w"
  "uw_pool (upd_lane l g w) = uw_pool w"
  "uw_metrics (upd_lane l g w) = uw_metrics w"
  "uw_log (upd_lane l g w) = uw_log w"
  "length (uw_lanes (upd_lane l g w)) = length (uw_lanes w)"
  "l' < length (uw_lanes w) \<Longrightarrow>
     uw_lanes (upd_lane l g w) ! l' = (if l' = l then g (uw_lanes w ! l) else uw_lanes w ! l')"
  by (simp_all add: upd_lane_def nth_list_update)

lemma log_effect_simps [simp]:
  "uw_sessions (log_effect e w) = uw_sessions w" "uw_lanes (log_effect e w) = uw_lanes w"
  "uw_registry (log_effect e w) = uw_registry w" "uw_attaching (log_effect e w) = uw_attaching w"
  "uw_ctx_done (log_effect e w) = uw_ctx_done w" "uw_pool (log_effect e w) = uw_pool w"
  "uw_metrics (log_effect e w) = uw_metrics w" "uw_log (log_effect e w) = uw_log w @ [e]"
  by (simp_all add: log_effect_def)

definition stop_object :: "lane_object \<Rightarrow> lane_object" where
  "stop_object lo =
     (if lane_closed (lo_lane lo) then lo
      else lo\<lparr>lo_lane := (lo_lane lo)\<lparr>lane_closed := True, lane_done := True\<rparr>\<rparr>)"

lemma lane_stop_eq: "lane_stop l w = upd_lane l stop_object w"
  by (simp add: lane_stop_def upd_lane_def stop_object_def)

lemma stop_object_simps [simp]:
  "lane_closed (lo_lane (stop_object lo))"
  "lo_session (stop_object lo) = lo_session lo" "lo_writer (stop_object lo) = lo_writer lo"
  "lo_pc (stop_object lo) = lo_pc lo" "lane_streamID (lo_lane (stop_object lo)) = lane_streamID (lo_lane lo)"
  "lane_out (lo_lane (stop_object lo)) = lane_out (lo_lane lo)"
  "lane_done (lo_lane (stop_object lo)) = (lane_closed (lo_lane lo) \<longrightarrow> lane_done (lo_lane lo))"
  "lane_conn (lo_lane (stop_object lo)) = lane_conn (lo_lane lo)"
  "lane_supportsReorder (lo_lane (stop_object lo)) = lane_supportsReorder (lo_lane lo)"
  "stop_object (stop_object lo) = stop_object lo"
  by (simp_all add: stop_object_def)

lemma stop_lanes_simps [simp]:
  "uw_sessions (stop_lanes ls w) = uw_sessions w"
  "uw_registry (stop_lanes ls w) = uw_registry w"
  "uw_attaching (stop_lanes ls w) = uw_attaching w"
  "uw_ctx_done (stop_lanes ls w) = uw_ctx_done w"
  "uw_pool (stop_lanes ls w) = uw_pool w"
  "uw_metrics (stop_lanes ls w) = uw_metrics w"
  "uw_log (stop_lanes ls w) = uw_log w"
  "length (uw_lanes (stop_lanes ls w)) = length (uw_lanes w)"
  by (induction ls arbitrary: w) (simp_all add: stop_lanes_def lane_stop_eq)

lemma stop_lanes_nth [simp]:
  "l < length (uw_lanes w) \<Longrightarrow>
     uw_lanes (stop_lanes ls w) ! l = (if l \<in> set ls then stop_object (uw_lanes w ! l) else uw_lanes w ! l)"
proof (induction ls arbitrary: w)
  case Nil
  then show ?case by (simp add: stop_lanes_def)
next
  case (Cons k ls)
  have "stop_lanes (k # ls) w = stop_lanes ls (lane_stop k w)" by (simp add: stop_lanes_def)
  then show ?case using Cons by (simp add: lane_stop_eq)
qed

section \<open>Invariant\<close>

definition packet_ok :: "udpSessionPacket \<Rightarrow> bool" where
  "packet_ok p \<longleftrightarrow> udpSessionPacketSize \<le> length (pk_backing p)"

definition lane_ok :: "udp_world \<Rightarrow> nat \<Rightarrow> bool" where
  "lane_ok w l \<longleftrightarrow>
     lo_session (uw_lanes w ! l) < length (uw_sessions w)
     \<and> unat (lane_streamID (lane_at w l)) < udpSessionMaxStreams
     \<and> length (lane_out (lane_at w l)) \<le> udpSessionQueueSize
     \<and> list_all packet_ok (lane_out (lane_at w l))
     \<and> (lane_done (lane_at w l) \<longleftrightarrow> lane_closed (lane_at w l))
     \<and> (\<not> lane_closed (lane_at w l) \<longrightarrow>
          (lane_streamID (lane_at w l), l) \<in> set (ses_lanes (session_at w (lo_session (uw_lanes w ! l)))))
     \<and> (lo_pc (uw_lanes w ! l) \<in> {LaneDetaching, LaneLeft} \<longrightarrow> lane_closed (lane_at w l))"

definition session_ok :: "udp_world \<Rightarrow> nat \<Rightarrow> bool" where
  "session_ok w s \<longleftrightarrow>
     (let S = session_at w s in
      distinct (map fst (ses_lanes S)) \<and> selector_wf (ses_selector S)
      \<and> (ses_closing S \<noteq> NotClosed \<longleftrightarrow> ses_cancelled S)
      \<and> (ses_backend_closed S \<longleftrightarrow> ses_cancelled S)
      \<and> (ses_cancelled S \<longrightarrow> ses_wants_close S)
      \<and> (ses_closing S \<in> {CloseStopped, CloseDone} \<longrightarrow> ses_lanes S = [])
      \<and> (\<forall>(id, l) \<in> set (ses_lanes S). l < length (uw_lanes w) \<and> lo_session (uw_lanes w ! l) = s
            \<and> lane_streamID (lane_at w l) = id \<and> lo_pc (uw_lanes w ! l) \<noteq> LaneLeft)
      \<and> (ses_lanes S = [] \<and> (\<exists>l < length (uw_lanes w). lo_session (uw_lanes w ! l) = s)
           \<longrightarrow> ses_wants_close S))"

definition registry_ok :: "udp_world \<Rightarrow> bool" where
  "registry_ok w \<longleftrightarrow>
     (\<forall>k s. uw_registry w k = Some s \<longrightarrow>
        s < length (uw_sessions w) \<and> ses_key (session_at w s) = k \<and> ses_closing (session_at w s) \<noteq> CloseDone)
     \<and> (\<forall>s < length (uw_sessions w). \<not> session_ctx_err w s \<longrightarrow>
          uw_registry w (ses_key (session_at w s)) = Some s)
     \<and> (\<forall>(s, hello, c) \<in> set (uw_attaching w). s < length (uw_sessions w)
          \<and> unat (hello_streamID hello) < udpSessionMaxStreams)"

definition world_inv :: "udp_world \<Rightarrow> bool" where
  "world_inv w \<longleftrightarrow>
     (\<forall>l < length (uw_lanes w). lane_ok w l)
     \<and> (\<forall>s < length (uw_sessions w). session_ok w s)
     \<and> registry_ok w \<and> pool_ok (uw_pool w)"

lemma world_inv_start: "world_inv udp_start"
  by (simp add: world_inv_def udp_start_def registry_ok_def pool_ok_def)

lemma world_invD:
  assumes "world_inv w"
  shows "l < length (uw_lanes w) \<Longrightarrow> lane_ok w l" "s < length (uw_sessions w) \<Longrightarrow> session_ok w s"
    "registry_ok w" "pool_ok (uw_pool w)"
  using assms by (auto simp: world_inv_def)

section \<open>Actions that do not touch the structure\<close>

text \<open>Most actions only change queues, connections, counters, selectors and program counters.\<close>

definition same_session :: "aggregatedUDPSession \<Rightarrow> aggregatedUDPSession \<Rightarrow> bool" where
  "same_session S T \<longleftrightarrow> ses_key T = ses_key S \<and> ses_cancelled T = ses_cancelled S
     \<and> ses_backend_closed T = ses_backend_closed S \<and> ses_lanes T = ses_lanes S
     \<and> ses_closing T = ses_closing S \<and> (ses_wants_close S \<longrightarrow> ses_wants_close T)
     \<and> (selector_wf (ses_selector S) \<longrightarrow> selector_wf (ses_selector T))"

definition same_lane :: "lane_object \<Rightarrow> lane_object \<Rightarrow> bool" where
  "same_lane lo lp \<longleftrightarrow> lo_session lp = lo_session lo
     \<and> lane_streamID (lo_lane lp) = lane_streamID (lo_lane lo)
     \<and> lane_done (lo_lane lp) = lane_done (lo_lane lo) \<and> lane_closed (lo_lane lp) = lane_closed (lo_lane lo)
     \<and> (length (lane_out (lo_lane lo)) \<le> udpSessionQueueSize \<and> list_all packet_ok (lane_out (lo_lane lo))
        \<longrightarrow> length (lane_out (lo_lane lp)) \<le> udpSessionQueueSize \<and> list_all packet_ok (lane_out (lo_lane lp)))
     \<and> (lo_pc lp = lo_pc lo \<or> lo_pc lp \<notin> {LaneDetaching, LaneLeft})"

definition inert :: "udp_world \<Rightarrow> udp_world \<Rightarrow> bool" where
  "inert w w' \<longleftrightarrow>
     list_all2 same_session (uw_sessions w) (uw_sessions w') \<and> list_all2 same_lane (uw_lanes w) (uw_lanes w')
     \<and> uw_registry w' = uw_registry w \<and> uw_attaching w' = uw_attaching w \<and> uw_ctx_done w' = uw_ctx_done w
     \<and> (pool_ok (uw_pool w) \<longrightarrow> pool_ok (uw_pool w'))"

lemma same_session_refl [simp]: "same_session S S"
  by (simp add: same_session_def)

lemma same_lane_refl [simp]: "same_lane lo lo"
  by (simp add: same_lane_def)

lemma inert_refl [simp]: "inert w w"
  by (simp add: inert_def list_all2_refl)

lemma same_session_trans: "same_session S T \<Longrightarrow> same_session T U \<Longrightarrow> same_session S U"
  by (simp add: same_session_def)

lemma same_lane_trans: "same_lane a b \<Longrightarrow> same_lane b c \<Longrightarrow> same_lane a c"
  by (auto simp: same_lane_def)

lemma inert_trans:
  assumes "inert u v" and "inert v w"
  shows "inert u w"
proof -
  have S: "list_all2 same_session (uw_sessions u) (uw_sessions v)"
    "list_all2 same_session (uw_sessions v) (uw_sessions w)"
    and L: "list_all2 same_lane (uw_lanes u) (uw_lanes v)" "list_all2 same_lane (uw_lanes v) (uw_lanes w)"
    using assms by (auto simp: inert_def)
  have "list_all2 same_session (uw_sessions u) (uw_sessions w)"
    by (rule list_all2_trans [OF _ S]) (rule same_session_trans)
  moreover have "list_all2 same_lane (uw_lanes u) (uw_lanes w)"
    by (rule list_all2_trans [OF _ L]) (rule same_lane_trans)
  ultimately show ?thesis using assms by (simp add: inert_def)
qed

lemma inert_world_inv:
  assumes "inert w w'" and inv: "world_inv w"
  shows "world_inv w'"
proof -
  note i = assms(1) [unfolded inert_def list_all2_conv_all_nth]
  have len: "length (uw_lanes w') = length (uw_lanes w)" "length (uw_sessions w') = length (uw_sessions w)"
    using i by auto
  have S: "same_session (session_at w s) (session_at w' s)" if "s < length (uw_sessions w)" for s
    using i that by auto
  have L: "same_lane (uw_lanes w ! l) (uw_lanes w' ! l)" if "l < length (uw_lanes w)" for l
    using i that by auto
  have "lane_ok w' l" if "l < length (uw_lanes w)" for l
  proof -
    have "lo_session (uw_lanes w ! l) < length (uw_sessions w)"
      using world_invD(1) [OF inv that] by (simp add: lane_ok_def)
    then show ?thesis
      using world_invD(1) [OF inv that] L [OF that] S [of "lo_session (uw_lanes w ! l)"] len
      by (auto simp: lane_ok_def same_lane_def same_session_def)
  qed
  moreover have "session_ok w' s" if s: "s < length (uw_sessions w)" for s
  proof -
    have lanes: "\<forall>l < length (uw_lanes w). lo_session (uw_lanes w' ! l) = lo_session (uw_lanes w ! l)
      \<and> lane_streamID (lane_at w' l) = lane_streamID (lane_at w l)
      \<and> (lo_pc (uw_lanes w' ! l) = LaneLeft \<longrightarrow> lo_pc (uw_lanes w ! l) = LaneLeft)"
    proof (intro allI impI)
      fix l
      assume "l < length (uw_lanes w)"
      from L [OF this] show "lo_session (uw_lanes w' ! l) = lo_session (uw_lanes w ! l)
        \<and> lane_streamID (lane_at w' l) = lane_streamID (lane_at w l)
        \<and> (lo_pc (uw_lanes w' ! l) = LaneLeft \<longrightarrow> lo_pc (uw_lanes w ! l) = LaneLeft)"
        by (auto simp: same_lane_def)
    qed
    have so: "session_ok w s" using world_invD(2) [OF inv s] .
    have map: "\<forall>(id, l) \<in> set (ses_lanes (session_at w s)). l < length (uw_lanes w')
      \<and> lo_session (uw_lanes w' ! l) = s \<and> lane_streamID (lane_at w' l) = id
      \<and> lo_pc (uw_lanes w' ! l) \<noteq> LaneLeft"
    proof (clarify)
      fix id l
      assume "(id, l) \<in> set (ses_lanes (session_at w s))"
      then have "l < length (uw_lanes w)" "lo_session (uw_lanes w ! l) = s"
        "lane_streamID (lane_at w l) = id" "lo_pc (uw_lanes w ! l) \<noteq> LaneLeft"
        using so by (auto simp: session_ok_def Let_def)
      then show "l < length (uw_lanes w') \<and> lo_session (uw_lanes w' ! l) = s
        \<and> lane_streamID (lane_at w' l) = id \<and> lo_pc (uw_lanes w' ! l) \<noteq> LaneLeft"
        using lanes len by auto
    qed
    have "(\<exists>l < length (uw_lanes w'). lo_session (uw_lanes w' ! l) = s)
      \<longleftrightarrow> (\<exists>l < length (uw_lanes w). lo_session (uw_lanes w ! l) = s)"
      using lanes len by auto
    then show ?thesis
      using so S [OF s] map unfolding session_ok_def same_session_def Let_def by simp
  qed
  moreover have "registry_ok w'"
  proof -
    have same: "uw_registry w' = uw_registry w" "uw_attaching w' = uw_attaching w"
      "uw_ctx_done w' = uw_ctx_done w"
      using i by simp_all
    have E: "ses_key (session_at w' s) = ses_key (session_at w s)"
      "session_ctx_err w' s = session_ctx_err w s"
      "ses_closing (session_at w' s) = ses_closing (session_at w s)" if "s < length (uw_sessions w)" for s
      using S [OF that] same by (simp_all add: same_session_def session_ctx_err_def)
    have R: "registry_ok w" using world_invD(3) [OF inv] .
    have one: "s < length (uw_sessions w) \<and> ses_key (session_at w' s) = k \<and> ses_closing (session_at w' s) \<noteq> CloseDone"
      if "uw_registry w k = Some s" for k s
    proof -
      have "s < length (uw_sessions w) \<and> ses_key (session_at w s) = k \<and> ses_closing (session_at w s) \<noteq> CloseDone"
        using R that unfolding registry_ok_def by simp
      then show ?thesis using E [of s] by simp
    qed
    have two: "uw_registry w (ses_key (session_at w' s)) = Some s"
      if "s < length (uw_sessions w)" "\<not> session_ctx_err w' s" for s
      using R that E [of s] unfolding registry_ok_def by simp
    show ?thesis
      unfolding registry_ok_def same len
      using one two R [unfolded registry_ok_def] by simp
  qed
  moreover have "pool_ok (uw_pool w')" using world_invD(4) [OF inv] assms(1) by (simp add: inert_def)
  ultimately show ?thesis by (simp add: world_inv_def len)
qed

lemma inert_upd_session:
  "(s < length (uw_sessions w) \<Longrightarrow> same_session (session_at w s) (f (session_at w s))) \<Longrightarrow> inert w (upd_session s f w)"
  by (auto simp: inert_def list_all2_conv_all_nth)

lemma inert_upd_lane:
  "(l < length (uw_lanes w) \<Longrightarrow> same_lane (uw_lanes w ! l) (g (uw_lanes w ! l))) \<Longrightarrow> inert w (upd_lane l g w)"
  by (auto simp: inert_def list_all2_conv_all_nth)

lemma inert_other:
  "uw_sessions w' = uw_sessions w \<Longrightarrow> uw_lanes w' = uw_lanes w \<Longrightarrow> uw_registry w' = uw_registry w \<Longrightarrow>
   uw_attaching w' = uw_attaching w \<Longrightarrow> uw_ctx_done w' = uw_ctx_done w \<Longrightarrow>
   (pool_ok (uw_pool w) \<Longrightarrow> pool_ok (uw_pool w')) \<Longrightarrow> inert w w'"
  by (auto simp: inert_def list_all2_refl)

lemma inert_log [simp]: "inert w (log_effect e w')  \<longleftrightarrow> inert w w'"
  by (simp add: inert_def)

lemma inert_metrics [simp]: "inert w (w'\<lparr>uw_metrics := m\<rparr>) \<longleftrightarrow> inert w w'"
  by (simp add: inert_def)

lemma inert_set_pc: "pc \<notin> {LaneDetaching, LaneLeft} \<Longrightarrow> inert w w' \<Longrightarrow> inert w (set_pc l pc w')"
  unfolding set_pc_def
  by (rule inert_trans, assumption, rule inert_upd_lane) (simp add: same_lane_def)

lemma inert_lane_write: "inert w (fst (lane_write l p w))"
  by (auto simp: lane_write_def same_lane_def split: prod.splits intro!: inert_upd_lane)

lemma inert_writeBackend: "inert w (fst (writeBackend s p w))"
  by (auto simp: writeBackend_def same_session_def split: prod.splits intro!: inert_upd_session)

lemma inert_uplink_check: "inert w (uplink_check l w)"
  by (auto simp: uplink_check_def intro!: inert_set_pc)

lemma inert_uplink_read: "inert w (uplink_read l res w)"
proof (cases res)
  case (ReadPacket p)
  then show ?thesis
    using inert_lane_write [of w l "take udpSessionPacketSize p"]
      inert_writeBackend [of w "lo_session (uw_lanes w ! l)" "take udpSessionPacketSize p"]
    by (auto simp: uplink_read_def Let_def intro!: inert_set_pc split: prod.splits option.splits)
qed (auto simp: uplink_read_def intro!: inert_set_pc)

lemma length_snapshotLanes [simp]: "length (snapshotLanes w s) = udpSessionMaxStreams"
  by (simp add: snapshotLanes_def)

lemma choose_lane_wf:
  assumes "choose_lane sel lanes now = Some (sel', r)" and "length lanes = udpSessionMaxStreams"
  shows "selector_wf sel \<Longrightarrow> selector_wf sel'"
  using choose_lane_good [OF _ assms(2), of sel now] assms(1) by (simp add: good_choice_def)

lemma inert_count_drop: "inert w w' \<Longrightarrow> inert w (count_drop s payload w')"
  unfolding count_drop_def inert_log
  by (rule inert_trans, assumption, rule inert_upd_session) (simp add: same_session_def)

lemma inert_pool: "inert w w' \<Longrightarrow> (pool_ok (uw_pool w') \<Longrightarrow> pool_ok pool) \<Longrightarrow> inert w (w'\<lparr>uw_pool := pool\<rparr>)"
  by (simp add: inert_def)

lemma inert_enqueue:
  assumes "enqueueDownlink s payload now i w = Some (w', ok)" and pool: "pool_ok (uw_pool w)"
  shows "inert w w'"
proof -
  obtain sel chosen where c: "choose_lane (ses_selector (session_at w s)) (snapshotLanes w s) now = Some (sel, chosen)"
    using assms(1) by (auto simp: enqueueDownlink_def split: option.splits)
  define w1 where "w1 = upd_session s (\<lambda>S. S\<lparr>ses_selector := sel\<rparr>) w"
  have w1: "inert w w1"
    using choose_lane_wf [OF c] unfolding w1_def by (intro inert_upd_session) (simp add: same_session_def)
  show ?thesis
  proof (cases chosen)
    case None
    then show ?thesis using assms(1) c w1 by (auto simp: enqueueDownlink_def w1_def intro: inert_count_drop)
  next
    case (Some index)
    obtain packet pool' where a: "acquireUDPSessionPacket (uw_pool w) i payload = (packet, pool')"
      by fastforce
    have ok: "pool_ok pool'" "packet_ok packet" using acquire_ok [OF pool a] by (simp_all add: packet_ok_def)
    let ?l = "the (map_of (ses_lanes (session_at w s)) (of_nat index))"
    show ?thesis
    proof (cases "length (lane_out (lane_at w ?l)) < udpSessionQueueSize")
      case True
      then have "w' = log_effect (Queued ?l payload) (upd_lane ?l (\<lambda>lo. lo\<lparr>lo_lane := (lo_lane lo)
          \<lparr>lane_out := lane_out (lane_at w ?l) @ [packet]\<rparr>\<rparr>) (w1\<lparr>uw_pool := pool'\<rparr>))"
        using assms(1) c Some a by (simp add: enqueueDownlink_def w1_def try_send_def Let_def)
      moreover have "inert (w1\<lparr>uw_pool := pool'\<rparr>) (upd_lane ?l (\<lambda>lo. lo\<lparr>lo_lane := (lo_lane lo)
          \<lparr>lane_out := lane_out (lane_at w ?l) @ [packet]\<rparr>\<rparr>) (w1\<lparr>uw_pool := pool'\<rparr>))"
        by (rule inert_upd_lane) (use True ok in \<open>simp add: same_lane_def w1_def\<close>)
      moreover have "inert w (w1\<lparr>uw_pool := pool'\<rparr>)" using w1 ok by (intro inert_pool) auto
      ultimately show ?thesis using inert_trans by simp
    next
      case False
      then have "w' = count_drop s payload (w1\<lparr>uw_pool := releaseUDPSessionPacket (Some packet) pool'\<rparr>)"
        using assms(1) c Some a by (simp add: enqueueDownlink_def w1_def try_send_def Let_def)
      moreover have "pool_ok (releaseUDPSessionPacket (Some packet) pool')"
        using ok by (auto simp: packet_ok_def intro: release_ok)
      ultimately show ?thesis using w1 by (auto intro!: inert_count_drop inert_pool)
    qed
  qed
qed

lemma enqueue_total:
  assumes "world_inv w" and "s < length (uw_sessions w)"
  shows "enqueueDownlink s payload now i w \<noteq> None"
proof -
  have "selector_wf (ses_selector (session_at w s))"
    using world_invD(2) [OF assms] by (simp add: session_ok_def Let_def)
  then have "case_option False (good_choice (snapshotLanes w s))
      (choose_lane (ses_selector (session_at w s)) (snapshotLanes w s) now)"
    by (rule choose_lane_good) simp
  then show ?thesis by (auto simp: enqueueDownlink_def Let_def split: option.splits prod.splits)
qed

lemma inert_readBackend:
  assumes "readBackend_turn s res now i w = Some w'" and "pool_ok (uw_pool w)"
  shows "inert w w'"
proof (cases res)
  case (ReadPacket p)
  let ?w = "w\<lparr>uw_metrics := (uw_metrics w)\<lparr>m_packetsFromBackend := m_packetsFromBackend (uw_metrics w) + 1\<rparr>\<rparr>"
  obtain w1 ok where e: "enqueueDownlink s (take udpSessionPacketSize p) now i ?w = Some (w1, ok)"
    using assms(1) ReadPacket by (auto simp: readBackend_turn_def Let_def split: option.splits)
  have "inert ?w w1" using inert_enqueue [OF e] assms(2) by simp
  moreover have "inert w ?w" by simp
  ultimately have "inert w w1" using inert_trans by blast
  then show ?thesis using assms(1) e ReadPacket by (auto simp: readBackend_turn_def Let_def)
next
  case DeadlineFailed
  then show ?thesis
    using assms(1) by (auto simp: readBackend_turn_def same_session_def intro!: inert_upd_session)
next
  case ReadFailed
  let ?w = "if session_ctx_err w s then w else w\<lparr>uw_metrics := recordBackendError ''read'' (uw_metrics w)\<rparr>"
  have "inert w ?w" by simp
  moreover have "inert ?w (upd_session s (\<lambda>S. S\<lparr>ses_reading := False, ses_wants_close := True\<rparr>) ?w)"
    by (rule inert_upd_session) (simp add: same_session_def)
  ultimately have "inert w (upd_session s (\<lambda>S. S\<lparr>ses_reading := False, ses_wants_close := True\<rparr>) ?w)"
    using inert_trans by blast
  then show ?thesis using assms(1) ReadFailed by (auto simp: readBackend_turn_def Let_def)
qed

end
