(* ===== verification/Session_Invariants.thy ===== *)
theory Session_Invariants
  imports Session_World
begin

text \<open>
  Every action of the aggregated sessions keeps the invariant of \<open>Session_World\<close>: the
  structural actions one by one here, the others by their frame lemmas. The properties at the
  end are what a reader of \<open>server/session_udp.go\<close> relies on.
\<close>

section \<open>Structural actions\<close>

lemma world_invI:
  assumes "\<And>l. l < length (uw_lanes w) \<Longrightarrow> lane_ok w l" "\<And>s. s < length (uw_sessions w) \<Longrightarrow> session_ok w s"
    "registry_ok w" "pool_ok (uw_pool w)"
  shows "world_inv w"
  using assms by (simp add: world_inv_def)

lemma session_lane:
  assumes "session_ok w s" and "(sid, l) \<in> set (ses_lanes (session_at w s))"
  shows "l < length (uw_lanes w)" "lo_session (uw_lanes w ! l) = s" "lane_streamID (lane_at w l) = sid"
    "lo_pc (uw_lanes w ! l) \<noteq> LaneLeft"
  using assms by (auto simp: session_ok_def Let_def)

text \<open>Changing lanes in a way that keeps their identity and only closes them.\<close>

lemma session_ok_lanes:
  assumes "session_ok w s" and "uw_sessions w' = uw_sessions w" and "length (uw_lanes w') = length (uw_lanes w)"
    and "\<And>l. l < length (uw_lanes w) \<Longrightarrow> lo_session (uw_lanes w' ! l) = lo_session (uw_lanes w ! l)
      \<and> lane_streamID (lane_at w' l) = lane_streamID (lane_at w l)
      \<and> (lo_pc (uw_lanes w' ! l) = LaneLeft \<longrightarrow> lo_pc (uw_lanes w ! l) = LaneLeft)"
  shows "session_ok w' s"
proof -
  have "(\<exists>l < length (uw_lanes w'). lo_session (uw_lanes w' ! l) = s)
    \<longleftrightarrow> (\<exists>l < length (uw_lanes w). lo_session (uw_lanes w ! l) = s)"
    using assms(3,4) by auto
  moreover have "\<forall>(sid, l) \<in> set (ses_lanes (session_at w s)). l < length (uw_lanes w')
      \<and> lo_session (uw_lanes w' ! l) = s \<and> lane_streamID (lane_at w' l) = sid
      \<and> lo_pc (uw_lanes w' ! l) \<noteq> LaneLeft"
  proof (clarify)
    fix sid l
    assume "(sid, l) \<in> set (ses_lanes (session_at w s))"
    note l = session_lane [OF assms(1) this]
    show "l < length (uw_lanes w') \<and> lo_session (uw_lanes w' ! l) = s \<and> lane_streamID (lane_at w' l) = sid
      \<and> lo_pc (uw_lanes w' ! l) \<noteq> LaneLeft"
      using l assms(4) [OF l(1)] assms(3) by auto
  qed
  ultimately show ?thesis using assms(1,2) unfolding session_ok_def Let_def by simp
qed

lemma registry_ok_same:
  "registry_ok w \<Longrightarrow> uw_sessions w' = uw_sessions w \<Longrightarrow> uw_registry w' = uw_registry w \<Longrightarrow>
   uw_attaching w' = uw_attaching w \<Longrightarrow> uw_ctx_done w' = uw_ctx_done w \<Longrightarrow> registry_ok w'"
  by (simp add: registry_ok_def session_ctx_err_def)

lemma inv_lane_stop [inv_intros]:
  assumes "world_inv w"
  shows "world_inv (lane_stop l w)"
proof (rule world_invI)
  note inv = world_invD [OF assms]
  show "lane_ok (lane_stop l w) k" if "k < length (uw_lanes (lane_stop l w))" for k
    using inv(1) [of k] that by (auto simp: lane_stop_eq lane_ok_def)
  show "session_ok (lane_stop l w) s" if "s < length (uw_sessions (lane_stop l w))" for s
    by (rule session_ok_lanes [of w]) (use inv(2) that in \<open>auto simp: lane_stop_eq\<close>)
  show "registry_ok (lane_stop l w)"
    using inv(3) by (rule registry_ok_same) (simp_all add: lane_stop_eq)
  show "pool_ok (uw_pool (lane_stop l w))" using inv(4) by (simp add: lane_stop_eq)
qed

lemma inv_stop_step [inv_intros]:
  assumes "world_inv w" and "lane_guard w l LaneLeaving"
  shows "world_inv (set_pc l LaneDetaching (lane_stop l w))"
proof (rule world_invI)
  let ?w = "set_pc l LaneDetaching (lane_stop l w)"
  note inv = world_invD [OF inv_lane_stop [OF assms(1), of l]]
  have closed: "lane_closed (lane_at (lane_stop l w) l)" and len: "l < length (uw_lanes (lane_stop l w))"
    using assms(2) by (simp_all add: lane_stop_eq lane_guard_def)
  show "lane_ok ?w k" if "k < length (uw_lanes ?w)" for k
    using inv(1) [of k] that closed len by (auto simp: set_pc_def lane_ok_def)
  show "session_ok ?w s" if "s < length (uw_sessions ?w)" for s
    by (rule session_ok_lanes [of "lane_stop l w"]) (use inv(2) that len in \<open>auto simp: set_pc_def\<close>)
  show "registry_ok ?w" using inv(3) by (rule registry_ok_same) (simp_all add: set_pc_def)
  show "pool_ok (uw_pool ?w)" using inv(4) by (simp add: set_pc_def)
qed

lemma fold_release_ok:
  "pool_ok pool \<Longrightarrow> list_all packet_ok ps \<Longrightarrow> pool_ok (fold (\<lambda>p. releaseUDPSessionPacket (Some p)) ps pool)"
  by (induction ps arbitrary: pool) (auto simp: packet_ok_def intro: release_ok)

lemma inv_writeLane [inv_intros]:
  assumes "writeLane_turn l cancelled w = Some w'" and inv: "world_inv w" and l: "l < length (uw_lanes w)"
  shows "world_inv w'"
proof -
  have out: "list_all packet_ok (lane_out (lane_at w l))" and pool: "pool_ok (uw_pool w)"
    using world_invD(1) [OF inv l] world_invD(4) [OF inv] by (simp_all add: lane_ok_def)
  show ?thesis
  proof (cases cancelled)
    case True
    let ?w = "w\<lparr>uw_pool := fold (\<lambda>p. releaseUDPSessionPacket (Some p)) (lane_out (lane_at w l)) (uw_pool w)\<rparr>"
    have "inert w ?w" using fold_release_ok [OF pool out] by (intro inert_pool) auto
    moreover have "inert ?w (upd_lane l (\<lambda>lo. lo\<lparr>lo_writer := False, lo_lane := (lo_lane lo)\<lparr>lane_out := []\<rparr>\<rparr>) ?w)"
      by (rule inert_upd_lane) (simp add: same_lane_def)
    ultimately have "inert w (upd_lane l (\<lambda>lo. lo\<lparr>lo_writer := False, lo_lane := (lo_lane lo)\<lparr>lane_out := []\<rparr>\<rparr>) ?w)"
      by (rule inert_trans)
    then show ?thesis using assms(1) True inv inert_world_inv by (auto simp: writeLane_turn_def split: if_splits)
  next
    case False
    then obtain packet rest where o: "lane_out (lane_at w l) = packet # rest"
      using assms(1) by (auto simp: writeLane_turn_def split: list.splits)
    define w1 where "w1 = upd_lane l (\<lambda>lo. lo\<lparr>lo_lane := (lo_lane lo)\<lparr>lane_out := rest\<rparr>\<rparr>) w"
    obtain w2 err where w2: "lane_write l (packet_bytes packet) w1 = (w2, err)" by fastforce
    define w3 where "w3 = w2\<lparr>uw_pool := releaseUDPSessionPacket (Some packet) (uw_pool w2)\<rparr>"
    have "inert w w1" unfolding w1_def by (rule inert_upd_lane) (use o in \<open>auto simp: same_lane_def\<close>)
    moreover have "inert w1 w2" using inert_lane_write [of w1 l "packet_bytes packet"] w2 by simp
    moreover have "inert w2 w3" unfolding w3_def
      by (rule inert_pool) (use out o in \<open>auto simp: packet_ok_def intro: release_ok\<close>)
    ultimately have w3: "world_inv w3" using inv inert_world_inv inert_trans by blast
    have "w' = log_effect (SentDown l (packet_bytes packet)) w3
      \<or> w' = upd_lane l (\<lambda>lo. lo\<lparr>lo_writer := False\<rparr>) (lane_stop l w3)"
      using assms(1) False o w2 by (auto simp: writeLane_turn_def Let_def w1_def w3_def split: option.splits)
    moreover have "world_inv (log_effect (SentDown l (packet_bytes packet)) w3)"
      using w3 by (rule inert_world_inv [rotated]) simp
    moreover have "world_inv (upd_lane l (\<lambda>lo. lo\<lparr>lo_writer := False\<rparr>) (lane_stop l w3))"
      using inv_lane_stop [OF w3, of l]
      by (rule inert_world_inv [rotated]) (rule inert_upd_lane, simp add: same_lane_def)
    ultimately show ?thesis by blast
  qed
qed

section \<open>Sessions come and go\<close>

lemma lane_ok_append_session:
  "lane_ok w l \<Longrightarrow> uw_lanes w' = uw_lanes w \<Longrightarrow> uw_sessions w' = uw_sessions w @ [S] \<Longrightarrow> lane_ok w' l"
  by (auto simp: lane_ok_def nth_append)

lemma session_ok_append_session:
  "session_ok w s \<Longrightarrow> s < length (uw_sessions w) \<Longrightarrow> uw_lanes w' = uw_lanes w \<Longrightarrow>
   uw_sessions w' = uw_sessions w @ [S] \<Longrightarrow> session_ok w' s"
  by (simp add: session_ok_def nth_append)

lemma inv_getOrCreate:
  assumes "getOrCreate hello connectAddr dial w = (w', r)" and inv: "world_inv w"
  shows "world_inv w' \<and> uw_attaching w' = uw_attaching w
    \<and> (case r of Inl _ \<Rightarrow> True | Inr s \<Rightarrow> s < length (uw_sessions w')
         \<and> uw_registry w' \<lparr>key_id = hello_id hello, key_connectAddr = connectAddr\<rparr> = Some s)"
proof -
  let ?k = "\<lparr>key_id = hello_id hello, key_connectAddr = connectAddr\<rparr>"
  have R: "registry_ok w" using world_invD(3) [OF inv] .
  consider (live) s where "uw_registry w ?k = Some s" "w' = w" "r = Inr s"
    | (failed) "inert w w'" "uw_attaching w' = uw_attaching w" "r = Inl (ErrIO ''dial'')"
    | (fresh) backend where "w' = w\<lparr>uw_sessions := uw_sessions w @ [new_session ?k backend],
          uw_registry := (uw_registry w)(?k \<mapsto> length (uw_sessions w))\<rparr>" "r = Inr (length (uw_sessions w))"
        "\<And>s. uw_registry w ?k = Some s \<Longrightarrow> session_ctx_err w s"
    using assms(1) by (auto simp: getOrCreate_def Let_def split: option.splits if_splits)
  then show ?thesis
  proof cases
    case live
    then show ?thesis using inv R by (auto simp: registry_ok_def)
  next
    case failed
    then show ?thesis using inv inert_world_inv by auto
  next
    case fresh
    have s': "uw_sessions w' = uw_sessions w @ [new_session ?k backend]" "uw_lanes w' = uw_lanes w"
      using fresh by simp_all
    have "world_inv w'"
    proof (rule world_invI)
      show "lane_ok w' l" if "l < length (uw_lanes w')" for l
        using world_invD(1) [OF inv, of l] that s' by (auto intro: lane_ok_append_session)
      show "session_ok w' s" if "s < length (uw_sessions w')" for s
      proof (cases "s < length (uw_sessions w)")
        case True
        then show ?thesis using world_invD(2) [OF inv] s' by (auto intro: session_ok_append_session)
      next
        case False
        then have s: "s = length (uw_sessions w)" using that s' by simp
        have "lo_session (uw_lanes w ! l) \<noteq> s" if "l < length (uw_lanes w)" for l
          using world_invD(1) [OF inv that] s by (auto simp: lane_ok_def)
        then show ?thesis
          using s s' by (auto simp: session_ok_def new_session_def selector_wf_new)
      qed
      show "registry_ok w'"
      proof -
        have own: "s < length (uw_sessions w) \<and> ses_key (session_at w s) = k \<and> ses_closing (session_at w s) \<noteq> CloseDone"
          if "uw_registry w k = Some s" for k s
          using R that unfolding registry_ok_def by simp
        have reg: "uw_registry w (ses_key (session_at w s)) = Some s"
          if "s < length (uw_sessions w)" "\<not> session_ctx_err w s" for s
          using R that unfolding registry_ok_def by simp
        have other: "ses_key (session_at w s) \<noteq> ?k"
          if "s < length (uw_sessions w)" "\<not> session_ctx_err w s" for s
          using reg [OF that] fresh(3) that(2) by auto
        have att: "\<forall>(s, hello, c) \<in> set (uw_attaching w). s < length (uw_sessions w)
          \<and> unat (hello_streamID hello) < udpSessionMaxStreams"
          using R unfolding registry_ok_def by simp
        have "s < length (uw_sessions w') \<and> ses_key (session_at w' s) = k \<and> ses_closing (session_at w' s) \<noteq> CloseDone"
          if "uw_registry w' k = Some s" for k s
          using that own [of k s] fresh(1) by (auto simp: nth_append new_session_def split: if_splits)
        moreover have "uw_registry w' (ses_key (session_at w' s)) = Some s"
          if "s < length (uw_sessions w')" "\<not> session_ctx_err w' s" for s
        proof (cases "s < length (uw_sessions w)")
          case True
          then have "\<not> session_ctx_err w s" using that(2) fresh(1) by (simp add: session_ctx_err_def nth_append)
          then show ?thesis using reg [OF True] other [OF True] fresh(1) True by (simp add: nth_append)
        next
          case False
          then have "s = length (uw_sessions w)" using that(1) s' by simp
          then show ?thesis using fresh(1) by (simp add: new_session_def)
        qed
        moreover have "\<forall>(s, hello, c) \<in> set (uw_attaching w'). s < length (uw_sessions w')
          \<and> unat (hello_streamID hello) < udpSessionMaxStreams"
          using att fresh(1) by fastforce
        ultimately show ?thesis unfolding registry_ok_def by simp
      qed
      show "pool_ok (uw_pool w')" using world_invD(4) [OF inv] fresh(1) by simp
    qed
    then show ?thesis using fresh by simp
  qed
qed

section \<open>Lanes come and go\<close>

lemma map_of_lane_iff:
  "session_ok w s \<Longrightarrow> map_of (ses_lanes (session_at w s)) sid = Some l \<longleftrightarrow> (sid, l) \<in> set (ses_lanes (session_at w s))"
  by (auto simp: session_ok_def Let_def dest: map_of_SomeD)

lemma registry_ok_session:
  assumes "registry_ok w" and "uw_registry w' = uw_registry w" and "uw_attaching w' = uw_attaching w"
    and "uw_ctx_done w \<Longrightarrow> uw_ctx_done w'" and "length (uw_sessions w') = length (uw_sessions w)"
    and "\<And>s. s < length (uw_sessions w) \<Longrightarrow> ses_key (session_at w' s) = ses_key (session_at w s)
      \<and> (ses_cancelled (session_at w s) \<longrightarrow> ses_cancelled (session_at w' s))
      \<and> (ses_closing (session_at w' s) = CloseDone \<longrightarrow> ses_closing (session_at w s) = CloseDone)"
  shows "registry_ok w'"
proof -
  have "s < length (uw_sessions w) \<and> ses_key (session_at w' s) = k \<and> ses_closing (session_at w' s) \<noteq> CloseDone"
    if "uw_registry w k = Some s" for k s
  proof -
    have "s < length (uw_sessions w) \<and> ses_key (session_at w s) = k \<and> ses_closing (session_at w s) \<noteq> CloseDone"
      using assms(1) that unfolding registry_ok_def by simp
    then show ?thesis using assms(6) [of s] by auto
  qed
  moreover have "uw_registry w (ses_key (session_at w' s)) = Some s"
    if "s < length (uw_sessions w)" "\<not> session_ctx_err w' s" for s
  proof -
    have "\<not> session_ctx_err w s" using that assms(4) assms(6) [of s] by (auto simp: session_ctx_err_def)
    then show ?thesis using assms(1) that(1) assms(6) [of s] unfolding registry_ok_def by simp
  qed
  ultimately show ?thesis using assms(1,2,3,5) unfolding registry_ok_def by simp
qed

lemma inv_addLane [inv_intros]:
  assumes "addLane s hello c w = (w', r)" and inv: "world_inv w" and s: "s < length (uw_sessions w)"
    and sid: "unat (hello_streamID hello) < udpSessionMaxStreams"
  shows "world_inv w'"
proof (cases "session_ctx_err w s")
  case True
  then show ?thesis using assms by (simp add: addLane_def)
next
  case False
  let ?sid = "hello_streamID hello"
  define w1 where "w1 = (case map_of (ses_lanes (session_at w s)) ?sid of None \<Rightarrow> w | Some previous \<Rightarrow> lane_stop previous w)"
  have w1: "world_inv w1" using inv inv_lane_stop by (auto simp: w1_def split: option.splits)
  have same: "uw_sessions w1 = uw_sessions w" "uw_ctx_done w1 = uw_ctx_done w"
    "length (uw_lanes w1) = length (uw_lanes w)"
    by (auto simp: w1_def lane_stop_eq split: option.splits)
  let ?n = "length (uw_lanes w1)"
  let ?new = "\<lparr>lo_lane = new_lane hello c, lo_session = s, lo_writer = True, lo_pc = LaneLoop\<rparr>"
  have w': "w' = upd_session s (\<lambda>S. S\<lparr>ses_lanes := AList.update ?sid ?n (ses_lanes S)\<rparr>)
      (w1\<lparr>uw_lanes := uw_lanes w1 @ [?new]\<rparr>)"
    using assms(1) False by (simp add: addLane_def Let_def w1_def)
  have S: "session_ok w1 s" using world_invD(2) [OF w1] s same by simp
  have closed: "lane_closed (lane_at w1 p)" if "(?sid, p) \<in> set (ses_lanes (session_at w s))" for p
  proof -
    have ok: "session_ok w s" using world_invD(2) [OF inv s] .
    then have "map_of (ses_lanes (session_at w s)) ?sid = Some p" "p < length (uw_lanes w)"
      using that map_of_lane_iff session_lane(1) [OF ok that] by auto
    then show ?thesis by (simp add: w1_def lane_stop_eq)
  qed
  have entries: "(k, l) \<in> set (AList.update ?sid ?n (ses_lanes (session_at w s))) \<longleftrightarrow>
      (if k = ?sid then l = ?n else (k, l) \<in> set (ses_lanes (session_at w s)))" for k l
  proof -
    have d: "distinct (map fst (ses_lanes (session_at w s)))" using S same by (simp add: session_ok_def Let_def)
    have "(k, l) \<in> set (AList.update ?sid ?n (ses_lanes (session_at w s)))
        \<longleftrightarrow> map_of (AList.update ?sid ?n (ses_lanes (session_at w s))) k = Some l"
      using distinct_update [OF d] by (auto dest: map_of_SomeD)
    also have "\<dots> \<longleftrightarrow> (if k = ?sid then l = ?n else (k, l) \<in> set (ses_lanes (session_at w s)))"
      using d by (auto simp: update_conv' dest: map_of_SomeD)
    finally show ?thesis .
  qed
  have len: "length (uw_lanes w') = Suc ?n" "length (uw_sessions w') = length (uw_sessions w)"
    using same by (simp_all add: w')
  have lane: "uw_lanes w' ! l = (if l < ?n then uw_lanes w1 ! l else ?new)" if "l < Suc ?n" for l
    using that by (auto simp: w' nth_append)
  have ses: "session_at w' k = (if k = s then (session_at w s)
      \<lparr>ses_lanes := AList.update ?sid ?n (ses_lanes (session_at w s))\<rparr> else session_at w k)"
    if "k < length (uw_sessions w)" for k
    using that same by (simp add: w')
  show ?thesis
  proof (rule world_invI)
    show "lane_ok w' l" if "l < length (uw_lanes w')" for l
    proof (cases "l < ?n")
      case True
      have L: "lane_ok w1 l" using world_invD(1) [OF w1 True] .
      then have k: "lo_session (uw_lanes w1 ! l) < length (uw_sessions w)" using same by (simp add: lane_ok_def)
      have "(lane_streamID (lane_at w1 l), l) \<in> set (ses_lanes (session_at w' (lo_session (uw_lanes w1 ! l))))"
        if "\<not> lane_closed (lane_at w1 l)"
        using L that closed same entries ses [OF k] by (auto simp: lane_ok_def)
      then show ?thesis using L True len same lane [of l] by (simp add: lane_ok_def)
    next
      case False
      then have "l = ?n" using that len by simp
      then show ?thesis
        using s sid len lane [of l] ses [OF s] entries [of ?sid ?n]
        by (simp add: lane_ok_def new_lane_def udpSessionQueueSize_def)
    qed
    show "session_ok w' k" if "k < length (uw_sessions w')" for k
    proof -
      have k: "k < length (uw_sessions w)" using that len by simp
      have K: "session_ok w1 k" using world_invD(2) [OF w1] k same by simp
      show ?thesis
      proof (cases "k = s")
        case False
        have map: "\<forall>(sid, l) \<in> set (ses_lanes (session_at w k)). l < length (uw_lanes w')
          \<and> lo_session (uw_lanes w' ! l) = k \<and> lane_streamID (lane_at w' l) = sid
          \<and> lo_pc (uw_lanes w' ! l) \<noteq> LaneLeft"
        proof (clarify)
          fix sid l
          assume "(sid, l) \<in> set (ses_lanes (session_at w k))"
          then show "l < length (uw_lanes w') \<and> lo_session (uw_lanes w' ! l) = k
              \<and> lane_streamID (lane_at w' l) = sid \<and> lo_pc (uw_lanes w' ! l) \<noteq> LaneLeft"
            using session_lane [OF K, of sid l] same len lane [of l] by auto
        qed
        have "(\<exists>l < length (uw_lanes w'). lo_session (uw_lanes w' ! l) = k)
          \<longleftrightarrow> (\<exists>l < length (uw_lanes w1). lo_session (uw_lanes w1 ! l) = k)"
          using False len lane by (auto simp: less_Suc_eq)
        then show ?thesis using K False ses [OF k] same map unfolding session_ok_def Let_def by simp
      next
        case True
        have map: "\<forall>(sid, l) \<in> set (AList.update ?sid ?n (ses_lanes (session_at w s))). l < length (uw_lanes w')
          \<and> lo_session (uw_lanes w' ! l) = s \<and> lane_streamID (lane_at w' l) = sid
          \<and> lo_pc (uw_lanes w' ! l) \<noteq> LaneLeft"
        proof (clarify)
          fix k l
          assume "(k, l) \<in> set (AList.update ?sid ?n (ses_lanes (session_at w s)))"
          then show "l < length (uw_lanes w') \<and> lo_session (uw_lanes w' ! l) = s
              \<and> lane_streamID (lane_at w' l) = k \<and> lo_pc (uw_lanes w' ! l) \<noteq> LaneLeft"
            using session_lane [OF S, of k l] same len lane [of l] entries [of k l]
            by (auto simp: new_lane_def split: if_splits)
        qed
        have "AList.update ?sid ?n (ses_lanes (session_at w s)) \<noteq> []"
          using entries [of ?sid ?n] by force
        moreover have "\<not> ses_cancelled (session_at w s)" using False by (simp add: session_ctx_err_def)
        moreover have "distinct (map fst (AList.update ?sid ?n (ses_lanes (session_at w s))))"
          using S same by (intro distinct_update) (simp add: session_ok_def Let_def)
        ultimately show ?thesis
          using S True ses [OF s] same map unfolding session_ok_def Let_def by simp
      qed
    qed
    show "registry_ok w'"
      using world_invD(3) [OF w1] by (rule registry_ok_session) (use same len ses in \<open>auto simp: w'\<close>)
    show "pool_ok (uw_pool w')" using world_invD(4) [OF w1] by (simp add: w')
  qed
qed

lemma inv_step_detach [inv_intros]:
  assumes inv: "world_inv w" and g: "lane_guard w l LaneDetaching"
  shows "world_inv (step_detach l w)"
proof -
  let ?s = "lo_session (uw_lanes w ! l)" and ?sid = "lane_streamID (lane_at w l)"
  let ?L = "ses_lanes (session_at w ?s)"
  define left where "left = (if map_of ?L ?sid = Some l then AList.delete ?sid ?L else ?L)"
  let ?w = "step_detach l w"
  have l: "l < length (uw_lanes w)" and L: "lane_ok w l" and closed: "lane_closed (lane_at w l)"
    using g world_invD(1) [OF inv] by (auto simp: lane_guard_def lane_ok_def)
  have s: "?s < length (uw_sessions w)" using L by (simp add: lane_ok_def)
  have S: "session_ok w ?s" using world_invD(2) [OF inv s] .
  have len: "length (uw_lanes ?w) = length (uw_lanes w)" "length (uw_sessions ?w) = length (uw_sessions w)"
    by (simp_all add: step_detach_def detach_lane_def set_pc_def Let_def)
  have lane: "uw_lanes ?w ! k = (if k = l then (uw_lanes w ! l)\<lparr>lo_pc := LaneLeft\<rparr> else uw_lanes w ! k)"
    if "k < length (uw_lanes w)" for k
    using that by (simp add: step_detach_def detach_lane_def set_pc_def Let_def)
  have ses: "session_at ?w k = (if k = ?s then (session_at w ?s)\<lparr>ses_lanes := left,
      ses_wants_close := (left = [] \<or> ses_wants_close (session_at w ?s))\<rparr> else session_at w k)"
    if "k < length (uw_sessions w)" for k
    using that s by (simp add: step_detach_def detach_lane_def set_pc_def Let_def left_def)
  have entries: "(k, m) \<in> set left \<longleftrightarrow> (k, m) \<in> set ?L \<and> m \<noteq> l" for k m
  proof (cases "map_of ?L ?sid = Some l")
    case True
    have "(k, m) \<in> set (AList.delete ?sid ?L) \<longleftrightarrow> (k, m) \<in> set ?L \<and> k \<noteq> ?sid"
      by (auto simp: AList.delete_eq)
    moreover have "k = ?sid \<longleftrightarrow> m = l" if e: "(k, m) \<in> set ?L"
    proof
      assume "k = ?sid"
      then have "map_of ?L ?sid = Some m" using e map_of_lane_iff [OF S, of k m] by simp
      then show "m = l" using True by simp
    next
      assume "m = l"
      then show "k = ?sid" using session_lane(3) [OF S e] by simp
    qed
    ultimately show ?thesis using True by (auto simp: left_def)
  next
    case False
    then have "(k, l) \<notin> set ?L" for k using session_lane(3) [OF S] map_of_lane_iff [OF S] by metis
    then show ?thesis using False by (auto simp: left_def)
  qed
  have d: "distinct (map fst left)"
    using S distinct_delete [of ?L ?sid] by (auto simp: left_def session_ok_def Let_def)
  show ?thesis
  proof (rule world_invI)
    show "lane_ok ?w k" if "k < length (uw_lanes ?w)" for k
    proof -
      have k: "k < length (uw_lanes w)" using that len by simp
      have K: "lane_ok w k" using world_invD(1) [OF inv k] .
      then have "lo_session (uw_lanes w ! k) < length (uw_sessions w)" by (simp add: lane_ok_def)
      note sk = ses [OF this]
      show ?thesis
        using K closed len lane [OF k] sk entries [of "lane_streamID (lane_at w k)" k]
        by (cases "k = l") (auto simp: lane_ok_def)
    qed
    show "session_ok ?w k" if "k < length (uw_sessions ?w)" for k
    proof -
      have k: "k < length (uw_sessions w)" using that len by simp
      have K: "session_ok w k" using world_invD(2) [OF inv k] .
      have own: "(\<exists>m < length (uw_lanes ?w). lo_session (uw_lanes ?w ! m) = k)
          \<longleftrightarrow> (\<exists>m < length (uw_lanes w). lo_session (uw_lanes w ! m) = k)"
        using len lane by (metis (no_types, lifting) lane_object.select_convs(2) lane_object.surjective
            lane_object.update_convs(4))
      show ?thesis
      proof (cases "k = ?s")
        case True
        have map: "\<forall>(sid, m) \<in> set left. m < length (uw_lanes ?w) \<and> lo_session (uw_lanes ?w ! m) = k
          \<and> lane_streamID (lane_at ?w m) = sid \<and> lo_pc (uw_lanes ?w ! m) \<noteq> LaneLeft"
        proof (clarify)
          fix sid m
          assume "(sid, m) \<in> set left"
          then have "(sid, m) \<in> set ?L" "m \<noteq> l" using entries by auto
          then show "m < length (uw_lanes ?w) \<and> lo_session (uw_lanes ?w ! m) = k
              \<and> lane_streamID (lane_at ?w m) = sid \<and> lo_pc (uw_lanes ?w ! m) \<noteq> LaneLeft"
            using session_lane [OF S, of sid m] True len lane [of m] by auto
        qed
        have "ses_lanes (session_at w ?s) = [] \<Longrightarrow> left = []" by (simp add: left_def)
        then show ?thesis
          using S True ses [OF k] map own d unfolding session_ok_def Let_def by auto
      next
        case False
        have map: "\<forall>(sid, m) \<in> set (ses_lanes (session_at w k)). m < length (uw_lanes ?w)
          \<and> lo_session (uw_lanes ?w ! m) = k \<and> lane_streamID (lane_at ?w m) = sid
          \<and> lo_pc (uw_lanes ?w ! m) \<noteq> LaneLeft"
        proof (clarify)
          fix sid m
          assume "(sid, m) \<in> set (ses_lanes (session_at w k))"
          then show "m < length (uw_lanes ?w) \<and> lo_session (uw_lanes ?w ! m) = k
              \<and> lane_streamID (lane_at ?w m) = sid \<and> lo_pc (uw_lanes ?w ! m) \<noteq> LaneLeft"
            using session_lane [OF K, of sid m] False len lane [of m] by auto
        qed
        then show ?thesis
          using K False ses [OF k] own unfolding session_ok_def Let_def by simp
      qed
    qed
    show "registry_ok ?w"
      using world_invD(3) [OF inv]
      by (rule registry_ok_session)
        (use len ses in \<open>auto simp: step_detach_def detach_lane_def set_pc_def Let_def\<close>)
    show "pool_ok (uw_pool ?w)"
      using world_invD(4) [OF inv] by (simp add: step_detach_def detach_lane_def set_pc_def Let_def)
  qed
qed

section \<open>Closing\<close>

lemma session_ok_other:
  assumes "session_ok w s" and "session_at w' s = session_at w s" and "uw_lanes w' = uw_lanes w"
  shows "session_ok w' s"
  using assms by (simp add: session_ok_def)

lemma inv_close_cancel [inv_intros]:
  assumes inv: "world_inv w" and s: "s < length (uw_sessions w)" and "ses_wants_close (session_at w s)"
  shows "world_inv (close_cancel s w)"
proof (cases "ses_closing (session_at w s) = NotClosed")
  case False
  then show ?thesis using inv by (simp add: close_cancel_def)
next
  case True
  let ?w = "close_cancel s w"
  have w: "?w = upd_session s (\<lambda>S. S\<lparr>ses_cancelled := True, ses_backend_closed := True,
      ses_closing := CloseCancelled\<rparr>) w"
    using True by (simp add: close_cancel_def)
  show ?thesis
  proof (rule world_invI)
    show "lane_ok ?w l" if "l < length (uw_lanes ?w)" for l
      using world_invD(1) [OF inv, of l] that by (auto simp: w lane_ok_def)
    show "session_ok ?w k" if "k < length (uw_sessions ?w)" for k
      using world_invD(2) [OF inv, of k] that assms(3) by (auto simp: w session_ok_def Let_def)
    show "registry_ok ?w" using world_invD(3) [OF inv] by (rule registry_ok_session) (auto simp: w)
    show "pool_ok (uw_pool ?w)" using world_invD(4) [OF inv] by (simp add: w)
  qed
qed

lemma inv_close_stop_lanes [inv_intros]:
  assumes inv: "world_inv w" and s: "s < length (uw_sessions w)"
  shows "world_inv (close_stop_lanes s w)"
proof (cases "ses_closing (session_at w s) = CloseCancelled")
  case False
  then show ?thesis using inv by (simp add: close_stop_lanes_def)
next
  case True
  let ?ls = "map snd (ses_lanes (session_at w s))"
  let ?w = "close_stop_lanes s w"
  have w: "?w = upd_session s (\<lambda>S. S\<lparr>ses_lanes := [], ses_closing := CloseStopped\<rparr>) (stop_lanes ?ls w)"
    using True by (simp add: close_stop_lanes_def)
  have S: "session_ok w s" using world_invD(2) [OF inv s] .
  have stopped: "session_ok (stop_lanes ?ls w) k" if "k < length (uw_sessions w)" for k
    by (rule session_ok_lanes [OF world_invD(2) [OF inv that]]) auto
  show ?thesis
  proof (rule world_invI)
    show "lane_ok ?w l" if "l < length (uw_lanes ?w)" for l
    proof -
      have l: "l < length (uw_lanes w)" using that by (simp add: w)
      have L: "lane_ok w l" using world_invD(1) [OF inv l] .
      have "l \<in> set ?ls" if "lo_session (uw_lanes w ! l) = s" "\<not> lane_closed (lane_at w l)"
        using L that by (force simp: lane_ok_def)
      then show ?thesis using L l s by (auto simp: w lane_ok_def)
    qed
    show "session_ok ?w k" if "k < length (uw_sessions ?w)" for k
    proof (cases "k = s")
      case True
      have "ses_wants_close (session_at w s)" "ses_cancelled (session_at w s)"
        using S \<open>ses_closing (session_at w s) = CloseCancelled\<close> by (auto simp: session_ok_def Let_def)
      then show ?thesis using stopped [OF s] s True by (simp add: w session_ok_def Let_def)
    next
      case False
      then show ?thesis
        using that by (intro session_ok_other [OF stopped, of k]) (simp_all add: w)
    qed
    show "registry_ok ?w" using world_invD(3) [OF inv] by (rule registry_ok_session) (use s in \<open>auto simp: w\<close>)
    show "pool_ok (uw_pool ?w)" using world_invD(4) [OF inv] by (simp add: w)
  qed
qed

lemma inv_close_unregister [inv_intros]:
  assumes inv: "world_inv w" and s: "s < length (uw_sessions w)"
  shows "world_inv (close_unregister s w)"
proof (cases "ses_closing (session_at w s) = CloseStopped")
  case False
  then show ?thesis using inv by (simp add: close_unregister_def)
next
  case True
  let ?w = "close_unregister s w" and ?k = "ses_key (session_at w s)"
  have w: "?w = upd_session s (\<lambda>S. S\<lparr>ses_closing := CloseDone\<rparr>)
      (w\<lparr>uw_registry := registry_remove ?k s (uw_registry w)\<rparr>)"
    using True by (simp add: close_unregister_def)
  have R: "registry_ok w" using world_invD(3) [OF inv] .
  have cancelled: "ses_cancelled (session_at w s)"
    using world_invD(2) [OF inv s] True by (auto simp: session_ok_def Let_def)
  have ses: "session_at ?w t = (if t = s then (session_at w s)\<lparr>ses_closing := CloseDone\<rparr> else session_at w t)"
    if "t < length (uw_sessions w)" for t
    using that s by (simp add: w)
  show ?thesis
  proof (rule world_invI)
    show "lane_ok ?w l" if "l < length (uw_lanes ?w)" for l
    proof -
      have L: "lane_ok w l" using world_invD(1) [OF inv, of l] that by (simp add: w)
      then show ?thesis using ses [of "lo_session (uw_lanes w ! l)"] by (auto simp: w lane_ok_def)
    qed
    show "session_ok ?w t" if "t < length (uw_sessions ?w)" for t
      using world_invD(2) [OF inv, of t] that True s by (auto simp: w session_ok_def Let_def)
    have "t < length (uw_sessions w) \<and> ses_key (session_at ?w t) = k \<and> ses_closing (session_at ?w t) \<noteq> CloseDone"
      if t: "registry_remove ?k s (uw_registry w) k = Some t" for k t
    proof -
      have "uw_registry w k = Some t" using udp_registry.drop_if_le [OF t] .
      then have o: "t < length (uw_sessions w)" "ses_key (session_at w t) = k" "ses_closing (session_at w t) \<noteq> CloseDone"
        using R unfolding registry_ok_def by simp_all
      moreover have "t \<noteq> s" using t udp_registry.drop_if_gone [of ?k s "uw_registry w"] o by auto
      ultimately show ?thesis using ses by simp
    qed
    moreover have "registry_remove ?k s (uw_registry w) (ses_key (session_at ?w t)) = Some t"
      if "t < length (uw_sessions w)" "\<not> session_ctx_err ?w t" for t
    proof -
      have ctx: "uw_ctx_done ?w = uw_ctx_done w" by (simp add: w)
      have t: "t \<noteq> s" using that(2) cancelled ses [OF that(1)] by (auto simp: session_ctx_err_def)
      moreover have "\<not> session_ctx_err w t"
        using that(2) ctx t ses [OF that(1)] by (simp add: session_ctx_err_def)
      ultimately have "uw_registry w (ses_key (session_at w t)) = Some t"
        using R that(1) unfolding registry_ok_def by simp
      then show ?thesis using t ses [OF that(1)] by (auto simp: registry_remove_def)
    qed
    moreover have f: "uw_registry ?w = registry_remove ?k s (uw_registry w)"
      "uw_attaching ?w = uw_attaching w" "length (uw_sessions ?w) = length (uw_sessions w)"
      by (simp_all add: w)
    ultimately show "registry_ok ?w" using R unfolding registry_ok_def f by simp
    show "pool_ok (uw_pool ?w)" using world_invD(4) [OF inv] by (simp add: w)
  qed
qed

section \<open>Every step\<close>

lemma inv_step_connect:
  assumes "step_connect first connectAddr dial c w = Some w'" and inv: "world_inv w"
  shows "world_inv w'"
proof -
  obtain hello where h: "parseUDPSessionPreface (take 1600 first) = Some hello"
    using assms(1) by (auto simp: step_connect_def split: option.splits)
  obtain w1 r where g: "getOrCreate hello connectAddr dial w = (w1, r)" by fastforce
  note I = inv_getOrCreate [OF g inv]
  show ?thesis
  proof (cases r)
    case (Inl e)
    then show ?thesis using assms(1) h g I by (simp add: step_connect_def)
  next
    case (Inr s)
    have w': "w' = w1\<lparr>uw_attaching := uw_attaching w1 @ [(s, hello, c)]\<rparr>"
      using assms(1) h g Inr by (simp add: step_connect_def)
    have sid: "unat (hello_streamID hello) < udpSessionMaxStreams"
      using h by (auto simp: parseUDPSessionPreface_def Let_def split: if_splits)
    have w1: "world_inv w1" "s < length (uw_sessions w1)" using I Inr by auto
    show ?thesis
    proof (rule world_invI)
      show "lane_ok w' l" if "l < length (uw_lanes w')" for l
        using world_invD(1) [OF w1(1), of l] that by (simp add: w' lane_ok_def)
      show "session_ok w' t" if "t < length (uw_sessions w')" for t
        using world_invD(2) [OF w1(1), of t] that by (simp add: w' session_ok_def)
      show "registry_ok w'"
        using world_invD(3) [OF w1(1)] w1(2) sid by (auto simp: w' registry_ok_def session_ctx_err_def)
      show "pool_ok (uw_pool w')" using world_invD(4) [OF w1(1)] by (simp add: w')
    qed
  qed
qed

lemma inv_step_attach:
  assumes "step_attach i w = Some w'" and inv: "world_inv w"
  shows "world_inv w'"
proof -
  obtain s hello c where a: "i < length (uw_attaching w)" "uw_attaching w ! i = (s, hello, c)"
    and w': "w' = fst (addLane s hello c (w\<lparr>uw_attaching := remove_nth i (uw_attaching w)\<rparr>))"
    using assms(1) by (cases "uw_attaching w ! i") (auto simp: step_attach_def split: if_splits)
  let ?w = "w\<lparr>uw_attaching := remove_nth i (uw_attaching w)\<rparr>"
  have sub: "set (remove_nth i (uw_attaching w)) \<subseteq> set (uw_attaching w)"
    by (auto simp: remove_nth_def dest: in_set_takeD in_set_dropD)
  have "(s, hello, c) \<in> set (uw_attaching w)" using a by (metis nth_mem)
  then have s: "s < length (uw_sessions w)" "unat (hello_streamID hello) < udpSessionMaxStreams"
    using world_invD(3) [OF inv] by (auto simp: registry_ok_def)
  have "world_inv ?w"
  proof (rule world_invI)
    show "lane_ok ?w l" if "l < length (uw_lanes ?w)" for l
      using world_invD(1) [OF inv, of l] that by (simp add: lane_ok_def)
    show "session_ok ?w t" if "t < length (uw_sessions ?w)" for t
      using world_invD(2) [OF inv, of t] that by (simp add: session_ok_def)
    have R: "registry_ok w" using world_invD(3) [OF inv] .
    have "\<forall>(s, hello, c) \<in> set (remove_nth i (uw_attaching w)). s < length (uw_sessions w)
        \<and> unat (hello_streamID hello) < udpSessionMaxStreams"
      using R sub unfolding registry_ok_def by blast
    then show "registry_ok ?w" using R unfolding registry_ok_def session_ctx_err_def by simp
    show "pool_ok (uw_pool ?w)" using world_invD(4) [OF inv] by simp
  qed
  then show ?thesis using inv_addLane [of s hello c ?w w' "snd (addLane s hello c ?w)"] w' s by simp
qed

lemma inv_ctx_cancel: "world_inv w \<Longrightarrow> world_inv (w\<lparr>uw_ctx_done := True\<rparr>)"
  by (simp add: world_inv_def lane_ok_def session_ok_def registry_ok_def session_ctx_err_def)

lemma inv_step_close:
  assumes "step_close s w = Some w'" and "world_inv w" and "s < length (uw_sessions w)"
  shows "world_inv w'"
  using assms inv_close_cancel inv_close_stop_lanes inv_close_unregister
  by (auto simp: step_close_def split: close_pc.splits if_splits)

lemma inv_udp_step: "udp_step lab w = Some w' \<Longrightarrow> world_inv w \<Longrightarrow> world_inv w'"
proof (cases lab)
  case (L_downlink s res now i)
  assume "udp_step lab w = Some w'" and inv: "world_inv w"
  then show ?thesis
    using L_downlink inert_readBackend [of s res now i w w'] world_invD(4) [OF inv] inert_world_inv
    by (auto simp: udp_step_def split: if_splits)
next
  case (L_uplink l res)
  assume "udp_step lab w = Some w'" and "world_inv w"
  then show ?thesis
    using L_uplink inert_world_inv [OF inert_uplink_read] by (auto simp: udp_step_def split: if_splits)
next
  case (L_check l)
  assume "udp_step lab w = Some w'" and "world_inv w"
  then show ?thesis
    using L_check inert_world_inv [OF inert_uplink_check] by (auto simp: udp_step_def split: if_splits)
qed (auto simp: udp_step_def split: if_splits
    intro: inv_step_connect inv_step_attach inv_ctx_cancel inv_step_close inv_writeLane inv_stop_step inv_step_detach)

interpretation udp_world: invariant_system "\<lambda>w. w = udp_start" udp_next world_inv
  using world_inv_start inv_udp_step by unfold_locales (auto simp: udp_next_def)

end
