(* ===== verification/Session_Flow.thy ===== *)
theory Session_Flow
  imports Session_Invariants
begin

text \<open>
  What the aggregated sessions do with packets: the downlink of a lane leaves in the order in
  which it was queued, every packet of the backend is queued once or counted as dropped, the
  uplink forwards everything but probes, and a session that lost its lanes is shut down.
\<close>

section \<open>The order of the downlink\<close>

definition queued_on :: "nat \<Rightarrow> udp_effect list \<Rightarrow> bytes list" where
  "queued_on l log = concat (map (\<lambda>e. case e of Queued k p \<Rightarrow> if k = l then [p] else [] | _ \<Rightarrow> []) log)"

definition sent_on :: "nat \<Rightarrow> udp_effect list \<Rightarrow> bytes list" where
  "sent_on l log = concat (map (\<lambda>e. case e of SentDown k p \<Rightarrow> if k = l then [p] else [] | _ \<Rightarrow> []) log)"

lemma flow_append [simp]:
  "queued_on l (xs @ ys) = queued_on l xs @ queued_on l ys" "sent_on l (xs @ ys) = sent_on l xs @ sent_on l ys"
  "queued_on l [] = []" "sent_on l [] = []"
  "queued_on l [Queued k p] = (if k = l then [p] else [])" "sent_on l [SentDown k p] = (if k = l then [p] else [])"
  "queued_on l [SentDown k p] = []" "sent_on l [Queued k p] = []"
  "queued_on l [Dropped k p] = []" "sent_on l [Dropped k p] = []"
  "queued_on l [SentUp k p] = []" "sent_on l [SentUp k p] = []"
  "queued_on l [Echoed k p] = []" "sent_on l [Echoed k p] = []"
  by (simp_all add: queued_on_def sent_on_def)

definition lane_fifo :: "udp_world \<Rightarrow> nat \<Rightarrow> bool" where
  "lane_fifo w l \<longleftrightarrow>
     (if l < length (uw_lanes w) then
        (lo_writer (uw_lanes w ! l) \<longrightarrow>
           queued_on l (uw_log w) = sent_on l (uw_log w) @ map packet_bytes (lane_out (lane_at w l)))
        \<and> (\<exists>rest. queued_on l (uw_log w) = sent_on l (uw_log w) @ rest)
      else queued_on l (uw_log w) = [] \<and> sent_on l (uw_log w) = [])"

definition fifo_inv :: "udp_world \<Rightarrow> bool" where
  "fifo_inv w \<longleftrightarrow> (\<forall>l. lane_fifo w l)"

text \<open>Actions that leave the queues, the writers and the two logs alone.\<close>

definition flow_of :: "lane_object \<Rightarrow> udpSessionPacket list \<times> bool" where
  "flow_of lo = (lane_out (lo_lane lo), lo_writer lo)"

definition same_flow :: "udp_world \<Rightarrow> udp_world \<Rightarrow> bool" where
  "same_flow w w' \<longleftrightarrow>
     map flow_of (uw_lanes w') = map flow_of (uw_lanes w)
     \<and> (\<forall>l. queued_on l (uw_log w') = queued_on l (uw_log w) \<and> sent_on l (uw_log w') = sent_on l (uw_log w))"

lemma same_flow_refl [simp]: "same_flow w w"
  by (simp add: same_flow_def)

lemma same_flow_fifo:
  assumes "same_flow w w'" and "fifo_inv w"
  shows "fifo_inv w'"
  unfolding fifo_inv_def
proof
  fix l
  have m: "map flow_of (uw_lanes w') = map flow_of (uw_lanes w)" using assms(1) by (simp add: same_flow_def)
  have len: "length (uw_lanes w') = length (uw_lanes w)" using arg_cong [OF m, of length] by simp
  have "flow_of (uw_lanes w' ! l) = flow_of (uw_lanes w ! l)" if "l < length (uw_lanes w)"
    using arg_cong [OF m, of "\<lambda>xs. xs ! l"] that len by simp
  moreover have "lane_fifo w l" using assms(2) by (simp add: fifo_inv_def)
  ultimately show "lane_fifo w' l"
    using assms(1) len by (simp add: same_flow_def lane_fifo_def flow_of_def)
qed

lemma same_flow_lanes:
  "uw_log w' = uw_log w \<Longrightarrow> uw_lanes w' = uw_lanes w \<Longrightarrow> same_flow w w'"
  by (simp add: same_flow_def)

lemma same_flow_trans:
  assumes "same_flow u v" and "same_flow v w"
  shows "same_flow u w"
  using assms by (simp add: same_flow_def)

lemma same_flow_upd_session [simp]: "same_flow w (upd_session s f w') \<longleftrightarrow> same_flow w w'"
  by (simp add: same_flow_def)

lemma same_flow_metrics [simp]: "same_flow w (w'\<lparr>uw_metrics := m\<rparr>) \<longleftrightarrow> same_flow w w'"
  by (simp add: same_flow_def)

lemma same_flow_other [simp]:
  "same_flow w (w'\<lparr>uw_pool := pool\<rparr>) \<longleftrightarrow> same_flow w w'"
  "same_flow w (w'\<lparr>uw_attaching := att\<rparr>) \<longleftrightarrow> same_flow w w'"
  "same_flow w (w'\<lparr>uw_ctx_done := b\<rparr>) \<longleftrightarrow> same_flow w w'"
  "same_flow w (w'\<lparr>uw_registry := reg\<rparr>) \<longleftrightarrow> same_flow w w'"
  "same_flow w (w'\<lparr>uw_sessions := ss\<rparr>) \<longleftrightarrow> same_flow w w'"
  by (simp_all add: same_flow_def)

lemma same_flow_log [simp]:
  "same_flow w (log_effect (Dropped s p) w') \<longleftrightarrow> same_flow w w'"
  "same_flow w (log_effect (SentUp s p) w') \<longleftrightarrow> same_flow w w'"
  "same_flow w (log_effect (Echoed s p) w') \<longleftrightarrow> same_flow w w'"
  by (simp_all add: same_flow_def)

lemma same_flow_upd_lane:
  assumes "\<And>lo. flow_of (g lo) = flow_of lo"
  shows "same_flow w (upd_lane l g w') \<longleftrightarrow> same_flow w w'"
proof -
  have "map flow_of (uw_lanes (upd_lane l g w')) = map flow_of (uw_lanes w')"
    by (rule nth_equalityI) (auto simp: assms)
  then show ?thesis by (simp add: same_flow_def)
qed

lemma same_flow_lane_ops [simp]:
  "same_flow w (set_pc l pc w') \<longleftrightarrow> same_flow w w'"
  "same_flow w (lane_stop l w') \<longleftrightarrow> same_flow w w'"
  "same_flow w (fst (lane_write l p w')) \<longleftrightarrow> same_flow w w'"
  by (simp_all add: set_pc_def lane_stop_eq lane_write_def same_flow_upd_lane flow_of_def split: prod.splits)

lemma same_flow_stop_lanes [simp]: "same_flow w (stop_lanes ls w') \<longleftrightarrow> same_flow w w'"
  by (induction ls arbitrary: w') (simp_all add: stop_lanes_def)

lemma same_flow_writeBackend [simp]: "same_flow w (fst (writeBackend s p w')) \<longleftrightarrow> same_flow w w'"
  by (simp add: writeBackend_def split: prod.splits)

lemma same_flow_uplink: "same_flow w (uplink_read l res w)"
proof (cases res)
  case (ReadPacket p)
  have "same_flow w w1" if "lane_write l q w = (w1, e)" for w1 q e
    using that same_flow_lane_ops(3) same_flow_refl by (metis fst_conv)
  moreover have "same_flow w w1" if "writeBackend s q w = (w1, e)" for w1 s q e
    using that same_flow_writeBackend same_flow_refl by (metis fst_conv)
  ultimately show ?thesis
    using ReadPacket by (auto simp: uplink_read_def Let_def split: prod.splits option.splits)
qed (auto simp: uplink_read_def)

lemma same_flow_close: "step_close s w = Some w' \<Longrightarrow> same_flow w w'"
  by (auto simp: step_close_def close_cancel_def close_stop_lanes_def close_unregister_def
      split: close_pc.splits if_splits)

lemma same_flow_detach: "same_flow w (step_detach l w)"
  by (simp add: step_detach_def detach_lane_def Let_def)

lemma same_flow_connect: "step_connect first addr dial c w = Some w' \<Longrightarrow> same_flow w w'"
  by (auto simp: step_connect_def getOrCreate_def Let_def split: option.splits if_splits prod.splits)

lemma fifo_addLane:
  assumes "fifo_inv w"
  shows "fifo_inv (fst (addLane s hello c w))"
proof (cases "session_ctx_err w s")
  case True
  then show ?thesis using assms by (simp add: addLane_def)
next
  case False
  define w1 where "w1 = (case map_of (ses_lanes (session_at w s)) (hello_streamID hello) of
      None \<Rightarrow> w | Some previous \<Rightarrow> lane_stop previous w)"
  have "same_flow w w1" by (auto simp: w1_def split: option.splits)
  then have w1: "fifo_inv w1" using assms same_flow_fifo by blast
  let ?new = "\<lparr>lo_lane = new_lane hello c, lo_session = s, lo_writer = True, lo_pc = LaneLoop\<rparr>"
  have "fifo_inv (w1\<lparr>uw_lanes := uw_lanes w1 @ [?new]\<rparr>)"
    unfolding fifo_inv_def
  proof
    fix l
    have "lane_fifo w1 l" using w1 by (simp add: fifo_inv_def)
    then show "lane_fifo (w1\<lparr>uw_lanes := uw_lanes w1 @ [?new]\<rparr>) l"
      by (auto simp: lane_fifo_def nth_append new_lane_def split: if_splits)
  qed
  then have "fifo_inv (upd_session s f (w1\<lparr>uw_lanes := uw_lanes w1 @ [?new]\<rparr>))" for f
    by (rule same_flow_fifo [rotated]) simp
  then show ?thesis using False by (simp add: addLane_def Let_def w1_def)
qed

text \<open>The downlink: the chosen lane exists, and queueing a packet extends its log.\<close>

lemma enqueue_cases:
  assumes e: "enqueueDownlink s payload now i w = Some (w', ok)" and inv: "world_inv w"
    and s: "s < length (uw_sessions w)"
  obtains (queued) w1 l packet where "ok" "l < length (uw_lanes w)" "lo_session (uw_lanes w ! l) = s"
      "\<not> lane_closed (lane_at w l)" "packet_bytes packet = payload"
      "uw_lanes w1 = uw_lanes w" "uw_log w1 = uw_log w" "uw_metrics w1 = uw_metrics w"
      "w' = log_effect (Queued l payload) (upd_lane l (\<lambda>lo. lo\<lparr>lo_lane := (lo_lane lo)
          \<lparr>lane_out := lane_out (lane_at w l) @ [packet]\<rparr>\<rparr>) w1)"
      "ses_downlinkDrops (session_at w1 s) = ses_downlinkDrops (session_at w s)"
  | (dropped) sel where "\<not> ok" "w' = count_drop s payload (upd_session s (\<lambda>S. S\<lparr>ses_selector := sel\<rparr>) w)"
proof -
  have S: "session_ok w s" using world_invD(2) [OF inv s] .
  then have wf: "selector_wf (ses_selector (session_at w s))" by (simp add: session_ok_def Let_def)
  obtain sel chosen where c: "choose_lane (ses_selector (session_at w s)) (snapshotLanes w s) now = Some (sel, chosen)"
    using e by (auto simp: enqueueDownlink_def split: option.splits)
  show ?thesis
  proof (cases chosen)
    case None
    then show ?thesis using e c dropped by (auto simp: enqueueDownlink_def)
  next
    case (Some index)
    have "good_choice (snapshotLanes w s) (sel, chosen)"
      using choose_lane_good [OF wf length_snapshotLanes, of w s now] c by simp
    then obtain ln where ln: "open_at (snapshotLanes w s) index ln" "length (lane_out ln) < udpSessionQueueSize"
      using Some by (auto simp: good_choice_def)
    then obtain l where l: "map_of (ses_lanes (session_at w s)) (of_nat index) = Some l" "ln = lane_at w l"
      "\<not> lane_closed (lane_at w l)"
      by (auto simp: open_at_def snapshotLanes_def)
    then have m: "(of_nat index, l) \<in> set (ses_lanes (session_at w s))" by (simp add: map_of_SomeD)
    obtain packet pool' where a: "acquireUDPSessionPacket (uw_pool w) i payload = (packet, pool')"
      by fastforce
    define w1 where "w1 = (upd_session s (\<lambda>S. S\<lparr>ses_selector := sel\<rparr>) w)\<lparr>uw_pool := pool'\<rparr>"
    have "ok" "w' = log_effect (Queued l payload) (upd_lane l (\<lambda>lo. lo\<lparr>lo_lane := (lo_lane lo)
          \<lparr>lane_out := lane_out (lane_at w l) @ [packet]\<rparr>\<rparr>) w1)"
      using e c Some l ln(2) a by (auto simp: enqueueDownlink_def Let_def w1_def try_send_def)
    then show ?thesis
      using queued [of l packet w1] session_lane(1,2) [OF S m] l(3) a s by (simp add: w1_def)
  qed
qed

lemma fifo_enqueue:
  assumes "enqueueDownlink s payload now i w = Some (w', ok)" and "world_inv w"
    and "s < length (uw_sessions w)" and "fifo_inv w"
  shows "fifo_inv w'"
  using assms(1-3)
proof (cases rule: enqueue_cases)
  case (dropped sel)
  then show ?thesis using assms(4) by (auto simp: count_drop_def intro: same_flow_fifo [rotated])
next
  case (queued w1 l packet)
  show ?thesis
    unfolding fifo_inv_def
  proof
    fix k
    have "lane_fifo w k" using assms(4) by (simp add: fifo_inv_def)
    then show "lane_fifo w' k" using queued by (auto simp: lane_fifo_def)
  qed
qed

lemma fifo_readBackend:
  assumes "readBackend_turn s res now i w = Some w'" and inv: "world_inv w"
    and "s < length (uw_sessions w)" and "fifo_inv w"
  shows "fifo_inv w'"
proof (cases res)
  case (ReadPacket p)
  let ?w = "w\<lparr>uw_metrics := (uw_metrics w)\<lparr>m_packetsFromBackend := m_packetsFromBackend (uw_metrics w) + 1\<rparr>\<rparr>"
  obtain w1 ok where e: "enqueueDownlink s (take udpSessionPacketSize p) now i ?w = Some (w1, ok)"
    using assms(1) ReadPacket by (auto simp: readBackend_turn_def Let_def split: option.splits)
  have "world_inv ?w" using inv by (rule inert_world_inv [rotated]) simp
  moreover have "fifo_inv ?w" using assms(4) by (rule same_flow_fifo [rotated]) simp
  ultimately have "fifo_inv w1" using fifo_enqueue [OF e] assms(3) by simp
  moreover have "same_flow w1 w'"
    using assms(1) e ReadPacket by (auto simp: readBackend_turn_def Let_def)
  ultimately show ?thesis using same_flow_fifo by blast
qed (use assms in \<open>auto simp: readBackend_turn_def intro: same_flow_fifo [rotated]\<close>)

lemma fifo_writeLane:
  assumes "writeLane_turn l cancelled w = Some w'" and l: "l < length (uw_lanes w)"
    and writer: "lo_writer (uw_lanes w ! l)" and fifo: "fifo_inv w"
  shows "fifo_inv w'"
  unfolding fifo_inv_def
proof
  fix k
  have k: "lane_fifo w k" and fl: "lane_fifo w l" using fifo by (simp_all add: fifo_inv_def)
  show "lane_fifo w' k"
  proof (cases cancelled)
    case True
    then show ?thesis using assms(1) l k
      by (auto simp: writeLane_turn_def lane_fifo_def split: if_splits)
  next
    case False
    then obtain packet rest where o: "lane_out (lane_at w l) = packet # rest"
      using assms(1) by (auto simp: writeLane_turn_def split: list.splits)
    obtain cn err where c: "pconn_Write (lane_conn (lane_at w l)) (packet_bytes packet) = (cn, err)" by fastforce
    show ?thesis
      using assms(1) False o c l k fl writer
      by (cases err)
        (auto simp: writeLane_turn_def lane_write_def lane_stop_eq lane_fifo_def Let_def split: if_splits)
  qed
qed

lemma fifo_udp_step:
  assumes "udp_step lab w = Some w'" and inv: "world_inv w" and fifo: "fifo_inv w"
  shows "fifo_inv w'"
proof (cases lab)
  case (L_downlink s res now i)
  then show ?thesis
    using assms fifo_readBackend [of s res now i w w'] by (auto simp: udp_step_def split: if_splits)
next
  case (L_writer l cancelled)
  then show ?thesis
    using assms fifo_writeLane [of l cancelled w w'] by (auto simp: udp_step_def split: if_splits)
next
  case (L_attach i)
  then show ?thesis
    using assms fifo_addLane [of "w\<lparr>uw_attaching := remove_nth i (uw_attaching w)\<rparr>"]
      same_flow_fifo [of w "w\<lparr>uw_attaching := remove_nth i (uw_attaching w)\<rparr>"]
    by (auto simp: udp_step_def step_attach_def split: if_splits prod.splits)
next
  case (L_connect first addr dial c)
  then show ?thesis
    using assms same_flow_fifo [OF same_flow_connect] by (auto simp: udp_step_def)
next
  case (L_close s)
  then show ?thesis
    using assms same_flow_fifo [OF same_flow_close] by (auto simp: udp_step_def split: if_splits)
next
  case (L_detach l)
  then show ?thesis
    using assms same_flow_fifo [OF same_flow_detach] by (auto simp: udp_step_def split: if_splits)
next
  case (L_uplink l res)
  then show ?thesis
    using assms same_flow_fifo [OF same_flow_uplink] by (auto simp: udp_step_def split: if_splits)
next
  case L_ctx_cancel
  then show ?thesis using assms by (auto simp: udp_step_def intro: same_flow_fifo [rotated])
next
  case (L_check l)
  then show ?thesis
    using assms by (auto simp: udp_step_def uplink_check_def split: if_splits intro: same_flow_fifo [rotated])
next
  case (L_stop l)
  then show ?thesis
    using assms by (auto simp: udp_step_def split: if_splits intro: same_flow_fifo [rotated])
qed

interpretation udp_flow: invariant_system "\<lambda>w. w = udp_start" udp_next "\<lambda>w. world_inv w \<and> fifo_inv w"
  using world_inv_start inv_udp_step fifo_udp_step
  by unfold_locales (auto simp: udp_next_def fifo_inv_def lane_fifo_def udp_start_def)

section \<open>Sample runs\<close>

definition sample_pconn :: pconn where
  "sample_pconn = \<lparr>pc_sent = [], pc_script = []\<rparr>"

definition sample_preface :: bytes where
  "sample_preface = replicate 6 0 @ [0x40, 0, 0x80] @ replicate 8 0"

definition sample_session_run :: "udp_label list" where
  "sample_session_run = [L_connect sample_preface ''wg'' (Some sample_pconn) sample_pconn, L_attach 0]"

definition sample_world :: udp_world where
  "sample_world = the (udp_run sample_session_run udp_start)"

lemma sample_world_run: "udp_run sample_session_run udp_start \<noteq> None \<and> length (uw_sessions sample_world) = 1
    \<and> length (uw_lanes sample_world) = 1 \<and> \<not> session_ctx_err sample_world 0
    \<and> ses_lanes (session_at sample_world 0) = [(0, 0)] \<and> ses_closing (session_at sample_world 0) = NotClosed
    \<and> lo_pc (uw_lanes sample_world ! 0) = LaneLoop \<and> lo_session (uw_lanes sample_world ! 0) = 0"
  by code_simp

lemma sample_world_reachable: "udp_steps udp_start sample_world"
  using sample_world_run udp_run_steps [of sample_session_run udp_start sample_world]
  by (auto simp: sample_world_def)

end
