(* ===== verification/Session_Properties.thy ===== *)
theory Session_Properties
  imports Session_Flow
begin

text \<open>The properties of the aggregated UDP sessions of \<open>server/session_udp.go\<close>.\<close>

lemma reachable_world: "udp_steps udp_start w \<Longrightarrow> world_inv w"
  using udp_world.reachable_inv by blast

lemma length_AList_delete:
  "distinct (map fst al) \<Longrightarrow> map_of al k = Some v \<Longrightarrow> length (AList.delete k al) = length al - 1"
proof (induction al)
  case Nil
  then show ?case by simp
next
  case (Cons x al)
  obtain k' v' where x: "x = (k', v')" by fastforce
  show ?case
  proof (cases "k' = k")
    case True
    then have "k \<notin> fst ` set al" using Cons.prems x by auto
    then have "filter (\<lambda>(k', _). k \<noteq> k') al = al" by (intro filter_True) force
    then show ?thesis using x True by (simp add: AList.delete_eq)
  next
    case False
    then have "map_of al k = Some v" using Cons.prems x by auto
    moreover from this have "al \<noteq> []" by auto
    ultimately show ?thesis using Cons x False by (cases al) (auto simp: AList.delete_eq)
  qed
qed

text \<open>C6: on every lane the downlink packets leave in the order in which the backend's packets were
  queued, none twice and none invented: what was sent is a prefix of what was queued, and while
  the lane's writer runs the rest is exactly what still waits in the queue, at most 128 packets.\<close>

theorem downlink_fifo:
  assumes "udp_steps udp_start w" and "l < length (uw_lanes w)"
  shows "\<exists>rest. queued_on l (uw_log w) = sent_on l (uw_log w) @ rest
    \<and> (if lo_writer (uw_lanes w ! l) then rest = map packet_bytes (lane_out (lane_at w l)) else True)
    \<and> length (lane_out (lane_at w l)) \<le> 128"
proof -
  have "world_inv w \<and> fifo_inv w" using udp_flow.reachable_inv assms(1) by blast
  then have f: "lane_fifo w l" and q: "length (lane_out (lane_at w l)) \<le> 128"
    using assms(2) world_invD(1) [of w l] by (auto simp: fifo_inv_def lane_ok_def udpSessionQueueSize_def)
  show ?thesis
  proof (cases "lo_writer (uw_lanes w ! l)")
    case True
    then show ?thesis using f q assms(2) by (simp add: lane_fifo_def)
  next
    case False
    then show ?thesis using f q assms(2) by (simp add: lane_fifo_def)
  qed
qed

theorem downlink_fifo_witness: "\<exists>rest. queued_on 0 (uw_log sample_world) = sent_on 0 (uw_log sample_world) @ rest"
  using downlink_fifo [OF sample_world_reachable, of 0] sample_world_run by auto

text \<open>C7: there is at most one live session per client UUID and backend address, and the registry
  points to it, so that all lanes of a client meet in one session.\<close>

theorem one_live_session:
  assumes "udp_steps udp_start w" and "s < length (uw_sessions w)" and "\<not> session_ctx_err w s"
  shows "uw_registry w (ses_key (session_at w s)) = Some s
    \<and> (t < length (uw_sessions w) \<and> \<not> session_ctx_err w t
         \<and> ses_key (session_at w t) = ses_key (session_at w s) \<longrightarrow> t = s)"
  using world_invD(3) [OF reachable_world [OF assms(1)]] assms(2,3) unfolding registry_ok_def
  by (metis option.inject)

theorem one_live_session_witness: "uw_registry sample_world (ses_key (session_at sample_world 0)) = Some 0"
  using one_live_session [OF sample_world_reachable, of 0] sample_world_run by simp

text \<open>No lane outlives its place: a lane that is not stopped is the current lane of its stream
  number in its session, and that session has not been shut down; in particular a lane that was
  replaced, detached, or whose session is closed, is stopped.\<close>

theorem open_lane_is_current:
  assumes "udp_steps udp_start w" and "l < length (uw_lanes w)" and "\<not> lane_closed (lane_at w l)"
  shows "let s = lo_session (uw_lanes w ! l) in s < length (uw_sessions w)
    \<and> map_of (ses_lanes (session_at w s)) (lane_streamID (lane_at w l)) = Some l
    \<and> ses_closing (session_at w s) \<notin> {CloseStopped, CloseDone} \<and> lo_pc (uw_lanes w ! l) \<noteq> LaneLeft"
proof -
  have inv: "world_inv w" using reachable_world [OF assms(1)] .
  let ?s = "lo_session (uw_lanes w ! l)"
  have L: "lane_ok w l" using world_invD(1) [OF inv assms(2)] .
  then have s: "?s < length (uw_sessions w)" by (simp add: lane_ok_def)
  have S: "session_ok w ?s" using world_invD(2) [OF inv s] .
  have m: "(lane_streamID (lane_at w l), l) \<in> set (ses_lanes (session_at w ?s))"
    using L assms(3) by (simp add: lane_ok_def)
  then have "ses_lanes (session_at w ?s) \<noteq> []" by auto
  then have "ses_closing (session_at w ?s) \<notin> {CloseStopped, CloseDone}"
    using S by (auto simp: session_ok_def Let_def)
  then show ?thesis using s m map_of_lane_iff [OF S] session_lane(4) [OF S m] by (simp add: Let_def)
qed

theorem open_lane_is_current_witness:
  "map_of (ses_lanes (session_at sample_world 0)) (lane_streamID (lane_at sample_world 0)) = Some 0"
proof -
  have "\<not> lane_closed (lane_at sample_world 0)" by code_simp
  then show ?thesis
    using open_lane_is_current [OF sample_world_reachable, of 0] sample_world_run by (simp add: Let_def)
qed

text \<open>The shutdown of an old session never unregisters the session that took its place: a step
  of the close of \<open>s\<close> keeps every entry of the registry that points to another session.\<close>

theorem stale_close_keeps_successor:
  assumes "udp_step (L_close s) w = Some w'" and "uw_registry w k = Some t" and "t \<noteq> s"
  shows "uw_registry w' k = Some t"
proof -
  have "uw_registry w' = uw_registry w \<or> uw_registry w' = registry_remove (ses_key (session_at w s)) s (uw_registry w)"
    using assms(1)
    by (auto simp: udp_step_def step_close_def close_cancel_def close_stop_lanes_def close_unregister_def
        split: if_splits close_pc.splits)
  moreover have "registry_remove (ses_key (session_at w s)) s (uw_registry w) k = uw_registry w k"
    using assms(2,3) by (auto simp: udp_registry.lookup_drop_if)
  ultimately show ?thesis using assms(2) by auto
qed

text \<open>A second session under the key of the first, which is being closed.\<close>

definition successor_world :: udp_world where
  "successor_world = sample_world\<lparr>
     uw_sessions := [(session_at sample_world 0)\<lparr>ses_cancelled := True, ses_closing := CloseStopped,
                       ses_lanes := []\<rparr>, session_at sample_world 0],
     uw_registry := [ses_key (session_at sample_world 0) \<mapsto> 1]\<rparr>"

theorem stale_close_keeps_successor_witness:
  "uw_registry (close_unregister 0 successor_world) (ses_key (session_at sample_world 0)) = Some 1"
proof -
  have "udp_step (L_close 0) successor_world = Some (close_unregister 0 successor_world)"
    by (simp add: udp_step_def step_close_def successor_world_def)
  then show ?thesis
    by (rule stale_close_keeps_successor) (simp_all add: successor_world_def)
qed

text \<open>The downlink never panics and loses nothing silently: a packet of the backend is either
  queued, unchanged up to the buffer size, on one open lane of its session, or counted as a drop
  by the session and by the server; and it is counted as received in any case.\<close>

theorem downlink_accounted:
  assumes "udp_steps udp_start w" and "s < length (uw_sessions w)"
  shows "case readBackend_turn s (ReadPacket p) now i w of
      None \<Rightarrow> False
    | Some w' \<Rightarrow>
        m_packetsFromBackend (uw_metrics w') = m_packetsFromBackend (uw_metrics w) + 1
        \<and> (if uw_log w' = uw_log w @ [Dropped s (take 2048 p)]
           then ses_downlinkDrops (session_at w' s) = ses_downlinkDrops (session_at w s) + 1
             \<and> m_udpDownlinkDrops (uw_metrics w') = m_udpDownlinkDrops (uw_metrics w) + 1
           else m_udpDownlinkDrops (uw_metrics w') = m_udpDownlinkDrops (uw_metrics w)
             \<and> ses_downlinkDrops (session_at w' s) = ses_downlinkDrops (session_at w s)
             \<and> (\<exists>l < length (uw_lanes w). uw_log w' = uw_log w @ [Queued l (take 2048 p)]
                  \<and> lo_session (uw_lanes w ! l) = s \<and> \<not> lane_closed (lane_at w l)))"
proof -
  let ?w = "w\<lparr>uw_metrics := (uw_metrics w)\<lparr>m_packetsFromBackend := m_packetsFromBackend (uw_metrics w) + 1\<rparr>\<rparr>"
  let ?q = "take udpSessionPacketSize p"
  have inv: "world_inv ?w"
    using reachable_world [OF assms(1)] by (rule inert_world_inv [rotated]) simp
  have s: "s < length (uw_sessions ?w)" using assms(2) by simp
  obtain w1 ok where e: "enqueueDownlink s ?q now i ?w = Some (w1, ok)"
    using enqueue_total [OF inv s, of ?q now i] by auto
  from e inv s show ?thesis
  proof (cases rule: enqueue_cases)
    case (queued w2 l packet)
    then have "readBackend_turn s (ReadPacket p) now i w = Some w1"
      using e by (simp add: readBackend_turn_def Let_def)
    moreover have "Queued l ?q \<noteq> Dropped s ?q" by simp
    ultimately show ?thesis using queued assms(2) by (auto simp: udpSessionPacketSize_def)
  next
    case (dropped sel)
    then have "readBackend_turn s (ReadPacket p) now i w
        = Some (w1\<lparr>uw_metrics := (uw_metrics w1)\<lparr>m_udpDownlinkDrops := m_udpDownlinkDrops (uw_metrics w1) + 1\<rparr>\<rparr>)"
      using e by (simp add: readBackend_turn_def Let_def)
    then show ?thesis using dropped assms(2) by (simp add: count_drop_def udpSessionPacketSize_def)
  qed
qed

theorem downlink_accounted_witness: "readBackend_turn 0 (ReadPacket [1, 2, 3]) 5 0 sample_world \<noteq> None"
  using downlink_accounted [OF sample_world_reachable, of 0 "[1, 2, 3]" 5 0] sample_world_run
  by (auto split: option.splits)

text \<open>A packet from a client reaches the backend unchanged and is counted, unless it is a probe;
  a probe is echoed on the connection it came from and nothing of it reaches the backend; and when
  either write fails the connection leaves its loop.\<close>

theorem uplink_routing:
  assumes "l < length (uw_lanes w)" and "lo_session (uw_lanes w ! l) < length (uw_sessions w)"
    and "length p \<le> 2048"
  shows "let s = lo_session (uw_lanes w ! l); w' = uplink_read l (ReadPacket p) w;
             backend = ses_backend (session_at w s) in
    if parseProbePacket p \<noteq> None
    then ses_backend (session_at w' s) = backend
      \<and> (if lo_pc (uw_lanes w' ! l) = LaneLeaving then uw_log w' = uw_log w
         else uw_log w' = uw_log w @ [Echoed l p] \<and> lo_pc (uw_lanes w' ! l) = LaneLoop
           \<and> pc_sent (lane_conn (lane_at w' l)) = pc_sent (lane_conn (lane_at w l)) @ [p])
    else lane_at w' l = lane_at w l
      \<and> (if lo_pc (uw_lanes w' ! l) = LaneLeaving then uw_log w' = uw_log w
         else uw_log w' = uw_log w @ [SentUp s p] \<and> lo_pc (uw_lanes w' ! l) = LaneLoop
           \<and> pc_sent (ses_backend (session_at w' s)) = pc_sent backend @ [p]
           \<and> m_packetsToBackend (uw_metrics w') = m_packetsToBackend (uw_metrics w) + 1)"
proof -
  have p: "take udpSessionPacketSize p = p" using assms(3) by (simp add: udpSessionPacketSize_def)
  obtain c e where c: "pconn_Write (lane_conn (lane_at w l)) p = (c, e)" by fastforce
  obtain b f where b: "pconn_Write (ses_backend (session_at w (lo_session (uw_lanes w ! l)))) p = (b, f)"
    by fastforce
  show ?thesis
    using assms(1,2) c b pconn_Write_sent [OF c] pconn_Write_sent [OF b]
    by (auto simp: uplink_read_def p lane_write_def writeBackend_def set_pc_def Let_def
        split: option.splits)
qed

theorem uplink_routing_witness:
  "uw_log (uplink_read 0 (ReadPacket [1, 0, 0, 0]) sample_world) = uw_log sample_world @ [SentUp 0 [1, 0, 0, 0]]"
proof -
  have "parseProbePacket [1, 0, 0, 0] = None" by code_simp
  moreover have "lo_pc (uw_lanes (uplink_read 0 (ReadPacket [1, 0, 0, 0]) sample_world) ! 0) = LaneLoop" by code_simp
  ultimately show ?thesis
    using uplink_routing [of 0 sample_world "[1, 0, 0, 0]"] sample_world_run by (simp add: Let_def)
qed

text \<open>When the last lane of a session is removed, the session is shut down completely: its context
  is cancelled, its backend socket closed, its lane stopped and its registry entry gone; while
  other lanes remain, the session lives on.\<close>

theorem removeLane_closes_last:
  assumes "udp_steps udp_start w" and "l < length (uw_lanes w)"
    and "map_of (ses_lanes (session_at w (lo_session (uw_lanes w ! l)))) (lane_streamID (lane_at w l)) = Some l"
    and "\<not> session_ctx_err w (lo_session (uw_lanes w ! l))"
  shows "let s = lo_session (uw_lanes w ! l); w' = removeLane l w in
    lane_closed (lane_at w' l)
    \<and> (if length (ses_lanes (session_at w s)) = 1
       then ses_closing (session_at w' s) = CloseDone \<and> ses_cancelled (session_at w' s)
         \<and> ses_backend_closed (session_at w' s) \<and> uw_registry w' (ses_key (session_at w s)) = None
       else \<not> session_ctx_err w' s \<and> uw_registry w' = uw_registry w)"
proof -
  let ?s = "lo_session (uw_lanes w ! l)" and ?sid = "lane_streamID (lane_at w l)"
  let ?L = "ses_lanes (session_at w ?s)"
  have inv: "world_inv w" using reachable_world [OF assms(1)] .
  have s: "?s < length (uw_sessions w)" using world_invD(1) [OF inv assms(2)] by (simp add: lane_ok_def)
  have S: "session_ok w ?s" using world_invD(2) [OF inv s] .
  have live: "ses_closing (session_at w ?s) = NotClosed" "\<not> uw_ctx_done w" "\<not> ses_cancelled (session_at w ?s)"
    using S assms(4) by (auto simp: session_ok_def session_ctx_err_def Let_def)
  have reg: "uw_registry w (ses_key (session_at w ?s)) = Some ?s"
    using world_invD(3) [OF inv] s assms(4) unfolding registry_ok_def by simp
  have d: "distinct (map fst ?L)" using S by (simp add: session_ok_def Let_def)
  have len: "length (AList.delete ?sid ?L) = length ?L - 1" using length_AList_delete [OF d assms(3)] .
  define w1 where "w1 = upd_session ?s (\<lambda>S. S\<lparr>ses_lanes := AList.delete ?sid (ses_lanes S)\<rparr>) (lane_stop l w)"
  have det: "detach_lane l (lane_stop l w) = (w1, length (AList.delete ?sid ?L))"
    using assms(2,3) s by (simp add: detach_lane_def lane_stop_eq w1_def Let_def)
  have "?L \<noteq> []" using assms(3) by auto
  show ?thesis
  proof (cases "length ?L = 1")
    case True
    then have "AList.delete ?sid ?L = []" using len by simp
    then show ?thesis
      using True det assms(2) s live reg
      by (simp add: removeLane_def Let_def w1_def session_close_def close_cancel_def close_stop_lanes_def
          close_unregister_def lane_stop_eq stop_lanes_def registry_remove_def)
  next
    case False
    then have "length (AList.delete ?sid ?L) \<noteq> 0" using len \<open>?L \<noteq> []\<close> by (cases ?L) auto
    then show ?thesis
      using False det assms(2) s live
      by (simp add: removeLane_def Let_def w1_def lane_stop_eq session_ctx_err_def)
  qed
qed

theorem removeLane_closes_last_witness:
  "uw_registry (removeLane 0 sample_world) (ses_key (session_at sample_world 0)) = None"
proof -
  have "lane_streamID (lane_at sample_world 0) = 0" by code_simp
  then show ?thesis
    using removeLane_closes_last [OF sample_world_reachable, of 0] sample_world_run by (simp add: Let_def)
qed

lemma close_run:
  assumes "world_inv w" and "s < length (uw_sessions w)" and "ses_wants_close (session_at w s)"
  shows "\<exists>w' n. udp_run (replicate n (L_close s)) w = Some w' \<and> ses_closing (session_at w' s) = CloseDone
    \<and> world_inv w' \<and> length (uw_sessions w') = length (uw_sessions w) \<and> n \<le> 3"
proof -
  have fin: "\<exists>w' n. udp_run (replicate n (L_close s)) v = Some w' \<and> ses_closing (session_at w' s) = CloseDone
      \<and> world_inv w' \<and> length (uw_sessions w') = length (uw_sessions v) \<and> n \<le> 0"
    if "world_inv v" "ses_closing (session_at v s) = CloseDone" for v
    using that by (intro exI [of _ v] exI [of _ 0]) simp
  have step: "\<exists>w' n. udp_run (replicate n (L_close s)) v = Some w' \<and> ses_closing (session_at w' s) = CloseDone
      \<and> world_inv w' \<and> length (uw_sessions w') = length (uw_sessions v) \<and> n \<le> Suc m"
    if "udp_step (L_close s) v = Some u" "length (uw_sessions u) = length (uw_sessions v)"
      "\<exists>w' n. udp_run (replicate n (L_close s)) u = Some w' \<and> ses_closing (session_at w' s) = CloseDone
      \<and> world_inv w' \<and> length (uw_sessions w') = length (uw_sessions u) \<and> n \<le> m" for u v m
    using that by (metis Suc_le_mono option.simps(5) replicate_Suc udp_run.simps(2))
  have stopped: "\<exists>w' n. udp_run (replicate n (L_close s)) v = Some w' \<and> ses_closing (session_at w' s) = CloseDone
      \<and> world_inv w' \<and> length (uw_sessions w') = length (uw_sessions v) \<and> n \<le> Suc 0"
    if "world_inv v" "ses_closing (session_at v s) = CloseStopped" "s < length (uw_sessions v)" for v
  proof -
    have u: "udp_step (L_close s) v = Some (close_unregister s v)"
      using that by (simp add: udp_step_def step_close_def)
    show ?thesis
      using that by (intro step [OF u] fin inv_udp_step [OF u]) (simp_all add: close_unregister_def)
  qed
  have cancelled: "\<exists>w' n. udp_run (replicate n (L_close s)) v = Some w' \<and> ses_closing (session_at w' s) = CloseDone
      \<and> world_inv w' \<and> length (uw_sessions w') = length (uw_sessions v) \<and> n \<le> Suc (Suc 0)"
    if "world_inv v" "ses_closing (session_at v s) = CloseCancelled" "s < length (uw_sessions v)" for v
  proof -
    have u: "udp_step (L_close s) v = Some (close_stop_lanes s v)"
      using that by (simp add: udp_step_def step_close_def)
    show ?thesis
      using that by (intro step [OF u] stopped inv_udp_step [OF u]) (simp_all add: close_stop_lanes_def)
  qed
  show ?thesis
  proof (cases "ses_closing (session_at w s)")
    case NotClosed
    then have u: "udp_step (L_close s) w = Some (close_cancel s w)"
      using assms by (simp add: udp_step_def step_close_def)
    have "\<exists>w' n. udp_run (replicate n (L_close s)) w = Some w' \<and> ses_closing (session_at w' s) = CloseDone
      \<and> world_inv w' \<and> length (uw_sessions w') = length (uw_sessions w) \<and> n \<le> Suc (Suc (Suc 0))"
      using assms NotClosed by (intro step [OF u] cancelled inv_udp_step [OF u]) (simp_all add: close_cancel_def)
    then show ?thesis by (simp add: numeral_3_eq_3)
  next
    case CloseCancelled
    then show ?thesis using cancelled [OF assms(1) _ assms(2)] by fastforce
  next
    case CloseStopped
    then show ?thesis using stopped [OF assms(1) _ assms(2)] by fastforce
  next
    case CloseDone
    then show ?thesis using fin [OF assms(1)] by fastforce
  qed
qed

text \<open>An abandoned session goes away: once every connection that belonged to a session has left,
  the close of the session has been requested, and its remaining actions run to the end, after
  which the registry no longer holds it.\<close>

theorem abandoned_session_closes:
  assumes "udp_steps udp_start w" and "k < length (uw_lanes w)" and "lo_session (uw_lanes w ! k) = s"
    and "\<And>l. l < length (uw_lanes w) \<Longrightarrow> lo_session (uw_lanes w ! l) = s \<Longrightarrow> lo_pc (uw_lanes w ! l) = LaneLeft"
  shows "\<exists>w' n. udp_run (replicate n (L_close s)) w = Some w' \<and> n \<le> 3
    \<and> ses_closing (session_at w' s) = CloseDone \<and> (\<forall>key. uw_registry w' key \<noteq> Some s)"
proof -
  have inv: "world_inv w" using reachable_world [OF assms(1)] .
  have s: "s < length (uw_sessions w)" using world_invD(1) [OF inv assms(2)] assms(3) by (simp add: lane_ok_def)
  have S: "session_ok w s" using world_invD(2) [OF inv s] .
  have "(sid, l) \<notin> set (ses_lanes (session_at w s))" for sid l
    using session_lane [OF S, of sid l] assms(4) [of l] by blast
  then have "ses_lanes (session_at w s) = []" by (cases "ses_lanes (session_at w s)") auto
  then have "ses_wants_close (session_at w s)"
    using S assms(2,3) by (auto simp: session_ok_def Let_def)
  then obtain w' n where "udp_run (replicate n (L_close s)) w = Some w'" "n \<le> 3"
    "ses_closing (session_at w' s) = CloseDone" "world_inv w'"
    using close_run [OF inv s] by blast
  moreover from this have "\<forall>key. uw_registry w' key \<noteq> Some s"
    using world_invD(3) [of w'] unfolding registry_ok_def by blast
  ultimately show ?thesis by blast
qed

definition abandoned_run :: "udp_label list" where
  "abandoned_run = sample_session_run
     @ [L_check 0, L_uplink 0 ReadFailed, L_stop 0, L_detach 0]"

theorem abandoned_session_closes_witness:
  "\<exists>w w' n. udp_run abandoned_run udp_start = Some w \<and> udp_run (replicate n (L_close 0)) w = Some w'
     \<and> ses_closing (session_at w' 0) = CloseDone"
proof -
  have r: "\<exists>w. udp_run abandoned_run udp_start = Some w \<and> length (uw_lanes w) = 1
      \<and> lo_session (uw_lanes w ! 0) = 0 \<and> lo_pc (uw_lanes w ! 0) = LaneLeft"
  proof -
    have "case udp_run abandoned_run udp_start of None \<Rightarrow> False | Some w \<Rightarrow> length (uw_lanes w) = 1
      \<and> lo_session (uw_lanes w ! 0) = 0 \<and> lo_pc (uw_lanes w ! 0) = LaneLeft" by code_simp
    then show ?thesis by (auto split: option.splits)
  qed
  then obtain w where w: "udp_run abandoned_run udp_start = Some w" "length (uw_lanes w) = 1"
    "lo_session (uw_lanes w ! 0) = 0" "lo_pc (uw_lanes w ! 0) = LaneLeft" by blast
  then show ?thesis
    using abandoned_session_closes [OF udp_run_steps [OF w(1)], of 0 0] by auto
qed

end
