(* ===== verification/Wrap_Framing.thy ===== *)
theory Wrap_Framing
  imports Go_Text
begin

text \<open>
  WRAP mode: DTLS packets dressed as SRTP and encrypted, client side (\<open>pkg/clientcore/wrap.go\<close>,
  \<open>relayPacketConn\<close> and the relay loops of \<open>oneTurnConnection\<close> in \<open>pkg/clientcore/main.go\<close>) and
  server side (\<open>server/wrap.go\<close>). The AEAD of \<open>golang.org/x/crypto/chacha20poly1305\<close> is a
  parameter: \<open>seal key nonce plaintext aad\<close> and \<open>opn key nonce ciphertext aad\<close>; random bytes
  are arguments, \<open>None\<close> when the source of randomness fails.
\<close>

type_synonym seal_fun = "bytes \<Rightarrow> bytes \<Rightarrow> bytes \<Rightarrow> bytes \<Rightarrow> bytes"
type_synonym open_fun = "bytes \<Rightarrow> bytes \<Rightarrow> bytes \<Rightarrow> bytes \<Rightarrow> bytes option"

text \<open>What the code relies on in \<open>cipher.AEAD\<close>: opening a sealed text with the same key, nonce and
  additional data gives the plain text, and the overhead is the tag.\<close>

definition wrapKeyLen :: nat where "wrapKeyLen = 32"
definition wrapRTPHdrLen :: nat where "wrapRTPHdrLen = 12"
definition wrapNonceLen :: nat where "wrapNonceLen = 12"
definition wrapTagLen :: nat where "wrapTagLen = 16"
definition wrapHeaderLen :: nat where "wrapHeaderLen = wrapRTPHdrLen + wrapNonceLen"
definition wrapOverhead :: nat where "wrapOverhead = wrapHeaderLen + wrapTagLen"
definition wrapRTPVersion :: byte where "wrapRTPVersion = 0x80"
definition wrapRTPPT :: byte where "wrapRTPPT = 0x6F"
definition wrapTSStep :: u32 where "wrapTSStep = 960"

lemmas wrap_lens = wrapKeyLen_def wrapRTPHdrLen_def wrapNonceLen_def wrapTagLen_def wrapHeaderLen_def
  wrapOverhead_def

definition aead_laws :: "seal_fun \<Rightarrow> open_fun \<Rightarrow> bool" where
  "aead_laws seal opn \<longleftrightarrow>
     (\<forall>key nonce p aad. opn key nonce (seal key nonce p aad) aad = Some p)
     \<and> (\<forall>key nonce p aad. length (seal key nonce p aad) = length p + wrapTagLen)"

section \<open>State\<close>

record wrapConn =
  w_key :: bytes
  w_sessionID :: bytes
  w_ssrc :: bytes
  w_counter :: u64
  w_seq :: u32
  w_timestamp :: u32

definition set_direction :: "bool \<Rightarrow> bytes \<Rightarrow> bytes" where
  "set_direction isServer b4 =
     (case b4 of
        [] \<Rightarrow> []
      | b # bs \<Rightarrow> (if isServer then b OR 0x80 else b AND NOT 0x80) # bs)"

text \<open>\<open>newWrapConn\<close>; \<open>rnd\<close> and \<open>cb\<close> are the results of the two calls of \<open>rand.Read\<close>.\<close>

definition newWrapConn :: "bytes \<Rightarrow> bool \<Rightarrow> bytes option \<Rightarrow> bytes option \<Rightarrow> string + wrapConn" where
  "newWrapConn key isServer rnd cb =
     (if length key \<noteq> wrapKeyLen then Inl ''wrap: key must be 32 bytes''
      else case rnd of
        None \<Rightarrow> Inl ''wrap: rand init''
      | Some r \<Rightarrow>
          (case cb of
             None \<Rightarrow> Inl ''wrap: counter rand''
           | Some c \<Rightarrow>
               Inr \<lparr>w_key = key,
                    w_sessionID = set_direction isServer (take 4 r),
                    w_ssrc = set_direction isServer (take 4 (drop 4 r)),
                    w_counter = be_word c,
                    w_seq = ucast (be_word (take 2 (drop 8 r)) :: u16),
                    w_timestamp = be_word (take 4 (drop 10 r))\<rparr>))"

section \<open>Sending\<close>

text \<open>The 24 bytes before the cipher text, and the counters after one packet.\<close>

definition wrap_nonce :: "wrapConn \<Rightarrow> bytes" where
  "wrap_nonce w = w_sessionID w @ be_bytes 8 (w_counter w)"

definition wrap_header :: "wrapConn \<Rightarrow> bytes" where
  "wrap_header w =
     [wrapRTPVersion, wrapRTPPT] @ be_bytes 2 (ucast (w_seq w) :: u16) @ be_bytes 4 (w_timestamp w)
     @ w_ssrc w @ wrap_nonce w"

definition wrap_advance :: "wrapConn \<Rightarrow> wrapConn" where
  "wrap_advance w = w\<lparr>w_seq := w_seq w + 1, w_timestamp := w_timestamp w + wrapTSStep,
                      w_counter := w_counter w + 1\<rparr>"

definition wrapInto :: "seal_fun \<Rightarrow> wrapConn \<Rightarrow> nat \<Rightarrow> bytes \<Rightarrow> wrapConn \<times> (string + bytes)" where
  "wrapInto seal w dstLen payload =
     (if dstLen < wrapOverhead + length payload then (w, Inl ''wrap: dst buffer too small'')
      else (wrap_advance w,
            Inr (wrap_header w @ seal (w_key w) (wrap_nonce w) payload (wrap_header w))))"

section \<open>Receiving\<close>

definition unwrapPacket :: "open_fun \<Rightarrow> wrapConn \<Rightarrow> bytes \<Rightarrow> nat \<Rightarrow> string + bytes" where
  "unwrapPacket opn w wire dstLen =
     (if length wire < wrapOverhead then Inl ''wrap: packet too short''
      else case opn (w_key w) (take wrapNonceLen (drop wrapRTPHdrLen wire)) (drop wrapHeaderLen wire)
                  (take wrapHeaderLen wire) of
             None \<Rightarrow> Inl ''wrap: AEAD open''
           | Some plain \<Rightarrow>
               if dstLen < length plain then Inl ''wrap: dst buffer too small'' else Inr plain)"

section \<open>The server's connection\<close>

text \<open>\<open>wrapPacketListener.Accept\<close> after the inner accept.\<close>

definition server_wrapAccept :: "bytes \<Rightarrow> bytes option \<Rightarrow> bytes option \<Rightarrow> string + wrapConn" where
  "server_wrapAccept key rnd cb =
     (case rnd of
        None \<Rightarrow> Inl ''wrap: rand init''
      | Some r \<Rightarrow>
          (case cb of
             None \<Rightarrow> Inl ''wrap: counter rand''
           | Some c \<Rightarrow>
               Inr \<lparr>w_key = key,
                    w_sessionID = set_direction True (take 4 r),
                    w_ssrc = set_direction True (take 4 (drop 4 r)),
                    w_counter = be_word c,
                    w_seq = ucast (be_word (take 2 (drop 8 r)) :: u16),
                    w_timestamp = be_word (take 4 (drop 10 r))\<rparr>))"

text \<open>\<open>newWrapState\<close> with the length of the key as the only way to fail.\<close>

definition newWrapState :: "bytes \<Rightarrow> string + bytes" where
  "newWrapState key = (if length key \<noteq> wrapKeyLen then Inl ''wrap: key must be 32 bytes'' else Inr key)"

text \<open>\<open>ReadFrom\<close>: a datagram is cut to the pooled buffer, whose capacity is \<open>cap\<close> or, if that is too
  small, what is needed. \<open>WriteTo\<close>: the counters move even when the inner write fails.\<close>

definition server_wrapReadFrom ::
  "open_fun \<Rightarrow> wrapConn \<Rightarrow> nat \<Rightarrow> nat \<Rightarrow> io_error + bytes \<Rightarrow> (io_error + string) + bytes" where
  "server_wrapReadFrom opn w cap dstLen inner =
     (let size = (if cap < dstLen + wrapOverhead then dstLen + wrapOverhead else cap) in
      case inner of
        Inl e \<Rightarrow> Inl (Inl e)
      | Inr datagram \<Rightarrow>
          let wire = take size datagram in
          if length wire < wrapOverhead then Inl (Inr ''wrap: packet too short'')
          else (case opn (w_key w) (take wrapNonceLen (drop wrapRTPHdrLen wire))
                       (drop wrapHeaderLen wire) (take wrapHeaderLen wire) of
                  None \<Rightarrow> Inl (Inr ''wrap: AEAD open'')
                | Some plain \<Rightarrow>
                    if dstLen < length plain then Inl (Inr ''wrap: dst buffer too small'') else Inr plain))"

definition server_wrapWriteTo ::
  "seal_fun \<Rightarrow> wrapConn \<Rightarrow> bytes \<Rightarrow> pconn \<Rightarrow> wrapConn \<times> pconn \<times> (io_error + nat)" where
  "server_wrapWriteTo seal w p inner =
     (let out = wrap_header w @ seal (w_key w) (wrap_nonce w) p (wrap_header w);
          (inner', err) = pconn_Write inner out
      in (wrap_advance w, inner', case err of Some e \<Rightarrow> Inl e | None \<Rightarrow> Inr (length p)))"

section \<open>The client's relay connection\<close>

record relayPacketConn =
  rp_relay :: pconn
  rp_wrapTX :: "wrapConn option"
  rp_wrapRX :: "wrapConn option"

text \<open>\<open>newRelayPacketConn\<close>: wrapping is on exactly when the key has 32 bytes.\<close>

definition newRelayPacketConn ::
  "pconn \<Rightarrow> bytes \<Rightarrow> bytes option \<times> bytes option \<Rightarrow> bytes option \<times> bytes option \<Rightarrow> string + relayPacketConn" where
  "newRelayPacketConn relay wrapKey rnd1 rnd2 =
     (if length wrapKey \<noteq> wrapKeyLen then Inr \<lparr>rp_relay = relay, rp_wrapTX = None, rp_wrapRX = None\<rparr>
      else case newWrapConn wrapKey False (fst rnd1) (snd rnd1) of
        Inl e \<Rightarrow> Inl (''wrap tx init: '' @ e)
      | Inr tx \<Rightarrow>
          (case newWrapConn wrapKey False (fst rnd2) (snd rnd2) of
             Inl e \<Rightarrow> Inl (''wrap rx init: '' @ e)
           | Inr rx \<Rightarrow> Inr \<lparr>rp_relay = relay, rp_wrapTX = Some tx, rp_wrapRX = Some rx\<rparr>))"

definition relay_WriteTo ::
  "seal_fun \<Rightarrow> relayPacketConn \<Rightarrow> bytes \<Rightarrow> relayPacketConn \<times> ((io_error + string) + nat)" where
  "relay_WriteTo seal r b =
     (case rp_wrapTX r of
        None \<Rightarrow>
          (let (relay, err) = pconn_Write (rp_relay r) b
           in (r\<lparr>rp_relay := relay\<rparr>, case err of Some e \<Rightarrow> Inl (Inl e) | None \<Rightarrow> Inr (length b)))
      | Some tx \<Rightarrow>
          (case wrapInto seal tx (wrapOverhead + length b) b of
             (tx', Inl e) \<Rightarrow> (r\<lparr>rp_wrapTX := Some tx'\<rparr>, Inl (Inr e))
           | (tx', Inr out) \<Rightarrow>
               let (relay, err) = pconn_Write (rp_relay r) out
               in (r\<lparr>rp_relay := relay, rp_wrapTX := Some tx'\<rparr>,
                   case err of Some e \<Rightarrow> Inl (Inl e) | None \<Rightarrow> Inr (length b))))"

definition relay_ReadFrom ::
  "open_fun \<Rightarrow> relayPacketConn \<Rightarrow> nat \<Rightarrow> io_error + bytes \<Rightarrow> (io_error + string) + bytes" where
  "relay_ReadFrom opn r dstLen inner =
     (case rp_wrapRX r of
        None \<Rightarrow> (case inner of Inl e \<Rightarrow> Inl (Inl e) | Inr d \<Rightarrow> Inr (take dstLen d))
      | Some rx \<Rightarrow>
          (case inner of
             Inl e \<Rightarrow> Inl (Inl e)
           | Inr d \<Rightarrow>
               (case unwrapPacket opn rx (take (wrapOverhead + dstLen) d) dstLen of
                  Inl e \<Rightarrow> Inl (Inr e)
                | Inr plain \<Rightarrow> Inr plain)))"

section \<open>The relay loops of a TURN stream\<close>

text \<open>The two goroutines of \<open>oneTurnConnection\<close> share the address of the last local sender. A turn
  returns \<open>None\<close> when its loop ends and cancels the stream.\<close>

record turn_relay =
  tr_relay :: pconn
  tr_local :: "(bytes \<times> string) list"
  tr_local_script :: "bool list"
  tr_pipeAddr :: "string option"
  tr_tx :: "wrapConn option"
  tr_rx :: "wrapConn option"
  tr_cancelled :: bool

definition turn_buffer :: nat where "turn_buffer = 1600"

definition turn_uplink_turn ::
  "seal_fun \<Rightarrow> io_error + (bytes \<times> string) \<Rightarrow> turn_relay \<Rightarrow> turn_relay \<times> bool" where
  "turn_uplink_turn seal inp r =
     (if tr_cancelled r then (r, False)
      else case inp of
        Inl _ \<Rightarrow> (r\<lparr>tr_cancelled := True\<rparr>, False)
      | Inr (p, addr) \<Rightarrow>
          let r1 = r\<lparr>tr_pipeAddr := Some addr\<rparr>; out = take turn_buffer p in
          (case tr_tx r1 of
             None \<Rightarrow>
               (let (relay, err) = pconn_Write (tr_relay r1) out
                in (r1\<lparr>tr_relay := relay, tr_cancelled := (err \<noteq> None)\<rparr>, err = None))
           | Some tx \<Rightarrow>
               (case wrapInto seal tx (wrapOverhead + turn_buffer) out of
                  (tx', Inl _) \<Rightarrow> (r1\<lparr>tr_tx := Some tx', tr_cancelled := True\<rparr>, False)
                | (tx', Inr wire) \<Rightarrow>
                    let (relay, err) = pconn_Write (tr_relay r1) wire
                    in (r1\<lparr>tr_tx := Some tx', tr_relay := relay, tr_cancelled := (err \<noteq> None)\<rparr>, err = None))))"

definition local_WriteTo :: "turn_relay \<Rightarrow> bytes \<Rightarrow> string \<Rightarrow> turn_relay \<times> bool" where
  "local_WriteTo r p addr =
     (case tr_local_script r of
        True # s \<Rightarrow> (r\<lparr>tr_local_script := s, tr_cancelled := True\<rparr>, False)
      | s \<Rightarrow> (r\<lparr>tr_local := tr_local r @ [(p, addr)], tr_local_script := tl s\<rparr>, True))"

definition turn_downlink_turn :: "open_fun \<Rightarrow> io_error + bytes \<Rightarrow> turn_relay \<Rightarrow> turn_relay \<times> bool" where
  "turn_downlink_turn opn inp r =
     (case inp of
        Inl _ \<Rightarrow> (r\<lparr>tr_cancelled := True\<rparr>, False)
      | Inr d \<Rightarrow>
          (case tr_pipeAddr r of
             None \<Rightarrow> (r, True)
           | Some addr \<Rightarrow>
               (case tr_rx r of
                  None \<Rightarrow> local_WriteTo r (take turn_buffer d) addr
                | Some rx \<Rightarrow>
                    (case unwrapPacket opn rx (take (wrapOverhead + turn_buffer) d) turn_buffer of
                       Inl _ \<Rightarrow> (r, True)
                     | Inr plain \<Rightarrow> local_WriteTo r plain addr))))"

section \<open>Keys on the command line\<close>

definition genWrapKeyHex :: "bytes option \<Rightarrow> string + string" where
  "genWrapKeyHex rnd =
     (case rnd of None \<Rightarrow> Inl ''wrap: key gen'' | Some key \<Rightarrow> Inr (hex_EncodeToString key))"

definition decodeWrapKey :: "bool \<Rightarrow> string \<Rightarrow> string + bytes option" where
  "decodeWrapKey enabled raw =
     (if \<not> enabled then Inr None
      else if raw = [] then Inl ''-wrap requires -wrap-key''
      else case hex_DecodeString raw of
        None \<Rightarrow> Inl ''-wrap-key invalid hex''
      | Some key \<Rightarrow> if length key \<noteq> wrapKeyLen then Inl ''-wrap-key must decode to 32 bytes'' else Inr (Some key))"

section \<open>Lemmas\<close>

definition wrap_wf :: "bool \<Rightarrow> wrapConn \<Rightarrow> bool" where
  "wrap_wf isServer w \<longleftrightarrow>
     length (w_key w) = wrapKeyLen \<and> length (w_sessionID w) = 4 \<and> length (w_ssrc w) = 4
     \<and> (bit (hd (w_sessionID w)) 7 \<longleftrightarrow> isServer) \<and> (bit (hd (w_ssrc w)) 7 \<longleftrightarrow> isServer)"

lemma set_direction_spec:
  "length (set_direction isServer b4) = length b4"
  "b4 \<noteq> [] \<Longrightarrow> bit (hd (set_direction isServer b4)) 7 \<longleftrightarrow> isServer"
proof -
  show "length (set_direction isServer b4) = length b4" by (simp add: set_direction_def split: list.splits)
  have "bit ((b :: byte) OR 0x80) 7" "\<not> bit ((b :: byte) AND NOT 0x80) 7" for b
    by (simp_all only: bit_or_iff bit_and_iff bit_not_iff bit_0x80) simp_all
  then show "b4 \<noteq> [] \<Longrightarrow> bit (hd (set_direction isServer b4)) 7 \<longleftrightarrow> isServer"
    by (auto simp: set_direction_def split: list.splits)
qed

lemma wrap_wf_new:
  assumes "newWrapConn key isServer (Some r) cb = Inr w" and "length r = 16"
  shows "wrap_wf isServer w"
proof -
  have "take 4 r \<noteq> []" "take 4 (drop 4 r) \<noteq> []" using assms(2) by auto
  then show ?thesis
    using assms set_direction_spec
    by (auto simp: newWrapConn_def wrap_wf_def split: if_splits option.splits)
qed

lemma wrap_wf_accept:
  assumes "server_wrapAccept key (Some r) cb = Inr w" and "length r = 16" and "length key = wrapKeyLen"
  shows "wrap_wf True w"
proof -
  have "take 4 r \<noteq> []" "take 4 (drop 4 r) \<noteq> []" using assms(2) by auto
  then show ?thesis
    using assms set_direction_spec by (auto simp: server_wrapAccept_def wrap_wf_def split: option.splits)
qed

lemma wrap_advance_simps [simp]:
  "w_key (wrap_advance w) = w_key w" "w_sessionID (wrap_advance w) = w_sessionID w"
  "w_ssrc (wrap_advance w) = w_ssrc w" "w_counter (wrap_advance w) = w_counter w + 1"
  "w_seq (wrap_advance w) = w_seq w + 1" "w_timestamp (wrap_advance w) = w_timestamp w + wrapTSStep"
  by (simp_all add: wrap_advance_def)

lemma wrap_wf_advance: "wrap_wf isServer w \<Longrightarrow> wrap_wf isServer (wrap_advance w)"
  by (simp add: wrap_wf_def)

lemma length_wrap_header [simp]: "wrap_wf isServer w \<Longrightarrow> length (wrap_header w) = wrapHeaderLen"
  by (simp add: wrap_wf_def wrap_header_def wrap_nonce_def wrap_lens)

lemma wrap_header_nonce:
  "wrap_wf isServer w \<Longrightarrow> take wrapNonceLen (drop wrapRTPHdrLen (wrap_header w @ ct)) = wrap_nonce w"
  by (simp add: wrap_wf_def wrap_header_def wrap_nonce_def wrap_lens)

lemma unwrap_wire:
  assumes laws: "aead_laws seal opn" and w: "wrap_wf d w" and key: "w_key r = w_key w"
    and dst: "length p \<le> dstLen"
  shows "unwrapPacket opn r (wrap_header w @ seal (w_key w) (wrap_nonce w) p (wrap_header w)) dstLen = Inr p"
proof -
  have "length (wrap_header w) = wrapHeaderLen" using w by simp
  moreover have "length (seal (w_key w) (wrap_nonce w) p (wrap_header w)) = length p + wrapTagLen"
    using laws by (simp add: aead_laws_def)
  ultimately show ?thesis
    using laws key dst wrap_header_nonce [OF w]
    by (simp add: unwrapPacket_def aead_laws_def wrapOverhead_def)
qed

fun wrap_iter :: "nat \<Rightarrow> wrapConn \<Rightarrow> wrapConn" where
  "wrap_iter 0 w = w"
| "wrap_iter (Suc n) w = wrap_iter n (wrap_advance w)"

lemma wrap_iter_fields:
  "w_sessionID (wrap_iter n w) = w_sessionID w \<and> w_key (wrap_iter n w) = w_key w
   \<and> w_counter (wrap_iter n w) = w_counter w + of_nat n
   \<and> w_timestamp (wrap_iter n w) = w_timestamp w + of_nat n * wrapTSStep
   \<and> w_seq (wrap_iter n w) = w_seq w + of_nat n"
  by (induction n arbitrary: w) (auto simp: algebra_simps)

section \<open>Properties\<close>

definition sample_seal :: seal_fun where
  "sample_seal key nonce p aad = p @ replicate 16 0"

definition sample_open :: open_fun where
  "sample_open key nonce c aad = (if length c < 16 then None else Some (take (length c - 16) c))"

lemma sample_aead: "aead_laws sample_seal sample_open"
  by (simp add: aead_laws_def sample_seal_def sample_open_def wrap_lens)

definition sample_client :: wrapConn where
  "sample_client = \<lparr>w_key = replicate 32 7, w_sessionID = [1, 2, 3, 4], w_ssrc = [5, 6, 7, 8], w_counter = 9,
     w_seq = 65535, w_timestamp = 11\<rparr>"

definition sample_peer :: wrapConn where
  "sample_peer = \<lparr>w_key = replicate 32 7, w_sessionID = [0x81, 2, 3, 4], w_ssrc = [0x85, 6, 7, 8], w_counter = 9,
     w_seq = 0, w_timestamp = 0\<rparr>"

lemma sample_wrap_wf: "wrap_wf False sample_client" "wrap_wf True sample_peer"
proof -
  have "\<not> bit (1 :: byte) 7" "\<not> bit (5 :: byte) 7" "bit (0x81 :: byte) 7" "bit (0x85 :: byte) 7" by code_simp+
  then show "wrap_wf False sample_client" "wrap_wf True sample_peer"
    by (simp_all only: wrap_wf_def sample_client_def sample_peer_def wrapKeyLen_def wrapConn.simps
        length_replicate list.sel list.size) simp_all
qed

section \<open>The packets on the wire\<close>

text \<open>The datagrams of a list of writes: by a sender of either mode of the client, by the client's relay connection, and by
  the server's connection, where no write of the inner connection fails.\<close>

fun wrap_wires :: "seal_fun \<Rightarrow> wrapConn \<Rightarrow> bytes list \<Rightarrow> bytes list" where
  "wrap_wires seal w [] = []"
| "wrap_wires seal w (p # ps) =
     (case wrapInto seal w (wrapOverhead + length p) p of
        (w', Inr wire) \<Rightarrow> wire # wrap_wires seal w' ps
      | (w', Inl e) \<Rightarrow> wrap_wires seal w' ps)"

fun relay_wires :: "seal_fun \<Rightarrow> relayPacketConn \<Rightarrow> bytes list \<Rightarrow> bytes list" where
  "relay_wires seal r [] = pc_sent (rp_relay r)"
| "relay_wires seal r (p # ps) = relay_wires seal (fst (relay_WriteTo seal r p)) ps"

fun server_wires :: "seal_fun \<Rightarrow> wrapConn \<Rightarrow> pconn \<Rightarrow> bytes list \<Rightarrow> bytes list" where
  "server_wires seal w inner [] = pc_sent inner"
| "server_wires seal w inner (p # ps) =
     (case server_wrapWriteTo seal w p inner of (w', inner', _) \<Rightarrow> server_wires seal w' inner' ps)"

definition idle_conn :: pconn where "idle_conn = \<lparr>pc_sent = [], pc_script = []\<rparr>"

definition wire_nonce :: "bytes \<Rightarrow> bytes" where "wire_nonce wire = take 12 (drop 12 wire)"

definition wire_of :: "seal_fun \<Rightarrow> wrapConn \<Rightarrow> bytes \<Rightarrow> bytes" where
  "wire_of seal w p = wrap_header w @ seal (w_key w) (wrap_nonce w) p (wrap_header w)"

lemma wrap_wires_Cons: "wrap_wires seal w (p # ps) = wire_of seal w p # wrap_wires seal (wrap_advance w) ps"
  by (simp add: wrapInto_def wire_of_def)

lemmas wrap_wires_simps [simp] = wrap_wires.simps(1) wrap_wires_Cons

declare wrap_wires.simps(2) [simp del]

lemma length_wrap_wires [simp]: "length (wrap_wires seal w ps) = length ps"
  by (induction ps arbitrary: w) simp_all

lemma nth_wrap_wires: "i < length ps \<Longrightarrow> wrap_wires seal w ps ! i = wire_of seal (wrap_iter i w) (ps ! i)"
  by (induction ps arbitrary: w i) (auto simp: nth_Cons split: nat.split)

lemma server_wires_eq: "pc_script inner = [] \<Longrightarrow> server_wires seal w inner ps = pc_sent inner @ wrap_wires seal w ps"
  by (induction ps arbitrary: w inner) (simp_all add: server_wrapWriteTo_def pconn_Write_def wire_of_def Let_def)

lemma relay_wires_eq:
  "rp_wrapTX r = Some tx \<Longrightarrow> pc_script (rp_relay r) = [] \<Longrightarrow> relay_wires seal r ps = pc_sent (rp_relay r) @ wrap_wires seal tx ps"
  by (induction ps arbitrary: r tx) (simp_all add: relay_WriteTo_def wrapInto_def pconn_Write_def wire_of_def Let_def)

lemma wrap_wf_iter: "wrap_wf isServer w \<Longrightarrow> wrap_wf isServer (wrap_iter n w)"
  by (induction n arbitrary: w) (auto intro: wrap_wf_advance)

lemma length_wire_of: "aead_laws seal opn \<Longrightarrow> wrap_wf d w \<Longrightarrow> length (wire_of seal w p) = wrapOverhead + length p"
  by (simp add: wire_of_def aead_laws_def wrapOverhead_def)

lemma wire_nonce_of: "wrap_wf d w \<Longrightarrow> wire_nonce (wire_of seal w p) = wrap_nonce w"
  using wrap_header_nonce [of d w "seal (w_key w) (wrap_nonce w) p (wrap_header w)"]
  by (simp only: wire_nonce_def wire_of_def wrap_lens)

lemma server_reads_wires:
  assumes "aead_laws seal opn" and "wrap_wf d w" and "w_key r = w_key w" and "list_all (\<lambda>p. length p \<le> dstLen) ps"
  shows "map (\<lambda>wire. server_wrapReadFrom opn r cap dstLen (Inr wire)) (wrap_wires seal w ps) = map Inr ps"
  using assms(2-4)
proof (induction ps arbitrary: w)
  case (Cons p ps)
  have "take (if cap < dstLen + wrapOverhead then dstLen + wrapOverhead else cap) (wire_of seal w p) = wire_of seal w p"
    using length_wire_of [OF assms(1) Cons.prems(1)] Cons.prems(3) by (auto intro!: take_all)
  then have "server_wrapReadFrom opn r cap dstLen (Inr (wire_of seal w p)) = Inr p"
    using unwrap_wire [OF assms(1) Cons.prems(1,2), of p dstLen] Cons.prems(3)
    by (auto simp: server_wrapReadFrom_def unwrapPacket_def wire_of_def Let_def split: if_splits option.splits)
  then show ?case using Cons by (simp add: wrap_wf_advance)
qed simp

lemma relay_reads_wires:
  assumes "aead_laws seal opn" and "wrap_wf d w" and "w_key rx = w_key w" and "rp_wrapRX r = Some rx"
    and "list_all (\<lambda>p. length p \<le> dstLen) ps"
  shows "map (\<lambda>wire. relay_ReadFrom opn r dstLen (Inr wire)) (wrap_wires seal w ps) = map Inr ps"
  using assms(2,3,5)
proof (induction ps arbitrary: w)
  case (Cons p ps)
  have "take (wrapOverhead + dstLen) (wire_of seal w p) = wire_of seal w p"
    using length_wire_of [OF assms(1) Cons.prems(1)] Cons.prems(3) by (auto intro!: take_all)
  then have "relay_ReadFrom opn r dstLen (Inr (wire_of seal w p)) = Inr p"
    using unwrap_wire [OF assms(1) Cons.prems(1,2), of p dstLen] Cons.prems(3) assms(4) by (simp add: relay_ReadFrom_def wire_of_def)
  then show ?case using Cons by (simp add: wrap_wf_advance)
qed simp

text \<open>What the two constructors make of their random bytes.\<close>

lemma new_conn_fields:
  assumes "newWrapConn key isServer (Some r) (Some c) = Inr w" and "length r = 16"
  shows "wrap_wf isServer w" "w_key w = key" "w_sessionID w = set_direction isServer (take 4 r)" "w_counter w = be_word c"
  using assms wrap_wf_new [OF assms] by (auto simp: newWrapConn_def split: if_splits)

lemma accept_conn_fields:
  assumes "server_wrapAccept key (Some r) (Some c) = Inr w" and "length r = 16" and "length key = wrapKeyLen"
  shows "wrap_wf True w" "w_key w = key" "w_sessionID w = set_direction True (take 4 r)" "w_counter w = be_word c"
  using assms wrap_wf_accept [OF assms] by (auto simp: server_wrapAccept_def)

lemma new_relay_fields:
  assumes "newRelayPacketConn relay key (Some r1, Some c1) (Some r2, Some c2) = Inr r" and "length key = wrapKeyLen"
  obtains tx rx where "newWrapConn key False (Some r1) (Some c1) = Inr tx" "newWrapConn key False (Some r2) (Some c2) = Inr rx"
    "r = \<lparr>rp_relay = relay, rp_wrapTX = Some tx, rp_wrapRX = Some rx\<rparr>"
  using assms by (auto simp: newRelayPacketConn_def split: sum.splits)

text \<open>C8: end to end through both implementations as they are constructed, and both ways: whatever list of payloads the
  client's relay connection is asked to write, and the server's connection, each datagram that leaves is read by the other
  side as the payload that was written, byte for byte and in order, for all payloads that fit the buffer of the reader and
  whatever the random bytes of the constructors are.\<close>

theorem wrap_roundtrip:
  assumes "aead_laws seal opn" and "length key = wrapKeyLen" and "length r1 = 16" and "length r2 = 16" and "length r3 = 16"
    and cl: "newRelayPacketConn idle_conn key (Some r1, Some c1) (Some r2, Some c2) = Inr cl"
    and sv: "server_wrapAccept key (Some r3) (Some c3) = Inr sv"
    and "list_all (\<lambda>p. length p \<le> dstLen) (ps @ qs)"
  shows "map (\<lambda>wire. server_wrapReadFrom opn sv cap dstLen (Inr wire)) (relay_wires seal cl ps) = map Inr ps
    \<and> map (\<lambda>wire. relay_ReadFrom opn cl dstLen (Inr wire)) (server_wires seal sv idle_conn qs) = map Inr qs"
proof -
  obtain tx rx where new: "newWrapConn key False (Some r1) (Some c1) = Inr tx" "newWrapConn key False (Some r2) (Some c2) = Inr rx"
    and c: "cl = \<lparr>rp_relay = idle_conn, rp_wrapTX = Some tx, rp_wrapRX = Some rx\<rparr>"
    using new_relay_fields [OF cl assms(2)] .
  note fields = new_conn_fields [OF new(1) assms(3)] new_conn_fields [OF new(2) assms(4)] accept_conn_fields [OF sv assms(5,2)]
  have "relay_wires seal cl ps = wrap_wires seal tx ps" "server_wires seal sv idle_conn qs = wrap_wires seal sv qs"
    by (simp_all add: relay_wires_eq server_wires_eq c idle_conn_def)
  then show ?thesis
    using assms(8) fields server_reads_wires [OF assms(1) fields(1), of sv dstLen ps cap]
      relay_reads_wires [OF assms(1) fields(9), of rx cl dstLen qs] by (simp add: c)
qed

definition sample_rnd :: bytes where "sample_rnd = replicate 16 0xFF"

definition sample_relay :: relayPacketConn where
  "sample_relay = projr (newRelayPacketConn idle_conn (replicate 32 7) (Some sample_rnd, Some (replicate 8 0xFF)) (Some sample_rnd, Some []))"

definition sample_server :: wrapConn where
  "sample_server = projr (server_wrapAccept (replicate 32 7) (Some sample_rnd) (Some (replicate 8 0xFF)))"

lemma sample_conns:
  "newRelayPacketConn idle_conn (replicate 32 7) (Some sample_rnd, Some (replicate 8 0xFF)) (Some sample_rnd, Some []) = Inr sample_relay"
  "server_wrapAccept (replicate 32 7) (Some sample_rnd) (Some (replicate 8 0xFF)) = Inr sample_server"
  "length (replicate 32 (7 :: byte)) = wrapKeyLen" "length sample_rnd = 16"
  by (simp_all add: sample_relay_def sample_server_def newRelayPacketConn_def newWrapConn_def server_wrapAccept_def wrapKeyLen_def sample_rnd_def)

theorem wrap_roundtrip_witness:
  "map (\<lambda>wire. server_wrapReadFrom sample_open sample_server 0 1600 (Inr wire)) (relay_wires sample_seal sample_relay [[1, 2], []])
     = [Inr [1, 2], Inr []]"
  using wrap_roundtrip [OF sample_aead sample_conns(3) sample_conns(4) sample_conns(4) sample_conns(4) sample_conns(1,2),
      of 1600 "[[1, 2], []]" "[]" 0] by simp



lemma ucast16_of_nat: "(ucast (of_nat n :: u32) :: u16) = of_nat n"
  by transfer (simp add: take_bit_eq_mod mod_mod_cancel)

lemma ucast16_add: "(ucast (a + b :: u32) :: u16) = ucast a + ucast b"
proof -
  have "(ucast a :: u16) + ucast b = of_nat (unat a) + of_nat (unat b)" by simp
  also have "\<dots> = (of_nat (unat a + unat b) :: u16)" by simp
  also have "\<dots> = ucast (of_nat (unat a + unat b) :: u32)" by (rule ucast16_of_nat [symmetric])
  also have "(of_nat (unat a + unat b) :: u32) = a + b" by simp
  finally show ?thesis by simp
qed

text \<open>The packets look like one RTP stream: version 2 and payload type 111, sequence numbers that
  grow by one modulo \<open>2 ^ 16\<close>, timestamps that grow by 960 modulo \<open>2 ^ 32\<close>, a constant SSRC whose top
  bit is the direction, and 40 bytes more than the payload.\<close>

theorem wrap_wire_is_rtp:
  assumes "aead_laws seal opn" and "wrap_wf isServer w"
    and "wrapInto seal (wrap_iter n w) dstLen p = (w', Inr wire)"
  shows "length wire = length p + 40 \<and> take 2 wire = [0x80, 0x6F]
    \<and> (be_word (take 2 (drop 2 wire)) :: u16) = ucast (w_seq w) + of_nat n
    \<and> (be_word (take 4 (drop 4 wire)) :: u32) = w_timestamp w + of_nat n * 960
    \<and> take 4 (drop 8 wire) = w_ssrc w \<and> (bit (wire ! 8) 7 \<longleftrightarrow> isServer)"
proof -
  let ?w = "wrap_iter n w"
  have wf: "wrap_wf isServer ?w"
    using assms(2) by (induction n arbitrary: w) (auto intro: wrap_wf_advance)
  have ssrc: "w_ssrc ?w = w_ssrc w" by (induction n arbitrary: w) auto
  have wire: "wire = wrap_header ?w @ seal (w_key ?w) (wrap_nonce ?w) p (wrap_header ?w)"
    using assms(3) by (auto simp: wrapInto_def split: if_splits)
  have "length (w_ssrc w) = 4" "length (wrap_nonce ?w) = 12"
    using wf ssrc by (simp_all add: wrap_wf_def wrap_nonce_def wrap_iter_fields)
  moreover obtain a b c d where "w_ssrc w = [a, b, c, d]"
    using \<open>length (w_ssrc w) = 4\<close> by (auto simp: length_Suc_conv eval_nat_numeral)
  moreover have "(ucast (w_seq w + of_nat n) :: u16) = ucast (w_seq w) + of_nat n"
    by (simp add: ucast16_add ucast16_of_nat)
  ultimately show ?thesis
    using assms(1,2) ssrc
    by (simp add: wire wrap_header_def wrap_iter_fields aead_laws_def wrap_lens wrapRTPVersion_def
        wrapRTPPT_def wrapTSStep_def codec_simps wrap_wf_def nth_append)
qed

theorem wrap_wire_is_rtp_witness:
  "case snd (wrapInto sample_seal (wrap_iter 1 sample_client) 100 [1]) of
     Inr wire \<Rightarrow> length wire = 41 \<and> (be_word (take 2 (drop 2 wire)) :: u16) = 0 | Inl _ \<Rightarrow> False"
proof -
  obtain w' wire where w: "wrapInto sample_seal (wrap_iter 1 sample_client) 100 [1] = (w', Inr wire)"
    by (simp add: wrapInto_def wrap_lens)
  have "(ucast (w_seq sample_client) :: u16) + of_nat 1 = 0" by (simp add: sample_client_def)
  then show ?thesis
    using wrap_wire_is_rtp [OF sample_aead sample_wrap_wf(1) w] w by simp
qed

text \<open>Noise from the TURN relay does not disturb a stream: a datagram that does not authenticate, is
  too short or arrives before the first local packet is dropped, the stream goes on unchanged; a
  datagram of the peer is handed, decrypted, to the last local sender.\<close>

theorem turn_downlink_robust:
  assumes "aead_laws seal opn"
  shows "turn_downlink_turn opn (Inr d) (r\<lparr>tr_pipeAddr := None\<rparr>) = (r\<lparr>tr_pipeAddr := None\<rparr>, True)
    \<and> (tr_pipeAddr r = Some addr \<and> tr_rx r = Some rx
         \<and> opn (w_key rx) (take 12 (drop 12 (take 1640 d))) (drop 24 (take 1640 d)) (take 24 d) = None
         \<longrightarrow> turn_downlink_turn opn (Inr d) r = (r, True))
    \<and> (tr_pipeAddr r = Some addr \<and> tr_rx r = Some rx \<and> tr_local_script r = [] \<and> wrap_wf True sv
         \<and> w_key rx = w_key sv \<and> length p \<le> 1600
         \<longrightarrow> turn_downlink_turn opn (Inr (wrap_header sv @ seal (w_key sv) (wrap_nonce sv) p (wrap_header sv))) r
           = (r\<lparr>tr_local := tr_local r @ [(p, addr)]\<rparr>, True))"
proof -
  have "turn_downlink_turn opn (Inr (wrap_header sv @ seal (w_key sv) (wrap_nonce sv) p (wrap_header sv))) r
      = (r\<lparr>tr_local := tr_local r @ [(p, addr)]\<rparr>, True)"
    if h: "tr_pipeAddr r = Some addr" "tr_rx r = Some rx" "tr_local_script r = []" "wrap_wf True sv"
      "w_key rx = w_key sv" "length p \<le> 1600"
  proof -
    have "length (wrap_header sv @ seal (w_key sv) (wrap_nonce sv) p (wrap_header sv)) \<le> wrapOverhead + turn_buffer"
      using assms h by (simp add: aead_laws_def wrapOverhead_def turn_buffer_def)
    then have "take (wrapOverhead + turn_buffer) (wrap_header sv @ seal (w_key sv) (wrap_nonce sv) p (wrap_header sv))
        = wrap_header sv @ seal (w_key sv) (wrap_nonce sv) p (wrap_header sv)" by simp
    moreover have "r\<lparr>tr_local := x, tr_local_script := []\<rparr> = r\<lparr>tr_local := x\<rparr>" for x
      using h(3) by (cases r) simp
    ultimately show ?thesis
      using h unwrap_wire [OF assms h(4,5), of p turn_buffer]
      by (simp add: turn_downlink_turn_def local_WriteTo_def turn_buffer_def)
  qed
  moreover have "turn_downlink_turn opn (Inr d) r = (r, True)"
    if "tr_pipeAddr r = Some addr" "tr_rx r = Some rx"
      "opn (w_key rx) (take 12 (drop 12 (take 1640 d))) (drop 24 (take 1640 d)) (take 24 d) = None"
    using that by (simp add: turn_downlink_turn_def unwrapPacket_def wrap_lens turn_buffer_def)
  moreover have "turn_downlink_turn opn (Inr d) (r\<lparr>tr_pipeAddr := None\<rparr>) = (r\<lparr>tr_pipeAddr := None\<rparr>, True)"
    by (simp add: turn_downlink_turn_def)
  ultimately show ?thesis by blast
qed

theorem turn_downlink_robust_witness:
  "turn_downlink_turn sample_open (Inr [1, 2])
     \<lparr>tr_relay = \<lparr>pc_sent = [], pc_script = []\<rparr>, tr_local = [], tr_local_script = [], tr_pipeAddr = Some ''app'',
      tr_tx = None, tr_rx = Some sample_client, tr_cancelled = False\<rparr>
   = (\<lparr>tr_relay = \<lparr>pc_sent = [], pc_script = []\<rparr>, tr_local = [], tr_local_script = [], tr_pipeAddr = Some ''app'',
      tr_tx = None, tr_rx = Some sample_client, tr_cancelled = False\<rparr>, True)"
  using turn_downlink_robust [OF sample_aead, of "[1, 2]" "\<lparr>tr_relay = \<lparr>pc_sent = [], pc_script = []\<rparr>,
      tr_local = [], tr_local_script = [], tr_pipeAddr = Some ''app'', tr_tx = None,
      tr_rx = Some sample_client, tr_cancelled = False\<rparr>" "''app''" sample_client]
  by (simp add: sample_open_def)

text \<open>A key that the generator prints is a key that both programs accept, and an enabled WRAP mode
  is given a key of exactly 32 bytes or an error; without WRAP mode the key is ignored.\<close>

theorem wrap_key_flags:
  "(length key = wrapKeyLen \<longrightarrow>
      (case genWrapKeyHex (Some key) of Inr s \<Rightarrow> length s = 64 \<and> decodeWrapKey True s = Inr (Some key) | Inl _ \<Rightarrow> False))
   \<and> (case decodeWrapKey enabled raw of
        Inr None \<Rightarrow> \<not> enabled
      | Inr (Some k) \<Rightarrow> enabled \<and> length k = wrapKeyLen \<and> newWrapState k = Inr k
      | Inl _ \<Rightarrow> enabled)"
proof -
  have "hex_EncodeToString key \<noteq> []" if "length key = wrapKeyLen"
    using that length_hex_encode [of key] by (auto simp: wrapKeyLen_def simp del: length_hex_encode)
  then show ?thesis
    by (auto simp: genWrapKeyHex_def decodeWrapKey_def newWrapState_def codec_simps wrapKeyLen_def
        split: option.splits)
qed

theorem wrap_key_flags_witness:
  "case genWrapKeyHex (Some (replicate 32 7)) of
     Inr s \<Rightarrow> decodeWrapKey True s = Inr (Some (replicate 32 7)) | Inl _ \<Rightarrow> False"
  using conjunct1 [OF wrap_key_flags [of "replicate 32 7" True "[]"]]
  by (auto simp: wrapKeyLen_def split: sum.splits)

end
