(* ===== verification/Bond_Frames.thy ===== *)
theory Bond_Frames
  imports Turn_Prelude
begin

text \<open>
  The byte formats of bonded VLESS connections: the hello that opens a lane and the frames that
  follow, as the server (\<open>server/main.go\<close>) and the client (\<open>pkg/clientcore/main.go\<close>) write and read
  them. The two programs have their own copies of the code, so both are modelled; the names of
  the client's definitions start with \<open>client_\<close>.
\<close>

section \<open>Formats\<close>

definition bondVersion :: byte where "bondVersion = 1"
definition bondMagic :: bytes where "bondMagic = [0x56, 0x4C, 0x42, 0x31]"
definition bondFrameData :: byte where "bondFrameData = 1"
definition bondFrameFIN :: byte where "bondFrameFIN = 2"
definition bondMaxChunk :: nat where "bondMaxChunk = 16384"
definition bondMaxFrame :: u32 where "bondMaxFrame = 4194304"

record bondHello =
  bh_connID :: u64
  bh_laneIndex :: u16
  bh_laneCount :: u16

record bondFrame =
  fr_typ :: byte
  fr_seq :: u64
  fr_data :: bytes

datatype bond_error = BondIO io_error | BondHelloSize nat | BondMagic | BondVersion byte | FrameTooLarge u32

section \<open>The server\<close>

definition parseBondHelloHeader :: "bytes \<Rightarrow> bond_error + bondHello" where
  "parseBondHelloHeader hdr =
     (if length hdr \<noteq> 17 then Inl (BondHelloSize (length hdr))
      else if take 4 hdr \<noteq> bondMagic then Inl BondMagic
      else if hdr ! 4 \<noteq> bondVersion then Inl (BondVersion (hdr ! 4))
      else Inr \<lparr>bh_connID = be_word (take 8 (drop 5 hdr)),
                bh_laneIndex = be_word (take 2 (drop 13 hdr)),
                bh_laneCount = be_word (take 2 (drop 15 hdr))\<rparr>)"

definition readBondHelloAfterMagic :: "reader \<Rightarrow> bytes \<Rightarrow> (bond_error + bondHello) \<times> reader" where
  "readBondHelloAfterMagic r magic =
     (case ReadFull 13 r of
        (Inl e, r') \<Rightarrow> (Inl (BondIO e), r')
      | (Inr rest, r') \<Rightarrow> (parseBondHelloHeader (magic @ rest), r'))"

definition writeBondFrame :: "conn \<Rightarrow> byte \<Rightarrow> u64 \<Rightarrow> bytes \<Rightarrow> conn \<times> io_error option" where
  "writeBondFrame w typ seq payload =
     (case conn_Write w (typ # be_bytes 8 seq @ be_bytes 4 (of_nat (length payload) :: u32)) of
        (w1, Some e) \<Rightarrow> (w1, Some e)
      | (w1, None) \<Rightarrow> if payload = [] then (w1, None) else conn_Write w1 payload)"

definition readBondFrame :: "reader \<Rightarrow> (bond_error + bondFrame) \<times> reader" where
  "readBondFrame r =
     (case ReadFull 13 r of
        (Inl e, r1) \<Rightarrow> (Inl (BondIO e), r1)
      | (Inr hdr, r1) \<Rightarrow>
          let size = be_word (take 4 (drop 9 hdr)) :: u32 in
          if bondMaxFrame < size then (Inl (FrameTooLarge size), r1)
          else
            let f = \<lparr>fr_typ = hd hdr, fr_seq = be_word (take 8 (drop 1 hdr)), fr_data = []\<rparr> in
            if 0 < size then
              (case ReadFull (unat size) r1 of
                 (Inl e, r2) \<Rightarrow> (Inl (BondIO e), r2)
               | (Inr d, r2) \<Rightarrow> (Inr (f\<lparr>fr_data := d\<rparr>), r2))
            else (Inr f, r1))"

section \<open>The client\<close>

definition client_writeBondHello :: "conn \<Rightarrow> u64 \<Rightarrow> u16 \<Rightarrow> u16 \<Rightarrow> conn \<times> io_error option" where
  "client_writeBondHello w connID laneIndex laneCount =
     conn_Write w (bondMagic @ [bondVersion] @ be_bytes 8 connID @ be_bytes 2 laneIndex @ be_bytes 2 laneCount)"

definition client_writeBondFrame :: "conn \<Rightarrow> byte \<Rightarrow> u64 \<Rightarrow> bytes \<Rightarrow> conn \<times> io_error option" where
  "client_writeBondFrame w typ seq payload =
     (let hdr = [typ] @ be_bytes 8 seq @ be_bytes 4 (of_nat (length payload) :: u32);
          (w1, err) = conn_Write w hdr
      in case err of
           Some e \<Rightarrow> (w1, Some e)
         | None \<Rightarrow> if length payload = 0 then (w1, None) else conn_Write w1 payload)"

definition client_readBondFrame :: "reader \<Rightarrow> (bond_error + bondFrame) \<times> reader" where
  "client_readBondFrame r =
     (let (got, r1) = ReadFull 13 r in
      case got of
        Inl e \<Rightarrow> (Inl (BondIO e), r1)
      | Inr hdr \<Rightarrow>
          let size = be_word (take 4 (drop 9 hdr)) :: u32;
              f = \<lparr>fr_typ = hdr ! 0, fr_seq = be_word (take 8 (drop 1 hdr)), fr_data = []\<rparr> in
          if bondMaxFrame < size then (Inl (FrameTooLarge size), r1)
          else if size = 0 then (Inr f, r1)
          else (let (body, r2) = ReadFull (unat size) r1 in
                case body of Inl e \<Rightarrow> (Inl (BondIO e), r2) | Inr d \<Rightarrow> (Inr (f\<lparr>fr_data := d\<rparr>), r2)))"

section \<open>Encoding\<close>

definition encode_frame :: "bondFrame \<Rightarrow> bytes" where
  "encode_frame f = fr_typ f # be_bytes 8 (fr_seq f)
     @ be_bytes 4 (of_nat (length (fr_data f)) :: u32) @ fr_data f"

definition frame_ok :: "bondFrame \<Rightarrow> bool" where
  "frame_ok f \<longleftrightarrow> length (fr_data f) \<le> 4194304"

lemma length_encode_frame [simp]: "length (encode_frame f) = 13 + length (fr_data f)"
  by (simp add: encode_frame_def)

lemma encode_frame_neq_Nil [simp]: "encode_frame f \<noteq> []"
  by (simp add: encode_frame_def)

lemma client_writeBondFrame_eq: "client_writeBondFrame w typ seq payload = writeBondFrame w typ seq payload"
  by (simp add: client_writeBondFrame_def writeBondFrame_def split: prod.splits option.splits)

lemma client_readBondFrame_eq: "client_readBondFrame r = readBondFrame r"
proof (cases "ReadFull 13 r")
  case (Pair got r1)
  show ?thesis
  proof (cases got)
    case (Inl e)
    then show ?thesis using Pair by (simp add: client_readBondFrame_def readBondFrame_def)
  next
    case (Inr hdr)
    then have "length hdr = 13" using Pair ReadFull_Inr by blast
    then have "hdr ! 0 = hd hdr" by (simp add: hd_conv_nth length_greater_0_conv flip: length_greater_0_conv)
    then show ?thesis
      using Pair Inr
      by (simp add: client_readBondFrame_def readBondFrame_def Let_def word_neq_0_conv split: prod.splits)
  qed
qed

lemma frame_size:
  assumes "frame_ok f"
  shows "unat (of_nat (length (fr_data f)) :: u32) = length (fr_data f)"
    "\<not> bondMaxFrame < (of_nat (length (fr_data f)) :: u32)"
    "0 < (of_nat (length (fr_data f)) :: u32) \<longleftrightarrow> fr_data f \<noteq> []"
proof -
  show u: "unat (of_nat (length (fr_data f)) :: u32) = length (fr_data f)"
    using assms by (simp add: frame_ok_def unat_of_nat take_bit_nat_eq_self)
  show "\<not> bondMaxFrame < (of_nat (length (fr_data f)) :: u32)"
    using assms u by (simp add: frame_ok_def bondMaxFrame_def word_less_nat_alt)
  show "0 < (of_nat (length (fr_data f)) :: u32) \<longleftrightarrow> fr_data f \<noteq> []"
    using u by (simp add: word_less_nat_alt)
qed

lemma readBondFrame_encode:
  assumes "frame_ok f" and "rd_bytes r = encode_frame f @ rest"
  shows "readBondFrame r = (Inr f, r\<lparr>rd_bytes := rest\<rparr>)"
proof -
  let ?hdr = "fr_typ f # be_bytes 8 (fr_seq f) @ be_bytes 4 (of_nat (length (fr_data f)) :: u32)"
  have h: "ReadFull 13 r = (Inr ?hdr, r\<lparr>rd_bytes := fr_data f @ rest\<rparr>)"
    using assms(2) by (intro ReadFull_append) (simp_all add: encode_frame_def)
  show ?thesis
    using frame_size [OF assms(1)]
    by (cases "fr_data f = []") (simp_all add: readBondFrame_def h codec_simps)
qed

lemma readBondFrame_consumes:
  assumes "readBondFrame r = (Inr f, r')"
  shows "rd_bytes r = encode_frame f @ rd_bytes r' \<and> frame_ok f \<and> rd_end r' = rd_end r"
proof -
  obtain hdr r1 where h: "ReadFull 13 r = (Inr hdr, r1)"
    using assms by (auto simp: readBondFrame_def split: prod.splits sum.splits)
  note H = ReadFull_Inr [OF h]
  let ?size = "be_word (take 4 (drop 9 hdr)) :: u32"
  have size: "\<not> bondMaxFrame < ?size" using assms h by (auto simp: readBondFrame_def Let_def split: if_splits)
  then have le: "unat ?size \<le> 4194304" by (simp add: bondMaxFrame_def word_less_nat_alt not_less)
  have hdr: "hdr = hd hdr # be_bytes 8 (be_word (take 8 (drop 1 hdr)) :: u64) @ be_bytes 4 ?size"
  proof -
    obtain x xs where hx: "hdr = x # xs" "length xs = 12" using H by (cases hdr) auto
    have "be_bytes 8 (be_word (take 8 xs) :: u64) = take 8 xs"
      using be_bytes_be_word [of "take 8 xs", where 'a = 64] hx by simp
    moreover have "be_bytes 4 (be_word (drop 8 xs) :: u32) = drop 8 xs"
      using be_bytes_be_word [of "drop 8 xs", where 'a = 32] hx by simp
    ultimately show ?thesis using hx by simp
  qed
  show ?thesis
  proof (cases "0 < ?size")
    case False
    then have "?size = 0" by (simp add: word_gt_0)
    moreover have "f = \<lparr>fr_typ = hd hdr, fr_seq = be_word (take 8 (drop 1 hdr)), fr_data = []\<rparr>" "r' = r1"
      using assms h size False by (auto simp: readBondFrame_def Let_def)
    ultimately show ?thesis using H hdr by (simp add: encode_frame_def frame_ok_def)
  next
    case True
    then obtain d where d: "ReadFull (unat ?size) r1 = (Inr d, r')"
      and f: "f = \<lparr>fr_typ = hd hdr, fr_seq = be_word (take 8 (drop 1 hdr)), fr_data = d\<rparr>"
      using assms h size by (auto simp: readBondFrame_def Let_def split: prod.splits sum.splits)
    note D = ReadFull_Inr [OF d]
    then have "(of_nat (length d) :: u32) = ?size" by simp
    then show ?thesis using H D f hdr le by (simp add: encode_frame_def frame_ok_def)
  qed
qed

lemma readBondFrame_end: "rd_bytes r = [] \<Longrightarrow> readBondFrame r = (Inl (BondIO (rd_end r)), r)"
  by (cases r) (simp add: readBondFrame_def ReadFull_def)

interpretation frames: stream_codec encode_frame readBondFrame frame_ok
proof
  fix f rest and r :: reader
  show "frame_ok f \<Longrightarrow> rd_bytes r = encode_frame f @ rest \<Longrightarrow> readBondFrame r = (Inr f, r\<lparr>rd_bytes := rest\<rparr>)"
    by (rule readBondFrame_encode)
next
  fix f and r r' :: reader
  show "readBondFrame r = (Inr f, r') \<Longrightarrow> length (rd_bytes r') < length (rd_bytes r)"
    using readBondFrame_consumes by fastforce
next
  fix r :: reader
  show "rd_bytes r = [] \<Longrightarrow> \<exists>e. readBondFrame r = (Inl e, r)"
    using readBondFrame_end by blast
qed

section \<open>Writing\<close>

lemma writeBondFrame_cases:
  assumes "writeBondFrame c typ seq payload = (c', err)"
  shows "if err = None then cn_sent c' = cn_sent c @ encode_frame \<lparr>fr_typ = typ, fr_seq = seq, fr_data = payload\<rparr>
    else \<exists>k. cn_sent c' = cn_sent c @ take k (encode_frame \<lparr>fr_typ = typ, fr_seq = seq, fr_data = payload\<rparr>)"
proof -
  let ?hdr = "typ # be_bytes 8 seq @ be_bytes 4 (of_nat (length payload) :: u32)"
  have enc: "encode_frame \<lparr>fr_typ = typ, fr_seq = seq, fr_data = payload\<rparr> = ?hdr @ payload"
    by (simp add: encode_frame_def)
  have hdr: "take k ?hdr = take (min k 13) (?hdr @ payload)" for k
  proof -
    have "length ?hdr = 13" by simp
    then show ?thesis by (simp only: take_append min_def) (auto simp: min_def)
  qed
  obtain c1 e1 where w1: "conn_Write c ?hdr = (c1, e1)" by fastforce
  show ?thesis
  proof (cases e1)
    case (Some e)
    then obtain k where "cn_sent c1 = cn_sent c @ take k ?hdr" using w1 conn_Write_err by blast
    then show ?thesis using assms w1 Some hdr unfolding enc by (auto simp: writeBondFrame_def)
  next
    case None
    then have s1: "cn_sent c1 = cn_sent c @ ?hdr" using w1 conn_Write_ok by blast
    show ?thesis
    proof (cases "payload = []")
      case True
      then show ?thesis using assms w1 None s1 unfolding enc by (simp add: writeBondFrame_def)
    next
      case False
      then have w2: "conn_Write c1 payload = (c', err)" using assms w1 None by (simp add: writeBondFrame_def)
      show ?thesis
      proof (cases err)
        case None
        then show ?thesis using w2 conn_Write_ok [of c1 payload c'] s1 unfolding enc by simp
      next
        case (Some e)
        then obtain k where "cn_sent c' = cn_sent c1 @ take k payload" using w2 conn_Write_err by blast
        moreover have "take (13 + k) (?hdr @ payload) = ?hdr @ take k payload"
        proof -
          have "length ?hdr = 13" by simp
          then show ?thesis by (simp only: take_append) simp
        qed
        ultimately have "cn_sent c' = cn_sent c @ take (13 + k) (?hdr @ payload)"
          using s1 by (simp only: append_assoc)
        then show ?thesis unfolding enc Some by (simp only: option.simps if_False) blast
      qed
    qed
  qed
qed

lemma writeBondFrame_reliable:
  assumes "reliable c"
  shows "\<exists>c'. writeBondFrame c typ seq payload = (c', None) \<and> reliable c'"
proof -
  obtain c1 where c1: "conn_Write c (typ # be_bytes 8 seq @ be_bytes 4 (of_nat (length payload) :: u32)) = (c1, None)"
    "reliable c1"
    using conn_Write_reliable [OF assms] by blast
  then show ?thesis using conn_Write_reliable [OF c1(2), of payload] by (auto simp: writeBondFrame_def)
qed

text \<open>A lane on which several frames are written, until a write fails.\<close>

fun write_frames :: "conn \<Rightarrow> bondFrame list \<Rightarrow> conn \<times> nat" where
  "write_frames c [] = (c, 0)"
| "write_frames c (f # fs) =
     (case writeBondFrame c (fr_typ f) (fr_seq f) (fr_data f) of
        (c1, Some _) \<Rightarrow> (c1, 0)
      | (c1, None) \<Rightarrow> (let (c2, n) = write_frames c1 fs in (c2, Suc n)))"

lemma write_frames_sent:
  "write_frames c fs = (c', n) \<Longrightarrow> n \<le> length fs \<and>
     (\<exists>torn. cn_sent c' = cn_sent c @ concat (map encode_frame (take n fs)) @ torn
       \<and> (if n = length fs then torn = [] else \<exists>k. torn = take k (encode_frame (fs ! n))))"
proof (induction fs arbitrary: c c' n)
  case Nil
  then show ?case by simp
next
  case (Cons f fs)
  obtain c1 e where w: "writeBondFrame c (fr_typ f) (fr_seq f) (fr_data f) = (c1, e)" by fastforce
  have same: "\<lparr>fr_typ = fr_typ f, fr_seq = fr_seq f, fr_data = fr_data f\<rparr> = f" by simp
  note W = writeBondFrame_cases [OF w, unfolded same]
  show ?case
  proof (cases e)
    case (Some x)
    then show ?thesis using Cons.prems w W Some by auto
  next
    case None
    obtain m where m: "write_frames c1 fs = (c', m)" "n = Suc m"
      using Cons.prems w None by (auto split: prod.splits)
    then show ?thesis using Cons.IH [OF m(1)] W None by auto
  qed
qed

section \<open>Properties\<close>

text \<open>An incomplete frame is never mistaken for a frame.\<close>

lemma readBondFrame_torn:
  assumes "frame_ok f" and "rd_bytes r = take k (encode_frame f)" and "k < length (encode_frame f)"
  shows "\<exists>e r'. readBondFrame r = (Inl e, r')"
proof (cases "fst (readBondFrame r)")
  case (Inl e)
  then show ?thesis by (metis prod.collapse)
next
  case (Inr g)
  then obtain r' where g: "readBondFrame r = (Inr g, r')" by (metis prod.collapse)
  let ?r = "r\<lparr>rd_bytes := encode_frame f\<rparr>"
  have "encode_frame f = encode_frame g @ (rd_bytes r' @ drop k (encode_frame f))"
    using readBondFrame_consumes [OF g] assms(2) by (metis append_assoc append_take_drop_id)
  then have "readBondFrame ?r = (Inr g, ?r\<lparr>rd_bytes := rd_bytes r' @ drop k (encode_frame f)\<rparr>)"
    using readBondFrame_consumes [OF g] by (intro readBondFrame_encode) simp_all
  moreover have "readBondFrame ?r = (Inr f, ?r\<lparr>rd_bytes := []\<rparr>)"
    using assms(1) by (intro readBondFrame_encode) simp_all
  ultimately have "drop k (encode_frame f) = []" by (auto dest: arg_cong [where f = rd_bytes])
  then show ?thesis using assms(3) by simp
qed

lemma read_loop_torn:
  assumes "list_all frame_ok ds" and "rd_bytes r = concat (map encode_frame ds) @ torn"
    and "\<exists>e r'. readBondFrame (r\<lparr>rd_bytes := torn\<rparr>) = (Inl e, r')" and "length (rd_bytes r) < fuel"
  shows "\<exists>e. read_loop readBondFrame fuel r = (ds, Some e)"
proof -
  have "length xs \<le> length (concat (map encode_frame xs))" for xs
    by (induction xs) simp_all
  from this [of ds] have le: "length ds < fuel" using assms(2,4) by simp
  have split: "read_loop readBondFrame fuel r
      = (let (bs, e) = read_loop readBondFrame (fuel - length ds) (r\<lparr>rd_bytes := torn\<rparr>) in (ds @ bs, e))"
    using assms(1,2) le by (intro frames.read_loop_encoded) auto
  obtain m where "fuel - length ds = Suc m" using le by (cases "fuel - length ds") auto
  then show ?thesis using assms(3) split by auto
qed

text \<open>C10: a lane carries frames faithfully although its writes may fail half way: if the client writes
  frames of at most 4 MiB until one write fails, the server's reader delivers, in order, exactly
  the frames whose write succeeded, or these and the next one in case that was complete on the
  wire, and then stops with an error; a torn frame is never delivered. The client's reader does
  the same for the server's writes.\<close>

theorem lane_delivers_frames:
  assumes "list_all frame_ok fs" and "write_frames \<lparr>cn_sent = [], cn_script = script\<rparr> fs = (c, n)"
    and "rd_bytes r = cn_sent c" and "length (cn_sent c) < fuel"
  shows "\<exists>ds e. read_loop readBondFrame fuel r = (ds, Some e)
    \<and> read_loop client_readBondFrame fuel r = (ds, Some e) \<and> n \<le> length fs
    \<and> (ds = take n fs \<or> ds = take (Suc n) fs)"
proof -
  obtain torn where n: "n \<le> length fs" and sent: "cn_sent c = concat (map encode_frame (take n fs)) @ torn"
    and torn: "if n = length fs then torn = [] else \<exists>k. torn = take k (encode_frame (fs ! n))"
    using write_frames_sent [OF assms(2)] by auto
  have eq: "client_readBondFrame = readBondFrame" by (rule ext) (rule client_readBondFrame_eq)
  have ok: "list_all frame_ok (take k fs)" for k using assms(1) by (auto simp: list_all_iff dest: in_set_takeD)
  have stop: "\<exists>e r'. readBondFrame (r\<lparr>rd_bytes := []\<rparr>) = (Inl e, r')" by (simp add: readBondFrame_end)
  show ?thesis
  proof (cases "n = length fs")
    case True
    then obtain e where "read_loop readBondFrame fuel r = (take n fs, Some e)"
      using read_loop_torn [OF ok, of r n "[]"] sent torn stop assms(3,4) by auto
    then show ?thesis using n by (auto simp: eq)
  next
    case False
    then obtain k where k: "torn = take k (encode_frame (fs ! n))" using torn by auto
    have f: "frame_ok (fs ! n)" using assms(1) n False by (simp add: list_all_length)
    show ?thesis
    proof (cases "k < length (encode_frame (fs ! n))")
      case True
      then have "\<exists>e r'. readBondFrame (r\<lparr>rd_bytes := torn\<rparr>) = (Inl e, r')"
        using readBondFrame_torn [OF f, of "r\<lparr>rd_bytes := torn\<rparr>" k] k by simp
      then obtain e where "read_loop readBondFrame fuel r = (take n fs, Some e)"
        using read_loop_torn [OF ok, of r n torn] sent assms(3,4) by auto
      then show ?thesis using n by (auto simp: eq)
    next
      case full: False
      then have "cn_sent c = concat (map encode_frame (take (Suc n) fs)) @ []"
        using sent k n False by (simp add: take_Suc_conv_app_nth)
      then obtain e where "read_loop readBondFrame fuel r = (take (Suc n) fs, Some e)"
        using read_loop_torn [OF ok, of r "Suc n" "[]"] stop assms(3,4) by auto
      then show ?thesis using n by (auto simp: eq)
    qed
  qed
qed

definition sample_frames :: "bondFrame list" where
  "sample_frames = [\<lparr>fr_typ = 1, fr_seq = 0, fr_data = [7, 8]\<rparr>, \<lparr>fr_typ = 2, fr_seq = 1, fr_data = []\<rparr>]"

theorem lane_delivers_frames_witness:
  "\<exists>e. read_loop readBondFrame 99 \<lparr>rd_bytes = cn_sent (fst (write_frames \<lparr>cn_sent = [],
       cn_script = [None, None, Some 5]\<rparr> sample_frames)), rd_end = EOF\<rparr>
     = (take 1 sample_frames, Some e)"
proof -
  let ?c = "fst (write_frames \<lparr>cn_sent = [], cn_script = [None, None, Some 5]\<rparr> sample_frames)"
  let ?r = "\<lparr>rd_bytes = cn_sent ?c, rd_end = EOF\<rparr>"
  have w: "write_frames \<lparr>cn_sent = [], cn_script = [None, None, Some 5]\<rparr> sample_frames = (?c, 1)"
    and l: "length (cn_sent ?c) = 20" by code_simp+
  have d: "length (fst (read_loop readBondFrame 99 ?r)) = 1" by code_simp
  have "list_all frame_ok sample_frames" by (simp add: sample_frames_def frame_ok_def)
  then show ?thesis
    using lane_delivers_frames [OF _ w, of ?r 99] l d by (auto simp: sample_frames_def)
qed

text \<open>The frame reader is safe on any input: a frame it accepts is at most 4 MiB, is exactly what
  the consumed bytes encode, and nothing beyond it is consumed; a header that announces more is
  rejected after the 13 header bytes, before anything is allocated.\<close>

theorem frame_reader_safe:
  "case readBondFrame r of
     (Inr f, r') \<Rightarrow> length (fr_data f) \<le> 4194304 \<and> rd_bytes r = encode_frame f @ rd_bytes r'
   | (Inl (FrameTooLarge sz), r') \<Rightarrow> 4194304 < unat sz \<and> rd_bytes r' = drop 13 (rd_bytes r)
   | (Inl (BondIO e), r') \<Rightarrow> rd_bytes r' = []
   | _ \<Rightarrow> False"
proof (cases "ReadFull 13 r")
  case (Pair got r1)
  show ?thesis
  proof (cases got)
    case (Inl e)
    then show ?thesis using Pair ReadFull_Inl [of 13 r e r1] by (simp add: readBondFrame_def)
  next
    case (Inr hdr)
    note H = ReadFull_Inr [OF Pair [unfolded Inr]]
    let ?size = "be_word (take 4 (drop 9 hdr)) :: u32"
    show ?thesis
    proof (cases "bondMaxFrame < ?size")
      case True
      then have "4194304 < unat ?size" by (simp add: bondMaxFrame_def word_less_nat_alt)
      then show ?thesis using Pair Inr H True by (simp add: readBondFrame_def)
    next
      case False
      show ?thesis
      proof (cases "readBondFrame r")
        case P: (Pair res r')
        show ?thesis
        proof (cases res)
          case (Inr f)
          then show ?thesis using readBondFrame_consumes [of r f r'] P by (simp add: frame_ok_def)
        next
          case (Inl e)
          then show ?thesis
            using P Pair \<open>got = Inr hdr\<close> False ReadFull_Inl
            by (auto simp: readBondFrame_def Let_def split: prod.splits sum.splits if_splits)
        qed
      qed
    qed
  qed
qed

text \<open>What the client writes to open a lane is recognised by the server: the first four bytes are
  the magic by which the server tells a bonded stream from a plain one, and the rest gives back
  connection id, lane index and lane count.\<close>

theorem bond_hello_roundtrip:
  "case client_writeBondHello \<lparr>cn_sent = [], cn_script = []\<rparr> connID laneIndex laneCount of
     (c, None) \<Rightarrow>
       (case ReadFull 4 \<lparr>rd_bytes = cn_sent c @ rest, rd_end = e\<rparr> of
          (Inr magic, r1) \<Rightarrow> magic = bondMagic
            \<and> readBondHelloAfterMagic r1 magic
              = (Inr \<lparr>bh_connID = connID, bh_laneIndex = laneIndex, bh_laneCount = laneCount\<rparr>,
                 \<lparr>rd_bytes = rest, rd_end = e\<rparr>)
        | _ \<Rightarrow> False)
   | _ \<Rightarrow> False"
proof -
  let ?body = "[bondVersion] @ be_bytes 8 connID @ be_bytes 2 laneIndex @ be_bytes 2 laneCount"
  have w: "client_writeBondHello \<lparr>cn_sent = [], cn_script = []\<rparr> connID laneIndex laneCount
      = (\<lparr>cn_sent = bondMagic @ ?body, cn_script = []\<rparr>, None)"
    by (simp add: client_writeBondHello_def conn_Write_def)
  have m: "ReadFull 4 \<lparr>rd_bytes = (bondMagic @ ?body) @ rest, rd_end = e\<rparr>
      = (Inr bondMagic, \<lparr>rd_bytes = ?body @ rest, rd_end = e\<rparr>)"
    by (simp add: ReadFull_def bondMagic_def)
  have b: "ReadFull 13 \<lparr>rd_bytes = ?body @ rest, rd_end = e\<rparr> = (Inr ?body, \<lparr>rd_bytes = rest, rd_end = e\<rparr>)"
    by (simp add: ReadFull_def)
  have p: "parseBondHelloHeader (bondMagic @ ?body)
      = Inr \<lparr>bh_connID = connID, bh_laneIndex = laneIndex, bh_laneCount = laneCount\<rparr>"
    by (simp add: parseBondHelloHeader_def bondMagic_def codec_simps)
  show ?thesis using w m b p by (simp add: readBondHelloAfterMagic_def)
qed

end
