(* ===== verification/Bond_Reassembly.thy ===== *)
theory Bond_Reassembly
  imports Bond_Frames "HOL-Library.AList"
begin

text \<open>
  Putting a bonded TCP stream together again: \<open>copyBondToBackend\<close> of \<open>server/main.go\<close> and
  \<open>copyBondToTCP\<close> of \<open>pkg/clientcore/main.go\<close>. Frames arrive from all lanes in any order; data
  frames wait in a map until their turn, a FIN frame tells how many there are. The map is an
  association list without double keys. The inner loop removes an entry per turn, which is its
  termination measure.
\<close>

section \<open>The server\<close>

datatype copy_status = Running | UploadDone | BadFrame byte | WriteFailed io_error | ChannelClosed

record reassembly =
  ra_pending :: "(u64 \<times> bytes) list"
  ra_expect :: u64
  ra_fin :: "u64 option"
  ra_conn :: conn
  ra_writeClosed :: bool
  ra_packets :: u64
  ra_backendErrors :: u64
  ra_status :: copy_status

definition reassembly_start :: "conn \<Rightarrow> reassembly" where
  "reassembly_start c =
     \<lparr>ra_pending = [], ra_expect = 0, ra_fin = None, ra_conn = c, ra_writeClosed = False,
      ra_packets = 0, ra_backendErrors = 0, ra_status = Running\<rparr>"

text \<open>The inner loop.\<close>

function drain_pending :: "reassembly \<Rightarrow> reassembly" where
  "drain_pending st =
     (case map_of (ra_pending st) (ra_expect st) of
        None \<Rightarrow> st
      | Some payload \<Rightarrow>
          let st1 = st\<lparr>ra_pending := AList.delete (ra_expect st) (ra_pending st)\<rparr> in
          if 0 < length payload then
            (case conn_Write (ra_conn st1) payload of
               (c, Some e) \<Rightarrow> st1\<lparr>ra_conn := c, ra_backendErrors := ra_backendErrors st1 + 1,
                                 ra_status := WriteFailed e\<rparr>
             | (c, None) \<Rightarrow> drain_pending (st1\<lparr>ra_conn := c, ra_packets := ra_packets st1 + 1,
                                              ra_expect := ra_expect st1 + 1\<rparr>))
          else drain_pending (st1\<lparr>ra_expect := ra_expect st1 + 1\<rparr>))"
  by pat_completeness auto

lemma length_delete_less: "map_of al k = Some v \<Longrightarrow> length (AList.delete k al) < length al"
proof (induction al)
  case Nil
  then show ?case by simp
next
  case (Cons x al)
  have "length (AList.delete k al) \<le> length al" by (simp add: length_delete_le)
  then show ?case using Cons by (cases x) (auto split: if_splits)
qed

termination drain_pending
  by (relation "measure (\<lambda>st. length (ra_pending st))") (auto simp: length_delete_less)

declare drain_pending.simps [simp del]

text \<open>The head of the outer loop, and the handling of one frame.\<close>

definition check_fin :: "reassembly \<Rightarrow> reassembly" where
  "check_fin st =
     (if ra_status st = Running \<and> ra_fin st = Some (ra_expect st)
      then st\<lparr>ra_writeClosed := True, ra_status := UploadDone\<rparr> else st)"

definition take_frame :: "bondFrame \<Rightarrow> reassembly \<Rightarrow> reassembly" where
  "take_frame f st =
     (if fr_typ f = bondFrameData
      then drain_pending (st\<lparr>ra_pending := AList.update (fr_seq f) (fr_data f) (ra_pending st)\<rparr>)
      else if fr_typ f = bondFrameFIN
      then drain_pending (st\<lparr>ra_fin := (case ra_fin st of
                                         None \<Rightarrow> Some (fr_seq f)
                                       | Some fin \<Rightarrow> if fr_seq f < fin then Some (fr_seq f) else Some fin)\<rparr>)
      else st\<lparr>ra_status := BadFrame (fr_typ f)\<rparr>)"

fun copyBondToBackend :: "bondFrame list \<Rightarrow> reassembly \<Rightarrow> reassembly" where
  "copyBondToBackend [] st = check_fin st"
| "copyBondToBackend (f # fs) st =
     (let st1 = check_fin st
      in if ra_status st1 \<noteq> Running then st1 else copyBondToBackend fs (take_frame f st1))"

section \<open>The client\<close>

record client_reassembly =
  cr_pending :: "(u64 \<times> bytes) list"
  cr_expect :: u64
  cr_fin :: "u64 option"
  cr_conn :: conn
  cr_writeClosed :: bool
  cr_status :: copy_status

definition client_reassembly_start :: "conn \<Rightarrow> client_reassembly" where
  "client_reassembly_start c =
     \<lparr>cr_pending = [], cr_expect = 0, cr_fin = None, cr_conn = c, cr_writeClosed = False,
      cr_status = Running\<rparr>"

function client_drain_pending :: "client_reassembly \<Rightarrow> client_reassembly" where
  "client_drain_pending st =
     (case map_of (cr_pending st) (cr_expect st) of
        None \<Rightarrow> st
      | Some payload \<Rightarrow>
          let st1 = st\<lparr>cr_pending := AList.delete (cr_expect st) (cr_pending st)\<rparr> in
          if 0 < length payload then
            (case conn_Write (cr_conn st1) payload of
               (c, Some e) \<Rightarrow> st1\<lparr>cr_conn := c, cr_status := WriteFailed e\<rparr>
             | (c, None) \<Rightarrow> client_drain_pending (st1\<lparr>cr_conn := c, cr_expect := cr_expect st1 + 1\<rparr>))
          else client_drain_pending (st1\<lparr>cr_expect := cr_expect st1 + 1\<rparr>))"
  by pat_completeness auto

termination client_drain_pending
  by (relation "measure (\<lambda>st. length (cr_pending st))") (auto simp: length_delete_less)

declare client_drain_pending.simps [simp del]

definition client_check_fin :: "client_reassembly \<Rightarrow> client_reassembly" where
  "client_check_fin st =
     (if cr_status st = Running \<and> cr_fin st = Some (cr_expect st)
      then st\<lparr>cr_writeClosed := True, cr_status := UploadDone\<rparr> else st)"

definition client_take_frame :: "bondFrame \<Rightarrow> client_reassembly \<Rightarrow> client_reassembly" where
  "client_take_frame f st =
     (if fr_typ f = bondFrameData
      then client_drain_pending (st\<lparr>cr_pending := AList.update (fr_seq f) (fr_data f) (cr_pending st)\<rparr>)
      else if fr_typ f = bondFrameFIN
      then client_drain_pending (st\<lparr>cr_fin := (case cr_fin st of
                                         None \<Rightarrow> Some (fr_seq f)
                                       | Some fin \<Rightarrow> if fr_seq f < fin then Some (fr_seq f) else Some fin)\<rparr>)
      else st\<lparr>cr_status := BadFrame (fr_typ f)\<rparr>)"

text \<open>The client's channel is closed once all lanes have ended.\<close>

fun copyBondToTCP :: "bondFrame list \<Rightarrow> client_reassembly \<Rightarrow> client_reassembly" where
  "copyBondToTCP [] st =
     (let st1 = client_check_fin st
      in if cr_status st1 \<noteq> Running then st1 else st1\<lparr>cr_status := ChannelClosed\<rparr>)"
| "copyBondToTCP (f # fs) st =
     (let st1 = client_check_fin st
      in if cr_status st1 \<noteq> Running then st1 else copyBondToTCP fs (client_take_frame f st1))"

text \<open>The client's state is the server's without its counters.\<close>

definition client_view :: "reassembly \<Rightarrow> client_reassembly" where
  "client_view st =
     \<lparr>cr_pending = ra_pending st, cr_expect = ra_expect st, cr_fin = ra_fin st, cr_conn = ra_conn st,
      cr_writeClosed = ra_writeClosed st, cr_status = ra_status st\<rparr>"

lemma client_view_simps [simp]:
  "cr_pending (client_view st) = ra_pending st" "cr_expect (client_view st) = ra_expect st"
  "cr_fin (client_view st) = ra_fin st" "cr_conn (client_view st) = ra_conn st"
  "cr_status (client_view st) = ra_status st" "cr_writeClosed (client_view st) = ra_writeClosed st"
  by (simp_all add: client_view_def)

lemma client_view_update [simp]:
  "client_view (ra_pending_update f st) = cr_pending_update f (client_view st)"
  "client_view (ra_expect_update g st) = cr_expect_update g (client_view st)"
  "client_view (ra_fin_update h st) = cr_fin_update h (client_view st)"
  "client_view (ra_conn_update i st) = cr_conn_update i (client_view st)"
  "client_view (ra_writeClosed_update j st) = cr_writeClosed_update j (client_view st)"
  "client_view (ra_status_update k st) = cr_status_update k (client_view st)"
  "client_view (ra_packets_update l st) = client_view st"
  "client_view (ra_backendErrors_update l st) = client_view st"
  by (simp_all add: client_view_def)

lemma client_view_drain: "client_drain_pending (client_view st) = client_view (drain_pending st)"
proof (induction st rule: drain_pending.induct)
  case (1 st)
  show ?case
  proof (cases "map_of (ra_pending st) (ra_expect st)")
    case None
    then show ?thesis by (subst drain_pending.simps, subst client_drain_pending.simps) simp
  next
    case (Some payload)
    obtain c e where w: "conn_Write (ra_conn st) payload = (c, e)" by fastforce
    show ?thesis
      using 1 [OF Some refl] w Some
      by (subst drain_pending.simps, subst client_drain_pending.simps) (cases e; simp add: Let_def)
  qed
qed

lemma client_view_check: "client_check_fin (client_view st) = client_view (check_fin st)"
  by (simp add: client_check_fin_def check_fin_def)

lemma client_view_take: "client_take_frame f (client_view st) = client_view (take_frame f st)"
  by (simp add: client_take_frame_def take_frame_def flip: client_view_drain)

lemma client_view_copy:
  "copyBondToTCP fs (client_view st)
    = (let st' = client_view (copyBondToBackend fs st)
       in if cr_status st' = Running then st'\<lparr>cr_status := ChannelClosed\<rparr> else st')"
proof (induction fs arbitrary: st)
  case Nil
  then show ?case by (simp add: client_view_check Let_def)
next
  case (Cons f fs)
  then show ?case by (simp add: client_view_check client_view_take Let_def)
qed

section \<open>The frames of a stream\<close>

definition chunk_frame :: "bytes list \<Rightarrow> nat \<Rightarrow> bondFrame" where
  "chunk_frame chunks i = \<lparr>fr_typ = bondFrameData, fr_seq = of_nat i, fr_data = chunks ! i\<rparr>"

definition fin_frame :: "bytes list \<Rightarrow> bondFrame" where
  "fin_frame chunks = \<lparr>fr_typ = bondFrameFIN, fr_seq = of_nat (length chunks), fr_data = []\<rparr>"

definition genuine :: "bytes list \<Rightarrow> bondFrame \<Rightarrow> bool" where
  "genuine chunks f \<longleftrightarrow> f = fin_frame chunks \<or> (\<exists>i < length chunks. f = chunk_frame chunks i)"

text \<open>The state after \<open>k\<close> chunks were written, having received the chunks \<open>R\<close>.\<close>

definition ra_at :: "bytes list \<Rightarrow> bytes \<Rightarrow> nat set \<Rightarrow> nat \<Rightarrow> reassembly \<Rightarrow> bool" where
  "ra_at chunks base R k st \<longleftrightarrow>
     k \<le> length chunks \<and> R \<subseteq> {..<length chunks} \<and> ra_expect st = of_nat k
     \<and> cn_sent (ra_conn st) = base @ concat (take k chunks)
     \<and> (\<forall>key d. map_of (ra_pending st) key = Some d \<longrightarrow>
          (\<exists>i < length chunks. key = of_nat i \<and> d = chunks ! i))
     \<and> (ra_fin st = None \<or> ra_fin st = Some (of_nat (length chunks)))
     \<and> (\<forall>i \<in> R. i < k \<or> map_of (ra_pending st) (of_nat i) = Some (chunks ! i))
     \<and> ra_status st = Running"

lemma chunk_index_inject:
  "i \<le> n \<Longrightarrow> j \<le> n \<Longrightarrow> n < 2 ^ 64 \<Longrightarrow> (of_nat i :: u64) = of_nat j \<longleftrightarrow> i = j"
  by (simp add: word_of_nat_eq_iff take_bit_nat_eq_self)

lemma concat_take_part:
  assumes "k < length chunks"
  shows "\<exists>m. concat (take k chunks) @ take j (chunks ! k) = take m (concat chunks)"
proof -
  have "chunks = take k chunks @ chunks ! k # drop (Suc k) chunks" using assms by (simp add: id_take_nth_drop)
  then have c: "concat chunks = concat (take k chunks) @ chunks ! k @ concat (drop (Suc k) chunks)"
    by (metis concat.simps(2) concat_append)
  have "take (length (concat (take k chunks)) + min j (length (chunks ! k))) (concat chunks)
      = concat (take k chunks) @ take j (chunks ! k)"
    unfolding c by (simp add: min_def)
  then show ?thesis by metis
qed

lemma concat_take_prefix: "\<exists>m. concat (take k chunks) = take m (concat chunks)"
proof -
  have "concat chunks = concat (take k chunks) @ concat (drop k chunks)"
    by (metis append_take_drop_id concat_append)
  then show ?thesis by (metis append_eq_conv_conj)
qed

lemma ra_at_next:
  assumes at: "ra_at chunks base R k st" and N: "length chunks < 2 ^ 64"
    and some: "map_of (ra_pending st) (ra_expect st) = Some payload"
    and sent: "cn_sent c = cn_sent (ra_conn st) @ payload"
  shows "k < length chunks \<and> payload = chunks ! k
    \<and> ra_at chunks base R (Suc k) (st\<lparr>ra_pending := AList.delete (ra_expect st) (ra_pending st),
        ra_conn := c, ra_packets := x, ra_expect := ra_expect st + 1\<rparr>)"
proof -
  have e: "ra_expect st = of_nat k" and k: "k \<le> length chunks" using at by (simp_all add: ra_at_def)
  obtain i where i: "i < length chunks" "(of_nat k :: u64) = of_nat i" "payload = chunks ! i"
    using at some e unfolding ra_at_def by metis
  then have ki: "i = k" using chunk_index_inject [of k "length chunks" i] k N by simp
  have "concat (take (Suc k) chunks) = concat (take k chunks) @ payload"
    using i ki by (simp add: take_Suc_conv_app_nth)
  moreover have "j < Suc k \<or> map_of (AList.delete (of_nat k) (ra_pending st)) (of_nat j) = Some (chunks ! j)"
    if "j \<in> R" for j
  proof (cases "j < Suc k")
    case False
    have "map_of (ra_pending st) (of_nat j) = Some (chunks ! j)" using at that False unfolding ra_at_def by auto
    moreover have "(of_nat j :: u64) \<noteq> of_nat k"
      using that at False k N chunk_index_inject [of j "length chunks" k] unfolding ra_at_def by auto
    ultimately show ?thesis by (simp add: delete_conv')
  qed simp
  moreover have "\<exists>i < length chunks. key = of_nat i \<and> d = chunks ! i"
    if "map_of (AList.delete (of_nat k) (ra_pending st)) key = Some d" for key d
  proof -
    have "map_of (ra_pending st) key = Some d" using that by (simp add: delete_conv' split: if_splits)
    then show ?thesis using at unfolding ra_at_def by blast
  qed
  moreover have "k < length chunks" "payload = chunks ! k" using i ki by simp_all
  moreover have "R \<subseteq> {..<length chunks}" "ra_fin st = None \<or> ra_fin st = Some (of_nat (length chunks))"
    "ra_status st = Running" "cn_sent (ra_conn st) = base @ concat (take k chunks)"
    using at by (simp_all add: ra_at_def)
  ultimately show ?thesis using e sent unfolding ra_at_def by simp
qed

definition drained :: "bytes list \<Rightarrow> bytes \<Rightarrow> nat set \<Rightarrow> nat \<Rightarrow> reassembly \<Rightarrow> reassembly \<Rightarrow> bool" where
  "drained chunks base R k st st' \<longleftrightarrow>
     ra_fin st' = ra_fin st \<and> (reliable (ra_conn st) \<longrightarrow> reliable (ra_conn st'))
     \<and> ((\<exists>k' \<ge> k. ra_at chunks base R k' st' \<and> map_of (ra_pending st') (of_nat k') = None)
        \<or> \<not> reliable (ra_conn st) \<and> ra_status st' \<notin> {Running, UploadDone}
          \<and> (\<exists>m. cn_sent (ra_conn st') = base @ take m (concat chunks)))"

lemma drained_next:
  assumes "drained chunks base R (Suc k) st st'" and "ra_fin st = ra_fin st0"
    and "reliable (ra_conn st0) \<longrightarrow> reliable (ra_conn st)"
  shows "drained chunks base R k st0 st'"
  using assms by (auto simp: drained_def intro: Suc_leD)

lemma ra_at_drain:
  assumes "ra_at chunks base R k st" and N: "length chunks < 2 ^ 64"
  shows "drained chunks base R k st (drain_pending st)"
  using assms(1)
proof (induction st arbitrary: k rule: drain_pending.induct)
  case (1 st)
  have e: "ra_expect st = of_nat k" using 1(3) by (simp add: ra_at_def)
  show ?case
  proof (cases "map_of (ra_pending st) (ra_expect st)")
    case None
    then have "drain_pending st = st" by (subst drain_pending.simps) simp
    then show ?thesis using 1(3) None e by (auto simp: drained_def)
  next
    case (Some payload)
    let ?st = "st\<lparr>ra_pending := AList.delete (ra_expect st) (ra_pending st)\<rparr>"
    show ?thesis
    proof (cases "payload = []")
      case True
      let ?st2 = "?st\<lparr>ra_expect := ra_expect st + 1\<rparr>"
      have "ra_at chunks base R (Suc k) ?st2"
        using ra_at_next [OF 1(3) N Some, of "ra_conn st" "ra_packets st"] True by simp
      moreover have "drain_pending st = drain_pending ?st2"
        using Some True by (subst drain_pending.simps) (simp add: Let_def)
      moreover from calculation have "drained chunks base R (Suc k) ?st2 (drain_pending ?st2)"
        using 1(2) [OF Some refl] True by simp
      ultimately show ?thesis using drained_next [of chunks base R k ?st2 "drain_pending ?st2" st] by simp
    next
      case False
      obtain c err where w: "conn_Write (ra_conn st) payload = (c, err)" by fastforce
      show ?thesis
      proof (cases err)
        case None
        let ?st2 = "?st\<lparr>ra_conn := c, ra_packets := ra_packets st + 1, ra_expect := ra_expect st + 1\<rparr>"
        have s: "cn_sent c = cn_sent (ra_conn st) @ payload" using w None conn_Write_ok by blast
        have "ra_at chunks base R (Suc k) ?st2" using ra_at_next [OF 1(3) N Some s] by simp
        moreover have d: "drain_pending st = drain_pending ?st2"
          using Some False w None by (subst drain_pending.simps) (simp add: Let_def)
        moreover have "reliable (ra_conn st) \<longrightarrow> reliable c"
          using conn_Write_reliable [of "ra_conn st" payload] w by auto
        moreover from calculation have "drained chunks base R (Suc k) ?st2 (drain_pending ?st2)"
          using 1(1) [OF Some refl] False w None by simp
        ultimately show ?thesis using drained_next [of chunks base R k ?st2 "drain_pending ?st2" st] by simp
      next
        case (Some x)
        have d: "drain_pending st = ?st\<lparr>ra_conn := c, ra_backendErrors := ra_backendErrors st + 1,
            ra_status := WriteFailed x\<rparr>"
          using \<open>map_of (ra_pending st) (ra_expect st) = Some payload\<close> False w Some
          by (subst drain_pending.simps) (simp add: Let_def)
        obtain j where j: "cn_sent c = cn_sent (ra_conn st) @ take j payload"
          using w Some conn_Write_err by blast
        have k: "k < length chunks" "payload = chunks ! k"
          using ra_at_next [OF 1(3) N \<open>map_of (ra_pending st) (ra_expect st) = Some payload\<close>,
              of "(ra_conn st)\<lparr>cn_sent := cn_sent (ra_conn st) @ payload\<rparr>"] by simp_all
        have "\<not> reliable (ra_conn st)" using conn_Write_reliable [of "ra_conn st" payload] w Some by auto
        moreover have "\<exists>m. cn_sent c = base @ take m (concat chunks)"
          using concat_take_part [OF k(1), of j] j k(2) 1(3) by (auto simp: ra_at_def)
        ultimately show ?thesis by (simp add: d drained_def)
      qed
    qed
  qed
qed

section \<open>Frames and the whole loop\<close>

definition frame_index :: "bytes list \<Rightarrow> bondFrame \<Rightarrow> nat set" where
  "frame_index chunks f = {i. i < length chunks \<and> f = chunk_frame chunks i}"

lemma bond_types: "bondFrameFIN \<noteq> bondFrameData"
  by (simp add: bondFrameFIN_def bondFrameData_def)

lemma chunk_frame_inject:
  "length chunks < 2 ^ 64 \<Longrightarrow> i < length chunks \<Longrightarrow> j < length chunks \<Longrightarrow>
     chunk_frame chunks i = chunk_frame chunks j \<longleftrightarrow> i = j"
  using chunk_index_inject [of i "length chunks" j] by (auto simp: chunk_frame_def)

lemma take_frame_genuine:
  assumes at: "ra_at chunks base R k st" and N: "length chunks < 2 ^ 64" and f: "genuine chunks f"
  shows "\<exists>st1. take_frame f st = drain_pending st1 \<and> ra_at chunks base (R \<union> frame_index chunks f) k st1
    \<and> ra_conn st1 = ra_conn st
    \<and> ra_fin st1 = (if f = fin_frame chunks then Some (of_nat (length chunks)) else ra_fin st)"
proof (cases "f = fin_frame chunks")
  case True
  have fin: "ra_fin st = None \<or> ra_fin st = Some (of_nat (length chunks))" using at by (simp add: ra_at_def)
  have "frame_index chunks f = {}"
    using True bond_types by (auto simp: frame_index_def fin_frame_def chunk_frame_def)
  moreover have "take_frame f st = drain_pending (st\<lparr>ra_fin := Some (of_nat (length chunks))\<rparr>)"
    using True fin bond_types by (auto simp: take_frame_def fin_frame_def)
  moreover have "ra_at chunks base R k (st\<lparr>ra_fin := Some (of_nat (length chunks))\<rparr>)"
    using at by (simp add: ra_at_def)
  ultimately show ?thesis using True by (intro exI [of _ "st\<lparr>ra_fin := Some (of_nat (length chunks))\<rparr>"]) simp
next
  case False
  then obtain i where i: "i < length chunks" "f = chunk_frame chunks i" using f by (auto simp: genuine_def)
  let ?st = "st\<lparr>ra_pending := AList.update (of_nat i) (chunks ! i) (ra_pending st)\<rparr>"
  have idx: "frame_index chunks f = {i}"
    using i chunk_frame_inject [OF N] by (auto simp: frame_index_def)
  have "\<exists>j < length chunks. key = of_nat j \<and> d = chunks ! j"
    if "map_of (AList.update (of_nat i) (chunks ! i) (ra_pending st)) key = Some d" for key d
  proof (cases "key = of_nat i")
    case True
    then show ?thesis using that i by (auto simp: update_conv')
  next
    case False
    then have "map_of (ra_pending st) key = Some d" using that by (simp add: update_conv')
    then show ?thesis using at unfolding ra_at_def by blast
  qed
  moreover have "j < k \<or> map_of (AList.update (of_nat i) (chunks ! i) (ra_pending st)) (of_nat j) = Some (chunks ! j)"
    if "j \<in> insert i R" for j
  proof (cases "j = i")
    case True
    then show ?thesis by (simp add: update_conv')
  next
    case False
    then have "j \<in> R" "j < length chunks" using that at by (auto simp: ra_at_def)
    moreover from this have "(of_nat j :: u64) \<noteq> of_nat i"
      using chunk_index_inject [of j "length chunks" i] N i False by simp
    ultimately show ?thesis using at by (auto simp: ra_at_def update_conv')
  qed
  moreover have "R \<union> {i} \<subseteq> {..<length chunks}" using at i by (auto simp: ra_at_def)
  ultimately have "ra_at chunks base (insert i R) k ?st" using at unfolding ra_at_def by simp
  moreover have "take_frame f st = drain_pending ?st" using i by (simp add: take_frame_def chunk_frame_def)
  ultimately show ?thesis using idx False by (intro exI [of _ ?st]) simp
qed

lemma take_frame_drained:
  assumes at: "ra_at chunks base R k st" and N: "length chunks < 2 ^ 64" and f: "genuine chunks f"
  shows "(reliable (ra_conn st) \<longrightarrow> reliable (ra_conn (take_frame f st)))
    \<and> ra_fin (take_frame f st) = (if f = fin_frame chunks then Some (of_nat (length chunks)) else ra_fin st)
    \<and> ((\<exists>k'. ra_at chunks base (R \<union> frame_index chunks f) k' (take_frame f st)
             \<and> map_of (ra_pending (take_frame f st)) (of_nat k') = None)
        \<or> \<not> reliable (ra_conn st) \<and> ra_status (take_frame f st) \<notin> {Running, UploadDone}
          \<and> (\<exists>m. cn_sent (ra_conn (take_frame f st)) = base @ take m (concat chunks)))"
proof -
  obtain st1 where st1: "take_frame f st = drain_pending st1" "ra_at chunks base (R \<union> frame_index chunks f) k st1"
    "ra_conn st1 = ra_conn st"
    "ra_fin st1 = (if f = fin_frame chunks then Some (of_nat (length chunks)) else ra_fin st)"
    using take_frame_genuine [OF assms] by blast
  show ?thesis using ra_at_drain [OF st1(2) N] st1 unfolding drained_def by auto
qed

lemma copy_stopped: "ra_status st \<noteq> Running \<Longrightarrow> copyBondToBackend fs st = st"
  by (cases fs) (auto simp: check_fin_def Let_def)

lemma copy_genuine:
  assumes "ra_at chunks base R k st" and N: "length chunks < 2 ^ 64" and "list_all (genuine chunks) fs"
    and "map_of (ra_pending st) (of_nat k) = None"
  defines "st' \<equiv> copyBondToBackend fs st"
  shows "(\<exists>m. cn_sent (ra_conn st') = base @ take m (concat chunks))
    \<and> (ra_status st' = UploadDone \<longrightarrow> cn_sent (ra_conn st') = base @ concat chunks \<and> ra_writeClosed st')
    \<and> (reliable (ra_conn st) \<and> R \<union> (\<Union>f \<in> set fs. frame_index chunks f) = {..<length chunks}
        \<and> (ra_fin st \<noteq> None \<or> fin_frame chunks \<in> set fs) \<longrightarrow> ra_status st' = UploadDone)"
  using assms(1,3,4) unfolding st'_def
proof (induction fs arbitrary: st R k)
  case Nil
  have at: "k \<le> length chunks" "ra_expect st = of_nat k" "ra_status st = Running"
    "cn_sent (ra_conn st) = base @ concat (take k chunks)"
    "ra_fin st = None \<or> ra_fin st = Some (of_nat (length chunks))"
    using Nil.prems(1) by (simp_all add: ra_at_def)
  have fin: "ra_fin st = Some (ra_expect st) \<Longrightarrow> k = length chunks"
    using at chunk_index_inject [of k "length chunks" "length chunks"] N by auto
  have full: "k = length chunks" if "R = {..<length chunks}"
  proof (rule ccontr)
    assume "k \<noteq> length chunks"
    then have "k \<in> R" using at(1) that by simp
    then show False using Nil.prems(1,3) by (auto simp: ra_at_def)
  qed
  have "\<exists>m. cn_sent (ra_conn (check_fin st)) = base @ take m (concat chunks)"
    using at(4) concat_take_prefix [of k chunks] by (auto simp: check_fin_def)
  moreover have "ra_status (check_fin st) = UploadDone \<longrightarrow>
      cn_sent (ra_conn (check_fin st)) = base @ concat chunks \<and> ra_writeClosed (check_fin st)"
    using at fin by (auto simp: check_fin_def)
  moreover have "ra_status (check_fin st) = UploadDone"
    if "R = {..<length chunks}" "ra_fin st \<noteq> None"
    using full [OF that(1)] that(2) at by (auto simp: check_fin_def)
  ultimately show ?case by simp
next
  case (Cons f fs)
  show ?case
  proof (cases "ra_status (check_fin st) = Running")
    case False
    then have "copyBondToBackend (f # fs) st = copyBondToBackend [] st" by (simp add: Let_def)
    moreover have "ra_status (check_fin st) = UploadDone"
      using False Cons.prems(1) by (auto simp: check_fin_def ra_at_def split: if_splits)
    moreover have "(\<exists>m. cn_sent (ra_conn (check_fin st)) = base @ take m (concat chunks))
      \<and> cn_sent (ra_conn (check_fin st)) = base @ concat chunks \<and> ra_writeClosed (check_fin st)"
    proof -
      have "ra_fin st = Some (ra_expect st)" using False Cons.prems(1) by (auto simp: check_fin_def ra_at_def split: if_splits)
      then have "k = length chunks"
        using Cons.prems(1) chunk_index_inject [of k "length chunks" "length chunks"] N by (auto simp: ra_at_def)
      then show ?thesis using Cons.prems(1) \<open>ra_fin st = Some (ra_expect st)\<close>
        by (auto simp: check_fin_def ra_at_def intro: exI [of _ "length (concat chunks)"])
    qed
    ultimately show ?thesis by (metis copyBondToBackend.simps(1))
  next
    case True
    then have same: "check_fin st = st" by (auto simp: check_fin_def split: if_splits)
    let ?st = "take_frame f st"
    have f: "genuine chunks f" "list_all (genuine chunks) fs" using Cons.prems(2) by simp_all
    have run: "copyBondToBackend (f # fs) st = copyBondToBackend fs ?st" using True same by (simp add: Let_def)
    note T = take_frame_drained [OF Cons.prems(1) N f(1)]
    from T consider (ok) k' where "ra_at chunks base (R \<union> frame_index chunks f) k' ?st"
        "map_of (ra_pending ?st) (of_nat k') = None"
      | (failed) "\<not> reliable (ra_conn st)" "ra_status ?st \<notin> {Running, UploadDone}"
        "\<exists>m. cn_sent (ra_conn ?st) = base @ take m (concat chunks)"
      by blast
    then show ?thesis
    proof cases
      case failed
      then have "copyBondToBackend fs ?st = ?st" using copy_stopped by blast
      then show ?thesis using failed run by simp
    next
      case ok
      have "R \<union> frame_index chunks f \<union> (\<Union>f \<in> set fs. frame_index chunks f)
          = R \<union> (\<Union>f \<in> set (f # fs). frame_index chunks f)" by auto
      moreover have "ra_fin ?st \<noteq> None \<or> fin_frame chunks \<in> set fs
          \<longleftrightarrow> ra_fin st \<noteq> None \<or> fin_frame chunks \<in> set (f # fs)"
        using T by auto
      ultimately show ?thesis using Cons.IH [OF ok(1) f(2) ok(2)] T run by metis
    qed
  qed
qed

lemma ra_at_start: "ra_at chunks (cn_sent c) {} 0 (reassembly_start c)"
  by (simp add: ra_at_def reassembly_start_def)

lemma frame_index_all:
  assumes "\<And>i. i < length chunks \<Longrightarrow> chunk_frame chunks i \<in> set fs"
  shows "(\<Union>f \<in> set fs. frame_index chunks f) = {..<length chunks}"
  using assms by (auto simp: frame_index_def)

lemma drain_writeClosed: "ra_writeClosed (drain_pending st) = ra_writeClosed st"
proof (induction st rule: drain_pending.induct)
  case (1 st)
  show ?case
  proof (cases "map_of (ra_pending st) (ra_expect st)")
    case None
    then show ?thesis by (subst drain_pending.simps) simp
  next
    case (Some payload)
    obtain c e where w: "conn_Write (ra_conn st) payload = (c, e)" by fastforce
    show ?thesis
      using 1 [OF Some refl] w Some by (subst drain_pending.simps) (cases e; simp add: Let_def)
  qed
qed

lemma copy_closed:
  "\<not> ra_writeClosed st \<Longrightarrow> ra_writeClosed (copyBondToBackend fs st) \<Longrightarrow> ra_status (copyBondToBackend fs st) = UploadDone"
proof (induction fs arbitrary: st)
  case Nil
  then show ?case by (auto simp: check_fin_def split: if_splits)
next
  case (Cons f fs)
  show ?case
  proof (cases "ra_status (check_fin st) = Running")
    case False
    then show ?thesis using Cons.prems by (auto simp: check_fin_def Let_def split: if_splits)
  next
    case True
    then have same: "check_fin st = st" by (auto simp: check_fin_def split: if_splits)
    have "\<not> ra_writeClosed (take_frame f st)"
      using Cons.prems(1) by (simp add: take_frame_def drain_writeClosed)
    then show ?thesis using Cons True same by (simp add: Let_def)
  qed
qed

lemma client_view_start: "client_view (reassembly_start c) = client_reassembly_start c"
  by (simp add: client_view_def reassembly_start_def client_reassembly_start_def)

lemma copy_client:
  "cr_conn (copyBondToTCP fs (client_reassembly_start c)) = ra_conn (copyBondToBackend fs (reassembly_start c))"
  "cr_writeClosed (copyBondToTCP fs (client_reassembly_start c))
     = ra_writeClosed (copyBondToBackend fs (reassembly_start c))"
  "ra_status (copyBondToBackend fs (reassembly_start c)) = UploadDone \<Longrightarrow>
     cr_status (copyBondToTCP fs (client_reassembly_start c)) = UploadDone"
  unfolding client_view_start [symmetric] client_view_copy by (simp_all add: Let_def)

section \<open>Properties\<close>

text \<open>Whatever order the lanes deliver the frames of a stream in, with frames repeated or missing
  and with writes that fail, the bytes that reach the other end are a prefix of the stream; and the
  connection is half-closed only after the whole stream was written. This holds for the upload on
  the server and for the download on the client.\<close>

theorem reassembly_prefix:
  assumes "list_all (genuine chunks) fs" and "length chunks < 2 ^ 64"
  shows "(let st = copyBondToBackend fs (reassembly_start c) in
      (\<exists>m. cn_sent (ra_conn st) = cn_sent c @ take m (concat chunks))
      \<and> (if ra_writeClosed st then cn_sent (ra_conn st) = cn_sent c @ concat chunks else True))
    \<and> (let st = copyBondToTCP fs (client_reassembly_start c) in
      (\<exists>m. cn_sent (cr_conn st) = cn_sent c @ take m (concat chunks))
      \<and> (if cr_writeClosed st then cn_sent (cr_conn st) = cn_sent c @ concat chunks else True))"
proof -
  note G = copy_genuine [OF ra_at_start assms(2,1), of c]
  have "\<not> ra_writeClosed (reassembly_start c)" by (simp add: reassembly_start_def)
  then have "ra_writeClosed (copyBondToBackend fs (reassembly_start c)) \<Longrightarrow>
      ra_status (copyBondToBackend fs (reassembly_start c)) = UploadDone" using copy_closed by blast
  then show ?thesis using G by (simp add: copy_client Let_def reassembly_start_def)
qed

definition sample_chunks :: "bytes list" where
  "sample_chunks = [[1, 2], [3], [4, 5, 6]]"

text \<open>The frames out of order, one of them twice.\<close>

definition sample_arrival :: "bondFrame list" where
  "sample_arrival = [chunk_frame sample_chunks 2, fin_frame sample_chunks, chunk_frame sample_chunks 0,
     chunk_frame sample_chunks 0, chunk_frame sample_chunks 1]"

lemma sample_arrival_genuine: "list_all (genuine sample_chunks) sample_arrival" "length sample_chunks < 2 ^ 64"
proof -
  have l: "length sample_chunks = 3" by (simp add: sample_chunks_def)
  have "genuine sample_chunks (chunk_frame sample_chunks i)" if "i < 3" for i
    using that by (auto simp: genuine_def l)
  then show "list_all (genuine sample_chunks) sample_arrival"
    by (simp add: sample_arrival_def genuine_def [of _ "fin_frame _"])
  show "length sample_chunks < 2 ^ 64" by (simp add: l)
qed

theorem reassembly_prefix_witness:
  "\<exists>m. cn_sent (ra_conn (copyBondToBackend sample_arrival (reassembly_start \<lparr>cn_sent = [], cn_script = [None, Some 0]\<rparr>)))
     = take m [1, 2, 3, 4, 5, 6]"
  using reassembly_prefix [OF sample_arrival_genuine, of "\<lparr>cn_sent = [], cn_script = [None, Some 0]\<rparr>"]
  by (auto simp: Let_def sample_chunks_def)

text \<open>C11: when every chunk of the stream and its FIN arrive, in any order, over any lanes, any number of
  times, and writes succeed, then the loop ends by itself, the whole stream was written exactly
  once and in order, and the write side was closed; on the server and on the client.\<close>

theorem reassembly_complete:
  assumes "list_all (genuine chunks) fs" and "length chunks < 2 ^ 64" and "reliable c"
    and "\<And>i. i < length chunks \<Longrightarrow> chunk_frame chunks i \<in> set fs" and "fin_frame chunks \<in> set fs"
  shows "(let st = copyBondToBackend fs (reassembly_start c) in
      ra_status st = UploadDone \<and> ra_writeClosed st \<and> cn_sent (ra_conn st) = cn_sent c @ concat chunks)
    \<and> (let st = copyBondToTCP fs (client_reassembly_start c) in
      cr_status st = UploadDone \<and> cr_writeClosed st \<and> cn_sent (cr_conn st) = cn_sent c @ concat chunks)"
proof -
  note G = copy_genuine [OF ra_at_start assms(2,1), of c]
  have "{} \<union> (\<Union>f \<in> set fs. frame_index chunks f) = {..<length chunks}"
    using frame_index_all assms(4) by simp
  moreover have "reliable (ra_conn (reassembly_start c))" using assms(3) by (simp add: reassembly_start_def)
  ultimately have "ra_status (copyBondToBackend fs (reassembly_start c)) = UploadDone"
    using G assms(5) by (simp add: reassembly_start_def)
  then show ?thesis using G copy_client [of fs c] by (simp add: Let_def reassembly_start_def)
qed

theorem reassembly_complete_witness:
  "cn_sent (ra_conn (copyBondToBackend sample_arrival (reassembly_start \<lparr>cn_sent = [], cn_script = []\<rparr>)))
     = [1, 2, 3, 4, 5, 6]"
proof -
  have "chunk_frame sample_chunks i \<in> set sample_arrival" if "i < length sample_chunks" for i
  proof -
    have "i = 0 \<or> i = 1 \<or> i = 2" using that by (auto simp: sample_chunks_def)
    then show ?thesis by (auto simp: sample_arrival_def)
  qed
  moreover have "fin_frame sample_chunks \<in> set sample_arrival" by (simp add: sample_arrival_def)
  ultimately show ?thesis
    using reassembly_complete [OF sample_arrival_genuine, of "\<lparr>cn_sent = [], cn_script = []\<rparr>"]
    by (simp add: reliable_def Let_def sample_chunks_def)
qed

end
