(* ===== verification/Bond_Client.thy ===== *)
theory Bond_Client
  imports Bond_Reassembly
begin

text \<open>
  The client's side of VLESS mode (\<open>pkg/clientcore/main.go\<close>): the pool of smux sessions with its
  round robin, the opening of a lane per session for a bonded TCP connection, and the upload
  that cuts the TCP stream into chunks and writes each as a frame on the next live lane. Pooled
  sessions are shared objects: the store \<open>pw_sessions\<close> maps references (indices) to them.
\<close>

section \<open>The session pool\<close>

record pooledSession =
  ps_id :: int
  ps_isClosed :: bool
  ps_active :: "32 word"
  ps_opened :: u64
  ps_closed :: u64
  ps_toSession :: u64
  ps_fromSession :: u64

record sessionPool =
  sp_sessions :: "nat list"
  sp_counter :: u64
  sp_connCounter :: u64

record pool_world =
  pw_sessions :: "pooledSession list"
  pw_pool :: sessionPool

definition upd_pooled :: "nat \<Rightarrow> (pooledSession \<Rightarrow> pooledSession) \<Rightarrow> pool_world \<Rightarrow> pool_world" where
  "upd_pooled ps f w = w\<lparr>pw_sessions := (pw_sessions w)[ps := f (pw_sessions w ! ps)]\<rparr>"

definition pool_add :: "int \<Rightarrow> pool_world \<Rightarrow> pool_world \<times> nat" where
  "pool_add sid w =
     (let ps = length (pw_sessions w); p = pw_pool w in
      (w\<lparr>pw_sessions := pw_sessions w @ [\<lparr>ps_id = sid, ps_isClosed = False, ps_active = 0, ps_opened = 0,
            ps_closed = 0, ps_toSession = 0, ps_fromSession = 0\<rparr>],
         pw_pool := p\<lparr>sp_sessions := sp_sessions p @ [ps]\<rparr>\<rparr>, ps))"

definition pool_remove :: "nat \<Rightarrow> pool_world \<Rightarrow> pool_world" where
  "pool_remove ps w = w\<lparr>pw_pool := (pw_pool w)\<lparr>sp_sessions := remove1 ps (sp_sessions (pw_pool w))\<rparr>\<rparr>"

definition pool_pick :: "pool_world \<Rightarrow> pool_world \<times> nat option" where
  "pool_pick w =
     (let p = pw_pool w; n = length (sp_sessions p) in
      if n = 0 then (w, None)
      else (w\<lparr>pw_pool := p\<lparr>sp_counter := sp_counter p + 1\<rparr>\<rparr>,
            Some (sp_sessions p ! unat (sp_counter p mod of_nat n))))"

definition pool_nextConnID :: "pool_world \<Rightarrow> pool_world \<times> u64" where
  "pool_nextConnID w =
     (let v = sp_connCounter (pw_pool w) + 1 in (w\<lparr>pw_pool := (pw_pool w)\<lparr>sp_connCounter := v\<rparr>\<rparr>, v))"

definition pool_snapshot :: "pool_world \<Rightarrow> nat list" where
  "pool_snapshot w = filter (\<lambda>ps. \<not> ps_isClosed (pw_sessions w ! ps)) (sp_sessions (pw_pool w))"

definition pool_count :: "pool_world \<Rightarrow> nat" where
  "pool_count w = length (sp_sessions (pw_pool w))"

text \<open>The identifier of a bonded connection: the clock in nanoseconds and the counter.\<close>

definition bond_connID :: "u64 \<Rightarrow> u64 \<Rightarrow> u64" where
  "bond_connID unixNano counter = push_bit 16 unixNano XOR counter"

text \<open>What \<open>runVLESSMode\<close> does with an accepted TCP connection.\<close>

datatype tcp_dispatch = RejectConn | BondConn u64 "nat list" | PlainConn nat u64

definition dispatch_tcp :: "bool \<Rightarrow> u64 \<Rightarrow> pool_world \<Rightarrow> pool_world \<times> tcp_dispatch" where
  "dispatch_tcp bond unixNano w =
     (if bond then
        (let (w1, n) = pool_nextConnID w; lanes = pool_snapshot w1
         in if lanes = [] then (w1, RejectConn) else (w1, BondConn (bond_connID unixNano n) lanes))
      else
        (case pool_pick w of
           (w1, None) \<Rightarrow> (w1, RejectConn)
         | (w1, Some ps) \<Rightarrow>
             if ps_isClosed (pw_sessions w1 ! ps) then (w1, RejectConn)
             else (let (w2, n) = pool_nextConnID w1
                   in (upd_pooled ps (\<lambda>p. p\<lparr>ps_opened := ps_opened p + 1, ps_active := ps_active p + 1\<rparr>) w2,
                       PlainConn ps n))))"

section \<open>Opening the lanes of a bonded connection\<close>

record bondClientLane =
  cl_ps :: nat
  cl_stream :: conn
  cl_dead :: bool

text \<open>The loop over the candidates of \<open>handleBondedTCP\<close>; each comes with the stream that \<open>OpenStream\<close>
  gives, \<open>None\<close> when it fails.\<close>

fun open_lanes ::
  "u64 \<Rightarrow> nat \<Rightarrow> nat \<Rightarrow> (nat \<times> conn option) list \<Rightarrow> pool_world \<Rightarrow> pool_world \<times> bondClientLane list" where
  "open_lanes connID laneCount i [] w = (w, [])"
| "open_lanes connID laneCount i ((ps, opened) # rest) w =
     (if ps_isClosed (pw_sessions w ! ps) then open_lanes connID laneCount (Suc i) rest w
      else case opened of
        None \<Rightarrow> open_lanes connID laneCount (Suc i) rest w
      | Some stream \<Rightarrow>
          (case client_writeBondHello stream connID (of_nat i) (of_nat laneCount) of
             (_, Some _) \<Rightarrow> open_lanes connID laneCount (Suc i) rest w
           | (stream1, None) \<Rightarrow>
               let w1 = upd_pooled ps (\<lambda>p. p\<lparr>ps_opened := ps_opened p + 1, ps_active := ps_active p + 1\<rparr>) w;
                   (w2, lanes) = open_lanes connID laneCount (Suc i) rest w1
               in (w2, \<lparr>cl_ps = ps, cl_stream = stream1, cl_dead = False\<rparr> # lanes)))"

text \<open>The deferred loop that closes the lanes.\<close>

fun close_lanes :: "bondClientLane list \<Rightarrow> pool_world \<Rightarrow> pool_world" where
  "close_lanes [] w = w"
| "close_lanes (l # ls) w =
     close_lanes ls (upd_pooled (cl_ps l) (\<lambda>p. p\<lparr>ps_active := ps_active p - 1, ps_closed := ps_closed p + 1\<rparr>) w)"

section \<open>Upload\<close>

text \<open>\<open>writeBondFrameToNextLane\<close>; \<open>ctx k\<close> is \<open>ctx.Err() != nil\<close> as polled with \<open>k\<close> attempts left.\<close>

datatype lane_error = CtxErr | NoLiveLanes

fun nextLane ::
  "(nat \<Rightarrow> bool) \<Rightarrow> nat \<Rightarrow> byte \<Rightarrow> u64 \<Rightarrow> bytes \<Rightarrow> u64 \<Rightarrow> bondClientLane list
     \<Rightarrow> bondClientLane list \<times> u64 \<times> (lane_error + nat)" where
  "nextLane ctx 0 typ seq payload laneIdx lanes =
     (lanes, laneIdx, Inl (if ctx 0 then CtxErr else NoLiveLanes))"
| "nextLane ctx (Suc attempts) typ seq payload laneIdx lanes =
     (let idx = unat (laneIdx mod of_nat (length lanes)); lane = lanes ! idx in
      if cl_dead lane then nextLane ctx attempts typ seq payload (laneIdx + 1) lanes
      else case client_writeBondFrame (cl_stream lane) typ seq payload of
        (stream, None) \<Rightarrow> (lanes[idx := lane\<lparr>cl_stream := stream\<rparr>], laneIdx + 1, Inr idx)
      | (stream, Some _) \<Rightarrow>
          let lanes1 = lanes[idx := lane\<lparr>cl_stream := stream, cl_dead := True\<rparr>] in
          if ctx (Suc attempts) then (lanes1, laneIdx + 1, Inl CtxErr)
          else nextLane ctx attempts typ seq payload (laneIdx + 1) lanes1)"

definition writeBondFrameToNextLane ::
  "(nat \<Rightarrow> bool) \<Rightarrow> byte \<Rightarrow> u64 \<Rightarrow> bytes \<Rightarrow> u64 \<Rightarrow> bondClientLane list
     \<Rightarrow> bondClientLane list \<times> u64 \<times> (lane_error + nat)" where
  "writeBondFrameToNextLane ctx typ seq payload laneIdx lanes =
     nextLane ctx (length lanes) typ seq payload laneIdx lanes"

text \<open>The FIN goes out on every lane that is not dead; errors are only logged.\<close>

definition write_fins :: "u64 \<Rightarrow> bondClientLane list \<Rightarrow> bondClientLane list" where
  "write_fins seq lanes =
     map (\<lambda>lane. if cl_dead lane then lane
                 else lane\<lparr>cl_stream := fst (client_writeBondFrame (cl_stream lane) bondFrameFIN seq [])\<rparr>) lanes"

record upload =
  up_seq :: u64
  up_laneIdx :: u64
  up_lanes :: "bondClientLane list"
  up_pool :: pool_world
  up_ended :: bool

text \<open>\<open>copyTCPToBond\<close> over the results of \<open>tcpConn.Read\<close>: the bytes and the error of each call,
  with the two polls of the context around it.\<close>

fun copyTCPToBond ::
  "(bytes \<times> io_error option \<times> (nat \<Rightarrow> bool) \<times> bool) list \<Rightarrow> upload \<Rightarrow> upload" where
  "copyTCPToBond [] u = u"
| "copyTCPToBond ((payload, err, ctx, ctxDone) # reads) u =
     (let (u1, ok) =
        (if 0 < length payload then
           (case writeBondFrameToNextLane ctx bondFrameData (up_seq u) payload (up_laneIdx u) (up_lanes u) of
              (lanes, laneIdx, Inl _) \<Rightarrow> (u\<lparr>up_lanes := lanes, up_laneIdx := laneIdx, up_ended := True\<rparr>, False)
            | (lanes, laneIdx, Inr l) \<Rightarrow>
                (u\<lparr>up_lanes := lanes, up_laneIdx := laneIdx, up_seq := up_seq u + 1,
                   up_pool := upd_pooled (cl_ps (lanes ! l))
                     (\<lambda>p. p\<lparr>ps_toSession := ps_toSession p + of_nat (length payload)\<rparr>) (up_pool u)\<rparr>, True))
         else (u, True))
      in if \<not> ok then u1
         else if err \<noteq> None then u1\<lparr>up_lanes := write_fins (up_seq u1) (up_lanes u1), up_ended := True\<rparr>
         else if ctxDone then u1\<lparr>up_ended := True\<rparr>
         else copyTCPToBond reads u1)"

section \<open>Lemmas\<close>

text \<open>A pool in its regular state: every session of the list exists, none twice.\<close>

definition pool_wf :: "pool_world \<Rightarrow> bool" where
  "pool_wf w \<longleftrightarrow> distinct (sp_sessions (pw_pool w))
     \<and> (\<forall>ps \<in> set (sp_sessions (pw_pool w)). ps < length (pw_sessions w))"

lemma pool_wf_add [inv_intros]: "pool_wf w \<Longrightarrow> pool_wf (fst (pool_add sid w))"
  by (auto simp: pool_wf_def pool_add_def Let_def)

lemma pool_wf_remove [inv_intros]: "pool_wf w \<Longrightarrow> pool_wf (pool_remove ps w)"
  by (auto simp: pool_wf_def pool_remove_def)

lemma pool_wf_pick [inv_intros]: "pool_wf w \<Longrightarrow> pool_wf (fst (pool_pick w))"
  by (auto simp: pool_wf_def pool_pick_def Let_def)

fun pick_many :: "nat \<Rightarrow> pool_world \<Rightarrow> nat option list" where
  "pick_many 0 w = []"
| "pick_many (Suc n) w = (let (w1, r) = pool_pick w in r # pick_many n w1)"

lemma counter_index:
  assumes "0 < n" and "n < 2 ^ 64"
  shows "unat ((c :: u64) mod of_nat n) = unat c mod n"
  using assms by (simp add: unat_mod unat_of_nat take_bit_nat_eq_self)

lemma pick_many_nth:
  assumes n: "n = length (sp_sessions (pw_pool w))" "0 < n" "n < 2 ^ 64"
    and "unat (sp_counter (pw_pool w)) + k < 2 ^ 64"
  shows "pick_many k w = map (\<lambda>j. Some (sp_sessions (pw_pool w) ! ((unat (sp_counter (pw_pool w)) + j) mod n))) [0..<k]"
  using assms(1,4)
proof (induction k arbitrary: w)
  case 0
  then show ?case by simp
next
  case (Suc k)
  let ?p = "pw_pool w"
  let ?w = "w\<lparr>pw_pool := ?p\<lparr>sp_counter := sp_counter ?p + 1\<rparr>\<rparr>"
  have u: "unat (sp_counter ?p + 1) = Suc (unat (sp_counter ?p))"
    using Suc.prems(2) by (simp add: unat_word_ariths)
  have p: "pool_pick w = (?w, Some (sp_sessions ?p ! (unat (sp_counter ?p) mod n)))"
    using Suc.prems(1) n(2,3) counter_index by (auto simp: pool_pick_def Let_def)
  have "pick_many k ?w = map (\<lambda>j. Some (sp_sessions ?p ! ((Suc (unat (sp_counter ?p)) + j) mod n))) [0..<k]"
    using Suc.IH [of ?w] Suc.prems u by simp
  moreover have "[0..<Suc k] = 0 # map Suc [0..<k]" by (simp add: map_Suc_upt upt_conv_Cons)
  ultimately show ?case using p by (simp add: o_def)
qed

text \<open>The counters of the pooled sessions over one bonded connection.\<close>

lemma upd_pooled_simps [simp]:
  "pw_pool (upd_pooled ps f w) = pw_pool w"
  "length (pw_sessions (upd_pooled ps f w)) = length (pw_sessions w)"
  "k < length (pw_sessions w) \<Longrightarrow>
     pw_sessions (upd_pooled ps f w) ! k = (if k = ps then f (pw_sessions w ! k) else pw_sessions w ! k)"
  by (auto simp: upd_pooled_def)

lemma open_lanes_counts:
  assumes "open_lanes connID laneCount i cs w = (w', lanes)" and "k < length (pw_sessions w)"
  shows "length (pw_sessions w') = length (pw_sessions w)
    \<and> (let n = length (filter (\<lambda>l. cl_ps l = k) lanes); p = pw_sessions w ! k in
       pw_sessions w' ! k = p\<lparr>ps_opened := ps_opened p + of_nat n, ps_active := ps_active p + of_nat n\<rparr>)"
  using assms
proof (induction connID laneCount i cs w arbitrary: w' lanes rule: open_lanes.induct)
  case (1 connID laneCount i w)
  then show ?case by simp
next
  case (2 connID laneCount i ps opened rest w)
  show ?case
  proof (cases "ps_isClosed (pw_sessions w ! ps)")
    case True
    then show ?thesis using 2 by simp
  next
    case False
    show ?thesis
    proof (cases opened)
      case None
      then show ?thesis using 2 False by simp
    next
      case (Some stream)
      obtain stream1 e where h: "client_writeBondHello stream connID (of_nat i) (of_nat laneCount) = (stream1, e)"
        by fastforce
      show ?thesis
      proof (cases e)
        case (Some x)
        then show ?thesis using 2 False h \<open>opened = Some stream\<close> by simp
      next
        case None
        let ?w1 = "upd_pooled ps (\<lambda>p. p\<lparr>ps_opened := ps_opened p + 1, ps_active := ps_active p + 1\<rparr>) w"
        obtain w2 ls where r: "open_lanes connID laneCount (Suc i) rest ?w1 = (w2, ls)" by fastforce
        have eq: "w' = w2" "lanes = \<lparr>cl_ps = ps, cl_stream = stream1, cl_dead = False\<rparr> # ls"
          using 2(5) False \<open>opened = Some stream\<close> h None r by simp_all
        have "length (pw_sessions w2) = length (pw_sessions ?w1)
          \<and> (let n = length (filter (\<lambda>l. cl_ps l = k) ls); p = pw_sessions ?w1 ! k in
             pw_sessions w2 ! k = p\<lparr>ps_opened := ps_opened p + of_nat n, ps_active := ps_active p + of_nat n\<rparr>)"
          using 2(3) [OF False \<open>opened = Some stream\<close> h [symmetric] None refl r] 2(6) by simp
        then show ?thesis using 2(6) by (auto simp: eq Let_def algebra_simps)
      qed
    qed
  qed
qed

lemma close_lanes_counts:
  assumes "k < length (pw_sessions w)"
  shows "length (pw_sessions (close_lanes ls w)) = length (pw_sessions w)
    \<and> (let n = length (filter (\<lambda>l. cl_ps l = k) ls); p = pw_sessions w ! k in
       pw_sessions (close_lanes ls w) ! k
         = p\<lparr>ps_active := ps_active p - of_nat n, ps_closed := ps_closed p + of_nat n\<rparr>)"
  using assms
proof (induction ls arbitrary: w)
  case Nil
  then show ?case by simp
next
  case (Cons l ls)
  let ?w1 = "upd_pooled (cl_ps l) (\<lambda>p. p\<lparr>ps_active := ps_active p - 1, ps_closed := ps_closed p + 1\<rparr>) w"
  show ?case using Cons.IH [of ?w1] Cons.prems by (auto simp: Let_def algebra_simps)
qed

section \<open>Properties\<close>

text \<open>Connections are spread evenly: as long as the 64-bit counter does not wrap, any \<open>n\<close>
  consecutive picks from a pool of \<open>n\<close> sessions take every session exactly once, whatever the
  counter was before.\<close>

theorem round_robin_fair:
  assumes "pool_wf w" and "n = length (sp_sessions (pw_pool w))" and "0 < n"
    and "unat (sp_counter (pw_pool w)) + n < 2 ^ 64"
  shows "mset (pick_many n w) = mset (map Some (sp_sessions (pw_pool w))) \<and> distinct (pick_many n w)"
proof -
  let ?ss = "sp_sessions (pw_pool w)" and ?c = "unat (sp_counter (pw_pool w))"
  have p: "pick_many n w = map (\<lambda>j. Some (?ss ! ((?c + j) mod n))) [0..<n]"
    using assms by (intro pick_many_nth) auto
  have perm: "mset (map (\<lambda>j. (?c + j) mod n) [0..<n]) = mset [0..<n]"
  proof -
    have "?c = n * (?c div n) + ?c mod n" by simp
    then have "n - ?c mod n + ?c = n * Suc (?c div n)"
      unfolding mult_Suc_right using mod_less_divisor [OF assms(3), of ?c] by linarith
    then have shift: "(n - ?c mod n + (?c + j)) mod n = j mod n" for j
      by (metis add.assoc mod_mult_self4 mult.commute)
    have inj: "inj_on (\<lambda>j. (?c + j) mod n) {0..<n}"
    proof (rule inj_onI)
      fix i j
      assume ij: "i \<in> {0..<n}" "j \<in> {0..<n}" "(?c + i) mod n = (?c + j) mod n"
      have "i mod n = (n - ?c mod n + (?c + i) mod n) mod n" by (simp add: shift mod_add_right_eq)
      also have "\<dots> = j mod n" by (simp add: ij(3) shift mod_add_right_eq)
      finally show "i = j" using ij by simp
    qed
    moreover have "(\<lambda>j. (?c + j) mod n) ` {0..<n} \<subseteq> {0..<n}" using assms(3) by auto
    ultimately have "(\<lambda>j. (?c + j) mod n) ` {0..<n} = {0..<n}" by (intro endo_inj_surj) auto
    then have "set (map (\<lambda>j. (?c + j) mod n) [0..<n]) = set [0..<n]" by simp
    moreover have "distinct (map (\<lambda>j. (?c + j) mod n) [0..<n])" using inj by (simp add: distinct_map)
    ultimately show ?thesis using set_eq_iff_mset_eq_distinct distinct_upt by blast
  qed
  have "pick_many n w = map (\<lambda>i. Some (?ss ! i)) (map (\<lambda>j. (?c + j) mod n) [0..<n])"
    by (simp add: p)
  then have "mset (pick_many n w) = image_mset (\<lambda>i. Some (?ss ! i)) (mset [0..<n])"
    using perm by (simp only: mset_map)
  also have "\<dots> = mset (map Some (map ((!) ?ss) [0..<n]))" by (simp add: multiset.map_comp o_def)
  also have "map ((!) ?ss) [0..<n] = ?ss" using assms(2) by (simp add: map_nth)
  finally have m: "mset (pick_many n w) = mset (map Some ?ss)" .
  moreover have "distinct (map Some ?ss)" using assms(1) by (simp add: pool_wf_def distinct_map)
  ultimately show ?thesis using mset_eq_imp_distinct_iff by blast
qed

definition sample_pool :: pool_world where
  "sample_pool = fst (pool_add 2 (fst (pool_add 1 (fst (pool_add 0
     \<lparr>pw_sessions = [], pw_pool = \<lparr>sp_sessions = [], sp_counter = 7, sp_connCounter = 0\<rparr>\<rparr>)))))"

theorem round_robin_fair_witness: "distinct (pick_many 3 sample_pool)"
proof -
  have "sp_sessions (pw_pool sample_pool) = [0, 1, 2]" "sp_counter (pw_pool sample_pool) = 7"
    "length (pw_sessions sample_pool) = 3" by code_simp+
  then show ?thesis using round_robin_fair [of sample_pool 3] by (auto simp: pool_wf_def)
qed

text \<open>The identifiers of bonded connections do not collide: two connections of a client that were
  opened within \<open>2 ^ 48\<close> nanoseconds (78 hours) of each other, among its first \<open>2 ^ 16\<close>
  connections, have different identifiers.\<close>

theorem bond_ids_unique:
  assumes "unat c < 2 ^ 16" and "unat d < 2 ^ 16" and "unat s div 2 ^ 48 = unat t div 2 ^ 48"
  shows "bond_connID s c = bond_connID t d \<longleftrightarrow> s = t \<and> c = d"
proof
  assume eq: "bond_connID s c = bond_connID t d"
  have low: "bit (bond_connID s c) k \<longleftrightarrow> bit c k" if "k < 16" for s c :: u64 and k
    using that by (auto simp: bond_connID_def bit_simps)
  have high: "bit (bond_connID s c) (k + 16) \<longleftrightarrow> bit s k" if "unat c < 2 ^ 16" "k < 48" for s c :: u64 and k
    using that bit_small [of c 16 "k + 16"] by (auto simp: bond_connID_def bit_simps)
  have "bit c k \<longleftrightarrow> bit d k" for k
    using low [of k s c] low [of k t d] eq bit_small [OF assms(1), of k] bit_small [OF assms(2), of k]
    by (cases "k < 16") auto
  then have c: "c = d" by (simp add: bit_eq_iff)
  have "unat (drop_bit 48 x) = unat x div 2 ^ 48" for x :: u64
    by (simp add: drop_bit_eq_div unat_div)
  then have top: "drop_bit 48 s = drop_bit 48 t"
    using assms(3) by (simp only: word_unat_eq_iff)
  have "bit s k \<longleftrightarrow> bit t k" for k
  proof (cases "k < 48")
    case True
    then show ?thesis using high [OF assms(1) True, of s] high [OF assms(2) True, of t] eq by simp
  next
    case False
    then show ?thesis using arg_cong [OF top, of "\<lambda>x. bit x (k - 48)"] by (simp add: bit_simps)
  qed
  then show "s = t \<and> c = d" using c by (simp add: bit_eq_iff)
qed simp

theorem bond_ids_unique_witness: "bond_connID 1000 1 \<noteq> bond_connID 2000 2"
  using bond_ids_unique [of 1 2 1000 2000] by simp

text \<open>A bonded connection leaves the gauges of the pooled sessions balanced: however many of its
  lanes could be opened, after it ended every session has as many active lanes as before, and as
  many more closed lanes as opened ones.\<close>

theorem lane_gauges_balanced:
  assumes "open_lanes connID n 0 candidates w = (w1, lanes)" and "k < length (pw_sessions w)"
  shows "let p = pw_sessions w ! k; q = pw_sessions (close_lanes lanes w1) ! k in
    ps_active q = ps_active p \<and> ps_closed q - ps_closed p = ps_opened q - ps_opened p
    \<and> ps_opened q = ps_opened p + of_nat (length (filter (\<lambda>l. cl_ps l = k) lanes))"
  using open_lanes_counts [OF assms] close_lanes_counts [of k w1 lanes] assms(2)
  by (simp add: Let_def)

theorem lane_gauges_balanced_witness:
  "ps_active (pw_sessions (close_lanes (snd (open_lanes 5 2 0 [(0, Some \<lparr>cn_sent = [], cn_script = []\<rparr>), (1, None)] sample_pool))
     (fst (open_lanes 5 2 0 [(0, Some \<lparr>cn_sent = [], cn_script = []\<rparr>), (1, None)] sample_pool))) ! 0) = 0"
proof -
  have "length (pw_sessions sample_pool) = 3" "ps_active (pw_sessions sample_pool ! 0) = 0" by code_simp+
  then show ?thesis
    using lane_gauges_balanced [of 5 2 "[(0, Some \<lparr>cn_sent = [], cn_script = []\<rparr>), (1, None)]" sample_pool
        "fst (open_lanes 5 2 0 [(0, Some \<lparr>cn_sent = [], cn_script = []\<rparr>), (1, None)] sample_pool)"
        "snd (open_lanes 5 2 0 [(0, Some \<lparr>cn_sent = [], cn_script = []\<rparr>), (1, None)] sample_pool)" 0]
    by (simp add: Let_def)
qed

end
