(* ===== verification/Bond_Server.thy ===== *)
theory Bond_Server
  imports Bond_Reassembly Server_Metrics
begin

text \<open>
  The server's side of bonded VLESS connections (\<open>server/main.go\<close>): the registry of connections by
  id, the lanes of a connection with a reader goroutine each, the goroutine that waits for the
  first lanes and dials the backend, and the two copy loops. Connections and lanes are shared
  objects in a store, named by references (indices). A label names the next atomic action of one
  goroutine and carries what the environment decides in it.
\<close>

section \<open>State\<close>

record bondServerLane =
  sl_index :: u16
  sl_stream :: conn
  sl_input :: reader
  sl_conn :: nat
  sl_reading :: bool

text \<open>Where \<open>run\<close> is: not started, at the check of the lane count, in the select after it, before the
  dial, copying, ended. Where \<open>copyBackendToBond\<close> is: before the read, before a snapshot of the
  lanes, before an attempt (with the attempts left), in the pause, after the write, writing the
  FIN frames, ended.\<close>

datatype run_pc = RunIdle | RunCheck | RunSelect | RunDial | RunCopy | RunEnded

datatype down_pc =
    DownRead
  | DownSnapshot bytes "io_error option"
  | DownTry bytes "io_error option" "nat list" nat
  | DownPause bytes "io_error option"
  | DownAfter "io_error option"
  | DownFin "nat list"
  | DownEnded

record bondServerConn =
  sc_id :: u64
  sc_cancelled :: bool
  sc_done :: bool
  sc_lanes :: "nat list"
  sc_want :: u16
  sc_ready :: bool
  sc_recvCh :: "bondFrame list"
  sc_run :: run_pc
  sc_up :: reassembly
  sc_upRunning :: bool
  sc_down :: down_pc
  sc_seq :: u64
  sc_laneIdx :: u64

record bond_world =
  bw_conns :: "bondServerConn list"
  bw_lanes :: "bondServerLane list"
  bw_registry :: "u64 \<rightharpoonup> nat"
  bw_attaching :: "(nat \<times> bondServerLane \<times> u16) list"
  bw_ctx_done :: bool
  bw_metrics :: serverMetrics

definition bond_start :: bond_world where
  "bond_start = \<lparr>bw_conns = [], bw_lanes = [], bw_registry = Map.empty, bw_attaching = [],
     bw_ctx_done = False, bw_metrics = newServerMetrics\<rparr>"

definition bondRecvCap :: nat where "bondRecvCap = 1024"

definition upd_conn :: "nat \<Rightarrow> (bondServerConn \<Rightarrow> bondServerConn) \<Rightarrow> bond_world \<Rightarrow> bond_world" where
  "upd_conn c f w = w\<lparr>bw_conns := (bw_conns w)[c := f (bw_conns w ! c)]\<rparr>"

definition upd_blane :: "nat \<Rightarrow> (bondServerLane \<Rightarrow> bondServerLane) \<Rightarrow> bond_world \<Rightarrow> bond_world" where
  "upd_blane l f w = w\<lparr>bw_lanes := (bw_lanes w)[l := f (bw_lanes w ! l)]\<rparr>"

definition conn_ctx_err :: "bond_world \<Rightarrow> nat \<Rightarrow> bool" where
  "conn_ctx_err w c \<longleftrightarrow> bw_ctx_done w \<or> sc_cancelled (bw_conns w ! c)"

definition bond_cancel :: "nat \<Rightarrow> bond_world \<Rightarrow> bond_world" where
  "bond_cancel c w = upd_conn c (\<lambda>s. s\<lparr>sc_cancelled := True\<rparr>) w"

section \<open>The registry\<close>

definition new_bond_conn :: "u64 \<Rightarrow> bondServerConn" where
  "new_bond_conn cid =
     \<lparr>sc_id = cid, sc_cancelled = False, sc_done = False, sc_lanes = [], sc_want = 0, sc_ready = False,
      sc_recvCh = [], sc_run = RunIdle, sc_up = reassembly_start \<lparr>cn_sent = [], cn_script = []\<rparr>,
      sc_upRunning = False, sc_down = DownEnded, sc_seq = 0, sc_laneIdx = 0\<rparr>"

definition bond_get :: "u64 \<Rightarrow> bond_world \<Rightarrow> bond_world \<times> nat" where
  "bond_get cid w =
     (case bw_registry w cid of
        Some c \<Rightarrow> (w, c)
      | None \<Rightarrow> (let c = length (bw_conns w)
                 in (w\<lparr>bw_conns := bw_conns w @ [new_bond_conn cid],
                       bw_registry := (bw_registry w)(cid \<mapsto> c)\<rparr>, c)))"

text \<open>The goroutine that \<open>get\<close> starts, once the connection is done.\<close>

definition bond_unregister :: "u64 \<Rightarrow> nat \<Rightarrow> (u64 \<rightharpoonup> nat) \<Rightarrow> (u64 \<rightharpoonup> nat)" where
  "bond_unregister cid c m = (if m cid = Some c then m(cid := None) else m)"

interpretation bond_registry: identity_registry
  "\<lambda>m k. m k" "\<lambda>k v m. m(k \<mapsto> v)" "bond_unregister :: u64 \<Rightarrow> nat \<Rightarrow> _"
  by unfold_locales (auto simp: bond_unregister_def)

record bondRegistryStats =
  brs_sessions :: nat
  brs_lanes :: nat
  brs_queued :: nat

definition bond_stats :: "nat list \<Rightarrow> bond_world \<Rightarrow> bondRegistryStats" where
  "bond_stats refs w =
     foldl (\<lambda>st c. st\<lparr>brs_lanes := brs_lanes st + length (sc_lanes (bw_conns w ! c)),
                     brs_queued := brs_queued st + length (sc_recvCh (bw_conns w ! c))\<rparr>)
           \<lparr>brs_sessions = length refs, brs_lanes = 0, brs_queued = 0\<rparr> refs"

section \<open>Lanes\<close>

text \<open>\<open>addLane\<close>: the token in \<open>ready\<close> is sent without blocking, and the first lane starts \<open>run\<close>.\<close>

definition bond_addLane :: "nat \<Rightarrow> bondServerLane \<Rightarrow> u16 \<Rightarrow> bond_world \<Rightarrow> bond_world" where
  "bond_addLane c lane laneCount w =
     (let l = length (bw_lanes w) in
      upd_conn c (\<lambda>s. s\<lparr>sc_want := (if sc_want s < laneCount then laneCount else sc_want s),
                       sc_lanes := sc_lanes s @ [l], sc_ready := True,
                       sc_run := (if sc_run s = RunIdle then RunCheck else sc_run s)\<rparr>)
        (w\<lparr>bw_lanes := bw_lanes w @ [lane\<lparr>sl_conn := c, sl_reading := True\<rparr>]\<rparr>))"

definition bond_removeLane :: "nat \<Rightarrow> nat \<Rightarrow> bond_world \<Rightarrow> bond_world \<times> nat" where
  "bond_removeLane c l w =
     (let w1 = upd_conn c (\<lambda>s. s\<lparr>sc_lanes := remove1 l (sc_lanes s)\<rparr>) w
      in (w1, length (sc_lanes (bw_conns w1 ! c))))"

text \<open>\<open>handleBondServerStreamWithHello\<close> up to the attachment of the lane.\<close>

definition bond_open :: "conn \<Rightarrow> reader \<Rightarrow> bytes \<Rightarrow> bond_world \<Rightarrow> bond_world" where
  "bond_open stream inp magic w =
     (case readBondHelloAfterMagic inp magic of
        (Inl e, _) \<Rightarrow> w
      | (Inr hello, rest) \<Rightarrow>
          (let (w1, c) = bond_get (bh_connID hello) w;
               lane = \<lparr>sl_index = bh_laneIndex hello, sl_stream = stream, sl_input = rest,
                       sl_conn = c, sl_reading = False\<rparr>
           in w1\<lparr>bw_attaching := bw_attaching w1 @ [(c, lane, bh_laneCount hello)]\<rparr>))"

definition bond_attach :: "nat \<Rightarrow> bond_world \<Rightarrow> bond_world option" where
  "bond_attach i w =
     (if i < length (bw_attaching w)
      then (let (c, lane, laneCount) = bw_attaching w ! i
            in Some (bond_addLane c lane laneCount
                 (w\<lparr>bw_attaching := take i (bw_attaching w) @ drop (Suc i) (bw_attaching w)\<rparr>)))
      else None)"

text \<open>One turn of \<open>readLane\<close>; \<open>leave\<close> takes the branch \<open>ctx.Done\<close> of the select.\<close>

definition readLane_turn :: "nat \<Rightarrow> bool \<Rightarrow> bond_world \<Rightarrow> bond_world option" where
  "readLane_turn l leave w =
     (let c = sl_conn (bw_lanes w ! l) in
      if \<not> sl_reading (bw_lanes w ! l) then None
      else case readBondFrame (sl_input (bw_lanes w ! l)) of
        (Inl e, rest) \<Rightarrow>
          (let w1 = upd_blane l (\<lambda>x. x\<lparr>sl_input := rest, sl_reading := False\<rparr>) w;
               (w2, left) = bond_removeLane c l w1
           in Some (if conn_ctx_err w2 c then w2 else if left = 0 then bond_cancel c w2 else w2))
      | (Inr f, rest) \<Rightarrow>
          (if leave
           then (if conn_ctx_err w c
                 then Some (upd_blane l (\<lambda>x. x\<lparr>sl_input := rest, sl_reading := False\<rparr>) w) else None)
           else (case try_send bondRecvCap (sc_recvCh (bw_conns w ! c)) f of
                   None \<Rightarrow> None
                 | Some q \<Rightarrow> Some (upd_conn c (\<lambda>s. s\<lparr>sc_recvCh := q\<rparr>)
                               (upd_blane l (\<lambda>x. x\<lparr>sl_input := rest\<rparr>) w)))))"

section \<open>Running a connection\<close>

datatype wait_cause = WaitReady | WaitTimer | WaitCtx

text \<open>\<open>waitForInitialLanes\<close>: the check, then the select.\<close>

definition wait_check :: "nat \<Rightarrow> bond_world \<Rightarrow> bond_world" where
  "wait_check c w =
     upd_conn c (\<lambda>s. s\<lparr>sc_run := (if unat (sc_want s) \<le> 0 \<or> unat (sc_want s) \<le> length (sc_lanes s)
                                 then RunDial else RunSelect)\<rparr>) w"

definition wait_select :: "nat \<Rightarrow> wait_cause \<Rightarrow> bond_world \<Rightarrow> bond_world option" where
  "wait_select c cause w =
     (case cause of
        WaitReady \<Rightarrow> if sc_ready (bw_conns w ! c)
                     then Some (upd_conn c (\<lambda>s. s\<lparr>sc_ready := False, sc_run := RunCheck\<rparr>) w) else None
      | WaitTimer \<Rightarrow> Some (upd_conn c (\<lambda>s. s\<lparr>sc_run := RunDial\<rparr>) w)
      | WaitCtx \<Rightarrow> if conn_ctx_err w c then Some (upd_conn c (\<lambda>s. s\<lparr>sc_run := RunDial\<rparr>) w) else None)"

text \<open>The dial and the end of \<open>run\<close>: its deferred calls cancel the context and close \<open>done\<close>.\<close>

definition run_end :: "nat \<Rightarrow> bond_world \<Rightarrow> bond_world" where
  "run_end c w = upd_conn c (\<lambda>s. s\<lparr>sc_run := RunEnded, sc_cancelled := True, sc_done := True\<rparr>) w"

definition run_dial :: "nat \<Rightarrow> nat option list option \<Rightarrow> bond_world \<Rightarrow> bond_world" where
  "run_dial c dial w =
     (case dial of
        None \<Rightarrow> run_end c (w\<lparr>bw_metrics := recordBackendError ''dial'' (bw_metrics w)\<rparr>)
      | Some script \<Rightarrow>
          upd_conn c (\<lambda>s. s\<lparr>sc_run := RunCopy, sc_upRunning := True, sc_down := DownRead,
                           sc_up := reassembly_start \<lparr>cn_sent = [], cn_script = script\<rparr>\<rparr>) w)"

text \<open>One turn of \<open>copyBondToBackend\<close>: the head of the loop, then the select.\<close>

definition up_turn :: "nat \<Rightarrow> bool \<Rightarrow> bond_world \<Rightarrow> bond_world option" where
  "up_turn c leave w =
     (let s = bw_conns w ! c; up = check_fin (sc_up s) in
      if ra_status up \<noteq> Running then Some (upd_conn c (\<lambda>s. s\<lparr>sc_up := up, sc_upRunning := False\<rparr>) w)
      else if leave
      then (if conn_ctx_err w c then Some (upd_conn c (\<lambda>s. s\<lparr>sc_upRunning := False\<rparr>) w) else None)
      else (case sc_recvCh s of
              [] \<Rightarrow> None
            | f # rest \<Rightarrow>
                let up1 = take_frame f up in
                Some (upd_conn c (\<lambda>s. s\<lparr>sc_recvCh := rest, sc_up := up1,
                        sc_upRunning := (ra_status up1 = Running)\<rparr>) w)))"

text \<open>\<open>copyBackendToBond\<close> and, inside it, \<open>writeToNextLane\<close>; its end cancels the connection.\<close>

definition down_end :: "nat \<Rightarrow> bond_world \<Rightarrow> bond_world" where
  "down_end c w = upd_conn c (\<lambda>s. s\<lparr>sc_down := DownEnded, sc_cancelled := True\<rparr>) w"

definition down_read :: "nat \<Rightarrow> bytes \<Rightarrow> io_error option \<Rightarrow> bond_world \<Rightarrow> bond_world" where
  "down_read c p err w =
     (let payload = take bondMaxChunk p in
      if 0 < length payload then
        upd_conn c (\<lambda>s. s\<lparr>sc_down := DownSnapshot payload err\<rparr>)
          (w\<lparr>bw_metrics := (bw_metrics w)\<lparr>m_packetsFromBackend := m_packetsFromBackend (bw_metrics w) + 1\<rparr>\<rparr>)
      else upd_conn c (\<lambda>s. s\<lparr>sc_down := DownAfter err\<rparr>) w)"

definition down_try :: "nat \<Rightarrow> bytes \<Rightarrow> io_error option \<Rightarrow> nat list \<Rightarrow> nat \<Rightarrow> bond_world \<Rightarrow> bond_world" where
  "down_try c payload err lanes left w =
     (case left of
        0 \<Rightarrow> upd_conn c (\<lambda>s. s\<lparr>sc_down := DownPause payload err\<rparr>) w
      | Suc k \<Rightarrow>
          (let s = bw_conns w ! c;
               l = lanes ! unat (sc_laneIdx s mod of_nat (length lanes));
               w1 = upd_conn c (\<lambda>s. s\<lparr>sc_laneIdx := sc_laneIdx s + 1\<rparr>) w;
               (stream, e) = writeBondFrame (sl_stream (bw_lanes w1 ! l)) bondFrameData (sc_seq s) payload;
               w2 = upd_blane l (\<lambda>x. x\<lparr>sl_stream := stream\<rparr>) w1
           in case e of
                None \<Rightarrow> upd_conn c (\<lambda>s. s\<lparr>sc_seq := sc_seq s + 1, sc_down := DownAfter err\<rparr>) w2
              | Some _ \<Rightarrow>
                  (let (w3, remaining) = bond_removeLane c l w2
                   in if remaining = 0 then down_end c w3
                      else upd_conn c (\<lambda>s. s\<lparr>sc_down := DownTry payload err lanes k\<rparr>) w3)))"

definition down_after :: "nat \<Rightarrow> io_error option \<Rightarrow> bond_world \<Rightarrow> bond_world" where
  "down_after c err w =
     (case err of
        Some e \<Rightarrow>
          (let w1 = (if \<not> conn_ctx_err w c \<and> e \<noteq> EOF
                     then w\<lparr>bw_metrics := recordBackendError ''read'' (bw_metrics w)\<rparr> else w)
           in upd_conn c (\<lambda>s. s\<lparr>sc_down := DownFin (sc_lanes s)\<rparr>) w1)
      | None \<Rightarrow> if conn_ctx_err w c then down_end c w
                else upd_conn c (\<lambda>s. s\<lparr>sc_down := DownRead\<rparr>) w)"

definition down_fin :: "nat \<Rightarrow> nat list \<Rightarrow> bond_world \<Rightarrow> bond_world" where
  "down_fin c lanes w =
     (case lanes of
        [] \<Rightarrow> down_end c w
      | l # ls \<Rightarrow>
          upd_conn c (\<lambda>s. s\<lparr>sc_down := DownFin ls\<rparr>)
            (upd_blane l (\<lambda>x. x\<lparr>sl_stream :=
               fst (writeBondFrame (sl_stream x) bondFrameFIN (sc_seq (bw_conns w ! c)) [])\<rparr>) w))"

text \<open>\<open>inp\<close> is the result of \<open>backendConn.Read\<close>; \<open>leave\<close> takes the branch \<open>ctx.Done\<close> of the pause.\<close>

definition down_turn :: "nat \<Rightarrow> bytes \<times> io_error option \<Rightarrow> bool \<Rightarrow> bond_world \<Rightarrow> bond_world option" where
  "down_turn c inp leave w =
     (case sc_down (bw_conns w ! c) of
        DownRead \<Rightarrow> Some (down_read c (fst inp) (snd inp) w)
      | DownSnapshot payload err \<Rightarrow>
          Some (upd_conn c (\<lambda>s. s\<lparr>sc_down := DownTry payload err (sc_lanes s) (length (sc_lanes s))\<rparr>) w)
      | DownTry payload err lanes left \<Rightarrow> Some (down_try c payload err lanes left w)
      | DownPause payload err \<Rightarrow>
          if leave then (if conn_ctx_err w c then Some (down_end c w) else None)
          else Some (upd_conn c (\<lambda>s. s\<lparr>sc_down := DownSnapshot payload err\<rparr>) w)
      | DownAfter err \<Rightarrow> Some (down_after c err w)
      | DownFin lanes \<Rightarrow> Some (down_fin c lanes w)
      | DownEnded \<Rightarrow> None)"

section \<open>Steps\<close>

datatype bond_label =
    B_ctx_cancel
  | B_open conn reader
  | B_attach nat
  | B_break nat
  | B_read nat bool
  | B_check nat
  | B_wait nat wait_cause
  | B_dial nat "nat option list option"
  | B_up nat bool
  | B_down nat "bytes \<times> io_error option" bool
  | B_finish nat
  | B_unregister nat

text \<open>\<open>B_break\<close> is the end of a lane's input: the peer or the network cuts the stream, its handler
  closes it, or the deadline set after the cancellation strikes.\<close>

definition bond_step :: "bond_label \<Rightarrow> bond_world \<Rightarrow> bond_world option" where
  "bond_step lab w =
     (let at_run = (\<lambda>c pc. c < length (bw_conns w) \<and> sc_run (bw_conns w ! c) = pc) in
      case lab of
        B_ctx_cancel \<Rightarrow> Some (w\<lparr>bw_ctx_done := True\<rparr>)
      | B_open stream inp \<Rightarrow> Some (bond_open stream inp bondMagic w)
      | B_attach i \<Rightarrow> bond_attach i w
      | B_break l \<Rightarrow> if l < length (bw_lanes w)
                     then Some (upd_blane l (\<lambda>x. x\<lparr>sl_input := \<lparr>rd_bytes = [], rd_end = ErrIO ''closed''\<rparr>\<rparr>) w)
                     else None
      | B_read l leave \<Rightarrow> if l < length (bw_lanes w) then readLane_turn l leave w else None
      | B_check c \<Rightarrow> if at_run c RunCheck then Some (wait_check c w) else None
      | B_wait c cause \<Rightarrow> if at_run c RunSelect then wait_select c cause w else None
      | B_dial c dial \<Rightarrow> if at_run c RunDial then Some (run_dial c dial w) else None
      | B_up c leave \<Rightarrow> if at_run c RunCopy \<and> sc_upRunning (bw_conns w ! c) then up_turn c leave w else None
      | B_down c inp leave \<Rightarrow> if at_run c RunCopy then down_turn c inp leave w else None
      | B_finish c \<Rightarrow> if at_run c RunCopy \<and> \<not> sc_upRunning (bw_conns w ! c) \<and> sc_down (bw_conns w ! c) = DownEnded
                      then Some (run_end c w) else None
      | B_unregister c \<Rightarrow>
          if c < length (bw_conns w) \<and> sc_done (bw_conns w ! c)
          then Some (w\<lparr>bw_registry := bond_unregister (sc_id (bw_conns w ! c)) c (bw_registry w)\<rparr>)
          else None)"

end
