(* ===== verification/Bond_Server_Safety.thy ===== *)
theory Bond_Server_Safety
  imports Bond_Server
begin

text \<open>
  What holds of the bonded connections of the server in every interleaving of their goroutines: the
  registry knows every connection that is not done, a connection that lost its lanes is cancelled,
  the wait for the first lanes misses no wakeup, and the backend only ever sees a prefix of the
  stream whose frames the lanes carry.
\<close>

section \<open>Fields\<close>

lemma upd_conn_simps [simp]:
  "bw_lanes (upd_conn c f w) = bw_lanes w"
  "bw_registry (upd_conn c f w) = bw_registry w"
  "bw_attaching (upd_conn c f w) = bw_attaching w"
  "bw_ctx_done (upd_conn c f w) = bw_ctx_done w"
  "bw_metrics (upd_conn c f w) = bw_metrics w"
  "length (bw_conns (upd_conn c f w)) = length (bw_conns w)"
  "c' < length (bw_conns w) \<Longrightarrow>
     bw_conns (upd_conn c f w) ! c' = (if c' = c then f (bw_conns w ! c) else bw_conns w ! c')"
  by (simp_all add: upd_conn_def nth_list_update)

lemma upd_blane_simps [simp]:
  "bw_conns (upd_blane l g w) = bw_conns w"
  "bw_registry (upd_blane l g w) = bw_registry w"
  "bw_attaching (upd_blane l g w) = bw_attaching w"
  "bw_ctx_done (upd_blane l g w) = bw_ctx_done w"
  "bw_metrics (upd_blane l g w) = bw_metrics w"
  "length (bw_lanes (upd_blane l g w)) = length (bw_lanes w)"
  "l' < length (bw_lanes w) \<Longrightarrow>
     bw_lanes (upd_blane l g w) ! l' = (if l' = l then g (bw_lanes w ! l) else bw_lanes w ! l')"
  by (simp_all add: upd_blane_def nth_list_update)

section \<open>What a lane carries\<close>

text \<open>A lane's input is a sequence of frames of the stream, and possibly an incomplete one.\<close>

definition lane_src :: "bytes list \<Rightarrow> reader \<Rightarrow> bool" where
  "lane_src chunks r \<longleftrightarrow>
     (\<exists>fs torn. rd_bytes r = concat (map encode_frame fs) @ torn
        \<and> list_all (\<lambda>f. genuine chunks f \<and> frame_ok f) fs
        \<and> (\<forall>r'. rd_bytes r' = torn \<longrightarrow> (\<exists>e r''. readBondFrame r' = (Inl e, r''))))"

lemma lane_src_empty: "rd_bytes r = [] \<Longrightarrow> lane_src chunks r"
  unfolding lane_src_def by (intro exI [of _ "[]"]) (simp add: readBondFrame_end)

lemma lane_src_read:
  assumes "lane_src chunks r" and "readBondFrame r = (Inr f, r')"
  shows "genuine chunks f \<and> lane_src chunks r'"
proof -
  obtain fs torn where fs: "rd_bytes r = concat (map encode_frame fs) @ torn"
    "list_all (\<lambda>f. genuine chunks f \<and> frame_ok f) fs"
    "\<forall>r'. rd_bytes r' = torn \<longrightarrow> (\<exists>e r''. readBondFrame r' = (Inl e, r''))"
    using assms(1) by (auto simp: lane_src_def)
  show ?thesis
  proof (cases fs)
    case Nil
    then show ?thesis using fs(1,3) assms(2) by fastforce
  next
    case (Cons g gs)
    then have "readBondFrame r = (Inr g, r\<lparr>rd_bytes := concat (map encode_frame gs) @ torn\<rparr>)"
      using fs(1,2) by (intro readBondFrame_encode) auto
    then have "f = g" "r' = r\<lparr>rd_bytes := concat (map encode_frame gs) @ torn\<rparr>" using assms(2) by auto
    then show ?thesis using fs Cons by (auto simp: lane_src_def)
  qed
qed

section \<open>Invariant\<close>

type_synonym streams = "u64 \<Rightarrow> bytes list"

definition up_safe :: "bytes list \<Rightarrow> reassembly \<Rightarrow> bool" where
  "up_safe chunks up \<longleftrightarrow>
     (\<exists>m. cn_sent (ra_conn up) = take m (concat chunks))
     \<and> (ra_writeClosed up \<longrightarrow> cn_sent (ra_conn up) = concat chunks)"

definition up_live :: "bytes list \<Rightarrow> reassembly \<Rightarrow> bool" where
  "up_live chunks up \<longleftrightarrow>
     \<not> ra_writeClosed up
     \<and> (\<exists>R k. ra_at chunks [] R k up \<and> map_of (ra_pending up) (of_nat k) = None)"

definition conn_rec_ok :: "streams \<Rightarrow> bool \<Rightarrow> bondServerConn \<Rightarrow> bool" where
  "conn_rec_ok src ctx s \<longleftrightarrow>
     list_all (genuine (src (sc_id s))) (sc_recvCh s)
     \<and> up_safe (src (sc_id s)) (sc_up s)
     \<and> (sc_upRunning s \<longrightarrow> up_live (src (sc_id s)) (sc_up s))
     \<and> (sc_done s \<longleftrightarrow> sc_run s = RunEnded)
     \<and> (sc_done s \<longrightarrow> sc_cancelled s \<and> \<not> sc_upRunning s \<and> sc_down s = DownEnded)
     \<and> (sc_run s = RunSelect \<and> unat (sc_want s) \<le> length (sc_lanes s) \<longrightarrow> sc_ready s)
     \<and> (sc_run s \<noteq> RunIdle \<and> sc_lanes s = [] \<longrightarrow> ctx \<or> sc_cancelled s)
     \<and> (sc_run s \<noteq> RunCopy \<longrightarrow> \<not> sc_upRunning s \<and> sc_down s = DownEnded)"

definition lane_rec_ok :: "streams \<Rightarrow> bond_world \<Rightarrow> bondServerLane \<Rightarrow> bool" where
  "lane_rec_ok src w lane \<longleftrightarrow>
     sl_conn lane < length (bw_conns w)
     \<and> (sl_reading lane \<longrightarrow> lane_src (src (sc_id (bw_conns w ! sl_conn lane))) (sl_input lane))"

definition attach_ok :: "streams \<Rightarrow> bond_world \<Rightarrow> nat \<times> bondServerLane \<times> u16 \<Rightarrow> bool" where
  "attach_ok src w = (\<lambda>(c, lane, _). c < length (bw_conns w)
     \<and> lane_src (src (sc_id (bw_conns w ! c))) (sl_input lane))"

definition breg_ok :: "bond_world \<Rightarrow> bool" where
  "breg_ok w \<longleftrightarrow>
     (\<forall>k c. bw_registry w k = Some c \<longrightarrow> c < length (bw_conns w) \<and> sc_id (bw_conns w ! c) = k)
     \<and> (\<forall>c < length (bw_conns w). \<not> sc_done (bw_conns w ! c) \<longrightarrow> bw_registry w (sc_id (bw_conns w ! c)) = Some c)"

definition bond_inv :: "streams \<Rightarrow> bond_world \<Rightarrow> bool" where
  "bond_inv src w \<longleftrightarrow>
     breg_ok w
     \<and> (\<forall>c < length (bw_conns w). conn_rec_ok src (bw_ctx_done w) (bw_conns w ! c))
     \<and> (\<forall>l < length (bw_lanes w). lane_rec_ok src w (bw_lanes w ! l))
     \<and> (\<forall>a \<in> set (bw_attaching w). attach_ok src w a)"

text \<open>What the peers send: a stream opened for a connection carries frames of that connection.\<close>

definition label_ok :: "streams \<Rightarrow> bond_label \<Rightarrow> bool" where
  "label_ok src lab \<longleftrightarrow>
     (case lab of
        B_open stream inp \<Rightarrow>
          (case readBondHelloAfterMagic inp bondMagic of
             (Inr hello, rest) \<Rightarrow> lane_src (src (bh_connID hello)) rest
           | _ \<Rightarrow> True)
      | _ \<Rightarrow> True)"

definition bond_next :: "streams \<Rightarrow> bond_world \<Rightarrow> bond_world \<Rightarrow> bool" where
  "bond_next src w w' \<longleftrightarrow>
     (\<forall>cid. length (src cid) < 2 ^ 64) \<and> (\<exists>lab. label_ok src lab \<and> bond_step lab w = Some w')"

lemma bond_inv_start: "bond_inv src bond_start"
  by (simp add: bond_inv_def bond_start_def breg_ok_def)

section \<open>Preservation\<close>

lemma inv_upd_conn:
  assumes inv: "bond_inv src w" and c: "c < length (bw_conns w)"
    and "sc_id (f (bw_conns w ! c)) = sc_id (bw_conns w ! c)"
    and "sc_done (bw_conns w ! c) \<longrightarrow> sc_done (f (bw_conns w ! c))"
    and "conn_rec_ok src (bw_ctx_done w) (f (bw_conns w ! c))"
  shows "bond_inv src (upd_conn c f w)"
proof -
  have ids: "sc_id (bw_conns (upd_conn c f w) ! k) = sc_id (bw_conns w ! k)" if "k < length (bw_conns w)" for k
    using that assms(3) by simp
  have "breg_ok (upd_conn c f w)"
    using inv assms(3,4) unfolding bond_inv_def breg_ok_def by (auto simp: ids)
  moreover have "lane_rec_ok src (upd_conn c f w) x" if "lane_rec_ok src w x" for x
    using that ids by (simp add: lane_rec_ok_def)
  moreover have "attach_ok src (upd_conn c f w) a" if "attach_ok src w a" for a
    using that ids by (auto simp: attach_ok_def)
  moreover have "conn_rec_ok src (bw_ctx_done w) (bw_conns (upd_conn c f w) ! k)"
    if "k < length (bw_conns w)" for k
    using that inv assms(5) by (simp add: bond_inv_def)
  ultimately show ?thesis using inv by (simp add: bond_inv_def)
qed

lemma inv_upd_blane:
  assumes inv: "bond_inv src w"
    and "l < length (bw_lanes w) \<Longrightarrow> lane_rec_ok src w (g (bw_lanes w ! l))"
  shows "bond_inv src (upd_blane l g w)"
proof -
  have "lane_rec_ok src (upd_blane l g w) x \<longleftrightarrow> lane_rec_ok src w x" for x
    by (simp add: lane_rec_ok_def)
  moreover have "attach_ok src (upd_blane l g w) a \<longleftrightarrow> attach_ok src w a" for a
    by (simp add: attach_ok_def)
  moreover have "breg_ok (upd_blane l g w) \<longleftrightarrow> breg_ok w" by (simp add: breg_ok_def)
  ultimately show ?thesis using assms by (simp add: bond_inv_def)
qed

lemma inv_metrics [simp]: "bond_inv src (w\<lparr>bw_metrics := m\<rparr>) \<longleftrightarrow> bond_inv src w"
  by (simp add: bond_inv_def breg_ok_def lane_rec_ok_def attach_ok_def case_prod_unfold)

lemma inv_conn: "bond_inv src w \<Longrightarrow> c < length (bw_conns w) \<Longrightarrow> conn_rec_ok src (bw_ctx_done w) (bw_conns w ! c)"
  by (simp add: bond_inv_def)

lemma inv_cancel: "bond_inv src w \<Longrightarrow> c < length (bw_conns w) \<Longrightarrow> bond_inv src (bond_cancel c w)"
  unfolding bond_cancel_def by (rule inv_upd_conn) (auto dest: inv_conn simp: conn_rec_ok_def)

lemma conn_rec_remove:
  assumes "conn_rec_ok src ctx s"
  shows "remove1 l (sc_lanes s) \<noteq> [] \<or> ctx \<or> sc_cancelled s
      \<Longrightarrow> conn_rec_ok src ctx (s\<lparr>sc_lanes := remove1 l (sc_lanes s)\<rparr>)"
    and "conn_rec_ok src ctx (s\<lparr>sc_lanes := remove1 l (sc_lanes s), sc_cancelled := True\<rparr>)"
    and "conn_rec_ok src ctx (s\<lparr>sc_lanes := remove1 l (sc_lanes s), sc_down := DownEnded, sc_cancelled := True\<rparr>)"
proof -
  have "length (remove1 l (sc_lanes s)) \<le> length (sc_lanes s)" by (simp add: length_remove1)
  then have len: "unat (sc_want s) \<le> length (remove1 l (sc_lanes s)) \<Longrightarrow> unat (sc_want s) \<le> length (sc_lanes s)"
    by linarith
  show "remove1 l (sc_lanes s) \<noteq> [] \<or> ctx \<or> sc_cancelled s
      \<Longrightarrow> conn_rec_ok src ctx (s\<lparr>sc_lanes := remove1 l (sc_lanes s)\<rparr>)"
    "conn_rec_ok src ctx (s\<lparr>sc_lanes := remove1 l (sc_lanes s), sc_cancelled := True\<rparr>)"
    "conn_rec_ok src ctx (s\<lparr>sc_lanes := remove1 l (sc_lanes s), sc_down := DownEnded, sc_cancelled := True\<rparr>)"
    using assms len by (simp_all add: conn_rec_ok_def)
qed

text \<open>Removing a lane keeps the invariant unless the last one goes without a cancellation.\<close>

lemma inv_removeLane:
  assumes "bond_inv src w" and "c < length (bw_conns w)" and "bond_removeLane c l w = (w1, left)"
  shows "(left \<noteq> 0 \<or> conn_ctx_err w1 c \<longrightarrow> bond_inv src w1)
    \<and> bond_inv src (bond_cancel c w1) \<and> bond_inv src (down_end c w1)"
proof -
  let ?f = "\<lambda>s. s\<lparr>sc_lanes := remove1 l (sc_lanes s)\<rparr>"
  have w1: "w1 = upd_conn c ?f w" "left = length (remove1 l (sc_lanes (bw_conns w ! c)))"
    using assms(2,3) by (auto simp: bond_removeLane_def)
  note ok = conn_rec_remove [OF inv_conn [OF assms(1,2)]]
  have "bond_inv src w1" if "left \<noteq> 0 \<or> conn_ctx_err w1 c"
  proof -
    have "remove1 l (sc_lanes (bw_conns w ! c)) \<noteq> [] \<or> bw_ctx_done w \<or> sc_cancelled (bw_conns w ! c)"
      using that assms(2) by (auto simp: w1 conn_ctx_err_def)
    then show ?thesis unfolding w1(1) using ok(1) assms(1,2) by (intro inv_upd_conn) simp_all
  qed
  moreover have "bond_cancel c w1 = upd_conn c (\<lambda>s. ?f s\<lparr>sc_cancelled := True\<rparr>) w"
    "down_end c w1 = upd_conn c (\<lambda>s. ?f s\<lparr>sc_down := DownEnded, sc_cancelled := True\<rparr>) w"
    unfolding w1 by (simp_all add: bond_cancel_def down_end_def upd_conn_def assms(2))
  moreover have "bond_inv src (upd_conn c (\<lambda>s. ?f s\<lparr>sc_cancelled := True\<rparr>) w)"
    "bond_inv src (upd_conn c (\<lambda>s. ?f s\<lparr>sc_down := DownEnded, sc_cancelled := True\<rparr>) w)"
    using ok(2,3) assms(1,2) by (auto intro!: inv_upd_conn)
  ultimately show ?thesis by simp
qed

lemma removeLane_len: "bond_removeLane c l w = (w1, left) \<Longrightarrow> length (bw_conns w1) = length (bw_conns w)
    \<and> bw_ctx_done w1 = bw_ctx_done w"
  by (auto simp: bond_removeLane_def Let_def)

section \<open>The steps\<close>

lemma inv_ctx_done: "bond_inv src w \<Longrightarrow> bond_inv src (w\<lparr>bw_ctx_done := True\<rparr>)"
  by (simp add: bond_inv_def breg_ok_def lane_rec_ok_def attach_ok_def case_prod_unfold conn_rec_ok_def)

lemma inv_get:
  assumes "bond_inv src w" and "bond_get cid w = (w', c)"
  shows "bond_inv src w' \<and> c < length (bw_conns w') \<and> sc_id (bw_conns w' ! c) = cid"
proof (cases "bw_registry w cid")
  case (Some c')
  then show ?thesis using assms by (auto simp: bond_get_def bond_inv_def breg_ok_def)
next
  case None
  then have w': "w' = w\<lparr>bw_conns := bw_conns w @ [new_bond_conn cid],
      bw_registry := (bw_registry w)(cid \<mapsto> length (bw_conns w))\<rparr>" "c = length (bw_conns w)"
    using assms(2) by (auto simp: bond_get_def Let_def)
  have new: "conn_rec_ok src ctx (new_bond_conn cid)" for ctx
    by (simp add: conn_rec_ok_def new_bond_conn_def up_safe_def reassembly_start_def)
  have "breg_ok w" using assms(1) by (simp add: bond_inv_def)
  have "breg_ok w'" unfolding breg_ok_def
  proof (intro conjI allI impI)
    fix k d
    assume "bw_registry w' k = Some d"
    then show "d < length (bw_conns w')" "sc_id (bw_conns w' ! d) = k"
      using \<open>breg_ok w\<close> by (auto simp: breg_ok_def w' nth_append new_bond_conn_def less_SucI split: if_splits)
  next
    fix d
    assume d: "d < length (bw_conns w')" "\<not> sc_done (bw_conns w' ! d)"
    show "bw_registry w' (sc_id (bw_conns w' ! d)) = Some d"
    proof (cases "d = length (bw_conns w)")
      case True
      then show ?thesis by (simp add: w' new_bond_conn_def)
    next
      case False
      then have "bw_registry w (sc_id (bw_conns w ! d)) = Some d" "bw_conns w' ! d = bw_conns w ! d"
        using d \<open>breg_ok w\<close> by (auto simp: breg_ok_def w' nth_append)
      then show ?thesis using None by (auto simp: w')
    qed
  qed
  moreover have "conn_rec_ok src (bw_ctx_done w') (bw_conns w' ! d)" if "d < length (bw_conns w')" for d
    using that inv_conn [OF assms(1), of d] new by (cases "d = length (bw_conns w)") (auto simp: w' nth_append)
  moreover have "lane_rec_ok src w x \<Longrightarrow> lane_rec_ok src w' x" for x
    by (auto simp: lane_rec_ok_def w' nth_append)
  moreover have "attach_ok src w a \<Longrightarrow> attach_ok src w' a" for a
    by (auto simp: attach_ok_def w' nth_append)
  moreover have "bw_lanes w' = bw_lanes w" "bw_attaching w' = bw_attaching w"
    "c < length (bw_conns w')" "sc_id (bw_conns w' ! c) = cid"
    by (simp_all add: w' new_bond_conn_def)
  ultimately show ?thesis using assms(1) by (simp add: bond_inv_def)
qed

lemma inv_open:
  assumes "bond_inv src w" and "label_ok src (B_open stream inp)"
  shows "bond_inv src (bond_open stream inp bondMagic w)"
proof (cases "readBondHelloAfterMagic inp bondMagic")
  case (Pair res rest)
  show ?thesis
  proof (cases res)
    case (Inl e)
    then show ?thesis using assms(1) Pair by (simp add: bond_open_def)
  next
    case (Inr hello)
    obtain w1 c where g: "bond_get (bh_connID hello) w = (w1, c)" by fastforce
    have "lane_src (src (bh_connID hello)) rest" using assms(2) Pair Inr by (simp add: label_ok_def)
    then show ?thesis
      using inv_get [OF assms(1) g] g Pair Inr
      by (auto simp: bond_open_def bond_inv_def breg_ok_def lane_rec_ok_def attach_ok_def)
  qed
qed

lemma inv_attach:
  assumes "bond_inv src w" and "bond_attach i w = Some w'"
  shows "bond_inv src w'"
proof -
  obtain c lane n where a: "bw_attaching w ! i = (c, lane, n)" by (cases "bw_attaching w ! i") auto
  have i: "i < length (bw_attaching w)" using assms(2) by (auto simp: bond_attach_def split: if_splits)
  let ?w = "w\<lparr>bw_attaching := take i (bw_attaching w) @ drop (Suc i) (bw_attaching w)\<rparr>"
  let ?w2 = "?w\<lparr>bw_lanes := bw_lanes w @ [lane\<lparr>sl_conn := c, sl_reading := True\<rparr>]\<rparr>"
  let ?f = "\<lambda>s. s\<lparr>sc_want := (if sc_want s < n then n else sc_want s),
      sc_lanes := sc_lanes s @ [length (bw_lanes w)], sc_ready := True,
      sc_run := (if sc_run s = RunIdle then RunCheck else sc_run s)\<rparr>"
  have w': "w' = upd_conn c ?f ?w2" using assms(2) i a by (simp add: bond_attach_def bond_addLane_def)
  have "attach_ok src w (c, lane, n)" using assms(1) i a by (metis bond_inv_def nth_mem)
  then have at: "c < length (bw_conns w)" "lane_src (src (sc_id (bw_conns w ! c))) (sl_input lane)"
    by (simp_all add: attach_ok_def)
  have "bond_inv src ?w2"
    using assms(1) at
    by (auto simp: bond_inv_def breg_ok_def lane_rec_ok_def attach_ok_def nth_append less_Suc_eq
        dest: in_set_takeD in_set_dropD)
  moreover have "conn_rec_ok src (bw_ctx_done ?w2) (?f (bw_conns ?w2 ! c))"
    using inv_conn [OF assms(1) at(1)] by (simp add: conn_rec_ok_def)
  ultimately show ?thesis unfolding w' by (intro inv_upd_conn) (simp_all add: at(1))
qed

lemma inv_read:
  assumes inv: "bond_inv src w" and l: "l < length (bw_lanes w)" and "readLane_turn l leave w = Some w'"
  shows "bond_inv src w'"
proof -
  let ?lane = "bw_lanes w ! l"
  let ?c = "sl_conn ?lane"
  have lane: "lane_rec_ok src w ?lane" using inv l by (simp add: bond_inv_def)
  then have c: "?c < length (bw_conns w)" by (simp add: lane_rec_ok_def)
  have reading: "sl_reading ?lane" using assms(3) by (auto simp: readLane_turn_def Let_def split: if_splits)
  obtain res rest where r: "readBondFrame (sl_input ?lane) = (res, rest)" by fastforce
  show ?thesis
  proof (cases res)
    case (Inl e)
    let ?w1 = "upd_blane l (\<lambda>x. x\<lparr>sl_input := rest, sl_reading := False\<rparr>) w"
    have w1: "bond_inv src ?w1"
      using lane by (intro inv_upd_blane [OF inv]) (simp add: lane_rec_ok_def)
    obtain w2 left where w2: "bond_removeLane ?c l ?w1 = (w2, left)" by fastforce
    have "w' = (if conn_ctx_err w2 ?c then w2 else if left = 0 then bond_cancel ?c w2 else w2)"
      using assms(3) reading r Inl w2 by (simp add: readLane_turn_def Let_def)
    then show ?thesis using inv_removeLane [OF w1 _ w2] c by simp
  next
    case (Inr f)
    have src: "genuine (src (sc_id (bw_conns w ! ?c))) f \<and> lane_src (src (sc_id (bw_conns w ! ?c))) rest"
      using lane_src_read [of _ "sl_input ?lane" f rest] lane reading r Inr by (simp add: lane_rec_ok_def)
    show ?thesis
    proof (cases leave)
      case True
      then have "w' = upd_blane l (\<lambda>x. x\<lparr>sl_input := rest, sl_reading := False\<rparr>) w"
        using assms(3) reading r Inr by (auto simp: readLane_turn_def Let_def split: if_splits)
      then show ?thesis using lane by (auto intro!: inv_upd_blane [OF inv] simp: lane_rec_ok_def)
    next
      case False
      let ?w1 = "upd_blane l (\<lambda>x. x\<lparr>sl_input := rest\<rparr>) w"
      have w': "w' = upd_conn ?c (\<lambda>s. s\<lparr>sc_recvCh := sc_recvCh (bw_conns w ! ?c) @ [f]\<rparr>) ?w1"
        using assms(3) reading r Inr False
        by (auto simp: readLane_turn_def Let_def split: option.splits)
      have w1: "bond_inv src ?w1" using lane src by (intro inv_upd_blane [OF inv]) (simp add: lane_rec_ok_def)
      show ?thesis unfolding w'
        using inv_conn [OF inv c] c src by (intro inv_upd_conn [OF w1]) (simp_all add: conn_rec_ok_def)
    qed
  qed
qed

lemma inv_run_end:
  assumes "bond_inv src w" and "c < length (bw_conns w)"
    and "\<not> sc_upRunning (bw_conns w ! c)" and "sc_down (bw_conns w ! c) = DownEnded"
  shows "bond_inv src (run_end c w)"
  unfolding run_end_def using assms inv_conn [OF assms(1,2)]
  by (intro inv_upd_conn) (simp_all add: conn_rec_ok_def)

lemma inv_check: "bond_inv src w \<Longrightarrow> c < length (bw_conns w) \<Longrightarrow> sc_run (bw_conns w ! c) = RunCheck
    \<Longrightarrow> bond_inv src (wait_check c w)"
  unfolding wait_check_def by (rule inv_upd_conn) (auto dest: inv_conn simp: conn_rec_ok_def)

lemma inv_wait: "bond_inv src w \<Longrightarrow> c < length (bw_conns w) \<Longrightarrow> sc_run (bw_conns w ! c) = RunSelect
    \<Longrightarrow> wait_select c cause w = Some w' \<Longrightarrow> bond_inv src w'"
  unfolding wait_select_def
  by (cases cause) (auto dest: inv_conn simp: conn_rec_ok_def intro!: inv_upd_conn split: if_splits)

lemma up_live_start: "up_live chunks (reassembly_start \<lparr>cn_sent = [], cn_script = script\<rparr>)"
  using ra_at_start [of chunks "\<lparr>cn_sent = [], cn_script = script\<rparr>"]
  by (auto simp: up_live_def reassembly_start_def)

lemma inv_dial: "bond_inv src w \<Longrightarrow> c < length (bw_conns w) \<Longrightarrow> sc_run (bw_conns w ! c) = RunDial
    \<Longrightarrow> bond_inv src (run_dial c dial w)"
proof (cases dial)
  case None
  assume "bond_inv src w" "c < length (bw_conns w)" "sc_run (bw_conns w ! c) = RunDial"
  then show ?thesis using inv_conn [of src w c] None by (auto simp: run_dial_def conn_rec_ok_def intro!: inv_run_end)
next
  case (Some script)
  assume "bond_inv src w" "c < length (bw_conns w)" "sc_run (bw_conns w ! c) = RunDial"
  moreover have "up_safe chunks (reassembly_start \<lparr>cn_sent = [], cn_script = script\<rparr>)" for chunks
    by (simp add: up_safe_def reassembly_start_def)
  ultimately show ?thesis using inv_conn [of src w c] Some up_live_start
    by (auto simp: run_dial_def conn_rec_ok_def intro!: inv_upd_conn)
qed

text \<open>The upload loop.\<close>

lemma up_check:
  assumes "up_live chunks up" and "up_safe chunks up" and N: "length chunks < 2 ^ 64"
    and "ra_status (check_fin up) \<noteq> Running"
  shows "up_safe chunks (check_fin up)"
proof -
  obtain R k where at: "ra_at chunks [] R k up" using assms(1) by (auto simp: up_live_def)
  then have fin: "ra_fin up = Some (ra_expect up)" using assms(4) by (auto simp: check_fin_def ra_at_def split: if_splits)
  then have "k = length chunks"
    using at chunk_index_inject [of k "length chunks" "length chunks"] N by (auto simp: ra_at_def)
  then have "cn_sent (ra_conn (check_fin up)) = concat chunks" using at by (simp add: ra_at_def check_fin_def)
  then show ?thesis by (auto simp: up_safe_def intro: exI [of _ "length (concat chunks)"])
qed

lemma up_take:
  assumes "up_live chunks up" and N: "length chunks < 2 ^ 64" and "genuine chunks f"
  shows "up_safe chunks (take_frame f up)
    \<and> (ra_status (take_frame f up) = Running \<longrightarrow> up_live chunks (take_frame f up))"
proof -
  obtain R k where at: "ra_at chunks [] R k up" and "\<not> ra_writeClosed up"
    using assms(1) by (auto simp: up_live_def)
  then have wc: "\<not> ra_writeClosed (take_frame f up)" by (simp add: take_frame_def drain_writeClosed)
  from take_frame_drained [OF at N assms(3)] consider
      (ok) k' where "ra_at chunks [] (R \<union> frame_index chunks f) k' (take_frame f up)"
        "map_of (ra_pending (take_frame f up)) (of_nat k') = None"
    | (failed) "ra_status (take_frame f up) \<noteq> Running"
        "\<exists>m. cn_sent (ra_conn (take_frame f up)) = [] @ take m (concat chunks)" by blast
  then show ?thesis
  proof cases
    case ok
    then have "cn_sent (ra_conn (take_frame f up)) = concat (take k' chunks)" by (simp add: ra_at_def)
    then show ?thesis using ok wc concat_take_prefix [of k' chunks] by (auto simp: up_safe_def up_live_def)
  next
    case failed
    then show ?thesis using wc by (simp add: up_safe_def)
  qed
qed

lemma inv_up:
  assumes inv: "bond_inv src w" and c: "c < length (bw_conns w)" and N: "\<And>cid. length (src cid) < 2 ^ 64"
    and run: "sc_run (bw_conns w ! c) = RunCopy" "sc_upRunning (bw_conns w ! c)"
    and up: "up_turn c leave w = Some w'"
  shows "bond_inv src w'"
proof -
  let ?s = "bw_conns w ! c"
  let ?chunks = "src (sc_id ?s)"
  have ok: "conn_rec_ok src (bw_ctx_done w) ?s" using inv_conn [OF inv c] .
  then have live: "up_live ?chunks (sc_up ?s)" "up_safe ?chunks (sc_up ?s)" using run by (simp_all add: conn_rec_ok_def)
  show ?thesis
  proof (cases "ra_status (check_fin (sc_up ?s)) = Running")
    case False
    then have "w' = upd_conn c (\<lambda>s. s\<lparr>sc_up := check_fin (sc_up ?s), sc_upRunning := False\<rparr>) w"
      using up by (simp add: up_turn_def Let_def)
    then show ?thesis using ok up_check [OF live N False] c run
      by (auto intro!: inv_upd_conn [OF inv] simp: conn_rec_ok_def)
  next
    case True
    then have same: "check_fin (sc_up ?s) = sc_up ?s" by (auto simp: check_fin_def split: if_splits)
    show ?thesis
    proof (cases leave)
      case True
      then have "w' = upd_conn c (\<lambda>s. s\<lparr>sc_upRunning := False\<rparr>) w"
        using up \<open>ra_status (check_fin (sc_up ?s)) = Running\<close> by (auto simp: up_turn_def Let_def split: if_splits)
      then show ?thesis using ok c run by (auto intro!: inv_upd_conn [OF inv] simp: conn_rec_ok_def)
    next
      case False
      then obtain f rest where f: "sc_recvCh ?s = f # rest"
        using up \<open>ra_status (check_fin (sc_up ?s)) = Running\<close> by (auto simp: up_turn_def Let_def split: list.splits)
      then have w': "w' = upd_conn c (\<lambda>s. s\<lparr>sc_recvCh := rest, sc_up := take_frame f (sc_up ?s),
          sc_upRunning := (ra_status (take_frame f (sc_up ?s)) = Running)\<rparr>) w"
        using up False \<open>ra_status (check_fin (sc_up ?s)) = Running\<close> same by (simp add: up_turn_def Let_def)
      have "genuine ?chunks f" using ok f by (simp add: conn_rec_ok_def)
      then show ?thesis unfolding w' using ok up_take [OF live(1) N] c run f
        by (intro inv_upd_conn [OF inv]) (simp_all add: conn_rec_ok_def)
    qed
  qed
qed

text \<open>The download loop.\<close>

lemma inv_down_field:
  assumes "bond_inv src w" and "c < length (bw_conns w)" and "sc_run (bw_conns w ! c) = RunCopy"
  shows "bond_inv src (upd_conn c (\<lambda>s. s\<lparr>sc_down := d s\<rparr>) w)"
    and "bond_inv src (upd_conn c (\<lambda>s. s\<lparr>sc_laneIdx := i s\<rparr>) w)"
    and "bond_inv src (upd_conn c (\<lambda>s. s\<lparr>sc_seq := q s, sc_down := d s\<rparr>) w)"
    and "bond_inv src (down_end c w)"
proof -
  let ?s = "bw_conns w ! c"
  note ok = inv_conn [OF assms(1,2)]
  have "conn_rec_ok src (bw_ctx_done w) (?s\<lparr>sc_down := x\<rparr>)" for x using ok assms(3) by (simp add: conn_rec_ok_def)
  then show "bond_inv src (upd_conn c (\<lambda>s. s\<lparr>sc_down := d s\<rparr>) w)" using assms(1,2) by (intro inv_upd_conn) simp_all
  have "conn_rec_ok src (bw_ctx_done w) (?s\<lparr>sc_laneIdx := x\<rparr>)" for x using ok assms(3) by (simp add: conn_rec_ok_def)
  then show "bond_inv src (upd_conn c (\<lambda>s. s\<lparr>sc_laneIdx := i s\<rparr>) w)" using assms(1,2) by (intro inv_upd_conn) simp_all
  have "conn_rec_ok src (bw_ctx_done w) (?s\<lparr>sc_seq := y, sc_down := x\<rparr>)" for x y
    using ok assms(3) by (simp add: conn_rec_ok_def)
  then show "bond_inv src (upd_conn c (\<lambda>s. s\<lparr>sc_seq := q s, sc_down := d s\<rparr>) w)"
    using assms(1,2) by (intro inv_upd_conn) simp_all
  have "conn_rec_ok src (bw_ctx_done w) (?s\<lparr>sc_down := DownEnded, sc_cancelled := True\<rparr>)"
    using ok assms(3) by (simp add: conn_rec_ok_def)
  then show "bond_inv src (down_end c w)" unfolding down_end_def using assms(1,2) by (intro inv_upd_conn) simp_all
qed

lemma inv_stream:
  "bond_inv src w \<Longrightarrow> bond_inv src (upd_blane l (\<lambda>x. x\<lparr>sl_stream := g x\<rparr>) w)"
  by (rule inv_upd_blane) (auto simp: bond_inv_def lane_rec_ok_def)

lemma inv_down_try:
  assumes inv: "bond_inv src w" and c: "c < length (bw_conns w)" and run: "sc_run (bw_conns w ! c) = RunCopy"
  shows "bond_inv src (down_try c payload err lanes left w)"
proof (cases left)
  case 0
  then show ?thesis using inv_down_field(1) [OF assms] by (simp add: down_try_def)
next
  case (Suc k)
  let ?w1 = "upd_conn c (\<lambda>s. s\<lparr>sc_laneIdx := sc_laneIdx s + 1\<rparr>) w"
  let ?l = "lanes ! unat (sc_laneIdx (bw_conns w ! c) mod of_nat (length lanes))"
  obtain stream e where wr: "writeBondFrame (sl_stream (bw_lanes ?w1 ! ?l)) bondFrameData
      (sc_seq (bw_conns w ! c)) payload = (stream, e)" by fastforce
  let ?w2 = "upd_blane ?l (\<lambda>x. x\<lparr>sl_stream := stream\<rparr>) ?w1"
  have w2: "bond_inv src ?w2" by (rule inv_stream [OF inv_down_field(2) [OF assms]])
  have c2: "c < length (bw_conns ?w2)" "sc_run (bw_conns ?w2 ! c) = RunCopy" using c run by simp_all
  show ?thesis
  proof (cases e)
    case None
    then have "down_try c payload err lanes left w
        = upd_conn c (\<lambda>s. s\<lparr>sc_seq := sc_seq s + 1, sc_down := DownAfter err\<rparr>) ?w2"
      using wr Suc by (simp add: down_try_def Let_def)
    then show ?thesis using inv_down_field(3) [OF w2 c2] by simp
  next
    case (Some x)
    obtain w3 remaining where w3: "bond_removeLane c ?l ?w2 = (w3, remaining)" by fastforce
    have eq: "down_try c payload err lanes left w
        = (if remaining = 0 then down_end c w3 else upd_conn c (\<lambda>s. s\<lparr>sc_down := DownTry payload err lanes k\<rparr>) w3)"
      using wr Suc Some w3 by (simp add: down_try_def Let_def)
    note R = inv_removeLane [OF w2 c2(1) w3]
    have "sc_run (bw_conns w3 ! c) = RunCopy" "c < length (bw_conns w3)"
      using w3 c2 by (auto simp: bond_removeLane_def Let_def)
    then show ?thesis using R inv_down_field(1) unfolding eq by simp
  qed
qed

lemma inv_down:
  assumes inv: "bond_inv src w" and c: "c < length (bw_conns w)" and run: "sc_run (bw_conns w ! c) = RunCopy"
    and "down_turn c inp leave w = Some w'"
  shows "bond_inv src w'"
proof -
  note F = inv_down_field [OF inv c run]
  let ?wm = "w\<lparr>bw_metrics := m\<rparr>"
  have M: "bond_inv src (upd_conn c (\<lambda>s. s\<lparr>sc_down := d s\<rparr>) (w\<lparr>bw_metrics := m\<rparr>))" for d m
    using inv c run by (intro inv_down_field(1)) simp_all
  show ?thesis
  proof (cases "sc_down (bw_conns w ! c)")
    case DownRead
    then show ?thesis using assms(4) F M by (auto simp: down_turn_def down_read_def Let_def split: if_splits)
  next
    case (DownSnapshot payload err)
    then show ?thesis using assms(4) F by (auto simp: down_turn_def)
  next
    case (DownTry payload err lanes left)
    then show ?thesis using assms(4) inv_down_try [OF inv c run] by (auto simp: down_turn_def)
  next
    case (DownPause payload err)
    then show ?thesis using assms(4) F by (auto simp: down_turn_def split: if_splits)
  next
    case (DownAfter err)
    then show ?thesis using assms(4) F M by (auto simp: down_turn_def down_after_def Let_def split: option.splits if_splits)
  next
    case (DownFin lanes)
    then show ?thesis using assms(4) F inv_stream [OF inv] inv_down_field(1) [OF inv_stream [OF inv], of c] c run
      by (auto simp: down_turn_def down_fin_def split: list.splits)
  next
    case DownEnded
    then show ?thesis using assms(4) by (simp add: down_turn_def)
  qed
qed

lemma inv_registry:
  assumes "bond_inv src w"
    and "\<And>k c. m k = Some c \<Longrightarrow> bw_registry w k = Some c"
    and "\<And>c. c < length (bw_conns w) \<Longrightarrow> \<not> sc_done (bw_conns w ! c) \<Longrightarrow> m (sc_id (bw_conns w ! c)) = Some c"
  shows "bond_inv src (w\<lparr>bw_registry := m\<rparr>)"
proof -
  have "breg_ok (w\<lparr>bw_registry := m\<rparr>)"
  proof -
    have "breg_ok w" using assms(1) by (simp add: bond_inv_def)
    then show ?thesis using assms(2,3) unfolding breg_ok_def by (simp, blast)
  qed
  moreover have "lane_rec_ok src (w\<lparr>bw_registry := m\<rparr>) = lane_rec_ok src w"
    "attach_ok src (w\<lparr>bw_registry := m\<rparr>) = attach_ok src w"
    by (rule ext; simp add: lane_rec_ok_def attach_ok_def)+
  ultimately show ?thesis using assms(1) by (simp add: bond_inv_def)
qed

lemma inv_unregister:
  assumes "bond_inv src w" and "c < length (bw_conns w)" and "sc_done (bw_conns w ! c)"
  shows "bond_inv src (w\<lparr>bw_registry := bond_unregister (sc_id (bw_conns w ! c)) c (bw_registry w)\<rparr>)"
proof (rule inv_registry [OF assms(1)])
  fix k d
  assume "bond_unregister (sc_id (bw_conns w ! c)) c (bw_registry w) k = Some d"
  then show "bw_registry w k = Some d" by (rule bond_registry.drop_if_le)
next
  fix d
  assume d: "d < length (bw_conns w)" "\<not> sc_done (bw_conns w ! d)"
  then have "bw_registry w (sc_id (bw_conns w ! d)) = Some d" using assms(1) by (simp add: bond_inv_def breg_ok_def)
  moreover have "d \<noteq> c" using d assms(3) by blast
  ultimately show "bond_unregister (sc_id (bw_conns w ! c)) c (bw_registry w) (sc_id (bw_conns w ! d)) = Some d"
    by (auto simp: bond_unregister_def)
qed

lemma bond_inv_next:
  assumes "bond_next src w w'" and inv: "bond_inv src w"
  shows "bond_inv src w'"
proof -
  obtain lab where lab: "label_ok src lab" "bond_step lab w = Some w'" and N: "\<And>cid. length (src cid) < 2 ^ 64"
    using assms(1) by (auto simp: bond_next_def)
  have fin: "sc_run (bw_conns w ! c) = RunCopy \<Longrightarrow> c < length (bw_conns w) \<Longrightarrow> \<not> sc_upRunning (bw_conns w ! c)
      \<Longrightarrow> sc_down (bw_conns w ! c) = DownEnded \<Longrightarrow> bond_inv src (run_end c w)" for c
    using inv_run_end inv by blast
  show ?thesis
  proof (cases lab)
    case B_ctx_cancel
    then show ?thesis using lab(2) inv_ctx_done [OF inv] by (simp add: bond_step_def)
  next
    case (B_attach i)
    then show ?thesis using lab(2) inv_attach [OF inv] by (simp add: bond_step_def)
  next
    case (B_read l leave)
    then show ?thesis using lab(2) inv_read [OF inv] by (simp add: bond_step_def split: if_splits)
  next
    case (B_check c)
    then show ?thesis using lab(2) inv_check [OF inv] by (auto simp: bond_step_def split: if_splits)
  next
    case (B_wait c cause)
    then show ?thesis using lab(2) inv_wait [OF inv] by (simp add: bond_step_def split: if_splits)
  next
    case (B_dial c dial)
    then show ?thesis using lab(2) inv_dial [OF inv] by (auto simp: bond_step_def split: if_splits)
  next
    case (B_up c leave)
    then show ?thesis using lab(2) inv_up [OF inv _ N] by (simp add: bond_step_def split: if_splits)
  next
    case (B_down c inp leave)
    then show ?thesis using lab(2) inv_down [OF inv] by (simp add: bond_step_def split: if_splits)
  next
    case (B_finish c)
    then show ?thesis using lab(2) fin by (auto simp: bond_step_def split: if_splits)
  next
    case (B_unregister c)
    then show ?thesis using lab(2) inv_unregister [OF inv] by (auto simp: bond_step_def split: if_splits)
  next
    case (B_open stream inp)
    then show ?thesis using lab inv_open [OF inv, of stream inp] by (auto simp: bond_step_def)
  next
    case (B_break l)
    have "lane_rec_ok src w (bw_lanes w ! l)" if "l < length (bw_lanes w)" using inv that by (simp add: bond_inv_def)
    then show ?thesis using lab B_break
      by (auto simp: bond_step_def lane_rec_ok_def lane_src_empty split: if_splits intro!: inv_upd_blane [OF inv])
  qed
qed

interpretation bond: invariant_system "\<lambda>w. w = bond_start" "bond_next src" "bond_inv src" for src
  using bond_inv_start bond_inv_next by unfold_locales auto

section \<open>A cancelled connection can end\<close>

abbreviation bond_steps :: "streams \<Rightarrow> bond_world \<Rightarrow> bond_world \<Rightarrow> bool" where
  "bond_steps src \<equiv> rtranclp (bond_next src)"

primrec bond_run :: "bond_label list \<Rightarrow> bond_world \<Rightarrow> bond_world option" where
  "bond_run [] w = Some w"
| "bond_run (lab # labs) w = (case bond_step lab w of None \<Rightarrow> None | Some w1 \<Rightarrow> bond_run labs w1)"

lemma bond_run_steps:
  "bond_run labs w = Some w' \<Longrightarrow> list_all (label_ok src) labs \<Longrightarrow> \<forall>cid. length (src cid) < 2 ^ 64
    \<Longrightarrow> bond_steps src w w'"
proof (induction labs arbitrary: w)
  case Nil
  then show ?case by simp
next
  case (Cons lab labs)
  then obtain w1 where w1: "bond_step lab w = Some w1" "bond_run labs w1 = Some w'"
    by (auto split: option.splits)
  then have "bond_next src w w1" using Cons.prems by (auto simp: bond_next_def)
  moreover have "bond_steps src w1 w'" using Cons w1 by simp
  ultimately show ?case by (rule converse_rtranclp_into_rtranclp)
qed

text \<open>The connection \<open>c\<close> is copying, cancelled, and its download loop is at \<open>pc\<close>.\<close>

definition ending :: "nat \<Rightarrow> bool \<Rightarrow> down_pc \<Rightarrow> bond_world \<Rightarrow> bool" where
  "ending c up pc w \<longleftrightarrow> c < length (bw_conns w) \<and> sc_run (bw_conns w ! c) = RunCopy \<and> conn_ctx_err w c
     \<and> sc_upRunning (bw_conns w ! c) = up \<and> sc_down (bw_conns w ! c) = pc"

definition can_end :: "nat \<Rightarrow> bool \<Rightarrow> bond_world \<Rightarrow> bool" where
  "can_end c up w \<longleftrightarrow> (\<exists>labs w'. (\<forall>src. list_all (label_ok src) labs) \<and> bond_run labs w = Some w' \<and> ending c up DownEnded w')"

lemma can_end_step:
  assumes "bond_step lab w = Some w1" and "\<And>src. label_ok src lab" and "can_end c up w1"
  shows "can_end c up w"
proof -
  obtain labs w' where "\<forall>src. list_all (label_ok src) labs" "bond_run labs w1 = Some w'" "ending c up DownEnded w'"
    using assms(3) by (auto simp: can_end_def)
  then show ?thesis unfolding can_end_def using assms(1,2)
    by (intro exI [of _ "lab # labs"] exI [of _ w']) simp
qed

lemma can_end_ended: "ending c up DownEnded w \<Longrightarrow> can_end c up w"
  unfolding can_end_def by (intro exI [of _ "[]"] exI [of _ w]) simp

lemma can_end_down:
  assumes "ending c up pc w" and "down_turn c inp leave w = Some w1" and "can_end c up w1"
  shows "can_end c up w"
proof (rule can_end_step)
  show "bond_step (B_down c inp leave) w = Some w1" using assms by (simp add: bond_step_def ending_def)
qed (use assms in \<open>simp_all add: label_ok_def\<close>)

lemma ending_end: "ending c up pc w \<Longrightarrow> ending c up DownEnded (down_end c w)"
  by (simp add: ending_def down_end_def conn_ctx_err_def)

lemma can_end_fin: "ending c up (DownFin ls) w \<Longrightarrow> can_end c up w"
proof (induction ls arbitrary: w)
  case Nil
  then have "down_turn c undefined False w = Some (down_end c w)"
    by (simp add: ending_def down_turn_def down_fin_def)
  then show ?case using can_end_down [OF Nil] can_end_ended [OF ending_end [OF Nil]] by blast
next
  case (Cons l ls)
  let ?w = "down_fin c (l # ls) w"
  have "ending c up (DownFin ls) ?w" using Cons.prems by (simp add: ending_def down_fin_def conn_ctx_err_def)
  moreover have "down_turn c undefined False w = Some ?w" using Cons.prems by (simp add: ending_def down_turn_def)
  ultimately show ?case using can_end_down [OF Cons.prems] Cons.IH by blast
qed

lemma can_end_after: "ending c up (DownAfter err) w \<Longrightarrow> can_end c up w"
proof (rule can_end_down)
  assume e: "ending c up (DownAfter err) w"
  show "down_turn c undefined False w = Some (down_after c err w)" using e by (simp add: ending_def down_turn_def)
  show "can_end c up (down_after c err w)"
  proof (cases err)
    case None
    then have "down_after c err w = down_end c w" using e by (simp add: down_after_def ending_def)
    then show ?thesis using can_end_ended [OF ending_end [OF e]] by simp
  next
    case (Some x)
    then have "ending c up (DownFin (sc_lanes (bw_conns w ! c))) (down_after c err w)"
      using e by (simp add: down_after_def ending_def conn_ctx_err_def Let_def)
    then show ?thesis by (rule can_end_fin)
  qed
qed

lemma can_end_try: "ending c up (DownTry payload err lanes left) w \<Longrightarrow> can_end c up w"
proof (induction left arbitrary: w)
  case 0
  have "ending c up (DownPause payload err) (down_try c payload err lanes 0 w)"
    using 0 by (simp add: ending_def down_try_def conn_ctx_err_def)
  moreover from this have "down_turn c undefined True (down_try c payload err lanes 0 w)
      = Some (down_end c (down_try c payload err lanes 0 w))"
    by (simp add: ending_def down_turn_def)
  ultimately have "can_end c up (down_try c payload err lanes 0 w)"
    using can_end_down ending_end can_end_ended by blast
  moreover have "down_turn c undefined True w = Some (down_try c payload err lanes 0 w)"
    using 0 by (simp add: ending_def down_turn_def)
  ultimately show ?case using can_end_down [OF 0] by blast
next
  case (Suc k)
  let ?w = "down_try c payload err lanes (Suc k) w"
  let ?w1 = "upd_conn c (\<lambda>s. s\<lparr>sc_laneIdx := sc_laneIdx s + 1\<rparr>) w"
  let ?l = "lanes ! unat (sc_laneIdx (bw_conns w ! c) mod of_nat (length lanes))"
  obtain stream e where wr: "writeBondFrame (sl_stream (bw_lanes ?w1 ! ?l)) bondFrameData
      (sc_seq (bw_conns w ! c)) payload = (stream, e)" by fastforce
  let ?w2 = "upd_blane ?l (\<lambda>x. x\<lparr>sl_stream := stream\<rparr>) ?w1"
  have d: "down_turn c undefined True w = Some ?w" using Suc.prems by (simp add: ending_def down_turn_def)
  have w2: "c < length (bw_conns ?w2)" "sc_run (bw_conns ?w2 ! c) = RunCopy" "conn_ctx_err ?w2 c"
    "sc_upRunning (bw_conns ?w2 ! c) = up"
    using Suc.prems by (simp_all add: ending_def conn_ctx_err_def)
  show ?case
  proof (cases e)
    case None
    then have "?w = upd_conn c (\<lambda>s. s\<lparr>sc_seq := sc_seq s + 1, sc_down := DownAfter err\<rparr>) ?w2"
      using wr by (simp add: down_try_def Let_def)
    then have "ending c up (DownAfter err) ?w" using w2 by (simp add: ending_def conn_ctx_err_def)
    then show ?thesis using can_end_down [OF Suc.prems d] can_end_after by blast
  next
    case (Some x)
    obtain w3 remaining where w3: "bond_removeLane c ?l ?w2 = (w3, remaining)" by fastforce
    have eq: "?w = (if remaining = 0 then down_end c w3 else upd_conn c (\<lambda>s. s\<lparr>sc_down := DownTry payload err lanes k\<rparr>) w3)"
      using wr Some w3 by (simp add: down_try_def Let_def)
    have "ending c up (sc_down (bw_conns w3 ! c)) w3"
      using w2 w3 by (auto simp: ending_def conn_ctx_err_def bond_removeLane_def Let_def)
    then have "ending c up DownEnded (down_end c w3)"
      "ending c up (DownTry payload err lanes k) (upd_conn c (\<lambda>s. s\<lparr>sc_down := DownTry payload err lanes k\<rparr>) w3)"
      using ending_end by (auto simp: ending_def conn_ctx_err_def)
    then have "can_end c up ?w" unfolding eq using can_end_ended Suc.IH by simp
    then show ?thesis using can_end_down [OF Suc.prems d] by blast
  qed
qed

lemma can_end_any: "ending c up pc w \<Longrightarrow> can_end c up w"
proof (cases pc)
  case DownRead
  assume e: "ending c up pc w"
  have "ending c up (DownAfter (Some EOF)) (down_read c [] (Some EOF) w)"
    using e by (simp add: ending_def down_read_def conn_ctx_err_def)
  moreover have "down_turn c ([], Some EOF) False w = Some (down_read c [] (Some EOF) w)"
    using e DownRead by (simp add: ending_def down_turn_def)
  ultimately show ?thesis using can_end_down [OF e] can_end_after by blast
next
  case (DownSnapshot payload err)
  assume e: "ending c up pc w"
  let ?ls = "sc_lanes (bw_conns w ! c)"
  let ?w = "upd_conn c (\<lambda>s. s\<lparr>sc_down := DownTry payload err (sc_lanes s) (length (sc_lanes s))\<rparr>) w"
  have "ending c up (DownTry payload err ?ls (length ?ls)) ?w"
    using e by (simp add: ending_def conn_ctx_err_def)
  moreover have "down_turn c undefined False w = Some ?w"
    using e DownSnapshot by (simp add: ending_def down_turn_def)
  ultimately show ?thesis using can_end_down [OF e] can_end_try by blast
next
  case (DownPause payload err)
  assume e: "ending c up pc w"
  then have "down_turn c undefined True w = Some (down_end c w)"
    using DownPause by (simp add: ending_def down_turn_def)
  then show ?thesis using can_end_down [OF e] can_end_ended ending_end [OF e] by blast
qed (use can_end_try can_end_after can_end_fin can_end_ended in auto)

lemma can_finish_copy:
  assumes "ending c up pc w" and "\<forall>cid. length (src cid) < 2 ^ 64"
  shows "\<exists>w'. bond_steps src w w' \<and> sc_done (bw_conns w' ! c)"
proof -
  obtain labs w1 where "\<forall>src. list_all (label_ok src) labs" "bond_run labs w = Some w1" and e1: "ending c up DownEnded w1"
    using can_end_any [OF assms(1)] by (auto simp: can_end_def)
  then have s1: "bond_steps src w w1" using bond_run_steps assms(2) by blast
  have "\<exists>w2. bond_steps src w1 w2 \<and> ending c False DownEnded w2"
  proof (cases up)
    case False
    then show ?thesis using e1 by auto
  next
    case True
    have "\<exists>w2. up_turn c True w1 = Some w2 \<and> ending c False DownEnded w2"
      using e1 by (auto simp: up_turn_def ending_def conn_ctx_err_def Let_def)
    then obtain w2 where w2: "up_turn c True w1 = Some w2" "ending c False DownEnded w2" by blast
    then have "bond_next src w1 w2" using e1 True assms(2) unfolding bond_next_def
      by (intro conjI exI [of _ "B_up c True"]) (auto simp: bond_step_def ending_def label_ok_def)
    then show ?thesis using w2 by blast
  qed
  then obtain w2 where s2: "bond_steps src w1 w2" and e2: "ending c False DownEnded w2" by blast
  have "bond_next src w2 (run_end c w2)" using e2 assms(2) unfolding bond_next_def
    by (intro conjI exI [of _ "B_finish c"]) (auto simp: bond_step_def ending_def label_ok_def)
  moreover have "sc_done (bw_conns (run_end c w2) ! c)" using e2 by (simp add: run_end_def ending_def)
  ultimately show ?thesis using s1 s2 by (meson rtranclp.rtrancl_into_rtrancl rtranclp_trans)
qed

lemma can_finish_dial:
  assumes "c < length (bw_conns w)" and "sc_run (bw_conns w ! c) = RunDial" and "\<forall>cid. length (src cid) < 2 ^ 64"
  shows "\<exists>w'. bond_next src w w' \<and> sc_done (bw_conns w' ! c)"
proof (intro exI conjI)
  show "bond_next src w (run_dial c None w)" using assms unfolding bond_next_def
    by (intro conjI exI [of _ "B_dial c None"]) (auto simp: bond_step_def label_ok_def)
  show "sc_done (bw_conns (run_dial c None w) ! c)" using assms(1) by (simp add: run_dial_def run_end_def)
qed

lemma can_finish_select:
  assumes "c < length (bw_conns w)" and "sc_run (bw_conns w ! c) = RunSelect" and "\<forall>cid. length (src cid) < 2 ^ 64"
  shows "\<exists>w'. bond_steps src w w' \<and> sc_done (bw_conns w' ! c)"
proof -
  let ?w = "upd_conn c (\<lambda>s. s\<lparr>sc_run := RunDial\<rparr>) w"
  have "bond_next src w ?w" using assms unfolding bond_next_def
    by (intro conjI exI [of _ "B_wait c WaitTimer"]) (auto simp: bond_step_def label_ok_def wait_select_def)
  moreover obtain w' where "bond_next src ?w w'" "sc_done (bw_conns w' ! c)"
    using can_finish_dial [of c ?w src] assms by auto
  ultimately show ?thesis by (meson converse_rtranclp_into_rtranclp r_into_rtranclp)
qed

lemma can_finish:
  assumes inv: "bond_inv src w" and c: "c < length (bw_conns w)" and run: "sc_run (bw_conns w ! c) \<noteq> RunIdle"
    and ctx: "conn_ctx_err w c" and N: "\<forall>cid. length (src cid) < 2 ^ 64"
  shows "\<exists>w'. bond_steps src w w' \<and> sc_done (bw_conns w' ! c)"
proof (cases "sc_run (bw_conns w ! c)")
  case RunCheck
  let ?w = "wait_check c w"
  have step: "bond_next src w ?w" using c RunCheck N unfolding bond_next_def
    by (intro conjI exI [of _ "B_check c"]) (auto simp: bond_step_def label_ok_def)
  have w: "c < length (bw_conns ?w)" "sc_run (bw_conns ?w ! c) = RunDial \<or> sc_run (bw_conns ?w ! c) = RunSelect"
    using c by (auto simp: wait_check_def)
  then obtain w' where "bond_steps src ?w w'" "sc_done (bw_conns w' ! c)"
    using can_finish_dial [OF w(1) _ N] can_finish_select [OF w(1) _ N] by (metis r_into_rtranclp)
  then show ?thesis using step by (meson converse_rtranclp_into_rtranclp)
next
  case RunCopy
  then have "ending c (sc_upRunning (bw_conns w ! c)) (sc_down (bw_conns w ! c)) w"
    using c ctx by (simp add: ending_def)
  then show ?thesis using can_finish_copy N by blast
next
  case RunEnded
  then have "sc_done (bw_conns w ! c)" using inv_conn [OF inv c] by (simp add: conn_rec_ok_def)
  then show ?thesis by blast
qed (use run c can_finish_dial can_finish_select N in blast)+

section \<open>Properties\<close>

text \<open>The server side of a bonded upload is safe under every interleaving of its goroutines, with any
  number of lanes that attach late, break or are lost, and with writes to the backend that fail:
  if the lanes opened for a connection carry frames of its stream, what the backend gets is a
  prefix of the stream, and the backend's connection is half-closed only after all of it.\<close>

theorem bonded_upload_safe:
  assumes "bond_steps src bond_start w" and "c < length (bw_conns w)"
  shows "let up = sc_up (bw_conns w ! c); stream = concat (src (sc_id (bw_conns w ! c))) in
    (\<exists>m. cn_sent (ra_conn up) = take m stream) \<and> (if ra_writeClosed up then cn_sent (ra_conn up) = stream else True)"
  using inv_conn [of src w c] bond.reachable_inv [OF refl assms(1)] assms(2)
  by (simp add: conn_rec_ok_def up_safe_def Let_def)

text \<open>Two lanes that carry a stream of two chunks.\<close>

definition sample_src :: streams where
  "sample_src = (\<lambda>cid. if cid = 9 then [[1, 2], [3]] else [])"

definition sample_lane :: "u16 \<Rightarrow> bondFrame list \<Rightarrow> reader" where
  "sample_lane i fs = \<lparr>rd_bytes = bondVersion # be_bytes 8 (9 :: u64) @ be_bytes 2 i @ be_bytes 2 (2 :: u16)
     @ concat (map encode_frame fs), rd_end = EOF\<rparr>"

definition sample_bond_run :: "bond_label list" where
  "sample_bond_run =
     [B_open \<lparr>cn_sent = [], cn_script = []\<rparr> (sample_lane 0 [chunk_frame [[1, 2], [3]] 1, fin_frame [[1, 2], [3]]]),
      B_open \<lparr>cn_sent = [], cn_script = []\<rparr> (sample_lane 1 [chunk_frame [[1, 2], [3]] 0]),
      B_attach 0, B_check 0, B_attach 0, B_wait 0 WaitReady, B_check 0, B_dial 0 (Some []),
      B_read 0 False, B_up 0 False, B_read 1 False, B_read 0 False, B_up 0 False, B_up 0 False, B_up 0 False]"

lemma sample_label_ok:
  assumes "list_all (\<lambda>f. genuine [[1, 2], [3]] f \<and> frame_ok f) fs"
  shows "label_ok sample_src (B_open stream (sample_lane i fs))"
proof -
  let ?hdr = "bondVersion # be_bytes 8 (9 :: u64) @ be_bytes 2 i @ be_bytes 2 (2 :: u16)"
  have "ReadFull 13 (sample_lane i fs) = (Inr ?hdr, \<lparr>rd_bytes = concat (map encode_frame fs), rd_end = EOF\<rparr>)"
    by (simp add: sample_lane_def ReadFull_def)
  moreover have "parseBondHelloHeader (bondMagic @ ?hdr)
      = Inr \<lparr>bh_connID = 9, bh_laneIndex = i, bh_laneCount = 2\<rparr>"
    by (simp add: parseBondHelloHeader_def bondMagic_def be_word64 be_word16)
  moreover have "lane_src (sample_src 9) \<lparr>rd_bytes = concat (map encode_frame fs), rd_end = EOF\<rparr>"
    unfolding lane_src_def using assms
    by (intro exI [of _ fs] exI [of _ "[]"]) (simp add: sample_src_def readBondFrame_end)
  ultimately show ?thesis by (simp add: label_ok_def readBondHelloAfterMagic_def)
qed

lemma sample_bond_steps: "\<exists>w. bond_run sample_bond_run bond_start = Some w \<and> bond_steps sample_src bond_start w"
proof -
  let ?P = "\<lambda>f. genuine [[1, 2], [3]] f \<and> frame_ok f"
  have "?P (chunk_frame [[1, 2], [3]] i)" if "i < 2" for i
    using that by (auto simp: genuine_def frame_ok_def chunk_frame_def numeral_2_eq_2 less_Suc_eq)
  moreover have "?P (fin_frame [[1, 2], [3]])" by (simp add: genuine_def frame_ok_def fin_frame_def)
  ultimately have "list_all ?P [chunk_frame [[1, 2], [3]] 1, fin_frame [[1, 2], [3]]]"
    "list_all ?P [chunk_frame [[1, 2], [3]] 0]" by simp_all
  note lab = this [THEN sample_label_ok]
  have "list_all (label_ok sample_src) sample_bond_run"
    unfolding sample_bond_run_def list.pred_inject using lab by (simp add: label_ok_def [of _ "B_attach _"]
      label_ok_def [of _ "B_check _"] label_ok_def [of _ "B_wait _ _"] label_ok_def [of _ "B_dial _ _"]
      label_ok_def [of _ "B_read _ _"] label_ok_def [of _ "B_up _ _"])
  moreover have "\<forall>cid. length (sample_src cid) < 2 ^ 64" by (simp add: sample_src_def)
  moreover have "bond_run sample_bond_run bond_start \<noteq> None" by code_simp
  ultimately show ?thesis using bond_run_steps by blast
qed

definition sample_bond :: bond_world where
  "sample_bond = the (bond_run sample_bond_run bond_start)"

lemma sample_bond: "bond_steps sample_src bond_start sample_bond"
  using sample_bond_steps by (auto simp: sample_bond_def)

definition sample_shape :: "bond_world \<Rightarrow> bool" where
  "sample_shape w \<longleftrightarrow> length (bw_conns w) = 1 \<and> sc_id (bw_conns w ! 0) = 9
    \<and> ra_writeClosed (sc_up (bw_conns w ! 0)) \<and> \<not> sc_done (bw_conns w ! 0)
    \<and> \<not> conn_ctx_err w 0 \<and> sc_run (bw_conns w ! 0) = RunCopy"

lemma sample_bond_shape:
  "length (bw_conns sample_bond) = 1 \<and> sc_id (bw_conns sample_bond ! 0) = 9
    \<and> ra_writeClosed (sc_up (bw_conns sample_bond ! 0)) \<and> \<not> sc_done (bw_conns sample_bond ! 0)
    \<and> \<not> conn_ctx_err sample_bond 0 \<and> sc_run (bw_conns sample_bond ! 0) = RunCopy"
proof -
  have "case bond_run sample_bond_run bond_start of None \<Rightarrow> False | Some w \<Rightarrow> sample_shape w" by code_simp
  then obtain w where w: "bond_run sample_bond_run bond_start = Some w" "sample_shape w"
    by (cases "bond_run sample_bond_run bond_start") simp_all
  have "sample_bond = w" by (simp only: sample_bond_def w(1) option.sel)
  then show ?thesis using w(2) unfolding sample_shape_def by (elim ssubst)
qed

theorem bonded_upload_safe_witness: "cn_sent (ra_conn (sc_up (bw_conns sample_bond ! 0))) = [1, 2, 3]"
proof -
  have "0 < length (bw_conns sample_bond)" using sample_bond_shape by linarith
  note safe = bonded_upload_safe [OF sample_bond this, unfolded Let_def]
  have "ra_writeClosed (sc_up (bw_conns sample_bond ! 0))" using sample_bond_shape by blast
  then have c: "cn_sent (ra_conn (sc_up (bw_conns sample_bond ! 0))) = concat (sample_src (sc_id (bw_conns sample_bond ! 0)))"
    using safe by (simp only: if_True)
  have i: "sc_id (bw_conns sample_bond ! 0) = 9" using sample_bond_shape by blast
  show ?thesis unfolding c i by (simp add: sample_src_def)
qed

text \<open>There is at most one live bonded connection per connection id, and the registry finds it, so
  that all lanes of a client's connection meet; the goroutine that unregisters a finished
  connection never removes its successor.\<close>

theorem one_live_bond:
  assumes "bond_steps src bond_start w" and "c < length (bw_conns w)" and "\<not> sc_done (bw_conns w ! c)"
  shows "bond_get (sc_id (bw_conns w ! c)) w = (w, c)
    \<and> (if d < length (bw_conns w) \<and> sc_id (bw_conns w ! d) = sc_id (bw_conns w ! c)
       then sc_done (bw_conns w ! d) \<or> d = c else True)
    \<and> (case bond_step (B_unregister d) w of
         None \<Rightarrow> True | Some w' \<Rightarrow> bw_registry w' (sc_id (bw_conns w ! c)) = Some c)"
proof -
  have reg: "breg_ok w" using bond.reachable_inv [OF refl assms(1)] by (simp add: bond_inv_def)
  then have c: "bw_registry w (sc_id (bw_conns w ! c)) = Some c" using assms(2,3) by (simp add: breg_ok_def)
  have "bw_registry w' (sc_id (bw_conns w ! c)) = Some c" if "bond_step (B_unregister d) w = Some w'" for w'
  proof -
    have d: "d < length (bw_conns w)" "sc_done (bw_conns w ! d)"
      "w' = w\<lparr>bw_registry := bond_unregister (sc_id (bw_conns w ! d)) d (bw_registry w)\<rparr>"
      using that by (auto simp: bond_step_def split: if_splits)
    then have "d \<noteq> c" using assms(3) by blast
    then show ?thesis
      using c bond_registry.lookup_drop_if [of "sc_id (bw_conns w ! d)" d "bw_registry w" "sc_id (bw_conns w ! c)"] d(3)
      by auto
  qed
  moreover have "sc_done (bw_conns w ! d) \<or> d = c"
    if "d < length (bw_conns w)" "sc_id (bw_conns w ! d) = sc_id (bw_conns w ! c)"
  proof (rule disjCI)
    assume "\<not> d = c"
    show "sc_done (bw_conns w ! d)"
    proof (rule ccontr)
      assume "\<not> sc_done (bw_conns w ! d)"
      then have "bw_registry w (sc_id (bw_conns w ! d)) = Some d" using reg that(1) unfolding breg_ok_def by blast
      then show False using that(2) c \<open>\<not> d = c\<close> by (metis option.inject)
    qed
  qed
  moreover have "bond_get (sc_id (bw_conns w ! c)) w = (w, c)" by (simp only: bond_get_def c option.simps)
  ultimately show ?thesis by (cases "bond_step (B_unregister d) w") simp_all
qed

theorem one_live_bond_witness: "bond_get 9 sample_bond = (sample_bond, 0)"
  using one_live_bond [OF sample_bond, of 0] sample_bond_shape by simp



text \<open>A bonded connection cannot leak: from every reachable state in which a started connection is
  cancelled, its goroutines can run to their end, so that it is done and its lanes are released.\<close>

theorem cancelled_bond_ends:
  assumes "bond_steps src bond_start w" and "c < length (bw_conns w)"
    and "sc_run (bw_conns w ! c) \<noteq> RunIdle" and "conn_ctx_err w c" and "\<forall>cid. length (src cid) < 2 ^ 64"
  shows "\<exists>w'. bond_steps src w w' \<and> sc_done (bw_conns w' ! c)"
  using can_finish [OF bond.reachable_inv [OF refl assms(1)] assms(2-5)] .

theorem cancelled_bond_ends_witness:
  "\<exists>w'. bond_steps sample_src (sample_bond\<lparr>bw_ctx_done := True\<rparr>) w' \<and> sc_done (bw_conns w' ! 0)"
proof -
  have N: "\<forall>cid. length (sample_src cid) < 2 ^ 64" by (simp add: sample_src_def)
  have "bond_next sample_src sample_bond (sample_bond\<lparr>bw_ctx_done := True\<rparr>)"
    unfolding bond_next_def using N by (intro conjI exI [of _ B_ctx_cancel]) (simp_all add: bond_step_def label_ok_def)
  then have "bond_steps sample_src bond_start (sample_bond\<lparr>bw_ctx_done := True\<rparr>)"
    using sample_bond by (meson rtranclp.rtrancl_into_rtrancl)
  then show ?thesis using cancelled_bond_ends [of sample_src "sample_bond\<lparr>bw_ctx_done := True\<rparr>" 0] sample_bond_shape N
    by (simp add: conn_ctx_err_def)
qed

end
