(* ===== verification/Bond_End_To_End.thy ===== *)
theory Bond_End_To_End
  imports Bond_Client Bond_Server_Safety
begin

text \<open>
  A bonded upload from end to end: what the client's upload loop (\<open>copyTCPToBond\<close>) puts on its lanes is
  what the server's side of \<open>Bond_Server\<close> relies on. The log of a lane is the list of the frames that
  are complete on its stream.
\<close>

section \<open>What the client puts on a lane\<close>

text \<open>The chunks that the upload loop reads from the local connection: it stops at the first error.\<close>

fun up_chunks :: "(bytes \<times> io_error option \<times> (nat \<Rightarrow> bool) \<times> bool) list \<Rightarrow> bytes list" where
  "up_chunks [] = []"
| "up_chunks ((payload, err, _, _) # reads) =
     (if payload = [] then [] else [payload]) @ (if err = None then up_chunks reads else [])"

definition hello_bytes :: "u64 \<Rightarrow> bytes \<Rightarrow> bool" where
  "hello_bytes connID base \<longleftrightarrow>
     (\<exists>i n. base = bondMagic @ [bondVersion] @ be_bytes 8 connID @ be_bytes 2 (i :: u16) @ be_bytes 2 (n :: u16))"

definition good_frame :: "bytes list \<Rightarrow> bondFrame \<Rightarrow> bool" where
  "good_frame chunks f \<longleftrightarrow> genuine chunks f \<and> frame_ok f"

definition stuck :: "bytes \<Rightarrow> bool" where
  "stuck torn \<longleftrightarrow> (\<forall>r'. rd_bytes r' = torn \<longrightarrow> (\<exists>e r''. readBondFrame r' = (Inl e, r'')))"

definition lane_log :: "u64 \<Rightarrow> bytes list \<Rightarrow> conn \<Rightarrow> bondFrame list \<Rightarrow> bytes \<Rightarrow> bool" where
  "lane_log connID chunks s fs torn \<longleftrightarrow>
     (\<exists>base. hello_bytes connID base \<and> cn_sent s = base @ concat (map encode_frame fs) @ torn)
     \<and> list_all (good_frame chunks) fs \<and> stuck torn"

lemma stuck_Nil [simp]: "stuck []"
  by (simp add: stuck_def readBondFrame_end)

lemma stuck_take: "frame_ok f \<Longrightarrow> k < length (encode_frame f) \<Longrightarrow> stuck (take k (encode_frame f))"
  unfolding stuck_def using readBondFrame_torn by blast

lemma lane_log_write:
  assumes log: "lane_log connID chunks s fs []" and f: "good_frame chunks \<lparr>fr_typ = typ, fr_seq = seq, fr_data = payload\<rparr>"
    and w: "client_writeBondFrame s typ seq payload = (s', err)"
  shows "if err = None then lane_log connID chunks s' (fs @ [\<lparr>fr_typ = typ, fr_seq = seq, fr_data = payload\<rparr>]) []
    else \<exists>fs' torn. lane_log connID chunks s' (fs @ fs') torn"
proof -
  let ?f = "\<lparr>fr_typ = typ, fr_seq = seq, fr_data = payload\<rparr>"
  note W = writeBondFrame_cases [OF w [unfolded client_writeBondFrame_eq]]
  show ?thesis
  proof (cases "err = None")
    case True
    then show ?thesis using W log f by (auto simp: lane_log_def)
  next
    case False
    then obtain k where k: "cn_sent s' = cn_sent s @ take k (encode_frame ?f)" using W by auto
    show ?thesis
    proof (cases "k < length (encode_frame ?f)")
      case True
      then have "lane_log connID chunks s' (fs @ []) (take k (encode_frame ?f))"
        using k log f stuck_take by (auto simp: lane_log_def good_frame_def)
      then show ?thesis using False by (simp only: if_False) blast
    next
      case full: False
      then have "lane_log connID chunks s' (fs @ [?f]) []"
        using k log f by (auto simp: lane_log_def)
      then show ?thesis using False by (simp only: if_False) blast
    qed
  qed
qed

text \<open>The lanes with their logs: a lane that is not dead has no incomplete frame.\<close>

definition lane_sent :: "u64 \<Rightarrow> bytes list \<Rightarrow> bondClientLane \<Rightarrow> bondFrame list \<Rightarrow> bool" where
  "lane_sent connID chunks lane fs \<longleftrightarrow>
     (\<exists>torn. lane_log connID chunks (cl_stream lane) fs torn \<and> (\<not> cl_dead lane \<longrightarrow> torn = []))"

definition logs_grow :: "bondFrame list list \<Rightarrow> bondFrame list list \<Rightarrow> bool" where
  "logs_grow logs logs' \<longleftrightarrow> list_all2 (\<lambda>fs fs'. \<exists>gs. fs' = fs @ gs) logs logs'"

lemma logs_grow_refl: "logs_grow logs logs"
  by (simp add: logs_grow_def list_all2_same)

lemma logs_grow_trans: "logs_grow a b \<Longrightarrow> logs_grow b c \<Longrightarrow> logs_grow a c"
  unfolding logs_grow_def list_all2_conv_all_nth by (metis append.assoc)

lemma logs_grow_update: "i < length logs \<Longrightarrow> logs_grow logs (logs[i := logs ! i @ gs])"
  by (auto simp: logs_grow_def list_all2_conv_all_nth nth_list_update)

lemma logs_grow_mem: "logs_grow logs logs' \<Longrightarrow> f \<in> \<Union> (set (map set logs)) \<Longrightarrow> f \<in> \<Union> (set (map set logs'))"
proof -
  assume g: "logs_grow logs logs'" and "f \<in> \<Union> (set (map set logs))"
  then obtain i where i: "i < length logs" "f \<in> set (logs ! i)" by (auto simp: in_set_conv_nth [of _ logs])
  then have "i < length logs'" "\<exists>gs. logs' ! i = logs ! i @ gs"
    using g by (simp_all add: logs_grow_def list_all2_conv_all_nth)
  then have "i < length logs'" "f \<in> set (logs' ! i)" using i(2) by auto
  then show ?thesis using nth_mem by (simp, blast)
qed

lemma lane_index_less:
  assumes "lanes \<noteq> []" and "length lanes < 2 ^ 64"
  shows "unat ((idx :: u64) mod of_nat (length lanes)) < length lanes"
  using assms counter_index [of "length lanes" idx] by simp

lemma nextLane_logs:
  assumes "list_all2 (lane_sent connID chunks) lanes logs"
    and "good_frame chunks \<lparr>fr_typ = typ, fr_seq = seq, fr_data = payload\<rparr>"
    and "attempts \<le> length lanes" and "length lanes < 2 ^ 64"
    and "nextLane ctx attempts typ seq payload laneIdx lanes = (lanes', laneIdx', res)"
  shows "\<exists>logs'. list_all2 (lane_sent connID chunks) lanes' logs' \<and> logs_grow logs logs' \<and> length lanes' = length lanes
    \<and> (case res of Inl _ \<Rightarrow> True
       | Inr l \<Rightarrow> \<lparr>fr_typ = typ, fr_seq = seq, fr_data = payload\<rparr> \<in> \<Union> (set (map set logs')))"
  using assms
proof (induction attempts arbitrary: laneIdx lanes logs)
  case 0
  then show ?case using logs_grow_refl by auto
next
  case (Suc k)
  let ?f = "\<lparr>fr_typ = typ, fr_seq = seq, fr_data = payload\<rparr>"
  let ?idx = "unat (laneIdx mod of_nat (length lanes))"
  let ?lane = "lanes ! ?idx"
  have ne: "lanes \<noteq> []" using Suc.prems(3) by auto
  have i: "?idx < length lanes" "?idx < length logs"
    using lane_index_less [OF ne Suc.prems(4)] Suc.prems(1) by (auto dest: list_all2_lengthD)
  have sent: "lane_sent connID chunks ?lane (logs ! ?idx)" using Suc.prems(1) i by (simp add: list_all2_conv_all_nth)
  show ?case
  proof (cases "cl_dead ?lane")
    case True
    then show ?thesis using Suc.IH [OF Suc.prems(1,2)] Suc.prems(3-5) by (simp add: Let_def)
  next
    case False
    then have log: "lane_log connID chunks (cl_stream ?lane) (logs ! ?idx) []" using sent by (auto simp: lane_sent_def)
    obtain s err where w: "client_writeBondFrame (cl_stream ?lane) typ seq payload = (s, err)" by fastforce
    note W = lane_log_write [OF log Suc.prems(2) w]
    show ?thesis
    proof (cases err)
      case None
      then have res: "lanes' = lanes[?idx := ?lane\<lparr>cl_stream := s\<rparr>]" "res = Inr ?idx"
        using Suc.prems(5) False w by (auto simp: Let_def)
      have "lane_sent connID chunks (?lane\<lparr>cl_stream := s\<rparr>) (logs ! ?idx @ [?f])"
        using W None False by (auto simp: lane_sent_def)
      then have "list_all2 (lane_sent connID chunks) lanes' (logs[?idx := logs ! ?idx @ [?f]])"
        unfolding res using Suc.prems(1) by (intro list_all2_update_cong)
      moreover have "?f \<in> \<Union> (set (map set (logs[?idx := logs ! ?idx @ [?f]])))"
        using i(2) set_update_memI [of ?idx logs "logs ! ?idx @ [?f]"] by fastforce
      ultimately show ?thesis using logs_grow_update [OF i(2)] res by auto
    next
      case (Some e)
      let ?lanes = "lanes[?idx := ?lane\<lparr>cl_stream := s, cl_dead := True\<rparr>]"
      obtain fs' torn where "lane_log connID chunks s (logs ! ?idx @ fs') torn" using W Some by auto
      then have "lane_sent connID chunks (?lane\<lparr>cl_stream := s, cl_dead := True\<rparr>) (logs ! ?idx @ fs')"
        by (auto simp: lane_sent_def)
      then have all: "list_all2 (lane_sent connID chunks) ?lanes (logs[?idx := logs ! ?idx @ fs'])"
        using Suc.prems(1) by (intro list_all2_update_cong)
      note grow = logs_grow_update [OF i(2), of fs']
      show ?thesis
      proof (cases "ctx (Suc k)")
        case True
        then have "lanes' = ?lanes" "res = Inl CtxErr" using Suc.prems(5) False w Some by (auto simp: Let_def)
        then show ?thesis using all grow by auto
      next
        case ctx: False
        have "nextLane ctx k typ seq payload (laneIdx + 1) ?lanes = (lanes', laneIdx', res)"
          using Suc.prems(5) False w Some ctx by (simp add: Let_def)
        then obtain logs' where "list_all2 (lane_sent connID chunks) lanes' logs'" "logs_grow (logs[?idx := logs ! ?idx @ fs']) logs'"
          "length lanes' = length lanes" "case res of Inl _ \<Rightarrow> True | Inr l \<Rightarrow> ?f \<in> \<Union> (set (map set logs'))"
          using Suc.IH [OF all Suc.prems(2)] Suc.prems(3,4) by auto
        then show ?thesis using grow logs_grow_trans by blast
      qed
    qed
  qed
qed

section \<open>Reliable lanes\<close>

definition live_lanes :: "bondClientLane list \<Rightarrow> bool" where
  "live_lanes lanes \<longleftrightarrow> lanes \<noteq> [] \<and> length lanes < 2 ^ 64
     \<and> list_all (\<lambda>lane. \<not> cl_dead lane \<and> reliable (cl_stream lane)) lanes"

lemma nextLane_live:
  assumes "live_lanes lanes" and "nextLane ctx (length lanes) typ seq payload laneIdx lanes = (lanes', laneIdx', res)"
  shows "live_lanes lanes' \<and> (\<exists>l. res = Inr l)"
proof -
  let ?idx = "unat (laneIdx mod of_nat (length lanes))"
  have i: "?idx < length lanes" using lane_index_less assms(1) unfolding live_lanes_def by blast
  then have lane: "\<not> cl_dead (lanes ! ?idx)" "reliable (cl_stream (lanes ! ?idx))"
    using assms(1) by (simp_all add: live_lanes_def list_all_length)
  obtain s where s: "client_writeBondFrame (cl_stream (lanes ! ?idx)) typ seq payload = (s, None)" "reliable s"
    using writeBondFrame_reliable [OF lane(2), of "typ" seq payload] by (auto simp: client_writeBondFrame_eq)
  obtain k where k: "length lanes = Suc k" using i by (cases "length lanes") auto
  have "nextLane ctx (Suc k) typ seq payload laneIdx lanes = (lanes', laneIdx', res)"
    using assms(2) by (simp only: k)
  then have "lanes' = lanes[?idx := (lanes ! ?idx)\<lparr>cl_stream := s\<rparr>] \<and> res = Inr ?idx"
    using lane(1) s(1) by (auto simp: Let_def)
  moreover have "live_lanes (lanes[?idx := (lanes ! ?idx)\<lparr>cl_stream := s\<rparr>])"
    using assms(1) lane(1) s(2) i by (auto simp: live_lanes_def list_all_length nth_list_update)
  ultimately show ?thesis by blast
qed

text \<open>The FIN frames.\<close>

definition lane_end :: "u64 \<Rightarrow> bytes list \<Rightarrow> bondClientLane \<Rightarrow> bondFrame list \<Rightarrow> bool" where
  "lane_end connID chunks lane fs \<longleftrightarrow> (\<exists>torn. lane_log connID chunks (cl_stream lane) fs torn)"

lemma lane_sent_end: "lane_sent connID chunks lane fs \<Longrightarrow> lane_end connID chunks lane fs"
  by (auto simp: lane_sent_def lane_end_def)

lemma good_fin: "good_frame chunks (fin_frame chunks)"
  by (simp add: good_frame_def genuine_def frame_ok_def fin_frame_def)

lemma fin_logs:
  assumes "lane_sent connID chunks lane fs"
  shows "\<exists>gs. lane_end connID chunks (hd (write_fins (of_nat (length chunks)) [lane])) (fs @ gs)
    \<and> (\<not> cl_dead lane \<and> reliable (cl_stream lane) \<longrightarrow> gs = [fin_frame chunks]
        \<and> lane_log connID chunks (cl_stream (hd (write_fins (of_nat (length chunks)) [lane]))) (fs @ gs) [])"
proof (cases "cl_dead lane")
  case True
  then show ?thesis using lane_sent_end [OF assms] by (intro exI [of _ "[]"]) (simp add: write_fins_def)
next
  case False
  then have log: "lane_log connID chunks (cl_stream lane) fs []" using assms by (auto simp: lane_sent_def)
  have f: "\<lparr>fr_typ = bondFrameFIN, fr_seq = of_nat (length chunks), fr_data = []\<rparr> = fin_frame chunks"
    by (simp add: fin_frame_def)
  obtain s err where w: "client_writeBondFrame (cl_stream lane) bondFrameFIN (of_nat (length chunks)) [] = (s, err)"
    by fastforce
  have W: "if err = None then lane_log connID chunks s (fs @ [fin_frame chunks]) []
      else \<exists>gs torn. lane_log connID chunks s (fs @ gs) torn"
    using lane_log_write [OF log _ w] good_fin [of chunks] unfolding f by simp
  have hd: "hd (write_fins (of_nat (length chunks)) [lane]) = lane\<lparr>cl_stream := s\<rparr>"
    using False w by (simp add: write_fins_def)
  show ?thesis
  proof (cases err)
    case None
    then show ?thesis using W hd by (auto simp: lane_end_def)
  next
    case (Some e)
    then have "\<not> reliable (cl_stream lane)"
      using w writeBondFrame_reliable by (metis client_writeBondFrame_eq option.distinct(1) prod.inject)
    then show ?thesis using W hd Some by (auto simp: lane_end_def)
  qed
qed

lemma write_fins_hd: "write_fins seq lanes = map (\<lambda>lane. hd (write_fins seq [lane])) lanes"
  by (simp add: write_fins_def)

lemma fins_logs:
  assumes "list_all2 (lane_sent connID chunks) lanes logs"
  shows "\<exists>logs'. list_all2 (lane_end connID chunks) (write_fins (of_nat (length chunks)) lanes) logs' \<and> logs_grow logs logs'
    \<and> (live_lanes lanes \<longrightarrow> list_all (\<lambda>fs. fin_frame chunks \<in> set fs) logs'
        \<and> list_all2 (\<lambda>lane fs. lane_log connID chunks (cl_stream lane) fs []) (write_fins (of_nat (length chunks)) lanes) logs')"
proof -
  let ?h = "\<lambda>lane. hd (write_fins (of_nat (length chunks)) [lane])"
  let ?P = "\<lambda>lane fs gs. lane_end connID chunks (?h lane) (fs @ gs)
    \<and> (\<not> cl_dead lane \<and> reliable (cl_stream lane) \<longrightarrow> gs = [fin_frame chunks]
        \<and> lane_log connID chunks (cl_stream (?h lane)) (fs @ gs) [])"
  have len: "length logs = length lanes" using assms by (simp add: list_all2_lengthD)
  have "\<forall>i. \<exists>gs. i < length lanes \<longrightarrow> ?P (lanes ! i) (logs ! i) gs"
    using assms fin_logs unfolding list_all2_conv_all_nth by blast
  then obtain g where g: "\<And>i. i < length lanes \<Longrightarrow> ?P (lanes ! i) (logs ! i) (g i)" by metis
  let ?logs = "map (\<lambda>i. logs ! i @ g i) [0..<length lanes]"
  have "list_all2 (lane_end connID chunks) (map ?h lanes) ?logs" using g by (simp add: list_all2_conv_all_nth)
  moreover have "logs_grow logs ?logs" using len by (simp add: logs_grow_def list_all2_conv_all_nth)
  moreover have "list_all (\<lambda>fs. fin_frame chunks \<in> set fs) ?logs
      \<and> list_all2 (\<lambda>lane fs. lane_log connID chunks (cl_stream lane) fs []) (map ?h lanes) ?logs" if "live_lanes lanes"
  proof -
    have "g i = [fin_frame chunks]" "lane_log connID chunks (cl_stream (?h (lanes ! i))) (logs ! i @ g i) []"
      if "i < length lanes" for i
      using g [OF that] \<open>live_lanes lanes\<close> that by (auto simp: live_lanes_def list_all_length)
    then show ?thesis by (simp add: list_all_length list_all2_conv_all_nth)
  qed
  ultimately show ?thesis by (subst (1 2) write_fins_hd) blast
qed

section \<open>The upload loop\<close>

text \<open>A stream that ends orderly: the loop reaches a read with an error, and is not cancelled before.\<close>

fun reads_end :: "(bytes \<times> io_error option \<times> (nat \<Rightarrow> bool) \<times> bool) list \<Rightarrow> bool" where
  "reads_end [] = False"
| "reads_end ((_, err, _, ctxDone) # reads) = (err \<noteq> None \<or> \<not> ctxDone \<and> reads_end reads)"

definition sent_all :: "u64 \<Rightarrow> bytes list \<Rightarrow> bondClientLane list \<Rightarrow> bondFrame list list \<Rightarrow> bool" where
  "sent_all connID chunks lanes logs \<longleftrightarrow>
     list_all2 (\<lambda>lane fs. lane_log connID chunks (cl_stream lane) fs []) lanes logs
     \<and> list_all (\<lambda>fs. fin_frame chunks \<in> set fs) logs
     \<and> (\<forall>i < length chunks. chunk_frame chunks i \<in> \<Union> (set (map set logs)))"

lemma copy_logs:
  assumes "list_all2 (lane_sent connID chunks) (up_lanes u) logs"
    and "chunks = past @ up_chunks reads" and "up_seq u = of_nat (length past)"
    and "list_all (\<lambda>(payload, _). length payload \<le> bondMaxChunk) reads"
    and "length (up_lanes u) < 2 ^ 64"
    and "\<And>i. i < length past \<Longrightarrow> chunk_frame chunks i \<in> \<Union> (set (map set logs))"
  shows "\<exists>logs'. list_all2 (lane_end connID chunks) (up_lanes (copyTCPToBond reads u)) logs'
    \<and> (live_lanes (up_lanes u) \<and> reads_end reads \<longrightarrow> sent_all connID chunks (up_lanes (copyTCPToBond reads u)) logs')"
  using assms
proof (induction reads arbitrary: u logs past)
  case Nil
  then have "list_all2 (lane_end connID chunks) (up_lanes (copyTCPToBond [] u)) logs"
    by (auto elim: list_all2_mono intro: lane_sent_end)
  then show ?case by auto
next
  case (Cons r reads)
  obtain payload err ctx ctxDone where r: "r = (payload, err, ctx, ctxDone)" by (cases r) auto
  let ?past = "if payload = [] then past else past @ [payload]"
  have step: "\<exists>u1 ok logs1. list_all2 (lane_sent connID chunks) (up_lanes u1) logs1 \<and> length (up_lanes u1) = length (up_lanes u)
    \<and> (if ok then up_seq u1 = of_nat (length ?past) \<and> (\<forall>i < length ?past. chunk_frame chunks i \<in> \<Union> (set (map set logs1)))
         \<and> (live_lanes (up_lanes u) \<longrightarrow> live_lanes (up_lanes u1)) else \<not> live_lanes (up_lanes u))
    \<and> copyTCPToBond (r # reads) u
      = (if \<not> ok then u1
         else if err \<noteq> None then u1\<lparr>up_lanes := write_fins (up_seq u1) (up_lanes u1), up_ended := True\<rparr>
         else if ctxDone then u1\<lparr>up_ended := True\<rparr>
         else copyTCPToBond reads u1)"
  proof (cases "payload = []")
    case True
    then show ?thesis using Cons.prems r by (intro exI [of _ u] exI [of _ True] exI [of _ logs]) simp
  next
    case False
    obtain lanes laneIdx res where w: "writeBondFrameToNextLane ctx bondFrameData (up_seq u) payload (up_laneIdx u) (up_lanes u)
        = (lanes, laneIdx, res)" by (metis prod_cases3)
    note n = w [unfolded writeBondFrameToNextLane_def]
    have c: "length past < length chunks" "chunks ! length past = payload"
      using Cons.prems(2) r False by simp_all
    then have f: "\<lparr>fr_typ = bondFrameData, fr_seq = up_seq u, fr_data = payload\<rparr> = chunk_frame chunks (length past)"
      using Cons.prems(3) by (simp add: chunk_frame_def)
    have "length payload \<le> bondMaxChunk" using Cons.prems(4) r by simp
    then have "good_frame chunks \<lparr>fr_typ = bondFrameData, fr_seq = up_seq u, fr_data = payload\<rparr>"
      using c unfolding f by (auto simp: good_frame_def genuine_def frame_ok_def chunk_frame_def bondMaxChunk_def)
    from nextLane_logs [OF Cons.prems(1) this order_refl Cons.prems(5) n] obtain logs1 where
      L: "list_all2 (lane_sent connID chunks) lanes logs1" "logs_grow logs logs1" "length lanes = length (up_lanes u)"
        "case res of Inl _ \<Rightarrow> True | Inr l \<Rightarrow> chunk_frame chunks (length past) \<in> \<Union> (set (map set logs1))"
      unfolding f by blast
    have live: "live_lanes (up_lanes u) \<Longrightarrow> live_lanes lanes \<and> (\<exists>l. res = Inr l)" using nextLane_live n by blast
    show ?thesis
    proof (cases res)
      case (Inl e)
      then show ?thesis using L live w r False
        by (intro exI [of _ "u\<lparr>up_lanes := lanes, up_laneIdx := laneIdx, up_ended := True\<rparr>"] exI [of _ False] exI [of _ logs1])
          (auto simp: Let_def)
    next
      case (Inr l)
      let ?u = "u\<lparr>up_lanes := lanes, up_laneIdx := laneIdx, up_seq := up_seq u + 1,
          up_pool := upd_pooled (cl_ps (lanes ! l)) (\<lambda>p. p\<lparr>ps_toSession := ps_toSession p + of_nat (length payload)\<rparr>) (up_pool u)\<rparr>"
      have "chunk_frame chunks i \<in> \<Union> (set (map set logs1))" if "i < length ?past" for i
        using that Cons.prems(6) logs_grow_mem [OF L(2)] L(4) Inr False
        by (cases "i = length past") (simp_all add: less_Suc_eq)
      then show ?thesis using L live w r False Inr Cons.prems(3)
        by (intro exI [of _ ?u] exI [of _ True] exI [of _ logs1]) (simp add: Let_def)
    qed
  qed
  then obtain u1 ok logs1 where S: "list_all2 (lane_sent connID chunks) (up_lanes u1) logs1"
    "length (up_lanes u1) = length (up_lanes u)"
    "if ok then up_seq u1 = of_nat (length ?past) \<and> (\<forall>i < length ?past. chunk_frame chunks i \<in> \<Union> (set (map set logs1)))
         \<and> (live_lanes (up_lanes u) \<longrightarrow> live_lanes (up_lanes u1)) else \<not> live_lanes (up_lanes u)"
    "copyTCPToBond (r # reads) u
      = (if \<not> ok then u1
         else if err \<noteq> None then u1\<lparr>up_lanes := write_fins (up_seq u1) (up_lanes u1), up_ended := True\<rparr>
         else if ctxDone then u1\<lparr>up_ended := True\<rparr>
         else copyTCPToBond reads u1)" by blast
  have stop: "list_all2 (lane_end connID chunks) (up_lanes u1) logs1"
    using S(1) by (auto elim: list_all2_mono intro: lane_sent_end)
  consider "\<not> ok" | "ok" "err \<noteq> None" | "ok" "err = None" "ctxDone" | "ok" "err = None" "\<not> ctxDone" by blast
  then show ?case
  proof cases
    case 1
    then show ?thesis using S stop by auto
  next
    case 2
    then have all: "chunks = ?past" using Cons.prems(2) r by auto
    then have seq: "up_seq u1 = of_nat (length chunks)" using S(3) 2 by simp
    obtain logs' where "list_all2 (lane_end connID chunks) (write_fins (of_nat (length chunks)) (up_lanes u1)) logs'"
      "logs_grow logs1 logs'" "live_lanes (up_lanes u1) \<longrightarrow> list_all (\<lambda>fs. fin_frame chunks \<in> set fs) logs'
        \<and> list_all2 (\<lambda>lane fs. lane_log connID chunks (cl_stream lane) fs []) (write_fins (of_nat (length chunks)) (up_lanes u1)) logs'"
      using fins_logs [OF S(1)] by blast
    moreover have "\<forall>i < length chunks. chunk_frame chunks i \<in> \<Union> (set (map set logs'))"
      using S(3) 2(1) all logs_grow_mem [OF calculation(2)] by simp
    ultimately show ?thesis using S(3,4) 2 seq by (auto simp: sent_all_def)
  next
    case 3
    then show ?thesis using S stop r by auto
  next
    case 4
    have "chunks = ?past @ up_chunks reads" using Cons.prems(2) r 4 by simp
    moreover have "list_all (\<lambda>(payload, _). length payload \<le> bondMaxChunk) reads" using Cons.prems(4) by simp
    ultimately show ?thesis
      using Cons.IH [of u1 logs1 ?past] S Cons.prems(5) 4 r by auto
  qed
qed

section \<open>Opening the lanes\<close>

definition fresh_streams :: "(nat \<times> conn option) list \<Rightarrow> bool" where
  "fresh_streams cs \<longleftrightarrow> list_all (\<lambda>(_, s). case s of None \<Rightarrow> True | Some c \<Rightarrow> cn_sent c = []) cs"

definition reliable_streams :: "(nat \<times> conn option) list \<Rightarrow> bool" where
  "reliable_streams cs \<longleftrightarrow> list_all (\<lambda>(_, s). case s of None \<Rightarrow> True | Some c \<Rightarrow> reliable c) cs"

lemma open_lanes_sent:
  assumes "open_lanes connID n i cs w = (w', lanes)" and "fresh_streams cs"
  shows "list_all2 (lane_sent connID chunks) lanes (replicate (length lanes) []) \<and> length lanes \<le> length cs
    \<and> (reliable_streams cs \<longrightarrow> list_all (\<lambda>lane. \<not> cl_dead lane \<and> reliable (cl_stream lane)) lanes)"
  using assms
proof (induction connID n i cs w arbitrary: w' lanes rule: open_lanes.induct)
  case (1 connID laneCount i w)
  then show ?case by simp
next
  case (2 connID laneCount i ps opened rest w)
  have fresh: "fresh_streams rest" using 2(6) by (simp add: fresh_streams_def)
  have rel: "reliable_streams ((ps, opened) # rest) \<Longrightarrow> reliable_streams rest" by (simp add: reliable_streams_def)
  show ?case
  proof (cases "ps_isClosed (pw_sessions w ! ps)")
    case True
    then show ?thesis using 2(1) [OF True _ fresh] 2(5) rel by auto
  next
    case False
    show ?thesis
    proof (cases opened)
      case None
      then show ?thesis using 2(2) [OF False None _ fresh] 2(5) False rel by auto
    next
      case (Some stream)
      obtain stream1 e where h: "client_writeBondHello stream connID (of_nat i) (of_nat laneCount) = (stream1, e)"
        by fastforce
      show ?thesis
      proof (cases e)
        case (Some x)
        then show ?thesis using 2(5) 2(4) [OF False \<open>opened = Some stream\<close> h [symmetric] Some _ fresh] False h \<open>opened = Some stream\<close> rel
          by auto
      next
        case None
        let ?w1 = "upd_pooled ps (\<lambda>p. p\<lparr>ps_opened := ps_opened p + 1, ps_active := ps_active p + 1\<rparr>) w"
        obtain w2 ls where r: "open_lanes connID laneCount (Suc i) rest ?w1 = (w2, ls)" by fastforce
        have eq: "lanes = \<lparr>cl_ps = ps, cl_stream = stream1, cl_dead = False\<rparr> # ls"
          using 2(5) False \<open>opened = Some stream\<close> h None r by simp
        have "cn_sent stream = []" using 2(6) \<open>opened = Some stream\<close> by (simp add: fresh_streams_def)
        then have "hello_bytes connID (cn_sent stream1)"
          using h None conn_Write_ok unfolding client_writeBondHello_def hello_bytes_def by fastforce
        then have "lane_sent connID chunks \<lparr>cl_ps = ps, cl_stream = stream1, cl_dead = False\<rparr> []"
          by (auto simp: lane_sent_def lane_log_def)
        moreover have "reliable stream1" if "reliable stream"
          using conn_Write_reliable [OF that] h None unfolding client_writeBondHello_def by (metis prod.inject)
        ultimately show ?thesis
          using 2(3) [OF False \<open>opened = Some stream\<close> h [symmetric] None refl r fresh] eq rel \<open>opened = Some stream\<close>
          by (auto simp: reliable_streams_def)
      qed
    qed
  qed
qed

text \<open>The frames that the server's reader of a lane delivers: the first four bytes are the magic.\<close>

definition lane_frames :: "nat \<Rightarrow> bytes \<Rightarrow> bondFrame list" where
  "lane_frames fuel bs =
     (case readBondHelloAfterMagic \<lparr>rd_bytes = drop 4 bs, rd_end = EOF\<rparr> bondMagic of
        (Inr _, rest) \<Rightarrow> fst (read_loop readBondFrame fuel rest)
      | _ \<Rightarrow> [])"

lemma hello_read:
  assumes "hello_bytes connID base" and "rd_bytes r = drop 4 (base @ more_bytes)"
  shows "\<exists>hello. readBondHelloAfterMagic r bondMagic = (Inr hello, r\<lparr>rd_bytes := more_bytes\<rparr>)
    \<and> bh_connID hello = connID"
proof -
  obtain i n where base: "base = bondMagic @ [bondVersion] @ be_bytes 8 connID @ be_bytes 2 (i :: u16) @ be_bytes 2 (n :: u16)"
    using assms(1) by (auto simp: hello_bytes_def)
  let ?body = "[bondVersion] @ be_bytes 8 connID @ be_bytes 2 i @ be_bytes 2 n"
  have "rd_bytes r = ?body @ more_bytes" using assms(2) base by (simp add: bondMagic_def)
  then have "ReadFull 13 r = (Inr ?body, r\<lparr>rd_bytes := more_bytes\<rparr>)" by (intro ReadFull_append) simp_all
  moreover have "parseBondHelloHeader (bondMagic @ ?body)
      = Inr \<lparr>bh_connID = connID, bh_laneIndex = i, bh_laneCount = n\<rparr>"
    by (simp add: parseBondHelloHeader_def bondMagic_def be_word64 be_word16)
  ultimately show ?thesis by (simp add: readBondHelloAfterMagic_def)
qed

lemma lane_log_label:
  assumes "lane_log connID chunks s fs torn" and "rd_bytes inp = drop 4 (cn_sent s)"
  shows "label_ok (\<lambda>_. chunks) (B_open stream inp)"
proof -
  obtain base where b: "hello_bytes connID base" "cn_sent s = base @ concat (map encode_frame fs) @ torn"
    "list_all (good_frame chunks) fs" "stuck torn"
    using assms(1) by (auto simp: lane_log_def)
  obtain hello where "readBondHelloAfterMagic inp bondMagic
      = (Inr hello, inp\<lparr>rd_bytes := concat (map encode_frame fs) @ torn\<rparr>)"
    using hello_read [OF b(1), of inp "concat (map encode_frame fs) @ torn"] by (auto simp only: assms(2) b(2))
  moreover have "lane_src chunks (inp\<lparr>rd_bytes := concat (map encode_frame fs) @ torn\<rparr>)"
    unfolding lane_src_def using b(3,4)
    by (intro exI [of _ fs] exI [of _ torn]) (auto simp: good_frame_def stuck_def list_all_iff)
  ultimately show ?thesis by (simp add: label_ok_def)
qed

lemma lane_log_frames:
  assumes "lane_log connID chunks s fs []" and "length (cn_sent s) < fuel"
  shows "lane_frames fuel (cn_sent s) = fs"
proof -
  obtain base where b: "hello_bytes connID base" "cn_sent s = base @ concat (map encode_frame fs)"
    "list_all (good_frame chunks) fs"
    using assms(1) by (auto simp: lane_log_def)
  let ?r = "\<lparr>rd_bytes = drop 4 (cn_sent s), rd_end = EOF\<rparr>"
  let ?rest = "?r\<lparr>rd_bytes := concat (map encode_frame fs)\<rparr>"
  obtain hello where h: "readBondHelloAfterMagic ?r bondMagic = (Inr hello, ?rest)"
    using hello_read [OF b(1), of ?r "concat (map encode_frame fs)"] b(2) by auto
  have ok: "list_all frame_ok fs" using b(3) by (simp add: list_all_iff good_frame_def)
  obtain e where "read_loop readBondFrame fuel ?rest = (fs, Some e)"
    using frames.read_loop_complete [OF ok, of ?rest fuel] assms(2) b(2) encode_frame_neq_Nil by auto
  then show ?thesis using h by (simp add: lane_frames_def)
qed

lemma lane_end_label:
  assumes "list_all2 (lane_end connID chunks) lanes logs" and "lane \<in> set lanes"
    and "rd_bytes inp = drop 4 (cn_sent (cl_stream lane))"
  shows "label_ok (\<lambda>_. chunks) (B_open stream inp)"
proof -
  obtain i where "i < length lanes" "lane = lanes ! i" using assms(2) by (auto simp: in_set_conv_nth)
  then obtain torn where "lane_log connID chunks (cl_stream lane) (logs ! i) torn"
    using assms(1) by (auto simp: list_all2_conv_all_nth lane_end_def)
  then show ?thesis using lane_log_label assms(3) by blast
qed

text \<open>The upload of a connection whose lanes were just opened.\<close>

definition upload_start :: "pool_world \<Rightarrow> bondClientLane list \<Rightarrow> upload" where
  "upload_start pool lanes = \<lparr>up_seq = 0, up_laneIdx = 0, up_lanes = lanes, up_pool = pool, up_ended = False\<rparr>"

lemma upload_logs:
  assumes "open_lanes connID n 0 candidates pool = (pool1, lanes)" and "fresh_streams candidates"
    and "length candidates < 2 ^ 64" and "list_all (\<lambda>(payload, _). length payload \<le> bondMaxChunk) reads"
  shows "\<exists>logs. list_all2 (lane_end connID (up_chunks reads)) (up_lanes (copyTCPToBond reads (upload_start pool1 lanes))) logs
    \<and> (lanes \<noteq> [] \<and> reliable_streams candidates \<and> reads_end reads \<longrightarrow>
        sent_all connID (up_chunks reads) (up_lanes (copyTCPToBond reads (upload_start pool1 lanes))) logs)"
proof -
  note O = open_lanes_sent [OF assms(1,2), of "up_chunks reads"]
  have "length lanes < 2 ^ 64" using O assms(3) by linarith
  moreover from this have "live_lanes lanes" if "lanes \<noteq> []" "reliable_streams candidates"
    using that O by (simp add: live_lanes_def)
  ultimately show ?thesis
    using copy_logs [of connID "up_chunks reads" "upload_start pool1 lanes" "replicate (length lanes) []" "[]" reads] O assms(4)
    by (auto simp: upload_start_def)
qed

section \<open>Properties\<close>

lemma up_chunks_length: "length (up_chunks reads) \<le> length reads"
  by (induction reads rule: up_chunks.induct) auto

lemma nextLane_length: "nextLane ctx k b seq payload i lanes = (lanes', i', res) \<Longrightarrow> length lanes' = length lanes"
  by (induction ctx k b seq payload i lanes rule: nextLane.induct)
    (auto simp: Let_def split: if_splits prod.splits option.splits)

lemma copy_length: "length (up_lanes (copyTCPToBond reads u)) = length (up_lanes u)"
proof (induction reads u rule: copyTCPToBond.induct)
  case (1 u)
  then show ?case by simp
next
  case (2 payload err ctx ctxDone reads u)
  show ?case using 2 nextLane_length
    by (auto simp: writeBondFrameToNextLane_def write_fins_def Let_def split: prod.splits sum.splits)
qed

text \<open>C12: a bonded upload is safe from end to end: when the client opens lanes over fresh streams and
  copies the local connection onto them, and the server handles these lanes in any interleaving,
  with writes that fail half way on either side and lanes that break or attach late, then the
  backend only ever gets a prefix of the bytes that were read from the local connection, and is
  told the end of the stream only after all of them.\<close>

theorem bonded_upload_end_to_end:
  assumes "open_lanes connID n 0 candidates pool = (pool1, lanes)" and "fresh_streams candidates"
    and "length candidates < 2 ^ 64" and "length reads < 2 ^ 64"
    and "list_all (\<lambda>(payload, _). length payload \<le> bondMaxChunk) reads"
    and "bond_run labs bond_start = Some w"
    and "\<And>stream inp. B_open stream inp \<in> set labs \<Longrightarrow>
           \<exists>lane \<in> set (up_lanes (copyTCPToBond reads (upload_start pool1 lanes))).
             rd_bytes inp = drop 4 (cn_sent (cl_stream lane))"
    and "c < length (bw_conns w)"
  shows "let up = sc_up (bw_conns w ! c); stream = concat (up_chunks reads) in
    (\<exists>m. cn_sent (ra_conn up) = take m stream) \<and> (if ra_writeClosed up then cn_sent (ra_conn up) = stream else True)"
proof -
  let ?src = "\<lambda>_. up_chunks reads"
  obtain logs where logs: "list_all2 (lane_end connID (up_chunks reads))
      (up_lanes (copyTCPToBond reads (upload_start pool1 lanes))) logs"
    using upload_logs [OF assms(1,2,3,5)] by blast
  have lab: "label_ok ?src lab" if "lab \<in> set labs" for lab
  proof (cases lab)
    case (B_open stream inp)
    then show ?thesis using assms(7) that lane_end_label [OF logs] by blast
  qed (simp_all add: label_ok_def)
  have "\<forall>cid :: u64. length (?src cid) < 2 ^ 64" using up_chunks_length [of reads] assms(4) by simp
  moreover have "list_all (label_ok ?src) labs" using lab by (simp add: list_all_iff)
  ultimately have "bond_steps ?src bond_start w" using bond_run_steps [OF assms(6)] by blast
  then have "bond_inv ?src w" using bond.reachable_inv [OF refl] by blast
  then show ?thesis using inv_conn [of ?src w c] assms(8) by (simp add: conn_rec_ok_def up_safe_def Let_def)
qed

definition sample_candidates :: "(nat \<times> conn option) list" where
  "sample_candidates = [(0, Some \<lparr>cn_sent = [], cn_script = []\<rparr>), (1, None), (2, Some \<lparr>cn_sent = [], cn_script = []\<rparr>)]"

definition sample_reads :: "(bytes \<times> io_error option \<times> (nat \<Rightarrow> bool) \<times> bool) list" where
  "sample_reads = [([7, 8], None, (\<lambda>_. False), False), ([9], Some EOF, (\<lambda>_. False), False)]"

definition sample_lanes :: "bondClientLane list" where
  "sample_lanes = snd (open_lanes 5 3 0 sample_candidates sample_pool)"

definition sample_upload :: upload where
  "sample_upload = copyTCPToBond sample_reads (upload_start (fst (open_lanes 5 3 0 sample_candidates sample_pool)) sample_lanes)"

lemma sample_upload:
  "open_lanes 5 3 0 sample_candidates sample_pool = (fst (open_lanes 5 3 0 sample_candidates sample_pool), sample_lanes)"
  "fresh_streams sample_candidates" "reliable_streams sample_candidates" "reads_end sample_reads"
  "list_all (\<lambda>(payload, _). length payload \<le> bondMaxChunk) sample_reads"
  "length sample_candidates < 2 ^ 64" "length sample_reads < 2 ^ 64"
  "up_chunks sample_reads = [[7, 8], [9]]"
  by (simp_all add: sample_lanes_def fresh_streams_def reliable_streams_def reliable_def sample_candidates_def
      sample_reads_def bondMaxChunk_def)

definition sample_label :: bond_label where
  "sample_label = B_open \<lparr>cn_sent = [], cn_script = []\<rparr>
     \<lparr>rd_bytes = drop 4 (cn_sent (cl_stream (hd (up_lanes sample_upload)))), rd_end = EOF\<rparr>"

lemma sample_up_lanes: "length (up_lanes sample_upload) = 2" "length sample_lanes = 2"
  by code_simp+

theorem bonded_upload_end_to_end_witness:
  "\<exists>w m. bond_run [sample_label] bond_start = Some w \<and> length (bw_conns w) = 1
    \<and> cn_sent (ra_conn (sc_up (bw_conns w ! 0))) = take m [7, 8, 9]"
proof -
  have "case bond_run [sample_label] bond_start of None \<Rightarrow> False | Some w \<Rightarrow> length (bw_conns w) = 1" by code_simp
  then obtain w where w: "bond_run [sample_label] bond_start = Some w" "length (bw_conns w) = 1"
    by (cases "bond_run [sample_label] bond_start") simp_all
  have hd: "hd (up_lanes sample_upload) \<in> set (up_lanes sample_upload)"
    using sample_up_lanes(1) by (intro hd_in_set) (metis list.size(3) zero_neq_numeral)
  have "\<exists>m. cn_sent (ra_conn (sc_up (bw_conns w ! 0))) = take m (concat (up_chunks sample_reads))"
  proof -
    have "\<exists>lane \<in> set (up_lanes sample_upload). rd_bytes inp = drop 4 (cn_sent (cl_stream lane))"
      if "B_open stream inp \<in> set [sample_label]" for stream inp
      using that hd by (auto simp: sample_label_def)
    then show ?thesis
      using bonded_upload_end_to_end [OF sample_upload(1,2,6,7,5) w(1), of 0] w(2)
      by (simp add: sample_upload_def Let_def)
  qed
  then show ?thesis using w sample_upload(8) by auto
qed

text \<open>A bonded upload is complete from end to end: when at least one lane opens, no write on a lane
  fails and the local connection is read to its end, then the frames that the server's readers
  deliver, in whatever order the lanes interleave, make the server write exactly the bytes that
  were read, once and in order, and then close the backend's write side.\<close>

theorem bonded_upload_complete:
  assumes "open_lanes connID n 0 candidates pool = (pool1, lanes)" and "fresh_streams candidates"
    and "reliable_streams candidates" and "lanes \<noteq> []" and "length candidates < 2 ^ 64" and "length reads < 2 ^ 64"
    and "list_all (\<lambda>(payload, _). length payload \<le> bondMaxChunk) reads" and "reads_end reads"
    and "u = copyTCPToBond reads (upload_start pool1 lanes)"
    and "\<And>lane. lane \<in> set (up_lanes u) \<Longrightarrow> length (cn_sent (cl_stream lane)) < fuel"
    and "mset fs = mset (concat (map (\<lambda>lane. lane_frames fuel (cn_sent (cl_stream lane))) (up_lanes u)))"
    and "reliable backend"
  shows "let st = copyBondToBackend fs (reassembly_start backend) in
    ra_status st = UploadDone \<and> ra_writeClosed st \<and> cn_sent (ra_conn st) = cn_sent backend @ concat (up_chunks reads)"
proof -
  let ?chunks = "up_chunks reads"
  obtain logs where "sent_all connID ?chunks (up_lanes u) logs"
    using upload_logs [OF assms(1,2,5,7)] assms(3,4,8) unfolding assms(9) by blast
  then have S: "list_all2 (\<lambda>lane fs. lane_log connID ?chunks (cl_stream lane) fs []) (up_lanes u) logs"
    "list_all (\<lambda>fs. fin_frame ?chunks \<in> set fs) logs"
    "\<And>i. i < length ?chunks \<Longrightarrow> chunk_frame ?chunks i \<in> \<Union> (set (map set logs))"
    by (simp_all add: sent_all_def)
  have eq: "map (\<lambda>lane. lane_frames fuel (cn_sent (cl_stream lane))) (up_lanes u) = logs"
  proof (rule nth_equalityI)
    show len: "length (map (\<lambda>lane. lane_frames fuel (cn_sent (cl_stream lane))) (up_lanes u)) = length logs"
      using S(1) by (simp add: list_all2_lengthD)
    fix i
    assume "i < length (map (\<lambda>lane. lane_frames fuel (cn_sent (cl_stream lane))) (up_lanes u))"
    then have i: "i < length (up_lanes u)" by simp
    then have "lane_log connID ?chunks (cl_stream (up_lanes u ! i)) (logs ! i) []"
      using S(1) by (simp add: list_all2_conv_all_nth)
    then show "map (\<lambda>lane. lane_frames fuel (cn_sent (cl_stream lane))) (up_lanes u) ! i = logs ! i"
      using lane_log_frames assms(10) i by simp
  qed
  have fs: "set fs = \<Union> (set (map set logs))" using assms(11) eq by (metis mset_eq_setD set_concat set_map)
  have good: "genuine ?chunks f" if f: "f \<in> set fs" for f
  proof -
    obtain log where "log \<in> set logs" "f \<in> set log" using f unfolding fs by auto
    then obtain i where i: "i < length logs" "f \<in> set (logs ! i)" by (auto simp: in_set_conv_nth [of log])
    then have "list_all (good_frame ?chunks) (logs ! i)" using S(1) by (auto simp: list_all2_conv_all_nth lane_log_def)
    then show ?thesis using i by (simp add: list_all_iff good_frame_def)
  qed
  have "logs \<noteq> []"
  proof -
    have "length (up_lanes u) = length lanes" using copy_length [of reads "upload_start pool1 lanes"]
      unfolding assms(9) by (simp add: upload_start_def)
    then show ?thesis using assms(4) S(1) by (auto dest: list_all2_lengthD)
  qed
  then have fin: "fin_frame ?chunks \<in> set fs" using S(2) fs by (cases logs) auto
  have "length ?chunks < 2 ^ 64" using up_chunks_length [of reads] assms(6) by linarith
  moreover have "list_all (genuine ?chunks) fs" using good by (simp add: list_all_iff)
  ultimately show ?thesis
    using reassembly_complete [OF _ _ assms(12), of ?chunks fs] S(3) fs fin by (simp add: Let_def)
qed

definition sample_fs :: "bondFrame list" where
  "sample_fs = concat (rev (map (\<lambda>lane. lane_frames 99 (cn_sent (cl_stream lane))) (up_lanes sample_upload)))"

theorem bonded_upload_complete_witness:
  "cn_sent (ra_conn (copyBondToBackend sample_fs (reassembly_start \<lparr>cn_sent = [], cn_script = []\<rparr>))) = [7, 8, 9]"
proof -
  have "sample_lanes \<noteq> []" using sample_up_lanes(2) by auto
  moreover have "mset (concat (rev xss)) = mset (concat xss)" for xss :: "bondFrame list list"
    by (induction xss) simp_all
  moreover have "list_all (\<lambda>lane. length (cn_sent (cl_stream lane)) < 99) (up_lanes sample_upload)" by code_simp
  ultimately show ?thesis
    using bonded_upload_complete [OF sample_upload(1,2,3) _ sample_upload(6,7,5,4), of sample_upload 99 sample_fs
        "\<lparr>cn_sent = [], cn_script = []\<rparr>"] sample_upload(8)
    by (simp add: sample_upload_def sample_fs_def reliable_def Let_def list_all_iff)
qed

end
