(* ===== verification/Vk_Api.thy ===== *)
theory Vk_Api
  imports Complex_Main Go_Text
begin

text \<open>
  The answers of the VK API as the client reads them (\<open>pkg/clientcore/main.go\<close>): decoded JSON values,
  the captcha error with its fallbacks between field types, the order in which captcha solvers are
  tried, and the requests' bodies. A decoded JSON number is a float64, hence a rational number.
\<close>

section \<open>JSON values\<close>

datatype json = JNull | JBool bool | JNum rat | JStr string | JArr "json list" | JObj "(string \<times> json) list"

type_synonym json_object = "(string \<times> json) list"

text \<open>The type assertions \<open>m[k].(T)\<close>; a missing key is the untyped nil and fails them all.\<close>

definition get_str :: "json_object \<Rightarrow> string \<Rightarrow> string option" where
  "get_str m k = (case map_of m k of Some (JStr s) \<Rightarrow> Some s | _ \<Rightarrow> None)"

definition get_num :: "json_object \<Rightarrow> string \<Rightarrow> rat option" where
  "get_num m k = (case map_of m k of Some (JNum r) \<Rightarrow> Some r | _ \<Rightarrow> None)"

definition get_bool :: "json_object \<Rightarrow> string \<Rightarrow> bool option" where
  "get_bool m k = (case map_of m k of Some (JBool b) \<Rightarrow> Some b | _ \<Rightarrow> None)"

definition get_obj :: "json_object \<Rightarrow> string \<Rightarrow> json_object option" where
  "get_obj m k = (case map_of m k of Some (JObj v) \<Rightarrow> Some v | _ \<Rightarrow> None)"

definition get_arr :: "json_object \<Rightarrow> string \<Rightarrow> json list option" where
  "get_arr m k = (case map_of m k of Some (JArr v) \<Rightarrow> Some v | _ \<Rightarrow> None)"

text \<open>\<open>int(f)\<close> truncates; \<open>fmt.Sprintf("%.0f", f)\<close> rounds half to even.\<close>

definition float_int :: "rat \<Rightarrow> int" where
  "float_int r = (if 0 \<le> r then \<lfloor>r\<rfloor> else \<lceil>r\<rceil>)"

definition round_even :: "rat \<Rightarrow> int" where
  "round_even r =
     (let f = \<lfloor>r\<rfloor>; d = r - of_int f in
      if d < 1 / 2 then f else if 1 / 2 < d then f + 1 else if even f then f else f + 1)"

definition fmt_float0 :: "rat \<Rightarrow> string" where
  "fmt_float0 r =
     (if r < 0 then CHR ''-'' # str_Itoa (round_even (- r)) else str_Itoa (round_even r))"

section \<open>The captcha error\<close>

record vkCaptchaError =
  ce_ErrorCode :: int
  ce_ErrorMsg :: string
  ce_CaptchaSid :: string
  ce_CaptchaImg :: string
  ce_RedirectURI :: string
  ce_IsSound :: bool
  ce_SessionToken :: string
  ce_CaptchaTs :: string
  ce_CaptchaAttempt :: string

text \<open>A string field that may also be a number, as \<open>captcha_sid\<close>; the number comes first for
  \<open>captcha_ts\<close> and \<open>captcha_attempt\<close>, but a value has one type only.\<close>

definition str_or_num :: "json_object \<Rightarrow> string \<Rightarrow> string option" where
  "str_or_num m k = (case get_str m k of Some s \<Rightarrow> Some s | None \<Rightarrow> map_option fmt_float0 (get_num m k))"

text \<open>\<open>session_token uri\<close> is \<open>parsed.Query().Get("session_token")\<close> of package \<open>net/url\<close>, \<open>None\<close> when the
  URI does not parse.\<close>

definition ParseVkCaptchaError :: "(string \<Rightarrow> string option) \<Rightarrow> json_object \<Rightarrow> vkCaptchaError option" where
  "ParseVkCaptchaError session_token m =
     (case get_num m ''error_code'' of None \<Rightarrow> None | Some code \<Rightarrow>
      case get_str m ''redirect_uri'' of None \<Rightarrow> None | Some uri \<Rightarrow>
      case str_or_num m ''captcha_sid'' of None \<Rightarrow> None | Some sid \<Rightarrow>
      case get_str m ''captcha_img'' of None \<Rightarrow> None | Some img \<Rightarrow>
      case get_str m ''error_msg'' of None \<Rightarrow> None | Some msg \<Rightarrow>
      case (if uri \<noteq> [] then session_token uri else Some []) of None \<Rightarrow> None | Some tok0 \<Rightarrow>
      let tok = (if tok0 = [] then (case get_str m ''session_token'' of Some st \<Rightarrow> st | None \<Rightarrow> tok0) else tok0);
          sound = (case get_bool m ''is_sound_captcha_available'' of Some b \<Rightarrow> b | None \<Rightarrow> False);
          ts = (case str_or_num m ''captcha_ts'' of Some s \<Rightarrow> s | None \<Rightarrow> []);
          att = (case str_or_num m ''captcha_attempt'' of Some s \<Rightarrow> s | None \<Rightarrow> [])
      in Some \<lparr>ce_ErrorCode = float_int code, ce_ErrorMsg = msg, ce_CaptchaSid = sid, ce_CaptchaImg = img,
               ce_RedirectURI = uri, ce_IsSound = sound, ce_SessionToken = tok, ce_CaptchaTs = ts,
               ce_CaptchaAttempt = att\<rparr>)"

definition IsCaptchaError :: "vkCaptchaError \<Rightarrow> bool" where
  "IsCaptchaError e \<longleftrightarrow> ce_ErrorCode e = 14 \<and> ce_RedirectURI e \<noteq> [] \<and> ce_SessionToken e \<noteq> []"

section \<open>Solve modes\<close>

datatype captchaSolveMode = SolveAuto | SolveSliderPOC | SolveManual

text \<open>\<open>None\<close> is the result with \<open>false\<close>.\<close>

definition captchaSolveModeForAttempt :: "nat \<Rightarrow> bool \<Rightarrow> bool \<Rightarrow> captchaSolveMode option" where
  "captchaSolveModeForAttempt attempt manualOnly enableSliderPOC =
     (if manualOnly then (if attempt = 0 then Some SolveManual else None)
      else if attempt = 0 then Some SolveAuto
      else if attempt = 1 then (if enableSliderPOC then Some SolveSliderPOC else Some SolveManual)
      else if attempt = 2 then (if enableSliderPOC then Some SolveManual else None)
      else None)"

definition captchaSolveModeLabel :: "captchaSolveMode \<Rightarrow> string" where
  "captchaSolveModeLabel mode =
     (case mode of SolveAuto \<Rightarrow> ''auto captcha'' | SolveSliderPOC \<Rightarrow> ''auto captcha slider POC''
      | SolveManual \<Rightarrow> ''manual captcha'')"

section \<open>Query strings\<close>

definition unreserved :: "char \<Rightarrow> bool" where
  "unreserved c \<longleftrightarrow>
     (let n = of_char c :: nat in (48 \<le> n \<and> n \<le> 57) \<or> (65 \<le> n \<and> n \<le> 90) \<or> (97 \<le> n \<and> n \<le> 122)
        \<or> c \<in> {CHR ''-'', CHR ''_'', CHR ''.'', CHR ''~''})"

definition upper_hex :: "nat \<Rightarrow> char" where
  "upper_hex d = (if d < 10 then char_of (48 + d) else char_of (55 + d))"

text \<open>\<open>url.QueryEscape\<close>.\<close>

definition str_QueryEscape :: "string \<Rightarrow> string" where
  "str_QueryEscape s =
     concat (map (\<lambda>c. if unreserved c then [c] else if c = CHR '' '' then ''+''
       else (let n = of_char c :: nat in [CHR ''%'', upper_hex (n div 16), upper_hex (n mod 16)])) s)"

lemma upper_hex_unreserved: "d < 16 \<Longrightarrow> unreserved (upper_hex d)"
  by (auto simp: upper_hex_def unreserved_def Let_def of_char_of take_bit_nat_eq_self)

lemma str_QueryEscape_chars:
  "c \<in> set (str_QueryEscape s) \<Longrightarrow> unreserved c \<or> c = CHR ''+'' \<or> c = CHR ''%''"
proof -
  have "(of_char d :: nat) div 16 < 16" for d :: char
  proof -
    have "(of_char d :: nat) < 256" by (rule nat_of_char_less_256)
    then have "(of_char d :: nat) < 16 * 16" by linarith
    then show ?thesis by (rule less_mult_imp_div_less)
  qed
  then show "c \<in> set (str_QueryEscape s) \<Longrightarrow> ?thesis"
    unfolding str_QueryEscape_def by (auto simp: Let_def upper_hex_unreserved split: if_splits)
qed

text \<open>\<open>strings.TrimPrefix\<close>.\<close>

definition str_TrimPrefix :: "string \<Rightarrow> string \<Rightarrow> string" where
  "str_TrimPrefix s p = (if str_HasPrefix s p then drop (length p) s else s)"

lemma str_TrimPrefix_append [simp]: "str_TrimPrefix (p @ s) p = s"
  by (simp add: str_TrimPrefix_def str_HasPrefix_iff)

section \<open>Lemmas\<close>

lemma solve_modes_bounded:
  "captchaSolveModeForAttempt attempt manualOnly slider = Some mode \<Longrightarrow> attempt < (if manualOnly then 1 else if slider then 3 else 2)"
  by (auto simp: captchaSolveModeForAttempt_def split: if_splits)

lemma round_even_int [simp]: "round_even (of_int i) = i"
  by (simp add: round_even_def)

text \<open>The captcha error is recognised from the fields alone, whether the session id is a string or an
  integral number.\<close>

lemma ParseVkCaptchaError_complete:
  assumes "get_num m ''error_code'' = Some (of_int code)" and "get_str m ''redirect_uri'' = Some uri"
    and "get_str m ''captcha_sid'' = Some sid \<or> get_str m ''captcha_sid'' = None \<and> get_num m ''captcha_sid'' = Some (of_int i) \<and> sid = str_Itoa i \<and> 0 \<le> i"
    and "get_str m ''captcha_img'' = Some img" and "get_str m ''error_msg'' = Some msg"
    and "uri \<noteq> []" and "session_token uri = Some tok" and "tok \<noteq> []"
  shows "\<exists>e. ParseVkCaptchaError session_token m = Some e \<and> ce_ErrorCode e = code \<and> ce_CaptchaSid e = sid
    \<and> ce_RedirectURI e = uri \<and> ce_SessionToken e = tok \<and> (IsCaptchaError e \<longleftrightarrow> code = 14)"
proof -
  have sid: "str_or_num m ''captcha_sid'' = Some sid"
    using assms(3) by (auto simp: str_or_num_def fmt_float0_def)
  have "float_int (of_int code) = code" by (simp add: float_int_def)
  then show ?thesis
    using assms sid by (auto simp: ParseVkCaptchaError_def IsCaptchaError_def Let_def)
qed

end
