(* ===== verification/Token_Chain.thy ===== *)
theory Token_Chain
  imports Vk_Api
begin

text \<open>
  How the client obtains TURN credentials from the VK API (\<open>getTokenChain\<close> and \<open>fetchVkCreds\<close> of
  \<open>pkg/clientcore/main.go\<close>): a chain of requests, with a loop around the second token that answers
  captcha errors by one solver after the other. The HTTP client, the captcha solvers, the clock
  and the random names are the environment; a request is logged, and the environment's answers may
  depend on all requests so far.
\<close>

section \<open>Environment and state\<close>

datatype manual_source = ViaProxy string | ViaImage string

datatype manual_outcome = ManualResult string "string option" | ManualTimeout | ManualInterrupted

record api_env =
  ae_client :: "string option"
  ae_http :: "(string \<times> string) list \<Rightarrow> string + json_object"
  ae_show :: "json_object \<Rightarrow> string"
  ae_session_token :: "string \<Rightarrow> string option"
  ae_solve :: "(string \<times> string) list \<Rightarrow> bool \<Rightarrow> vkCaptchaError \<Rightarrow> string \<times> string option"
  ae_manual :: "(string \<times> string) list \<Rightarrow> manual_source \<Rightarrow> manual_outcome"
  ae_now :: "(string \<times> string) list \<Rightarrow> int"
  ae_connected :: "(string \<times> string) list \<Rightarrow> int"
  ae_name :: string
  ae_uuid :: string
  ae_manualCaptcha :: bool
  ae_sliderPOC :: bool

text \<open>The requests (body and URL), the end of the global captcha lockout in Unix seconds, and the number
  of solver runs.\<close>

record chain =
  ch_log :: "(string \<times> string) list"
  ch_lockout :: int
  ch_solves :: nat

record vkCredentials =
  vk_ClientID :: string
  vk_ClientSecret :: string

type_synonym 'a api = "chain \<Rightarrow> chain \<times> (string + 'a)"

definition api_return :: "'a \<Rightarrow> 'a api" where
  "api_return a st = (st, Inr a)"

definition api_fail :: "string \<Rightarrow> 'a api" where
  "api_fail e st = (st, Inl e)"

definition api_bind :: "'a api \<Rightarrow> ('a \<Rightarrow> 'b api) \<Rightarrow> 'b api" where
  "api_bind m f st = (case m st of (st1, Inl e) \<Rightarrow> (st1, Inl e) | (st1, Inr a) \<Rightarrow> f a st1)"

definition api_require :: "string \<Rightarrow> 'a option \<Rightarrow> 'a api" where
  "api_require e x = (case x of None \<Rightarrow> api_fail e | Some a \<Rightarrow> api_return a)"

definition doRequest :: "api_env \<Rightarrow> string \<Rightarrow> string \<Rightarrow> json_object api" where
  "doRequest E body url st =
     (let hist = ch_log st @ [(body, url)] in (st\<lparr>ch_log := hist\<rparr>, ae_http E hist))"

section \<open>Captchas\<close>

text \<open>One run of a solver: the success token, the captcha key and the error. A manual answer counts
  although its clean-up failed.\<close>

definition solve_captcha ::
  "api_env \<Rightarrow> (string \<times> string) list \<Rightarrow> captchaSolveMode \<Rightarrow> vkCaptchaError \<Rightarrow> string \<times> string \<times> string option" where
  "solve_captcha E hist mode c =
     (case mode of
        SolveAuto \<Rightarrow>
          if ce_SessionToken c \<noteq> [] \<and> ce_RedirectURI c \<noteq> []
          then (let (tok, err) = ae_solve E hist False c in (tok, [], err))
          else ([], [], Some ''missing fields for auto solve'')
      | SolveSliderPOC \<Rightarrow>
          if ce_SessionToken c \<noteq> [] \<and> ce_RedirectURI c \<noteq> []
          then (let (tok, err) = ae_solve E hist True c in (tok, [], err))
          else ([], [], Some ''missing fields for slider POC auto solve'')
      | SolveManual \<Rightarrow>
          (let finish = (\<lambda>src token_of.
                 case ae_manual E hist src of
                   ManualTimeout \<Rightarrow> ([], [], Some ''manual captcha timed out after 3m'')
                 | ManualInterrupted \<Rightarrow> ([], [], Some ''manual captcha interrupted'')
                 | ManualResult v err \<Rightarrow>
                     (if token_of then v else [], if token_of then [] else v, if v \<noteq> [] then None else err))
           in if ce_RedirectURI c \<noteq> [] then finish (ViaProxy (ce_RedirectURI c)) True
              else if ce_CaptchaImg c \<noteq> [] then finish (ViaImage (ce_CaptchaImg c)) False
              else ([], [], Some ''no redirect_uri or captcha_img'')))"

text \<open>The body of the second request, first and after a solved captcha.\<close>

definition token2_body :: "api_env \<Rightarrow> string \<Rightarrow> string \<Rightarrow> string" where
  "token2_body E link token1 =
     ''vk_join_link=https://vk.com/call/join/'' @ link @ ''&name='' @ str_QueryEscape (ae_name E)
     @ ''&access_token='' @ token1"

definition retry_body :: "api_env \<Rightarrow> string \<Rightarrow> string \<Rightarrow> vkCaptchaError \<Rightarrow> string \<Rightarrow> string \<Rightarrow> string" where
  "retry_body E link token1 c token key =
     (let att = (if ce_CaptchaAttempt c = ''0'' \<or> ce_CaptchaAttempt c = [] then ''1'' else ce_CaptchaAttempt c);
          start = ''vk_join_link=https://vk.com/call/join/'' @ link @ ''&name='' @ str_QueryEscape (ae_name E)
      in if key \<noteq> [] then
           start @ ''&captcha_key='' @ str_QueryEscape key @ ''&captcha_sid='' @ ce_CaptchaSid c
           @ ''&access_token='' @ token1
         else
           start @ ''&captcha_key=&captcha_sid='' @ ce_CaptchaSid c @ ''&is_sound_captcha=0&success_token=''
           @ str_QueryEscape token @ ''&captcha_ts='' @ ce_CaptchaTs c @ ''&captcha_attempt='' @ att
           @ ''&access_token='' @ token1)"

text \<open>When no solver is left: the lockout, and an error that is fatal when no stream is connected.\<close>

definition captcha_giveup :: "api_env \<Rightarrow> chain \<Rightarrow> chain \<times> string" where
  "captcha_giveup E st =
     (st\<lparr>ch_lockout := ae_now E (ch_log st) + 60\<rparr>,
      if ae_connected E (ch_log st) = 0 then ''FATAL_CAPTCHA_FAILED_NO_STREAMS'' else ''CAPTCHA_WAIT_REQUIRED'')"

text \<open>One captcha error: \<open>Inr\<close> is the body of the next attempt.\<close>

definition captcha_turn ::
  "api_env \<Rightarrow> string \<Rightarrow> string \<Rightarrow> nat \<Rightarrow> string \<Rightarrow> vkCaptchaError \<Rightarrow> string api" where
  "captcha_turn E link token1 attempt body c st =
     (let modes = (\<lambda>k. captchaSolveModeForAttempt k (ae_manualCaptcha E) (ae_sliderPOC E));
          giveup = (\<lambda>st. let (st', e) = captcha_giveup E st in (st', Inl e))
      in case modes attempt of
           None \<Rightarrow> giveup st
         | Some mode \<Rightarrow>
             (let st1 = st\<lparr>ch_solves := ch_solves st + 1\<rparr>
              in case solve_captcha E (ch_log st) mode c of
                   (_, _, Some _) \<Rightarrow> if modes (Suc attempt) \<noteq> None then (st1, Inr body) else giveup st1
                 | (token, key, None) \<Rightarrow> (st1, Inr (retry_body E link token1 c token key))))"

text \<open>One round of the loop: \<open>Inl\<close> leaves it with the second token, \<open>Inr\<close> is the next body.\<close>

definition token2_round ::
  "api_env \<Rightarrow> string \<Rightarrow> string \<Rightarrow> string \<Rightarrow> nat \<Rightarrow> string \<Rightarrow> (string + string) api" where
  "token2_round E link token1 url attempt body =
     api_bind (doRequest E body url) (\<lambda>resp.
       case get_obj resp ''error'' of
         Some errObj \<Rightarrow>
           (case ParseVkCaptchaError (ae_session_token E) errObj of
              Some c \<Rightarrow>
                if IsCaptchaError c
                then api_bind (captcha_turn E link token1 attempt body c) (\<lambda>next_body. api_return (Inr next_body))
                else api_fail (''VK API error: '' @ ae_show E errObj)
            | None \<Rightarrow> api_fail (''VK API error: '' @ ae_show E errObj))
       | None \<Rightarrow>
           api_bind (api_require (''unexpected getAnonymousToken response: '' @ ae_show E resp) (get_obj resp ''response''))
             (\<lambda>respMap. api_bind (api_require (''missing token in response: '' @ ae_show E resp) (get_str respMap ''token''))
               (\<lambda>token. api_return (Inl token))))"

lemma token2_round_attempt:
  assumes "token2_round E link token1 url attempt body st = (st', Inr (Inr next_body))"
  shows "attempt < 3"
proof -
  obtain c st1 where "captcha_turn E link token1 attempt body c st1 = (st', Inr next_body)"
    using assms
    by (auto simp: token2_round_def api_bind_def api_return_def api_fail_def api_require_def
        split: prod.splits sum.splits option.splits if_splits)
  then have "captchaSolveModeForAttempt attempt (ae_manualCaptcha E) (ae_sliderPOC E) \<noteq> None"
    by (auto simp: captcha_turn_def captcha_giveup_def Let_def split: option.splits)
  then show ?thesis by (auto simp: captchaSolveModeForAttempt_def split: if_splits)
qed

text \<open>The loop has no bound of its own; it ends because the solve modes run out.\<close>

function token2_loop :: "api_env \<Rightarrow> string \<Rightarrow> string \<Rightarrow> string \<Rightarrow> nat \<Rightarrow> string \<Rightarrow> string api" where
  "token2_loop E link token1 url attempt body st =
     (case token2_round E link token1 url attempt body st of
        (st1, Inl e) \<Rightarrow> (st1, Inl e)
      | (st1, Inr (Inl token2)) \<Rightarrow> (st1, Inr token2)
      | (st1, Inr (Inr next_body)) \<Rightarrow> token2_loop E link token1 url (Suc attempt) next_body st1)"
  by pat_completeness auto

termination token2_loop
  by (relation "measure (\<lambda>(E, link, token1, url, attempt, body, st). 3 - attempt)")
    (auto dest!: token2_round_attempt [OF sym])

declare token2_loop.simps [simp del]

section \<open>The chain\<close>

text \<open>The address of a TURN URL: without parameters and scheme.\<close>

definition turn_address :: "string \<Rightarrow> string" where
  "turn_address url = str_TrimPrefix (str_TrimPrefix (hd (str_Split (CHR ''?'') url)) ''turn:'') ''turns:''"

definition turn_addresses :: "json list \<Rightarrow> string list" where
  "turn_addresses urls = List.map_filter (\<lambda>u. case u of JStr s \<Rightarrow> Some (turn_address s) | _ \<Rightarrow> None) urls"

text \<open>Bodies and URLs of the other requests.\<close>

definition anon_body :: "vkCredentials \<Rightarrow> string" where
  "anon_body creds = ''client_id='' @ vk_ClientID creds @ ''&token_type=messages&client_secret='' @ vk_ClientSecret creds
     @ ''&version=1&app_id='' @ vk_ClientID creds"

definition url_anon :: string where "url_anon = ''https://login.vk.ru/?act=get_anonym_token''"

definition preview_body :: "string \<Rightarrow> string \<Rightarrow> string" where
  "preview_body link token1 =
     ''vk_join_link=https://vk.com/call/join/'' @ link @ ''&fields=photo_200&access_token='' @ token1"

definition url_preview :: "vkCredentials \<Rightarrow> string" where
  "url_preview creds = ''https://api.vk.ru/method/calls.getCallPreview?v=5.275&client_id='' @ vk_ClientID creds"

definition url_token2 :: "vkCredentials \<Rightarrow> string" where
  "url_token2 creds = ''https://api.vk.ru/method/calls.getAnonymousToken?v=5.275&client_id='' @ vk_ClientID creds"

definition session_body :: "string \<Rightarrow> string" where
  "session_body uuid = ''session_data='' @ str_QueryEscape
     (''{\"version\":2,\"device_id\":\"'' @ uuid @ ''\",\"client_version\":1.1,\"client_type\":\"SDK_JS\"}'')
     @ ''&method=auth.anonymLogin&format=JSON&application_key=CGMMEJLGDIHBABABA''"

definition join_body :: "string \<Rightarrow> string \<Rightarrow> string \<Rightarrow> string" where
  "join_body link token2 token3 = ''joinLink='' @ link
     @ ''&isVideo=false&protocolVersion=5&capabilities=2F7F&anonymToken='' @ token2
     @ ''&method=vchat.joinConversationByLink&format=JSON&application_key=CGMMEJLGDIHBABABA&session_key='' @ token3"

definition url_calls :: string where "url_calls = ''https://calls.okcdn.ru/fb.do''"

text \<open>Tokens 3 and 4: a session, then joining the call gives the TURN credentials.\<close>

definition join_call :: "api_env \<Rightarrow> string \<Rightarrow> string \<Rightarrow> (string \<times> string \<times> string list) api" where
  "join_call E link token2 =
     api_bind (doRequest E (session_body (ae_uuid E)) url_calls) (\<lambda>resp3.
     api_bind (api_require (''missing session_key in response: '' @ ae_show E resp3) (get_str resp3 ''session_key'')) (\<lambda>token3.
     api_bind (doRequest E (join_body link token2 token3) url_calls) (\<lambda>resp4.
     api_bind (api_require (''missing turn_server in response: '' @ ae_show E resp4) (get_obj resp4 ''turn_server'')) (\<lambda>ts.
     api_bind (api_require ''missing username in turn_server'' (get_str ts ''username'')) (\<lambda>user.
     api_bind (api_require ''missing credential in turn_server'' (get_str ts ''credential'')) (\<lambda>pass.
     api_bind (api_require ''missing or empty urls in turn_server''
                 (case get_arr ts ''urls'' of Some (u # us) \<Rightarrow> Some (u # us) | _ \<Rightarrow> None)) (\<lambda>urls.
     if turn_addresses urls = [] then api_fail ''no valid TURN addresses found''
     else api_return (user, pass, turn_addresses urls))))))))"

text \<open>The error of the preview request is only logged.\<close>

definition api_ignore :: "'a api \<Rightarrow> unit api" where
  "api_ignore m st = (fst (m st), Inr ())"

text \<open>The HTTP client of the library, which may refuse its options.\<close>

definition newClient :: "api_env \<Rightarrow> unit api" where
  "newClient E = (case ae_client E of None \<Rightarrow> api_return () | Some e \<Rightarrow> api_fail (''failed to initialize tls_client: '' @ e))"

definition getTokenChain :: "api_env \<Rightarrow> string \<Rightarrow> vkCredentials \<Rightarrow> (string \<times> string \<times> string list) api" where
  "getTokenChain E link creds =
     api_bind (newClient E) (\<lambda>_.
     api_bind (doRequest E (anon_body creds) url_anon) (\<lambda>resp1.
     api_bind (api_require (''unexpected anon token response: '' @ ae_show E resp1) (get_obj resp1 ''data'')) (\<lambda>dataMap.
     api_bind (api_require (''missing access_token in response: '' @ ae_show E resp1) (get_str dataMap ''access_token'')) (\<lambda>token1.
     api_bind (api_ignore (doRequest E (preview_body link token1) (url_preview creds))) (\<lambda>_.
     api_bind (token2_loop E link token1 (url_token2 creds) 0 (token2_body E link token1)) (join_call E link))))))"

section \<open>All client ids\<close>

definition vkCredentialsList :: "vkCredentials list" where
  "vkCredentialsList =
     [\<lparr>vk_ClientID = ''6287487'', vk_ClientSecret = ''QbYic1K3lEV5kTGiqlq2''\<rparr>,
      \<lparr>vk_ClientID = ''7879029'', vk_ClientSecret = ''aR5NKGmm03GYrCiNKsaw''\<rparr>,
      \<lparr>vk_ClientID = ''52461373'', vk_ClientSecret = ''o557NLIkAErNhakXrQ7A''\<rparr>,
      \<lparr>vk_ClientID = ''52649896'', vk_ClientSecret = ''WStp4ihWG4l3nmXZgIbC''\<rparr>,
      \<lparr>vk_ClientID = ''51781872'', vk_ClientSecret = ''IjjCNl4L4Tf5QZEXIHKK''\<rparr>]"

fun try_credentials ::
  "api_env \<Rightarrow> string \<Rightarrow> vkCredentials list \<Rightarrow> string \<Rightarrow> (string \<times> string \<times> string list) api" where
  "try_credentials E link [] lastErr st = (st, Inl (''all VK credentials failed: '' @ lastErr))"
| "try_credentials E link (creds # rest) lastErr st =
     (case getTokenChain E link creds st of
        (st1, Inr res) \<Rightarrow> (st1, Inr res)
      | (st1, Inl e) \<Rightarrow>
          if str_Contains e ''CAPTCHA_WAIT_REQUIRED'' \<or> str_Contains e ''FATAL_CAPTCHA'' then (st1, Inl e)
          else try_credentials E link rest e st1)"

definition fetchVkCreds :: "api_env \<Rightarrow> int \<Rightarrow> string \<Rightarrow> (string \<times> string \<times> string list) api" where
  "fetchVkCreds E now link st =
     (if now < ch_lockout st then (st, Inl ''CAPTCHA_WAIT_REQUIRED: global lockout active'')
      else try_credentials E link vkCredentialsList [] st)"

section \<open>Lemmas\<close>

lemmas api_defs = api_bind_def api_return_def api_fail_def api_require_def

lemma doRequest_state: "doRequest E body url st = (st1, r) \<Longrightarrow>
    ch_log st1 = ch_log st @ [(body, url)] \<and> ch_lockout st1 = ch_lockout st \<and> ch_solves st1 = ch_solves st"
  by (auto simp: doRequest_def Let_def)

lemma api_require_state: "api_require e x st = (st1, r) \<Longrightarrow> st1 = st"
  by (auto simp: api_require_def api_fail_def api_return_def split: option.splits)

text \<open>How an operation may change the state: at most \<open>n\<close> requests and \<open>k\<close> solver runs, and the lockout
  only together with one of the two captcha errors, as the last thing it does.\<close>

definition captcha_error :: "string \<Rightarrow> bool" where
  "captcha_error e \<longleftrightarrow> e = ''FATAL_CAPTCHA_FAILED_NO_STREAMS'' \<or> e = ''CAPTCHA_WAIT_REQUIRED''"

definition bounded :: "api_env \<Rightarrow> nat \<Rightarrow> nat \<Rightarrow> chain \<Rightarrow> chain \<times> (string + 'a) \<Rightarrow> bool" where
  "bounded E n k st res \<longleftrightarrow>
     length (ch_log (fst res)) \<le> length (ch_log st) + n \<and> ch_solves (fst res) \<le> ch_solves st + k
     \<and> (ch_lockout (fst res) = ch_lockout st
        \<or> ch_lockout (fst res) = ae_now E (ch_log (fst res)) + 60 \<and> (\<exists>e. snd res = Inl e \<and> captcha_error e))"

lemma bounded_bind:
  assumes "bounded E n k st (m st)" and "\<And>st1 a. m st = (st1, Inr a) \<Longrightarrow> bounded E n' k' st1 (f a st1)"
  shows "bounded E (n + n') (k + k') st (api_bind m f st)"
proof (cases "m st")
  case (Pair st1 r)
  show ?thesis
  proof (cases r)
    case (Inl e)
    then show ?thesis using assms(1) Pair by (auto simp: api_bind_def bounded_def)
  next
    case (Inr a)
    then show ?thesis using assms(1) assms(2) [of st1 a] Pair by (auto simp: api_bind_def bounded_def)
  qed
qed

lemma bounded_request: "bounded E 1 0 st (doRequest E body url st)"
  by (simp add: bounded_def doRequest_def Let_def)

lemma bounded_require: "bounded E 0 0 st (api_require e x st)"
  by (simp add: bounded_def api_require_def api_fail_def api_return_def split: option.splits)

lemma bounded_return: "bounded E 0 0 st (api_return a st)" "bounded E 0 0 st (api_fail e st)"
  by (simp_all add: bounded_def api_return_def api_fail_def)

lemma bounded_mono: "bounded E n k st r \<Longrightarrow> n \<le> n' \<Longrightarrow> k \<le> k' \<Longrightarrow> bounded E n' k' st r"
  by (auto simp: bounded_def)

lemma bounded_turn:
  "bounded E 0 (if captchaSolveModeForAttempt attempt (ae_manualCaptcha E) (ae_sliderPOC E) = None then 0 else 1) st
     (captcha_turn E link token1 attempt body c st)"
  by (auto simp: bounded_def captcha_turn_def captcha_giveup_def captcha_error_def Let_def split: option.splits prod.splits)

lemma bounded_round:
  assumes "attempt \<le> 3"
  shows "bounded E 1 (if attempt < 3 then 1 else 0) st (token2_round E link token1 url attempt body st)"
proof -
  define K :: nat where "K = (if attempt < 3 then 1 else 0)"
  have turn: "bounded E 0 K s (captcha_turn E link token1 attempt body c s)" for c s
    using assms
    by (intro bounded_mono [OF bounded_turn]) (auto simp: K_def captchaSolveModeForAttempt_def split: if_splits)
  have "bounded E (0 + 0) (K + 0) s (api_bind (captcha_turn E link token1 attempt body c) (\<lambda>next_body. api_return (Inr next_body)) s)" for c s
    by (intro bounded_bind turn bounded_return)
  then have inner: "bounded E 0 K s (api_bind (captcha_turn E link token1 attempt body c) (\<lambda>next_body. api_return (Inr next_body)) s)" for c s
    by (rule bounded_mono) simp_all
  have "bounded E (0 + (0 + 0)) (0 + (0 + 0)) s
      (api_bind (api_require e x) (\<lambda>m. api_bind (api_require (e' m) (x' m)) (\<lambda>t. api_return (Inl t))) s)"
    for e x s and e' :: "json_object \<Rightarrow> string" and x' :: "json_object \<Rightarrow> string option"
    by (intro bounded_bind bounded_require bounded_return)
  then have good: "bounded E 0 K s
      (api_bind (api_require e x) (\<lambda>m. api_bind (api_require (e' m) (x' m)) (\<lambda>t. api_return (Inl t))) s)"
    for e x s and e' :: "json_object \<Rightarrow> string" and x' :: "json_object \<Rightarrow> string option"
    by (rule bounded_mono) simp_all
  have fail: "bounded E 0 K s (api_fail e s)" for e s by (rule bounded_mono [OF bounded_return(2)]) simp_all
  have "bounded E (1 + 0) (0 + K) st (token2_round E link token1 url attempt body st)"
    unfolding token2_round_def
    by (rule bounded_bind [OF bounded_request]) (auto split: option.splits intro: inner good fail)
  then show ?thesis by (simp add: K_def)
qed

lemma bounded_loop:
  assumes "attempt \<le> 3"
  shows "bounded E (4 - attempt) (3 - attempt) st (token2_loop E link token1 url attempt body st)"
  using assms
proof (induction E link token1 url attempt body st rule: token2_loop.induct)
  case (1 E link token1 url attempt body st)
  note B = bounded_round [OF 1(2), of E st link token1 url body]
  show ?case
  proof (cases "token2_round E link token1 url attempt body st")
    case (Pair st1 r)
    consider (err) e where "r = Inl e" | (tok) t where "r = Inr (Inl t)" | (again) b where "r = Inr (Inr b)"
      by (metis sum.exhaust)
    then show ?thesis
    proof cases
      case err
      then show ?thesis using B Pair 1(2) by (subst token2_loop.simps) (auto simp: bounded_def split: if_splits)
    next
      case tok
      then show ?thesis using B Pair 1(2) by (subst token2_loop.simps) (auto simp: bounded_def split: if_splits)
    next
      case again
      then have less: "attempt < 3" using token2_round_attempt Pair by metis
      have "bounded E (4 - Suc attempt) (3 - Suc attempt) st1 (token2_loop E link token1 url (Suc attempt) b st1)"
        using 1(1) [of st1 "Inr (Inr b)" "Inr b" b] Pair again less by simp
      then show ?thesis using B Pair again less by (subst token2_loop.simps) (auto simp: bounded_def)
    qed
  qed
qed

text \<open>The whole chain: at most eight requests and three solver runs.\<close>

lemma bounded_ignore: "bounded E 1 0 st (api_ignore (doRequest E body url) st)"
  using bounded_request [of E st body url] by (simp add: bounded_def api_ignore_def doRequest_def Let_def)

lemma bounded_join: "bounded E 2 0 st (join_call E link token2 st)"
proof -
  have fin: "bounded E 0 0 s ((if turn_addresses urls = [] then api_fail ''no valid TURN addresses found''
      else api_return (user, pass, turn_addresses urls)) s)" for urls user pass s
    by (simp add: bounded_return)
  have "bounded E (1 + (0 + (1 + (0 + (0 + (0 + (0 + 0))))))) (0 + (0 + (0 + (0 + (0 + (0 + (0 + 0))))))) st
      (join_call E link token2 st)"
    unfolding join_call_def by (intro bounded_bind bounded_request bounded_require fin)
  then show ?thesis by (simp add: numeral_2_eq_2)
qed

lemma bounded_client: "bounded E 0 0 st (newClient E st)"
  by (simp add: newClient_def bounded_return split: option.split)

lemma bounded_chain: "bounded E 8 3 st (getTokenChain E link creds st)"
proof -
  have "bounded E (0 + (1 + (0 + (0 + (1 + ((4 - 0) + 2)))))) (0 + (0 + (0 + (0 + (0 + ((3 - 0) + 0)))))) st (getTokenChain E link creds st)"
    unfolding getTokenChain_def
    by (intro bounded_bind bounded_client bounded_request bounded_require bounded_ignore bounded_loop bounded_join) simp
  then show ?thesis by simp
qed

lemma join_call_addrs:
  "join_call E link token2 st = (st', Inr (user, pass, addrs)) \<Longrightarrow> addrs \<noteq> []"
  by (auto simp: join_call_def api_defs split: prod.splits sum.splits option.splits if_splits)

lemma chain_addrs: "getTokenChain E link creds st = (st', Inr (user, pass, addrs)) \<Longrightarrow> addrs \<noteq> []"
  unfolding getTokenChain_def
  by (auto simp: api_bind_def dest: join_call_addrs split: prod.splits sum.splits)

lemma try_addrs: "try_credentials E link cs e st = (st', Inr (user, pass, addrs)) \<Longrightarrow> addrs \<noteq> []"
  by (induction cs arbitrary: e st) (auto dest: chain_addrs split: prod.splits sum.splits if_splits)

lemma fetch_addrs: "fetchVkCreds E now link st = (st', Inr (user, pass, addrs)) \<Longrightarrow> addrs \<noteq> []"
  by (auto simp: fetchVkCreds_def dest: try_addrs split: if_splits)

lemma captcha_error_aborts: "captcha_error e \<Longrightarrow> str_Contains e ''CAPTCHA_WAIT_REQUIRED'' \<or> str_Contains e ''FATAL_CAPTCHA''"
  by (auto simp: captcha_error_def)

lemma bounded_try: "bounded E (8 * length cs) (3 * length cs) st (try_credentials E link cs lastErr st)"
proof (induction cs arbitrary: lastErr st)
  case Nil
  then show ?case by (simp add: bounded_def)
next
  case (Cons c cs)
  obtain st1 r where r: "getTokenChain E link c st = (st1, r)" by fastforce
  have B: "bounded E 8 3 st (st1, r)" using bounded_chain [of E st link c] r by simp
  show ?case
  proof (cases r)
    case (Inr x)
    then show ?thesis using r B by (auto simp: bounded_def)
  next
    case (Inl e)
    show ?thesis
    proof (cases "str_Contains e ''CAPTCHA_WAIT_REQUIRED'' \<or> str_Contains e ''FATAL_CAPTCHA''")
      case True
      then show ?thesis using r Inl B by (auto simp: bounded_def)
    next
      case False
      then have "ch_lockout st1 = ch_lockout st" using B Inl captcha_error_aborts by (auto simp: bounded_def)
      moreover have "try_credentials E link (c # cs) lastErr st = try_credentials E link cs e st1"
        using r Inl False by simp
      ultimately show ?thesis using Cons.IH [of st1 e] B by (auto simp: bounded_def)
    qed
  qed
qed

text \<open>A captcha that is recognised always has a redirect URI, so it is never shown as an image and never
  answered with a key: these branches of the code are not reachable.\<close>

lemma captcha_image_unreachable:
  assumes "IsCaptchaError c" and "solve_captcha E hist mode c = (token, key, err)"
  shows "key = [] \<and> (\<forall>f. (\<forall>src. f (ViaProxy src) = ae_manual E hist (ViaProxy src)) \<longrightarrow>
     solve_captcha (E\<lparr>ae_manual := (\<lambda>_. f)\<rparr>) hist mode c = (token, key, err))"
  using assms
  by (auto simp: solve_captcha_def IsCaptchaError_def Let_def split: captchaSolveMode.splits prod.splits manual_outcome.splits)

section \<open>The end of the solvers\<close>

text \<open>An API whose second token is always behind a captcha, and solvers that never solve one.\<close>

definition only_captchas :: "api_env \<Rightarrow> bool" where
  "only_captchas E \<longleftrightarrow> ae_client E = None
     \<and> (\<forall>hist creds. \<exists>resp data token1. ae_http E (hist @ [(anon_body creds, url_anon)]) = Inr resp
          \<and> get_obj resp ''data'' = Some data \<and> get_str data ''access_token'' = Some token1)
     \<and> (\<forall>hist body creds. \<exists>resp errObj c. ae_http E (hist @ [(body, url_token2 creds)]) = Inr resp
          \<and> get_obj resp ''error'' = Some errObj \<and> ParseVkCaptchaError (ae_session_token E) errObj = Some c \<and> IsCaptchaError c)"

definition never_solves :: "api_env \<Rightarrow> bool" where
  "never_solves E \<longleftrightarrow> (\<forall>hist slider c. snd (ae_solve E hist slider c) \<noteq> None)
     \<and> (\<forall>hist src. case ae_manual E hist src of ManualResult v err \<Rightarrow> v = [] \<and> err \<noteq> None | _ \<Rightarrow> True)"

text \<open>The number of solvers in the mode of the client.\<close>

definition solve_modes :: "api_env \<Rightarrow> nat" where
  "solve_modes E = (if ae_manualCaptcha E then 1 else if ae_sliderPOC E then 3 else 2)"

lemma solve_modes_exact: "captchaSolveModeForAttempt k (ae_manualCaptcha E) (ae_sliderPOC E) = None \<longleftrightarrow> solve_modes E \<le> k"
  by (auto simp: captchaSolveModeForAttempt_def solve_modes_def)

lemma unsolved: "never_solves E \<Longrightarrow> \<exists>token key e. solve_captcha E hist mode c = (token, key, Some e)"
  unfolding solve_captcha_def never_solves_def Let_def
  by (cases mode) (auto split: manual_outcome.splits prod.splits, (metis not_None_eq snd_conv)+)

lemma unsolved_round:
  assumes "only_captchas E" and "never_solves E" and "k < solve_modes E"
  shows "\<exists>st1 r. token2_round E link token1 (url_token2 creds) k body st = (st1, r)
    \<and> ch_solves st1 = ch_solves st + 1 \<and> length (ch_log st1) = length (ch_log st) + 1
    \<and> (if Suc k < solve_modes E then r = Inr (Inr body) else \<exists>e. r = Inl e \<and> captcha_error e)"
proof -
  obtain resp errObj c where r: "ae_http E (ch_log st @ [(body, url_token2 creds)]) = Inr resp" "get_obj resp ''error'' = Some errObj"
    "ParseVkCaptchaError (ae_session_token E) errObj = Some c" "IsCaptchaError c"
    using assms(1) unfolding only_captchas_def by blast
  obtain mode where m: "captchaSolveModeForAttempt k (ae_manualCaptcha E) (ae_sliderPOC E) = Some mode"
    using assms(3) solve_modes_exact [of k E] by fastforce
  obtain token key e where s: "solve_captcha E (ch_log st @ [(body, url_token2 creds)]) mode c = (token, key, Some e)"
    using unsolved [OF assms(2)] by blast
  show ?thesis
    using r m s solve_modes_exact [of "Suc k" E]
    by (auto simp: token2_round_def doRequest_def captcha_turn_def captcha_giveup_def captcha_error_def api_bind_def api_return_def Let_def)
qed

lemma unsolved_loop:
  assumes "only_captchas E" and "never_solves E" and "k < solve_modes E"
  shows "\<exists>st1 e. token2_loop E link token1 (url_token2 creds) k body st = (st1, Inl e) \<and> captcha_error e
    \<and> ch_solves st1 = ch_solves st + (solve_modes E - k) \<and> length (ch_log st1) = length (ch_log st) + (solve_modes E - k)"
  using assms(3)
proof (induction "solve_modes E - k" arbitrary: k st)
  case (Suc n)
  obtain st1 r where r: "token2_round E link token1 (url_token2 creds) k body st = (st1, r)"
    "ch_solves st1 = ch_solves st + 1" "length (ch_log st1) = length (ch_log st) + 1"
    "if Suc k < solve_modes E then r = Inr (Inr body) else \<exists>e. r = Inl e \<and> captcha_error e"
    using unsolved_round [OF assms(1,2) Suc.prems] by metis
  show ?case
  proof (cases "Suc k < solve_modes E")
    case True
    have "n = solve_modes E - Suc k" using Suc.hyps(2) by simp
    from Suc.hyps(1) [OF this True, of st1] obtain st2 e where "token2_loop E link token1 (url_token2 creds) (Suc k) body st1 = (st2, Inl e)" "captcha_error e"
      "ch_solves st2 = ch_solves st1 + (solve_modes E - Suc k)" "length (ch_log st2) = length (ch_log st1) + (solve_modes E - Suc k)"
      by blast
    then show ?thesis using r True by (subst token2_loop.simps) auto
  next
    case False
    then have "solve_modes E - k = 1" using Suc.prems by simp
    then show ?thesis using False r by (subst token2_loop.simps) auto
  qed
qed simp

lemma unsolved_chain:
  assumes "only_captchas E" and "never_solves E"
  shows "\<exists>st1 e. getTokenChain E link creds st = (st1, Inl e) \<and> captcha_error e
    \<and> ch_solves st1 = ch_solves st + solve_modes E \<and> length (ch_log st1) = length (ch_log st) + 2 + solve_modes E"
proof -
  obtain resp data token1 where r: "ae_http E (ch_log st @ [(anon_body creds, url_anon)]) = Inr resp"
    "get_obj resp ''data'' = Some data" "get_str data ''access_token'' = Some token1"
    using assms(1) unfolding only_captchas_def by blast
  let ?st = "st\<lparr>ch_log := ch_log st @ [(anon_body creds, url_anon), (preview_body link token1, url_preview creds)]\<rparr>"
  have "0 < solve_modes E" by (simp add: solve_modes_def)
  from unsolved_loop [OF assms this, of link token1 creds "token2_body E link token1" ?st]
  obtain st1 e where l: "token2_loop E link token1 (url_token2 creds) 0 (token2_body E link token1) ?st = (st1, Inl e)"
    "captcha_error e" "ch_solves st1 = ch_solves st + solve_modes E" "length (ch_log st1) = length (ch_log st) + 2 + solve_modes E"
    by auto
  have "newClient E = api_return ()" using assms(1) by (simp add: newClient_def only_captchas_def)
  then show ?thesis using r l by (simp add: getTokenChain_def api_defs api_ignore_def doRequest_def Let_def)
qed

text \<open>A captcha error comes with the lockout, wherever it comes from.\<close>

definition locks :: "api_env \<Rightarrow> chain \<times> (string + 'a) \<Rightarrow> bool" where
  "locks E res \<longleftrightarrow> (\<forall>e. snd res = Inl e \<and> captcha_error e \<longrightarrow> ch_lockout (fst res) = ae_now E (ch_log (fst res)) + 60
     \<and> (e = ''FATAL_CAPTCHA_FAILED_NO_STREAMS'' \<longleftrightarrow> ae_connected E (ch_log (fst res)) = 0))"

lemma locks_bind: "locks E (m st) \<Longrightarrow> (\<And>st1 a. locks E (f a st1)) \<Longrightarrow> locks E (api_bind m f st)"
  by (auto simp: locks_def api_bind_def split: prod.split sum.split)

lemma locks_return: "locks E (api_return a st)" "\<not> captcha_error e \<Longrightarrow> locks E (api_fail e st)"
  by (simp_all add: locks_def api_return_def api_fail_def)

lemma locks_require: "\<not> captcha_error e \<Longrightarrow> locks E (api_require e x st)"
  by (simp add: api_require_def locks_return split: option.split)

text \<open>The error of a failed request is not one of the two texts.\<close>

definition plain_errors :: "api_env \<Rightarrow> bool" where
  "plain_errors E \<longleftrightarrow> (\<forall>hist e. ae_http E hist = Inl e \<longrightarrow> \<not> captcha_error e)"

lemma locks_request: "plain_errors E \<Longrightarrow> locks E (doRequest E body url st)"
  by (auto simp: locks_def doRequest_def Let_def plain_errors_def)

lemma locks_turn: "locks E (captcha_turn E link token1 attempt body c st)"
  by (auto simp: locks_def captcha_turn_def captcha_giveup_def Let_def split: option.splits prod.splits)

lemmas locks_rules = locks_bind locks_request locks_require locks_return locks_turn

lemma locks_round: "plain_errors E \<Longrightarrow> locks E (token2_round E link token1 url attempt body st)"
  unfolding token2_round_def by (auto intro!: locks_rules simp: captcha_error_def split: option.splits)

lemma locks_loop: "plain_errors E \<Longrightarrow> locks E (token2_loop E link token1 url attempt body st)"
proof (induction E link token1 url attempt body st rule: token2_loop.induct)
  case (1 E link token1 url attempt body st)
  have "locks E (token2_round E link token1 url attempt body st)" using 1(2) by (rule locks_round)
  then show ?case
    using 1 by (subst token2_loop.simps) (auto simp: locks_def split: prod.splits sum.splits)
qed

lemma locks_join: "plain_errors E \<Longrightarrow> locks E (join_call E link token2 st)"
  unfolding join_call_def by (auto intro!: locks_rules simp: captcha_error_def)

lemma locks_ignore: "locks E (api_ignore m st)" by (simp add: locks_def api_ignore_def)

lemma locks_client: "locks E (newClient E st)"
  by (auto simp: newClient_def captcha_error_def intro!: locks_rules split: option.split)

lemma locks_chain: "plain_errors E \<Longrightarrow> locks E (getTokenChain E link creds st)"
  unfolding getTokenChain_def by (auto intro!: locks_rules locks_loop locks_join locks_ignore locks_client simp: captcha_error_def)

lemma locks_try: "plain_errors E \<Longrightarrow> locks E (try_credentials E link cs lastErr st)"
proof (induction cs arbitrary: lastErr st)
  case Nil
  then show ?case by (simp add: locks_def captcha_error_def)
next
  case (Cons c cs)
  then show ?case using locks_chain [OF Cons.prems, of link c st] by (auto simp: locks_def split: prod.splits sum.splits)
qed

section \<open>Properties\<close>

text \<open>C14: the retries are bounded although the loop around the second token has no bound of its own: an
  attempt to fetch credentials makes at most eight requests and runs at most three captcha solvers
  per client id, whatever the API answers; and when it succeeds there is at least one TURN
  address.\<close>

theorem fetch_bounded:
  assumes "fetchVkCreds E now link st = (st', res)"
  shows "length (ch_log st') \<le> length (ch_log st) + 8 * length vkCredentialsList
    \<and> ch_solves st' \<le> ch_solves st + 3 * length vkCredentialsList
    \<and> (case res of Inr (user, pass, addrs) \<Rightarrow> addrs \<noteq> [] | Inl e \<Rightarrow> True)"
  using bounded_try [of E vkCredentialsList st link "[]"] assms fetch_addrs [of E now link st st']
  by (auto simp: fetchVkCreds_def bounded_def split: sum.splits if_splits prod.splits)

text \<open>C15: the API is protected against being hammered with unsolved captchas. When the API answers with captchas only and no
  solver succeeds, a fetch tries every solver that the mode has once, and then stops: no other client id is tried and the
  caller gets a captcha error. A fetch that ends with a captcha error, for this or any other behaviour of the API, has set
  the lockout to 60 seconds from its last request, the error is the fatal one exactly when no stream is connected, and
  until the lockout ends every attempt to fetch credentials fails without a request.\<close>

theorem captcha_lockout:
  assumes "fetchVkCreds E now link st = (st', res)" and "ch_lockout st \<le> now"
    and "plain_errors E"
  shows "(only_captchas E \<and> never_solves E \<longrightarrow>
       (\<exists>e. res = Inl e \<and> captcha_error e) \<and> ch_solves st' = ch_solves st + solve_modes E
       \<and> length (ch_log st') = length (ch_log st) + 2 + solve_modes E)
    \<and> (\<forall>e. res = Inl e \<and> captcha_error e \<longrightarrow>
       ch_lockout st' = ae_now E (ch_log st') + 60
       \<and> (e = ''FATAL_CAPTCHA_FAILED_NO_STREAMS'' \<longleftrightarrow> ae_connected E (ch_log st') = 0)
       \<and> (now' < ae_now E (ch_log st') + 60 \<longrightarrow>
            fetchVkCreds E' now' link' st' = (st', Inl ''CAPTCHA_WAIT_REQUIRED: global lockout active'')))"
proof -
  have f: "try_credentials E link vkCredentialsList [] st = (st', res)" using assms(1,2) by (simp add: fetchVkCreds_def)
  have locked: "locks E (st', res)" using locks_try [OF assms(3), where cs = vkCredentialsList and st = st] f by metis
  moreover have "(\<exists>e. res = Inl e \<and> captcha_error e) \<and> ch_solves st' = ch_solves st + solve_modes E
      \<and> length (ch_log st') = length (ch_log st) + 2 + solve_modes E" if h: "only_captchas E" "never_solves E"
  proof -
    obtain creds rest where l: "vkCredentialsList = creds # rest" by (simp add: vkCredentialsList_def)
    obtain st1 e where c: "getTokenChain E link creds st = (st1, Inl e)" "captcha_error e" "ch_solves st1 = ch_solves st + solve_modes E"
      "length (ch_log st1) = length (ch_log st) + 2 + solve_modes E"
      using unsolved_chain [OF h, of link creds st] by blast
    then have "st' = st1 \<and> res = Inl e" using f captcha_error_aborts [OF c(2)] by (simp add: l split: if_splits)
    then show ?thesis using c by simp
  qed
  ultimately show ?thesis by (auto simp: locks_def fetchVkCreds_def)
qed

text \<open>An API that answers every second-token request with a captcha, or with credentials.\<close>

definition sample_error :: json_object where
  "sample_error = [(''error_code'', JNum 14), (''redirect_uri'', JStr ''u''), (''captcha_sid'', JStr ''7''),
     (''captcha_img'', JStr ''''), (''error_msg'', JStr ''Captcha needed'')]"

definition sample_http :: "bool \<Rightarrow> (string \<times> string) list \<Rightarrow> string + json_object" where
  "sample_http captcha hist =
     (let n = length hist in
      if n = 1 then Inr [(''data'', JObj [(''access_token'', JStr ''t1'')])]
      else if n = 3 then
        (if captcha then Inr [(''error'', JObj sample_error)] else Inr [(''response'', JObj [(''token'', JStr ''t2'')])])
      else if n = 4 then Inr [(''session_key'', JStr ''t3'')]
      else if n = 5 then Inr [(''turn_server'', JObj [(''username'', JStr ''u''), (''credential'', JStr ''p''),
             (''urls'', JArr [JStr ''turn:1.2.3.4:3478?transport=udp'', JNull, JStr ''turns:h:5349''])])]
      else Inl ''connection refused'')"

definition sample_api :: "bool \<Rightarrow> api_env" where
  "sample_api captcha =
     \<lparr>ae_client = None, ae_http = sample_http captcha, ae_show = (\<lambda>_. ''map''), ae_session_token = (\<lambda>_. Some ''tok''),
      ae_solve = (\<lambda>_ _ _. ([], Some ''unsolved'')), ae_manual = (\<lambda>_ _. ManualTimeout), ae_now = (\<lambda>_. 1000),
      ae_connected = (\<lambda>_. 1), ae_name = ''Ivan'', ae_uuid = ''00'', ae_manualCaptcha = True, ae_sliderPOC = False\<rparr>"

definition chain_start :: chain where
  "chain_start = \<lparr>ch_log = [], ch_lockout = 0, ch_solves = 0\<rparr>"

definition sample_fetch :: "bool \<Rightarrow> chain \<times> (string + (string \<times> string \<times> string list))" where
  "sample_fetch captcha = fetchVkCreds (sample_api captcha) 900 ''room'' chain_start"

text \<open>The captcha of the sample is not solved.\<close>

lemma sample_round:
  assumes "length (ch_log st) = 2"
  shows "token2_round (sample_api captcha) link token1 url 0 body st =
    (let st1 = st\<lparr>ch_log := ch_log st @ [(body, url)]\<rparr> in
     if captcha then (st1\<lparr>ch_solves := ch_solves st + 1, ch_lockout := 1060\<rparr>, Inl ''CAPTCHA_WAIT_REQUIRED'')
     else (st1, Inr (Inl ''t2'')))"
  using assms
  by (simp add: token2_round_def api_defs doRequest_def sample_api_def sample_http_def Let_def
      captcha_turn_def captcha_giveup_def solve_captcha_def get_obj_def get_str_def
      captchaSolveModeForAttempt_def ParseVkCaptchaError_def IsCaptchaError_def sample_error_def str_or_num_def get_num_def get_bool_def
      float_int_def)

lemma sample_loop:
  assumes "length (ch_log st) = 2"
  shows "token2_loop (sample_api captcha) link token1 url 0 body st =
    (let st1 = st\<lparr>ch_log := ch_log st @ [(body, url)]\<rparr> in
     if captcha then (st1\<lparr>ch_solves := ch_solves st + 1, ch_lockout := 1060\<rparr>, Inl ''CAPTCHA_WAIT_REQUIRED'')
     else (st1, Inr ''t2''))"
  using sample_round [OF assms] by (subst token2_loop.simps) (simp add: Let_def)

lemma sample_http_api: "ae_http (sample_api captcha) = sample_http captcha"
  by (simp add: sample_api_def)

lemma sample_client: "newClient (sample_api captcha) = api_return ()"
  by (simp add: newClient_def sample_api_def)

lemmas sample_chain_simps = sample_client fetchVkCreds_def getTokenChain_def join_call_def sample_loop sample_http_api
  api_defs api_ignore_def doRequest_def sample_http_def chain_start_def get_obj_def get_str_def get_arr_def Let_def

lemma sample_fetch_ok: "snd (sample_fetch False) = Inr (''u'', ''p'', [''1.2.3.4:3478'', ''h:5349''])"
proof -
  have "turn_addresses [JStr ''turn:1.2.3.4:3478?transport=udp'', JNull, JStr ''turns:h:5349'']
      = [''1.2.3.4:3478'', ''h:5349'']"
    by (simp add: turn_addresses_def turn_address_def str_TrimPrefix_def map_filter_simps)
  then show ?thesis
    by (simp add: sample_fetch_def vkCredentialsList_def sample_chain_simps)
qed

lemma sample_fetch_captcha: "ch_lockout (fst (sample_fetch True)) = 1060"
  by (simp add: sample_fetch_def vkCredentialsList_def sample_chain_simps)

theorem fetch_bounded_witness: "length (ch_log (fst (sample_fetch False))) \<le> 40"
proof -
  have "fetchVkCreds (sample_api False) 900 ''room'' chain_start
      = (fst (sample_fetch False), Inr (''u'', ''p'', [''1.2.3.4:3478'', ''h:5349'']))"
    using sample_fetch_ok by (metis prod.collapse sample_fetch_def)
  from fetch_bounded [OF this] show ?thesis by (simp add: chain_start_def vkCredentialsList_def)
qed

text \<open>An API with captchas only.\<close>

definition captcha_api :: api_env where
  "captcha_api = (sample_api True)\<lparr>ae_http := (\<lambda>hist. if snd (last hist) = url_anon
     then Inr [(''data'', JObj [(''access_token'', JStr ''t1'')])] else Inr [(''error'', JObj sample_error)])\<rparr>"

lemma captcha_api_only: "only_captchas captcha_api" "never_solves captcha_api" "plain_errors captcha_api" "solve_modes captcha_api = 1"
proof -
  have "url_token2 c \<noteq> url_anon" for c by (simp add: url_token2_def url_anon_def)
  then show "only_captchas captcha_api"
    by (simp add: only_captchas_def captcha_api_def sample_api_def get_obj_def get_str_def sample_error_def
        ParseVkCaptchaError_def IsCaptchaError_def str_or_num_def get_num_def get_bool_def float_int_def)
qed (simp_all add: never_solves_def plain_errors_def captcha_api_def sample_api_def solve_modes_def)

theorem captcha_lockout_witness:
  "\<exists>st'. fetchVkCreds captcha_api 900 ''room'' chain_start = (st', Inl ''CAPTCHA_WAIT_REQUIRED'') \<and> length (ch_log st') = 3
     \<and> fetchVkCreds (sample_api False) 1059 ''room'' st' = (st', Inl ''CAPTCHA_WAIT_REQUIRED: global lockout active'')"
proof -
  obtain st' res where f: "fetchVkCreds captcha_api 900 ''room'' chain_start = (st', res)" by fastforce
  have n: "ae_now captcha_api hist = 1000" "ae_connected captcha_api hist = 1" for hist by (simp_all add: captcha_api_def sample_api_def)
  have "ch_lockout chain_start \<le> 900" by (simp add: chain_start_def)
  from captcha_lockout [OF f this captcha_api_only(3), of 1059 "sample_api False" "''room''"]
  show ?thesis using captcha_api_only f n by (auto simp: chain_start_def captcha_error_def)
qed

end
