(* ===== verification/Turn_Credentials.thy ===== *)
theory Turn_Credentials
  imports Token_Chain
begin

text \<open>
  The credential caches of the client's TURN streams (\<open>pkg/clientcore/main.go\<close>): streams share a cache
  in groups, a cached credential is used until shortly before it expires, authentication errors
  invalidate it, fetches are serialised and throttled, and every stream picks a TURN server by its
  own offset, avoiding servers in cooldown. Times are nanoseconds; each reading of the clock is an
  argument.
\<close>

section \<open>State\<close>

record credCache =
  cc_user :: string
  cc_pass :: string
  cc_addrs :: "string list"
  cc_expires :: int
  cc_link :: string
  cc_errorCount :: int
  cc_lastErrorTime :: int

record cred_state =
  cs_streamsPerCache :: int
  cs_caches :: "int \<rightharpoonup> credCache"
  cs_offsets :: "int \<Rightarrow> u64"
  cs_cooldowns :: "string \<rightharpoonup> int"
  cs_lastFetch :: "int option"
  cs_chain :: chain

definition second :: int where "second = 1000000000"
definition credentialLifetime :: int where "credentialLifetime = 600 * second"
definition cacheSafetyMargin :: int where "cacheSafetyMargin = 60 * second"
definition maxCacheErrors :: int where "maxCacheErrors = 3"
definition errorWindow :: int where "errorWindow = 10"
definition turnServerCooldown :: int where "turnServerCooldown = 30 * second"

text \<open>The zero time of Go, the first of January of the year 1.\<close>

definition zero_time :: int where "zero_time = - 62135596800 * second"

definition new_cache :: credCache where
  "new_cache = \<lparr>cc_user = [], cc_pass = [], cc_addrs = [], cc_expires = zero_time, cc_link = [],
     cc_errorCount = 0, cc_lastErrorTime = 0\<rparr>"

section \<open>Caches\<close>

text \<open>Go's division truncates; a number of streams per cache of zero would panic, but \<open>Run\<close> sets a
  positive one.\<close>

definition getCacheID :: "cred_state \<Rightarrow> int \<Rightarrow> int" where
  "getCacheID st sid =
     (let n = cs_streamsPerCache st in
      if 0 \<le> sid \<longleftrightarrow> 0 < n then \<bar>sid\<bar> div \<bar>n\<bar> else - (\<bar>sid\<bar> div \<bar>n\<bar>))"

definition getStreamCache :: "int \<Rightarrow> cred_state \<Rightarrow> cred_state \<times> credCache" where
  "getStreamCache sid st =
     (case cs_caches st (getCacheID st sid) of
        Some c \<Rightarrow> (st, c)
      | None \<Rightarrow> (st\<lparr>cs_caches := (cs_caches st)(getCacheID st sid \<mapsto> new_cache)\<rparr>, new_cache))"

definition putStreamCache :: "int \<Rightarrow> credCache \<Rightarrow> cred_state \<Rightarrow> cred_state" where
  "putStreamCache sid c st = st\<lparr>cs_caches := (cs_caches st)(getCacheID st sid \<mapsto> c)\<rparr>"

definition cache_invalidate :: "credCache \<Rightarrow> credCache" where
  "cache_invalidate c =
     c\<lparr>cc_user := [], cc_pass := [], cc_addrs := [], cc_expires := zero_time, cc_link := [],
       cc_errorCount := 0, cc_lastErrorTime := 0\<rparr>"

section \<open>TURN servers\<close>

definition rotateStreamServer :: "int \<Rightarrow> cred_state \<Rightarrow> cred_state \<times> u64" where
  "rotateStreamServer sid st =
     (let v = cs_offsets st sid + 1 in (st\<lparr>cs_offsets := (cs_offsets st)(sid := v)\<rparr>, v))"

definition markTURNServerCooldown :: "int \<Rightarrow> string \<Rightarrow> cred_state \<Rightarrow> cred_state" where
  "markTURNServerCooldown now addr st =
     st\<lparr>cs_cooldowns := (cs_cooldowns st)(addr \<mapsto> now + turnServerCooldown)\<rparr>"

definition isTURNServerAvailable :: "int \<Rightarrow> cred_state \<Rightarrow> string \<Rightarrow> bool" where
  "isTURNServerAvailable now st addr =
     (case cs_cooldowns st addr of None \<Rightarrow> True | Some until \<Rightarrow> until \<le> now)"

text \<open>The loop of \<open>pickStreamServerAddr\<close> with \<open>k\<close> servers left to try.\<close>

fun pick_from :: "int \<Rightarrow> cred_state \<Rightarrow> string list \<Rightarrow> u64 \<Rightarrow> nat \<Rightarrow> string option" where
  "pick_from now st addrs idx 0 = None"
| "pick_from now st addrs idx (Suc k) =
     (let addr = addrs ! unat (idx mod of_nat (length addrs)) in
      if isTURNServerAvailable now st addr then Some addr else pick_from now st addrs (idx + 1) k)"

text \<open>\<open>None\<close> is the panic of the remainder by zero.\<close>

definition pickStreamServerAddr :: "int \<Rightarrow> int \<Rightarrow> string list \<Rightarrow> cred_state \<Rightarrow> string option" where
  "pickStreamServerAddr now sid addrs st =
     (if addrs = [] then None
      else let start = (of_int sid + cs_offsets st sid) mod of_nat (length addrs) in
           (case pick_from now st addrs start (length addrs) of
              Some addr \<Rightarrow> Some addr
            | None \<Rightarrow> Some (addrs ! unat start)))"

section \<open>Authentication errors\<close>

definition isAuthError :: "string option \<Rightarrow> bool" where
  "isAuthError err =
     (case err of
        None \<Rightarrow> False
      | Some e \<Rightarrow> str_Contains e ''401'' \<or> str_Contains e ''Unauthorized'' \<or> str_Contains e ''authentication''
          \<or> str_Contains e ''invalid credential'' \<or> str_Contains e ''stale nonce'')"

text \<open>\<open>handleAuthError\<close>; \<open>now\<close> is in seconds.\<close>

definition cache_auth_error :: "int \<Rightarrow> credCache \<Rightarrow> credCache \<times> bool" where
  "cache_auth_error now c =
     (let c1 = (if errorWindow < now - cc_lastErrorTime c then c\<lparr>cc_errorCount := 0\<rparr> else c);
          c2 = c1\<lparr>cc_errorCount := cc_errorCount c1 + 1, cc_lastErrorTime := now\<rparr>
      in if maxCacheErrors \<le> cc_errorCount c2 then (cache_invalidate c2, True) else (c2, False))"

definition handleAuthError :: "int \<Rightarrow> int \<Rightarrow> cred_state \<Rightarrow> cred_state \<times> bool" where
  "handleAuthError now sid st =
     (let (st1, c) = getStreamCache sid st; (c', invalidated) = cache_auth_error now c
      in (putStreamCache sid c' st1, invalidated))"

text \<open>A successful allocation resets the count.\<close>

definition resetErrorCount :: "int \<Rightarrow> cred_state \<Rightarrow> cred_state" where
  "resetErrorCount sid st =
     (let (st1, c) = getStreamCache sid st in putStreamCache sid (c\<lparr>cc_errorCount := 0\<rparr>) st1)"

section \<open>Fetching\<close>

text \<open>\<open>fetchVkCredsSerialized\<close>: \<open>rnd\<close> is the random number of milliseconds below 3000, \<open>ctx_done\<close> tells
  whether the context ends during the wait, and \<open>fin\<close> is the clock when the fetch has ended. The
  third component is the time at which the fetch started, if it did.\<close>

definition fetch_wait :: "int \<Rightarrow> nat \<Rightarrow> cred_state \<Rightarrow> int" where
  "fetch_wait now rnd st =
     (let minInterval = 3 * second + int rnd * 1000000 in
      case cs_lastFetch st of
        None \<Rightarrow> 0
      | Some last_fetch \<Rightarrow> if now - last_fetch < minInterval then minInterval - (now - last_fetch) else 0)"

definition fetchVkCredsSerialized ::
  "api_env \<Rightarrow> int \<Rightarrow> nat \<Rightarrow> bool \<Rightarrow> int \<Rightarrow> string \<Rightarrow> cred_state
     \<Rightarrow> cred_state \<times> (string + (string \<times> string \<times> string list)) \<times> int option" where
  "fetchVkCredsSerialized E now rnd ctx_done fin link st =
     (let wait = fetch_wait now rnd st in
      if 0 < wait \<and> ctx_done then (st, Inl ''context canceled'', None)
      else (let begun = now + wait; (ch, r) = fetchVkCreds E (begun div second) link (cs_chain st)
            in (st\<lparr>cs_chain := ch, cs_lastFetch := Some fin\<rparr>, r, Some begun)))"

definition cache_usable :: "int \<Rightarrow> string \<Rightarrow> credCache \<Rightarrow> bool" where
  "cache_usable now link c \<longleftrightarrow> cc_link c = link \<and> now < cc_expires c \<and> cc_addrs c \<noteq> []"

text \<open>\<open>getVkCredsCached\<close>: the check under the read lock at \<open>t1\<close>, the second check under the write lock at
  \<open>t2\<close>, the store at \<open>t3\<close>. Between the locks another stream of the group may have stored
  credentials: \<open>other\<close> is the cache as the second check finds it. The result is \<open>None\<close> for a panic.\<close>

record cred_clock =
  ck_first :: int
  ck_second :: int
  ck_rnd :: nat
  ck_ctx_done :: bool
  ck_fetched :: int
  ck_store :: int

definition getVkCredsCached ::
  "api_env \<Rightarrow> cred_clock \<Rightarrow> credCache option \<Rightarrow> string \<Rightarrow> int \<Rightarrow> cred_state
     \<Rightarrow> (cred_state \<times> (string + (string \<times> string \<times> string))) option" where
  "getVkCredsCached E k other link sid st0 =
     (let (st, c) = getStreamCache sid st0 in
      if cache_usable (ck_first k) link c then
        (case pickStreamServerAddr (ck_first k) sid (cc_addrs c) st of
           None \<Rightarrow> None
         | Some addr \<Rightarrow> Some (st, Inr (cc_user c, cc_pass c, addr)))
      else
        let c2 = (case other of None \<Rightarrow> c | Some o' \<Rightarrow> o'); st2 = putStreamCache sid c2 st in
        if cache_usable (ck_second k) link c2 then
          (case pickStreamServerAddr (ck_second k) sid (cc_addrs c2) st2 of
             None \<Rightarrow> None
           | Some addr \<Rightarrow> Some (st2, Inr (cc_user c2, cc_pass c2, addr)))
        else
          (case fetchVkCredsSerialized E (ck_second k) (ck_rnd k) (ck_ctx_done k) (ck_fetched k) link st2 of
             (st3, Inl e, _) \<Rightarrow> Some (st3, Inl e)
           | (st3, Inr (user, pass, addrs), _) \<Rightarrow>
               let c3 = c2\<lparr>cc_user := user, cc_pass := pass, cc_addrs := addrs,
                           cc_expires := ck_store k + (credentialLifetime - cacheSafetyMargin), cc_link := link\<rparr>;
                   st4 = putStreamCache sid c3 st3
               in (case pickStreamServerAddr (ck_store k) sid addrs st4 of
                     None \<Rightarrow> None
                   | Some addr \<Rightarrow> Some (st4, Inr (user, pass, addr)))))"

section \<open>Lemmas\<close>

lemma unat_mod_len: "0 < n \<Longrightarrow> n < 2 ^ 64 \<Longrightarrow> unat ((i :: u64) mod of_nat n) = unat i mod n"
  by (simp add: unat_mod unat_of_nat take_bit_nat_eq_self)

lemma pick_from_Some:
  "pick_from now st addrs idx k = Some addr \<Longrightarrow> addrs \<noteq> [] \<Longrightarrow> length addrs < 2 ^ 64
    \<Longrightarrow> addr \<in> set addrs \<and> isTURNServerAvailable now st addr"
  by (induction now st addrs idx k rule: pick_from.induct)
    (auto simp: Let_def unat_mod_len split: if_splits intro!: nth_mem mod_less_divisor)

lemma pick_from_spec:
  assumes "addrs \<noteq> []" and "unat idx + k < 2 ^ 64" and "length addrs < 2 ^ 64"
  shows "pick_from now st addrs idx k
    = find (isTURNServerAvailable now st) (map (\<lambda>j. addrs ! ((unat idx + j) mod length addrs)) [0..<k])"
  using assms
proof (induction k arbitrary: idx)
  case 0
  then show ?case by simp
next
  case (Suc k)
  have u: "unat (idx + 1) = Suc (unat idx)" using Suc.prems(2) by (simp add: unat_word_ariths)
  have "[0..<Suc k] = 0 # map Suc [0..<k]" by (simp add: map_Suc_upt upt_conv_Cons)
  moreover have "unat (idx mod of_nat (length addrs)) = unat idx mod length addrs"
    using Suc.prems by (intro unat_mod_len) auto
  moreover have "pick_from now st addrs (idx + 1) k
      = find (isTURNServerAvailable now st) (map (\<lambda>j. addrs ! ((unat (idx + 1) + j) mod length addrs)) [0..<k])"
    using Suc.prems u by (intro Suc.IH) simp_all
  ultimately show ?case using u by (simp add: Let_def o_def)
qed

text \<open>The servers in the order in which a stream tries them.\<close>

definition server_order :: "int \<Rightarrow> string list \<Rightarrow> cred_state \<Rightarrow> string list" where
  "server_order sid addrs st =
     rotate (unat ((of_int sid + cs_offsets st sid) mod of_nat (length addrs))) addrs"

lemma server_order_nth:
  "addrs \<noteq> [] \<Longrightarrow> server_order sid addrs st
    = map (\<lambda>j. addrs ! ((unat ((of_int sid + cs_offsets st sid) mod of_nat (length addrs)) + j) mod length addrs))
        [0..<length addrs]"
  by (rule nth_equalityI) (simp_all add: server_order_def nth_rotate)

lemma pick_spec:
  assumes "addrs \<noteq> []" and "2 * length addrs < 2 ^ 64"
  shows "pickStreamServerAddr now sid addrs st
    = Some (case find (isTURNServerAvailable now st) (server_order sid addrs st) of
        Some addr \<Rightarrow> addr | None \<Rightarrow> hd (server_order sid addrs st))"
proof -
  let ?start = "(of_int sid + cs_offsets st sid) mod of_nat (length addrs) :: u64"
  have s: "unat ?start < length addrs" using assms by (subst unat_mod_len) auto
  have "pick_from now st addrs ?start (length addrs) = find (isTURNServerAvailable now st) (server_order sid addrs st)"
    using assms s by (subst server_order_nth, simp) (intro pick_from_spec, auto)
  moreover have "hd (server_order sid addrs st) = addrs ! unat ?start"
    using assms s by (simp add: server_order_def hd_rotate_conv_nth)
  ultimately show ?thesis using assms by (simp add: pickStreamServerAddr_def Let_def split: option.splits)
qed

lemma pick_member:
  assumes "pickStreamServerAddr now sid addrs st = Some addr" and "length addrs < 2 ^ 64"
  shows "addr \<in> set addrs"
proof -
  have "addrs \<noteq> []" using assms(1) by (auto simp: pickStreamServerAddr_def)
  then have "addrs ! unat ((of_int sid + cs_offsets st sid) mod of_nat (length addrs)) \<in> set addrs"
    using assms(2) by (intro nth_mem, subst unat_mod_len) auto
  then show ?thesis
    using assms pick_from_Some \<open>addrs \<noteq> []\<close> by (auto simp: pickStreamServerAddr_def Let_def split: option.splits)
qed

lemma cacheID_frame [simp]:
  "getCacheID (putStreamCache sid c st) = getCacheID st"
  "getCacheID (st\<lparr>cs_chain := ch, cs_lastFetch := lf\<rparr>) = getCacheID st"
  "getCacheID (fst (getStreamCache sid st)) = getCacheID st"
  by (rule ext; simp add: getCacheID_def putStreamCache_def getStreamCache_def split: option.splits)+

lemma getStreamCache_put [simp]:
  "getCacheID st sid' = getCacheID st sid \<Longrightarrow> getStreamCache sid' (putStreamCache sid c st) = (putStreamCache sid c st, c)"
  by (simp add: getStreamCache_def) (simp add: putStreamCache_def)

lemma getStreamCache_again:
  "getStreamCache sid st0 = (st, c) \<Longrightarrow> getCacheID st0 sid' = getCacheID st0 sid \<Longrightarrow> getStreamCache sid' st = (st, c)"
proof (cases "cs_caches st0 (getCacheID st0 sid)")
  case None
  assume a: "getStreamCache sid st0 = (st, c)" "getCacheID st0 sid' = getCacheID st0 sid"
  then have "st = putStreamCache sid new_cache st0" "c = new_cache"
    using None by (auto simp: getStreamCache_def putStreamCache_def)
  then show ?thesis using a(2) by simp
next
  case (Some c')
  assume "getStreamCache sid st0 = (st, c)" "getCacheID st0 sid' = getCacheID st0 sid"
  then show ?thesis using Some by (auto simp: getStreamCache_def)
qed

lemma fetch_serialized_addrs:
  "fetchVkCredsSerialized E now rnd ctx_done fin link st = (st', Inr (user, pass, addrs), b) \<Longrightarrow>
     addrs \<noteq> [] \<and> (\<exists>ch lf. st' = st\<lparr>cs_chain := ch, cs_lastFetch := lf\<rparr>)"
  by (auto simp: fetchVkCredsSerialized_def Let_def dest: fetch_addrs split: if_splits prod.splits)

section \<open>Properties\<close>

text \<open>C16: a stream picks its TURN server as intended: starting at the server that its number and its offset
  select and going round the list, it takes the first server that is not in cooldown, and its
  first choice when all of them are.\<close>

theorem server_choice_spec:
  assumes "addrs \<noteq> []" and "2 * length addrs < 2 ^ 64"
  shows "pickStreamServerAddr now sid addrs st
    = Some (case find (isTURNServerAvailable now st) (server_order sid addrs st) of
        Some addr \<Rightarrow> addr | None \<Rightarrow> hd (server_order sid addrs st))"
  using pick_spec assms .

definition sample_creds :: cred_state where
  "sample_creds = \<lparr>cs_streamsPerCache = 10, cs_caches = Map.empty, cs_offsets = (\<lambda>_. 0),
     cs_cooldowns = [''b'' \<mapsto> 50], cs_lastFetch = None, cs_chain = chain_start\<rparr>"

theorem server_choice_spec_witness:
  "pickStreamServerAddr 7 1 [''a'', ''b'', ''c''] sample_creds = Some ''c''"
  using server_choice_spec [of "[''a'', ''b'', ''c'']" 7 1 sample_creds]
  by (simp add: server_order_nth sample_creds_def isTURNServerAvailable_def upt_rec)

text \<open>Looking up credentials never panics: a cache is only used when it holds an address, and a fetch
  that succeeds brings one, so the choice of a server never divides by zero.\<close>

theorem credentials_never_panic: "getVkCredsCached E k other link sid st \<noteq> None"
proof -
  have pick: "addrs \<noteq> [] \<Longrightarrow> pickStreamServerAddr now s addrs w \<noteq> None" for addrs now s w
    by (simp add: pickStreamServerAddr_def Let_def split: option.splits)
  show ?thesis
    unfolding getVkCredsCached_def
    by (auto simp: Let_def cache_usable_def pick dest: fetch_serialized_addrs split: prod.splits option.splits sum.splits)
qed

lemma usable_lookup:
  assumes "cs_caches st (getCacheID st sid) = Some c" and "cache_usable (ck_first k) link c"
  shows "\<exists>addr. pickStreamServerAddr (ck_first k) sid (cc_addrs c) st = Some addr
    \<and> getVkCredsCached E k other link sid st = Some (st, Inr (cc_user c, cc_pass c, addr))"
proof -
  have "pickStreamServerAddr (ck_first k) sid (cc_addrs c) st \<noteq> None"
    using assms(2) by (simp add: pickStreamServerAddr_def cache_usable_def Let_def split: option.splits)
  then show ?thesis using assms by (auto simp: getVkCredsCached_def getStreamCache_def)
qed

lemma put_caches [simp]:
  "cs_caches (putStreamCache sid c st) (getCacheID st sid) = Some c"
  by (simp add: putStreamCache_def)

lemma lookup_leaves_cache:
  assumes "getVkCredsCached E k other link sid st = Some (st', Inr (user, pass, addr))"
  shows "getCacheID st' = getCacheID st \<and> (\<exists>c. cs_caches st' (getCacheID st sid) = Some c \<and> cc_user c = user
    \<and> cc_pass c = pass \<and> cc_link c = link \<and> cc_addrs c \<noteq> [])"
proof -
  obtain s c where g: "getStreamCache sid st = (s, c)" by fastforce
  have id: "getCacheID s = getCacheID st" using g by (metis cacheID_frame(3) fst_conv)
  have c: "cs_caches s (getCacheID st sid) = Some c"
    using g by (auto simp: getStreamCache_def split: option.splits)
  show ?thesis
  proof (cases "cache_usable (ck_first k) link c")
    case True
    then show ?thesis using assms g c id
      by (auto simp: getVkCredsCached_def cache_usable_def split: option.splits)
  next
    case False
    let ?c2 = "case other of None \<Rightarrow> c | Some o' \<Rightarrow> o'"
    let ?s2 = "putStreamCache sid ?c2 s"
    show ?thesis
    proof (cases "cache_usable (ck_second k) link ?c2")
      case True
      have "st' = ?s2 \<and> user = cc_user ?c2 \<and> pass = cc_pass ?c2"
        using assms g False True by (auto simp: getVkCredsCached_def Let_def split: option.splits)
      moreover have "cs_caches ?s2 (getCacheID st sid) = Some ?c2" using put_caches [of sid ?c2 s] by (simp only: id)
      ultimately show ?thesis using True id by (auto simp: cache_usable_def)
    next
      case no: False
      obtain s3 r b where f: "fetchVkCredsSerialized E (ck_second k) (ck_rnd k) (ck_ctx_done k) (ck_fetched k) link ?s2
          = (s3, r, b)" by (metis prod_cases3)
      then obtain u p ads where r: "r = Inr (u, p, ads)"
        using assms g False no by (cases r) (auto simp: getVkCredsCached_def Let_def split: option.splits)
      have s3: "ads \<noteq> []" "getCacheID s3 = getCacheID st"
        using fetch_serialized_addrs f [unfolded r] id by fastforce+
      show ?thesis using assms g False no f r s3 put_caches [of sid _ s3]
        by (auto simp: getVkCredsCached_def Let_def split: option.splits simp del: put_caches)
    qed
  qed
qed

text \<open>C17: credentials are shared: once a stream has got credentials, every stream of its group that asks for the
  same link while they are fresh gets the same user and password and a server of its own choice,
  without any request to the service and without any change of the state.\<close>

theorem credentials_shared:
  assumes "getVkCredsCached E k other link sid st = Some (st', Inr (user, pass, addr))"
    and "getCacheID st sid' = getCacheID st sid"
  shows "\<exists>c. cs_caches st' (getCacheID st sid) = Some c \<and>
    (\<forall>E' k' other'. ck_first k' < cc_expires c \<longrightarrow>
       (\<exists>addr'. pickStreamServerAddr (ck_first k') sid' (cc_addrs c) st' = Some addr' \<and>
          getVkCredsCached E' k' other' link sid' st' = Some (st', Inr (user, pass, addr'))))"
proof -
  obtain c where c: "getCacheID st' = getCacheID st" "cs_caches st' (getCacheID st sid) = Some c"
    "cc_user c = user" "cc_pass c = pass" "cc_link c = link" "cc_addrs c \<noteq> []"
    using lookup_leaves_cache [OF assms(1)] by blast
  have "cs_caches st' (getCacheID st' sid') = Some c" using c assms(2) by simp
  with c show ?thesis using usable_lookup [of st' sid' c] by (auto simp: cache_usable_def)
qed

definition sample_clock :: "int \<Rightarrow> cred_clock" where
  "sample_clock s = \<lparr>ck_first = s * second, ck_second = s * second, ck_rnd = 0, ck_ctx_done = False,
     ck_fetched = s * second, ck_store = s * second\<rparr>"

definition sample_stored :: cred_state where
  "sample_stored = sample_creds\<lparr>cs_chain := fst (sample_fetch False), cs_lastFetch := Some (900 * second),
     cs_caches := [0 \<mapsto> \<lparr>cc_user = ''u'', cc_pass = ''p'', cc_addrs = [''1.2.3.4:3478'', ''h:5349''],
       cc_expires = 1440 * second, cc_link = ''room'', cc_errorCount = 0, cc_lastErrorTime = 0\<rparr>]\<rparr>"

lemma sample_lookup:
  "getVkCredsCached (sample_api False) (sample_clock 900) None ''room'' 1 sample_creds
    = Some (sample_stored, Inr (''u'', ''p'', ''h:5349''))"
proof -
  obtain ch where ch: "sample_fetch False = (ch, Inr (''u'', ''p'', [''1.2.3.4:3478'', ''h:5349'']))"
    using sample_fetch_ok by (metis prod.collapse)
  then have f: "fetchVkCreds (sample_api False) 900 ''room'' chain_start = (ch, Inr (''u'', ''p'', [''1.2.3.4:3478'', ''h:5349'']))"
    by (simp add: sample_fetch_def)
  have b: "(1 :: u64) mod (1 + 1) = 1" by simp
  show ?thesis
    unfolding getVkCredsCached_def sample_clock_def
    by (simp add: getStreamCache_def sample_creds_def getCacheID_def cache_usable_def new_cache_def
        fetchVkCredsSerialized_def fetch_wait_def f putStreamCache_def pickStreamServerAddr_def
        isTURNServerAvailable_def b Let_def second_def)
      (simp add: sample_stored_def sample_creds_def ch credentialLifetime_def cacheSafetyMargin_def second_def)
qed

theorem credentials_shared_witness:
  "\<exists>addr. getVkCredsCached (sample_api True) (sample_clock 1439) None ''room'' 7 sample_stored
     = Some (sample_stored, Inr (''u'', ''p'', addr))"
proof -
  have "getCacheID sample_creds 7 = getCacheID sample_creds 1" by (simp add: getCacheID_def sample_creds_def)
  moreover have "cs_caches sample_stored (getCacheID sample_creds 1) = Some c \<Longrightarrow> cc_expires c = 1440 * second" for c
    by (auto simp: sample_stored_def sample_creds_def getCacheID_def)
  moreover have "ck_first (sample_clock 1439) < 1440 * second" by (simp add: sample_clock_def second_def)
  ultimately show ?thesis using credentials_shared [OF sample_lookup, of 7] by force
qed

lemma auth_error_step:
  assumes "cache_auth_error now c = (c', b)"
  defines "n \<equiv> if now - cc_lastErrorTime c \<le> 10 then cc_errorCount c + 1 else 1"
  shows "b \<longleftrightarrow> 3 \<le> n" and "\<not> b \<Longrightarrow> cc_errorCount c' = n" and "\<not> b \<Longrightarrow> cc_lastErrorTime c' = now"
    and "b \<Longrightarrow> cc_addrs c' = []"
  using assms(1) unfolding n_def
  by (auto simp: cache_auth_error_def errorWindow_def maxCacheErrors_def cache_invalidate_def Let_def split: if_splits)

lemma handleAuthError_step:
  assumes "getStreamCache sid st = (s, c)" and "handleAuthError now sid st = (st', b)"
  shows "\<exists>c'. cache_auth_error now c = (c', b) \<and> st' = putStreamCache sid c' s"
  using assms by (auto simp: handleAuthError_def Let_def split: prod.splits)

text \<open>Authentication errors of the streams of one group, the count starting at zero: the third of three errors
  in a row invalidates the group's credentials exactly if no two of them are more than ten seconds
  apart; the first two never do, and afterwards the invalidated cache is not used for any link.\<close>

theorem auth_errors_invalidate:
  assumes "cc_errorCount (snd (getStreamCache sid1 st)) = 0"
    and "getCacheID st sid2 = getCacheID st sid1" and "getCacheID st sid3 = getCacheID st sid1"
    and "handleAuthError t1 sid1 st = (st1, b1)" and "handleAuthError t2 sid2 st1 = (st2, b2)"
    and "handleAuthError t3 sid3 st2 = (st3, b3)"
  shows "\<not> b1 \<and> \<not> b2 \<and> (b3 \<longleftrightarrow> t2 - t1 \<le> 10 \<and> t3 - t2 \<le> 10) \<and>
    (b3 \<longrightarrow> (\<forall>now link. \<not> cache_usable now link (snd (getStreamCache sid1 st3))))"
proof -
  obtain s c where g: "getStreamCache sid1 st = (s, c)" by fastforce
  have id: "getCacheID s = getCacheID st" using g by (metis cacheID_frame(3) fst_conv)
  obtain c1 where c1: "cache_auth_error t1 c = (c1, b1)" "st1 = putStreamCache sid1 c1 s"
    using handleAuthError_step [OF g assms(4)] by blast
  have n1: "\<not> b1" "cc_errorCount c1 = 1" "cc_lastErrorTime c1 = t1"
    using auth_error_step [OF c1(1)] assms(1) g by (auto split: if_splits)
  have g1: "getStreamCache sid2 st1 = (st1, c1)" using assms(2) id c1(2) by simp
  obtain c2 where c2: "cache_auth_error t2 c1 = (c2, b2)" "st2 = putStreamCache sid2 c2 st1"
    using handleAuthError_step [OF g1 assms(5)] by blast
  have n2: "\<not> b2" "cc_errorCount c2 = (if t2 - t1 \<le> 10 then 2 else 1)" "cc_lastErrorTime c2 = t2"
    using auth_error_step [OF c2(1)] n1 by (auto split: if_splits)
  have ids: "getCacheID st1 = getCacheID st" "getCacheID st2 = getCacheID st" using c1(2) c2(2) id by simp_all
  have g2: "getStreamCache sid3 st2 = (st2, c2)" using assms(2,3) ids c2(2) by simp
  obtain c3 where c3: "cache_auth_error t3 c2 = (c3, b3)" "st3 = putStreamCache sid3 c3 st2"
    using handleAuthError_step [OF g2 assms(6)] by blast
  have "getStreamCache sid1 st3 = (st3, c3)" using assms(3) ids c3(2) by simp
  then show ?thesis using auth_error_step [OF c3(1)] n1 n2 by (auto simp: cache_usable_def)
qed

theorem auth_errors_invalidate_witness:
  "snd (handleAuthError 118 9 (fst (handleAuthError 109 1 (fst (handleAuthError 100 0 sample_stored)))))"
proof -
  have "cc_errorCount (snd (getStreamCache 0 sample_stored)) = 0"
    by (simp add: getStreamCache_def sample_stored_def sample_creds_def getCacheID_def new_cache_def)
  moreover have "getCacheID sample_stored 1 = getCacheID sample_stored 0"
    "getCacheID sample_stored 9 = getCacheID sample_stored 0"
    by (simp_all add: getCacheID_def sample_stored_def sample_creds_def)
  ultimately show ?thesis
    using auth_errors_invalidate [OF _ _ _ prod.collapse [symmetric] prod.collapse [symmetric] prod.collapse [symmetric],
        of 0 sample_stored 1 9 100 109 118] by simp
qed

text \<open>Fetches are throttled: a fetch begins at once if there was none before, otherwise not before three
  seconds have passed since the last one ended, and it never waits for six seconds or more; the lookup that is
  cancelled while it waits makes no request.\<close>

theorem fetch_throttled:
  assumes "fetchVkCredsSerialized E now rnd ctx_done fin link st = (st', r, begun)"
    and "rnd < 3000" and "\<forall>t. cs_lastFetch st = Some t \<longrightarrow> t \<le> now"
  shows "case begun of
      None \<Rightarrow> st' = st \<and> ctx_done
    | Some b \<Rightarrow> now \<le> b \<and> b < now + 6 * second \<and> cs_lastFetch st' = Some fin
        \<and> (\<forall>t. cs_lastFetch st = Some t \<longrightarrow> t + 3 * second \<le> b) \<and> (cs_lastFetch st = None \<longrightarrow> b = now)"
  using assms
  by (auto simp: fetchVkCredsSerialized_def fetch_wait_def second_def Let_def split: if_splits option.splits prod.splits)

theorem fetch_throttled_witness:
  "\<exists>b. snd (snd (fetchVkCredsSerialized (sample_api False) (901 * second) 500 False (905 * second) ''room'' sample_stored)) = Some b
     \<and> 900 * second + 3 * second \<le> b \<and> b < 907 * second"
proof -
  obtain st' r b where f: "fetchVkCredsSerialized (sample_api False) (901 * second) 500 False (905 * second) ''room''
      sample_stored = (st', r, b)" by (metis prod_cases3)
  have "cs_lastFetch sample_stored = Some (900 * second)" by (simp add: sample_stored_def)
  then show ?thesis using fetch_throttled [OF f] f by (cases b) (auto simp: second_def)
qed

end
