(* ===== verification/Slider_Puzzle.thy ===== *)
theory Slider_Puzzle
  imports Vk_Api "HOL-Library.Product_Lexorder" "HOL-Library.Multiset"
begin

text \<open>
  The slider captcha as a puzzle (\<open>pkg/clientcore/slider_captcha.go\<close>): the picture is cut into a grid of
  tiles, every candidate is a number of swaps that have been applied to the tiles, and the client
  ranks the candidates by how well the tiles match along their borders. \<open>None\<close> is a panic (a
  division by zero or an index out of range), \<open>Inl\<close> an error.

  The sides of a decoded picture are below 65536, so the products of coordinates and the sum of the
  differences stay far below 2^63 and are exact; the only product of numbers that the server chooses
  freely is the number of tiles, which wraps.
\<close>

section \<open>Pictures\<close>

record rect =
  r_x0 :: int
  r_y0 :: int
  r_x1 :: int
  r_y1 :: int

definition rect_Dx :: "rect \<Rightarrow> int" where "rect_Dx r = r_x1 r - r_x0 r"
definition rect_Dy :: "rect \<Rightarrow> int" where "rect_Dy r = r_y1 r - r_y0 r"
definition rect_Empty :: "rect \<Rightarrow> bool" where "rect_Empty r \<longleftrightarrow> r_x1 r \<le> r_x0 r \<or> r_y1 r \<le> r_y0 r"

definition rect_in :: "rect \<Rightarrow> int \<Rightarrow> int \<Rightarrow> bool" where
  "rect_in r x y \<longleftrightarrow> r_x0 r \<le> x \<and> x < r_x1 r \<and> r_y0 r \<le> y \<and> y < r_y1 r"

definition image_Rect :: "int \<Rightarrow> int \<Rightarrow> int \<Rightarrow> int \<Rightarrow> rect" where
  "image_Rect x0 y0 x1 y1 = \<lparr>r_x0 = min x0 x1, r_y0 = min y0 y1, r_x1 = max x0 x1, r_y1 = max y0 y1\<rparr>"

text \<open>A colour is what \<open>RGBA()\<close> returns: four numbers of 16 bits in words of 32.\<close>

type_synonym color = "u32 \<times> u32 \<times> u32 \<times> u32"

record picture =
  im_bounds :: rect
  im_at :: "int \<Rightarrow> int \<Rightarrow> color"

text \<open>A pixel of an \<open>image.RGBA\<close> has eight bits per channel.\<close>

definition channel8 :: "u32 \<Rightarrow> u32" where
  "channel8 c = (drop_bit 8 c AND 0xFF) * 0x101"

definition color8 :: "color \<Rightarrow> color" where
  "color8 c = (case c of (r, g, b, a) \<Rightarrow> (channel8 r, channel8 g, channel8 b, channel8 a))"

definition new_RGBA :: "rect \<Rightarrow> picture" where
  "new_RGBA bounds = \<lparr>im_bounds = bounds, im_at = (\<lambda>_ _. (0, 0, 0, 0))\<rparr>"

definition img_Set :: "int \<Rightarrow> int \<Rightarrow> color \<Rightarrow> picture \<Rightarrow> picture" where
  "img_Set x y c im =
     (if rect_in (im_bounds im) x y
      then im\<lparr>im_at := (\<lambda>x' y'. if x' = x \<and> y' = y then color8 c else im_at im x' y')\<rparr> else im)"

section \<open>Tiles\<close>

definition sliderTileRect :: "rect \<Rightarrow> int \<Rightarrow> int \<Rightarrow> rect" where
  "sliderTileRect bounds gridSize index =
     (let row = index div gridSize; col = index mod gridSize in
      image_Rect (r_x0 bounds + col * rect_Dx bounds div gridSize) (r_y0 bounds + row * rect_Dy bounds div gridSize)
        (r_x0 bounds + (col + 1) * rect_Dx bounds div gridSize) (r_y0 bounds + (row + 1) * rect_Dy bounds div gridSize))"

definition copyScaledTile :: "rect \<Rightarrow> picture \<Rightarrow> rect \<Rightarrow> picture \<Rightarrow> picture" where
  "copyScaledTile dstRect src srcRect dst =
     (if rect_Empty dstRect \<or> rect_Empty srcRect then dst
      else fold (\<lambda>y. fold (\<lambda>x.
             img_Set (r_x0 dstRect + x) (r_y0 dstRect + y)
               (im_at src (r_x0 srcRect + x * rect_Dx srcRect div rect_Dx dstRect)
                  (r_y0 srcRect + y * rect_Dy srcRect div rect_Dy dstRect)))
             [0..rect_Dx dstRect - 1]) [0..rect_Dy dstRect - 1] dst)"

definition renderSliderCandidate :: "picture \<Rightarrow> int \<Rightarrow> int list \<Rightarrow> string + picture" where
  "renderSliderCandidate img gridSize mapping =
     (if gridSize \<le> 0 then Inl ''invalid grid size''
      else if int (length mapping) \<noteq> gridSize * gridSize then Inl ''unexpected tile mapping length''
      else Inr (fold (\<lambda>(dstIndex, srcIndex).
             copyScaledTile (sliderTileRect (im_bounds img) gridSize (int dstIndex)) img
               (sliderTileRect (im_bounds img) gridSize srcIndex))
             (enumerate 0 mapping) (new_RGBA (im_bounds img))))"

section \<open>Candidates\<close>

definition wrap64 :: "int \<Rightarrow> int" where
  "wrap64 i = signed_take_bit 63 i"

definition buildSliderActiveSteps :: "int list \<Rightarrow> int \<Rightarrow> int list" where
  "buildSliderActiveSteps swaps candidateIndex =
     (if candidateIndex \<le> 0 then []
      else let e = candidateIndex * 2; e' = (if int (length swaps) < e then int (length swaps) else e)
           in take (nat e') swaps)"

text \<open>The loop over the pairs of steps.\<close>

fun apply_swaps :: "int \<Rightarrow> int list \<Rightarrow> int list \<Rightarrow> string + int list" where
  "apply_swaps tileCount (left # right # steps) mapping =
     (if left < 0 \<or> right < 0 \<or> tileCount \<le> left \<or> tileCount \<le> right then Inl ''slider step out of range''
      else apply_swaps tileCount steps
             (mapping[nat left := mapping ! nat right, nat right := mapping ! nat left]))"
| "apply_swaps tileCount steps mapping = Inr mapping"

definition buildSliderTileMapping :: "int \<Rightarrow> int list \<Rightarrow> string + int list" where
  "buildSliderTileMapping gridSize activeSteps =
     (let tileCount = wrap64 (gridSize * gridSize) in
      if tileCount \<le> 0 then Inl ''invalid slider tile count''
      else if odd (length activeSteps) then Inl ''invalid active steps length''
      else apply_swaps tileCount activeSteps [0..tileCount - 1])"

definition absDiff :: "u32 \<Rightarrow> u32 \<Rightarrow> int" where
  "absDiff left right = (if right < left then uint (left - right) else uint (right - left))"

definition pixelDiff :: "color \<Rightarrow> color \<Rightarrow> int" where
  "pixelDiff left right =
     (case left of (lr, lg, lb, _) \<Rightarrow> case right of (rr, rg, rb, _) \<Rightarrow>
        absDiff lr rr + absDiff lg rg + absDiff lb rb)"

text \<open>The sum of partial results: a panic anywhere is a panic of the whole.\<close>

fun opt_sum :: "int option list \<Rightarrow> int option" where
  "opt_sum [] = Some 0"
| "opt_sum (None # xs) = None"
| "opt_sum (Some a # xs) = map_option ((+) a) (opt_sum xs)"

text \<open>The border between the tile at \<open>row\<close>, \<open>col\<close> and the one to its right, then the one below. Both divisors
  in the loops are positive whenever the loop runs.\<close>

definition seam_right :: "picture \<Rightarrow> int \<Rightarrow> int list \<Rightarrow> int \<Rightarrow> int \<Rightarrow> int option" where
  "seam_right img gridSize mapping row col =
     (let dstLeftIndex = row * gridSize + col; dstRightIndex = row * gridSize + col + 1 in
      if int (length mapping) \<le> dstRightIndex then None
      else let tile = sliderTileRect (im_bounds img) gridSize;
             srcLeft = tile (mapping ! nat dstLeftIndex); srcRight = tile (mapping ! nat dstRightIndex);
             dstLeft = tile dstLeftIndex; dstRight = tile dstRightIndex;
             height = min (rect_Dy dstLeft) (rect_Dy dstRight)
           in if rect_Dx dstLeft = 0 then None
              else let sxLeft = r_x0 srcLeft + (rect_Dx dstLeft - 1) * rect_Dx srcLeft div rect_Dx dstLeft in
                Some (\<Sum>offset\<leftarrow>[0..height - 1].
                  pixelDiff
                    (im_at img sxLeft (r_y0 srcLeft + offset * rect_Dy srcLeft div rect_Dy dstLeft))
                    (im_at img (r_x0 srcRight) (r_y0 srcRight + offset * rect_Dy srcRight div rect_Dy dstRight))))"

definition seam_below :: "picture \<Rightarrow> int \<Rightarrow> int list \<Rightarrow> int \<Rightarrow> int \<Rightarrow> int option" where
  "seam_below img gridSize mapping row col =
     (let dstTopIndex = row * gridSize + col; dstBottomIndex = (row + 1) * gridSize + col in
      if int (length mapping) \<le> dstBottomIndex then None
      else let tile = sliderTileRect (im_bounds img) gridSize;
             srcTop = tile (mapping ! nat dstTopIndex); srcBottom = tile (mapping ! nat dstBottomIndex);
             dstTop = tile dstTopIndex; dstBottom = tile dstBottomIndex;
             width = min (rect_Dx dstTop) (rect_Dx dstBottom)
           in if rect_Dy dstTop = 0 then None
              else let syTop = r_y0 srcTop + (rect_Dy dstTop - 1) * rect_Dy srcTop div rect_Dy dstTop in
                Some (\<Sum>offset\<leftarrow>[0..width - 1].
                  pixelDiff
                    (im_at img (r_x0 srcTop + offset * rect_Dx srcTop div rect_Dx dstTop) syTop)
                    (im_at img (r_x0 srcBottom + offset * rect_Dx srcBottom div rect_Dx dstBottom) (r_y0 srcBottom))))"

definition scoreSliderCandidate :: "picture \<Rightarrow> int \<Rightarrow> int list \<Rightarrow> int option" where
  "scoreSliderCandidate img gridSize mapping =
     opt_sum ([seam_right img gridSize mapping row col. row \<leftarrow> [0..gridSize - 1], col \<leftarrow> [0..gridSize - 2]] @
              [seam_below img gridSize mapping row col. row \<leftarrow> [0..gridSize - 2], col \<leftarrow> [0..gridSize - 1]])"

record sliderCandidate =
  sc_Index :: int
  sc_ActiveSteps :: "int list"
  sc_Score :: int

definition rank_candidate :: "picture \<Rightarrow> int \<Rightarrow> int list \<Rightarrow> int \<Rightarrow> (string + sliderCandidate) option" where
  "rank_candidate img gridSize swaps idx =
     (let activeSteps = buildSliderActiveSteps swaps idx in
      case buildSliderTileMapping gridSize activeSteps of
        Inl e \<Rightarrow> Some (Inl e)
      | Inr mapping \<Rightarrow> map_option (\<lambda>score. Inr \<lparr>sc_Index = idx, sc_ActiveSteps = activeSteps, sc_Score = score\<rparr>)
                         (scoreSliderCandidate img gridSize mapping))"

fun rank_loop :: "picture \<Rightarrow> int \<Rightarrow> int list \<Rightarrow> int list \<Rightarrow> (string + sliderCandidate list) option" where
  "rank_loop img gridSize swaps [] = Some (Inr [])"
| "rank_loop img gridSize swaps (idx # idxs) =
     (case rank_candidate img gridSize swaps idx of
        None \<Rightarrow> None
      | Some (Inl e) \<Rightarrow> Some (Inl e)
      | Some (Inr c) \<Rightarrow> map_option (map_sum id ((#) c)) (rank_loop img gridSize swaps idxs))"

text \<open>The stable sort by score, then by index.\<close>

definition rankSliderCandidates :: "picture \<Rightarrow> int \<Rightarrow> int list \<Rightarrow> (string + sliderCandidate list) option" where
  "rankSliderCandidates img gridSize swaps =
     (let candidateCount = int (length swaps div 2) in
      if candidateCount = 0 then Some (Inl ''slider has no candidates'')
      else map_option (map_sum id (sort_key (\<lambda>c. (sc_Score c, sc_Index c))))
             (rank_loop img gridSize swaps [1..candidateCount]))"

definition defaultSliderAttempts :: int where "defaultSliderAttempts = 4"

text \<open>The steps as the server sends them: the size, the swaps in pairs and, when one number is left over, the
  attempts.\<close>

definition parseSliderSteps :: "int list \<Rightarrow> string + (int \<times> int list \<times> int)" where
  "parseSliderSteps steps =
     (if length steps < 3 then Inl ''slider steps payload too short''
      else let size = hd steps; remaining = tl steps in
        if size \<le> 0 then Inl ''invalid slider size''
        else let attempts = (if odd (length remaining) then last remaining else defaultSliderAttempts);
                 remaining' = (if odd (length remaining) then butlast remaining else remaining);
                 attempts' = (if attempts \<le> 0 then defaultSliderAttempts else attempts)
             in if remaining' = [] \<or> odd (length remaining') then Inl ''invalid slider swap payload''
                else Inr (size, remaining', attempts'))"

section \<open>Geometry of the grid\<close>

lemma Rect_ordered:
  "x0 \<le> x1 \<Longrightarrow> y0 \<le> y1 \<Longrightarrow> image_Rect x0 y0 x1 y1 = \<lparr>r_x0 = x0, r_y0 = y0, r_x1 = x1, r_y1 = y1\<rparr>"
  by (simp add: image_Rect_def)

text \<open>Where the columns of a side of length \<open>W\<close> begin.\<close>

definition cut :: "int \<Rightarrow> int \<Rightarrow> int \<Rightarrow> int" where
  "cut W g c = c * W div g"

lemma cut_mono: "0 < g \<Longrightarrow> 0 \<le> W \<Longrightarrow> c \<le> d \<Longrightarrow> cut W g c \<le> cut W g d"
  by (simp add: cut_def zdiv_mono1 mult_right_mono)

lemma cut_ends [simp]: "cut W g 0 = 0" "0 < g \<Longrightarrow> cut W g g = W"
  by (simp_all add: cut_def)

lemma cut_Suc:
  assumes "0 < g" and "g \<le> W"
  shows "cut W g c < cut W g (c + 1)"
proof -
  have "(c * W + g) div g \<le> ((c + 1) * W) div g" using assms by (intro zdiv_mono1) (auto simp: algebra_simps)
  then show ?thesis using assms by (simp add: cut_def)
qed

text \<open>A grid that fits into the picture: the tiles are not empty.\<close>

definition grid_fits :: "rect \<Rightarrow> int \<Rightarrow> bool" where
  "grid_fits b g \<longleftrightarrow> 0 < g \<and> g \<le> rect_Dx b \<and> g \<le> rect_Dy b"

lemma index_col: "0 < g \<Longrightarrow> 0 \<le> i mod g \<and> i mod g + 1 \<le> (g :: int)"
  using pos_mod_bound [of g i] pos_mod_sign [of g i] by linarith

lemma index_row:
  assumes "0 < g" and "0 \<le> i" and "i < g * (g :: int)"
  shows "0 \<le> i div g \<and> i div g + 1 \<le> g"
proof -
  have "i div g * g \<le> i" using div_mult_mod_eq [of i g] pos_mod_sign [OF assms(1), of i] by linarith
  then have "i div g * g < g * g" using assms(3) by linarith
  then show ?thesis using assms(1,2) by (simp add: pos_imp_zdiv_nonneg_iff)
qed

lemma tile_coords:
  assumes "0 < g" and "0 \<le> rect_Dx b" and "0 \<le> rect_Dy b"
  shows "sliderTileRect b g i =
    \<lparr>r_x0 = r_x0 b + cut (rect_Dx b) g (i mod g), r_y0 = r_y0 b + cut (rect_Dy b) g (i div g),
     r_x1 = r_x0 b + cut (rect_Dx b) g (i mod g + 1), r_y1 = r_y0 b + cut (rect_Dy b) g (i div g + 1)\<rparr>"
  unfolding sliderTileRect_def Let_def cut_def [symmetric]
  using assms by (intro Rect_ordered add_left_mono cut_mono) simp_all

lemma tile_nonempty:
  assumes "grid_fits b g"
  shows "0 < rect_Dx (sliderTileRect b g i)" and "0 < rect_Dy (sliderTileRect b g i)"
    and "\<not> rect_Empty (sliderTileRect b g i)"
  using assms cut_Suc [of g "rect_Dx b" "i mod g"] cut_Suc [of g "rect_Dy b" "i div g"]
  by (simp_all add: grid_fits_def tile_coords rect_Dx_def [of "rect_ext _ _ _ _ _"] rect_Dy_def [of "rect_ext _ _ _ _ _"]
      rect_Empty_def)

lemma tile_inside:
  assumes "grid_fits b g" and "0 \<le> i" and "i < g * g" and "rect_in (sliderTileRect b g i) x y"
  shows "rect_in b x y"
proof -
  have g: "0 < g" "0 \<le> rect_Dx b" "0 \<le> rect_Dy b" using assms(1) by (simp_all add: grid_fits_def)
  note c = index_col [OF g(1), of i, THEN conjunct1] index_col [OF g(1), of i, THEN conjunct2]
  note r = index_row [OF g(1) assms(2,3), THEN conjunct1] index_row [OF g(1) assms(2,3), THEN conjunct2]
  show ?thesis
    using assms(4) cut_mono [OF g(1,2) c(1)] cut_mono [OF g(1,2) c(2)] cut_mono [OF g(1,3) r(1)] cut_mono [OF g(1,3) r(2)] g(1)
    by (simp add: tile_coords [OF g] rect_in_def) (simp add: rect_Dx_def rect_Dy_def)
qed

lemma tile_disjoint:
  assumes "0 < g" and "0 \<le> rect_Dx b" and "0 \<le> rect_Dy b"
    and "rect_in (sliderTileRect b g i) x y" and "rect_in (sliderTileRect b g j) x y"
  shows "i = j"
proof -
  have sep: "c = d" if "cut W g c \<le> z" "z < cut W g (c + 1)" "cut W g d \<le> z" "z < cut W g (d + 1)" "0 \<le> W" for c d z W
  proof (rule ccontr)
    assume "c \<noteq> d"
    then have "c + 1 \<le> d \<or> d + 1 \<le> c" by linarith
    then show False using cut_mono [OF assms(1) \<open>0 \<le> W\<close>, of "c + 1" d] cut_mono [OF assms(1) \<open>0 \<le> W\<close>, of "d + 1" c] that
      by linarith
  qed
  have "i mod g = j mod g" using assms(4,5) assms(2)
    by (intro sep [where W = "rect_Dx b" and z = "x - r_x0 b"]) (simp_all add: tile_coords [OF assms(1-3)] rect_in_def)
  moreover have "i div g = j div g" using assms(4,5) assms(3)
    by (intro sep [where W = "rect_Dy b" and z = "y - r_y0 b"]) (simp_all add: tile_coords [OF assms(1-3)] rect_in_def)
  ultimately show ?thesis by (metis div_mult_mod_eq)
qed

section \<open>Rendering\<close>

lemma img_Set_bounds [simp]: "im_bounds (img_Set x y c im) = im_bounds im"
  by (simp add: img_Set_def)

lemma fold_bounds [simp]:
  "(\<And>x im. im_bounds (f x im) = im_bounds im) \<Longrightarrow> im_bounds (fold f xs im) = im_bounds im"
  by (induction xs arbitrary: im) simp_all

lemma copyScaledTile_bounds [simp]: "im_bounds (copyScaledTile dr src sr dst) = im_bounds dst"
  by (simp add: copyScaledTile_def)

lemma row_at:
  "im_at (fold (\<lambda>x. img_Set (a + x) b (f x)) xs im) X Y =
     (if Y = b \<and> X - a \<in> set xs \<and> rect_in (im_bounds im) X Y then color8 (f (X - a)) else im_at im X Y)"
proof (induction xs arbitrary: im)
  case Nil
  then show ?case by simp
next
  case (Cons x xs)
  then show ?case by (auto simp: img_Set_def algebra_simps)
qed

lemma rows_at:
  "im_at (fold (\<lambda>y. fold (\<lambda>x. img_Set (a + x) (b + y) (f x y)) xs) ys im) X Y =
     (if X - a \<in> set xs \<and> Y - b \<in> set ys \<and> rect_in (im_bounds im) X Y
      then color8 (f (X - a) (Y - b)) else im_at im X Y)"
proof (induction ys arbitrary: im)
  case Nil
  then show ?case by simp
next
  case (Cons y ys)
  then show ?case by (auto simp: row_at)
qed

text \<open>The colour that a tile shows at a point when it is filled from another one.\<close>

definition scaled_at :: "picture \<Rightarrow> rect \<Rightarrow> rect \<Rightarrow> int \<Rightarrow> int \<Rightarrow> color" where
  "scaled_at src srcRect dstRect x y =
     im_at src (r_x0 srcRect + (x - r_x0 dstRect) * rect_Dx srcRect div rect_Dx dstRect)
       (r_y0 srcRect + (y - r_y0 dstRect) * rect_Dy srcRect div rect_Dy dstRect)"

lemma copyScaledTile_at:
  "im_at (copyScaledTile dr src sr dst) X Y =
     (if rect_in dr X Y \<and> \<not> rect_Empty sr \<and> rect_in (im_bounds dst) X Y
      then color8 (scaled_at src sr dr X Y) else im_at dst X Y)"
proof (cases "rect_Empty dr \<or> rect_Empty sr")
  case True
  then show ?thesis by (auto simp: copyScaledTile_def rect_Empty_def rect_in_def)
next
  case False
  have "X - r_x0 dr \<in> set [0..rect_Dx dr - 1] \<and> Y - r_y0 dr \<in> set [0..rect_Dy dr - 1] \<longleftrightarrow> rect_in dr X Y"
    by (auto simp: rect_in_def rect_Dx_def rect_Dy_def)
  then show ?thesis using False by (auto simp: copyScaledTile_def rows_at scaled_at_def simp del: set_upto)
qed

lemma tiles_at:
  assumes fits: "grid_fits (im_bounds img) g" and b: "im_bounds dst = im_bounds img"
    and pix: "rect_in (sliderTileRect (im_bounds img) g i) X Y" "0 \<le> i" "i < g * g"
    and valid: "\<forall>(d, s) \<in> set ps. 0 \<le> (d :: nat)"
  shows "im_at (fold (\<lambda>(d, s). copyScaledTile (sliderTileRect (im_bounds img) g (int d)) img
      (sliderTileRect (im_bounds img) g s)) ps dst) X Y =
    (case map_of (rev ps) (nat i) of
       Some s \<Rightarrow> color8 (scaled_at img (sliderTileRect (im_bounds img) g s) (sliderTileRect (im_bounds img) g i) X Y)
     | None \<Rightarrow> im_at dst X Y)"
  using b valid
proof (induction ps arbitrary: dst)
  case Nil
  then show ?case by simp
next
  case (Cons p ps)
  obtain d s where p: "p = (d, s)" by fastforce
  have g: "0 < g" "0 \<le> rect_Dx (im_bounds img)" "0 \<le> rect_Dy (im_bounds img)" using fits by (simp_all add: grid_fits_def)
  have in_d: "rect_in (sliderTileRect (im_bounds img) g (int d)) X Y \<longleftrightarrow> int d = i"
    using pix(1) tile_disjoint [OF g, of "int d" X Y i] by auto
  have inb: "rect_in (im_bounds img) X Y" by (rule tile_inside [OF fits pix(2,3,1)])
  show ?case
    using Cons p in_d inb tile_nonempty(3) [OF fits, of s] pix(2)
    by (auto simp: copyScaledTile_at map_add_def split: option.splits)
qed

lemma map_of_rev_enumerate:
  "map_of (rev (enumerate n xs)) k = (if n \<le> k \<and> k < n + length xs then Some (xs ! (k - n)) else None)"
proof (induction xs rule: rev_induct)
  case Nil
  then show ?case by simp
next
  case (snoc x xs)
  then show ?case by (auto simp: enumerate_append_eq nth_append)
qed

lemma render_bounds: "renderSliderCandidate img g mapping = Inr r \<Longrightarrow> im_bounds r = im_bounds img"
  by (auto simp: renderSliderCandidate_def new_RGBA_def split: if_splits prod.splits)

lemma render_at:
  assumes "renderSliderCandidate img g mapping = Inr r" and fits: "grid_fits (im_bounds img) g"
    and pix: "rect_in (sliderTileRect (im_bounds img) g i) X Y" "0 \<le> i" "i < g * g"
  shows "im_at r X Y =
    color8 (scaled_at img (sliderTileRect (im_bounds img) g (mapping ! nat i)) (sliderTileRect (im_bounds img) g i) X Y)"
proof -
  have len: "int (length mapping) = g * g" using assms(1) by (simp add: renderSliderCandidate_def split: if_splits)
  then have "nat i < length mapping" using pix(2,3) by linarith
  moreover have r: "r = fold (\<lambda>(d, s). copyScaledTile (sliderTileRect (im_bounds img) g (int d)) img
      (sliderTileRect (im_bounds img) g s)) (enumerate 0 mapping) (new_RGBA (im_bounds img))"
    using assms(1) by (simp add: renderSliderCandidate_def split: if_splits)
  ultimately show ?thesis
    unfolding r by (subst tiles_at [OF fits _ pix]) (auto simp: new_RGBA_def map_of_rev_enumerate)
qed

section \<open>Scoring\<close>

lemma index_right:
  assumes "0 \<le> row" "row < g" "0 \<le> col" "col + 1 < (g :: int)"
  shows "0 \<le> row * g + col" and "row * g + col + 1 < g * g"
proof -
  have "(row + 1) * g \<le> g * g" using assms by (intro mult_right_mono) simp_all
  then show "row * g + col + 1 < g * g" using assms by (simp add: algebra_simps)
qed (use assms in simp)

lemma index_below:
  assumes "0 \<le> row" "row + 1 < g" "0 \<le> col" "col < (g :: int)"
  shows "0 \<le> row * g + col" and "row * g + col < g * g" and "(row + 1) * g + col < g * g" and "0 \<le> (row + 1) * g + col"
proof -
  have "(row + 1 + 1) * g \<le> g * g" using assms by (intro mult_right_mono) simp_all
  then show "row * g + col < g * g" "(row + 1) * g + col < g * g" using assms by (simp_all add: algebra_simps)
  have "0 \<le> (row + 1) * g" using assms by (intro mult_nonneg_nonneg) simp_all
  then show "0 \<le> (row + 1) * g + col" using assms by linarith
qed (use assms in simp)

lemma rect_last: "r_x1 r - 1 - r_x0 r = rect_Dx r - 1" "r_y1 r - 1 - r_y0 r = rect_Dy r - 1"
  by (simp_all add: rect_Dx_def rect_Dy_def)

text \<open>Both seams read the two tiles where they touch.\<close>

lemma seam_right_scaled:
  assumes "grid_fits (im_bounds img) g" and "0 \<le> row" "row < g" "0 \<le> col" "col + 1 < g" and "int (length mapping) = g * g"
  defines "tile \<equiv> sliderTileRect (im_bounds img) g" and "l \<equiv> row * g + col"
  shows "seam_right img g mapping row col =
    Some (\<Sum>offset\<leftarrow>[0..min (rect_Dy (tile l)) (rect_Dy (tile (l + 1))) - 1].
      pixelDiff (scaled_at img (tile (mapping ! nat l)) (tile l) (r_x1 (tile l) - 1) (r_y0 (tile l) + offset))
        (scaled_at img (tile (mapping ! nat (l + 1))) (tile (l + 1)) (r_x0 (tile (l + 1))) (r_y0 (tile (l + 1)) + offset)))"
proof -
  have "rect_Dx (tile l) \<noteq> 0" using tile_nonempty(1) [OF assms(1), of l] by (simp add: tile_def)
  then show ?thesis using index_right [OF assms(2-5)] assms(6)
    by (simp add: seam_right_def Let_def scaled_at_def rect_last flip: tile_def l_def)
qed

lemma seam_below_scaled:
  assumes "grid_fits (im_bounds img) g" and "0 \<le> row" "row + 1 < g" "0 \<le> col" "col < g" and "int (length mapping) = g * g"
  defines "tile \<equiv> sliderTileRect (im_bounds img) g" and "t \<equiv> row * g + col" and "b \<equiv> (row + 1) * g + col"
  shows "seam_below img g mapping row col =
    Some (\<Sum>offset\<leftarrow>[0..min (rect_Dx (tile t)) (rect_Dx (tile b)) - 1].
      pixelDiff (scaled_at img (tile (mapping ! nat t)) (tile t) (r_x0 (tile t) + offset) (r_y1 (tile t) - 1))
        (scaled_at img (tile (mapping ! nat b)) (tile b) (r_x0 (tile b) + offset) (r_y0 (tile b))))"
proof -
  have "rect_Dy (tile t) \<noteq> 0" using tile_nonempty(2) [OF assms(1), of t] by (simp add: tile_def)
  then show ?thesis using index_below [OF assms(2-5)] assms(6)
    by (simp add: seam_below_def Let_def scaled_at_def rect_last flip: tile_def t_def b_def)
qed

lemma opt_sum_Some: "list_all (\<lambda>x. x \<noteq> None) xs \<Longrightarrow> opt_sum xs = Some (\<Sum>x\<leftarrow>xs. the x)"
  by (induction xs rule: opt_sum.induct) auto

lemma opt_sum_None: "opt_sum xs = None \<longleftrightarrow> None \<in> set xs"
  by (induction xs rule: opt_sum.induct) auto

text \<open>The score of a picture as it is: nothing is moved.\<close>

definition plain_score :: "picture \<Rightarrow> int \<Rightarrow> int option" where
  "plain_score img g = scoreSliderCandidate img g [0..g * g - 1]"

definition picture8 :: "picture \<Rightarrow> picture" where
  "picture8 img = img\<lparr>im_at := (\<lambda>x y. color8 (im_at img x y))\<rparr>"

lemma picture8_simps [simp]:
  "im_bounds (picture8 img) = im_bounds img" "scaled_at (picture8 img) s d x y = color8 (scaled_at img s d x y)"
  by (simp_all add: picture8_def scaled_at_def)

lemma scaled_self: "rect_in d x y \<Longrightarrow> scaled_at img d d x y = im_at img x y"
  by (simp add: scaled_at_def rect_in_def rect_Dx_def rect_Dy_def)

lemma rendered_seams:
  assumes r: "renderSliderCandidate img g mapping = Inr r" and fits: "grid_fits (im_bounds img) g"
  shows "0 \<le> row \<Longrightarrow> row < g \<Longrightarrow> 0 \<le> col \<Longrightarrow> col + 1 < g \<Longrightarrow>
      seam_right r g [0..g * g - 1] row col = seam_right (picture8 img) g mapping row col"
    and "0 \<le> row \<Longrightarrow> row + 1 < g \<Longrightarrow> 0 \<le> col \<Longrightarrow> col < g \<Longrightarrow>
      seam_below r g [0..g * g - 1] row col = seam_below (picture8 img) g mapping row col"
proof -
  let ?t = "sliderTileRect (im_bounds img) g"
  have len: "int (length mapping) = g * g" using r by (simp add: renderSliderCandidate_def split: if_splits)
  have idl: "int (length [0..g * g - 1]) = g * g" using fits by (simp add: grid_fits_def)
  note rb = render_bounds [OF r]
  have pix: "scaled_at r (?t i) (?t i) x y = scaled_at (picture8 img) (?t (mapping ! nat i)) (?t i) x y"
    if "0 \<le> i" "i < g * g" "rect_in (?t i) x y" for i x y
    using that render_at [OF r fits that(3,1,2)] by (simp add: scaled_self)
  have corner: "rect_in (?t i) (r_x1 (?t i) - 1) (r_y0 (?t i) + k)" "rect_in (?t i) (r_x0 (?t i)) (r_y0 (?t i) + k)"
    if "0 \<le> k" "k < rect_Dy (?t i)" for i k
    using that tile_nonempty [OF fits, of i] by (auto simp: rect_in_def rect_Dx_def rect_Dy_def)
  have corner': "rect_in (?t i) (r_x0 (?t i) + k) (r_y1 (?t i) - 1)" "rect_in (?t i) (r_x0 (?t i) + k) (r_y0 (?t i))"
    if "0 \<le> k" "k < rect_Dx (?t i)" for i k
    using that tile_nonempty [OF fits, of i] by (auto simp: rect_in_def rect_Dx_def rect_Dy_def)
  show "seam_right r g [0..g * g - 1] row col = seam_right (picture8 img) g mapping row col"
    if a: "0 \<le> row" "row < g" "0 \<le> col" "col + 1 < g"
    using index_right [OF a] fits
    by (subst (1 2) seam_right_scaled) (auto simp: a len idl rb pix corner simp del: picture8_simps(2) intro!: arg_cong [of _ _ sum_list])
  show "seam_below r g [0..g * g - 1] row col = seam_below (picture8 img) g mapping row col"
    if a: "0 \<le> row" "row + 1 < g" "0 \<le> col" "col < g"
    using index_below [OF a] fits
    by (subst (1 2) seam_below_scaled) (auto simp: a len idl rb pix corner' simp del: picture8_simps(2) intro!: arg_cong [of _ _ sum_list])
qed

lemma seams_some:
  assumes "grid_fits (im_bounds img) g" and "int (length mapping) = g * g"
  shows "scoreSliderCandidate img g mapping \<noteq> None"
  using assms by (auto simp: scoreSliderCandidate_def opt_sum_None seam_right_scaled seam_below_scaled)

lemma absDiff_nonneg [simp]: "0 \<le> absDiff a b"
  by (simp add: absDiff_def)

lemma pixelDiff_nonneg [simp]: "0 \<le> pixelDiff a b"
  by (auto simp: pixelDiff_def split: prod.splits)

section \<open>Candidates\<close>

lemma wrap64_range: "0 \<le> n \<Longrightarrow> n < 2 ^ 63 \<Longrightarrow> wrap64 n = n"
  by (simp add: wrap64_def signed_take_bit_int_eq_self)

lemma wrap64_small: "0 \<le> g \<Longrightarrow> g < 2 ^ 31 \<Longrightarrow> wrap64 (g * g) = g * g"
proof (rule wrap64_range)
  assume g: "0 \<le> g" "g < 2 ^ 31"
  then have "g * g < 2 ^ 31 * 2 ^ 31" by (intro mult_strict_mono) auto
  then show "g * g < 2 ^ 63" by simp
qed simp

lemma mset_swap_nth:
  "i < length xs \<Longrightarrow> j < length xs \<Longrightarrow> mset (xs[i := xs ! j, j := xs ! i]) = mset xs"
  by (rule mset_swap)

lemma apply_swaps_perm:
  "apply_swaps n steps mapping = Inr m \<Longrightarrow> int (length mapping) = n \<Longrightarrow> mset m = mset mapping"
proof (induction n steps mapping rule: apply_swaps.induct)
  case (1 n left right steps mapping)
  have "\<not> (left < 0 \<or> right < 0 \<or> n \<le> left \<or> n \<le> right)" using 1(2) by (auto split: if_splits)
  then have "nat left < length mapping" "nat right < length mapping" using 1(3) by auto
  then show ?case using 1 mset_swap_nth [of "nat left" mapping "nat right"] by (auto split: if_splits)
qed simp_all

lemma tile_mapping_perm:
  assumes "buildSliderTileMapping g steps = Inr m"
  shows "mset m = mset [0..wrap64 (g * g) - 1]"
  using assms by (auto simp: buildSliderTileMapping_def Let_def dest: apply_swaps_perm split: if_splits)

lemma apply_swaps_total:
  "even (length steps) \<Longrightarrow> \<forall>s \<in> set steps. 0 \<le> s \<and> s < n \<Longrightarrow> \<exists>m. apply_swaps n steps mapping = Inr m"
  by (induction n steps mapping rule: apply_swaps.induct) auto

lemma rank_candidate_fits:
  assumes "grid_fits (im_bounds img) g" and "g < 2 ^ 31"
  shows "rank_candidate img g swaps idx \<noteq> None"
    and "rank_candidate img g swaps idx = Some (Inr c) \<Longrightarrow> sc_Index c = idx \<and> sc_ActiveSteps c = buildSliderActiveSteps swaps idx
      \<and> (\<exists>m. buildSliderTileMapping g (sc_ActiveSteps c) = Inr m \<and> mset m = mset [0..g * g - 1]
           \<and> scoreSliderCandidate img g m = Some (sc_Score c))"
proof -
  have g: "0 < g" "wrap64 (g * g) = g * g" using assms wrap64_small by (simp_all add: grid_fits_def)
  have perm: "buildSliderTileMapping g steps = Inr m \<Longrightarrow> mset m = mset [0..g * g - 1] \<and> int (length m) = g * g" for steps m
    using tile_mapping_perm [of g steps m] mset_eq_length [of m "[0..g * g - 1]"] g by simp
  show "rank_candidate img g swaps idx \<noteq> None"
    using seams_some [OF assms(1)] perm
    by (fastforce simp: rank_candidate_def Let_def split: sum.splits)
  show "rank_candidate img g swaps idx = Some (Inr c) \<Longrightarrow> sc_Index c = idx \<and> sc_ActiveSteps c = buildSliderActiveSteps swaps idx
      \<and> (\<exists>m. buildSliderTileMapping g (sc_ActiveSteps c) = Inr m \<and> mset m = mset [0..g * g - 1]
           \<and> scoreSliderCandidate img g m = Some (sc_Score c))"
    using perm by (auto simp: rank_candidate_def Let_def split: sum.splits)
qed

lemma rank_loop_fits:
  assumes "grid_fits (im_bounds img) g" and "g < 2 ^ 31"
  shows "\<exists>r. rank_loop img g swaps idxs = Some r \<and> (\<forall>cs. r = Inr cs \<longrightarrow>
    list_all2 (\<lambda>idx c. rank_candidate img g swaps idx = Some (Inr c)) idxs cs)"
proof (induction idxs)
  case Nil
  then show ?case by simp
next
  case (Cons idx idxs)
  obtain r where "rank_candidate img g swaps idx = Some r" using rank_candidate_fits(1) [OF assms] by blast
  moreover obtain r' where "rank_loop img g swaps idxs = Some r'" "\<forall>cs. r' = Inr cs \<longrightarrow>
      list_all2 (\<lambda>idx c. rank_candidate img g swaps idx = Some (Inr c)) idxs cs" using Cons by blast
  ultimately show ?case by (cases r; cases r') auto
qed

lemma active_steps_take: "buildSliderActiveSteps swaps idx = take (2 * nat idx) swaps"
proof -
  have "nat (idx * 2) = 2 * nat idx" by (cases "0 \<le> idx") (simp_all add: nat_mult_distrib)
  then show ?thesis by (auto simp: buildSliderActiveSteps_def Let_def)
qed

lemma rank_candidate_ok:
  assumes "grid_fits (im_bounds img) g" and "g < 2 ^ 31" and "even (length swaps)"
    and "\<forall>s \<in> set swaps. 0 \<le> s \<and> s < g * g"
  shows "\<exists>c. rank_candidate img g swaps idx = Some (Inr c)"
proof -
  have g: "0 < g * g" "wrap64 (g * g) = g * g" using assms(1,2) wrap64_small by (simp_all add: grid_fits_def)
  obtain s where s: "s = buildSliderActiveSteps swaps idx" by blast
  have "even (length s) \<and> set s \<subseteq> set swaps"
    using active_steps_take [of swaps idx] assms(3) s by (auto simp: min_def dest: in_set_takeD)
  then obtain m where m: "buildSliderTileMapping g s = Inr m"
    using apply_swaps_total [of s "g * g" "[0..g * g - 1]"] g assms(4)
    by (auto simp: buildSliderTileMapping_def Let_def subset_iff)
  have "int (length m) = g * g"
    using tile_mapping_perm [OF m] mset_eq_length [of m "[0..g * g - 1]"] g by simp
  then have "scoreSliderCandidate img g m \<noteq> None" by (rule seams_some [OF assms(1)])
  then show ?thesis using m s by (auto simp: rank_candidate_def)
qed

lemma list_all2_in_right: "list_all2 P xs ys \<Longrightarrow> y \<in> set ys \<Longrightarrow> \<exists>x \<in> set xs. P x y"
  by (induction rule: list_all2_induct) auto

section \<open>Properties\<close>

text \<open>C18: the score of a candidate, which is computed on the shuffled picture without moving a pixel, is the
  score of the picture that rendering the candidate shows: reading through the tile mapping along
  the seams is the same as drawing all tiles first. (A rendered pixel has eight bits per channel,
  so the picture is taken at that depth.)\<close>

theorem score_is_rendered_score:
  assumes "renderSliderCandidate img g mapping = Inr r" and "grid_fits (im_bounds img) g"
  shows "scoreSliderCandidate (picture8 img) g mapping = plain_score r g \<and> plain_score r g \<noteq> None"
proof -
  have "seam_right r g [0..g * g - 1] row col = seam_right (picture8 img) g mapping row col"
    if "row \<in> set [0..g - 1]" "col \<in> set [0..g - 2]" for row col
    using that by (intro rendered_seams [OF assms]) auto
  moreover have "seam_below r g [0..g * g - 1] row col = seam_below (picture8 img) g mapping row col"
    if "row \<in> set [0..g - 2]" "col \<in> set [0..g - 1]" for row col
    using that by (intro rendered_seams [OF assms]) auto
  ultimately have eq: "scoreSliderCandidate r g [0..g * g - 1] = scoreSliderCandidate (picture8 img) g mapping"
    unfolding scoreSliderCandidate_def
    by (intro arg_cong [of _ _ opt_sum] arg_cong2 [of _ _ _ _ append] arg_cong [of _ _ concat] map_cong refl)
  have "int (length mapping) = g * g" using assms(1) by (simp add: renderSliderCandidate_def split: if_splits)
  then show ?thesis using eq seams_some [of "picture8 img" g mapping] assms(2) by (simp add: plain_score_def)
qed

text \<open>The ranking never panics when the grid fits into the picture, and when all swaps name existing tiles it
  contains every candidate exactly once, best match first and earlier candidates first among equals;
  every candidate has the swaps up to its index, which only permute the tiles, and its own score.\<close>

theorem ranking_spec:
  assumes "grid_fits (im_bounds img) g" and "g < 2 ^ 31" and "even (length swaps)" and "swaps \<noteq> []"
    and "\<forall>s \<in> set swaps. 0 \<le> s \<and> s < g * g"
  shows "\<exists>cs. rankSliderCandidates img g swaps = Some (Inr cs)
    \<and> sorted (map (\<lambda>c. (sc_Score c, sc_Index c)) cs)
    \<and> mset (map sc_Index cs) = mset [1..int (length swaps div 2)]
    \<and> (\<forall>c \<in> set cs. sc_ActiveSteps c = take (2 * nat (sc_Index c)) swaps
        \<and> (\<exists>m. buildSliderTileMapping g (sc_ActiveSteps c) = Inr m \<and> mset m = mset [0..g * g - 1]
             \<and> scoreSliderCandidate img g m = Some (sc_Score c)))"
proof -
  define n where "n = int (length swaps div 2)"
  have n: "0 < n" using assms(3,4) unfolding n_def by (cases swaps; cases "tl swaps") auto
  have "\<exists>cs. rank_loop img g swaps idxs = Some (Inr cs)" for idxs
  proof (induction idxs)
    case (Cons idx idxs)
    then show ?case using rank_candidate_ok [OF assms(1,2,3,5), of idx] by auto
  qed simp
  then obtain cs where cs: "rank_loop img g swaps [1..n] = Some (Inr cs)" by blast
  then have all: "list_all2 (\<lambda>idx c. rank_candidate img g swaps idx = Some (Inr c)) [1..n] cs"
    using rank_loop_fits [OF assms(1,2), of swaps "[1..n]"] by auto
  have idx: "map sc_Index cs = [1..n]"
    using all by (induction rule: list_all2_induct) (simp_all add: rank_candidate_fits(2) [OF assms(1,2)])
  have props: "sc_ActiveSteps c = take (2 * nat (sc_Index c)) swaps
      \<and> (\<exists>m. buildSliderTileMapping g (sc_ActiveSteps c) = Inr m \<and> mset m = mset [0..g * g - 1]
             \<and> scoreSliderCandidate img g m = Some (sc_Score c))" if "c \<in> set cs" for c
  proof -
    obtain i where "rank_candidate img g swaps i = Some (Inr c)" using list_all2_in_right [OF all \<open>c \<in> set cs\<close>] by blast
    from rank_candidate_fits(2) [OF assms(1,2) this] show ?thesis by (auto simp: active_steps_take)
  qed
  define ds where "ds = sort_key (\<lambda>c. (sc_Score c, sc_Index c)) cs"
  have "rankSliderCandidates img g swaps = Some (Inr ds)"
    using cs n by (simp add: rankSliderCandidates_def n_def ds_def)
  moreover have "sorted (map (\<lambda>c. (sc_Score c, sc_Index c)) ds)" by (simp add: ds_def)
  moreover have "mset (map sc_Index ds) = mset [1..n]" unfolding idx [symmetric] mset_map ds_def by simp
  moreover have "set ds = set cs" by (simp add: ds_def)
  ultimately show ?thesis using props unfolding n_def by blast
qed

text \<open>When the grid is finer than the picture is wide, the first tile has no width and the division by it
  panics.\<close>

lemma grid_too_fine_panics:
  assumes "2 \<le> g" and "g < 2 ^ 31" and "0 \<le> rect_Dx (im_bounds img)" and "rect_Dx (im_bounds img) < g"
    and "0 \<le> rect_Dy (im_bounds img)" and "2 \<le> length swaps"
    and "\<forall>s \<in> set swaps. 0 \<le> s \<and> s < g * g"
  shows "rankSliderCandidates img g swaps = None"
proof -
  have g: "0 < g" "0 < g * g" "wrap64 (g * g) = g * g" using assms(1,2) wrap64_small by simp_all
  obtain s1 s2 rest where s: "swaps = s1 # s2 # rest" using assms(6) by (cases swaps; cases "tl swaps") auto
  then have act: "buildSliderActiveSteps swaps 1 = [s1, s2]" by (simp add: active_steps_take)
  define m where "m = [0..g * g - 1][nat s1 := [0..g * g - 1] ! nat s2, nat s2 := [0..g * g - 1] ! nat s1]"
  have m: "buildSliderTileMapping g [s1, s2] = Inr m" "int (length m) = g * g"
    using assms(7) s g by (simp_all add: buildSliderTileMapping_def m_def Let_def)
  have "g * 1 \<le> g * g" using g by (intro mult_left_mono) simp_all
  then have two: "1 < g * g" using assms(1) by linarith
  have "rect_Dx (sliderTileRect (im_bounds img) g 0) = 0"
    using tile_coords [OF g(1) assms(3,5), of 0] assms(3,4) by (simp add: cut_def rect_Dx_def [of "rect_ext _ _ _ _ _"] rect_Dx_def)
  then have "seam_right img g m 0 0 = None" using m(2) two by (simp add: seam_right_def Let_def)
  moreover have "seam_right img g m 0 0 \<in> set [seam_right img g m row col. row \<leftarrow> [0..g - 1], col \<leftarrow> [0..g - 2]]"
    using assms(1) by force
  ultimately have "scoreSliderCandidate img g m = None" by (auto simp: scoreSliderCandidate_def opt_sum_None)
  then have "rank_candidate img g swaps 1 = None" using act m(1) by (simp add: rank_candidate_def Let_def)
  moreover have "[1..int (length swaps div 2)] = 1 # [2..int (length swaps div 2)]" using s by (subst upto_rec1) simp_all
  ultimately show ?thesis using s by (simp add: rankSliderCandidates_def)
qed

text \<open>A picture of two by two pixels that is already in order, and one swap.\<close>

definition sample_picture :: picture where
  "sample_picture = \<lparr>im_bounds = \<lparr>r_x0 = 0, r_y0 = 0, r_x1 = 2, r_y1 = 2\<rparr>,
     im_at = (\<lambda>x y. (of_int (0x101 * (10 * x + y)), 0, 0, 0xFFFF))\<rparr>"

lemma sample_fits: "grid_fits (im_bounds sample_picture) 2"
  by (simp add: grid_fits_def sample_picture_def rect_Dx_def rect_Dy_def)

theorem score_is_rendered_score_witness:
  "\<exists>r. renderSliderCandidate sample_picture 2 [3, 1, 2, 0] = Inr r
     \<and> scoreSliderCandidate (picture8 sample_picture) 2 [3, 1, 2, 0] = plain_score r 2"
  using score_is_rendered_score [OF _ sample_fits, of "[3, 1, 2, 0]"]
  by (simp add: renderSliderCandidate_def)

theorem ranking_spec_witness:
  "\<exists>cs. rankSliderCandidates sample_picture 2 [0, 3, 1, 2] = Some (Inr cs) \<and> mset (map sc_Index cs) = {#1, 2#}"
  using ranking_spec [OF sample_fits, of "[0, 3, 1, 2]"] by (auto simp: upto_rec1)

end
