(* ===== verification/Captcha_Session.thy ===== *)
theory Captcha_Session
  imports Slider_Puzzle "HOL-Library.Char_ord" "HOL-Library.List_Lexorder"
begin

text \<open>
  The automatic captcha solver of version 1 (\<open>pkg/clientcore/slider_captcha.go\<close> and \<open>solveVkCaptcha\<close> of
  \<open>main.go\<close>): the session of requests to the captcha service, the parsing of its answers, the slider
  solver, the proof of work. The HTTP client, the JSON and picture decoders, the regular
  expressions, SHA-256 and the random fingerprints are the environment. A request is logged as its
  method and its encoded form; the answers may depend on all requests so far.
\<close>

section \<open>Requests\<close>

type_synonym call = "string \<times> string"

type_synonym ('e, 'a) act = "(call list, 'e, 'a) sact"

record captcha_env =
  cp_http :: "call list \<Rightarrow> string + json_object"
  cp_show :: "json_object \<Rightarrow> string"
  cp_unmarshal :: "string \<Rightarrow> json option"
  cp_marshal :: "json \<Rightarrow> string"
  cp_image :: "string \<Rightarrow> string + picture"
  cp_page :: "string \<Rightarrow> string + string"
  cp_powInput :: "string \<Rightarrow> string option"
  cp_difficulty :: "(string \<Rightarrow> string option) list"
  cp_init :: "string \<Rightarrow> string option"
  cp_sha256hex :: "string \<Rightarrow> string"
  cp_adFp :: string
  cp_browserFp :: string
  cp_userAgent :: string

text \<open>An action ends with a result, an error or a panic. An error can be wrapped with a prefix or only
  logged; a pure function with an error is an action.\<close>

datatype act_error = Failed string | Panicked

definition act_wrap :: "(string \<Rightarrow> string) \<Rightarrow> ('s, act_error, 'a) sact \<Rightarrow> ('s, act_error, 'a) sact" where
  "act_wrap f m l =
     (case m l of (l1, Inl (Failed e)) \<Rightarrow> (l1, Inl (Failed (f e))) | (l1, Inl Panicked) \<Rightarrow> (l1, Inl Panicked)
      | (l1, Inr a) \<Rightarrow> (l1, Inr a))"

definition act_lift :: "string + 'a \<Rightarrow> ('s, act_error, 'a) sact" where
  "act_lift r l = (l, map_sum Failed id r)"

definition act_ignore :: "('s, 'e, 'a) sact \<Rightarrow> ('s, 'e, unit) sact" where
  "act_ignore m l = (fst (m l), Inr ())"

lemmas act_defs = act_return_def act_fail_def act_bind_def act_wrap_def act_lift_def act_ignore_def

text \<open>\<open>neturl.Values\<close>: \<open>Set\<close> replaces, \<open>Encode\<close> sorts by key.\<close>

type_synonym url_values = "(string \<times> string) list"

definition values_Set :: "url_values \<Rightarrow> string \<Rightarrow> string \<Rightarrow> url_values" where
  "values_Set vs k v = filter (\<lambda>p. fst p \<noteq> k) vs @ [(k, v)]"

definition values_Encode :: "url_values \<Rightarrow> string" where
  "values_Encode vs =
     str_Join (map (\<lambda>(k, v). str_QueryEscape k @ ''='' @ str_QueryEscape v) (sort_key fst vs)) ''&''"

text \<open>\<open>base64.StdEncoding\<close>.\<close>

definition b64_char :: "nat \<Rightarrow> char" where
  "b64_char n = (if n < 26 then char_of (65 + n) else if n < 52 then char_of (71 + n)
     else if n < 62 then char_of (n - 4) else if n = 62 then CHR ''+'' else CHR ''/'')"

fun b64_encode :: "nat list \<Rightarrow> string" where
  "b64_encode (a # b # c # r) =
     b64_char (a div 4) # b64_char (16 * (a mod 4) + b div 16) # b64_char (4 * (b mod 16) + c div 64)
       # b64_char (c mod 64) # b64_encode r"
| "b64_encode [a, b] =
     [b64_char (a div 4), b64_char (16 * (a mod 4) + b div 16), b64_char (4 * (b mod 16)), CHR ''='']"
| "b64_encode [a] = [b64_char (a div 4), b64_char (16 * (a mod 4)), CHR ''='', CHR ''='']"
| "b64_encode [] = []"

definition base64 :: "string \<Rightarrow> string" where
  "base64 s = b64_encode (map of_char s)"

section \<open>Settings\<close>

record captcha_settings =
  cps_ShowCaptchaType :: string
  cps_SettingsByType :: "string \<rightharpoonup> string"

definition empty_settings :: captcha_settings where
  "empty_settings = \<lparr>cps_ShowCaptchaType = [], cps_SettingsByType = Map.empty\<rparr>"

definition expand_mapping :: "json_object \<Rightarrow> json list" where
  "expand_mapping m = map (\<lambda>(k, v). JObj [(''type'', JStr k), (''settings'', v)]) m"

definition expandCaptchaSettings :: "captcha_env \<Rightarrow> json option \<Rightarrow> json list option" where
  "expandCaptchaSettings E raw =
     (case raw of
        None \<Rightarrow> None
      | Some (JArr v) \<Rightarrow> Some v
      | Some (JObj m) \<Rightarrow> Some (expand_mapping m)
      | Some (JStr s) \<Rightarrow>
          (let trimmed = str_TrimSpace s in
           if trimmed = [] then None
           else case cp_unmarshal E trimmed of
                  Some (JArr v) \<Rightarrow> Some v
                | Some JNull \<Rightarrow> Some []
                | Some (JObj m) \<Rightarrow> Some (expand_mapping m)
                | _ \<Rightarrow> None)
      | Some _ \<Rightarrow> None)"

definition normalizeCaptchaSettings :: "captcha_env \<Rightarrow> json option \<Rightarrow> string" where
  "normalizeCaptchaSettings E raw =
     (case raw of None \<Rightarrow> [] | Some JNull \<Rightarrow> [] | Some (JStr s) \<Rightarrow> s | Some j \<Rightarrow> cp_marshal E j)"

definition str_field :: "json_object \<Rightarrow> string \<Rightarrow> string" where
  "str_field m k = (case get_str m k of None \<Rightarrow> [] | Some s \<Rightarrow> s)"

definition settings_item :: "captcha_env \<Rightarrow> json \<Rightarrow> captcha_settings \<Rightarrow> captcha_settings" where
  "settings_item E rawItem st =
     (case rawItem of
        JObj item \<Rightarrow>
          (let captchaType = str_field item ''type'' in
           if captchaType = [] then st
           else st\<lparr>cps_SettingsByType := (cps_SettingsByType st)(captchaType \<mapsto>
                  normalizeCaptchaSettings E (map_of item ''settings''))\<rparr>)
      | _ \<Rightarrow> st)"

definition parseCaptchaSettingsResponse :: "captcha_env \<Rightarrow> json_object \<Rightarrow> string + captcha_settings" where
  "parseCaptchaSettingsResponse E resp =
     (case get_obj resp ''response'' of
        None \<Rightarrow> Inl (''invalid settings response: '' @ cp_show E resp)
      | Some respObj \<Rightarrow>
          (let st = empty_settings\<lparr>cps_ShowCaptchaType := str_field respObj ''show_captcha_type''\<rparr> in
           case expandCaptchaSettings E (map_of respObj ''captcha_settings'') of
             None \<Rightarrow> Inr st
           | Some rawSettings \<Rightarrow> Inr (fold (settings_item E) rawSettings st)))"

definition mergeCaptchaSettings :: "captcha_settings option \<Rightarrow> captcha_settings option \<Rightarrow> captcha_settings option" where
  "mergeCaptchaSettings primary fallback =
     (case primary of
        None \<Rightarrow> fallback
      | Some p \<Rightarrow>
          (case fallback of
             None \<Rightarrow> Some p
           | Some f \<Rightarrow> Some \<lparr>cps_ShowCaptchaType = (if cps_ShowCaptchaType p = [] then cps_ShowCaptchaType f else cps_ShowCaptchaType p),
               cps_SettingsByType = cps_SettingsByType f ++ cps_SettingsByType p\<rparr>))"

text \<open>The page of the captcha: the proof of work and the settings it was opened with.\<close>

record captchaBootstrap =
  cb_PowInput :: string
  cb_Difficulty :: int
  cb_Settings :: captcha_settings

text \<open>Unmarshalling into a struct: a missing field and \<open>null\<close> leave the zero value, another type is an
  error.\<close>

definition field_obj :: "json option \<Rightarrow> json_object option" where
  "field_obj j = (case j of None \<Rightarrow> Some [] | Some JNull \<Rightarrow> Some [] | Some (JObj m) \<Rightarrow> Some m | _ \<Rightarrow> None)"

definition field_str :: "json option \<Rightarrow> string option" where
  "field_str j = (case j of None \<Rightarrow> Some [] | Some JNull \<Rightarrow> Some [] | Some (JStr s) \<Rightarrow> Some s | _ \<Rightarrow> None)"

definition init_payload :: "json \<Rightarrow> (string \<times> json) option" where
  "init_payload j =
     (case field_obj (Some j) of None \<Rightarrow> None | Some payload \<Rightarrow>
      case field_obj (map_of payload ''data'') of None \<Rightarrow> None | Some data \<Rightarrow>
      case field_str (map_of data ''show_captcha_type'') of None \<Rightarrow> None | Some showType \<Rightarrow>
        Some (showType, case map_of data ''captcha_settings'' of None \<Rightarrow> JNull | Some s \<Rightarrow> s))"

definition parseCaptchaSettingsFromHTML :: "captcha_env \<Rightarrow> string \<Rightarrow> string + captcha_settings" where
  "parseCaptchaSettingsFromHTML E html =
     (case cp_init E html of
        None \<Rightarrow> Inr empty_settings
      | Some text \<Rightarrow>
          (case Option.bind (cp_unmarshal E text) init_payload of
             None \<Rightarrow> Inl ''parse window.init captcha data''
           | Some (showType, settings) \<Rightarrow>
               parseCaptchaSettingsResponse E
                 [(''response'', JObj [(''show_captcha_type'', JStr showType), (''captcha_settings'', settings)])]))"

fun first_difficulty :: "(string \<Rightarrow> string option) list \<Rightarrow> string \<Rightarrow> int" where
  "first_difficulty [] html = 2"
| "first_difficulty (re # res) html =
     (case re html of
        None \<Rightarrow> first_difficulty res html
      | Some digits \<Rightarrow> (case str_ParseInt digits of None \<Rightarrow> first_difficulty res html | Some d \<Rightarrow> d))"

definition parseCaptchaBootstrapHTML :: "captcha_env \<Rightarrow> string \<Rightarrow> string + captchaBootstrap" where
  "parseCaptchaBootstrapHTML E html =
     (case cp_powInput E html of
        None \<Rightarrow> Inl ''powInput not found in captcha HTML''
      | Some powInput \<Rightarrow>
          (case parseCaptchaSettingsFromHTML E html of
             Inl e \<Rightarrow> Inl e
           | Inr settings \<Rightarrow> Inr \<lparr>cb_PowInput = powInput, cb_Difficulty = first_difficulty (cp_difficulty E) html,
                                 cb_Settings = settings\<rparr>))"

section \<open>Answers\<close>

record captchaCheckResult =
  cr_Status :: string
  cr_SuccessToken :: string
  cr_ShowCaptchaType :: string

definition parseCaptchaCheckResult :: "captcha_env \<Rightarrow> json_object \<Rightarrow> string + captchaCheckResult" where
  "parseCaptchaCheckResult E resp =
     (case get_obj resp ''response'' of
        None \<Rightarrow> Inl (''invalid check response: '' @ cp_show E resp)
      | Some respObj \<Rightarrow>
          (let r = \<lparr>cr_Status = str_field respObj ''status'', cr_SuccessToken = str_field respObj ''success_token'',
                    cr_ShowCaptchaType = str_field respObj ''show_captcha_type''\<rparr>
           in if cr_Status r = [] then Inl (''check status missing: '' @ cp_show E resp) else Inr r))"

definition parseIntValue :: "json \<Rightarrow> string + int" where
  "parseIntValue raw =
     (case raw of
        JNum r \<Rightarrow> Inr (float_int r)
      | JStr s \<Rightarrow> (case str_ParseInt (str_TrimSpace s) of Some i \<Rightarrow> Inr i | None \<Rightarrow> Inl ''invalid numeric value'')
      | _ \<Rightarrow> Inl ''invalid numeric value'')"

fun parseIntSlice :: "json list \<Rightarrow> string + int list" where
  "parseIntSlice [] = Inr []"
| "parseIntSlice (j # js) =
     (case parseIntValue j of Inl e \<Rightarrow> Inl e | Inr i \<Rightarrow> map_sum id ((#) i) (parseIntSlice js))"

record sliderContent =
  sl_Image :: picture
  sl_Size :: int
  sl_Steps :: "int list"
  sl_Attempts :: int

definition parseSliderCaptchaContentResponse :: "captcha_env \<Rightarrow> json_object \<Rightarrow> string + sliderContent" where
  "parseSliderCaptchaContentResponse E resp =
     (case get_obj resp ''response'' of
        None \<Rightarrow> Inl (''invalid slider content response: '' @ cp_show E resp)
      | Some respObj \<Rightarrow>
          if str_field respObj ''status'' \<noteq> ''OK'' then Inl (''slider getContent status: '' @ str_field respObj ''status'')
          else let extension = str_ToLower (str_field respObj ''extension'') in
            if extension \<noteq> ''jpeg'' \<and> extension \<noteq> ''jpg'' then Inl (''unsupported slider image format: '' @ extension)
            else let rawImage = str_field respObj ''image'' in
              if rawImage = [] then Inl ''slider image missing''
              else (case get_arr respObj ''steps'' of
                      None \<Rightarrow> Inl ''slider steps missing''
                    | Some rawSteps \<Rightarrow>
                        (case parseIntSlice rawSteps of
                           Inl e \<Rightarrow> Inl e
                         | Inr steps \<Rightarrow>
                             (case parseSliderSteps steps of
                                Inl e \<Rightarrow> Inl e
                              | Inr (gridSize, swaps, attempts) \<Rightarrow>
                                  map_sum id (\<lambda>img. \<lparr>sl_Image = img, sl_Size = gridSize, sl_Steps = swaps, sl_Attempts = attempts\<rparr>)
                                    (cp_image E rawImage)))))"

section \<open>The session\<close>

record saved_profile =
  sp_UserAgent :: string
  sp_DeviceJSON :: string
  sp_BrowserFp :: string

record captchaSession =
  ns_sessionToken :: string
  ns_hash :: string
  ns_userAgent :: string
  ns_browserFp :: string
  ns_adFp :: string
  ns_saved :: "saved_profile option"

definition newCaptchaNotRobotSession ::
  "captcha_env \<Rightarrow> string \<Rightarrow> string \<Rightarrow> string \<Rightarrow> saved_profile option \<Rightarrow> captchaSession" where
  "newCaptchaNotRobotSession E sessionToken hash userAgent saved =
     \<lparr>ns_sessionToken = sessionToken, ns_hash = hash, ns_userAgent = userAgent,
      ns_browserFp = (case saved of None \<Rightarrow> cp_browserFp E | Some sp \<Rightarrow> sp_BrowserFp sp),
      ns_adFp = cp_adFp E, ns_saved = saved\<rparr>"

definition device_json :: "string \<Rightarrow> string" where
  "device_json userAgent =
     ''{\"screenWidth\":1536,\"screenHeight\":864,\"screenAvailWidth\":1536,\"screenAvailHeight\":816,\"innerWidth\":1536,''
     @ ''\"innerHeight\":730,\"devicePixelRatio\":1.25,\"language\":\"ru-RU\",\"languages\":[\"ru-RU\",\"ru\",\"en-US\",\"en\"],''
     @ ''\"webdriver\":false,\"hardwareConcurrency\":8,\"deviceMemory\":8,\"connectionEffectiveType\":\"4g\",''
     @ ''\"notificationsPermission\":\"prompt\",\"userAgent\":\"'' @ userAgent @ ''\"}''"

definition session_device :: "captchaSession \<Rightarrow> string" where
  "session_device s = (case ns_saved s of None \<Rightarrow> device_json (ns_userAgent s) | Some sp \<Rightarrow> sp_DeviceJSON sp)"

definition baseValues :: "captchaSession \<Rightarrow> url_values" where
  "baseValues s =
     values_Set (values_Set (values_Set (values_Set [] ''session_token'' (ns_sessionToken s)) ''domain'' ''vk.com'')
       ''adFp'' (ns_adFp s)) ''access_token'' []"

definition post :: "captcha_env \<Rightarrow> string \<Rightarrow> string \<Rightarrow> (act_error, json_object) act" where
  "post E method form l = (let l' = l @ [(method, form)] in (l', map_sum Failed id (cp_http E l')))"

definition session_request :: "captcha_env \<Rightarrow> string \<Rightarrow> url_values \<Rightarrow> (act_error, json_object) act" where
  "session_request E method vs = post E method (values_Encode vs)"

definition requestSettings :: "captcha_env \<Rightarrow> captchaSession \<Rightarrow> (act_error, captcha_settings) act" where
  "requestSettings E s =
     act_bind (act_wrap ((@) ''settings failed: '') (session_request E ''captchaNotRobot.settings'' (baseValues s)))
       (\<lambda>resp. act_lift (parseCaptchaSettingsResponse E resp))"

definition requestComponentDone :: "captcha_env \<Rightarrow> captchaSession \<Rightarrow> (act_error, unit) act" where
  "requestComponentDone E s =
     (let vs = values_Set (values_Set (baseValues s) ''browser_fp'' (ns_browserFp s)) ''device'' (session_device s) in
      act_bind (act_wrap ((@) ''componentDone failed: '') (session_request E ''captchaNotRobot.componentDone'' vs)) (\<lambda>resp.
        case Option.bind (get_obj resp ''response'') (\<lambda>o'. get_str o' ''status'') of
          None \<Rightarrow> act_return ()
        | Some statusVal \<Rightarrow>
            if statusVal \<noteq> [] \<and> statusVal \<noteq> ''OK'' then act_fail (Failed (''componentDone status: '' @ statusVal))
            else act_return ()))"

definition debugInfo_v1 :: string where
  "debugInfo_v1 = ''f3ef768dab7a20f574c6461f34e4257894d2a3c30a53d8727a3edaf7ab70847d''"

definition check_values :: "captchaSession \<Rightarrow> string \<Rightarrow> string \<Rightarrow> url_values" where
  "check_values s cursor answer =
     fold (\<lambda>(k, v) vs. values_Set vs k v)
       [(''accelerometer'', ''[]''), (''gyroscope'', ''[]''), (''motion'', ''[]''), (''cursor'', cursor), (''taps'', ''[]''),
        (''connectionRtt'', ''[250,250,250,250,250]''), (''connectionDownlink'', ''[1.45,1.45,1.45,1.45,1.45]''),
        (''browser_fp'', ns_browserFp s), (''hash'', ns_hash s), (''answer'', answer), (''debug_info'', debugInfo_v1)]
       (baseValues s)"

definition requestCheck :: "captcha_env \<Rightarrow> captchaSession \<Rightarrow> string \<Rightarrow> string \<Rightarrow> (act_error, captchaCheckResult) act" where
  "requestCheck E s cursor answer =
     act_bind (act_wrap ((@) ''check failed: '') (session_request E ''captchaNotRobot.check'' (check_values s cursor answer)))
       (\<lambda>resp. act_lift (parseCaptchaCheckResult E resp))"

definition requestCheckboxCheck :: "captcha_env \<Rightarrow> captchaSession \<Rightarrow> (act_error, captchaCheckResult) act" where
  "requestCheckboxCheck E s = requestCheck E s ''[]'' (base64 ''{}'')"

definition answer_json :: "int list \<Rightarrow> string" where
  "answer_json steps = ''{\"value\":['' @ str_Join (map str_Itoa steps) '','' @ '']}''"

definition encodeSliderAnswer :: "int list \<Rightarrow> string" where
  "encodeSliderAnswer activeSteps = base64 (answer_json activeSteps)"

definition requestSliderCheck :: "captcha_env \<Rightarrow> captchaSession \<Rightarrow> int list \<Rightarrow> (act_error, captchaCheckResult) act" where
  "requestSliderCheck E s activeSteps = requestCheck E s ''[]'' (encodeSliderAnswer activeSteps)"

definition requestSliderContent :: "captcha_env \<Rightarrow> captchaSession \<Rightarrow> string \<Rightarrow> (act_error, sliderContent) act" where
  "requestSliderContent E s sliderSettings =
     (let vs = (if sliderSettings \<noteq> [] then values_Set (baseValues s) ''captcha_settings'' sliderSettings else baseValues s) in
      act_bind (act_wrap ((@) ''getContent failed: '') (session_request E ''captchaNotRobot.getContent'' vs))
        (\<lambda>resp. act_lift (parseSliderCaptchaContentResponse E resp)))"

text \<open>With the settings first, then without; the last error counts.\<close>

definition requestSliderContentWithFallback ::
  "captcha_env \<Rightarrow> captchaSession \<Rightarrow> string \<Rightarrow> (act_error, sliderContent) act" where
  "requestSliderContentWithFallback E s sliderSettings l =
     (if sliderSettings = [] then requestSliderContent E s [] l
      else case requestSliderContent E s sliderSettings l of
             (l1, Inr c) \<Rightarrow> (l1, Inr c)
           | (l1, Inl e) \<Rightarrow> requestSliderContent E s [] l1)"

definition requestEndSession :: "captcha_env \<Rightarrow> captchaSession \<Rightarrow> (act_error, unit) act" where
  "requestEndSession E s = act_ignore (session_request E ''captchaNotRobot.endSession'' (baseValues s))"

section \<open>Solving\<close>

fun try_guesses ::
  "(sliderCandidate \<Rightarrow> (act_error, captchaCheckResult) act) \<Rightarrow> sliderCandidate list \<Rightarrow> (act_error, string) act" where
  "try_guesses check [] = act_fail (Failed ''slider guesses exhausted'')"
| "try_guesses check (c # cs) =
     act_bind (check c) (\<lambda>r.
       if cr_Status r = ''OK'' then
         (if cr_SuccessToken r = [] then act_fail (Failed ''success_token not found'') else act_return (cr_SuccessToken r))
       else if cr_Status r = ''ERROR_LIMIT'' then act_fail (Failed (''slider check status: '' @ cr_Status r))
       else try_guesses check cs)"

definition trySliderCaptchaCandidates ::
  "sliderCandidate list \<Rightarrow> int \<Rightarrow> (sliderCandidate \<Rightarrow> (act_error, captchaCheckResult) act) \<Rightarrow> (act_error, string) act" where
  "trySliderCaptchaCandidates candidates maxAttempts check =
     (if candidates = [] then act_fail (Failed ''slider has no ranked candidates'')
      else let limit = min maxAttempts (int (length candidates)) in
        if limit \<le> 0 then act_fail (Failed ''slider has no attempts available'')
        else try_guesses check (take (nat limit) candidates))"

text \<open>The slider part, after the checkbox check has been refused.\<close>

definition slider_part :: "captcha_env \<Rightarrow> captchaSession \<Rightarrow> captcha_settings \<Rightarrow> string \<Rightarrow> (act_error, string) act" where
  "slider_part E s settings status =
     (let sliderSettings = (case cps_SettingsByType settings ''slider'' of None \<Rightarrow> [] | Some t \<Rightarrow> t) in
      act_bind (act_ignore (requestComponentDone E s)) (\<lambda>_.
      act_bind (act_wrap (\<lambda>e. ''check status: '' @ status @ '' (slider getContent failed: '' @ e @ '')'')
                  (requestSliderContentWithFallback E s sliderSettings)) (\<lambda>content.
      case rankSliderCandidates (sl_Image content) (sl_Size content) (sl_Steps content) of
        None \<Rightarrow> act_fail Panicked
      | Some (Inl e) \<Rightarrow> act_fail (Failed e)
      | Some (Inr candidates) \<Rightarrow>
          act_bind (trySliderCaptchaCandidates candidates (sl_Attempts content)
                      (\<lambda>c. requestSliderCheck E s (sc_ActiveSteps c))) (\<lambda>token.
          act_bind (requestEndSession E s) (\<lambda>_. act_return token)))))"

definition callCaptchaNotRobotWithSliderPOC ::
  "captcha_env \<Rightarrow> string \<Rightarrow> string \<Rightarrow> string \<Rightarrow> captcha_settings option \<Rightarrow> saved_profile option \<Rightarrow> (act_error, string) act" where
  "callCaptchaNotRobotWithSliderPOC E sessionToken hash userAgent initialSettings saved =
     (let s = newCaptchaNotRobotSession E sessionToken hash userAgent saved in
      act_bind (requestSettings E s) (\<lambda>settingsResp.
      let settings = the (mergeCaptchaSettings (Some settingsResp) initialSettings) in
      act_bind (requestComponentDone E s) (\<lambda>_.
      act_bind (requestCheckboxCheck E s) (\<lambda>initialCheck.
      if cr_Status initialCheck = ''OK'' then
        (if cr_SuccessToken initialCheck = [] then act_fail (Failed ''success_token not found'')
         else act_bind (requestEndSession E s) (\<lambda>_. act_return (cr_SuccessToken initialCheck)))
      else slider_part E s settings (cr_Status initialCheck)))))"

text \<open>The variant without the slider, whose forms are written by hand.\<close>

definition base_params :: "string \<Rightarrow> string \<Rightarrow> string" where
  "base_params sessionToken adFp =
     ''session_token='' @ str_QueryEscape sessionToken @ ''&domain=vk.com&adFp='' @ str_QueryEscape adFp @ ''&access_token=''"

definition check_params :: "string \<Rightarrow> string \<Rightarrow> string" where
  "check_params browserFp hash =
     ''&accelerometer='' @ str_QueryEscape ''[]'' @ ''&gyroscope='' @ str_QueryEscape ''[]'' @ ''&motion='' @ str_QueryEscape ''[]''
     @ ''&cursor='' @ str_QueryEscape ''[]'' @ ''&taps='' @ str_QueryEscape ''[]''
     @ ''&connectionRtt='' @ str_QueryEscape ''[250,250,250,250,250]''
     @ ''&connectionDownlink='' @ str_QueryEscape ''[1.45,1.45,1.45,1.45,1.45]''
     @ ''&browser_fp='' @ browserFp @ ''&hash='' @ hash @ ''&answer='' @ base64 ''{}'' @ ''&debug_info='' @ debugInfo_v1"

definition call_verdict :: "captcha_env \<Rightarrow> string \<Rightarrow> json_object \<Rightarrow> (act_error, string) act" where
  "call_verdict E base checkResp =
     (case get_obj checkResp ''response'' of
        None \<Rightarrow> act_fail (Failed (''invalid check response: '' @ cp_show E checkResp))
      | Some respObj \<Rightarrow>
          if get_str respObj ''status'' \<noteq> Some ''OK'' then act_fail (Failed (''check status: '' @ str_field respObj ''status''))
          else let successToken = str_field respObj ''success_token'' in
            if successToken = [] then act_fail (Failed ''success_token not found'')
            else act_bind (act_ignore (post E ''captchaNotRobot.endSession'' base)) (\<lambda>_. act_return successToken))"

definition callCaptchaNotRobot ::
  "captcha_env \<Rightarrow> string \<Rightarrow> string \<Rightarrow> string \<Rightarrow> saved_profile option \<Rightarrow> (act_error, string) act" where
  "callCaptchaNotRobot E sessionToken hash userAgent saved =
     (let base = base_params sessionToken (cp_adFp E);
          browserFp = (case saved of None \<Rightarrow> cp_browserFp E | Some sp \<Rightarrow> sp_BrowserFp sp);
          device = (case saved of None \<Rightarrow> device_json userAgent | Some sp \<Rightarrow> sp_DeviceJSON sp) in
      act_bind (act_wrap ((@) ''settings failed: '') (post E ''captchaNotRobot.settings'' base)) (\<lambda>_.
      act_bind (act_wrap ((@) ''componentDone failed: '')
        (post E ''captchaNotRobot.componentDone'' (base @ ''&browser_fp='' @ browserFp @ ''&device='' @ str_QueryEscape device))) (\<lambda>_.
      act_bind (act_wrap ((@) ''check failed: '')
        (post E ''captchaNotRobot.check'' (base @ check_params browserFp hash)))
      (call_verdict E base))))"

text \<open>The proof of work tries at most ten million nonces.\<close>

fun pow_from :: "(string \<Rightarrow> string) \<Rightarrow> string \<Rightarrow> string \<Rightarrow> nat \<Rightarrow> nat \<Rightarrow> string" where
  "pow_from sha256hex powInput target nonce 0 = []"
| "pow_from sha256hex powInput target nonce (Suc k) =
     (let hexHash = sha256hex (powInput @ str_Itoa (int nonce)) in
      if str_HasPrefix hexHash target then hexHash else pow_from sha256hex powInput target (Suc nonce) k)"

definition solvePoW :: "captcha_env \<Rightarrow> string \<Rightarrow> nat \<Rightarrow> string" where
  "solvePoW E powInput difficulty = pow_from (cp_sha256hex E) powInput (replicate difficulty (CHR ''0'')) 1 10000000"

definition fetchCaptchaBootstrap :: "captcha_env \<Rightarrow> string \<Rightarrow> string + captchaBootstrap" where
  "fetchCaptchaBootstrap E redirectURI =
     (case cp_page E redirectURI of Inl e \<Rightarrow> Inl e | Inr html \<Rightarrow> parseCaptchaBootstrapHTML E html)"

section \<open>Lemmas\<close>

lemma act_bind_Inr:
  "act_bind m f l = (l2, Inr b) \<longleftrightarrow> (\<exists>l1 a. m l = (l1, Inr a) \<and> f a l1 = (l2, Inr b))"
  by (auto simp: act_bind_def split: prod.splits sum.splits)

lemma act_wrap_Inr: "act_wrap f m l = (l1, Inr a) \<longleftrightarrow> m l = (l1, Inr a)"
  by (auto simp: act_wrap_def split: prod.splits sum.splits act_error.splits)

lemma act_lift_Inr: "act_lift r l = (l1, Inr a) \<longleftrightarrow> l1 = l \<and> r = Inr a"
  by (cases r) (auto simp: act_lift_def)

lemma act_return_Inr: "act_return a l = (l1, Inr b) \<longleftrightarrow> l1 = l \<and> b = a"
  by (auto simp: act_return_def)

lemma act_fail_Inr: "act_fail e l \<noteq> (l1, Inr b)"
  by (simp add: act_fail_def)

lemma post_Inr: "post E m form l = (l1, Inr resp) \<longleftrightarrow> l1 = l @ [(m, form)] \<and> cp_http E (l @ [(m, form)]) = Inr resp"
  by (cases "cp_http E (l @ [(m, form)])") (auto simp: post_def)

lemmas act_Inr = act_bind_Inr act_wrap_Inr act_lift_Inr act_return_Inr act_fail_Inr

text \<open>How many requests an action makes at most.\<close>

definition requests :: "nat \<Rightarrow> ('e, 'a) act \<Rightarrow> bool" where
  "requests n m \<longleftrightarrow> (\<forall>l. \<exists>new. fst (m l) = l @ new \<and> length new \<le> n)"

lemma requests_mono: "requests n m \<Longrightarrow> n \<le> n' \<Longrightarrow> requests n' m"
  unfolding requests_def by (meson le_trans)

lemma requests_bind:
  assumes "requests n m" and "\<And>a. requests n' (f a)"
  shows "requests (n + n') (act_bind m f)"
  unfolding requests_def
proof
  fix l
  obtain l1 r where m: "m l = (l1, r)" by fastforce
  then obtain new where new: "l1 = l @ new" "length new \<le> n" using assms(1) unfolding requests_def by (metis fst_conv)
  show "\<exists>new. fst (act_bind m f l) = l @ new \<and> length new \<le> n + n'"
  proof (cases r)
    case (Inl e)
    then show ?thesis using m new by (auto simp: act_bind_def)
  next
    case (Inr a)
    obtain new' where "fst (f a l1) = l1 @ new'" "length new' \<le> n'" using assms(2) [of a] unfolding requests_def by blast
    then show ?thesis using m new Inr by (auto simp: act_bind_def)
  qed
qed

lemma requests_atoms [simp]:
  "requests n (act_return a)" "requests n (act_fail e)" "requests n (act_lift r)"
  by (auto simp: requests_def act_return_def act_fail_def act_lift_def)

lemma requests_post [simp]: "requests 1 (post E m form)" "requests 1 (session_request E m vs)"
  by (auto simp: requests_def session_request_def post_def Let_def)

lemma requests_wrap [simp]: "requests n (act_wrap f m) = requests n m" "requests n (act_ignore m) = requests n m"
proof -
  have "fst (act_wrap f m l) = fst (m l)" for l
    by (auto simp: act_wrap_def split: prod.splits sum.splits act_error.splits)
  then show "requests n (act_wrap f m) = requests n m" by (simp add: requests_def)
  show "requests n (act_ignore m) = requests n m" by (simp add: requests_def act_ignore_def)
qed

text \<open>What a check sends, and what its result says about the answer of the service.\<close>

definition check_call :: "captchaSession \<Rightarrow> string \<Rightarrow> string \<Rightarrow> call" where
  "check_call s cursor answer = (''captchaNotRobot.check'', values_Encode (check_values s cursor answer))"

definition slider_call :: "captchaSession \<Rightarrow> sliderCandidate \<Rightarrow> call" where
  "slider_call s c = check_call s ''[]'' (encodeSliderAnswer (sc_ActiveSteps c))"

lemma requestCheck_log: "fst (requestCheck E s cursor answer l) = l @ [check_call s cursor answer]"
  by (auto simp: requestCheck_def act_bind_def act_wrap_def act_lift_def session_request_def post_def check_call_def Let_def
      split: prod.splits sum.splits act_error.splits)

lemma requestCheck_Inr:
  "requestCheck E s cursor answer l = (l1, Inr r) \<longleftrightarrow>
     l1 = l @ [check_call s cursor answer] \<and>
     (\<exists>resp. cp_http E l1 = Inr resp \<and> parseCaptchaCheckResult E resp = Inr r)"
  by (auto simp: requestCheck_def act_Inr session_request_def post_Inr check_call_def)

text \<open>The service has accepted the last check of a log with a token.\<close>

definition accepted :: "captcha_env \<Rightarrow> call list \<Rightarrow> string \<Rightarrow> bool" where
  "accepted E l token \<longleftrightarrow>
     (\<exists>pre form resp r. l = pre @ [(''captchaNotRobot.check'', form)] \<and> cp_http E l = Inr resp
        \<and> parseCaptchaCheckResult E resp = Inr r \<and> cr_Status r = ''OK'' \<and> cr_SuccessToken r = token \<and> token \<noteq> [])"

lemma try_guesses_spec:
  assumes "try_guesses (\<lambda>c. requestSliderCheck E s (sc_ActiveSteps c)) cs l = (l', res)"
  shows "\<exists>k. k \<le> length cs \<and> l' = l @ map (slider_call s) (take k cs) \<and> (\<forall>token. res = Inr token \<longrightarrow> accepted E l' token)"
  using assms
proof (induction cs arbitrary: l)
  case Nil
  then show ?case by (auto simp: act_fail_def)
next
  case (Cons c cs)
  obtain l1 r where r: "requestSliderCheck E s (sc_ActiveSteps c) l = (l1, r)" by fastforce
  have l1: "l1 = l @ [slider_call s c]"
    using requestCheck_log [of E s "''[]''" "encodeSliderAnswer (sc_ActiveSteps c)" l] r
    by (simp add: requestSliderCheck_def slider_call_def)
  have one: ?case if "l' = l1" "\<forall>token. res = Inr token \<longrightarrow> accepted E l' token"
    using that l1 by (intro exI [of _ "Suc 0"]) simp
  show ?case
  proof (cases r)
    case (Inl e)
    then show ?thesis using Cons.prems r by (intro one) (auto simp: act_bind_def)
  next
    case (Inr a)
    then have acc: "accepted E l1 (cr_SuccessToken a)" if "cr_Status a = ''OK''" "cr_SuccessToken a \<noteq> []"
      using r that by (auto simp: requestSliderCheck_def requestCheck_Inr accepted_def check_call_def)
    consider (ok) "cr_Status a = ''OK''" | (limit) "cr_Status a = ''ERROR_LIMIT''"
      | (again) "cr_Status a \<noteq> ''OK''" "cr_Status a \<noteq> ''ERROR_LIMIT''" by blast
    then show ?thesis
    proof cases
      case ok
      then show ?thesis using Cons.prems r Inr acc
        by (intro one) (auto simp: act_bind_def act_fail_def act_return_def split: if_splits)
    next
      case limit
      then show ?thesis using Cons.prems r Inr by (intro one) (auto simp: act_bind_def act_fail_def)
    next
      case again
      then have "try_guesses (\<lambda>c. requestSliderCheck E s (sc_ActiveSteps c)) cs l1 = (l', res)"
        using Cons.prems r Inr by (simp add: act_bind_def)
      from Cons.IH [OF this] obtain k where "k \<le> length cs" "l' = l1 @ map (slider_call s) (take k cs)"
        "\<forall>token. res = Inr token \<longrightarrow> accepted E l' token" by blast
      then show ?thesis using l1 by (intro exI [of _ "Suc k"]) simp
    qed
  qed
qed

lemma try_spec:
  assumes "trySliderCaptchaCandidates cs maxAttempts (\<lambda>c. requestSliderCheck E s (sc_ActiveSteps c)) l = (l', res)"
  shows "\<exists>k. k \<le> length cs \<and> k \<le> nat maxAttempts \<and> l' = l @ map (slider_call s) (take k cs)
    \<and> (\<forall>token. res = Inr token \<longrightarrow> accepted E l' token)"
proof (cases "cs = [] \<or> min maxAttempts (int (length cs)) \<le> 0")
  case True
  then show ?thesis using assms by (intro exI [of _ 0]) (auto simp: trySliderCaptchaCandidates_def act_fail_def split: if_splits)
next
  case False
  define n where "n = nat (min maxAttempts (int (length cs)))"
  have "try_guesses (\<lambda>c. requestSliderCheck E s (sc_ActiveSteps c)) (take n cs) l = (l', res)"
    using assms False by (simp add: trySliderCaptchaCandidates_def n_def Let_def)
  from try_guesses_spec [OF this] obtain k where "k \<le> length (take n cs)" "l' = l @ map (slider_call s) (take k (take n cs))"
    "\<forall>token. res = Inr token \<longrightarrow> accepted E l' token" by blast
  then show ?thesis by (intro exI [of _ k]) (auto simp: n_def min_def split: if_splits)
qed

lemma requestEndSession_Inr:
  "requestEndSession E s l = (l1, Inr u) \<longleftrightarrow> l1 = l @ [(''captchaNotRobot.endSession'', values_Encode (baseValues s))]"
  by (auto simp: requestEndSession_def act_ignore_def session_request_def post_def Let_def)

lemma slider_part_Inr:
  assumes "slider_part E s settings status l = (l', Inr token)"
  shows "\<exists>cs m l1 l2. trySliderCaptchaCandidates cs m (\<lambda>c. requestSliderCheck E s (sc_ActiveSteps c)) l1 = (l2, Inr token)
    \<and> requestEndSession E s l2 = (l', Inr ())"
proof -
  obtain content :: sliderContent and l1 where a: "(case rankSliderCandidates (sl_Image content) (sl_Size content) (sl_Steps content) of
        None \<Rightarrow> act_fail Panicked
      | Some (Inl e) \<Rightarrow> act_fail (Failed e)
      | Some (Inr candidates) \<Rightarrow>
          act_bind (trySliderCaptchaCandidates candidates (sl_Attempts content)
                      (\<lambda>c. requestSliderCheck E s (sc_ActiveSteps c))) (\<lambda>token.
          act_bind (requestEndSession E s) (\<lambda>_. act_return token))) l1 = (l', Inr token)"
    using assms unfolding slider_part_def Let_def act_bind_Inr by blast
  then obtain r where "rankSliderCandidates (sl_Image content) (sl_Size content) (sl_Steps content) = Some r"
    by (cases "rankSliderCandidates (sl_Image content) (sl_Size content) (sl_Steps content)") (simp_all add: act_fail_Inr)
  with a show ?thesis by (cases r) (auto simp: act_fail_Inr act_bind_Inr act_return_Inr)
qed

section \<open>Properties\<close>

text \<open>The slider solver submits its guesses best match first: the checks it sends are those of a prefix of the
  given candidates, at most as many as the service allows attempts, and it returns a token only when
  the service has accepted the last of them with this token.\<close>

theorem slider_guesses_in_order:
  assumes "trySliderCaptchaCandidates cs maxAttempts (\<lambda>c. requestSliderCheck E s (sc_ActiveSteps c)) l = (l', res)"
  shows "\<exists>k. k \<le> length cs \<and> k \<le> nat maxAttempts \<and> l' = l @ map (slider_call s) (take k cs)
    \<and> (\<forall>token. res = Inr token \<longrightarrow> accepted E l' token)"
  using try_spec assms .

text \<open>A token that the solver with the slider returns is not empty and was
  issued by the service in the answer to the last check, which had the status OK, and the session
  was ended after it.\<close>

lemma slider_poc_accepted:
  assumes "callCaptchaNotRobotWithSliderPOC E sessionToken hash userAgent initialSettings saved l = (l', Inr token)"
  shows "\<exists>l0 form. l' = l0 @ [(''captchaNotRobot.endSession'', form)] \<and> accepted E l0 token"
proof -
  let ?s = "newCaptchaNotRobotSession E sessionToken hash userAgent saved"
  obtain l1 l2 settings and r :: captchaCheckResult where check: "requestCheckboxCheck E ?s l1 = (l2, Inr r)" and
    rest: "(if cr_Status r = ''OK'' then
        (if cr_SuccessToken r = [] then act_fail (Failed ''success_token not found'')
         else act_bind (requestEndSession E ?s) (\<lambda>_. act_return (cr_SuccessToken r)))
      else slider_part E ?s settings (cr_Status r)) l2 = (l', Inr token)"
    using assms unfolding callCaptchaNotRobotWithSliderPOC_def Let_def act_bind_Inr by blast
  show ?thesis
  proof (cases "cr_Status r = ''OK''")
    case True
    then have r: "cr_SuccessToken r \<noteq> []" "requestEndSession E ?s l2 = (l', Inr ())" "token = cr_SuccessToken r"
      using rest by (auto simp: act_fail_Inr act_bind_Inr act_return_Inr split: if_splits)
    have "accepted E l2 token"
      using check True r by (auto simp: requestCheckboxCheck_def requestCheck_Inr accepted_def check_call_def)
    then show ?thesis using r(2) by (auto simp: requestEndSession_Inr)
  next
    case False
    then have "slider_part E ?s settings (cr_Status r) l2 = (l', Inr token)" using rest by simp
    from slider_part_Inr [OF this] show ?thesis using try_spec by (fastforce simp: requestEndSession_Inr)
  qed
qed

text \<open>A service that accepts every check.\<close>

definition sample_service :: captcha_env where
  "sample_service =
     \<lparr>cp_http = (\<lambda>l. Inr [(''response'', JObj (if fst (last l) = ''captchaNotRobot.check''
         then [(''status'', JStr ''OK''), (''success_token'', JStr ''tok'')] else []))]),
      cp_show = (\<lambda>_. ''map''), cp_unmarshal = (\<lambda>_. None), cp_marshal = (\<lambda>_. []), cp_image = (\<lambda>_. Inl ''decode''),
      cp_page = (\<lambda>_. Inr ''html''), cp_powInput = (\<lambda>_. Some ''p''), cp_difficulty = [], cp_init = (\<lambda>_. None),
      cp_sha256hex = (\<lambda>_. ''0f''), cp_adFp = ''ad'', cp_browserFp = ''fp'', cp_userAgent = ''ua''\<rparr>"

definition sample_candidates :: "sliderCandidate list" where
  "sample_candidates = [\<lparr>sc_Index = 2, sc_ActiveSteps = [0, 1, 2, 3], sc_Score = 4\<rparr>,
                        \<lparr>sc_Index = 1, sc_ActiveSteps = [0, 1], sc_Score = 9\<rparr>]"

definition sample_session :: captchaSession where
  "sample_session = newCaptchaNotRobotSession sample_service ''s'' ''h'' ''ua'' None"

lemma sample_request:
  "session_request sample_service m vs l = (l @ [(m, values_Encode vs)], Inr [(''response'', JObj (if m = ''captchaNotRobot.check''
         then [(''status'', JStr ''OK''), (''success_token'', JStr ''tok'')] else []))])"
  by (simp add: session_request_def post_def sample_service_def)

lemma sample_check:
  "requestCheck sample_service s cursor answer l =
     (l @ [check_call s cursor answer], Inr \<lparr>cr_Status = ''OK'', cr_SuccessToken = ''tok'', cr_ShowCaptchaType = []\<rparr>)"
  by (simp add: requestCheck_def act_defs session_request_def post_def sample_service_def check_call_def
      parseCaptchaCheckResult_def get_obj_def get_str_def str_field_def Let_def)

theorem slider_guesses_in_order_witness:
  "accepted sample_service (fst (trySliderCaptchaCandidates sample_candidates 4
      (\<lambda>c. requestSliderCheck sample_service sample_session (sc_ActiveSteps c)) [])) ''tok''"
proof -
  obtain l' where run: "trySliderCaptchaCandidates sample_candidates 4
      (\<lambda>c. requestSliderCheck sample_service sample_session (sc_ActiveSteps c)) [] = (l', Inr ''tok'')"
    by (simp add: trySliderCaptchaCandidates_def sample_candidates_def requestSliderCheck_def sample_check
        act_bind_def act_return_def numeral_2_eq_2)
  from slider_guesses_in_order [OF this] show ?thesis using run by auto
qed

lemma slider_poc_sample:
  "\<exists>l0 form. fst (callCaptchaNotRobotWithSliderPOC sample_service ''s'' ''h'' ''ua'' None None [])
     = l0 @ [(''captchaNotRobot.endSession'', form)] \<and> accepted sample_service l0 ''tok''"
proof -
  obtain l' where run: "callCaptchaNotRobotWithSliderPOC sample_service ''s'' ''h'' ''ua'' None None [] = (l', Inr ''tok'')"
    by (simp add: callCaptchaNotRobotWithSliderPOC_def requestSettings_def requestComponentDone_def requestCheckboxCheck_def
        sample_check sample_request requestEndSession_def act_defs parseCaptchaSettingsResponse_def expandCaptchaSettings_def
        get_obj_def get_str_def str_field_def Let_def)
  from slider_poc_accepted [OF this] show ?thesis using run by simp
qed

end
