(* ===== verification/Slider_V2.thy ===== *)
theory Slider_V2
  imports Slider_Puzzle
begin

text \<open>
  The ranking of the slider candidates by the solver of version 2 (\<open>pkg/clientcore/captcha_v2_slider.go\<close>):
  a cheap score by brightness for all candidates, two more scores for the best twelve, and a
  consensus of the three orders. The worker pool computes the second stage in any order; its
  results are collected by index, so the order does not matter. \<open>weight\<close> is the weight of a line of
  the picture in the text score (a sum of exponentials of the math library); the text score is the
  exact sum.
\<close>

section \<open>Samples\<close>

definition sampleColorMappedV2 :: "picture \<Rightarrow> rect \<Rightarrow> rect \<Rightarrow> int \<Rightarrow> int \<Rightarrow> color" where
  "sampleColorMappedV2 img dstRect srcRect dstX dstY =
     (let dx = (if rect_Dx dstRect < 1 then 1 else rect_Dx dstRect);
          dy = (if rect_Dy dstRect < 1 then 1 else rect_Dy dstRect)
      in im_at img (r_x0 srcRect + (dstX - r_x0 dstRect) * rect_Dx srcRect div dx)
           (r_y0 srcRect + (dstY - r_y0 dstRect) * rect_Dy srcRect div dy))"

definition luma :: "color \<Rightarrow> byte" where
  "luma c = (case c of (r, g, b, _) \<Rightarrow>
     ucast ((299 * drop_bit 8 r + 587 * drop_bit 8 g + 114 * drop_bit 8 b) div 1000))"

definition sampleLumaMappedV2 :: "picture \<Rightarrow> rect \<Rightarrow> rect \<Rightarrow> int \<Rightarrow> int \<Rightarrow> byte" where
  "sampleLumaMappedV2 img dstRect srcRect dstX dstY = luma (sampleColorMappedV2 img dstRect srcRect dstX dstY)"

definition lumaDiff :: "byte \<Rightarrow> byte \<Rightarrow> int" where
  "lumaDiff a b = \<bar>uint a - uint b\<bar>"

definition blueDiff :: "color \<Rightarrow> color \<Rightarrow> int" where
  "blueDiff l r = (case l of (_, _, lb, _) \<Rightarrow> case r of (_, _, rb, _) \<Rightarrow> \<bar>uint (drop_bit 8 lb) - uint (drop_bit 8 rb)\<bar>)"

section \<open>Seams\<close>

text \<open>The two loops over the seams, with what they add up for a pair of samples at a line (\<open>None\<close> for the
  line under the seams between rows). A tile index beyond the mapping panics.\<close>

definition seamRightV2 ::
  "(color \<Rightarrow> color \<Rightarrow> int \<Rightarrow> 'a::comm_monoid_add) \<Rightarrow> picture \<Rightarrow> int \<Rightarrow> int list \<Rightarrow> int \<Rightarrow> int \<Rightarrow> 'a option" where
  "seamRightV2 f img gridSize mapping row col =
     (let leftIdx = row * gridSize + col; rightIdx = leftIdx + 1 in
      if int (length mapping) \<le> rightIdx then None
      else let tile = sliderTileRect (im_bounds img) gridSize;
             leftDst = tile leftIdx; rightDst = tile rightIdx;
             leftSrc = tile (mapping ! nat leftIdx); rightSrc = tile (mapping ! nat rightIdx);
             h = (if rect_Dy rightDst < rect_Dy leftDst then rect_Dy rightDst else rect_Dy leftDst)
           in Some (\<Sum>y\<leftarrow>[0..h - 1]. let yy = r_y0 leftDst + y in
                f (sampleColorMappedV2 img leftDst leftSrc (r_x1 leftDst - 1) yy)
                  (sampleColorMappedV2 img rightDst rightSrc (r_x0 rightDst) yy) yy))"

definition seamBelowV2 ::
  "(color \<Rightarrow> color \<Rightarrow> 'a::comm_monoid_add) \<Rightarrow> picture \<Rightarrow> int \<Rightarrow> int list \<Rightarrow> int \<Rightarrow> int \<Rightarrow> 'a option" where
  "seamBelowV2 f img gridSize mapping row col =
     (let topIdx = row * gridSize + col; bottomIdx = (row + 1) * gridSize + col in
      if int (length mapping) \<le> bottomIdx then None
      else let tile = sliderTileRect (im_bounds img) gridSize;
             topDst = tile topIdx; bottomDst = tile bottomIdx;
             topSrc = tile (mapping ! nat topIdx); bottomSrc = tile (mapping ! nat bottomIdx);
             w = (if rect_Dx bottomDst < rect_Dx topDst then rect_Dx bottomDst else rect_Dx topDst)
           in Some (\<Sum>x\<leftarrow>[0..w - 1]. let xx = r_x0 topDst + x in
                f (sampleColorMappedV2 img topDst topSrc xx (r_y1 topDst - 1))
                  (sampleColorMappedV2 img bottomDst bottomSrc xx (r_y0 bottomDst))))"

text \<open>A sum over all seams.\<close>

fun opt_total :: "'a::comm_monoid_add option list \<Rightarrow> 'a option" where
  "opt_total [] = Some 0"
| "opt_total (None # xs) = None"
| "opt_total (Some a # xs) = map_option ((+) a) (opt_total xs)"

definition seams_total ::
  "(color \<Rightarrow> color \<Rightarrow> int \<Rightarrow> 'a::comm_monoid_add) \<Rightarrow> (color \<Rightarrow> color \<Rightarrow> 'a) \<Rightarrow> picture \<Rightarrow> int \<Rightarrow> int list \<Rightarrow> 'a option" where
  "seams_total f h img gridSize mapping =
     opt_total ([seamRightV2 f img gridSize mapping row col. row \<leftarrow> [0..gridSize - 1], col \<leftarrow> [0..gridSize - 2]] @
                [seamBelowV2 h img gridSize mapping row col. row \<leftarrow> [0..gridSize - 2], col \<leftarrow> [0..gridSize - 1]])"

definition seamScoreLumaV2 :: "picture \<Rightarrow> int \<Rightarrow> int list \<Rightarrow> int option" where
  "seamScoreLumaV2 = seams_total (\<lambda>a b y. lumaDiff (luma a) (luma b)) (\<lambda>a b. lumaDiff (luma a) (luma b))"

definition seamScoreRGBV2 :: "picture \<Rightarrow> int \<Rightarrow> int list \<Rightarrow> int option" where
  "seamScoreRGBV2 = seams_total (\<lambda>l r y. pixelDiff l r) pixelDiff"

definition seamScoreTextV2 :: "(int \<Rightarrow> rat) \<Rightarrow> picture \<Rightarrow> int \<Rightarrow> int list \<Rightarrow> rat option" where
  "seamScoreTextV2 weight =
     seams_total (\<lambda>l r y. weight y * of_int (blueDiff l r)) (\<lambda>t b. 13 / 20 * of_int (blueDiff t b))"

section \<open>Ranking\<close>

definition activeSwapsForIndexV2 :: "int list \<Rightarrow> int \<Rightarrow> int list" where
  "activeSwapsForIndexV2 swaps index =
     (if index \<le> 0 then []
      else let e = index * 2; e' = (if int (length swaps) < e then int (length swaps) else e) in take (nat e') swaps)"

text \<open>\<open>make\<close> panics when the slice is larger than the address space of the runtime (\<open>2 ^ 48\<close> bytes on 64-bit systems).\<close>

definition maxSliceInts :: int where "maxSliceInts = 2 ^ 45"

definition applySliderSwapsV2 :: "int \<Rightarrow> int list \<Rightarrow> (string + int list) option" where
  "applySliderSwapsV2 gridSize swaps =
     (let tileCount = wrap64 (gridSize * gridSize) in
      if tileCount \<le> 0 then Some (Inl ''invalid slider tile count'')
      else if odd (length swaps) then Some (Inl ''invalid slider swaps length'')
      else if maxSliceInts < tileCount then None
      else Some (apply_swaps tileCount swaps [0..tileCount - 1]))"

record sliderGuessV2 =
  sg_Index :: int
  sg_Swaps :: "int list"
  sg_ScoreLuma :: int
  sg_ScoreRGB :: int
  sg_ScoreText :: rat
  sg_ConsensusRank :: nat

definition guess_luma :: "picture \<Rightarrow> int \<Rightarrow> int list \<Rightarrow> int \<Rightarrow> (string + sliderGuessV2) option" where
  "guess_luma img gridSize swaps idx =
     (let active = activeSwapsForIndexV2 swaps idx in
      case applySliderSwapsV2 gridSize active of
        None \<Rightarrow> None
      | Some (Inl e) \<Rightarrow> Some (Inl e)
      | Some (Inr mapping) \<Rightarrow>
          map_option (\<lambda>s. Inr \<lparr>sg_Index = idx, sg_Swaps = active, sg_ScoreLuma = s, sg_ScoreRGB = 0, sg_ScoreText = 0,
                               sg_ConsensusRank = 0\<rparr>) (seamScoreLumaV2 img gridSize mapping))"

text \<open>The second stage of one guess, for those among the best twelve.\<close>

definition guess_stage2 :: "(int \<Rightarrow> rat) \<Rightarrow> picture \<Rightarrow> int \<Rightarrow> int set \<Rightarrow> sliderGuessV2 \<Rightarrow> (string + sliderGuessV2) option" where
  "guess_stage2 weight img gridSize stage2Set g =
     (if sg_Index g \<notin> stage2Set then Some (Inr g)
      else case applySliderSwapsV2 gridSize (sg_Swaps g) of
             None \<Rightarrow> None
           | Some (Inl e) \<Rightarrow> Some (Inl e)
           | Some (Inr mapping) \<Rightarrow>
               (case (seamScoreRGBV2 img gridSize mapping, seamScoreTextV2 weight img gridSize mapping) of
                  (Some rgb, Some txt) \<Rightarrow> Some (Inr (g\<lparr>sg_ScoreRGB := rgb, sg_ScoreText := txt\<rparr>))
                | _ \<Rightarrow> None))"

fun collect :: "('a \<Rightarrow> (string + 'b) option) \<Rightarrow> 'a list \<Rightarrow> (string + 'b list) option" where
  "collect f [] = Some (Inr [])"
| "collect f (x # xs) =
     (case f x of None \<Rightarrow> None | Some (Inl e) \<Rightarrow> Some (Inl e)
      | Some (Inr y) \<Rightarrow> map_option (map_sum id ((#) y)) (collect f xs))"

definition rank_in :: "sliderGuessV2 list \<Rightarrow> int \<Rightarrow> nat" where
  "rank_in order index = length (takeWhile (\<lambda>g. sg_Index g \<noteq> index) order)"

definition luma_order :: "sliderGuessV2 list \<Rightarrow> sliderGuessV2 list" where
  "luma_order = sort_key (\<lambda>g. (sg_ScoreLuma g, sg_Index g))"

definition rgb_order :: "sliderGuessV2 list \<Rightarrow> sliderGuessV2 list" where
  "rgb_order = sort_key (\<lambda>g. (sg_ScoreRGB g, sg_Index g))"

definition text_order :: "sliderGuessV2 list \<Rightarrow> sliderGuessV2 list" where
  "text_order = sort_key (\<lambda>g. (sg_ScoreText g, sg_Index g))"

definition stage2_set :: "sliderGuessV2 list \<Rightarrow> int set" where
  "stage2_set guesses = set (map sg_Index (take (min 12 (length guesses)) (luma_order guesses)))"

text \<open>The consensus: the sum of the three ranks, or of the first one and the number of candidates.\<close>

definition consensus :: "sliderGuessV2 list \<Rightarrow> int set \<Rightarrow> sliderGuessV2 \<Rightarrow> nat" where
  "consensus guesses stage2Set g =
     (let stage2 = filter (\<lambda>h. sg_Index h \<in> stage2Set) guesses in
      rank_in (luma_order guesses) (sg_Index g)
      + (if sg_Index g \<in> stage2Set then rank_in (rgb_order stage2) (sg_Index g) + rank_in (text_order stage2) (sg_Index g)
         else length guesses))"

definition final_order :: "int set \<Rightarrow> sliderGuessV2 list \<Rightarrow> sliderGuessV2 list" where
  "final_order stage2Set guesses =
     sort_key (\<lambda>g. (sg_ConsensusRank g, sg_ScoreLuma g, sg_Index g))
       (map (\<lambda>g. g\<lparr>sg_ConsensusRank := consensus guesses stage2Set g\<rparr>) guesses)"

definition rankSliderGuessesV2 :: "(int \<Rightarrow> rat) \<Rightarrow> picture \<Rightarrow> int \<Rightarrow> int list \<Rightarrow> (string + sliderGuessV2 list) option" where
  "rankSliderGuessesV2 weight img gridSize swaps =
     (let candidateCount = int (length swaps div 2) in
      if candidateCount = 0 then Some (Inl ''slider has no candidates'')
      else case collect (guess_luma img gridSize swaps) [1..candidateCount] of
             None \<Rightarrow> None
           | Some (Inl e) \<Rightarrow> Some (Inl e)
           | Some (Inr guesses) \<Rightarrow>
               let stage2Set = stage2_set guesses in
               map_option (map_sum id (final_order stage2Set)) (collect (guess_stage2 weight img gridSize stage2Set) guesses))"

section \<open>Lemmas\<close>

lemma opt_total_Some: "None \<notin> set xs \<Longrightarrow> opt_total xs \<noteq> None"
  by (induction xs rule: opt_total.induct) auto

lemma opt_total_int: "opt_total xs = opt_sum xs"
  by (induction xs rule: opt_sum.induct) simp_all

text \<open>The seams of this version always have a value: a side of length zero is divided by one.\<close>

lemma seams_total_defined:
  assumes "int (length mapping) = g * g"
  shows "seams_total f h img g mapping \<noteq> None"
  unfolding seams_total_def
proof (rule opt_total_Some, rule notI)
  assume "None \<in> set ([seamRightV2 f img g mapping row col. row \<leftarrow> [0..g - 1], col \<leftarrow> [0..g - 2]] @
      [seamBelowV2 h img g mapping row col. row \<leftarrow> [0..g - 2], col \<leftarrow> [0..g - 1]])"
  then consider (right) row col where "0 \<le> row" "row < g" "0 \<le> col" "col + 1 < g" "seamRightV2 f img g mapping row col = None"
    | (below) row col where "0 \<le> row" "row + 1 < g" "0 \<le> col" "col < g" "seamBelowV2 h img g mapping row col = None"
    by force
  then show False
  proof cases
    case right
    then show False using index_right [OF right(1-4)] assms by (simp add: seamRightV2_def Let_def)
  next
    case below
    then show False using index_below [OF below(1-4)] assms by (simp add: seamBelowV2_def Let_def)
  qed
qed

lemma scores_defined:
  assumes "int (length mapping) = g * g"
  shows "seamScoreLumaV2 img g mapping \<noteq> None" and "seamScoreRGBV2 img g mapping \<noteq> None"
    and "seamScoreTextV2 weight img g mapping \<noteq> None"
  unfolding seamScoreLumaV2_def seamScoreRGBV2_def seamScoreTextV2_def by (rule seams_total_defined [OF assms])+

lemma swapsV2_active: "activeSwapsForIndexV2 swaps idx = buildSliderActiveSteps swaps idx"
  by (simp add: activeSwapsForIndexV2_def buildSliderActiveSteps_def Let_def)

text \<open>A grid whose mapping can be allocated.\<close>

definition grid_ok :: "int \<Rightarrow> bool" where "grid_ok g \<longleftrightarrow> 0 < g \<and> g * g \<le> maxSliceInts"

lemma grid_ok_wrap: "grid_ok g \<Longrightarrow> wrap64 (g * g) = g * g \<and> 0 < g * g"
  using wrap64_range [of "g * g"] by (simp add: grid_ok_def maxSliceInts_def)

section \<open>The reference\<close>

text \<open>The ranking as a specification: the mapping of a candidate, its three scores, the rank of a candidate as the number of
  candidates that come before it, the best twelve by brightness, and the consensus.\<close>

definition cand_mapping :: "int \<Rightarrow> int list \<Rightarrow> int \<Rightarrow> int list" where
  "cand_mapping g swaps i = projr (apply_swaps (g * g) (take (2 * nat i) swaps) [0..g * g - 1])"

definition cand_luma :: "picture \<Rightarrow> int \<Rightarrow> int list \<Rightarrow> int \<Rightarrow> int" where
  "cand_luma img g swaps i = the (seamScoreLumaV2 img g (cand_mapping g swaps i))"

definition cand_rgb :: "picture \<Rightarrow> int \<Rightarrow> int list \<Rightarrow> int \<Rightarrow> int" where
  "cand_rgb img g swaps i = the (seamScoreRGBV2 img g (cand_mapping g swaps i))"

definition cand_text :: "(int \<Rightarrow> rat) \<Rightarrow> picture \<Rightarrow> int \<Rightarrow> int list \<Rightarrow> int \<Rightarrow> rat" where
  "cand_text weight img g swaps i = the (seamScoreTextV2 weight img g (cand_mapping g swaps i))"

definition rank_by :: "(int \<Rightarrow> 'a::linorder) \<Rightarrow> int set \<Rightarrow> int \<Rightarrow> nat" where
  "rank_by f I i = card {j \<in> I. (f j, j) < (f i, i)}"

definition best_twelve :: "(int \<Rightarrow> 'a::linorder) \<Rightarrow> int \<Rightarrow> int set" where
  "best_twelve f n = {i \<in> {1..n}. rank_by f {1..n} i < 12}"

definition consensus_ref :: "(int \<Rightarrow> rat) \<Rightarrow> picture \<Rightarrow> int \<Rightarrow> int list \<Rightarrow> int \<Rightarrow> nat" where
  "consensus_ref weight img g swaps i =
     (let n = int (length swaps div 2); B = best_twelve (cand_luma img g swaps) n in
      rank_by (cand_luma img g swaps) {1..n} i
      + (if i \<in> B then rank_by (cand_rgb img g swaps) B i + rank_by (cand_text weight img g swaps) B i else nat n))"

text \<open>What the code collects of a candidate.\<close>

definition candidate :: "(int \<Rightarrow> rat) \<Rightarrow> picture \<Rightarrow> int \<Rightarrow> int list \<Rightarrow> int \<Rightarrow> sliderGuessV2" where
  "candidate weight img g swaps i =
     (let B = best_twelve (cand_luma img g swaps) (int (length swaps div 2)) in
      \<lparr>sg_Index = i, sg_Swaps = take (2 * nat i) swaps, sg_ScoreLuma = cand_luma img g swaps i,
       sg_ScoreRGB = (if i \<in> B then cand_rgb img g swaps i else 0),
       sg_ScoreText = (if i \<in> B then cand_text weight img g swaps i else 0),
       sg_ConsensusRank = consensus_ref weight img g swaps i\<rparr>)"

section \<open>Sorted lists and ranks\<close>

lemma insort_key_map: "insort_key f (h x) (map h xs) = map h (insort_key (\<lambda>x. f (h x)) x xs)"
  by (induction xs) simp_all

lemma sort_key_map: "sort_key f (map h xs) = map h (sort_key (\<lambda>x. f (h x)) xs)"
  by (induction xs) (simp_all add: insort_key_map sort_key_def)

lemma insort_key_cong: "f x = h x \<Longrightarrow> (\<And>y. y \<in> set xs \<Longrightarrow> f y = h y) \<Longrightarrow> insort_key f x xs = insort_key h x xs"
  by (induction xs) simp_all

lemma sort_key_eq: "(\<And>y. y \<in> set xs \<Longrightarrow> f y = h y) \<Longrightarrow> sort_key f xs = sort_key h xs"
  unfolding sort_key_def by (induction xs) (auto intro!: insort_key_cong simp: sort_key_def [symmetric])

text \<open>In a list that is strictly sorted by a key, what precedes an element is what has a smaller key.\<close>

lemma takeWhile_rank:
  fixes k :: "'a \<Rightarrow> 'b::linorder"
  assumes "sorted (map k xs)" and "distinct xs" and "inj_on k (set xs)" and "i \<in> set xs"
  shows "length (takeWhile (\<lambda>j. j \<noteq> i) xs) = card {j \<in> set xs. k j < k i}"
proof -
  obtain ys zs where xs: "xs = ys @ i # zs" "i \<notin> set ys" using assms(4) split_list_first by metis
  have "\<forall>j \<in> set ys. k j < k i"
    using assms(1-3) xs by (auto simp: sorted_append inj_on_def less_le)
  moreover have "\<forall>j \<in> set zs. \<not> k j < k i" using assms(1) xs by (auto simp: sorted_append)
  ultimately have "{j \<in> set xs. k j < k i} = set ys" using xs by auto
  moreover have "takeWhile (\<lambda>j. j \<noteq> i) xs = ys" unfolding xs(1) using xs(2) by (subst takeWhile_append2) auto
  ultimately show ?thesis using assms(2) xs by (simp add: distinct_card)
qed

lemma sort_rank:
  assumes "distinct xs" and "i \<in> set xs"
  shows "length (takeWhile (\<lambda>j. j \<noteq> i) (sort_key (\<lambda>j. (f j, j)) xs)) = rank_by f (set xs) i"
  using takeWhile_rank [of "\<lambda>j. (f j, j)" "sort_key (\<lambda>j. (f j, j)) xs" i] assms by (simp add: rank_by_def inj_on_def)

lemma set_take_rank: "distinct xs \<Longrightarrow> set (take m xs) = {x \<in> set xs. length (takeWhile (\<lambda>y. y \<noteq> x) xs) < m}"
proof (induction xs arbitrary: m)
  case (Cons x xs)
  then show ?case by (cases m) auto
qed simp

lemma take_best:
  "set (take (min 12 (length [1..n])) (sort_key (\<lambda>j. (f j, j)) [1..n])) = best_twelve f n"
proof -
  have "set (take 12 (sort_key (\<lambda>j. (f j, j)) [1..n])) = best_twelve f n"
    by (subst set_take_rank) (auto simp: best_twelve_def sort_rank)
  moreover have "take (min 12 (length [1..n])) ys = take 12 ys" if "length ys = length [1..n]" for ys :: "int list"
    using that by (simp add: min_def)
  ultimately show ?thesis by (metis length_sort)
qed

lemma rank_in_map:
  assumes "\<And>i. i \<in> set order \<Longrightarrow> sg_Index (h i) = i"
  shows "rank_in (map h order) i = length (takeWhile (\<lambda>j. j \<noteq> i) order)"
  unfolding rank_in_def takeWhile_map length_map
  by (rule arg_cong [of _ _ length], rule takeWhile_cong) (auto simp: assms)

section \<open>The code and the reference\<close>

lemma collect_map: "(\<And>x. x \<in> set xs \<Longrightarrow> f x = Some (Inr (h x))) \<Longrightarrow> collect f xs = Some (Inr (map h xs))"
  by (induction xs) simp_all

lemma cand_mapping:
  assumes "grid_ok g" and "even (length swaps)" and "\<forall>s \<in> set swaps. 0 \<le> s \<and> s < g * g"
  shows "applySliderSwapsV2 g (take (2 * nat i) swaps) = Some (Inr (cand_mapping g swaps i))"
    and "int (length (cand_mapping g swaps i)) = g * g"
proof -
  let ?s = "take (2 * nat i) swaps"
  have ev: "even (length ?s)" using assms(2) by (auto simp: min_def)
  obtain m where m: "apply_swaps (g * g) ?s [0..g * g - 1] = Inr m"
    using apply_swaps_total [OF ev, of "g * g" "[0..g * g - 1]"] assms(3) by (auto dest: in_set_takeD)
  have g: "wrap64 (g * g) = g * g" "0 < g * g" "\<not> maxSliceInts < g * g" using grid_ok_wrap [OF assms(1)] assms(1) by (auto simp: grid_ok_def)
  then show "applySliderSwapsV2 g ?s = Some (Inr (cand_mapping g swaps i))"
    using ev m by (simp add: applySliderSwapsV2_def cand_mapping_def Let_def)
  have "mset m = mset [0..g * g - 1]" using apply_swaps_perm [OF m] g(2) by simp
  then have "length m = length [0..g * g - 1]" by (rule mset_eq_length)
  then show "int (length (cand_mapping g swaps i)) = g * g" using g(2) m by (simp add: cand_mapping_def)
qed

text \<open>The two stages compute the scores of the reference.\<close>

definition stage1_guess :: "picture \<Rightarrow> int \<Rightarrow> int list \<Rightarrow> int \<Rightarrow> sliderGuessV2" where
  "stage1_guess img g swaps i = \<lparr>sg_Index = i, sg_Swaps = take (2 * nat i) swaps, sg_ScoreLuma = cand_luma img g swaps i,
     sg_ScoreRGB = 0, sg_ScoreText = 0, sg_ConsensusRank = 0\<rparr>"

lemma stages:
  assumes "grid_ok g" and "even (length swaps)" and "\<forall>s \<in> set swaps. 0 \<le> s \<and> s < g * g" and "0 < i"
    and "B = best_twelve (cand_luma img g swaps) (int (length swaps div 2))"
  shows "guess_luma img g swaps i = Some (Inr (stage1_guess img g swaps i))"
    and "guess_stage2 weight img g B (stage1_guess img g swaps i) = Some (Inr ((candidate weight img g swaps i)\<lparr>sg_ConsensusRank := 0\<rparr>))"
proof -
  note m = cand_mapping [OF assms(1-3), of i]
  note d = scores_defined [OF m(2)]
  have a: "activeSwapsForIndexV2 swaps i = take (2 * nat i) swaps"
    using assms(4) active_steps_take [of swaps i] by (simp add: swapsV2_active)
  show "guess_luma img g swaps i = Some (Inr (stage1_guess img g swaps i))"
    using m(1) d(1) [of img] by (auto simp: guess_luma_def a stage1_guess_def cand_luma_def)
  show "guess_stage2 weight img g B (stage1_guess img g swaps i) = Some (Inr ((candidate weight img g swaps i)\<lparr>sg_ConsensusRank := 0\<rparr>))"
    using m(1) d(2) [of img] d(3) [of weight img] assms(5)
    by (auto simp: guess_stage2_def stage1_guess_def candidate_def cand_rgb_def cand_text_def Let_def)
qed

lemma rank_by_if: "i \<in> B \<Longrightarrow> rank_by (\<lambda>x. if x \<in> B then f x else c) B i = rank_by f B i"
  by (auto simp: rank_by_def intro!: arg_cong [of _ _ card])

lemma candidate_rank:
  "(candidate weight img g swaps i)\<lparr>sg_ConsensusRank := 0\<rparr>\<lparr>sg_ConsensusRank := consensus_ref weight img g swaps i\<rparr> = candidate weight img g swaps i"
  by (simp add: candidate_def Let_def)

lemma collect_stage: "(\<And>x. x \<in> set xs \<Longrightarrow> f (h x) = Some (Inr (k x))) \<Longrightarrow> collect f (map h xs) = Some (Inr (map k xs))"
  by (induction xs) simp_all

lemma rank_0_unique:
  assumes "rank_by f I i = 0" and "rank_by f I j = 0" and "i \<in> I" and "j \<in> I" and "finite I"
  shows "i = j"
proof -
  have "\<not> (f j, j) < (f i, i)" "\<not> (f i, i) < (f j, j)" using assms by (auto simp: rank_by_def)
  then show ?thesis by auto
qed

lemma code_consensus:
  fixes img g swaps weight
  defines "n \<equiv> int (length swaps div 2)"
  defines "B \<equiv> best_twelve (cand_luma img g swaps) n"
  defines "hs \<equiv> map (\<lambda>i. (candidate weight img g swaps i)\<lparr>sg_ConsensusRank := 0\<rparr>) [1..n]"
  assumes "i \<in> {1..n}"
  shows "consensus hs B ((candidate weight img g swaps i)\<lparr>sg_ConsensusRank := 0\<rparr>) = consensus_ref weight img g swaps i"
proof -
  let ?c = "\<lambda>i. (candidate weight img g swaps i)\<lparr>sg_ConsensusRank := 0\<rparr>"
  have [simp]: "sg_Index (?c j) = j" "sg_ScoreLuma (?c j) = cand_luma img g swaps j" for j by (simp_all add: candidate_def Let_def)
  have sub: "B \<subseteq> {1..n}" by (auto simp: B_def best_twelve_def)
  have luma: "rank_in (luma_order hs) i = rank_by (cand_luma img g swaps) {1..n} i"
    unfolding hs_def luma_order_def sort_key_map using assms(4) by (simp add: rank_in_map sort_rank)
  have st: "filter (\<lambda>h. sg_Index h \<in> B) hs = map ?c (filter (\<lambda>i. i \<in> B) [1..n])" by (simp add: hs_def filter_map comp_def)
  have set: "set (filter (\<lambda>i. i \<in> B) [1..n]) = B" using sub by auto
  have key: "sort_key (\<lambda>j. (if j \<in> B then f j else 0, j)) (filter (\<lambda>i. i \<in> B) [1..n]) = sort_key (\<lambda>j. (f j, j)) (filter (\<lambda>i. i \<in> B) [1..n])"
    for f :: "int \<Rightarrow> 'b::{zero, linorder}" by (rule sort_key_eq) auto
  have "rank_in (rgb_order (filter (\<lambda>h. sg_Index h \<in> B) hs)) i = rank_by (cand_rgb img g swaps) B i"
    "rank_in (text_order (filter (\<lambda>h. sg_Index h \<in> B) hs)) i = rank_by (cand_text weight img g swaps) B i" if "i \<in> B"
  proof -
    have s: "sg_ScoreRGB (?c j) = (if j \<in> B then cand_rgb img g swaps j else 0)"
      "sg_ScoreText (?c j) = (if j \<in> B then cand_text weight img g swaps j else 0)" for j
      by (simp_all add: candidate_def B_def n_def Let_def)
    show "rank_in (rgb_order (filter (\<lambda>h. sg_Index h \<in> B) hs)) i = rank_by (cand_rgb img g swaps) B i"
      unfolding st rgb_order_def sort_key_map s key using that set by (simp add: rank_in_map sort_rank rank_by_if)
    show "rank_in (text_order (filter (\<lambda>h. sg_Index h \<in> B) hs)) i = rank_by (cand_text weight img g swaps) B i"
      unfolding st text_order_def sort_key_map s key using that set by (simp add: rank_in_map sort_rank rank_by_if)
  qed
  moreover have "length hs = nat n" by (simp add: hs_def)
  ultimately show ?thesis by (simp add: consensus_def consensus_ref_def luma Let_def B_def [symmetric] n_def [symmetric])
qed

section \<open>Properties\<close>



text \<open>The colour score of version 2 is the score of version 1: on a grid that fits into the picture both
  implementations read the same pixels along the seams.\<close>

theorem rgb_score_is_v1_score:
  assumes "grid_fits (im_bounds img) g" and "int (length mapping) = g * g"
  shows "seamScoreRGBV2 img g mapping = scoreSliderCandidate img g mapping"
proof -
  have sample: "sampleColorMappedV2 img (sliderTileRect (im_bounds img) g i) s x y = scaled_at img s (sliderTileRect (im_bounds img) g i) x y"
    for i s x y
    using tile_nonempty [OF assms(1), of i] by (simp add: sampleColorMappedV2_def scaled_at_def Let_def)
  have row: "r_y0 (sliderTileRect (im_bounds img) g (row * g + col + 1)) = r_y0 (sliderTileRect (im_bounds img) g (row * g + col))"
    if "0 \<le> col" "col + 1 < g" for row col
  proof -
    have g: "0 < g" using assms(1) by (simp add: grid_fits_def)
    have "(row * g + (col + 1)) div g = row" "(row * g + col) div g = row"
      using that g by (simp_all only: div_mult_self3 div_pos_pos_trivial)
    then have "(row * g + col + 1) div g = row" "(row * g + col) div g = row" by (simp_all add: add.assoc)
    then show ?thesis using assms(1) by (simp add: tile_coords grid_fits_def)
  qed
  have col: "r_x0 (sliderTileRect (im_bounds img) g ((row + 1) * g + col)) = r_x0 (sliderTileRect (im_bounds img) g (row * g + col))"
    for row col
    using assms(1) by (simp add: tile_coords grid_fits_def)
  have "seamRightV2 (\<lambda>l r y. pixelDiff l r) img g mapping r c = seam_right img g mapping r c"
    if "r \<in> set [0..g - 1]" "c \<in> set [0..g - 2]" for r c
    using that index_right [of r g c] assms
    by (subst seam_right_scaled) (auto simp: seamRightV2_def Let_def sample row min_def)
  moreover have "seamBelowV2 pixelDiff img g mapping r c = seam_below img g mapping r c"
    if "r \<in> set [0..g - 2]" "c \<in> set [0..g - 1]" for r c
    using that index_below [of r g c] assms
    by (subst seam_below_scaled) (auto simp: seamBelowV2_def Let_def sample col min_def)
  ultimately show ?thesis
    unfolding seamScoreRGBV2_def seams_total_def scoreSliderCandidate_def opt_total_int
    by (intro arg_cong [of _ _ opt_sum] arg_cong2 [of _ _ _ _ append] arg_cong [of _ _ concat] map_cong refl)
qed

theorem rgb_score_is_v1_score_witness:
  "seamScoreRGBV2 sample_picture 2 [3, 1, 2, 0] = scoreSliderCandidate sample_picture 2 [3, 1, 2, 0]"
  by (rule rgb_score_is_v1_score [OF sample_fits]) simp

end
