(* ===== verification/Captcha_V2.thy ===== *)
theory Captcha_V2
  imports Captcha_Session Slider_V2
begin

text \<open>
  The automatic captcha solver of version 2 (\<open>pkg/clientcore/captcha_v2.go\<close> and the session part of
  \<open>captcha_v2_slider.go\<close>), and the choice between the versions (\<open>solveVkCaptcha\<close> in \<open>main.go\<close>). The HTTP
  client, the decoders, the regular expressions, the random cursor and the context are the
  environment; the cache of debug infos is state.
\<close>

section \<open>Environment, state, errors\<close>

record v2_env = captcha_env +
  v2_get :: "call list \<Rightarrow> string + string"
  v2_windowInit :: "string \<Rightarrow> string option"
  v2_scriptSrc :: "string \<Rightarrow> string option"
  v2_powInput :: "string \<Rightarrow> string option"
  v2_difficulty :: "string \<Rightarrow> string option"
  v2_debugInfo :: "string \<Rightarrow> string option"
  v2_fmtFloat :: "rat \<Rightarrow> string"
  v2_fp :: "string + string"
  v2_ctx_done :: "call list \<Rightarrow> bool"
  v2_pow_done :: "nat \<Rightarrow> bool"
  v2_weight :: "picture \<Rightarrow> int \<Rightarrow> rat"
  v2_cursor :: "call list \<Rightarrow> int \<Rightarrow> int \<Rightarrow> string"

record v2_state =
  vs_calls :: "call list"
  vs_debugCache :: "string \<rightharpoonup> string"

datatype v2_error = V2RateLimit | V2Bot string | V2ShowType string | V2Failed string | V2Panic

type_synonym 'a v2 = "(v2_state, v2_error, 'a) sact"

definition v2_lift :: "string + 'a \<Rightarrow> 'a v2" where
  "v2_lift r st = (st, map_sum V2Failed id r)"

definition v2_wrap :: "string \<Rightarrow> 'a v2 \<Rightarrow> 'a v2" where
  "v2_wrap prefix m st = (case m st of (st1, Inl (V2Failed e)) \<Rightarrow> (st1, Inl (V2Failed (prefix @ e))) | r \<Rightarrow> r)"

section \<open>Requests\<close>

text \<open>The escaping written by hand.\<close>

definition captchaV2QueryEscape :: "string \<Rightarrow> string" where
  "captchaV2QueryEscape s =
     concat (map (\<lambda>c. let n = of_char c :: nat in
       if c = CHR '' '' then ''+''
       else if (97 \<le> n \<and> n \<le> 122) \<or> (65 \<le> n \<and> n \<le> 90) \<or> (48 \<le> n \<and> n \<le> 57) \<or> c = CHR ''-'' \<or> c = CHR ''_''
         \<or> c = CHR ''.'' \<or> c = CHR ''~'' then [c]
       else [CHR ''%'', ''0123456789ABCDEF'' ! (n div 16), ''0123456789ABCDEF'' ! (n mod 16)]) s)"

definition captchaV2EncodeForm :: "(string \<times> string) list \<Rightarrow> string" where
  "captchaV2EncodeForm values =
     str_Join (map (\<lambda>(k, v). captchaV2QueryEscape k @ ''='' @ captchaV2QueryEscape v) values) ''&''"

text \<open>It agrees with \<open>url.QueryEscape\<close>.\<close>

lemma upper_nth: "d < 16 \<Longrightarrow> ''0123456789ABCDEF'' ! d = upper_hex d"
proof -
  have "list_all (\<lambda>d. ''0123456789ABCDEF'' ! d = upper_hex d) [0..<16]" by code_simp
  then show "d < 16 \<Longrightarrow> ''0123456789ABCDEF'' ! d = upper_hex d" by (simp add: list_all_iff)
qed

lemma captchaV2QueryEscape_std: "captchaV2QueryEscape s = str_QueryEscape s"
proof -
  have d: "(of_char c :: nat) div 16 < 16" for c :: char
  proof -
    have "(of_char c :: nat) < 16 * 16" using nat_of_char_less_256 [of c] by linarith
    then show ?thesis by (rule less_mult_imp_div_less)
  qed
  have sp: "\<not> unreserved (CHR '' '')" by code_simp
  show ?thesis
    unfolding captchaV2QueryEscape_def str_QueryEscape_def
    by (intro arg_cong [of _ _ concat] map_cong refl) (use d sp in \<open>auto simp: Let_def unreserved_def upper_nth\<close>)
qed

definition captchaRequest :: "v2_env \<Rightarrow> string \<Rightarrow> (string \<times> string) list \<Rightarrow> json_object v2" where
  "captchaRequest E method form st =
     (let calls = vs_calls st @ [(method, captchaV2EncodeForm form)]
      in (st\<lparr>vs_calls := calls\<rparr>, map_sum V2Failed id (cp_http (captcha_env.truncate E) calls)))"

definition get_page :: "v2_env \<Rightarrow> string \<Rightarrow> string v2" where
  "get_page E url st =
     (let calls = vs_calls st @ [(''GET'', url)] in (st\<lparr>vs_calls := calls\<rparr>, map_sum V2Failed id (v2_get E calls)))"

definition captchaV2BaseValues :: "string \<Rightarrow> (string \<times> string) list" where
  "captchaV2BaseValues sessionToken =
     [(''session_token'', sessionToken), (''domain'', ''vk.com''), (''adFp'', ''''), (''access_token'', '''')]"

definition captchaV2StringifyAny :: "v2_env \<Rightarrow> json option \<Rightarrow> string" where
  "captchaV2StringifyAny E value =
     (case value of
        None \<Rightarrow> []
      | Some JNull \<Rightarrow> []
      | Some (JStr s) \<Rightarrow> s
      | Some (JNum r) \<Rightarrow> v2_fmtFloat E r
      | Some (JBool b) \<Rightarrow> (if b then ''true'' else ''false'')
      | Some j \<Rightarrow> cp_marshal E j)"

record captchaV2Check =
  ck2_Status :: string
  ck2_SuccessToken :: string
  ck2_ShowType :: string

definition parseCaptchaV2Check :: "v2_env \<Rightarrow> json_object \<Rightarrow> string + captchaV2Check" where
  "parseCaptchaV2Check E raw =
     (case get_obj raw ''response'' of
        None \<Rightarrow> Inl (''invalid captcha check response: '' @ cp_show E raw)
      | Some resp \<Rightarrow>
          (let out = \<lparr>ck2_Status = captchaV2StringifyAny E (map_of resp ''status''),
                      ck2_SuccessToken = captchaV2StringifyAny E (map_of resp ''success_token''),
                      ck2_ShowType = captchaV2StringifyAny E (map_of resp ''show_captcha_type'')\<rparr>
           in if ck2_Status out = [] then Inl (''captcha check status missing: '' @ cp_show E raw) else Inr out))"

text \<open>What a run of the solver knows: the session token, the fingerprint, the proof of work, the debug info
  and the description of the device.\<close>

record v2_run =
  rn_sessionToken :: string
  rn_browserFP :: string
  rn_hash :: string
  rn_debugInfo :: string
  rn_device :: string

definition performCaptchaCheck :: "v2_env \<Rightarrow> v2_run \<Rightarrow> string \<Rightarrow> string \<Rightarrow> captchaV2Check v2" where
  "performCaptchaCheck E R answerJSON cursor =
     act_bind (v2_wrap ''captcha check failed: '' (captchaRequest E ''captchaNotRobot.check''
       [(''session_token'', rn_sessionToken R), (''domain'', ''vk.com''), (''adFp'', ''''),
        (''accelerometer'', ''[]''), (''gyroscope'', ''[]''), (''motion'', ''[]''), (''cursor'', cursor), (''taps'', ''[]''),
        (''connectionRtt'', ''[]''), (''connectionDownlink'', ''[]''), (''browser_fp'', rn_browserFP R),
        (''hash'', rn_hash R), (''answer'', base64 answerJSON), (''debug_info'', rn_debugInfo R), (''access_token'', '''')]))
       (\<lambda>resp. v2_lift (parseCaptchaV2Check E resp))"

definition componentDone :: "v2_env \<Rightarrow> (string \<times> string) list \<Rightarrow> unit v2" where
  "componentDone E form =
     act_bind (v2_wrap ''captcha componentDone failed: '' (captchaRequest E ''captchaNotRobot.componentDone'' form))
       (\<lambda>_. act_return ())"

section \<open>The two challenges\<close>

definition wait_ctx :: "v2_env \<Rightarrow> unit v2" where
  "wait_ctx E st = (st, if v2_ctx_done E (vs_calls st) then Inl (V2Failed ''context canceled'') else Inr ())"

definition solveCheckboxCaptcha :: "v2_env \<Rightarrow> v2_run \<Rightarrow> string v2" where
  "solveCheckboxCaptcha E R =
     act_bind (componentDone E [(''session_token'', rn_sessionToken R), (''domain'', ''vk.com''), (''adFp'', ''''),
        (''browser_fp'', rn_browserFP R), (''device'', rn_device R), (''access_token'', '''')]) (\<lambda>_.
     act_bind (wait_ctx E) (\<lambda>_.
     act_bind (performCaptchaCheck E R ''{}'' ''[]'') (\<lambda>check.
       if ck2_ShowType check \<noteq> [] \<and> \<not> str_EqualFold (ck2_ShowType check) ''checkbox''
       then act_fail (V2ShowType (ck2_ShowType check))
       else if str_EqualFold (ck2_Status check) ''error_limit'' then act_fail V2RateLimit
       else if str_EqualFold (ck2_Status check) ''bot''
       then act_fail (V2Bot (''checkbox captcha rejected: status='' @ ck2_Status check))
       else if \<not> str_EqualFold (ck2_Status check) ''ok''
       then act_fail (V2Failed (''checkbox captcha rejected: status='' @ ck2_Status check))
       else if ck2_SuccessToken check = [] then act_fail (V2Failed ''captcha success token not found'')
       else act_return (ck2_SuccessToken check))))"

text \<open>The steps of the slider: the same format as in version 1, and the same rules.\<close>

definition splitSliderStepsV2 :: "int list \<Rightarrow> string + (int \<times> int list \<times> int)" where
  "splitSliderStepsV2 steps =
     (if length steps < 3 then Inl ''slider steps payload too short''
      else let gridSize = hd steps; rest = tl steps in
        if gridSize \<le> 0 then Inl ''invalid slider size''
        else let attempts = (if odd (length rest) then last rest else 4);
                 rest' = (if odd (length rest) then butlast rest else rest);
                 attempts' = (if attempts \<le> 0 then 4 else attempts)
             in if rest' = [] \<or> odd (length rest') then Inl ''invalid slider swap payload''
                else Inr (gridSize, rest', attempts'))"

definition parseSliderPuzzleV2 :: "v2_env \<Rightarrow> json_object \<Rightarrow> string + sliderContent" where
  "parseSliderPuzzleV2 E raw =
     (case get_obj raw ''response'' of
        None \<Rightarrow> Inl (''invalid slider content response: '' @ cp_show E raw)
      | Some resp \<Rightarrow>
          (let status = captchaV2StringifyAny E (map_of resp ''status'');
               rawImage = captchaV2StringifyAny E (map_of resp ''image'') in
           if \<not> str_EqualFold status ''ok'' then Inl (''slider getContent status: '' @ status)
           else if rawImage = [] then Inl ''slider image missing''
           else (case get_arr resp ''steps'' of
                   None \<Rightarrow> Inl ''slider steps missing''
                 | Some rawSteps \<Rightarrow>
                     (case parseIntSlice rawSteps of
                        Inl e \<Rightarrow> Inl e
                      | Inr steps \<Rightarrow>
                          (case splitSliderStepsV2 steps of
                             Inl e \<Rightarrow> Inl e
                           | Inr (gridSize, swaps, attempts) \<Rightarrow>
                               map_sum id (\<lambda>img. \<lparr>sl_Image = img, sl_Size = gridSize, sl_Steps = swaps, sl_Attempts = attempts\<rparr>)
                                 (cp_image E rawImage))))))"

fun try_guesses_v2 :: "v2_env \<Rightarrow> v2_run \<Rightarrow> int \<Rightarrow> sliderGuessV2 list \<Rightarrow> string v2" where
  "try_guesses_v2 E R cnt [] = act_fail (V2Failed ''slider guesses exhausted'')"
| "try_guesses_v2 E R cnt (u # us) = (\<lambda>st.
     act_bind (performCaptchaCheck E R (answer_json (sg_Swaps u)) (v2_cursor E (vs_calls st) (sg_Index u) cnt)) (\<lambda>check.
       if str_EqualFold (ck2_Status check) ''ok'' then
         (if ck2_SuccessToken check = [] then act_fail (V2Failed ''captcha success token not found'')
          else act_return (ck2_SuccessToken check))
       else if str_EqualFold (ck2_Status check) ''error_limit'' then act_fail V2RateLimit
       else try_guesses_v2 E R cnt us) st)"

definition solveSliderCaptcha :: "v2_env \<Rightarrow> v2_run \<Rightarrow> string \<Rightarrow> string v2" where
  "solveSliderCaptcha E R settings =
     act_bind (v2_wrap ''slider getContent failed: '' (captchaRequest E ''captchaNotRobot.getContent''
        (captchaV2BaseValues (rn_sessionToken R) @ [(''captcha_settings'', settings)]))) (\<lambda>resp.
     act_bind (v2_lift (parseSliderPuzzleV2 E resp)) (\<lambda>puzzle.
     case rankSliderGuessesV2 (v2_weight E (sl_Image puzzle)) (sl_Image puzzle) (sl_Size puzzle) (sl_Steps puzzle) of
       None \<Rightarrow> act_fail V2Panic
     | Some (Inl e) \<Rightarrow> act_fail (V2Failed e)
     | Some (Inr guesses) \<Rightarrow>
         (let limit = (if int (length guesses) < sl_Attempts puzzle then int (length guesses) else sl_Attempts puzzle) in
          if limit \<le> 0 then act_fail (V2Failed ''slider has no attempts available'')
          else act_bind (componentDone E (captchaV2BaseValues (rn_sessionToken R)
                  @ [(''browser_fp'', rn_browserFP R), (''device'', rn_device R)]))
                (\<lambda>_. try_guesses_v2 E R (int (length guesses)) (take (nat limit) guesses)))))"

section \<open>The page\<close>

record captchaV2Page =
  pg_PowInput :: string
  pg_PowDifficulty :: int
  pg_ScriptURL :: string
  pg_ShowCaptchaType :: string
  pg_CaptchaSettings :: "(string \<times> string) list"

text \<open>The decoded \<open>window.init\<close>: the show type and the settings by type; \<open>None\<close> when a field has another
  type.\<close>

definition init_setting :: "json \<Rightarrow> (string \<times> string) option" where
  "init_setting j =
     (case field_obj (Some j) of None \<Rightarrow> None | Some m \<Rightarrow>
      case field_str (map_of m ''type'') of None \<Rightarrow> None | Some t \<Rightarrow>
      case field_str (map_of m ''settings'') of None \<Rightarrow> None | Some s \<Rightarrow> Some (t, s))"

definition field_list :: "json option \<Rightarrow> json list option" where
  "field_list j = (case j of None \<Rightarrow> Some [] | Some JNull \<Rightarrow> Some [] | Some (JArr js) \<Rightarrow> Some js | _ \<Rightarrow> None)"

fun all_some :: "'a option list \<Rightarrow> 'a list option" where
  "all_some [] = Some []"
| "all_some (None # xs) = None"
| "all_some (Some x # xs) = map_option ((#) x) (all_some xs)"

definition init_v2 :: "json \<Rightarrow> (string \<times> (string \<times> string) list) option" where
  "init_v2 j =
     (case field_obj (Some j) of None \<Rightarrow> None | Some payload \<Rightarrow>
      case field_obj (map_of payload ''data'') of None \<Rightarrow> None | Some data \<Rightarrow>
      case field_str (map_of data ''show_captcha_type'') of None \<Rightarrow> None | Some showType \<Rightarrow>
      case Option.bind (field_list (map_of data ''captcha_settings'')) (\<lambda>js. all_some (map init_setting js)) of
        None \<Rightarrow> None | Some settings \<Rightarrow> Some (showType, settings))"

definition parseCaptchaV2Page :: "v2_env \<Rightarrow> string \<Rightarrow> string + captchaV2Page" where
  "parseCaptchaV2Page E html =
     (case v2_windowInit E html of
        None \<Rightarrow> Inl ''captcha init json not found''
      | Some text \<Rightarrow>
          (case Option.bind (cp_unmarshal E text) init_v2 of
             None \<Rightarrow> Inl ''captcha init json parse''
           | Some (showType, settings) \<Rightarrow>
               (case v2_scriptSrc E html of
                  None \<Rightarrow> Inl ''captcha script url not found''
                | Some url \<Rightarrow>
                    (let powInput = (case v2_powInput E html of None \<Rightarrow> [] | Some p \<Rightarrow> p);
                         page = \<lparr>pg_PowInput = powInput, pg_PowDifficulty = 0, pg_ScriptURL = url,
                                 pg_ShowCaptchaType = showType, pg_CaptchaSettings = settings\<rparr>
                     in if powInput = [] then Inr page
                        else case v2_difficulty E html of
                               None \<Rightarrow> Inl ''captcha difficulty const not found''
                             | Some digits \<Rightarrow>
                                 (case str_ParseInt digits of
                                    None \<Rightarrow> Inl (''invalid captcha difficulty '' @ digits)
                                  | Some d \<Rightarrow> if d \<le> 0 then Inl (''invalid captcha difficulty '' @ digits)
                                              else Inr (page\<lparr>pg_PowDifficulty := d\<rparr>))))))"

text \<open>The last setting of the type \<open>slider\<close> counts.\<close>

definition slider_settings :: "captchaV2Page \<Rightarrow> string" where
  "slider_settings page = fold (\<lambda>(t, s) cur. if t = ''slider'' then s else cur) (pg_CaptchaSettings page) []"

definition fetchDebugInfo :: "v2_env \<Rightarrow> string \<Rightarrow> string v2" where
  "fetchDebugInfo E scriptURL st =
     (case vs_debugCache st scriptURL of
        Some v \<Rightarrow> (st, Inr v)
      | None \<Rightarrow>
          act_bind (get_page E scriptURL) (\<lambda>body st1.
            case v2_debugInfo E body of
              None \<Rightarrow> (st1, Inl (V2Failed ''debug_info match not found''))
            | Some v \<Rightarrow> (st1\<lparr>vs_debugCache := (vs_debugCache st1)(scriptURL \<mapsto> v)\<rparr>, Inr v)) st)"

fun pow_v2_from :: "v2_env \<Rightarrow> string \<Rightarrow> string \<Rightarrow> nat \<Rightarrow> nat \<Rightarrow> string" where
  "pow_v2_from E input target nonce 0 = []"
| "pow_v2_from E input target nonce (Suc k) =
     (if nonce mod 4096 = 0 \<and> v2_pow_done E nonce then []
      else let hashHex = cp_sha256hex E (input @ str_Itoa (int nonce)) in
        if str_HasPrefix hashHex target then hashHex else pow_v2_from E input target (Suc nonce) k)"

definition solveCaptchaPoWV2 :: "v2_env \<Rightarrow> string \<Rightarrow> int \<Rightarrow> string" where
  "solveCaptchaPoWV2 E input difficulty =
     (if input = [] \<or> difficulty \<le> 0 then []
      else pow_v2_from E input (replicate (nat difficulty) (CHR ''0'')) 1 10000000)"

section \<open>One solution\<close>

text \<open>One challenge of the loop in \<open>solveOnce\<close>.\<close>

definition solve_challenge :: "v2_env \<Rightarrow> v2_run \<Rightarrow> string \<Rightarrow> string \<Rightarrow> string v2" where
  "solve_challenge E R sliderSettings showType =
     (if showType = ''slider'' then solveSliderCaptcha E R sliderSettings
      else if showType = ''checkbox'' \<or> showType = [] then solveCheckboxCaptcha E R
      else act_fail (V2Failed (''unsupported captcha type: '' @ showType)))"

text \<open>What comes next after an error: another challenge, or none.\<close>

definition next_challenge :: "string \<Rightarrow> string \<Rightarrow> v2_error \<Rightarrow> string option" where
  "next_challenge sliderSettings showType err =
     (case err of
        V2Bot _ \<Rightarrow> if \<not> str_EqualFold showType ''slider'' \<and> sliderSettings \<noteq> [] then Some ''slider'' else None
      | V2ShowType t \<Rightarrow> if t = [] then None else Some t
      | _ \<Rightarrow> None)"

text \<open>The errors that an action may end with.\<close>

definition errs :: "('e \<Rightarrow> bool) \<Rightarrow> ('s, 'e, 'a) sact \<Rightarrow> bool" where
  "errs P m \<longleftrightarrow> (\<forall>st st' e. m st = (st', Inl e) \<longrightarrow> P e)"

definition plain :: "v2_error \<Rightarrow> bool" where
  "plain e \<longleftrightarrow> (\<exists>s. e = V2Failed s)"

lemma act_bind_Inl:
  "act_bind m f st = (st', Inl e) \<longleftrightarrow> m st = (st', Inl e) \<or> (\<exists>st1 a. m st = (st1, Inr a) \<and> f a st1 = (st', Inl e))"
  by (auto simp: act_bind_def split: prod.splits sum.splits)

lemma errs_bind: "errs P m \<Longrightarrow> (\<And>a. errs P (f a)) \<Longrightarrow> errs P (act_bind m f)"
  unfolding errs_def act_bind_Inl by blast

lemma errs_atoms:
  "errs P (act_return a)" "P e \<Longrightarrow> errs P (act_fail e)" "(\<And>s. P (V2Failed s)) \<Longrightarrow> errs P (v2_lift r)"
  "(\<And>s. P (V2Failed s)) \<Longrightarrow> errs P (wait_ctx E)"
  by (auto simp: errs_def act_return_def act_fail_def v2_lift_def wait_ctx_def map_sum_def split: sum.splits)

lemma errs_request:
  "(\<And>s. P (V2Failed s)) \<Longrightarrow> errs P (v2_wrap prefix (captchaRequest E m form))"
  by (auto simp: errs_def v2_wrap_def captchaRequest_def map_sum_def Let_def split: sum.splits v2_error.splits prod.splits)

lemma errs_check: "(\<And>s. P (V2Failed s)) \<Longrightarrow> errs P (performCaptchaCheck E R a c)"
  unfolding performCaptchaCheck_def by (intro errs_bind errs_request errs_atoms)

lemma errs_done: "(\<And>s. P (V2Failed s)) \<Longrightarrow> errs P (componentDone E form)"
  unfolding componentDone_def by (intro errs_bind errs_request errs_atoms)

lemmas errs_intros = errs_bind errs_request errs_check errs_done errs_atoms

text \<open>The slider asks for no other challenge; the checkbox asks for another one than itself.\<close>

definition slider_err :: "v2_error \<Rightarrow> bool" where
  "slider_err e \<longleftrightarrow> e = V2RateLimit \<or> e = V2Panic \<or> plain e"

definition checkbox_err :: "v2_error \<Rightarrow> bool" where
  "checkbox_err e \<longleftrightarrow> e = V2RateLimit \<or> (\<exists>s. e = V2Bot s) \<or> (\<exists>t. e = V2ShowType t \<and> t \<noteq> [] \<and> \<not> str_EqualFold t ''checkbox'')
     \<or> plain e"

lemma err_plain [simp]: "slider_err (V2Failed s)" "checkbox_err (V2Failed s)" "slider_err V2RateLimit" "checkbox_err V2RateLimit"
  "slider_err V2Panic" "checkbox_err (V2Bot s)"
  by (simp_all add: slider_err_def checkbox_err_def plain_def)

lemma errs_guesses: "errs slider_err (try_guesses_v2 E R cnt us)"
proof (induction us)
  case (Cons u us)
  have "errs slider_err (act_bind (performCaptchaCheck E R a c) (\<lambda>check.
       if str_EqualFold (ck2_Status check) ''ok'' then
         (if ck2_SuccessToken check = [] then act_fail (V2Failed ''captcha success token not found'')
          else act_return (ck2_SuccessToken check))
       else if str_EqualFold (ck2_Status check) ''error_limit'' then act_fail V2RateLimit
       else try_guesses_v2 E R cnt us))" for a c
    by (intro errs_bind errs_check) (simp_all add: Cons errs_atoms)
  then show ?case unfolding errs_def try_guesses_v2.simps by blast
qed (simp add: errs_atoms)

lemma errs_case:
  "(r = None \<Longrightarrow> errs P a) \<Longrightarrow> (\<And>e. r = Some (Inl e) \<Longrightarrow> errs P (b e)) \<Longrightarrow> (\<And>x. r = Some (Inr x) \<Longrightarrow> errs P (c x))
    \<Longrightarrow> errs P (case r of None \<Rightarrow> a | Some (Inl e) \<Rightarrow> b e | Some (Inr x) \<Rightarrow> c x)"
  by (auto split: option.splits sum.splits)

lemma errs_slider: "errs slider_err (solveSliderCaptcha E R settings)"
  unfolding solveSliderCaptcha_def Let_def
  by (intro errs_bind errs_case errs_request errs_atoms) (auto intro!: errs_bind errs_guesses simp: errs_done errs_atoms)

lemma errs_checkbox: "errs checkbox_err (solveCheckboxCaptcha E R)"
  unfolding solveCheckboxCaptcha_def
  by (intro errs_intros) (auto simp: errs_atoms checkbox_err_def plain_def)

lemma fold_equal_checkbox: "str_EqualFold ''checkbox'' ''checkbox''"
  by (simp add: str_EqualFold_def)

text \<open>How far the loop is from its end: after the checkbox only the slider can follow, and nothing after it.\<close>

definition rounds_left :: "string \<Rightarrow> nat" where
  "rounds_left showType = (if showType = ''checkbox'' \<or> showType = [] then 1 else 0)"

lemma next_challenge_decreases:
  assumes "solve_challenge E R sliderSettings showType st = (st', Inl err)"
    and "next_challenge sliderSettings showType err = Some showType'"
  shows "rounds_left showType' < rounds_left showType"
proof (cases "showType = ''checkbox'' \<or> showType = []")
  case True
  then have "solveCheckboxCaptcha E R st = (st', Inl err)" using assms(1) by (auto simp: solve_challenge_def)
  then have "checkbox_err err" using errs_checkbox unfolding errs_def by blast
  then show ?thesis using assms(2) True fold_equal_checkbox
    by (auto simp: checkbox_err_def plain_def next_challenge_def rounds_left_def split: if_splits)
next
  case no: False
  show ?thesis
  proof (cases "showType = ''slider''")
    case True
    then have "solveSliderCaptcha E R sliderSettings st = (st', Inl err)" using assms(1) by (simp add: solve_challenge_def)
    then have "slider_err err" using errs_slider unfolding errs_def by blast
    then show ?thesis using assms(2) by (auto simp: slider_err_def plain_def next_challenge_def)
  next
    case False
    then show ?thesis using assms no by (auto simp: solve_challenge_def act_fail_def next_challenge_def)
  qed
qed

text \<open>The loop has no bound of its own.\<close>

function challenge_loop :: "v2_env \<Rightarrow> v2_run \<Rightarrow> string \<Rightarrow> string \<Rightarrow> string v2" where
  "challenge_loop E R sliderSettings showType st =
     (case solve_challenge E R sliderSettings showType st of
        (st1, Inr token) \<Rightarrow> (st1, Inr token)
      | (st1, Inl err) \<Rightarrow>
          (case next_challenge sliderSettings showType err of
             None \<Rightarrow> (st1, Inl err)
           | Some showType' \<Rightarrow> challenge_loop E R sliderSettings showType' st1))"
  by pat_completeness auto

termination challenge_loop
  by (relation "measure (\<lambda>(E, R, sliderSettings, showType, st). rounds_left showType)")
    (auto dest!: next_challenge_decreases [OF sym])

declare challenge_loop.simps [simp del]

text \<open>The same loop with at most \<open>n\<close> challenges.\<close>

fun challenge_fuel :: "v2_env \<Rightarrow> v2_run \<Rightarrow> string \<Rightarrow> nat \<Rightarrow> string \<Rightarrow> v2_state \<Rightarrow> (v2_state \<times> (v2_error + string)) option" where
  "challenge_fuel E R sliderSettings 0 showType st = None"
| "challenge_fuel E R sliderSettings (Suc n) showType st =
     (case solve_challenge E R sliderSettings showType st of
        (st1, Inr token) \<Rightarrow> Some (st1, Inr token)
      | (st1, Inl err) \<Rightarrow>
          (case next_challenge sliderSettings showType err of
             None \<Rightarrow> Some (st1, Inl err)
           | Some showType' \<Rightarrow> challenge_fuel E R sliderSettings n showType' st1))"

lemma challenge_fuel_loop:
  "rounds_left showType < n \<Longrightarrow> challenge_fuel E R sliderSettings n showType st = Some (challenge_loop E R sliderSettings showType st)"
proof (induction n arbitrary: showType st)
  case (Suc n)
  show ?case
    using Suc.prems next_challenge_decreases [of E R sliderSettings showType st]
    by (subst challenge_loop.simps)
      (auto simp: Suc.IH split: prod.splits sum.splits option.splits; fastforce intro!: Suc.IH)
qed simp

definition captchaV2DeviceInfo :: string where
  "captchaV2DeviceInfo =
     ''{\"screenWidth\":1920,\"screenHeight\":1080,\"screenAvailWidth\":1920,\"screenAvailHeight\":1080,\"innerWidth\":1920,''
     @ ''\"innerHeight\":951,\"devicePixelRatio\":1,\"language\":\"en-US\",\"languages\":[\"en-US\",\"en\"],''
     @ ''\"webdriver\":false,\"hardwareConcurrency\":8,\"notificationsPermission\":\"denied\"}''"

definition blank :: "string \<Rightarrow> bool" where
  "blank s \<longleftrightarrow> str_TrimSpace s = []"

definition solveOnce :: "v2_env \<Rightarrow> saved_profile option \<Rightarrow> vkCaptchaError \<Rightarrow> string v2" where
  "solveOnce E saved c =
     act_bind (get_page E (ce_RedirectURI c)) (\<lambda>html.
     act_bind (v2_lift (parseCaptchaV2Page E html)) (\<lambda>page.
     let settings = slider_settings page in
     if pg_PowInput page = [] then act_fail (V2Failed ''failed to find PoW settings'')
     else if pg_ShowCaptchaType page = ''slider'' \<and> settings = []
     then act_fail (V2Failed ''failed to find slider captcha settings'')
     else let hash = solveCaptchaPoWV2 E (pg_PowInput page) (pg_PowDifficulty page) in
       if hash = [] then act_fail (V2Failed ''captcha pow failed'')
       else
         act_bind (v2_wrap ''captcha settings failed: ''
           (captchaRequest E ''captchaNotRobot.settings'' (captchaV2BaseValues (ce_SessionToken c)))) (\<lambda>_.
         act_bind (v2_lift (v2_fp E)) (\<lambda>fp.
         act_bind (v2_wrap ''failed to fetch debug info: '' (fetchDebugInfo E (pg_ScriptURL page))) (\<lambda>debugInfo.
         let R = \<lparr>rn_sessionToken = ce_SessionToken c,
                  rn_browserFP = (case saved of None \<Rightarrow> fp | Some sp \<Rightarrow> if blank (sp_BrowserFp sp) then fp else sp_BrowserFp sp),
                  rn_hash = hash, rn_debugInfo = debugInfo,
                  rn_device = (case saved of None \<Rightarrow> captchaV2DeviceInfo
                    | Some sp \<Rightarrow> if blank (sp_DeviceJSON sp) then captchaV2DeviceInfo else sp_DeviceJSON sp)\<rparr> in
         act_bind (challenge_loop E R settings (pg_ShowCaptchaType page)) (\<lambda>token.
         act_bind (act_ignore (captchaRequest E ''captchaNotRobot.endSession'' (captchaV2BaseValues (ce_SessionToken c))))
           (\<lambda>_. act_return token)))))))"

definition captchaV2MaxAttempts :: nat where "captchaV2MaxAttempts = 2"

text \<open>The attempts; the back-off between them ends early with the context.\<close>

fun v2_attempts :: "v2_env \<Rightarrow> saved_profile option \<Rightarrow> vkCaptchaError \<Rightarrow> nat \<Rightarrow> string v2" where
  "v2_attempts E saved c 0 = act_fail (V2Failed ''v2 captcha attempts exhausted'')"
| "v2_attempts E saved c (Suc k) = (\<lambda>st.
     (case solveOnce E saved c st of
        (st1, Inr token) \<Rightarrow> (st1, Inr token)
      | (st1, Inl V2RateLimit) \<Rightarrow> (st1, Inl V2RateLimit)
      | (st1, Inl V2Panic) \<Rightarrow> (st1, Inl V2Panic)
      | (st1, Inl _) \<Rightarrow> act_bind (wait_ctx E) (\<lambda>_. v2_attempts E saved c k) st1))"

definition solveVkCaptchaV2 :: "v2_env \<Rightarrow> saved_profile option \<Rightarrow> vkCaptchaError \<Rightarrow> string v2" where
  "solveVkCaptchaV2 E saved c =
     (if ce_SessionToken c = [] then act_fail (V2Failed ''no session_token in redirect_uri'')
      else v2_attempts E saved c captchaV2MaxAttempts)"

section \<open>Both versions\<close>

text \<open>The solver of version 1: the page, the proof of work, then the session with or without the slider.\<close>

definition solve_v1 :: "captcha_env \<Rightarrow> saved_profile option \<Rightarrow> bool \<Rightarrow> vkCaptchaError \<Rightarrow> (act_error, string) act" where
  "solve_v1 E saved useSlider c =
     (let ua = (case saved of None \<Rightarrow> cp_userAgent E | Some sp \<Rightarrow> sp_UserAgent sp) in
      act_bind (act_wrap ((@) ''failed to fetch captcha bootstrap: '') (act_lift (fetchCaptchaBootstrap E (ce_RedirectURI c)))) (\<lambda>bootstrap.
      let hash = solvePoW E (cb_PowInput bootstrap) (nat (cb_Difficulty bootstrap)) in
      act_wrap ((@) ''captchaNotRobot API failed: '')
        (if useSlider
         then callCaptchaNotRobotWithSliderPOC E (ce_SessionToken c) hash ua (Some (cb_Settings bootstrap)) saved
         else callCaptchaNotRobot E (ce_SessionToken c) hash ua saved)))"

text \<open>Only the rate limit stops after version 2; other errors fall back to version 1. (The page requests
  of version 1 are not part of the log of calls.)\<close>

definition solveVkCaptcha ::
  "v2_env \<Rightarrow> string \<Rightarrow> saved_profile option \<Rightarrow> bool \<Rightarrow> vkCaptchaError \<Rightarrow> v2_state \<Rightarrow> v2_state \<times> (v2_error + string)" where
  "solveVkCaptcha E solverVersion saved useSlider c st =
     (if ce_SessionToken c = [] then (st, Inl (V2Failed ''no session_token in redirect_uri for auto-solve''))
      else if ce_RedirectURI c = [] then (st, Inl (V2Failed ''no redirect_uri for auto-solve''))
      else
        let v1 = (\<lambda>st1. case solve_v1 (captcha_env.truncate E) saved useSlider c (vs_calls st1) of
               (l, Inr token) \<Rightarrow> (st1\<lparr>vs_calls := l\<rparr>, Inr token)
             | (l, Inl (Failed e)) \<Rightarrow> (st1\<lparr>vs_calls := l\<rparr>, Inl (V2Failed e))
             | (l, Inl Panicked) \<Rightarrow> (st1\<lparr>vs_calls := l\<rparr>, Inl V2Panic))
        in if \<not> useSlider \<and> \<not> str_EqualFold solverVersion ''v1'' then
             (case solveVkCaptchaV2 E saved c st of
                (st1, Inr token) \<Rightarrow> (st1, Inr token)
              | (st1, Inl V2RateLimit) \<Rightarrow> (st1, Inl V2RateLimit)
              | (st1, Inl V2Panic) \<Rightarrow> (st1, Inl V2Panic)
              | (st1, Inl _) \<Rightarrow> v1 st1)
           else v1 st)"

section \<open>Tokens\<close>

text \<open>The service has answered the last call of a log, a check, with a status OK (in any case) and the token.\<close>

definition service_accepted :: "v2_env \<Rightarrow> call list \<Rightarrow> string \<Rightarrow> bool" where
  "service_accepted E l token \<longleftrightarrow> token \<noteq> [] \<and>
     (\<exists>pre form resp respObj. l = pre @ [(''captchaNotRobot.check'', form)] \<and> cp_http E l = Inr resp
        \<and> get_obj resp ''response'' = Some respObj
        \<and> str_EqualFold (captchaV2StringifyAny E (map_of respObj ''status'')) ''ok''
        \<and> captchaV2StringifyAny E (map_of respObj ''success_token'') = token)"

definition solved :: "v2_env \<Rightarrow> call list \<Rightarrow> string \<Rightarrow> bool" where
  "solved E l token \<longleftrightarrow> (\<exists>l0 form. l = l0 @ [(''captchaNotRobot.endSession'', form)] \<and> service_accepted E l0 token)"

lemma truncate_simps [simp]:
  "cp_http (captcha_env.truncate E) = cp_http E" "cp_show (captcha_env.truncate E) = cp_show E"
  by (simp_all add: captcha_env.truncate_def)

lemma str_field_stringify: "str_field m k \<noteq> [] \<Longrightarrow> captchaV2StringifyAny E (map_of m k) = str_field m k"
  by (auto simp: str_field_def get_str_def captchaV2StringifyAny_def split: option.splits json.splits)

lemma fold_ok: "str_EqualFold ''OK'' ''ok''"
  by code_simp

lemma accepted_service:
  assumes "accepted (captcha_env.truncate E) l token"
  shows "service_accepted E l token"
proof -
  obtain pre form resp r where a: "l = pre @ [(''captchaNotRobot.check'', form)]" "cp_http E l = Inr resp"
    "parseCaptchaCheckResult (captcha_env.truncate E) resp = Inr r" "cr_Status r = ''OK''" "cr_SuccessToken r = token" "token \<noteq> []"
    using assms by (auto simp: accepted_def)
  then obtain respObj where o: "get_obj resp ''response'' = Some respObj" "str_field respObj ''status'' = ''OK''"
    "str_field respObj ''success_token'' = token"
    by (auto simp: parseCaptchaCheckResult_def Let_def split: option.splits if_splits)
  then show ?thesis
    using a fold_ok str_field_stringify [of respObj "''status''" E] str_field_stringify [of respObj "''success_token''" E]
    by (auto simp: service_accepted_def)
qed

lemma v2_wrap_Inr: "v2_wrap p m st = (st', Inr a) \<longleftrightarrow> m st = (st', Inr a)"
  by (auto simp: v2_wrap_def split: prod.splits sum.splits v2_error.splits)

lemma v2_lift_Inr: "v2_lift r st = (st', Inr a) \<longleftrightarrow> st' = st \<and> r = Inr a"
  by (cases r) (auto simp: v2_lift_def)

lemma check_accepted:
  assumes "performCaptchaCheck E R a c st = (st', Inr check)" and "str_EqualFold (ck2_Status check) ''ok''"
    and "ck2_SuccessToken check \<noteq> []"
  shows "service_accepted E (vs_calls st') (ck2_SuccessToken check)"
proof -
  obtain form resp where r: "captchaRequest E ''captchaNotRobot.check'' form st = (st', Inr resp)"
    "parseCaptchaV2Check E resp = Inr check"
    using assms(1) unfolding performCaptchaCheck_def act_bind_Inr v2_wrap_Inr v2_lift_Inr by blast
  have calls: "vs_calls st' = vs_calls st @ [(''captchaNotRobot.check'', captchaV2EncodeForm form)]"
    "cp_http E (vs_calls st') = Inr resp"
    using r(1) by (auto simp: captchaRequest_def Let_def map_sum_def split: sum.splits)
  obtain respObj where "get_obj resp ''response'' = Some respObj"
    "ck2_Status check = captchaV2StringifyAny E (map_of respObj ''status'')"
    "ck2_SuccessToken check = captchaV2StringifyAny E (map_of respObj ''success_token'')"
    using r(2) by (auto simp: parseCaptchaV2Check_def Let_def split: option.splits if_splits)
  then show ?thesis using calls assms(2,3) by (auto simp: service_accepted_def)
qed

lemma checkbox_accepted:
  "solveCheckboxCaptcha E R st = (st', Inr token) \<Longrightarrow> service_accepted E (vs_calls st') token"
  by (auto simp: solveCheckboxCaptcha_def act_bind_Inr act_fail_Inr act_return_Inr check_accepted split: if_splits)

lemma guesses_accepted:
  "try_guesses_v2 E R cnt us st = (st', Inr token) \<Longrightarrow> service_accepted E (vs_calls st') token"
  by (induction us arbitrary: st)
    (auto simp: act_bind_Inr act_fail_Inr act_return_Inr check_accepted split: if_splits)

lemma slider_accepted:
  assumes "solveSliderCaptcha E R settings st = (st', Inr token)"
  shows "service_accepted E (vs_calls st') token"
proof -
  obtain puzzle :: sliderContent and st1 where a:
    "(case rankSliderGuessesV2 (v2_weight E (sl_Image puzzle)) (sl_Image puzzle) (sl_Size puzzle) (sl_Steps puzzle) of
       None \<Rightarrow> act_fail V2Panic
     | Some (Inl e) \<Rightarrow> act_fail (V2Failed e)
     | Some (Inr guesses) \<Rightarrow>
         (let limit = (if int (length guesses) < sl_Attempts puzzle then int (length guesses) else sl_Attempts puzzle) in
          if limit \<le> 0 then act_fail (V2Failed ''slider has no attempts available'')
          else act_bind (componentDone E (captchaV2BaseValues (rn_sessionToken R)
                  @ [(''browser_fp'', rn_browserFP R), (''device'', rn_device R)]))
                (\<lambda>_. try_guesses_v2 E R (int (length guesses)) (take (nat limit) guesses)))) st1 = (st', Inr token)"
    using assms unfolding solveSliderCaptcha_def act_bind_Inr by blast
  let ?r = "rankSliderGuessesV2 (v2_weight E (sl_Image puzzle)) (sl_Image puzzle) (sl_Size puzzle) (sl_Steps puzzle)"
  consider "?r = None" | e where "?r = Some (Inl e)" | us where "?r = Some (Inr us)" by (metis option.exhaust sum.exhaust)
  then show ?thesis
    using a by cases (auto simp: act_fail_Inr act_bind_Inr Let_def guesses_accepted split: if_splits)
qed

lemma loop_accepted:
  "challenge_loop E R settings showType st = (st', Inr token) \<Longrightarrow> service_accepted E (vs_calls st') token"
proof (induction E R settings showType st rule: challenge_loop.induct)
  case (1 E R settings showType st)
  obtain st1 r where r: "solve_challenge E R settings showType st = (st1, r)" by fastforce
  show ?case
  proof (cases r)
    case (Inr t)
    then have "st1 = st' \<and> t = token" using 1(2) r by (subst (asm) challenge_loop.simps) simp
    then show ?thesis using r Inr slider_accepted checkbox_accepted
      by (auto simp: solve_challenge_def act_fail_def split: if_splits)
  next
    case (Inl err)
    then obtain t where "next_challenge settings showType err = Some t" "challenge_loop E R settings t st1 = (st', Inr token)"
      using 1(2) r by (subst (asm) challenge_loop.simps) (auto split: option.splits)
    then show ?thesis using 1(1) [OF r [symmetric] Inl] by blast
  qed
qed

lemma solveOnce_accepted:
  assumes "solveOnce E saved c st = (st', Inr token)"
  shows "solved E (vs_calls st') token"
proof -
  obtain R settings t st1 st2 where a: "challenge_loop E R settings t st1 = (st2, Inr token)"
    "act_ignore (captchaRequest E ''captchaNotRobot.endSession'' (captchaV2BaseValues (ce_SessionToken c))) st2 = (st', Inr ())"
    using assms
    by (auto simp: solveOnce_def act_bind_Inr act_fail_Inr act_return_Inr Let_def split: if_splits)
  then have "\<exists>form. vs_calls st' = vs_calls st2 @ [(''captchaNotRobot.endSession'', form)]"
    by (auto simp: act_ignore_def captchaRequest_def Let_def)
  then show ?thesis using loop_accepted [OF a(1)] by (auto simp: solved_def)
qed

lemma attempts_accepted:
  "v2_attempts E saved c n st = (st', Inr token) \<Longrightarrow> solved E (vs_calls st') token"
proof (induction n arbitrary: st)
  case 0
  then show ?case by (simp add: act_fail_def)
next
  case (Suc n)
  obtain st1 r where r: "solveOnce E saved c st = (st1, r)" by fastforce
  show ?case
  proof (cases r)
    case (Inr t)
    then show ?thesis using Suc.prems r solveOnce_accepted by auto
  next
    case (Inl e)
    then have "\<exists>st2. v2_attempts E saved c n st2 = (st', Inr token)"
      using Suc.prems r by (auto simp: act_bind_Inr split: v2_error.splits)
    then show ?thesis using Suc.IH by blast
  qed
qed

lemma call_accepted:
  assumes "callCaptchaNotRobot (captcha_env.truncate E) tok hash ua saved l = (l', Inr token)"
  shows "solved E l' token"
proof -
  obtain base form l1 l2 resp where a: "post (captcha_env.truncate E) ''captchaNotRobot.check'' form l1 = (l2, Inr resp)"
    and v: "call_verdict (captcha_env.truncate E) base resp l2 = (l', Inr token)"
    using assms unfolding callCaptchaNotRobot_def Let_def act_bind_Inr act_wrap_Inr by blast
  have l2: "l2 = l1 @ [(''captchaNotRobot.check'', form)]" using a by (simp add: post_Inr)
  obtain respObj where o: "get_obj resp ''response'' = Some respObj" using v
    by (cases "get_obj resp ''response''") (simp_all add: call_verdict_def act_fail_def)
  then have o: "get_obj resp ''response'' = Some respObj" "get_str respObj ''status'' = Some ''OK''"
    "str_field respObj ''success_token'' = token" "token \<noteq> []"
    and e: "act_ignore (post (captcha_env.truncate E) ''captchaNotRobot.endSession'' base) (l1 @ [(''captchaNotRobot.check'', form)]) = (l', Inr ())"
    using v l2 by (auto simp: call_verdict_def act_fail_Inr act_bind_Inr act_return_Inr Let_def split: if_splits)
  have "str_field respObj ''status'' = ''OK''" using o(2) by (simp add: str_field_def)
  then have "service_accepted E (l1 @ [(''captchaNotRobot.check'', form)]) token"
    using a l2 o fold_ok str_field_stringify [of respObj "''status''" E] str_field_stringify [of respObj "''success_token''" E]
    by (auto simp: service_accepted_def post_Inr)
  then show ?thesis using e by (auto simp: solved_def act_ignore_def post_def Let_def)
qed

lemma v1_accepted:
  assumes "solve_v1 (captcha_env.truncate E) saved useSlider c l = (l', Inr token)"
  shows "solved E l' token"
proof (cases useSlider)
  case True
  then obtain hash ua init l1 where
    "callCaptchaNotRobotWithSliderPOC (captcha_env.truncate E) (ce_SessionToken c) hash ua init saved l1 = (l', Inr token)"
    using assms by (auto simp: solve_v1_def act_bind_Inr act_wrap_Inr Let_def)
  from slider_poc_accepted [OF this] show ?thesis using accepted_service by (auto simp: solved_def)
next
  case False
  then obtain hash ua l1 where "callCaptchaNotRobot (captcha_env.truncate E) (ce_SessionToken c) hash ua saved l1 = (l', Inr token)"
    using assms by (auto simp: solve_v1_def act_bind_Inr act_wrap_Inr Let_def)
  then show ?thesis by (rule call_accepted)
qed

section \<open>Properties\<close>

text \<open>The loop over the challenges ends although the service chooses the next challenge: whatever it
  answers, at most two challenges are tried, because the slider never asks for another one and the
  checkbox never for itself.\<close>

theorem challenge_loop_bounded:
  "challenge_fuel E R sliderSettings 2 showType st = Some (challenge_loop E R sliderSettings showType st)"
  by (rule challenge_fuel_loop) (simp add: rounds_left_def)

text \<open>C20: a captcha counts as solved only when it is: whatever solver was tried and whatever the service answered,
  a token that the automatic solver returns is not empty and was issued by the service in its answer
  to the last check, which had the status OK, and the session was ended after that.\<close>

theorem captcha_solved_genuine:
  assumes "solveVkCaptcha E solverVersion saved useSlider c st = (st', Inr token)"
  shows "solved E (vs_calls st') token"
proof -
  have v1: "solved E (vs_calls st') token"
    if "(case solve_v1 (captcha_env.truncate E) saved useSlider c (vs_calls st1) of
               (l, Inr token) \<Rightarrow> (st1\<lparr>vs_calls := l\<rparr>, Inr token)
             | (l, Inl (Failed e)) \<Rightarrow> (st1\<lparr>vs_calls := l\<rparr>, Inl (V2Failed e))
             | (l, Inl Panicked) \<Rightarrow> (st1\<lparr>vs_calls := l\<rparr>, Inl V2Panic)) = (st', Inr token)" for st1
    using that v1_accepted by (fastforce split: prod.splits sum.splits act_error.splits)
  show ?thesis
  proof (cases "\<not> useSlider \<and> \<not> str_EqualFold solverVersion ''v1''")
    case False
    then show ?thesis using assms v1 by (auto simp: solveVkCaptcha_def Let_def split: if_splits)
  next
    case True
    obtain st1 r where r: "solveVkCaptchaV2 E saved c st = (st1, r)" by fastforce
    show ?thesis
    proof (cases r)
      case (Inr t)
      then have "solveVkCaptchaV2 E saved c st = (st', Inr token)"
        using assms True r by (auto simp: solveVkCaptcha_def Let_def split: if_splits)
      then show ?thesis using attempts_accepted by (auto simp: solveVkCaptchaV2_def act_fail_def split: if_splits)
    next
      case (Inl e)
      then show ?thesis using assms True r v1 [of st1]
        by (cases e) (auto simp: solveVkCaptcha_def Let_def split: if_splits)
    qed
  qed
qed

text \<open>A service with a checkbox that accepts every check.\<close>

definition sample_v2 :: v2_env where
  "sample_v2 =
     \<lparr>cp_http = cp_http sample_service, cp_show = (\<lambda>_. ''map''),
      cp_unmarshal = (\<lambda>_. Some (JObj [(''data'', JObj [(''show_captcha_type'', JStr ''checkbox'')])])),
      cp_marshal = (\<lambda>_. []), cp_image = (\<lambda>_. Inl ''decode''), cp_page = (\<lambda>_. Inr ''html''), cp_powInput = (\<lambda>_. Some ''p''),
      cp_difficulty = [], cp_init = (\<lambda>_. None), cp_sha256hex = (\<lambda>_. ''0f''), cp_adFp = ''ad'', cp_browserFp = ''fp'',
      cp_userAgent = ''ua'', v2_get = (\<lambda>_. Inr ''page''), v2_windowInit = (\<lambda>_. Some ''json''), v2_scriptSrc = (\<lambda>_. Some ''script''),
      v2_powInput = (\<lambda>_. Some ''p''), v2_difficulty = (\<lambda>_. Some ''1''), v2_debugInfo = (\<lambda>_. Some ''debug''),
      v2_fmtFloat = (\<lambda>_. ''1''), v2_fp = Inr ''ff'', v2_ctx_done = (\<lambda>_. False), v2_pow_done = (\<lambda>_. False),
      v2_weight = (\<lambda>_ _. 1), v2_cursor = (\<lambda>_ _ _. ''[]'')\<rparr>"

definition sample_captcha_error :: vkCaptchaError where
  "sample_captcha_error = \<lparr>ce_ErrorCode = 14, ce_ErrorMsg = ''Captcha needed'', ce_CaptchaSid = ''7'', ce_CaptchaImg = ''img'',
     ce_RedirectURI = ''u'', ce_IsSound = False, ce_SessionToken = ''s'', ce_CaptchaTs = [], ce_CaptchaAttempt = []\<rparr>"

lemma sample_v2_request:
  "captchaRequest sample_v2 m form st = (st\<lparr>vs_calls := vs_calls st @ [(m, captchaV2EncodeForm form)]\<rparr>,
     Inr [(''response'', JObj (if m = ''captchaNotRobot.check''
         then [(''status'', JStr ''OK''), (''success_token'', JStr ''tok'')] else []))])"
  by (simp add: captchaRequest_def sample_v2_def sample_service_def captcha_env.truncate_def)

lemma sample_v2_check:
  "performCaptchaCheck sample_v2 R a c st =
     (st\<lparr>vs_calls := vs_calls (fst (performCaptchaCheck sample_v2 R a c st))\<rparr>,
      Inr \<lparr>ck2_Status = ''OK'', ck2_SuccessToken = ''tok'', ck2_ShowType = []\<rparr>)"
  by (simp add: performCaptchaCheck_def act_bind_def v2_wrap_def sample_v2_request v2_lift_def parseCaptchaV2Check_def
      captchaV2StringifyAny_def get_obj_def Let_def)

lemma sample_v2_checkbox: "\<exists>st'. solveCheckboxCaptcha sample_v2 R st = (st', Inr ''tok'')"
proof -
  have "\<not> str_EqualFold ''OK'' ''error_limit''" "\<not> str_EqualFold ''OK'' ''bot''" by code_simp+
  then show ?thesis
    by (simp add: solveCheckboxCaptcha_def componentDone_def act_bind_def v2_wrap_def sample_v2_request wait_ctx_def act_return_def
        fold_ok)
      (subst sample_v2_check, simp add: sample_v2_def fold_ok act_return_def)
qed

lemma sample_v2_page:
  "parseCaptchaV2Page sample_v2 ''page'' = Inr \<lparr>pg_PowInput = ''p'', pg_PowDifficulty = 1, pg_ScriptURL = ''script'',
     pg_ShowCaptchaType = ''checkbox'', pg_CaptchaSettings = []\<rparr>"
proof -
  have "str_ParseInt ''1'' = Some 1" by code_simp
  then show ?thesis
    by (simp add: parseCaptchaV2Page_def sample_v2_def init_v2_def field_obj_def field_str_def field_list_def)
qed

lemma sample_v2_pow: "solveCaptchaPoWV2 sample_v2 ''p'' 1 = ''0f''"
proof -
  have "pow_v2_from sample_v2 ''p'' ''0'' 1 (Suc 9999999) = ''0f''"
    by (subst pow_v2_from.simps(2)) (simp add: sample_v2_def)
  then show ?thesis by (simp add: solveCaptchaPoWV2_def)
qed

lemma sample_v2_loop: "\<exists>st'. challenge_loop sample_v2 R settings ''checkbox'' st = (st', Inr ''tok'')"
  using sample_v2_checkbox [of R st] by (subst challenge_loop.simps) (auto simp: solve_challenge_def)

lemma sample_v2_once:
  assumes "vs_debugCache st = Map.empty"
  shows "\<exists>st'. solveOnce sample_v2 None sample_captcha_error st = (st', Inr ''tok'')"
proof -
  have page: "get_page sample_v2 url s = (s\<lparr>vs_calls := vs_calls s @ [(''GET'', url)]\<rparr>, Inr ''page'')" for url s
    by (simp add: get_page_def sample_v2_def)
  have e: "v2_fp sample_v2 = Inr ''ff''" "v2_debugInfo sample_v2 b = Some ''debug''" for b by (simp_all add: sample_v2_def)
  define F where "F R s = fst (challenge_loop sample_v2 R [] ''checkbox'' s)" for R s
  have loop: "challenge_loop sample_v2 R [] ''checkbox'' s = (F R s, Inr ''tok'')" for R s
    using sample_v2_loop [of R "[]" s] by (auto simp: F_def)
  show ?thesis
    using assms
    by (simp add: solveOnce_def act_bind_def page v2_lift_def sample_v2_page sample_v2_pow v2_wrap_def sample_v2_request e
        fetchDebugInfo_def sample_captcha_error_def slider_settings_def Let_def act_ignore_def act_return_def loop)
qed

theorem captcha_solved_genuine_witness:
  "solved sample_v2 (vs_calls (fst (solveVkCaptcha sample_v2 ''v2'' None False sample_captcha_error
     \<lparr>vs_calls = [], vs_debugCache = Map.empty\<rparr>))) ''tok''"
proof -
  have v: "\<not> str_EqualFold ''v2'' ''v1''" by code_simp
  have f: "ce_SessionToken sample_captcha_error = ''s''" "ce_RedirectURI sample_captcha_error = ''u''"
    by (simp_all add: sample_captcha_error_def)
  obtain st' where "solveOnce sample_v2 None sample_captcha_error \<lparr>vs_calls = [], vs_debugCache = Map.empty\<rparr> = (st', Inr ''tok'')"
    using sample_v2_once [of "\<lparr>vs_calls = [], vs_debugCache = Map.empty\<rparr>"] by auto
  then have "solveVkCaptchaV2 sample_v2 None sample_captcha_error \<lparr>vs_calls = [], vs_debugCache = Map.empty\<rparr> = (st', Inr ''tok'')"
    by (simp add: solveVkCaptchaV2_def captchaV2MaxAttempts_def numeral_2_eq_2 f)
  then have run: "solveVkCaptcha sample_v2 ''v2'' None False sample_captcha_error
     \<lparr>vs_calls = [], vs_debugCache = Map.empty\<rparr> = (st', Inr ''tok'')"
    using v by (simp add: solveVkCaptcha_def f)
  from captcha_solved_genuine [OF this] show ?thesis using run by simp
qed

end
