(* ===== verification/Udp_Listener.thy ===== *)
theory Udp_Listener
  imports Turn_Prelude "HOL-Library.Sublist"
begin

text \<open>
  The UDP listener of the server (\<open>server/udp_listener.go\<close>): one socket is shared by all peers, and the
  listener turns it into one packet connection per remote address. The read loop, the callers of
  \<open>Accept\<close> and of the methods of the connections, and \<open>Close\<close> run concurrently; every action that the
  lock, a channel or an atomic makes indivisible is a step. \<open>filter\<close> is the accept filter (the test for
  a DTLS handshake of the DTLS library), \<open>room q p\<close> tells whether the packet buffer of the transport
  library takes another packet.
\<close>

section \<open>State\<close>

definition udpReceiveMTU :: nat where "udpReceiveMTU = 8192"

definition acceptBacklog :: nat where "acceptBacklog = 128"

datatype conn_stage = Waiting | Taken | Accepted | Refused | Closing | Unlisted | Closed

record udpPacketConn =
  uc_rAddr :: string
  uc_buffer :: "bytes list"
  uc_bufferClosed :: bool
  uc_stage :: conn_stage
  uc_read :: "bytes list"
  uc_since :: nat

datatype read_loop = Reading | Writing nat bytes | ReadDone

datatype close_phase = NotClosing | Draining | WaitingReaders | CloseDone

text \<open>\<open>ul_heap\<close> holds the connections in the order of their creation, \<open>ul_conns\<close> and \<open>ul_acceptCh\<close> refer to
  them by position; \<open>ul_seen\<close> is the history of the datagrams, and \<open>uc_read\<close> and \<open>uc_since\<close> are what a
  connection has handed out and the position in the history at which it was created.\<close>

record udpPacketListener =
  ul_accepting :: bool
  ul_acceptCh :: "nat list"
  ul_conns :: "string \<rightharpoonup> nat"
  ul_connWG :: int
  ul_socketOpen :: bool
  ul_reader :: read_loop
  ul_close :: close_phase
  ul_heap :: "udpPacketConn list"
  ul_seen :: "(string \<times> bytes) list"

definition newUDPPacketListener :: udpPacketListener where
  "newUDPPacketListener =
     \<lparr>ul_accepting = True, ul_acceptCh = [], ul_conns = Map.empty, ul_connWG = 1, ul_socketOpen = True,
      ul_reader = Reading, ul_close = NotClosing, ul_heap = [], ul_seen = []\<rparr>"

definition set_conn :: "nat \<Rightarrow> (udpPacketConn \<Rightarrow> udpPacketConn) \<Rightarrow> udpPacketListener \<Rightarrow> udpPacketListener" where
  "set_conn c f l = l\<lparr>ul_heap := (ul_heap l)[c := f (ul_heap l ! c)]\<rparr>"

text \<open>The lock is held while \<open>Close\<close> drains the backlog.\<close>

definition lock_free :: "udpPacketListener \<Rightarrow> bool" where
  "lock_free l \<longleftrightarrow> ul_close l \<noteq> Draining"

section \<open>The read loop\<close>

definition new_udp_conn :: "string \<Rightarrow> nat \<Rightarrow> udpPacketConn" where
  "new_udp_conn raddr since =
     \<lparr>uc_rAddr = raddr, uc_buffer = [], uc_bufferClosed = False, uc_stage = Waiting, uc_read = [], uc_since = since\<rparr>"

definition getConn :: "(bytes \<Rightarrow> bool) \<Rightarrow> string \<Rightarrow> bytes \<Rightarrow> udpPacketListener \<Rightarrow> udpPacketListener \<times> nat option" where
  "getConn accept_filter raddr buf l =
     (case ul_conns l raddr of
        Some c \<Rightarrow> (l, Some c)
      | None \<Rightarrow>
          if \<not> ul_accepting l then (l, None)
          else if \<not> accept_filter buf then (l, None)
          else (case try_send acceptBacklog (ul_acceptCh l) (length (ul_heap l)) of
                  None \<Rightarrow> (l, None)
                | Some ch \<Rightarrow>
                    (l\<lparr>ul_acceptCh := ch, ul_conns := (ul_conns l)(raddr \<mapsto> length (ul_heap l)),
                       ul_heap := ul_heap l @ [new_udp_conn raddr (length (ul_seen l) - 1)]\<rparr>, Some (length (ul_heap l)))))"

text \<open>A datagram is read and its connection is looked up. The step is the lookup: the datagram may have left a
  socket that is closed by then.\<close>

definition read_datagram :: "(bytes \<Rightarrow> bool) \<Rightarrow> string \<Rightarrow> bytes \<Rightarrow> udpPacketListener \<Rightarrow> udpPacketListener" where
  "read_datagram accept_filter raddr datagram l =
     (let buf = take udpReceiveMTU datagram;
          (l1, conn) = getConn accept_filter raddr buf (l\<lparr>ul_seen := ul_seen l @ [(raddr, buf)]\<rparr>)
      in l1\<lparr>ul_reader := (case conn of None \<Rightarrow> Reading | Some c \<Rightarrow> Writing c buf)\<rparr>)"

text \<open>\<open>dispatchMsg\<close> writes to the buffer of the connection outside the lock; an error is only logged.\<close>

definition buffer_write :: "(bytes list \<Rightarrow> bytes \<Rightarrow> bool) \<Rightarrow> bytes \<Rightarrow> udpPacketConn \<Rightarrow> udpPacketConn" where
  "buffer_write room p u =
     (if \<not> uc_bufferClosed u \<and> room (uc_buffer u) p then u\<lparr>uc_buffer := uc_buffer u @ [p]\<rparr> else u)"

definition dispatchMsg_write :: "(bytes list \<Rightarrow> bytes \<Rightarrow> bool) \<Rightarrow> nat \<Rightarrow> bytes \<Rightarrow> udpPacketListener \<Rightarrow> udpPacketListener" where
  "dispatchMsg_write room c p l = (set_conn c (buffer_write room p) l)\<lparr>ul_reader := Reading\<rparr>"

section \<open>Accept, the connections, Close\<close>

text \<open>\<open>Accept\<close> receives a connection from the channel and counts it afterwards.\<close>

definition accept_take :: "udpPacketListener \<Rightarrow> udpPacketListener" where
  "accept_take l =
     (case ul_acceptCh l of [] \<Rightarrow> l
      | c # ch \<Rightarrow> set_conn c (\<lambda>u. u\<lparr>uc_stage := Taken\<rparr>) (l\<lparr>ul_acceptCh := ch\<rparr>))"

definition accept_count :: "nat \<Rightarrow> udpPacketListener \<Rightarrow> udpPacketListener" where
  "accept_count c l = set_conn c (\<lambda>u. u\<lparr>uc_stage := Accepted\<rparr>) (l\<lparr>ul_connWG := ul_connWG l + 1\<rparr>)"

text \<open>What \<open>Accept\<close> returns when it takes no connection.\<close>

definition accept_fails :: "udpPacketListener \<Rightarrow> bool" where
  "accept_fails l \<longleftrightarrow> ul_reader l = ReadDone \<or> ul_close l \<noteq> NotClosing"

definition conn_ReadFrom :: "nat \<Rightarrow> udpPacketListener \<Rightarrow> udpPacketListener \<times> (bytes \<times> string) option" where
  "conn_ReadFrom c l =
     (case uc_buffer (ul_heap l ! c) of
        [] \<Rightarrow> (l, None)
      | p # q \<Rightarrow> (set_conn c (\<lambda>u. u\<lparr>uc_buffer := q, uc_read := uc_read u @ [p]\<rparr>) l, Some (p, uc_rAddr (ul_heap l ! c))))"

text \<open>A write goes to the remote address of the connection, whatever address is given.\<close>

definition conn_WriteTo :: "nat \<Rightarrow> bool \<Rightarrow> bytes \<Rightarrow> string \<Rightarrow> udpPacketListener \<Rightarrow> (string \<times> bytes) option" where
  "conn_WriteTo c deadline_exceeded p addr l =
     (if deadline_exceeded \<or> \<not> ul_socketOpen l then None else Some (uc_rAddr (ul_heap l ! c), p))"

text \<open>\<open>Close\<close> of a connection in its three steps.\<close>

definition conn_close1 :: "nat \<Rightarrow> udpPacketListener \<Rightarrow> udpPacketListener" where
  "conn_close1 c l = set_conn c (\<lambda>u. u\<lparr>uc_stage := Closing\<rparr>) (l\<lparr>ul_connWG := ul_connWG l - 1\<rparr>)"

definition conn_close2 :: "nat \<Rightarrow> udpPacketListener \<Rightarrow> udpPacketListener" where
  "conn_close2 c l =
     set_conn c (\<lambda>u. u\<lparr>uc_stage := Unlisted\<rparr>) (l\<lparr>ul_conns := (ul_conns l)(uc_rAddr (ul_heap l ! c) := None)\<rparr>)"

definition conn_close3 :: "nat \<Rightarrow> udpPacketListener \<Rightarrow> udpPacketListener" where
  "conn_close3 c l = set_conn c (\<lambda>u. u\<lparr>uc_stage := Closed, uc_bufferClosed := True\<rparr>) l"

text \<open>\<open>Close\<close> of the listener: it begins, drains the backlog under the lock, and gives up its own count; the
  socket is closed when the count is zero.\<close>

definition close_begin :: "udpPacketListener \<Rightarrow> udpPacketListener" where
  "close_begin l = l\<lparr>ul_accepting := False, ul_close := Draining\<rparr>"

definition close_drain :: "udpPacketListener \<Rightarrow> udpPacketListener" where
  "close_drain l =
     (case ul_acceptCh l of
        [] \<Rightarrow> l\<lparr>ul_close := WaitingReaders, ul_connWG := ul_connWG l - 1\<rparr>
      | c # ch \<Rightarrow>
          set_conn c (\<lambda>u. u\<lparr>uc_stage := Refused\<rparr>)
            (l\<lparr>ul_acceptCh := ch, ul_conns := (ul_conns l)(uc_rAddr (ul_heap l ! c) := None)\<rparr>))"

section \<open>Steps\<close>

text \<open>What can be observed of a step: a datagram that the socket delivers, the address of a connection that \<open>Accept\<close> takes, a
  packet that a connection hands to its reader with the address it gives, from a connection that is listed or from one
  that has been taken off the list, and the ends.\<close>

datatype udp_label = Datagram string bytes | Offered string | Handed string bytes | HandedLate string bytes
  | HungUp string | Shut | Refused_conn string | Internal

definition read_label :: "nat \<Rightarrow> udpPacketListener \<Rightarrow> udp_label" where
  "read_label c l =
     (case snd (conn_ReadFrom c l) of
        None \<Rightarrow> Internal
      | Some (p, a) \<Rightarrow> if ul_conns l a = Some c then Handed a p else HandedLate a p)"

definition drain_label :: "udpPacketListener \<Rightarrow> udp_label" where
  "drain_label l = (case ul_acceptCh l of [] \<Rightarrow> Internal | c # ch \<Rightarrow> Refused_conn (uc_rAddr (ul_heap l ! c)))"

inductive udp_listener_step ::
  "(bytes \<Rightarrow> bool) \<Rightarrow> (bytes list \<Rightarrow> bytes \<Rightarrow> bool) \<Rightarrow> udp_label \<Rightarrow> udpPacketListener \<Rightarrow> udpPacketListener \<Rightarrow> bool"
  for accept_filter room
where
  datagram: "ul_reader l = Reading \<Longrightarrow> lock_free l
     \<Longrightarrow> udp_listener_step accept_filter room (Datagram raddr (take udpReceiveMTU datagram)) l (read_datagram accept_filter raddr datagram l)"
| deliver: "ul_reader l = Writing c p \<Longrightarrow> udp_listener_step accept_filter room Internal l (dispatchMsg_write room c p l)"
| read_error: "ul_reader l = Reading \<Longrightarrow> udp_listener_step accept_filter room Internal l (l\<lparr>ul_reader := ReadDone\<rparr>)"
| accept1: "ul_acceptCh l \<noteq> []
     \<Longrightarrow> udp_listener_step accept_filter room (Offered (uc_rAddr (ul_heap l ! hd (ul_acceptCh l)))) l (accept_take l)"
| accept2: "c < length (ul_heap l) \<Longrightarrow> uc_stage (ul_heap l ! c) = Taken
     \<Longrightarrow> udp_listener_step accept_filter room Internal l (accept_count c l)"
| read_conn: "c < length (ul_heap l) \<Longrightarrow> uc_stage (ul_heap l ! c) \<notin> {Waiting, Taken, Refused}
     \<Longrightarrow> udp_listener_step accept_filter room (read_label c l) l (fst (conn_ReadFrom c l))"
| close_conn1: "c < length (ul_heap l) \<Longrightarrow> uc_stage (ul_heap l ! c) = Accepted
     \<Longrightarrow> udp_listener_step accept_filter room Internal l (conn_close1 c l)"
| close_conn2: "c < length (ul_heap l) \<Longrightarrow> uc_stage (ul_heap l ! c) = Closing \<Longrightarrow> lock_free l
     \<Longrightarrow> udp_listener_step accept_filter room (HungUp (uc_rAddr (ul_heap l ! c))) l (conn_close2 c l)"
| close_conn3: "c < length (ul_heap l) \<Longrightarrow> uc_stage (ul_heap l ! c) = Unlisted
     \<Longrightarrow> udp_listener_step accept_filter room Internal l (conn_close3 c l)"
| close1: "ul_close l = NotClosing \<Longrightarrow> udp_listener_step accept_filter room Shut l (close_begin l)"
| close2: "ul_close l = Draining \<Longrightarrow> udp_listener_step accept_filter room (drain_label l) l (close_drain l)"
| close_socket: "ul_connWG l = 0 \<Longrightarrow> ul_socketOpen l
     \<Longrightarrow> udp_listener_step accept_filter room Internal l (l\<lparr>ul_socketOpen := False\<rparr>)"
| close3: "ul_close l = WaitingReaders \<Longrightarrow> \<not> ul_socketOpen l \<Longrightarrow> ul_reader l = ReadDone
     \<Longrightarrow> udp_listener_step accept_filter room Internal l (l\<lparr>ul_close := CloseDone\<rparr>)"

abbreviation udp_step :: "(bytes \<Rightarrow> bool) \<Rightarrow> (bytes list \<Rightarrow> bytes \<Rightarrow> bool) \<Rightarrow> udpPacketListener \<Rightarrow> udpPacketListener \<Rightarrow> bool" where
  "udp_step accept_filter room l l' \<equiv> \<exists>lab. udp_listener_step accept_filter room lab l l'"

section \<open>Invariant\<close>

definition listed :: "conn_stage \<Rightarrow> bool" where
  "listed s \<longleftrightarrow> s \<in> {Waiting, Taken, Accepted, Closing}"

definition accepted_count :: "udpPacketConn list \<Rightarrow> int" where
  "accepted_count us = (\<Sum>u\<leftarrow>us. if uc_stage u = Accepted then 1 else 0)"

definition own_count :: "close_phase \<Rightarrow> int" where
  "own_count p = (if p \<in> {NotClosing, Draining} then 1 else 0)"

text \<open>The datagrams that came from the address of a connection since its creation.\<close>

definition received :: "udpPacketListener \<Rightarrow> udpPacketConn \<Rightarrow> bytes list" where
  "received l u = map snd (filter (\<lambda>d. fst d = uc_rAddr u) (drop (uc_since u) (ul_seen l)))"

text \<open>One connection: it is listed under its address until it is unlisted, and what it holds and has handed out
  came from its address in this order; the last datagram is still being delivered while the read loop
  writes it.\<close>

definition traffic_ok :: "read_loop \<Rightarrow> nat \<Rightarrow> bytes list \<Rightarrow> bytes list \<Rightarrow> bool" where
  "traffic_ok reader c held arrived \<longleftrightarrow>
     (case reader of
        Writing c' p \<Rightarrow> if c' = c then (\<exists>ys. arrived = ys @ [p] \<and> subseq held ys) else subseq held arrived
      | _ \<Rightarrow> subseq held arrived)"

definition conn_ok :: "(bytes \<Rightarrow> bool) \<Rightarrow> udpPacketListener \<Rightarrow> nat \<Rightarrow> bool" where
  "conn_ok accept_filter l c \<longleftrightarrow>
     (let u = ul_heap l ! c in
       (listed (uc_stage u) \<longleftrightarrow> ul_conns l (uc_rAddr u) = Some c) \<and>
       (uc_bufferClosed u \<longleftrightarrow> uc_stage u = Closed) \<and>
       uc_since u < length (ul_seen l) \<and> fst (ul_seen l ! uc_since u) = uc_rAddr u \<and>
       accept_filter (snd (ul_seen l ! uc_since u)) \<and>
       traffic_ok (ul_reader l) c (uc_read u @ uc_buffer u) (received l u))"

definition queue_ok :: "udpPacketListener \<Rightarrow> bool" where
  "queue_ok l \<longleftrightarrow> distinct (ul_acceptCh l) \<and> set (ul_acceptCh l) = {c. c < length (ul_heap l) \<and> uc_stage (ul_heap l ! c) = Waiting}"

definition count_ok :: "udpPacketListener \<Rightarrow> bool" where
  "count_ok l \<longleftrightarrow> ul_connWG l = own_count (ul_close l) + accepted_count (ul_heap l)"

definition phase_ok :: "udpPacketListener \<Rightarrow> bool" where
  "phase_ok l \<longleftrightarrow> (ul_accepting l \<longleftrightarrow> ul_close l = NotClosing) \<and>
     (ul_close l \<in> {WaitingReaders, CloseDone} \<longrightarrow> ul_acceptCh l = []) \<and>
     (\<not> ul_socketOpen l \<longrightarrow> ul_close l \<in> {WaitingReaders, CloseDone})"

definition refs_ok :: "udpPacketListener \<Rightarrow> bool" where
  "refs_ok l \<longleftrightarrow> (\<forall>a c. ul_conns l a = Some c \<longrightarrow> c < length (ul_heap l) \<and> uc_rAddr (ul_heap l ! c) = a) \<and>
     (\<forall>c p. ul_reader l = Writing c p \<longrightarrow> c < length (ul_heap l))"

definition udp_inv :: "(bytes \<Rightarrow> bool) \<Rightarrow> udpPacketListener \<Rightarrow> bool" where
  "udp_inv accept_filter l \<longleftrightarrow>
     (\<forall>c < length (ul_heap l). conn_ok accept_filter l c) \<and> queue_ok l \<and> count_ok l \<and> phase_ok l \<and> refs_ok l"

lemma set_conn_simps [simp]:
  "ul_heap (set_conn c f l) = (ul_heap l)[c := f (ul_heap l ! c)]" "ul_conns (set_conn c f l) = ul_conns l"
  "ul_acceptCh (set_conn c f l) = ul_acceptCh l" "ul_connWG (set_conn c f l) = ul_connWG l"
  "ul_reader (set_conn c f l) = ul_reader l" "ul_close (set_conn c f l) = ul_close l"
  "ul_accepting (set_conn c f l) = ul_accepting l" "ul_socketOpen (set_conn c f l) = ul_socketOpen l"
  "ul_seen (set_conn c f l) = ul_seen l"
  by (simp_all add: set_conn_def)

lemma accepted_count_update:
  "c < length us \<Longrightarrow> accepted_count (us[c := u]) = accepted_count us + (if uc_stage u = Accepted then 1 else 0)
     - (if uc_stage (us ! c) = Accepted then 1 else 0)"
  by (induction us arbitrary: c) (auto simp: accepted_count_def nth_Cons split: nat.splits)

lemma accepted_count_snoc [simp]:
  "accepted_count (us @ [u]) = accepted_count us + (if uc_stage u = Accepted then 1 else 0)"
  by (simp add: accepted_count_def)

lemma accepted_count_nonneg: "0 \<le> accepted_count us"
  by (induction us) (auto simp: accepted_count_def)

lemma accepted_count_pos: "u \<in> set us \<Longrightarrow> uc_stage u = Accepted \<Longrightarrow> 0 < accepted_count us"
proof (induction us)
  case (Cons v us)
  then show ?case using accepted_count_nonneg [of us] by (auto simp: accepted_count_def)
qed simp

lemma accepted_count_zero: "accepted_count us = 0 \<longleftrightarrow> (\<forall>u \<in> set us. uc_stage u \<noteq> Accepted)"
proof (induction us)
  case (Cons v us)
  then show ?case using accepted_count_nonneg [of us] by (auto simp: accepted_count_def)
qed (simp add: accepted_count_def)

lemma received_cong: "ul_seen l' = ul_seen l \<Longrightarrow> uc_rAddr u' = uc_rAddr u \<Longrightarrow> uc_since u' = uc_since u \<Longrightarrow> received l' u' = received l u"
  by (simp add: received_def)

lemma received_snoc:
  "uc_since u \<le> length (ul_seen l) \<Longrightarrow> ul_seen l' = ul_seen l @ [(a, p)] \<Longrightarrow>
     received l' u = received l u @ (if a = uc_rAddr u then [p] else [])"
  by (simp add: received_def)

text \<open>What a step that changes one connection has to show for it, and that it leaves the others alone.\<close>

lemma conn_frame:
  assumes "conn_ok F l d" and "ul_heap l' ! d = ul_heap l ! d" and "ul_seen l' = ul_seen l" and "ul_reader l' = ul_reader l"
    and "ul_conns l' (uc_rAddr (ul_heap l ! d)) = Some d \<longleftrightarrow> ul_conns l (uc_rAddr (ul_heap l ! d)) = Some d"
  shows "conn_ok F l' d"
  using assms received_cong [of l' l "ul_heap l ! d" "ul_heap l ! d"]
  by (simp add: conn_ok_def Let_def)

lemma conn_change:
  assumes "conn_ok F l c" and "c < length (ul_heap l)" and "ul_heap l' ! c = u'" and "ul_seen l' = ul_seen l" and "ul_reader l' = ul_reader l"
    and "uc_rAddr u' = uc_rAddr (ul_heap l ! c)" and "uc_since u' = uc_since (ul_heap l ! c)"
    and "uc_read u' @ uc_buffer u' = uc_read (ul_heap l ! c) @ uc_buffer (ul_heap l ! c)"
    and "listed (uc_stage u') \<longleftrightarrow> ul_conns l' (uc_rAddr (ul_heap l ! c)) = Some c"
    and "uc_bufferClosed u' \<longleftrightarrow> uc_stage u' = Closed"
  shows "conn_ok F l' c"
  using assms received_cong [of l' l u' "ul_heap l ! c"]
  by (simp add: conn_ok_def Let_def)

lemma inv_conns:
  assumes "udp_inv F l" and "c < length (ul_heap l)"
  shows "conn_ok F l c" and "listed (uc_stage (ul_heap l ! c)) \<longleftrightarrow> ul_conns l (uc_rAddr (ul_heap l ! c)) = Some c"
    and "uc_bufferClosed (ul_heap l ! c) \<longleftrightarrow> uc_stage (ul_heap l ! c) = Closed"
  using assms by (auto simp: udp_inv_def conn_ok_def Let_def)

lemma inv_queue_head:
  assumes "udp_inv F l" and "ul_acceptCh l = c # ch"
  shows "c < length (ul_heap l)" and "uc_stage (ul_heap l ! c) = Waiting"
  using assms by (auto simp: udp_inv_def queue_ok_def)

lemma inv_connI:
  assumes "\<And>c. c < length (ul_heap l) \<Longrightarrow> conn_ok F l c" and "queue_ok l" and "count_ok l" and "phase_ok l" and "refs_ok l"
  shows "udp_inv F l"
  using assms by (simp add: udp_inv_def)

lemma queue_update:
  assumes "queue_ok l" and "c < length (ul_heap l)" and "ul_heap l' = (ul_heap l)[c := u]"
    and "distinct (ul_acceptCh l')" and "set (ul_acceptCh l') = set (ul_acceptCh l) - {c}" and "uc_stage u \<noteq> Waiting"
  shows "queue_ok l'"
proof -
  have "set (ul_acceptCh l') = {d. d < length (ul_heap l) \<and> uc_stage (ul_heap l ! d) = Waiting} - {c}"
    using assms(1,5) by (simp add: queue_ok_def)
  also have "\<dots> = {d. d < length (ul_heap l') \<and> uc_stage (ul_heap l' ! d) = Waiting}"
    using assms(2,3,6) by (force simp: nth_list_update)
  finally show ?thesis using assms(4) by (simp add: queue_ok_def)
qed

lemma refs_update:
  assumes "refs_ok l" and "ul_heap l' = (ul_heap l)[c := u]" and "uc_rAddr u = uc_rAddr (ul_heap l ! c)"
    and "ul_conns l' \<subseteq>\<^sub>m ul_conns l" and "ul_reader l' = ul_reader l"
  shows "refs_ok l'"
proof -
  have "uc_rAddr ((ul_heap l)[c := u] ! d) = uc_rAddr (ul_heap l ! d)" if "d < length (ul_heap l)" for d
    using assms(2,3) that by (cases "d = c") simp_all
  moreover have "ul_conns l a = Some d" if "ul_conns l' a = Some d" for a d
    using assms(4) that by (force simp: map_le_def dom_def)
  ultimately show ?thesis using assms(1,5) unfolding refs_ok_def assms(2) length_list_update by metis
qed

text \<open>A step that changes one connection and not its address list.\<close>

lemma inv_stage:
  assumes inv: "udp_inv F l" and c: "c < length (ul_heap l)"
    and l': "l' = set_conn c f (l\<lparr>ul_connWG := wg\<rparr>)"
    and same: "uc_rAddr (f (ul_heap l ! c)) = uc_rAddr (ul_heap l ! c)" "uc_since (f (ul_heap l ! c)) = uc_since (ul_heap l ! c)"
      "uc_read (f (ul_heap l ! c)) @ uc_buffer (f (ul_heap l ! c)) = uc_read (ul_heap l ! c) @ uc_buffer (ul_heap l ! c)"
    and stage: "listed (uc_stage (f (ul_heap l ! c))) \<longleftrightarrow> listed (uc_stage (ul_heap l ! c))"
      "uc_stage (f (ul_heap l ! c)) = Waiting \<longleftrightarrow> uc_stage (ul_heap l ! c) = Waiting"
      "uc_bufferClosed (f (ul_heap l ! c)) \<longleftrightarrow> uc_stage (f (ul_heap l ! c)) = Closed"
    and wg: "wg = ul_connWG l + (if uc_stage (f (ul_heap l ! c)) = Accepted then 1 else 0) - (if uc_stage (ul_heap l ! c) = Accepted then 1 else 0)"
  shows "udp_inv F l'"
proof (rule inv_connI)
  fix d assume d: "d < length (ul_heap l')"
  show "conn_ok F l' d"
  proof (cases "d = c")
    case True
    then show ?thesis using inv_conns [OF inv c] c same stage
      apply - by (rule conn_change [of F l d l' "f (ul_heap l ! c)"]) (simp_all add: l')
  next
    case False
    then show ?thesis using inv_conns [OF inv, of d] d apply - by (rule conn_frame [of F l d l']) (simp_all add: l')
  qed
next
  show "queue_ok l'" using inv c stage by (auto simp: udp_inv_def queue_ok_def l' nth_list_update)
  show "count_ok l'" using inv c wg by (simp add: udp_inv_def count_ok_def l' accepted_count_update)
  show "phase_ok l'" using inv by (simp add: udp_inv_def phase_ok_def l')
  show "refs_ok l'" using inv c same by (auto simp: udp_inv_def refs_ok_def l' nth_list_update)
qed

lemma set_conn_wg: "set_conn c f l = set_conn c f (l\<lparr>ul_connWG := ul_connWG l\<rparr>)"
  by simp

text \<open>A step that takes a connection off the address list.\<close>

lemma inv_unlist:
  assumes inv: "udp_inv F l" and c: "c < length (ul_heap l)" and "listed (uc_stage (ul_heap l ! c))"
    and l': "l' = set_conn c (\<lambda>u. u\<lparr>uc_stage := s\<rparr>) (l\<lparr>ul_acceptCh := ch, ul_conns := (ul_conns l)(uc_rAddr (ul_heap l ! c) := None)\<rparr>)"
    and s: "\<not> listed s" "s \<noteq> Closed" "uc_stage (ul_heap l ! c) \<noteq> Accepted"
    and ch: "distinct ch" "set ch = set (ul_acceptCh l) - {c}" "ul_acceptCh l = [] \<longrightarrow> ch = []"
  shows "udp_inv F l'"
proof (rule inv_connI)
  have sW: "s \<noteq> Waiting" "s \<noteq> Accepted" using s(1) by (auto simp: listed_def)
  have lc: "ul_conns l (uc_rAddr (ul_heap l ! c)) = Some c" using inv_conns(2) [OF inv c] assms(3) by simp
  fix d assume d: "d < length (ul_heap l')"
  show "conn_ok F l' d"
  proof (cases "d = c")
    case True
    then show ?thesis using inv_conns [OF inv c] c s assms(3)
      apply - by (rule conn_change [of F l d l' "(ul_heap l ! c)\<lparr>uc_stage := s\<rparr>"]) (auto simp: l' listed_def)
  next
    case False
    then show ?thesis using inv_conns [OF inv, of d] d lc apply - by (rule conn_frame [of F l d l']) (auto simp: l')
  qed
next
  have sW: "s \<noteq> Waiting" "s \<noteq> Accepted" using s(1) by (auto simp: listed_def)
  show "queue_ok l'" using inv c ch sW apply - by (rule queue_update [of l c l' "(ul_heap l ! c)\<lparr>uc_stage := s\<rparr>"]) (simp_all add: udp_inv_def l')
  show "count_ok l'" using inv c s(3) sW by (simp add: udp_inv_def count_ok_def l' accepted_count_update)
  show "phase_ok l'" using inv ch(3) by (auto simp: udp_inv_def phase_ok_def l')
  show "refs_ok l'" using inv c apply - by (rule refs_update [of l _ c "(ul_heap l ! c)\<lparr>uc_stage := s\<rparr>"]) (auto simp: udp_inv_def l' map_le_def)
qed

section \<open>Preservation\<close>

lemma subseq_more: "subseq xs ys \<Longrightarrow> subseq xs (ys @ zs)"
  using list_emb_append_mono [of "(=)" xs ys "[]" zs] by simp

lemma inv_datagram:
  assumes inv: "udp_inv F l" and idle: "ul_reader l = Reading"
  shows "udp_inv F (read_datagram F a datagram l)"
proof -
  define buf where "buf = take udpReceiveMTU datagram"
  define l0 where "l0 = l\<lparr>ul_seen := ul_seen l @ [(a, buf)]\<rparr>"
  obtain l1 r where g: "getConn F a buf l0 = (l1, r)" by fastforce
  define l' where "l' = l1\<lparr>ul_reader := (case r of None \<Rightarrow> Reading | Some c \<Rightarrow> Writing c buf)\<rparr>"
  have l': "read_datagram F a datagram l = l'" unfolding read_datagram_def Let_def buf_def [symmetric] l0_def [symmetric] g l'_def by simp
  have rec: "received l' u = received l u @ (if a = uc_rAddr u then [buf] else [])" if "uc_since u < length (ul_seen l)" for u
    using that g by (intro received_snoc) (auto simp: l'_def l0_def getConn_def split: option.splits if_splits)
  have keep: "conn_ok F l' c" if c: "c < length (ul_heap l)" and hp: "ul_heap l' ! c = ul_heap l ! c"
    and cn: "ul_conns l' (uc_rAddr (ul_heap l ! c)) = Some c \<longleftrightarrow> ul_conns l (uc_rAddr (ul_heap l ! c)) = Some c"
    and sn: "ul_seen l' = ul_seen l @ [(a, buf)]"
    and rd: "ul_reader l' = Reading \<or> (\<exists>c'. ul_reader l' = Writing c' buf \<and> (c' = c \<longrightarrow> uc_rAddr (ul_heap l ! c) = a))" for c
  proof -
    let ?u = "ul_heap l ! c"
    have ok: "conn_ok F l c" by (rule inv_conns(1) [OF inv c])
    then have "subseq (uc_read ?u @ uc_buffer ?u) (received l ?u)" "uc_since ?u < length (ul_seen l)"
      by (auto simp: conn_ok_def Let_def idle traffic_ok_def)
    then have "traffic_ok (ul_reader l') c (uc_read ?u @ uc_buffer ?u) (received l' ?u)"
      using rd by (auto simp: rec traffic_ok_def intro: subseq_more)
    then show ?thesis using ok by (simp add: conn_ok_def Let_def hp cn sn nth_append)
  qed
  consider (old) c where "ul_conns l a = Some c" "r = Some c" "l1 = l0" | (drop) "r = None" "l1 = l0"
    | (new) "ul_conns l a = None" "ul_accepting l" "F buf" "r = Some (length (ul_heap l))"
        "l1 = l0\<lparr>ul_acceptCh := ul_acceptCh l @ [length (ul_heap l)], ul_conns := (ul_conns l)(a \<mapsto> length (ul_heap l)),
                 ul_heap := ul_heap l @ [new_udp_conn a (length (ul_seen l))]\<rparr>"
    using g by (auto simp: getConn_def l0_def split: option.splits if_splits)
  then show ?thesis unfolding l'
  proof cases
    case old: old
    have "c < length (ul_heap l)" "uc_rAddr (ul_heap l ! c) = a" using inv old(1) by (auto simp: udp_inv_def refs_ok_def)
    then show "udp_inv F l'" using inv old
      by (intro inv_connI keep)
        (auto simp: udp_inv_def l'_def l0_def queue_ok_def count_ok_def phase_ok_def refs_ok_def)
  next
    case drop
    then show "udp_inv F l'" using inv
      by (intro inv_connI keep)
        (auto simp: udp_inv_def l'_def l0_def queue_ok_def count_ok_def phase_ok_def refs_ok_def)
  next
    case new
    let ?n = "length (ul_heap l)"
    have refs: "ul_conns l b = Some c \<Longrightarrow> c < ?n" for b c using inv by (auto simp: udp_inv_def refs_ok_def)
    show "udp_inv F l'"
    proof (rule inv_connI)
      fix c assume c: "c < length (ul_heap l')"
      show "conn_ok F l' c"
      proof (cases "c = ?n")
        case True
        have "received l' (new_udp_conn a (length (ul_seen l))) = [buf]"
          using new by (simp add: received_def l'_def l0_def new_udp_conn_def)
        then show ?thesis using new True
          by (simp add: conn_ok_def Let_def l'_def l0_def new_udp_conn_def listed_def traffic_ok_def)
      next
        case False
        then have "c < ?n" using c new by (simp add: l'_def l0_def)
        moreover have "ul_conns l' (uc_rAddr (ul_heap l ! c)) = Some c \<longleftrightarrow> ul_conns l (uc_rAddr (ul_heap l ! c)) = Some c"
          using new False by (auto simp: l'_def l0_def)
        ultimately show ?thesis using new False
          by (intro keep) (auto simp: l'_def l0_def nth_append)
      qed
    next
      have "?n \<notin> set (ul_acceptCh l)" using inv by (auto simp: udp_inv_def queue_ok_def)
      then show "queue_ok l'" using inv new
        by (auto simp: udp_inv_def queue_ok_def l'_def l0_def new_udp_conn_def nth_append less_Suc_eq)
      show "count_ok l'" using inv new by (simp add: udp_inv_def count_ok_def l'_def l0_def new_udp_conn_def)
      show "phase_ok l'" using inv new by (auto simp: udp_inv_def phase_ok_def l'_def l0_def)
      show "refs_ok l'" using inv new refs
        by (auto simp: udp_inv_def refs_ok_def l'_def l0_def new_udp_conn_def nth_append dest: refs)
    qed
  qed
qed

lemma inv_deliver:
  assumes inv: "udp_inv F l" and w: "ul_reader l = Writing c p"
  shows "udp_inv F (dispatchMsg_write room c p l)"
proof (rule inv_connI)
  let ?l' = "dispatchMsg_write room c p l"
  have c: "c < length (ul_heap l)" using inv w by (simp add: udp_inv_def refs_ok_def)
  let ?u = "ul_heap l ! c"
  have same: "uc_rAddr (buffer_write room p u) = uc_rAddr u" "uc_since (buffer_write room p u) = uc_since u"
    "uc_stage (buffer_write room p u) = uc_stage u" "uc_bufferClosed (buffer_write room p u) = uc_bufferClosed u" for u
    by (simp_all add: buffer_write_def)
  have fld: "ul_seen ?l' = ul_seen l" "ul_conns ?l' = ul_conns l" "ul_reader ?l' = Reading" by (simp_all add: dispatchMsg_write_def)
  have hp: "ul_heap ?l' = (ul_heap l)[c := buffer_write room p ?u]" by (simp add: dispatchMsg_write_def)
  have rec: "received ?l' (buffer_write room p u) = received l u" "received ?l' u = received l u"
    "received l (buffer_write room p u) = received l u" for u
    by (simp_all add: received_def fld same)
  fix d assume d: "d < length (ul_heap ?l')"
  show "conn_ok F ?l' d"
  proof (cases "d = c")
    case True
    have "\<exists>ys. received l ?u = ys @ [p] \<and> subseq (uc_read ?u @ uc_buffer ?u) ys"
      using inv_conns(1) [OF inv c] by (simp add: conn_ok_def Let_def w traffic_ok_def)
    then obtain ys where ys: "received l ?u = ys @ [p]" "subseq (uc_read ?u @ uc_buffer ?u) ys" by blast
    then have "subseq (uc_read (buffer_write room p ?u) @ uc_buffer (buffer_write room p ?u)) (received l ?u)"
      using list_emb_append_mono [of "(=)" "uc_read ?u @ uc_buffer ?u" ys "[p]" "[p]"]
      by (auto simp: buffer_write_def intro: subseq_more)
    then show ?thesis using inv_conns(1) [OF inv c] c True
      by (simp add: conn_ok_def Let_def hp fld same rec traffic_ok_def)
  next
    case False
    then show ?thesis using inv_conns(1) [OF inv, of d] d
      by (simp add: conn_ok_def Let_def hp fld w traffic_ok_def rec)
  qed
next
  have c: "c < length (ul_heap l)" using inv w by (simp add: udp_inv_def refs_ok_def)
  have same: "uc_stage (buffer_write room p u) = uc_stage u" "uc_rAddr (buffer_write room p u) = uc_rAddr u" for u
    by (simp_all add: buffer_write_def)
  show "queue_ok (dispatchMsg_write room c p l)" using inv c
    by (auto simp: udp_inv_def queue_ok_def dispatchMsg_write_def nth_list_update same)
  show "count_ok (dispatchMsg_write room c p l)" using inv c
    by (simp add: udp_inv_def count_ok_def dispatchMsg_write_def accepted_count_update same)
  show "phase_ok (dispatchMsg_write room c p l)" using inv by (simp add: udp_inv_def phase_ok_def dispatchMsg_write_def)
  show "refs_ok (dispatchMsg_write room c p l)" using inv c
    by (auto simp: udp_inv_def refs_ok_def dispatchMsg_write_def nth_list_update same)
qed

lemma inv_accept_take:
  assumes inv: "udp_inv F l" and q: "ul_acceptCh l = c # ch"
  shows "udp_inv F (accept_take l)"
proof (rule inv_connI)
  note head = inv_queue_head [OF inv q]
  have l': "accept_take l = set_conn c (\<lambda>u. u\<lparr>uc_stage := Taken\<rparr>) (l\<lparr>ul_acceptCh := ch\<rparr>)" by (simp add: accept_take_def q)
  fix d assume d: "d < length (ul_heap (accept_take l))"
  show "conn_ok F (accept_take l) d"
  proof (cases "d = c")
    case True
    then show ?thesis using inv_conns [OF inv head(1)] head
      apply - by (rule conn_change [of F l d _ "(ul_heap l ! c)\<lparr>uc_stage := Taken\<rparr>"]) (auto simp: l' listed_def)
  next
    case False
    then show ?thesis using inv_conns(1) [OF inv, of d] d apply - by (rule conn_frame [of F l d]) (simp_all add: l')
  qed
next
  note head = inv_queue_head [OF inv q]
  have l': "accept_take l = set_conn c (\<lambda>u. u\<lparr>uc_stage := Taken\<rparr>) (l\<lparr>ul_acceptCh := ch\<rparr>)" by (simp add: accept_take_def q)
  have q2: "distinct (c # ch)" "set (c # ch) = {d. d < length (ul_heap l) \<and> uc_stage (ul_heap l ! d) = Waiting}"
    using inv q by (simp_all add: udp_inv_def queue_ok_def)
  show "queue_ok (accept_take l)" using inv q2(1) head q
    apply - by (rule queue_update [of l c _ "(ul_heap l ! c)\<lparr>uc_stage := Taken\<rparr>"]) (auto simp: udp_inv_def l')
  show "count_ok (accept_take l)" using inv head by (simp add: udp_inv_def count_ok_def l' accepted_count_update)
  show "phase_ok (accept_take l)" using inv q by (auto simp: udp_inv_def phase_ok_def l')
  show "refs_ok (accept_take l)" using inv head apply - by (rule refs_update [of l _ c "(ul_heap l ! c)\<lparr>uc_stage := Taken\<rparr>"]) (auto simp: udp_inv_def l')
qed

lemma inv_drain:
  assumes inv: "udp_inv F l" and "ul_close l = Draining"
  shows "udp_inv F (close_drain l)"
proof (cases "ul_acceptCh l")
  case Nil
  have l': "close_drain l = l\<lparr>ul_close := WaitingReaders, ul_connWG := ul_connWG l - 1\<rparr>" by (simp add: close_drain_def Nil)
  show ?thesis
  proof (rule inv_connI)
    fix c assume "c < length (ul_heap (close_drain l))"
    then show "conn_ok F (close_drain l) c" using inv_conns(1) [OF inv, of c] apply - by (rule conn_frame [of F l c]) (simp_all add: l')
  qed (use inv assms(2) Nil in \<open>simp_all add: l' udp_inv_def queue_ok_def count_ok_def phase_ok_def refs_ok_def own_count_def\<close>)
next
  case (Cons c ch)
  note head = inv_queue_head [OF inv Cons]
  have "distinct (c # ch)" using inv Cons by (simp add: udp_inv_def queue_ok_def)
  then have "set ch = set (ul_acceptCh l) - {c}" "distinct ch" using Cons by auto
  moreover have "close_drain l = set_conn c (\<lambda>u. u\<lparr>uc_stage := Refused\<rparr>)
      (l\<lparr>ul_acceptCh := ch, ul_conns := (ul_conns l)(uc_rAddr (ul_heap l ! c) := None)\<rparr>)"
    by (simp add: close_drain_def Cons)
  ultimately show ?thesis using head Cons
    by (intro inv_unlist [OF inv head(1), where s = Refused and ch = ch]) (simp_all add: listed_def)
qed

lemma udp_step_inv: "udp_listener_step F room lab l l' \<Longrightarrow> udp_inv F l \<Longrightarrow> udp_inv F l'"
proof (induction rule: udp_listener_step.induct)
  case (datagram l raddr d)
  then show ?case by (intro inv_datagram)
next
  case (deliver l c p)
  then show ?case by (intro inv_deliver)
next
  case (read_error l)
  have "conn_ok F (l\<lparr>ul_reader := ReadDone\<rparr>) c" if "c < length (ul_heap l)" for c
    using inv_conns(1) [OF read_error(2) that] read_error(1) by (simp add: conn_ok_def Let_def traffic_ok_def received_def)
  then show ?case using read_error by (auto simp: udp_inv_def queue_ok_def count_ok_def phase_ok_def refs_ok_def)
next
  case (accept1 l)
  then obtain c ch where "ul_acceptCh l = c # ch" by (cases "ul_acceptCh l") auto
  then show ?case using accept1 by (intro inv_accept_take)
next
  case (accept2 c l)
  then show ?case using inv_conns(3) [OF accept2(3,1)]
    by (intro inv_stage [OF accept2(3,1), where wg = "ul_connWG l + 1" and f = "\<lambda>u. u\<lparr>uc_stage := Accepted\<rparr>"])
      (auto simp: accept_count_def listed_def)
next
  case (read_conn c l)
  show ?case
  proof (cases "uc_buffer (ul_heap l ! c)")
    case Nil
    then show ?thesis using read_conn by (simp add: conn_ReadFrom_def)
  next
    case (Cons p q)
    then show ?thesis using read_conn inv_conns(3) [OF read_conn(3,1)]
      by (intro inv_stage [OF read_conn(3,1), where wg = "ul_connWG l" and f = "\<lambda>u. u\<lparr>uc_buffer := q, uc_read := uc_read u @ [p]\<rparr>"])
        (auto simp: conn_ReadFrom_def)
  qed
next
  case (close_conn1 c l)
  then show ?case using inv_conns(3) [OF close_conn1(3,1)]
    by (intro inv_stage [OF close_conn1(3,1), where wg = "ul_connWG l - 1" and f = "\<lambda>u. u\<lparr>uc_stage := Closing\<rparr>"])
      (auto simp: conn_close1_def listed_def)
next
  case (close_conn2 c l)
  then have "c \<notin> set (ul_acceptCh l)" "distinct (ul_acceptCh l)" by (simp_all add: udp_inv_def queue_ok_def)
  moreover have "conn_close2 c l = set_conn c (\<lambda>u. u\<lparr>uc_stage := Unlisted\<rparr>)
      (l\<lparr>ul_acceptCh := ul_acceptCh l, ul_conns := (ul_conns l)(uc_rAddr (ul_heap l ! c) := None)\<rparr>)"
    by (simp add: conn_close2_def)
  ultimately show ?case using close_conn2(1,2)
    by (intro inv_unlist [OF close_conn2(4,1), where s = Unlisted and ch = "ul_acceptCh l"]) (simp_all add: listed_def)
next
  case (close_conn3 c l)
  have f: "\<not> ul_conns l (uc_rAddr (ul_heap l ! c)) = Some c" using inv_conns(2) [OF close_conn3(3,1)] close_conn3(2) by (simp add: listed_def)
  show ?case using close_conn3
    by (intro inv_stage [OF close_conn3(3,1), where wg = "ul_connWG l" and f = "\<lambda>u. u\<lparr>uc_stage := Closed, uc_bufferClosed := True\<rparr>"])
      (auto simp: conn_close3_def listed_def)
next
  case (close1 l)
  have "conn_ok F (close_begin l) c" if "c < length (ul_heap l)" for c
    using inv_conns(1) [OF close1(2) that] apply - by (rule conn_frame [of F l c]) (simp_all add: close_begin_def)
  then show ?case using close1 by (auto simp: udp_inv_def queue_ok_def count_ok_def phase_ok_def refs_ok_def close_begin_def own_count_def)
next
  case (close2 l)
  then show ?case by (intro inv_drain)
next
  case (close_socket l)
  have "conn_ok F (l\<lparr>ul_socketOpen := False\<rparr>) c" if "c < length (ul_heap l)" for c
    using inv_conns(1) [OF close_socket(3) that] apply - by (rule conn_frame [of F l c]) simp_all
  moreover have "ul_close l \<in> {WaitingReaders, CloseDone}"
    using close_socket accepted_count_nonneg [of "ul_heap l"]
    by (cases "ul_close l") (auto simp: udp_inv_def count_ok_def own_count_def)
  ultimately show ?case using close_socket by (auto simp: udp_inv_def queue_ok_def count_ok_def phase_ok_def refs_ok_def)
next
  case (close3 l)
  have "conn_ok F (l\<lparr>ul_close := CloseDone\<rparr>) c" if "c < length (ul_heap l)" for c
    using inv_conns(1) [OF close3(4) that] apply - by (rule conn_frame [of F l c]) simp_all
  then show ?case using close3 by (auto simp: udp_inv_def queue_ok_def count_ok_def phase_ok_def refs_ok_def own_count_def)
qed

lemma udp_start_inv: "udp_inv F newUDPPacketListener"
  by (simp add: udp_inv_def newUDPPacketListener_def queue_ok_def count_ok_def phase_ok_def refs_ok_def own_count_def accepted_count_def)

section \<open>The listener as a demultiplexer\<close>

text \<open>What the listener promises: a mailbox for every address that has been let in. \<open>dm_backlog\<close> are the
  addresses nobody has accepted yet, \<open>dm_pending\<close> is the datagram on its way to a mailbox.\<close>

record demux =
  dm_open :: bool
  dm_backlog :: "string list"
  dm_boxes :: "string \<rightharpoonup> bytes list"
  dm_pending :: "(string \<times> bytes) option"

definition demux_new :: demux where
  "demux_new = \<lparr>dm_open = True, dm_backlog = [], dm_boxes = Map.empty, dm_pending = None\<rparr>"

definition drop_box :: "string \<Rightarrow> demux \<Rightarrow> demux" where
  "drop_box a d = d\<lparr>dm_boxes := (dm_boxes d)(a := None),
     dm_pending := (case dm_pending d of Some (b, p) \<Rightarrow> if b = a then None else Some (b, p) | None \<Rightarrow> None)\<rparr>"

text \<open>What becomes of a datagram: it goes to the mailbox of its address; a new address gets a mailbox if the specification is
  open, the filter lets it in and the backlog has room; otherwise it is dropped.\<close>

definition dm_arrive :: "(bytes \<Rightarrow> bool) \<Rightarrow> string \<Rightarrow> bytes \<Rightarrow> demux \<Rightarrow> demux" where
  "dm_arrive accept_filter a p d =
     (if dm_boxes d a \<noteq> None then d\<lparr>dm_pending := Some (a, p)\<rparr>
      else if dm_open d \<and> accept_filter p \<and> length (dm_backlog d) < acceptBacklog
      then d\<lparr>dm_backlog := dm_backlog d @ [a], dm_boxes := (dm_boxes d)(a \<mapsto> []), dm_pending := Some (a, p)\<rparr>
      else d)"

text \<open>A packet that comes from a connection without a mailbox any more does not touch the mailboxes.\<close>

inductive demux_step :: "(bytes \<Rightarrow> bool) \<Rightarrow> (bytes list \<Rightarrow> bytes \<Rightarrow> bool) \<Rightarrow> udp_label \<Rightarrow> demux \<Rightarrow> demux \<Rightarrow> bool"
  for accept_filter room
where
  arrive: "dm_pending d = None \<Longrightarrow> demux_step accept_filter room (Datagram a p) d (dm_arrive accept_filter a p d)"
| put: "dm_pending d = Some (a, p) \<Longrightarrow> dm_boxes d a = Some q
     \<Longrightarrow> demux_step accept_filter room Internal d
           (d\<lparr>dm_boxes := (dm_boxes d)(a \<mapsto> (if room q p then q @ [p] else q)), dm_pending := None\<rparr>)"
| accept: "dm_backlog d = a # q \<Longrightarrow> demux_step accept_filter room (Offered a) d (d\<lparr>dm_backlog := q\<rparr>)"
| take_one: "dm_boxes d a = Some (p # q) \<Longrightarrow> a \<notin> set (dm_backlog d)
     \<Longrightarrow> demux_step accept_filter room (Handed a p) d (d\<lparr>dm_boxes := (dm_boxes d)(a \<mapsto> q)\<rparr>)"
| take_late: "demux_step accept_filter room (HandedLate a p) d d"
| hangup: "dm_boxes d a \<noteq> None \<Longrightarrow> a \<notin> set (dm_backlog d) \<Longrightarrow> demux_step accept_filter room (HungUp a) d (drop_box a d)"
| shut: "dm_open d \<Longrightarrow> demux_step accept_filter room Shut d (d\<lparr>dm_open := False\<rparr>)"
| refuse: "\<not> dm_open d \<Longrightarrow> dm_backlog d = a # q \<Longrightarrow> demux_step accept_filter room (Refused_conn a) d ((drop_box a d)\<lparr>dm_backlog := q\<rparr>)"
| idle: "demux_step accept_filter room Internal d d"

definition demux_of :: "udpPacketListener \<Rightarrow> demux" where
  "demux_of l =
     \<lparr>dm_open = ul_accepting l, dm_backlog = map (\<lambda>c. uc_rAddr (ul_heap l ! c)) (ul_acceptCh l),
      dm_boxes = (\<lambda>a. map_option (\<lambda>c. uc_buffer (ul_heap l ! c)) (ul_conns l a)),
      dm_pending = (case ul_reader l of
          Writing c p \<Rightarrow> if ul_conns l (uc_rAddr (ul_heap l ! c)) = Some c then Some (uc_rAddr (ul_heap l ! c), p) else None
        | _ \<Rightarrow> None)\<rparr>"

lemma demux_of_simps [simp]:
  "demux_of (l\<lparr>ul_connWG := n\<rparr>) = demux_of l" "demux_of (l\<lparr>ul_close := ph\<rparr>) = demux_of l"
  "demux_of (l\<lparr>ul_close := ph, ul_connWG := n\<rparr>) = demux_of l" "demux_of (l\<lparr>ul_socketOpen := b\<rparr>) = demux_of l"
  "demux_of (l\<lparr>ul_acceptCh := ch\<rparr>) = (demux_of l)\<lparr>dm_backlog := map (\<lambda>c. uc_rAddr (ul_heap l ! c)) ch\<rparr>"
  "ul_reader l = Reading \<Longrightarrow> demux_of (l\<lparr>ul_reader := ReadDone\<rparr>) = demux_of l"
  "demux_of (l\<lparr>ul_accepting := b\<rparr>) = (demux_of l)\<lparr>dm_open := b\<rparr>"
  by (simp_all add: demux_of_def split: read_loop.split)

text \<open>A change of one connection shows in the mailbox of its address, if the connection is listed.\<close>

lemma demux_of_change:
  assumes "refs_ok l" and "c < length (ul_heap l)" and "uc_rAddr (f (ul_heap l ! c)) = uc_rAddr (ul_heap l ! c)"
  shows "demux_of (set_conn c f l) = (demux_of l)\<lparr>dm_boxes :=
           (if ul_conns l (uc_rAddr (ul_heap l ! c)) = Some c
            then (dm_boxes (demux_of l))(uc_rAddr (ul_heap l ! c) \<mapsto> uc_buffer (f (ul_heap l ! c)))
            else dm_boxes (demux_of l))\<rparr>"
proof -
  have "map_option (\<lambda>d. uc_buffer ((ul_heap l)[c := f (ul_heap l ! c)] ! d)) (ul_conns l a) =
      (if ul_conns l (uc_rAddr (ul_heap l ! c)) = Some c \<and> a = uc_rAddr (ul_heap l ! c) then Some (uc_buffer (f (ul_heap l ! c)))
       else map_option (\<lambda>d. uc_buffer (ul_heap l ! d)) (ul_conns l a))" for a
  proof (cases "ul_conns l a = Some c")
    case True
    then show ?thesis using assms(1,2) by (auto simp: refs_ok_def)
  next
    case False
    then show ?thesis by (cases "ul_conns l a") (auto simp: nth_list_update_neq)
  qed
  moreover have "uc_rAddr (ul_heap (set_conn c f l) ! d) = uc_rAddr (ul_heap l ! d)" for d
    by (simp add: nth_update_same [where g = uc_rAddr and f = f] assms(3))
  ultimately show ?thesis by (simp add: demux_of_def fun_eq_iff split: read_loop.split)
qed

lemma demux_of_same:
  assumes "refs_ok l" and "c < length (ul_heap l)" and "uc_rAddr (f (ul_heap l ! c)) = uc_rAddr (ul_heap l ! c)"
    and "uc_buffer (f (ul_heap l ! c)) = uc_buffer (ul_heap l ! c)"
  shows "demux_of (set_conn c f l) = demux_of l"
proof -
  have "(dm_boxes (demux_of l))(uc_rAddr (ul_heap l ! c) \<mapsto> uc_buffer (ul_heap l ! c)) = dm_boxes (demux_of l)"
    if "ul_conns l (uc_rAddr (ul_heap l ! c)) = Some c"
    using that by (intro fun_upd_idem) (simp add: demux_of_def)
  then show ?thesis using demux_of_change [of l c f] assms by simp
qed

section \<open>Refinement\<close>

lemma udp_invD:
  assumes "udp_inv F l"
  shows "refs_ok l" and "queue_ok l" and "count_ok l" and "phase_ok l"
  using assms by (simp_all add: udp_inv_def)

lemma listed_not_waiting:
  assumes inv: "udp_inv F l" and "ul_conns l a = Some c" and "uc_stage (ul_heap l ! c) \<noteq> Waiting"
  shows "a \<notin> set (dm_backlog (demux_of l))"
proof
  assume "a \<in> set (dm_backlog (demux_of l))"
  then obtain d where d: "d \<in> set (ul_acceptCh l)" "uc_rAddr (ul_heap l ! d) = a" by (auto simp: demux_of_def)
  then have "d < length (ul_heap l)" "uc_stage (ul_heap l ! d) = Waiting" using udp_invD(2) [OF inv] by (auto simp: queue_ok_def)
  then have "ul_conns l a = Some d" using inv_conns(2) [OF inv, of d] d(2) by (simp add: listed_def)
  then show False using assms(2,3) \<open>uc_stage (ul_heap l ! d) = Waiting\<close> by simp
qed

lemma unlist_is_drop_box:
  assumes "refs_ok l" and "c < length (ul_heap l)" and "ul_conns l (uc_rAddr (ul_heap l ! c)) = Some c"
  shows "demux_of (l\<lparr>ul_conns := (ul_conns l)(uc_rAddr (ul_heap l ! c) := None)\<rparr>) = drop_box (uc_rAddr (ul_heap l ! c)) (demux_of l)"
proof -
  have "map_option (\<lambda>d. uc_buffer (ul_heap l ! d)) (((ul_conns l)(uc_rAddr (ul_heap l ! c) := None)) a) =
      ((\<lambda>a. map_option (\<lambda>d. uc_buffer (ul_heap l ! d)) (ul_conns l a))(uc_rAddr (ul_heap l ! c) := None)) a" for a
    by simp
  then show ?thesis by (simp add: demux_of_def drop_box_def fun_eq_iff split: read_loop.split)
qed

lemma sim_datagram:
  assumes inv: "udp_inv F l" and idle: "ul_reader l = Reading"
  shows "demux_step F room (Datagram a (take udpReceiveMTU datagram)) (demux_of l) (demux_of (read_datagram F a datagram l))"
proof -
  define buf where "buf = take udpReceiveMTU datagram"
  have none: "dm_pending (demux_of l) = None" by (simp add: demux_of_def idle)
  have wait: "c < length (ul_heap l)" if "c \<in> set (ul_acceptCh l)" for c using that udp_invD(2) [OF inv] by (simp add: queue_ok_def)
  have refs: "c < length (ul_heap l)" "uc_rAddr (ul_heap l ! c) = b" if "ul_conns l b = Some c" for b c
    using that udp_invD(1) [OF inv] by (auto simp: refs_ok_def)
  consider (old) c where "ul_conns l a = Some c"
    | (drop) "ul_conns l a = None" "\<not> (ul_accepting l \<and> F buf \<and> length (ul_acceptCh l) < acceptBacklog)"
    | (new) "ul_conns l a = None" "ul_accepting l" "F buf" "length (ul_acceptCh l) < acceptBacklog"
    by fastforce
  then have "demux_of (read_datagram F a datagram l) = dm_arrive F a buf (demux_of l)"
  proof cases
    case old
    then have "demux_of (read_datagram F a datagram l) = (demux_of l)\<lparr>dm_pending := Some (a, buf)\<rparr>"
      using refs [OF old] by (simp add: read_datagram_def getConn_def demux_of_def buf_def Let_def)
    moreover have "dm_boxes (demux_of l) a \<noteq> None" using old by (simp add: demux_of_def)
    ultimately show ?thesis by (simp add: dm_arrive_def)
  next
    case drop
    then have "demux_of (read_datagram F a datagram l) = demux_of l"
      by (auto simp: read_datagram_def getConn_def demux_of_def idle buf_def Let_def try_send_def)
    moreover have "dm_boxes (demux_of l) a = None" "\<not> (dm_open (demux_of l) \<and> F buf \<and> length (dm_backlog (demux_of l)) < acceptBacklog)"
      using drop by (simp_all add: demux_of_def)
    ultimately show ?thesis by (auto simp: dm_arrive_def)
  next
    case new
    let ?n = "length (ul_heap l)"
    have "map (\<lambda>c. uc_rAddr ((ul_heap l @ [new_udp_conn a k]) ! c)) (ul_acceptCh l) = map (\<lambda>c. uc_rAddr (ul_heap l ! c)) (ul_acceptCh l)" for k
      using wait by (simp add: nth_append)
    moreover have "map_option (\<lambda>c. uc_buffer ((ul_heap l @ [new_udp_conn a k]) ! c)) (ul_conns l b) =
        map_option (\<lambda>c. uc_buffer (ul_heap l ! c)) (ul_conns l b)" for k b
      using refs [of b] by (cases "ul_conns l b") (auto simp: nth_append)
    ultimately have "demux_of (read_datagram F a datagram l) =
        (demux_of l)\<lparr>dm_backlog := dm_backlog (demux_of l) @ [a], dm_boxes := (dm_boxes (demux_of l))(a \<mapsto> []), dm_pending := Some (a, buf)\<rparr>"
      using new by (simp add: read_datagram_def getConn_def demux_of_def buf_def [symmetric] try_send_def Let_def) (simp add: new_udp_conn_def fun_eq_iff)
    moreover have "dm_boxes (demux_of l) a = None" "dm_open (demux_of l)" "length (dm_backlog (demux_of l)) < acceptBacklog"
      using new by (simp_all add: demux_of_def)
    ultimately show ?thesis using new(3) by (simp add: dm_arrive_def)
  qed
  then show ?thesis using demux_step.arrive [OF none] by (simp add: buf_def)
qed

lemma sim_deliver:
  assumes inv: "udp_inv F l" and w: "ul_reader l = Writing c p"
  shows "demux_step F room Internal (demux_of l) (demux_of (dispatchMsg_write room c p l))"
proof -
  let ?u = "ul_heap l ! c"
  have c: "c < length (ul_heap l)" using udp_invD(1) [OF inv] w by (simp add: refs_ok_def)
  have addr: "uc_rAddr (buffer_write room p ?u) = uc_rAddr ?u" by (simp add: buffer_write_def)
  have idle: "demux_of (k\<lparr>ul_reader := Reading\<rparr>) = (demux_of k)\<lparr>dm_pending := None\<rparr>" for k by (simp add: demux_of_def)
  note chg = demux_of_change [OF udp_invD(1) [OF inv] c, of "buffer_write room p", OF addr]
  show ?thesis
  proof (cases "ul_conns l (uc_rAddr ?u) = Some c")
    case True
    have pend: "dm_pending (demux_of l) = Some (uc_rAddr ?u, p)" and box: "dm_boxes (demux_of l) (uc_rAddr ?u) = Some (uc_buffer ?u)"
      using True w by (simp_all add: demux_of_def)
    have "\<not> uc_bufferClosed ?u" using inv_conns(2,3) [OF inv c] True by (auto simp: listed_def)
    then have "demux_of (dispatchMsg_write room c p l) =
        (demux_of l)\<lparr>dm_boxes := (dm_boxes (demux_of l))(uc_rAddr ?u \<mapsto> (if room (uc_buffer ?u) p then uc_buffer ?u @ [p] else uc_buffer ?u)),
                     dm_pending := None\<rparr>"
      unfolding dispatchMsg_write_def idle chg using True by (simp add: buffer_write_def)
    then show ?thesis using demux_step.put [OF pend box] by metis
  next
    case False
    then have "demux_of (dispatchMsg_write room c p l) = demux_of l"
      unfolding dispatchMsg_write_def idle chg using w by (simp add: demux_of_def)
    then show ?thesis using demux_step.idle by metis
  qed
qed

lemma sim_drain:
  assumes inv: "udp_inv F l" and "ul_close l = Draining"
  shows "demux_step F room (drain_label l) (demux_of l) (demux_of (close_drain l))"
proof (cases "ul_acceptCh l")
  case Nil
  then show ?thesis using demux_step.idle by (simp add: close_drain_def drain_label_def)
next
  case (Cons c ch)
  note head = inv_queue_head [OF inv Cons]
  let ?a = "uc_rAddr (ul_heap l ! c)"
  have listed: "ul_conns l ?a = Some c" using inv_conns(2) [OF inv head(1)] head(2) by (simp add: listed_def)
  define l1 where "l1 = l\<lparr>ul_acceptCh := ch, ul_conns := (ul_conns l)(?a := None)\<rparr>"
  have "refs_ok l1" using udp_invD(1) [OF inv] by (simp add: refs_ok_def l1_def)
  then have "demux_of (set_conn c (\<lambda>u. u\<lparr>uc_stage := Refused\<rparr>) l1) = demux_of l1"
    using head(1) by (intro demux_of_same) (simp_all add: l1_def)
  moreover have "demux_of l1 = (demux_of (l\<lparr>ul_conns := (ul_conns l)(?a := None)\<rparr>))\<lparr>dm_backlog := map (\<lambda>c. uc_rAddr (ul_heap l ! c)) ch\<rparr>"
    by (simp add: demux_of_def l1_def split: read_loop.split)
  ultimately have eq: "demux_of (close_drain l) = (drop_box ?a (demux_of l))\<lparr>dm_backlog := map (\<lambda>c. uc_rAddr (ul_heap l ! c)) ch\<rparr>"
    unfolding unlist_is_drop_box [OF udp_invD(1) [OF inv] head(1) listed] by (simp add: close_drain_def Cons l1_def)
  have "\<not> dm_open (demux_of l)" "dm_backlog (demux_of l) = ?a # map (\<lambda>c. uc_rAddr (ul_heap l ! c)) ch"
    using udp_invD(4) [OF inv] assms(2) Cons by (simp_all add: demux_of_def phase_ok_def)
  then show ?thesis unfolding eq using demux_step.refuse by (simp add: drain_label_def Cons)
qed

lemma sim_take:
  assumes inv: "udp_inv F l" and c: "c < length (ul_heap l)" and "uc_stage (ul_heap l ! c) \<notin> {Waiting, Taken, Refused}"
  shows "demux_step F room (read_label c l) (demux_of l) (demux_of (fst (conn_ReadFrom c l)))"
proof (cases "uc_buffer (ul_heap l ! c)")
  case Nil
  then show ?thesis using demux_step.idle by (simp add: conn_ReadFrom_def read_label_def)
next
  case (Cons p q)
  let ?a = "uc_rAddr (ul_heap l ! c)" and ?f = "\<lambda>u. u\<lparr>uc_buffer := q, uc_read := uc_read u @ [p]\<rparr>"
  have step: "demux_of (fst (conn_ReadFrom c l)) = (demux_of l)\<lparr>dm_boxes :=
      (if ul_conns l ?a = Some c then (dm_boxes (demux_of l))(?a \<mapsto> q) else dm_boxes (demux_of l))\<rparr>"
    using demux_of_change [OF udp_invD(1) [OF inv] c, of ?f] by (simp add: conn_ReadFrom_def Cons)
  show ?thesis
  proof (cases "ul_conns l ?a = Some c")
    case True
    have new: "?a \<notin> set (dm_backlog (demux_of l))" using assms(3) by (intro listed_not_waiting [OF inv True]) simp
    have "dm_boxes (demux_of l) ?a = Some (p # q)" using True Cons by (simp add: demux_of_def)
    then show ?thesis using demux_step.take_one [of "demux_of l" ?a p q F room] True new
      unfolding step by (simp add: read_label_def conn_ReadFrom_def Cons)
  next
    case False
    then show ?thesis unfolding step using demux_step.take_late by (simp add: read_label_def conn_ReadFrom_def Cons)
  qed
qed

lemma udp_simulates:
  assumes "udp_listener_step F room lab l l'" and inv: "udp_inv F l"
  shows "demux_step F room lab (demux_of l) (demux_of l')"
  using assms(1)
proof cases
  case (datagram raddr d)
  then show ?thesis using sim_datagram [OF inv] by simp
next
  case (deliver c p)
  then show ?thesis using sim_deliver [OF inv] by simp
next
  case accept1
  then obtain c ch where q: "ul_acceptCh l = c # ch" by (cases "ul_acceptCh l") auto
  note head = inv_queue_head [OF inv q]
  have "refs_ok (l\<lparr>ul_acceptCh := ch\<rparr>)" using udp_invD(1) [OF inv] by (simp add: refs_ok_def)
  then have "demux_of l' = demux_of (l\<lparr>ul_acceptCh := ch\<rparr>)"
    unfolding accept1 accept_take_def q using head(1) by (simp add: demux_of_same)
  also have "\<dots> = (demux_of l)\<lparr>dm_backlog := map (\<lambda>c. uc_rAddr (ul_heap l ! c)) ch\<rparr>" by simp
  finally have "demux_of l' = (demux_of l)\<lparr>dm_backlog := map (\<lambda>c. uc_rAddr (ul_heap l ! c)) ch\<rparr>" .
  moreover have "dm_backlog (demux_of l) = uc_rAddr (ul_heap l ! c) # map (\<lambda>c. uc_rAddr (ul_heap l ! c)) ch"
    by (simp add: demux_of_def q)
  ultimately show ?thesis using demux_step.accept accept1(1) q by (metis list.sel(1))
next
  case (accept2 c)
  have "refs_ok (l\<lparr>ul_connWG := ul_connWG l + 1\<rparr>)" using udp_invD(1) [OF inv] by (simp add: refs_ok_def)
  then have "demux_of l' = demux_of (l\<lparr>ul_connWG := ul_connWG l + 1\<rparr>)"
    unfolding accept2(2) accept_count_def using accept2(3) by (simp add: demux_of_same)
  then have "demux_of l' = demux_of l" by simp
  then show ?thesis using demux_step.idle accept2(1) by simp
next
  case (read_conn c)
  then show ?thesis using sim_take [OF inv] by simp
next
  case (close_conn1 c)
  have "refs_ok (l\<lparr>ul_connWG := ul_connWG l - 1\<rparr>)" using udp_invD(1) [OF inv] by (simp add: refs_ok_def)
  then have "demux_of l' = demux_of (l\<lparr>ul_connWG := ul_connWG l - 1\<rparr>)"
    unfolding close_conn1(2) conn_close1_def using close_conn1(3) by (simp add: demux_of_same)
  then have "demux_of l' = demux_of l" by simp
  then show ?thesis using demux_step.idle close_conn1(1) by simp
next
  case (close_conn2 c)
  let ?a = "uc_rAddr (ul_heap l ! c)"
  have listed: "ul_conns l ?a = Some c" using inv_conns(2) [OF inv close_conn2(3)] close_conn2(4) by (simp add: listed_def)
  have "refs_ok (l\<lparr>ul_conns := (ul_conns l)(?a := None)\<rparr>)" using udp_invD(1) [OF inv] by (simp add: refs_ok_def)
  then have "demux_of l' = demux_of (l\<lparr>ul_conns := (ul_conns l)(?a := None)\<rparr>)"
    unfolding close_conn2(2) conn_close2_def using close_conn2(3) by (simp add: demux_of_same)
  then have eq: "demux_of l' = drop_box ?a (demux_of l)"
    using unlist_is_drop_box [OF udp_invD(1) [OF inv] close_conn2(3) listed] by simp
  have "?a \<notin> set (dm_backlog (demux_of l))" using close_conn2(4) by (intro listed_not_waiting [OF inv listed]) simp
  moreover have "dm_boxes (demux_of l) ?a \<noteq> None" using listed by (simp add: demux_of_def)
  ultimately show ?thesis unfolding eq close_conn2(1) by (rule demux_step.hangup [rotated])
next
  case (close_conn3 c)
  then have "demux_of l' = demux_of l" unfolding conn_close3_def using udp_invD(1) [OF inv] by (simp add: demux_of_same)
  then show ?thesis using demux_step.idle close_conn3(1) by simp
next
  case close1
  then have "dm_open (demux_of l)" using udp_invD(4) [OF inv] by (simp add: demux_of_def phase_ok_def)
  moreover have "demux_of l' = (demux_of l)\<lparr>dm_open := False\<rparr>" using close1 by (simp add: close_begin_def)
  ultimately show ?thesis using demux_step.shut [of "demux_of l" F room] close1(1) by simp
next
  case close2
  then show ?thesis using sim_drain [OF inv] by simp
qed (simp_all add: demux_step.idle)

interpretation udp: simulation "\<lambda>l. l = newUDPPacketListener" "udp_listener_step F room" "udp_inv F" demux_of "demux_step F room"
  for F room
  by unfold_locales (use udp_start_inv udp_step_inv udp_simulates in blast)+

section \<open>Properties\<close>

text \<open>C21: In every execution the listener behaves as a set of mailboxes, one for each address that has been let in, with the
  same observations: for the same datagrams from the socket, the mailboxes open for a new address only while Close has not
  begun, if its first datagram passes the accept filter and fewer than 128 connections wait; every other datagram goes
  to the mailbox of its own address, in order, or is dropped when there is none or its buffer is full; what a listed
  connection hands to its reader, and under which address, is the head of the mailbox of that address; connections are
  offered in the order of their arrival; and after Close those that wait are refused.\<close>

theorem udp_refines_demux:
  assumes "runs (udp_listener_step accept_filter room) newUDPPacketListener ls l"
  shows "runs (demux_step accept_filter room) demux_new ls (demux_of l)"
proof -
  have "demux_of newUDPPacketListener = demux_new"
    by (simp add: demux_of_def demux_new_def newUDPPacketListener_def)
  then show ?thesis using udp.runs_simulated [OF assms udp_start_inv] by simp
qed

text \<open>C22: The connections of the listener are isolated. What a connection has handed out to its reader followed by what it
  still holds is a subsequence, in order, of the datagrams that came from its own address since it was created, the first
  of which passed the accept filter; at most one connection per address is listed, and a connection that waits, is
  accepted or is being closed is the one listed under its address.\<close>

theorem udp_conn_isolated:
  assumes "rtranclp (udp_step accept_filter room) newUDPPacketListener l" and "c < length (ul_heap l)"
    and "u = ul_heap l ! c"
  shows "subseq (uc_read u @ uc_buffer u) (received l u) \<and>
    (\<exists>p ps. received l u = p # ps \<and> accept_filter p) \<and>
    (uc_stage u \<in> {Waiting, Taken, Accepted, Closing} \<longleftrightarrow> ul_conns l (uc_rAddr u) = Some c)"
proof -
  have inv: "udp_inv accept_filter l" by (rule udp.reachable_inv [OF refl assms(1)])
  have ok: "conn_ok accept_filter l c" by (rule inv_conns(1) [OF inv assms(2)])
  then have t: "traffic_ok (ul_reader l) c (uc_read u @ uc_buffer u) (received l u)"
    and since: "uc_since u < length (ul_seen l)" "fst (ul_seen l ! uc_since u) = uc_rAddr u" "accept_filter (snd (ul_seen l ! uc_since u))"
    by (simp_all add: conn_ok_def Let_def assms(3))
  have "subseq (uc_read u @ uc_buffer u) (received l u)"
    using t by (auto simp: traffic_ok_def intro: subseq_more split: read_loop.splits if_splits)
  moreover have "received l u = snd (ul_seen l ! uc_since u) # map snd (filter (\<lambda>d. fst d = uc_rAddr u) (drop (Suc (uc_since u)) (ul_seen l)))"
    using since by (simp add: received_def flip: Cons_nth_drop_Suc)
  moreover have "uc_stage u \<in> {Waiting, Taken, Accepted, Closing} \<longleftrightarrow> ul_conns l (uc_rAddr u) = Some c"
    using inv_conns(2) [OF inv assms(2)] by (simp add: listed_def assms(3))
  ultimately show ?thesis using since(3) by simp
qed

text \<open>The wait group of the listener never goes negative, and it is zero, which closes the socket, only when Close has
  drained the backlog and every connection that Accept has counted has begun to close; from then on no datagram gets a
  new connection.\<close>

theorem socket_closed_last:
  assumes "rtranclp (udp_step accept_filter room) newUDPPacketListener l"
  shows "0 \<le> ul_connWG l \<and>
    (ul_connWG l = 0 \<longleftrightarrow> ul_close l \<in> {WaitingReaders, CloseDone} \<and> (\<forall>u \<in> set (ul_heap l). uc_stage u \<noteq> Accepted)) \<and>
    (\<not> ul_socketOpen l \<longrightarrow> \<not> ul_accepting l \<and> ul_acceptCh l = [] \<and> (\<forall>u \<in> set (ul_heap l). uc_stage u \<noteq> Waiting) \<and>
       (\<forall>a p. ul_heap (read_datagram accept_filter a p l) = ul_heap l))"
proof -
  have inv: "udp_inv accept_filter l" by (rule udp.reachable_inv [OF refl assms])
  have count: "ul_connWG l = own_count (ul_close l) + accepted_count (ul_heap l)" using udp_invD(3) [OF inv] by (simp add: count_ok_def)
  have "0 \<le> ul_connWG l" using count accepted_count_nonneg [of "ul_heap l"] by (simp add: own_count_def)
  moreover have "ul_connWG l = 0 \<longleftrightarrow> ul_close l \<in> {WaitingReaders, CloseDone} \<and> (\<forall>u \<in> set (ul_heap l). uc_stage u \<noteq> Accepted)"
    using count accepted_count_nonneg [of "ul_heap l"] accepted_count_zero [of "ul_heap l"] by (cases "ul_close l") (simp_all add: own_count_def)
  moreover have "\<not> ul_accepting l \<and> ul_acceptCh l = [] \<and> (\<forall>u \<in> set (ul_heap l). uc_stage u \<noteq> Waiting)" if "\<not> ul_socketOpen l"
  proof -
    have "\<not> ul_accepting l" "ul_acceptCh l = []" using that udp_invD(4) [OF inv] by (auto simp: phase_ok_def)
    moreover from this(2) have "uc_stage (ul_heap l ! c) \<noteq> Waiting" if "c < length (ul_heap l)" for c
      using udp_invD(2) [OF inv] that by (auto simp: queue_ok_def)
    ultimately show ?thesis by (auto simp: in_set_conv_nth)
  qed
  moreover have "ul_heap (read_datagram accept_filter a p l) = ul_heap l" if "\<not> ul_accepting l" for a p
    using that by (simp add: read_datagram_def getConn_def Let_def split: option.split)
  ultimately show ?thesis by blast
qed

section \<open>An example\<close>

abbreviation "ex_filter \<equiv> \<lambda>p :: bytes. p \<noteq> []"
abbreviation "ex_room \<equiv> \<lambda>(q :: bytes list) (p :: bytes). length q < 2"

definition ex_conn :: "conn_stage \<Rightarrow> udpPacketConn" where
  "ex_conn s = \<lparr>uc_rAddr = ''a'', uc_buffer = [[22, 1]], uc_bufferClosed = False, uc_stage = s, uc_read = [], uc_since = 0\<rparr>"

definition ex_run :: "udpPacketListener list" where
  "ex_run =
    (let l1 = read_datagram ex_filter ''a'' [22, 1] newUDPPacketListener; l2 = dispatchMsg_write ex_room 0 [22, 1] l1;
         l3 = accept_take l2; l4 = close_begin l3; l5 = close_drain l4; l6 = l5\<lparr>ul_socketOpen := False\<rparr>
     in [l1, l2, l3, l4, l5, l6, accept_count 0 l6])"

lemmas ex_simps = ex_run_def read_datagram_def getConn_def newUDPPacketListener_def dispatchMsg_write_def
  buffer_write_def set_conn_def accept_take_def close_begin_def close_drain_def accept_count_def new_udp_conn_def
  udpReceiveMTU_def acceptBacklog_def try_send_def lock_free_def Let_def ex_conn_def

definition ex_labels :: "udp_label list" where
  "ex_labels = [Datagram ''a'' [22, 1], Internal, Offered ''a'', Shut, Internal, Internal, Internal]"

lemma ex_run_runs: "runs (udp_listener_step ex_filter ex_room) newUDPPacketListener ex_labels (ex_run ! 6)"
proof -
  have "udp_listener_step ex_filter ex_room (Datagram ''a'' [22, 1]) newUDPPacketListener (ex_run ! 0)"
    using udp_listener_step.datagram [of newUDPPacketListener ex_filter ex_room "''a''" "[22, 1]"] by (simp add: ex_simps)
  moreover have "udp_listener_step ex_filter ex_room Internal (ex_run ! 0) (ex_run ! 1)"
    using udp_listener_step.deliver [of "ex_run ! 0" 0 "[22, 1]" ex_filter ex_room] by (simp add: ex_simps)
  moreover have "udp_listener_step ex_filter ex_room (Offered ''a'') (ex_run ! 1) (ex_run ! 2)"
    using udp_listener_step.accept1 [of "ex_run ! 1" ex_filter ex_room] by (simp add: ex_simps)
  moreover have "udp_listener_step ex_filter ex_room Shut (ex_run ! 2) (ex_run ! 3)"
    using udp_listener_step.close1 [of "ex_run ! 2" ex_filter ex_room] by (simp add: ex_simps)
  moreover have "udp_listener_step ex_filter ex_room Internal (ex_run ! 3) (ex_run ! 4)"
    using udp_listener_step.close2 [of "ex_run ! 3" ex_filter ex_room] by (simp add: ex_simps drain_label_def)
  moreover have "udp_listener_step ex_filter ex_room Internal (ex_run ! 4) (ex_run ! 5)"
    using udp_listener_step.close_socket [of "ex_run ! 4" ex_filter ex_room] by (simp add: ex_simps)
  moreover have "udp_listener_step ex_filter ex_room Internal (ex_run ! 5) (ex_run ! 6)"
    using udp_listener_step.accept2 [of 0 "ex_run ! 5" ex_filter ex_room] by (simp add: ex_simps)
  ultimately show ?thesis unfolding ex_labels_def runs.simps by metis
qed

lemma ex_run_reached: "rtranclp (udp_step ex_filter ex_room) newUDPPacketListener (ex_run ! 6)"
  by (rule runs_steps [OF ex_run_runs])

text \<open>\<open>Accept\<close> counts a connection after it has received it. When \<open>Close\<close> runs in between, the count reaches zero, the
  socket is closed, and \<open>Accept\<close> then returns a connection whose socket is closed.\<close>

lemma accept_close_race:
  "\<exists>l. rtranclp (udp_step ex_filter ex_room) newUDPPacketListener l \<and> uc_stage (ul_heap l ! 0) = Accepted \<and>
     \<not> ul_socketOpen l \<and> conn_WriteTo 0 False p addr l = None"
  using ex_run_reached by (intro exI [of _ "ex_run ! 6"]) (simp add: ex_simps conn_WriteTo_def)

lemma udp_refines_demux_witness: "runs (demux_step ex_filter ex_room) demux_new ex_labels (demux_of (ex_run ! 6))"
  by (rule udp_refines_demux [OF ex_run_runs])

lemma udp_conn_isolated_witness: "subseq [[22, 1]] (received (ex_run ! 6) (ex_conn Accepted))"
proof -
  have u: "ex_conn Accepted = ul_heap (ex_run ! 6) ! 0" "0 < length (ul_heap (ex_run ! 6))" by (simp_all add: ex_simps)
  show ?thesis using udp_conn_isolated [OF ex_run_reached u(2,1)] by (simp add: ex_conn_def)
qed

lemma socket_closed_last_witness: "ul_heap (read_datagram ex_filter ''b'' [22] (ex_run ! 6)) = [ex_conn Accepted]"
proof -
  have "\<not> ul_socketOpen (ex_run ! 6)" "ul_heap (ex_run ! 6) = [ex_conn Accepted]" by (simp_all add: ex_simps)
  then show ?thesis using socket_closed_last [OF ex_run_reached] by simp
qed

end
