(* ===== verification/Stream_Proxy.thy ===== *)
theory Stream_Proxy
  imports Bond_Client "HOL-Library.Sublist"
begin

text \<open>
  Plain (not bonded) TCP connections: the client copies between the local connection and a stream of a
  session (\<open>pipe\<close> of \<open>clientcore/main.go\<close>), the server reads the first four bytes of the stream to tell
  a lane of a bonded connection from a plain one and copies between the stream and the backend
  (\<open>handleVLESSConnection\<close>, \<open>prefixedConn\<close>, \<open>pipeConn\<close> of \<open>server/main.go\<close>). The two directions of a pipe
  are goroutines; a read or a write of either is a step, and what the connections answer is up to the
  environment. \<open>io.Copy\<close> is the loop of the standard library.
\<close>

section \<open>One direction\<close>

datatype copy_pc = CopyRead | CopyWrite bytes "io_error option" | CopyDone bool

record copy_loop =
  cp_pc :: copy_pc
  cp_read :: bytes
  cp_written :: bytes

definition copy_start :: copy_loop where
  "copy_start = \<lparr>cp_pc = CopyRead, cp_read = [], cp_written = []\<rparr>"

definition copyBufferSize :: nat where "copyBufferSize = 32 * 1024"

text \<open>\<open>CopyDone\<close> holds whether \<open>io.Copy\<close> returns an error.\<close>

definition after_read :: "io_error option \<Rightarrow> copy_pc" where
  "after_read e = (case e of None \<Rightarrow> CopyRead | Some err \<Rightarrow> CopyDone (err \<noteq> EOF))"

definition copy_read :: "bytes \<times> io_error option \<Rightarrow> copy_loop \<Rightarrow> copy_loop" where
  "copy_read r c =
     (case r of (data, e) \<Rightarrow>
        c\<lparr>cp_read := cp_read c @ data, cp_pc := (if data \<noteq> [] then CopyWrite data e else after_read e)\<rparr>)"

text \<open>A write takes \<open>n\<close> of the bytes; fewer than all are an error.\<close>

definition copy_write :: "nat \<Rightarrow> bool \<Rightarrow> copy_loop \<Rightarrow> copy_loop" where
  "copy_write n failed c =
     (case cp_pc c of
        CopyWrite data e \<Rightarrow>
          c\<lparr>cp_written := cp_written c @ take n data,
            cp_pc := (if failed \<or> n < length data then CopyDone True else after_read e)\<rparr>
      | _ \<Rightarrow> c)"

definition copy_ended :: "copy_loop \<Rightarrow> bool" where
  "copy_ended c = (case cp_pc c of CopyDone _ \<Rightarrow> True | _ \<Rightarrow> False)"

section \<open>The server\<close>

text \<open>What \<open>prefixedConn.Read\<close> returns when the connection would answer \<open>r\<close>, and the prefix that is left.\<close>

definition prefixed_read :: "nat \<Rightarrow> bytes \<times> io_error option \<Rightarrow> bytes \<Rightarrow> (bytes \<times> io_error option) \<times> bytes" where
  "prefixed_read n r pre =
     (if pre \<noteq> [] then ((take n pre, None), drop n pre) else (r, pre))"

datatype stream_plan = DropStream | BondStream bytes | PlainStream bytes

text \<open>What the server does with a new stream, and what is left of it after the look-ahead: it is closed when it ends
  within four bytes.\<close>

definition accept_stream :: "reader \<Rightarrow> stream_plan \<times> reader" where
  "accept_stream s =
     (case ReadFull 4 s of
        (Inl _, s') \<Rightarrow> (DropStream, s')
      | (Inr pre, s') \<Rightarrow> (if pre = bondMagic then BondStream pre else PlainStream pre, s'))"

text \<open>\<open>sp_conn\<close> is what the stream itself has given to the pipe.\<close>

record server_pipe =
  sp_up :: copy_loop
  sp_down :: copy_loop
  sp_prefix :: bytes
  sp_conn :: bytes
  sp_returned :: bool

definition server_pipe_start :: "bytes \<Rightarrow> server_pipe" where
  "server_pipe_start pre =
     \<lparr>sp_up = copy_start, sp_down = copy_start, sp_prefix = pre, sp_conn = [], sp_returned = False\<rparr>"

definition server_up_read :: "bytes \<times> io_error option \<Rightarrow> server_pipe \<Rightarrow> server_pipe" where
  "server_up_read r p =
     (let (r', pre) = prefixed_read copyBufferSize r (sp_prefix p)
      in p\<lparr>sp_up := copy_read r' (sp_up p), sp_prefix := pre,
           sp_conn := sp_conn p @ (if sp_prefix p = [] then fst r else [])\<rparr>)"

inductive pipeConn_step :: "server_pipe \<Rightarrow> server_pipe \<Rightarrow> bool" where
  up_read: "cp_pc (sp_up p) = CopyRead \<Longrightarrow> length (fst r) \<le> copyBufferSize \<Longrightarrow> pipeConn_step p (server_up_read r p)"
| up_write: "cp_pc (sp_up p) = CopyWrite data e \<Longrightarrow> n \<le> length data
     \<Longrightarrow> pipeConn_step p (p\<lparr>sp_up := copy_write n failed (sp_up p)\<rparr>)"
| down_read: "cp_pc (sp_down p) = CopyRead \<Longrightarrow> length (fst r) \<le> copyBufferSize
     \<Longrightarrow> pipeConn_step p (p\<lparr>sp_down := copy_read r (sp_down p)\<rparr>)"
| down_write: "cp_pc (sp_down p) = CopyWrite data e \<Longrightarrow> n \<le> length data
     \<Longrightarrow> pipeConn_step p (p\<lparr>sp_down := copy_write n failed (sp_down p)\<rparr>)"
| return: "copy_ended (sp_up p) \<Longrightarrow> copy_ended (sp_down p) \<Longrightarrow> \<not> sp_returned p
     \<Longrightarrow> pipeConn_step p (p\<lparr>sp_returned := True\<rparr>)"

section \<open>The client\<close>

text \<open>\<open>cc_cancelled\<close>: the context is cancelled as soon as one direction ends, and both connections get a deadline
  in the past.\<close>

record client_pipe =
  cc_to_local :: copy_loop
  cc_to_stream :: copy_loop
  cc_cancelled :: bool
  cc_result :: "(nat \<times> nat) option"

definition client_pipe_start :: client_pipe where
  "client_pipe_start = \<lparr>cc_to_local = copy_start, cc_to_stream = copy_start, cc_cancelled = False, cc_result = None\<rparr>"

inductive pipe_step :: "client_pipe \<Rightarrow> client_pipe \<Rightarrow> bool" where
  local_read: "cp_pc (cc_to_local p) = CopyRead \<Longrightarrow> length (fst r) \<le> copyBufferSize
     \<Longrightarrow> pipe_step p (p\<lparr>cc_to_local := copy_read r (cc_to_local p)\<rparr>)"
| local_write: "cp_pc (cc_to_local p) = CopyWrite data e \<Longrightarrow> n \<le> length data
     \<Longrightarrow> pipe_step p (p\<lparr>cc_to_local := copy_write n failed (cc_to_local p)\<rparr>)"
| stream_read: "cp_pc (cc_to_stream p) = CopyRead \<Longrightarrow> length (fst r) \<le> copyBufferSize
     \<Longrightarrow> pipe_step p (p\<lparr>cc_to_stream := copy_read r (cc_to_stream p)\<rparr>)"
| stream_write: "cp_pc (cc_to_stream p) = CopyWrite data e \<Longrightarrow> n \<le> length data
     \<Longrightarrow> pipe_step p (p\<lparr>cc_to_stream := copy_write n failed (cc_to_stream p)\<rparr>)"
| cancel: "copy_ended (cc_to_local p) \<or> copy_ended (cc_to_stream p) \<Longrightarrow> pipe_step p (p\<lparr>cc_cancelled := True\<rparr>)"
| return: "copy_ended (cc_to_local p) \<Longrightarrow> copy_ended (cc_to_stream p) \<Longrightarrow> cc_cancelled p \<Longrightarrow> cc_result p = None
     \<Longrightarrow> pipe_step p (p\<lparr>cc_result := Some (length (cp_written (cc_to_local p)), length (cp_written (cc_to_stream p)))\<rparr>)"

section \<open>Invariants\<close>

definition copy_ok :: "copy_loop \<Rightarrow> bool" where
  "copy_ok c \<longleftrightarrow>
     (case cp_pc c of
        CopyRead \<Rightarrow> cp_written c = cp_read c
      | CopyWrite data e \<Rightarrow> cp_read c = cp_written c @ data
      | CopyDone failed \<Rightarrow> if failed then prefix (cp_written c) (cp_read c) else cp_written c = cp_read c)"

lemma copy_start_ok [simp]: "copy_ok copy_start"
  by (simp add: copy_ok_def copy_start_def)

lemma copy_read_ok: "copy_ok c \<Longrightarrow> cp_pc c = CopyRead \<Longrightarrow> copy_ok (copy_read r c)"
  by (auto simp: copy_ok_def copy_read_def after_read_def split: prod.splits option.splits)

lemma copy_write_ok: "copy_ok c \<Longrightarrow> n \<le> length data \<Longrightarrow> cp_pc c = CopyWrite data e \<Longrightarrow> copy_ok (copy_write n failed c)"
  by (auto simp: copy_ok_def copy_write_def after_read_def prefix_def split: option.splits)
    (metis append_take_drop_id)+

lemma copy_write_read [simp]: "cp_read (copy_write n failed c) = cp_read c"
  by (simp add: copy_write_def split: copy_pc.split)

lemma copy_ok_prefix: "copy_ok c \<Longrightarrow> prefix (cp_written c) (cp_read c)"
  by (auto simp: copy_ok_def split: copy_pc.splits if_splits)

lemma copy_ok_clean: "copy_ok c \<Longrightarrow> cp_pc c = CopyDone False \<Longrightarrow> cp_written c = cp_read c"
  by (simp add: copy_ok_def)

text \<open>What the pipe of the server has read from the stream is what it was given of the prefix and then of the
  stream.\<close>

definition server_pipe_ok :: "bytes \<Rightarrow> server_pipe \<Rightarrow> bool" where
  "server_pipe_ok pre p \<longleftrightarrow> copy_ok (sp_up p) \<and> copy_ok (sp_down p) \<and>
     cp_read (sp_up p) @ sp_prefix p = pre @ sp_conn p \<and> (sp_prefix p \<noteq> [] \<longrightarrow> sp_conn p = []) \<and>
     (sp_prefix p \<noteq> [] \<longrightarrow> (case cp_pc (sp_up p) of CopyRead \<Rightarrow> True | CopyWrite _ e \<Rightarrow> e = None | CopyDone failed \<Rightarrow> failed)) \<and>
     (sp_returned p \<longrightarrow> copy_ended (sp_up p) \<and> copy_ended (sp_down p))"

lemma server_up_read_ok:
  assumes "server_pipe_ok pre p" and "cp_pc (sp_up p) = CopyRead"
  shows "server_pipe_ok pre (server_up_read r p)"
proof (cases "sp_prefix p = []")
  case True
  then show ?thesis using assms copy_read_ok [of "sp_up p" r]
    by (cases r) (auto simp: server_pipe_ok_def server_up_read_def prefixed_read_def copy_read_def copy_ended_def)
next
  case False
  then show ?thesis using assms copy_read_ok [of "sp_up p" "(take copyBufferSize (sp_prefix p), None)"]
    by (auto simp: server_pipe_ok_def server_up_read_def prefixed_read_def copy_read_def copy_ended_def after_read_def)
qed

lemma pipeConn_step_ok: "pipeConn_step p p' \<Longrightarrow> server_pipe_ok pre p \<Longrightarrow> server_pipe_ok pre p'"
proof (induction rule: pipeConn_step.induct)
  case (up_read p r)
  then show ?case by (intro server_up_read_ok)
next
  case (up_write p data e n failed)
  then show ?case using copy_write_ok [of "sp_up p"]
    by (auto simp: server_pipe_ok_def copy_ended_def copy_write_def after_read_def)
next
  case (down_read p r)
  then show ?case using copy_read_ok [of "sp_down p"] by (auto simp: server_pipe_ok_def copy_ended_def)
next
  case (down_write p data e n failed)
  then show ?case using copy_write_ok [of "sp_down p"] by (auto simp: server_pipe_ok_def copy_ended_def)
qed (simp add: server_pipe_ok_def)

lemma server_pipe_start_ok: "server_pipe_ok pre (server_pipe_start pre)"
  by (simp add: server_pipe_ok_def server_pipe_start_def) (simp add: copy_start_def)

interpretation server_pipes: invariant_system "\<lambda>p. p = server_pipe_start pre" pipeConn_step "server_pipe_ok pre" for pre
  by unfold_locales (use server_pipe_start_ok pipeConn_step_ok in blast)+

definition client_pipe_ok :: "client_pipe \<Rightarrow> bool" where
  "client_pipe_ok p \<longleftrightarrow> copy_ok (cc_to_local p) \<and> copy_ok (cc_to_stream p) \<and>
     (cc_cancelled p \<longrightarrow> copy_ended (cc_to_local p) \<or> copy_ended (cc_to_stream p)) \<and>
     (\<forall>a b. cc_result p = Some (a, b) \<longrightarrow> copy_ended (cc_to_local p) \<and> copy_ended (cc_to_stream p) \<and>
        a = length (cp_written (cc_to_local p)) \<and> b = length (cp_written (cc_to_stream p)))"

lemma pipe_step_ok: "pipe_step p p' \<Longrightarrow> client_pipe_ok p \<Longrightarrow> client_pipe_ok p'"
proof (induction rule: pipe_step.induct)
  case (local_read p r)
  then show ?case using copy_read_ok [of "cc_to_local p"] by (auto simp: client_pipe_ok_def copy_ended_def)
next
  case (local_write p data e n failed)
  then show ?case using copy_write_ok [of "cc_to_local p"] by (auto simp: client_pipe_ok_def copy_ended_def)
next
  case (stream_read p r)
  then show ?case using copy_read_ok [of "cc_to_stream p"] by (auto simp: client_pipe_ok_def copy_ended_def)
next
  case (stream_write p data e n failed)
  then show ?case using copy_write_ok [of "cc_to_stream p"] by (auto simp: client_pipe_ok_def copy_ended_def)
qed (auto simp: client_pipe_ok_def)

lemma client_pipe_start_ok: "client_pipe_ok client_pipe_start"
  by (simp add: client_pipe_ok_def client_pipe_start_def)

interpretation client_pipes: invariant_system "\<lambda>p. p = client_pipe_start" pipe_step client_pipe_ok
  by unfold_locales (use client_pipe_start_ok pipe_step_ok in blast)+

section \<open>Properties\<close>

text \<open>The two pipes together, for a prefix and a rest that make up what the session delivered.\<close>

lemma pipes_carry:
  assumes client: "client_pipe_ok c" and server: "server_pipe_ok pre p"
    and "prefix whole (cp_written (cc_to_stream c))" and "pre @ rest = whole"
    and pipes: "prefix (sp_conn p) rest" "prefix (cp_read (cc_to_local c)) (cp_written (sp_down p))"
  shows "prefix (cp_written (sp_up p)) (cp_read (cc_to_stream c)) \<and>
    prefix (cp_written (cc_to_local c)) (cp_read (sp_down p)) \<and>
    (cp_pc (sp_up p) = CopyDone False \<and> cp_pc (cc_to_stream c) = CopyDone False \<and>
       whole = cp_written (cc_to_stream c) \<and> sp_conn p = rest \<longrightarrow>
     cp_written (sp_up p) = cp_read (cc_to_stream c))"
proof -
  have up: "prefix (cp_written (sp_up p)) (cp_read (sp_up p))" and read: "cp_read (sp_up p) @ sp_prefix p = pre @ sp_conn p"
    and down: "prefix (cp_written (sp_down p)) (cp_read (sp_down p))"
    using server copy_ok_prefix by (auto simp: server_pipe_ok_def)
  have sent: "prefix (cp_written (cc_to_stream c)) (cp_read (cc_to_stream c))"
    and shown: "prefix (cp_written (cc_to_local c)) (cp_read (cc_to_local c))"
    using client copy_ok_prefix by (auto simp: client_pipe_ok_def)
  have "prefix (pre @ sp_conn p) whole" using pipes(1) assms(4) by auto
  then have "prefix (cp_read (sp_up p)) (cp_written (cc_to_stream c))" using assms(3) read by (metis prefixI prefix_order.trans)
  then have "prefix (cp_written (sp_up p)) (cp_read (cc_to_stream c))" using up sent by (meson prefix_order.trans)
  moreover have "prefix (cp_written (cc_to_local c)) (cp_read (sp_down p))" using shown pipes(2) down by (meson prefix_order.trans)
  moreover have "cp_written (sp_up p) = cp_read (cc_to_stream c)"
    if "cp_pc (sp_up p) = CopyDone False" "cp_pc (cc_to_stream c) = CopyDone False"
      "whole = cp_written (cc_to_stream c)" "sp_conn p = rest"
  proof -
    have "sp_prefix p = []" "cp_written (sp_up p) = cp_read (sp_up p)" "cp_written (cc_to_stream c) = cp_read (cc_to_stream c)"
      using that server client copy_ok_clean by (auto simp: server_pipe_ok_def client_pipe_ok_def)
    then show ?thesis using read that(3,4) assms(4) by simp
  qed
  ultimately show ?thesis by blast
qed

text \<open>The look-ahead loses nothing: the prefix and what is left of the stream are the stream.\<close>

lemma accept_stream_cases:
  "accept_stream s = (if length (rd_bytes s) < 4 then (DropStream, s\<lparr>rd_bytes := []\<rparr>)
     else (if take 4 (rd_bytes s) = bondMagic then BondStream bondMagic else PlainStream (take 4 (rd_bytes s)),
           s\<lparr>rd_bytes := drop 4 (rd_bytes s)\<rparr>))"
  by (auto simp: accept_stream_def ReadFull_def Let_def)

text \<open>C24: A plain TCP connection through the tunnel. The session gives the server, as the stream \<open>s\<close>, a prefix of what
  the client has written to it. If that has four bytes and they are not the magic of a bond, the server starts a pipe on
  what is left of the stream, and however the two pipes run: the backend is sent a prefix of what the local
  connection sent, from its first byte on, and the local connection a prefix of what the backend sent; when both copies
  of the upload end cleanly and the stream has carried everything, the backend got all of it. The counts the client
  reports are the bytes it wrote.\<close>

theorem stream_tunnel:
  assumes "rtranclp pipe_step client_pipe_start c"
    and "prefix (rd_bytes s) (cp_written (cc_to_stream c))" and "4 \<le> length (rd_bytes s)" and "take 4 (rd_bytes s) \<noteq> bondMagic"
  shows "\<exists>pre rest. accept_stream s = (PlainStream pre, rest) \<and>
    (\<forall>p. rtranclp pipeConn_step (server_pipe_start pre) p \<and> prefix (sp_conn p) (rd_bytes rest) \<and>
         prefix (cp_read (cc_to_local c)) (cp_written (sp_down p)) \<longrightarrow>
       prefix (cp_written (sp_up p)) (cp_read (cc_to_stream c)) \<and>
       prefix (cp_written (cc_to_local c)) (cp_read (sp_down p)) \<and>
       (cp_pc (sp_up p) = CopyDone False \<and> cp_pc (cc_to_stream c) = CopyDone False \<and>
          rd_bytes s = cp_written (cc_to_stream c) \<and> sp_conn p = rd_bytes rest \<longrightarrow>
        cp_written (sp_up p) = cp_read (cc_to_stream c))) \<and>
    (\<forall>a b. cc_result c = Some (a, b) \<longrightarrow>
       a = length (cp_written (cc_to_local c)) \<and> b = length (cp_written (cc_to_stream c)))"
proof (intro exI conjI)
  let ?pre = "take 4 (rd_bytes s)" and ?rest = "s\<lparr>rd_bytes := drop 4 (rd_bytes s)\<rparr>"
  show acc: "accept_stream s = (PlainStream ?pre, ?rest)" using assms(3,4) by (simp add: accept_stream_cases)
  have client: "client_pipe_ok c" by (rule client_pipes.reachable_inv [OF refl assms(1)])
  then show "\<forall>a b. cc_result c = Some (a, b) \<longrightarrow> a = length (cp_written (cc_to_local c)) \<and> b = length (cp_written (cc_to_stream c))"
    by (auto simp: client_pipe_ok_def)
  have whole: "?pre @ rd_bytes ?rest = rd_bytes s" by simp
  show "\<forall>p. rtranclp pipeConn_step (server_pipe_start ?pre) p \<and> prefix (sp_conn p) (rd_bytes ?rest) \<and>
         prefix (cp_read (cc_to_local c)) (cp_written (sp_down p)) \<longrightarrow>
       prefix (cp_written (sp_up p)) (cp_read (cc_to_stream c)) \<and>
       prefix (cp_written (cc_to_local c)) (cp_read (sp_down p)) \<and>
       (cp_pc (sp_up p) = CopyDone False \<and> cp_pc (cc_to_stream c) = CopyDone False \<and>
          rd_bytes s = cp_written (cc_to_stream c) \<and> sp_conn p = rd_bytes ?rest \<longrightarrow>
        cp_written (sp_up p) = cp_read (cc_to_stream c))"
    by (intro allI impI pipes_carry [OF client _ assms(2) whole]) (auto intro: server_pipes.reachable_inv [OF refl])
qed

text \<open>When the backend has closed its side, the pipe of the server passes nothing on to the client: until the stream
  gives it something, it takes no step at all.\<close>

lemma server_pipe_waits:
  assumes "copy_ended (sp_down p)" and "cp_pc (sp_up p) = CopyRead" and "pipeConn_step p p'"
  shows "\<exists>r. p' = server_up_read r p"
  using assms(3) by cases (use assms(1,2) in \<open>auto simp: copy_ended_def\<close>)

text \<open>The example: the local connection sends five bytes, the backend answers two.\<close>

lemma stream_tunnel_witness:
  "\<exists>(c :: client_pipe) (p :: server_pipe). cp_read (cc_to_stream c) = [1, 2, 3, 4, 5] \<and>
     cp_pc (sp_up p) = CopyDone False \<and> cp_written (sp_up p) = cp_read (cc_to_stream c)"
proof -
  define s where "s = \<lparr>rd_bytes = [1, 2, 3, 4, 5], rd_end = EOF\<rparr>"
  define c1 where "c1 = client_pipe_start\<lparr>cc_to_stream := copy_read ([1, 2, 3, 4, 5], Some EOF) copy_start\<rparr>"
  define c2 where "c2 = c1\<lparr>cc_to_stream := copy_write 5 False (cc_to_stream c1)\<rparr>"
  define p0 where "p0 = server_pipe_start [1, 2, 3, 4]"
  define p1 where "p1 = server_up_read ([], None) p0"
  define p2 where "p2 = p1\<lparr>sp_up := copy_write 4 False (sp_up p1)\<rparr>"
  define p3 where "p3 = server_up_read ([5], Some EOF) p2"
  define p4 where "p4 = p3\<lparr>sp_up := copy_write 1 False (sp_up p3)\<rparr>"
  note defs = p4_def p3_def c2_def c1_def p2_def p1_def p0_def server_up_read_def prefixed_read_def server_pipe_start_def
    client_pipe_start_def copy_read_def copy_write_def copy_start_def copyBufferSize_def after_read_def
  have c: "rtranclp pipe_step client_pipe_start c2"
  proof -
    have "pipe_step client_pipe_start c1"
      using pipe_step.stream_read [of client_pipe_start "([1, 2, 3, 4, 5], Some EOF)"] by (simp add: defs)
    moreover have "pipe_step c1 c2"
      using pipe_step.stream_write [of c1 "[1, 2, 3, 4, 5]" "Some EOF" 5 False] by (simp add: defs)
    ultimately show ?thesis by (meson rtranclp.rtrancl_into_rtrancl rtranclp.rtrancl_refl)
  qed
  have p: "rtranclp pipeConn_step (server_pipe_start [1, 2, 3, 4]) p4"
  proof -
    have "pipeConn_step p0 p1" using pipeConn_step.up_read [of p0 "([], None)"] by (simp add: defs)
    moreover have "pipeConn_step p1 p2" using pipeConn_step.up_write [of p1 "[1, 2, 3, 4]" None 4 False] by (simp add: defs)
    moreover have "pipeConn_step p2 p3" using pipeConn_step.up_read [of p2 "([5], Some EOF)"] by (simp add: defs)
    moreover have "pipeConn_step p3 p4" using pipeConn_step.up_write [of p3 "[5]" "Some EOF" 1 False] by (simp add: defs)
    ultimately show ?thesis unfolding p0_def by (meson rtranclp.rtrancl_into_rtrancl rtranclp.rtrancl_refl)
  qed
  have s: "prefix (rd_bytes s) (cp_written (cc_to_stream c2))" "4 \<le> length (rd_bytes s)" "take 4 (rd_bytes s) \<noteq> bondMagic"
    and a: "accept_stream s = (PlainStream [1, 2, 3, 4], s\<lparr>rd_bytes := [5]\<rparr>)"
    by (simp_all add: s_def defs bondMagic_def accept_stream_cases)
  have ends: "cp_pc (sp_up p4) = CopyDone False" "cp_pc (cc_to_stream c2) = CopyDone False" "cp_read (cc_to_stream c2) = [1, 2, 3, 4, 5]"
    "rd_bytes s = cp_written (cc_to_stream c2)" "sp_conn p4 = [5]" "cp_read (cc_to_local c2) = []"
    by (simp_all add: s_def defs)
  have "cp_written (sp_up p4) = cp_read (cc_to_stream c2)"
    using stream_tunnel [OF c s] a p ends by auto
  then show ?thesis using ends by blast
qed

end
