(* ===== verification/Legacy_Udp.thy ===== *)
theory Legacy_Udp
  imports Session_Preface Server_Metrics "HOL-Library.Sublist"
begin

text \<open>
  A UDP connection of a client without the session preface (\<open>handleUDPConnection\<close> and
  \<open>handleLegacyUDPConnection\<close> of \<open>server/main.go\<close>): one DTLS connection, one socket to the backend, and a
  goroutine for each direction. Every check of the context, read and write of a goroutine is a step; what
  the connections answer is up to the environment. \<open>lg_arrived\<close>, \<open>lg_backend_in\<close>, \<open>lg_toBackend\<close> and
  \<open>lg_toClient\<close> are the history: the packets read and written, with a mark on the echoes of probes.
\<close>

section \<open>State\<close>

datatype udp_route = AggregatedRoute udpSessionHello | LegacyRoute bytes

text \<open>The first packet decides; the buffer has 1600 bytes.\<close>

definition udpBufferSize :: nat where "udpBufferSize = 1600"

definition handleUDPConnection :: "bytes option \<Rightarrow> udp_route option" where
  "handleUDPConnection first_read =
     (case first_read of
        None \<Rightarrow> None
      | Some first \<Rightarrow>
          (case parseUDPSessionPreface first of
             Some hello \<Rightarrow> Some (AggregatedRoute hello)
           | None \<Rightarrow> Some (LegacyRoute first)))"

datatype up_pc = UpCheck | UpRead | UpHandle bytes | UpDone

datatype down_pc = DownCheck | DownRead | DownWrite bytes | DownDone

record legacy =
  lg_up :: up_pc
  lg_down :: down_pc
  lg_pending :: "bytes option"
  lg_cancelled :: bool
  lg_stats_tx :: u64
  lg_stats_rx :: u64
  lg_metrics :: serverMetrics
  lg_arrived :: "bytes list"
  lg_toBackend :: "bytes list"
  lg_backend_in :: "bytes list"
  lg_toClient :: "(bool \<times> bytes) list"

definition legacy_start :: "bytes \<Rightarrow> serverMetrics \<Rightarrow> legacy" where
  "legacy_start first m =
     \<lparr>lg_up = UpCheck, lg_down = DownCheck, lg_pending = Some first, lg_cancelled = False,
      lg_stats_tx = 0, lg_stats_rx = 0, lg_metrics = m, lg_arrived = [first], lg_toBackend = [],
      lg_backend_in = [], lg_toClient = []\<rparr>"

text \<open>The socket to the backend cannot be opened: the packet is lost with the connection.\<close>

definition legacy_dial_failed :: "serverMetrics \<Rightarrow> serverMetrics" where
  "legacy_dial_failed m = recordBackendError ''dial'' m"

definition throughput_add :: "nat \<Rightarrow> u64 \<Rightarrow> u64" where
  "throughput_add n tally = (if 0 < n then tally + of_nat n else tally)"

section \<open>From the client to the backend\<close>

definition up_exit :: "legacy \<Rightarrow> legacy" where
  "up_exit l = l\<lparr>lg_up := UpDone, lg_cancelled := True\<rparr>"

definition up_check :: "legacy \<Rightarrow> legacy" where
  "up_check l =
     (if lg_cancelled l then up_exit l
      else case lg_pending l of
             Some packet \<Rightarrow> l\<lparr>lg_pending := None, lg_up := UpHandle packet\<rparr>
           | None \<Rightarrow> l\<lparr>lg_up := UpRead\<rparr>)"

text \<open>\<open>None\<close>: the deadline cannot be set or the read fails.\<close>

definition up_read :: "bytes option \<Rightarrow> legacy \<Rightarrow> legacy" where
  "up_read r l =
     (case r of
        None \<Rightarrow> up_exit l
      | Some packet \<Rightarrow> l\<lparr>lg_up := UpHandle packet, lg_arrived := lg_arrived l @ [packet]\<rparr>)"

text \<open>A probe is echoed on the same connection, any other packet goes to the backend; \<open>written\<close> is the number
  of bytes a failed write has taken.\<close>

datatype write_outcome = Written | DeadlineFailed | WriteFailed nat

definition up_handle :: "write_outcome \<Rightarrow> bytes \<Rightarrow> legacy \<Rightarrow> legacy" where
  "up_handle w packet l =
     (if parseProbePacket packet \<noteq> None
      then (case w of
              Written \<Rightarrow> l\<lparr>lg_up := UpCheck, lg_toClient := lg_toClient l @ [(True, packet)]\<rparr>
            | _ \<Rightarrow> up_exit l)
      else (case w of
              Written \<Rightarrow>
                l\<lparr>lg_up := UpCheck, lg_toBackend := lg_toBackend l @ [packet],
                  lg_stats_tx := throughput_add (length packet) (lg_stats_tx l),
                  lg_metrics := (lg_metrics l)\<lparr>m_packetsToBackend := m_packetsToBackend (lg_metrics l) + 1\<rparr>\<rparr>
            | DeadlineFailed \<Rightarrow> up_exit l
            | WriteFailed n \<Rightarrow>
                up_exit (l\<lparr>lg_stats_tx := throughput_add n (lg_stats_tx l),
                           lg_metrics := recordBackendError ''write'' (lg_metrics l)\<rparr>)))"

section \<open>From the backend to the client\<close>

definition down_exit :: "legacy \<Rightarrow> legacy" where
  "down_exit l = l\<lparr>lg_down := DownDone, lg_cancelled := True\<rparr>"

definition down_check :: "legacy \<Rightarrow> legacy" where
  "down_check l = (if lg_cancelled l then down_exit l else l\<lparr>lg_down := DownRead\<rparr>)"

datatype read_outcome = Datagram bytes | NoDeadline | ReadError

text \<open>A datagram that is longer than the buffer is cut off. A failed read counts unless the context was cancelled.\<close>

definition legacy_down_read :: "read_outcome \<Rightarrow> legacy \<Rightarrow> legacy" where
  "legacy_down_read r l =
     (case r of
        Datagram d \<Rightarrow>
          l\<lparr>lg_down := DownWrite (take udpBufferSize d), lg_backend_in := lg_backend_in l @ [d]\<rparr>
      | NoDeadline \<Rightarrow> down_exit l
      | ReadError \<Rightarrow>
          down_exit (if lg_cancelled l then l
                     else l\<lparr>lg_metrics := recordBackendError ''read'' (lg_metrics l)\<rparr>))"

definition down_write :: "write_outcome \<Rightarrow> bytes \<Rightarrow> legacy \<Rightarrow> legacy" where
  "down_write w packet l =
     (case w of
        Written \<Rightarrow>
          l\<lparr>lg_down := DownCheck, lg_toClient := lg_toClient l @ [(False, packet)],
            lg_stats_rx := throughput_add (length packet) (lg_stats_rx l),
            lg_metrics := (lg_metrics l)\<lparr>m_packetsFromBackend := m_packetsFromBackend (lg_metrics l) + 1\<rparr>\<rparr>
      | DeadlineFailed \<Rightarrow> down_exit l
      | WriteFailed n \<Rightarrow> down_exit (l\<lparr>lg_stats_rx := throughput_add n (lg_stats_rx l)\<rparr>))"

section \<open>Steps\<close>

inductive legacy_step :: "legacy \<Rightarrow> legacy \<Rightarrow> bool" where
  check_up: "lg_up l = UpCheck \<Longrightarrow> legacy_step l (up_check l)"
| read_up: "lg_up l = UpRead \<Longrightarrow> \<forall>p. r = Some p \<longrightarrow> length p \<le> udpBufferSize \<Longrightarrow> legacy_step l (up_read r l)"
| handle_up: "lg_up l = UpHandle packet \<Longrightarrow> legacy_step l (up_handle w packet l)"
| check_down: "lg_down l = DownCheck \<Longrightarrow> legacy_step l (down_check l)"
| read_down: "lg_down l = DownRead \<Longrightarrow> legacy_step l (legacy_down_read r l)"
| write_down: "lg_down l = DownWrite packet \<Longrightarrow> legacy_step l (down_write w packet l)"
| parent: "legacy_step l (l\<lparr>lg_cancelled := True\<rparr>)"

section \<open>Invariant\<close>

definition is_probe :: "bytes \<Rightarrow> bool" where
  "is_probe p \<longleftrightarrow> parseProbePacket p \<noteq> None"

text \<open>The packets that a goroutine is done with: all that were read but the one in its hands.\<close>

definition settled :: "bytes list \<Rightarrow> bytes list \<Rightarrow> bytes list \<Rightarrow> bool" where
  "settled ps sent echoed \<longleftrightarrow> sent = filter (\<lambda>p. \<not> is_probe p) ps \<and> echoed = filter is_probe ps"

definition up_at :: "up_pc \<Rightarrow> bytes option \<Rightarrow> bytes list \<Rightarrow> bytes list \<Rightarrow> bytes list \<Rightarrow> bool" where
  "up_at pc pending arrived sent echoed \<longleftrightarrow>
     (case pc of
        UpCheck \<Rightarrow> (case pending of None \<Rightarrow> settled arrived sent echoed | Some p \<Rightarrow> arrived = [p] \<and> settled [] sent echoed)
      | UpRead \<Rightarrow> pending = None \<and> settled arrived sent echoed
      | UpHandle p \<Rightarrow> pending = None \<and> (\<exists>ps. arrived = ps @ [p] \<and> settled ps sent echoed)
      | UpDone \<Rightarrow> \<exists>ps. (arrived = ps \<or> (\<exists>p. arrived = ps @ [p])) \<and> settled ps sent echoed)"

definition echoes :: "legacy \<Rightarrow> bytes list" where
  "echoes l = map snd (filter fst (lg_toClient l))"

definition forwarded :: "legacy \<Rightarrow> bytes list" where
  "forwarded l = map snd (filter (\<lambda>w. \<not> fst w) (lg_toClient l))"

definition up_ok :: "legacy \<Rightarrow> bool" where
  "up_ok l \<longleftrightarrow> up_at (lg_up l) (lg_pending l) (lg_arrived l) (lg_toBackend l) (echoes l)"

definition down_at :: "down_pc \<Rightarrow> bytes list \<Rightarrow> bytes list \<Rightarrow> bool" where
  "down_at pc arrived sent \<longleftrightarrow>
     (case pc of
        DownWrite p \<Rightarrow> arrived = sent @ [p]
      | DownDone \<Rightarrow> arrived = sent \<or> (\<exists>p. arrived = sent @ [p])
      | _ \<Rightarrow> arrived = sent)"

definition down_ok :: "legacy \<Rightarrow> bool" where
  "down_ok l \<longleftrightarrow> down_at (lg_down l) (map (take udpBufferSize) (lg_backend_in l)) (forwarded l)"

definition count_ok :: "serverMetrics \<Rightarrow> legacy \<Rightarrow> bool" where
  "count_ok m l \<longleftrightarrow>
     m_packetsToBackend (lg_metrics l) = m_packetsToBackend m + of_nat (length (lg_toBackend l)) \<and>
     m_packetsFromBackend (lg_metrics l) = m_packetsFromBackend m + of_nat (length (forwarded l)) \<and>
     (lg_up l = UpDone \<or> lg_down l = DownDone \<longrightarrow> lg_cancelled l)"

definition legacy_ok :: "serverMetrics \<Rightarrow> legacy \<Rightarrow> bool" where
  "legacy_ok m l \<longleftrightarrow> up_ok l \<and> down_ok l \<and> count_ok m l"

lemma legacy_start_ok: "legacy_ok m (legacy_start first m)"
  by (simp add: legacy_ok_def up_ok_def up_at_def settled_def down_ok_def down_at_def count_ok_def legacy_start_def echoes_def forwarded_def)

lemma recordBackendError_packets [simp]:
  "m_packetsToBackend (recordBackendError s m) = m_packetsToBackend m"
  "m_packetsFromBackend (recordBackendError s m) = m_packetsFromBackend m"
  by (simp_all add: recordBackendError_def)

lemmas legacy_ops = up_check_def up_read_def up_handle_def up_exit_def down_check_def legacy_down_read_def down_write_def
  down_exit_def echoes_def forwarded_def

lemma up_at_settled:
  assumes "up_at pc pending arrived sent echoed"
  shows "\<exists>ps rest. arrived = ps @ rest \<and> length rest \<le> 1 \<and> settled ps sent echoed"
proof -
  consider (all) "settled arrived sent echoed" | (none) p where "arrived = [p]" "settled [] sent echoed"
    | (last) ps p where "arrived = ps @ [p]" "settled ps sent echoed"
    using assms by (cases pc; cases pending) (auto simp: up_at_def)
  then show ?thesis
  proof cases
    case all
    then show ?thesis by (intro exI [of _ arrived] exI [of _ "[]"]) simp
  next
    case (none p)
    then show ?thesis by (intro exI [of _ "[]"] exI [of _ "[p]"]) simp
  next
    case (last ps p)
    then show ?thesis by (intro exI [of _ ps] exI [of _ "[p]"]) simp
  qed
qed

text \<open>Neither goroutine touches what the other has to show.\<close>

lemma up_frame [simp]:
  "lg_down (up_check l) = lg_down l" "lg_backend_in (up_check l) = lg_backend_in l" "forwarded (up_check l) = forwarded l"
  "lg_down (up_read r l) = lg_down l" "lg_backend_in (up_read r l) = lg_backend_in l" "forwarded (up_read r l) = forwarded l"
  "lg_down (up_handle w p l) = lg_down l" "lg_backend_in (up_handle w p l) = lg_backend_in l"
  "forwarded (up_handle w p l) = forwarded l"
  by (simp_all add: legacy_ops split: option.split write_outcome.split)

lemma down_frame [simp]:
  "lg_up (down_check l) = lg_up l" "lg_pending (down_check l) = lg_pending l" "lg_arrived (down_check l) = lg_arrived l"
  "lg_toBackend (down_check l) = lg_toBackend l" "echoes (down_check l) = echoes l"
  "lg_up (legacy_down_read r l) = lg_up l" "lg_pending (legacy_down_read r l) = lg_pending l" "lg_arrived (legacy_down_read r l) = lg_arrived l"
  "lg_toBackend (legacy_down_read r l) = lg_toBackend l" "echoes (legacy_down_read r l) = echoes l"
  "lg_up (down_write w p l) = lg_up l" "lg_pending (down_write w p l) = lg_pending l" "lg_arrived (down_write w p l) = lg_arrived l"
  "lg_toBackend (down_write w p l) = lg_toBackend l" "echoes (down_write w p l) = echoes l"
  by (simp_all add: legacy_ops split: read_outcome.split write_outcome.split)

lemma up_check_ok: "up_ok l \<Longrightarrow> lg_up l = UpCheck \<Longrightarrow> up_ok (up_check l)"
  by (cases "lg_pending l") (auto simp: up_ok_def up_at_def legacy_ops)

lemma up_read_ok: "up_ok l \<Longrightarrow> lg_up l = UpRead \<Longrightarrow> up_ok (up_read r l)"
  by (cases r) (auto simp: up_ok_def up_at_def legacy_ops)

lemma up_handle_ok:
  assumes "up_ok l" and "lg_up l = UpHandle packet"
  shows "up_ok (up_handle w packet l)"
proof -
  obtain ps where ps: "lg_pending l = None" "lg_arrived l = ps @ [packet]" "settled ps (lg_toBackend l) (echoes l)"
    using assms by (auto simp: up_ok_def up_at_def)
  then show ?thesis
    by (cases w) (auto simp: up_ok_def up_at_def settled_def is_probe_def legacy_ops)
qed

lemma down_check_ok: "down_ok l \<Longrightarrow> lg_down l = DownCheck \<Longrightarrow> down_ok (down_check l)"
  by (auto simp: down_ok_def down_at_def legacy_ops)

lemma down_read_ok: "down_ok l \<Longrightarrow> lg_down l = DownRead \<Longrightarrow> down_ok (legacy_down_read r l)"
  by (cases r) (auto simp: down_ok_def down_at_def legacy_ops)

lemma down_write_ok: "down_ok l \<Longrightarrow> lg_down l = DownWrite packet \<Longrightarrow> down_ok (down_write w packet l)"
  by (cases w) (auto simp: down_ok_def down_at_def legacy_ops)

lemma count_up:
  assumes "count_ok m l"
  shows "lg_up l = UpCheck \<Longrightarrow> count_ok m (up_check l)" and "lg_up l = UpRead \<Longrightarrow> count_ok m (up_read r l)"
    and "lg_up l = UpHandle packet \<Longrightarrow> count_ok m (up_handle w packet l)"
  using assms by (auto simp: count_ok_def legacy_ops split: option.split write_outcome.split)

lemma count_down:
  assumes "count_ok m l"
  shows "lg_down l = DownCheck \<Longrightarrow> count_ok m (down_check l)" and "lg_down l = DownRead \<Longrightarrow> count_ok m (legacy_down_read r l)"
    and "lg_down l = DownWrite packet \<Longrightarrow> count_ok m (down_write w packet l)"
  using assms by (auto simp: count_ok_def legacy_ops split: read_outcome.split write_outcome.split)

lemma legacy_step_ok: "legacy_step l l' \<Longrightarrow> legacy_ok m l \<Longrightarrow> legacy_ok m l'"
proof (induction rule: legacy_step.induct)
  case (check_up l)
  then show ?case using up_check_ok count_up(1) by (simp add: legacy_ok_def down_ok_def)
next
  case (read_up l r)
  then show ?case using up_read_ok count_up(2) by (simp add: legacy_ok_def down_ok_def)
next
  case (handle_up l packet w)
  then show ?case using up_handle_ok count_up(3) by (simp add: legacy_ok_def down_ok_def)
next
  case (check_down l)
  then show ?case using down_check_ok count_down(1) by (simp add: legacy_ok_def up_ok_def)
next
  case (read_down l r)
  then show ?case using down_read_ok count_down(2) by (simp add: legacy_ok_def up_ok_def)
next
  case (write_down l packet w)
  then show ?case using down_write_ok count_down(3) by (simp add: legacy_ok_def up_ok_def)
next
  case (parent l)
  then show ?case by (simp add: legacy_ok_def up_ok_def down_ok_def count_ok_def echoes_def forwarded_def)
qed

interpretation legacy: invariant_system "\<lambda>l. l = legacy_start first m" legacy_step "legacy_ok m" for first m
  by unfold_locales (use legacy_start_ok legacy_step_ok in blast)+

section \<open>Properties\<close>

text \<open>C23: A connection without the session preface is forwarded unchanged: the backend is sent exactly the packets of the
  client, the first one included, in order and without the probes, the probes come back to the client in order, and the
  client is sent the datagrams of the backend in order, cut to 1600 bytes; only the packet in the hands of a goroutine
  when it ends can be missing. The metrics count the packets forwarded in each direction.\<close>

theorem legacy_transparent:
  assumes "handleUDPConnection (Some first) = Some (LegacyRoute packet)"
    and "rtranclp legacy_step (legacy_start packet m) l"
  shows "parseUDPSessionPreface first = None \<and> packet = first \<and>
    (\<exists>ps. prefix ps (lg_arrived l) \<and> length (lg_arrived l) \<le> Suc (length ps) \<and>
       lg_toBackend l = filter (\<lambda>p. \<not> is_probe p) ps \<and> map snd (filter fst (lg_toClient l)) = filter is_probe ps) \<and>
    (\<exists>ds. prefix ds (lg_backend_in l) \<and> length (lg_backend_in l) \<le> Suc (length ds) \<and>
       map snd (filter (\<lambda>w. \<not> fst w) (lg_toClient l)) = map (take 1600) ds) \<and>
    m_packetsToBackend (lg_metrics l) = m_packetsToBackend m + of_nat (length (lg_toBackend l))"
proof -
  have ok: "legacy_ok m l" by (rule legacy.reachable_inv [OF refl assms(2)])
  have "\<exists>ps. prefix ps (lg_arrived l) \<and> length (lg_arrived l) \<le> Suc (length ps) \<and> settled ps (lg_toBackend l) (echoes l)"
  proof -
    have up: "up_ok l" using ok by (simp add: legacy_ok_def)
    have "\<exists>ps rest. lg_arrived l = ps @ rest \<and> length rest \<le> 1 \<and> settled ps (lg_toBackend l) (echoes l)"
      using up unfolding up_ok_def by (rule up_at_settled)
    then obtain ps rest where "lg_arrived l = ps @ rest" "length rest \<le> 1" "settled ps (lg_toBackend l) (echoes l)" by blast
    then show ?thesis by (intro exI [of _ ps]) auto
  qed
  moreover have "\<exists>ds. prefix ds (lg_backend_in l) \<and> length (lg_backend_in l) \<le> Suc (length ds) \<and>
       map snd (filter (\<lambda>w. \<not> fst w) (lg_toClient l)) = map (take 1600) ds"
  proof -
    let ?done = "map snd (filter (\<lambda>w. \<not> fst w) (lg_toClient l))"
    have "\<exists>rest. map (take 1600) (lg_backend_in l) = ?done @ rest \<and> length rest \<le> 1"
      using ok by (cases "lg_down l") (auto simp: legacy_ok_def down_ok_def down_at_def forwarded_def udpBufferSize_def)
    then obtain rest where r: "map (take 1600) (lg_backend_in l) = ?done @ rest" "length rest \<le> 1" by blast
    define ds where "ds = take (length ?done) (lg_backend_in l)"
    have "map (take 1600) ds = ?done" using r(1) by (simp add: ds_def take_map [symmetric])
    moreover have "length (lg_backend_in l) \<le> Suc (length ds)" using arg_cong [OF r(1), of length] r(2) by (simp add: ds_def)
    moreover have "prefix ds (lg_backend_in l)" by (simp add: ds_def take_is_prefix)
    ultimately show ?thesis by metis
  qed
  moreover have "parseUDPSessionPreface first = None \<and> packet = first"
    using assms(1) by (auto simp: handleUDPConnection_def split: option.splits)
  ultimately show ?thesis using ok by (auto simp: legacy_ok_def count_ok_def settled_def echoes_def)
qed

text \<open>Once the context is cancelled each goroutine comes to its end: at most three of its own steps remain.\<close>

lemma cancelled_up_ends:
  assumes "lg_cancelled l"
  shows "\<exists>l'. rtranclp legacy_step l l' \<and> lg_up l' = UpDone"
proof -
  have check: "\<exists>l'. rtranclp legacy_step k l' \<and> lg_up l' = UpDone" if "lg_up k = UpCheck" "lg_cancelled k" for k
    using legacy_step.check_up [OF that(1)] that(2) by (intro exI [of _ "up_check k"]) (auto simp: up_check_def up_exit_def)
  show ?thesis
  proof (cases "lg_up l")
    case UpRead
    then show ?thesis using legacy_step.read_up [of l None] by (intro exI [of _ "up_read None l"]) (auto simp: up_read_def up_exit_def)
  next
    case (UpHandle packet)
    then show ?thesis using legacy_step.handle_up [of l packet DeadlineFailed]
      by (intro exI [of _ "up_handle DeadlineFailed packet l"]) (auto simp: up_handle_def up_exit_def)
  qed (use check assms in auto)
qed

lemma legacy_transparent_witness:
  "\<exists>l. rtranclp legacy_step (legacy_start [1, 2, 3] newServerMetrics) l \<and> lg_toBackend l = [[1, 2, 3]] \<and>
     m_packetsToBackend (lg_metrics l) = 1"
proof -
  define l0 where "l0 = legacy_start [1, 2, 3] newServerMetrics"
  define l2 where "l2 = up_handle Written [1, 2, 3] (up_check l0)"
  have route: "handleUDPConnection (Some [1, 2, 3]) = Some (LegacyRoute [1, 2, 3])"
    by (simp add: handleUDPConnection_def parseUDPSessionPreface_def udpSessionPrefaceLen_def)
  have noprobe: "parseProbePacket [1, 2, 3] = None" by (simp add: parseProbePacket_def probePacketLen_def probePingMagic_def)
  have "legacy_step l0 (up_check l0)" by (rule legacy_step.check_up) (simp add: l0_def legacy_start_def)
  moreover have "legacy_step (up_check l0) l2" unfolding l2_def
    by (rule legacy_step.handle_up) (simp add: l0_def legacy_start_def up_check_def)
  ultimately have run: "rtranclp legacy_step (legacy_start [1, 2, 3] newServerMetrics) l2"
    unfolding l0_def by (meson rtranclp.rtrancl_into_rtrancl rtranclp.rtrancl_refl)
  have "lg_toBackend l2 = [[1, 2, 3]]" by (simp add: l2_def l0_def legacy_start_def up_check_def up_handle_def noprobe)
  moreover have "m_packetsToBackend (lg_metrics l2) = 1"
    using legacy_transparent [OF route run] calculation by (simp add: newServerMetrics_def)
  ultimately show ?thesis using run by blast
qed

end
