(* ===== verification/Client_Setup.thy ===== *)
theory Client_Setup
  imports Turn_Credentials Wrap_Framing
begin

text \<open>
  Setting up and tearing down the connections of the client (\<open>pkg/clientcore/main.go\<close>): the layers of a
  smux session (\<open>createSmuxSession\<close>), one TURN stream (\<open>oneTurnConnection\<close>), what its loop does with an
  error, and which errors rotate the TURN server. The layers below are the environment: each tells whether
  it can be opened. The log records which resources are opened and released; the functions to call at the
  end (\<open>cleanupFns\<close>, the deferred calls) are a stack of resources.
\<close>

section \<open>Addresses\<close>

text \<open>\<open>net.SplitHostPort\<close> and \<open>net.JoinHostPort\<close>.\<close>

definition last_colon :: "string \<Rightarrow> nat option" where
  "last_colon s = (if CHR '':'' \<in> set s then Some (length s - 1 - length (takeWhile (\<lambda>c. c \<noteq> CHR '':'') (rev s))) else None)"

definition addr_error :: "string \<Rightarrow> string \<Rightarrow> string" where
  "addr_error why addr = (if addr = [] then why else ''address '' @ addr @ '': '' @ why)"

definition SplitHostPort :: "string \<Rightarrow> string + string \<times> string" where
  "SplitHostPort hostport =
     (let missingPort = Inl (addr_error ''missing port in address'' hostport);
          tooManyColons = Inl (addr_error ''too many colons in address'' hostport);
          finish = (\<lambda>host port after_open after_close.
            if CHR ''['' \<in> set after_open then Inl (addr_error (''unexpected '' @ [CHR 0x27] @ ''['' @ [CHR 0x27] @ '' in address'') hostport)
            else if CHR '']'' \<in> set after_close then Inl (addr_error (''unexpected '' @ [CHR 0x27] @ '']'' @ [CHR 0x27] @ '' in address'') hostport)
            else Inr (host, port))
      in case last_colon hostport of
           None \<Rightarrow> missingPort
         | Some i \<Rightarrow>
             if hd hostport = CHR ''['' then
               (if CHR '']'' \<notin> set hostport then Inl (addr_error (''missing '' @ [CHR 0x27] @ '']'' @ [CHR 0x27] @ '' in address'') hostport)
                else let e = length (takeWhile (\<lambda>c. c \<noteq> CHR '']'') hostport) in
                  if Suc e = length hostport then missingPort
                  else if Suc e \<noteq> i then (if hostport ! Suc e = CHR '':'' then tooManyColons else missingPort)
                  else finish (drop 1 (take e hostport)) (drop (Suc i) hostport) (drop 1 hostport) (drop (Suc e) hostport))
             else if CHR '':'' \<in> set (take i hostport) then tooManyColons
             else finish (take i hostport) (drop (Suc i) hostport) hostport hostport)"

definition JoinHostPort :: "string \<Rightarrow> string \<Rightarrow> string" where
  "JoinHostPort host port =
     (if CHR '':'' \<in> set host then ''['' @ host @ '']:'' @ port else host @ '':'' @ port)"

section \<open>Resources\<close>

datatype resource = TurnConn | TurnClient | RelayConn | DtlsConn | StatsLog | KcpSession | SmuxSession

datatype setup_event = Opened resource | Released resource

record conn_setup =
  su_log :: "setup_event list"
  su_cleanup :: "resource list"

definition setup_start :: conn_setup where
  "setup_start = \<lparr>su_log = [], su_cleanup = []\<rparr>"

definition push_cleanup :: "resource \<Rightarrow> 'z conn_setup_scheme \<Rightarrow> 'z conn_setup_scheme" where
  "push_cleanup r st = st\<lparr>su_log := su_log st @ [Opened r], su_cleanup := r # su_cleanup st\<rparr>"

definition run_cleanup :: "conn_setup \<Rightarrow> conn_setup" where
  "run_cleanup st = st\<lparr>su_log := su_log st @ map Released (su_cleanup st), su_cleanup := []\<rparr>"

record turnParams =
  tp_host :: string
  tp_port :: string
  tp_udp :: bool
  tp_wrapKey :: bytes

text \<open>The answers of the layers below: \<open>Some e\<close> is an error. \<open>se_rand\<close> is what the random source gives to
  the two directions of the WRAP layer.\<close>

record setup_env =
  se_creds :: "string + (string \<times> string \<times> string)"
  se_resolve :: "string \<Rightarrow> string + string"
  se_dial :: "string option"
  se_newClient :: "string option"
  se_listen :: "string option"
  se_allocate :: "string option"
  se_cert :: "string option"
  se_rand :: "(bytes option \<times> bytes option) \<times> (bytes option \<times> bytes option)"
  se_dtls :: "string option"
  se_handshake :: "string option"
  se_kcp :: "string option"
  se_smux :: "string option"
  se_close :: "resource \<Rightarrow> string option"

section \<open>Errors\<close>

datatype setup_error = PlainError string | TurnSetupError string string

text \<open>The text of an error, its address (\<open>turnSetupAddr\<close>), and whether it rotates the server.\<close>

definition error_text :: "setup_error \<Rightarrow> string" where
  "error_text e = (case e of PlainError t \<Rightarrow> t | TurnSetupError addr t \<Rightarrow> t)"

definition turnSetupAddr :: "setup_error \<Rightarrow> string option" where
  "turnSetupAddr e = (case e of PlainError t \<Rightarrow> None | TurnSetupError addr t \<Rightarrow> if addr \<noteq> [] then Some addr else None)"

definition shouldRotateTURNServer :: "setup_error option \<Rightarrow> bool" where
  "shouldRotateTURNServer err =
     (case err of
        None \<Rightarrow> False
      | Some e \<Rightarrow> str_Contains (error_text e) ''dial TURN'' \<or> str_Contains (error_text e) ''TURN allocate''
          \<or> str_Contains (error_text e) ''DTLS handshake'')"

section \<open>A smux session\<close>

type_synonym 'a setup_act = "(conn_setup, setup_error, 'a) sact"

text \<open>A call that can fail, without and with the cleanup before the error is returned; a call that opens a
  resource.\<close>

definition attempt :: "(string \<Rightarrow> 'e) \<Rightarrow> string + 'a \<Rightarrow> ('s, 'e, 'a) sact" where
  "attempt mk r st = (case r of Inl e \<Rightarrow> (st, Inl (mk e)) | Inr a \<Rightarrow> (st, Inr a))"

definition attempt_clean :: "(string \<Rightarrow> setup_error) \<Rightarrow> string option \<Rightarrow> unit setup_act" where
  "attempt_clean mk r st = (case r of None \<Rightarrow> (st, Inr ()) | Some e \<Rightarrow> (run_cleanup st, Inl (mk e)))"

definition opened :: "resource \<Rightarrow> ('z conn_setup_scheme, 'e, unit) sact" where
  "opened r st = (push_cleanup r st, Inr ())"

definition outcome :: "string option \<Rightarrow> string + unit" where
  "outcome r = (case r of None \<Rightarrow> Inr () | Some e \<Rightarrow> Inl e)"

text \<open>The handshake: when it fails the DTLS connection, which is not on the stack yet, is closed first.\<close>

definition handshake :: "setup_env \<Rightarrow> string \<Rightarrow> unit setup_act" where
  "handshake E addr st =
     (let st1 = st\<lparr>su_log := su_log st @ [Opened DtlsConn]\<rparr> in
      case se_handshake E of
        None \<Rightarrow> (st1\<lparr>su_cleanup := DtlsConn # su_cleanup st1\<rparr>, Inr ())
      | Some e \<Rightarrow>
          (run_cleanup (st1\<lparr>su_log := su_log st1 @ [Released DtlsConn]\<rparr>),
           Inl (TurnSetupError addr (''DTLS handshake: '' @ e))))"

definition turn_server :: "setup_env \<Rightarrow> turnParams \<Rightarrow> string setup_act" where
  "turn_server E tp =
     act_bind (attempt (\<lambda>e. PlainError (''get TURN creds: '' @ e)) (se_creds E)) (\<lambda>(user, pass, rawURL).
     act_bind (attempt (\<lambda>e. PlainError (''parse TURN addr: '' @ e)) (SplitHostPort rawURL)) (\<lambda>(urlhost, urlport).
     attempt (\<lambda>e. PlainError (''resolve TURN addr: '' @ e))
       (se_resolve E (JoinHostPort (if tp_host tp \<noteq> [] then tp_host tp else urlhost)
                                   (if tp_port tp \<noteq> [] then tp_port tp else urlport)))))"

definition open_relay :: "setup_env \<Rightarrow> turnParams \<Rightarrow> string \<Rightarrow> unit setup_act" where
  "open_relay E tp addr =
     act_bind (attempt (\<lambda>e. TurnSetupError addr ((if tp_udp tp then ''dial TURN (udp): '' else ''dial TURN (tcp): '') @ e))
       (outcome (se_dial E))) (\<lambda>_.
     act_bind (opened TurnConn) (\<lambda>_.
     act_bind (attempt_clean (\<lambda>e. PlainError (''create TURN client: '' @ e)) (se_newClient E)) (\<lambda>_.
     act_bind (opened TurnClient) (\<lambda>_.
     act_bind (attempt_clean (\<lambda>e. TurnSetupError addr (''TURN listen: '' @ e)) (se_listen E)) (\<lambda>_.
     act_bind (attempt_clean (\<lambda>e. TurnSetupError addr (''TURN allocate: '' @ e)) (se_allocate E)) (\<lambda>_.
     opened RelayConn))))))"

definition relay_session :: "setup_env \<Rightarrow> turnParams \<Rightarrow> string \<Rightarrow> unit setup_act" where
  "relay_session E tp addr =
     act_bind (attempt_clean (\<lambda>e. PlainError (''generate cert: '' @ e)) (se_cert E)) (\<lambda>_.
     act_bind (attempt_clean PlainError
       (case newRelayPacketConn \<lparr>pc_sent = [], pc_script = []\<rparr> (tp_wrapKey tp) (fst (se_rand E)) (snd (se_rand E)) of
          Inl e \<Rightarrow> Some e | Inr _ \<Rightarrow> None)) (\<lambda>_.
     act_bind (attempt_clean (\<lambda>e. PlainError (''DTLS client create: '' @ e)) (se_dtls E)) (\<lambda>_.
     act_bind (handshake E addr) (\<lambda>_.
     act_bind (opened StatsLog) (\<lambda>_.
     act_bind (attempt_clean (\<lambda>e. PlainError (''KCP session: '' @ e)) (se_kcp E)) (\<lambda>_.
     act_bind (opened KcpSession) (\<lambda>_.
     act_bind (attempt_clean (\<lambda>e. PlainError (''smux client: '' @ e)) (se_smux E)) (\<lambda>_.
     opened SmuxSession))))))))"

definition createSmuxSession :: "setup_env \<Rightarrow> turnParams \<Rightarrow> unit setup_act" where
  "createSmuxSession E tp =
     act_bind (turn_server E tp) (\<lambda>addr. act_bind (open_relay E tp addr) (\<lambda>_. relay_session E tp addr))"

section \<open>One TURN stream\<close>

record turn_run = conn_setup +
  tr_creds :: cred_state
  tr_connected :: int

type_synonym 'a turn_act = "(turn_run, string, 'a) sact"

text \<open>The allocation of the relay: an authentication error counts against the cached credentials, a success
  resets the count and the stream is connected.\<close>

definition allocate :: "setup_env \<Rightarrow> int \<Rightarrow> int \<Rightarrow> unit turn_act" where
  "allocate E now streamID st =
     (case se_allocate E of
        Some e \<Rightarrow>
          (if isAuthError (Some e) then st\<lparr>tr_creds := fst (handleAuthError now streamID (tr_creds st))\<rparr> else st,
           Inl (''failed to allocate: '' @ e))
      | None \<Rightarrow>
          (push_cleanup RelayConn
             (st\<lparr>tr_creds := resetErrorCount streamID (tr_creds st), tr_connected := tr_connected st + 1\<rparr>), Inr ()))"

text \<open>When the WRAP layer cannot be initialised the stream ends without an error, as when its relay ends.\<close>

definition turn_stream :: "setup_env \<Rightarrow> turnParams \<Rightarrow> int \<Rightarrow> int \<Rightarrow> unit turn_act" where
  "turn_stream E tp now streamID =
     act_bind (attempt (\<lambda>e. ''failed to get TURN credentials: '' @ e) (se_creds E)) (\<lambda>(user, pass, urlTarget).
     act_bind (attempt (\<lambda>e. ''failed to parse TURN server address: '' @ e) (SplitHostPort urlTarget)) (\<lambda>(urlhost, urlport).
     act_bind (attempt (\<lambda>e. ''failed to resolve TURN server address: '' @ e)
       (se_resolve E (JoinHostPort (if tp_host tp \<noteq> [] then tp_host tp else urlhost)
                                   (if tp_port tp \<noteq> [] then tp_port tp else urlport)))) (\<lambda>addr.
     act_bind (attempt (\<lambda>e. ''failed to connect to TURN server: '' @ e) (outcome (se_dial E))) (\<lambda>_.
     act_bind (opened TurnConn) (\<lambda>_.
     act_bind (attempt (\<lambda>e. ''failed to create TURN client: '' @ e) (outcome (se_newClient E))) (\<lambda>_.
     act_bind (opened TurnClient) (\<lambda>_.
     act_bind (attempt (\<lambda>e. ''failed to listen: '' @ e) (outcome (se_listen E))) (\<lambda>_.
     allocate E now streamID))))))))"

text \<open>The deferred calls, the last one first; a failed close replaces the error.\<close>

definition deferred_close :: "setup_env \<Rightarrow> resource \<Rightarrow> turn_run \<times> string option \<Rightarrow> turn_run \<times> string option" where
  "deferred_close E r se =
     (let (st, err) = se; st1 = st\<lparr>su_log := su_log st @ [Released r]\<rparr> in
      case r of
        RelayConn \<Rightarrow>
          (st1\<lparr>tr_connected := tr_connected st - 1\<rparr>,
           case se_close E RelayConn of Some e \<Rightarrow> Some (''failed to close TURN allocated connection: '' @ e) | None \<Rightarrow> err)
      | TurnConn \<Rightarrow>
          (st1, case se_close E TurnConn of Some e \<Rightarrow> Some (''failed to close TURN server connection: '' @ e) | None \<Rightarrow> err)
      | _ \<Rightarrow> (st1, err))"

definition oneTurnConnection :: "setup_env \<Rightarrow> turnParams \<Rightarrow> int \<Rightarrow> int \<Rightarrow> turn_run \<Rightarrow> turn_run \<times> string option" where
  "oneTurnConnection E tp now streamID st =
     (let (st1, r) = turn_stream E tp now streamID st;
          (st2, err) = fold (deferred_close E) (su_cleanup st1) (st1, case r of Inl e \<Rightarrow> Some e | Inr _ \<Rightarrow> None)
      in (st2\<lparr>su_cleanup := []\<rparr>, err))"

section \<open>The loops of a stream\<close>

text \<open>What the loop does when a connection ends: it shuts the application down, goes on at once, or waits for
  some time (nanoseconds). \<open>lockout\<close> is the end of the captcha lockout in seconds.\<close>

datatype loop_pause = FatalStop | NoPause | Pause int

definition turn_loop_pause :: "int \<Rightarrow> int \<Rightarrow> string option \<Rightarrow> loop_pause" where
  "turn_loop_pause now lockout err =
     (case err of
        None \<Rightarrow> NoPause
      | Some e \<Rightarrow>
          if str_Contains e ''FATAL_CAPTCHA'' then FatalStop
          else if str_Contains e ''CAPTCHA_WAIT_REQUIRED''
          then (if \<not> str_Contains e ''global lockout active'' then Pause (60 * second)
                else let sleepDuration = lockout * second - now in
                  Pause (if sleepDuration < 0 then 5 * second else sleepDuration))
          else Pause (2 * second))"

definition dtls_loop_pause :: "int \<Rightarrow> int \<Rightarrow> nat \<Rightarrow> string option \<Rightarrow> loop_pause" where
  "dtls_loop_pause now lockout rnd err =
     (case err of
        None \<Rightarrow> NoPause
      | Some e \<Rightarrow>
          if now div second < lockout \<and> str_Contains e ''context deadline exceeded'' then NoPause
          else Pause ((10 + int (rnd mod 20)) * second))"

section \<open>What is opened is released\<close>

definition session_layers :: "resource list" where
  "session_layers = [TurnConn, TurnClient, RelayConn, DtlsConn, StatsLog, KcpSession, SmuxSession]"

lemmas setup_defs = attempt_def attempt_clean_def opened_def outcome_def push_cleanup_def run_cleanup_def handshake_def act_bind_def

lemma turn_server_frame: "turn_server E tp st = (st', r) \<Longrightarrow> st' = st"
  by (auto simp: turn_server_def setup_defs split: sum.splits prod.splits)

lemma open_relay_log:
  assumes "open_relay E tp addr setup_start = (st, r)"
  shows "case r of
      Inr _ \<Rightarrow> st = \<lparr>su_log = map Opened (take 3 session_layers), su_cleanup = rev (take 3 session_layers)\<rparr>
    | Inl e \<Rightarrow> su_cleanup st = [] \<and>
        (\<exists>n. su_log st = map Opened (take n session_layers) @ map Released (rev (take n session_layers)))"
proof -
  have "(\<exists>n\<in>{0, 1, 2}. su_log st = map Opened (take n session_layers) @ map Released (rev (take n session_layers)))
      \<and> su_cleanup st = []" if "r = Inl e" for e
    using assms that
    by (auto simp: open_relay_def setup_defs setup_start_def session_layers_def numeral_2_eq_2 split: option.splits)
  moreover have "st = \<lparr>su_log = map Opened (take 3 session_layers), su_cleanup = rev (take 3 session_layers)\<rparr>" if "r = Inr u" for u
    using assms that
    by (auto simp: open_relay_def setup_defs setup_start_def session_layers_def split: option.splits)
  ultimately show ?thesis by (cases r) auto
qed

lemma relay_session_log:
  assumes "relay_session E tp addr \<lparr>su_log = map Opened (take 3 session_layers), su_cleanup = rev (take 3 session_layers)\<rparr> = (st, r)"
  shows "case r of
      Inr _ \<Rightarrow> st = \<lparr>su_log = map Opened session_layers, su_cleanup = rev session_layers\<rparr>
    | Inl e \<Rightarrow> su_cleanup st = [] \<and>
        (\<exists>n. su_log st = map Opened (take n session_layers) @ map Released (rev (take n session_layers)))"
proof -
  have "(\<exists>n\<in>{3, 4, 5, 6}. su_log st = map Opened (take n session_layers) @ map Released (rev (take n session_layers)))
      \<and> su_cleanup st = []" if "r = Inl e" for e
    using assms that
    by (auto simp: relay_session_def setup_defs session_layers_def Let_def split: option.splits sum.splits)
  moreover have "st = \<lparr>su_log = map Opened session_layers, su_cleanup = rev session_layers\<rparr>" if "r = Inr u" for u
    using assms that
    by (auto simp: relay_session_def setup_defs session_layers_def Let_def split: option.splits sum.splits)
  ultimately show ?thesis by (cases r) auto
qed

lemma createSmuxSession_log:
  assumes "createSmuxSession E tp setup_start = (st, r)"
  shows "case r of
      Inr _ \<Rightarrow> st = \<lparr>su_log = map Opened session_layers, su_cleanup = rev session_layers\<rparr>
    | Inl e \<Rightarrow> su_cleanup st = [] \<and>
        (\<exists>n. su_log st = map Opened (take n session_layers) @ map Released (rev (take n session_layers)))"
proof -
  obtain st1 r1 where s: "turn_server E tp setup_start = (st1, r1)" by fastforce
  have st1: "st1 = setup_start" by (rule turn_server_frame [OF s])
  show ?thesis
  proof (cases r1)
    case (Inl e)
    then show ?thesis using assms s st1
      by (auto simp: createSmuxSession_def act_bind_def setup_start_def intro: exI [of _ 0])
  next
    case (Inr addr)
    obtain st2 r2 where t: "open_relay E tp addr setup_start = (st2, r2)" by fastforce
    note log2 = open_relay_log [OF t]
    show ?thesis
    proof (cases r2)
      case (Inl e)
      then show ?thesis using assms s st1 t log2 \<open>r1 = Inr addr\<close> by (auto simp: createSmuxSession_def act_bind_def)
    next
      case inr: (Inr u)
      have "relay_session E tp addr st2 = (st, r)"
        using assms s st1 t inr \<open>r1 = Inr addr\<close> by (auto simp: createSmuxSession_def act_bind_def)
      then show ?thesis using relay_session_log [of E tp addr st r] log2 inr by simp
    qed
  qed
qed

text \<open>The releases of a session that has been set up: the function that \<open>createSmuxSession\<close> returns.\<close>

lemma cleanup_log:
  "su_log (run_cleanup \<lparr>su_log = map Opened session_layers, su_cleanup = rev session_layers\<rparr>)
     = map Opened session_layers @ map Released (rev session_layers)"
  by (simp add: run_cleanup_def)

section \<open>Properties\<close>

text \<open>C25: Setting up a session opens its seven layers in order, and whichever fails, everything opened so far is released
  exactly once, in the reverse order, before the error is returned; on success nothing is released, and the cleanup
  function that is returned releases all seven layers in the reverse order. A failed dial or allocation
  makes the caller rotate the TURN server and put the address it resolved into cooldown.\<close>

theorem session_all_or_nothing:
  assumes "createSmuxSession E tp setup_start = (st, r)"
  shows "(case r of
      Inr _ \<Rightarrow> su_log st = map Opened session_layers \<and>
        su_log (run_cleanup st) = map Opened session_layers @ map Released (rev session_layers)
    | Inl e \<Rightarrow> su_cleanup st = [] \<and>
        (\<exists>n. su_log st = map Opened (take n session_layers) @ map Released (rev (take n session_layers))))
    \<and> (\<forall>addr. snd (turn_server E tp setup_start) = Inr addr \<and> addr \<noteq> [] \<longrightarrow>
         (se_dial E \<noteq> None \<or> se_newClient E = None \<and> se_listen E = None \<and> se_allocate E \<noteq> None \<longrightarrow>
           (\<exists>e. r = Inl e \<and> shouldRotateTURNServer (Some e) \<and> turnSetupAddr e = Some addr)))"
proof
  show "case r of
      Inr _ \<Rightarrow> su_log st = map Opened session_layers \<and>
        su_log (run_cleanup st) = map Opened session_layers @ map Released (rev session_layers)
    | Inl e \<Rightarrow> su_cleanup st = [] \<and>
        (\<exists>n. su_log st = map Opened (take n session_layers) @ map Released (rev (take n session_layers)))"
    using createSmuxSession_log [OF assms] cleanup_log by (cases r) auto
next
  have "\<exists>e. r = Inl e \<and> shouldRotateTURNServer (Some e) \<and> turnSetupAddr e = Some addr"
    if "snd (turn_server E tp setup_start) = Inr addr" "addr \<noteq> []"
      "se_dial E \<noteq> None \<or> se_newClient E = None \<and> se_listen E = None \<and> se_allocate E \<noteq> None" for addr
  proof -
    have s: "turn_server E tp setup_start = (setup_start, Inr addr)"
      using that(1) turn_server_frame [of E tp setup_start] by (metis prod.collapse)
    have "\<exists>st2 text. open_relay E tp addr setup_start = (st2, Inl (TurnSetupError addr text)) \<and>
        (str_Contains text ''dial TURN'' \<or> str_Contains text ''TURN allocate'')"
      using that(3) by (cases "se_dial E"; cases "se_newClient E"; cases "se_listen E"; cases "se_allocate E")
        (simp_all add: open_relay_def setup_defs)
    then show ?thesis using assms s that(2)
      by (auto simp: createSmuxSession_def act_bind_def shouldRotateTURNServer_def error_text_def turnSetupAddr_def)
  qed
  then show "\<forall>addr. snd (turn_server E tp setup_start) = Inr addr \<and> addr \<noteq> [] \<longrightarrow>
         (se_dial E \<noteq> None \<or> se_newClient E = None \<and> se_listen E = None \<and> se_allocate E \<noteq> None \<longrightarrow>
           (\<exists>e. r = Inl e \<and> shouldRotateTURNServer (Some e) \<and> turnSetupAddr e = Some addr))" by blast
qed

lemma fold_close_log:
  "su_log (fst (fold (deferred_close E) rs (st, err))) = su_log st @ map Released rs"
  by (induction rs arbitrary: st err) (auto simp: deferred_close_def Let_def split: resource.split)

lemma fold_close_creds: "tr_creds (fst (fold (deferred_close E) rs (st, err))) = tr_creds st"
  by (induction rs arbitrary: st err) (auto simp: deferred_close_def Let_def split: resource.split)

lemma fold_close_connected:
  "tr_connected (fst (fold (deferred_close E) rs (st, err))) = tr_connected st - int (length (filter (\<lambda>r. r = RelayConn) rs))"
  by (induction rs arbitrary: st err) (auto simp: deferred_close_def Let_def split: resource.split)

lemma turn_stream_frame:
  assumes "turn_stream E tp now sid st = (st', r)" and "su_cleanup st = []"
  shows "\<exists>n \<le> 3. su_log st' = su_log st @ map Opened (take n session_layers) \<and> su_cleanup st' = rev (take n session_layers) \<and>
      tr_connected st' = tr_connected st + (if n = 3 then 1 else 0) \<and> (n = 3 \<longleftrightarrow> r = Inr ()) \<and>
      tr_creds st' =
        (if r = Inr () then resetErrorCount sid (tr_creds st)
         else if n = 2 \<and> se_newClient E = None \<and> se_listen E = None \<and> isAuthError (se_allocate E)
         then fst (handleAuthError now sid (tr_creds st)) else tr_creds st)"
proof -
  consider (early) "st' = st" "\<exists>e. r = Inl e"
    | (dialled) "st' = push_cleanup TurnConn st" "\<exists>e. r = Inl e" "se_newClient E \<noteq> None"
    | (client) "st' = push_cleanup TurnClient (push_cleanup TurnConn st)" "\<exists>e. r = Inl e" "se_newClient E = None" "se_listen E \<noteq> None"
    | (listening) "se_newClient E = None" "se_listen E = None"
        "allocate E now sid (push_cleanup TurnClient (push_cleanup TurnConn st)) = (st', r)"
    using assms(1)
    by (auto simp: turn_stream_def act_bind_def attempt_def opened_def outcome_def
        split: sum.splits prod.splits option.splits)
  then show ?thesis
  proof cases
    case early
    then show ?thesis using assms(2) by (intro exI [of _ 0]) (auto simp: isAuthError_def)
  next
    case dialled
    then show ?thesis using assms(2)
      by (intro exI [of _ "Suc 0"]) (auto simp: push_cleanup_def session_layers_def)
  next
    case client
    then show ?thesis using assms(2)
      by (intro exI [of _ 2]) (auto simp: push_cleanup_def session_layers_def)
  next
    case listening
    show ?thesis
    proof (cases "se_allocate E")
      case None
      then show ?thesis using listening assms(2)
        by (intro exI [of _ 3]) (auto simp: allocate_def push_cleanup_def session_layers_def)
    next
      case (Some e)
      then show ?thesis using listening assms(2)
        by (intro exI [of _ 2]) (auto simp: allocate_def push_cleanup_def session_layers_def)
    qed
  qed
qed


lemma fetch_lockout:
  assumes "fetchVkCreds E t link st = (st', Inl e)"
  shows "ch_lockout st' = ae_now E (ch_log st') + 60 \<and> captcha_error e
    \<or> e = ''CAPTCHA_WAIT_REQUIRED: global lockout active'' \<or> ch_lockout st' \<le> t"
proof (cases "t < ch_lockout st")
  case True
  then show ?thesis using assms by (simp add: fetchVkCreds_def)
next
  case False
  have "bounded E (8 * length vkCredentialsList) (3 * length vkCredentialsList) st
      (st', Inl e :: string + string \<times> string \<times> string list)"
    using bounded_try [of E vkCredentialsList st link "[]"] assms False by (auto simp: fetchVkCreds_def)
  then show ?thesis using False by (auto simp: bounded_def)
qed

text \<open>C27: The captcha lockout is respected by every stream: when fetching the credentials failed, the loop of the stream
  either stops or waits, and does not try again before the lockout has ended, provided the clock does not go back.\<close>

theorem stream_waits_for_lockout:
  assumes "fetchVkCreds E t link st = (st', Inl e)" and "t * second \<le> now" and "ae_now E (ch_log st') * second \<le> now"
  shows "case turn_loop_pause now (ch_lockout st') (Some (''failed to get TURN credentials: '' @ e)) of
      FatalStop \<Rightarrow> True | NoPause \<Rightarrow> False | Pause d \<Rightarrow> 0 \<le> d \<and> ch_lockout st' * second \<le> now + d"
proof -
  let ?e = "''failed to get TURN credentials: '' @ e"
  have has: "str_Contains e sub \<Longrightarrow> str_Contains ?e sub" for sub
    unfolding str_Contains_iff by (metis append.assoc)
  consider (giveup) "ch_lockout st' = ae_now E (ch_log st') + 60" "captcha_error e"
    | (locked) "e = ''CAPTCHA_WAIT_REQUIRED: global lockout active''" | (over) "ch_lockout st' \<le> t"
    using fetch_lockout [OF assms(1)] by blast
  then show ?thesis
  proof cases
    case giveup
    then have "e = ''FATAL_CAPTCHA_FAILED_NO_STREAMS'' \<or> e = ''CAPTCHA_WAIT_REQUIRED''" by (simp add: captcha_error_def)
    then show ?thesis using giveup(1) assms(3) by (auto simp: turn_loop_pause_def second_def)
  next
    case locked
    then show ?thesis by (simp add: turn_loop_pause_def Let_def second_def)
  next
    case over
    then have "ch_lockout st' * second \<le> t * second" by (simp add: second_def)
    then show ?thesis using assms(2) by (auto simp: turn_loop_pause_def Let_def second_def)
  qed
qed

text \<open>An environment in which every layer opens, and one in which the allocation is refused.\<close>

definition sample_setup :: "string option \<Rightarrow> setup_env" where
  "sample_setup refused =
     \<lparr>se_creds = Inr (''u'', ''p'', ''1.2.3.4:3478''), se_resolve = Inr, se_dial = None, se_newClient = None,
      se_listen = None, se_allocate = refused, se_cert = None, se_rand = ((None, None), (None, None)),
      se_dtls = None, se_handshake = None, se_kcp = None, se_smux = None, se_close = (\<lambda>_. None)\<rparr>"

definition sample_params :: turnParams where
  "sample_params = \<lparr>tp_host = [], tp_port = [], tp_udp = True, tp_wrapKey = []\<rparr>"

lemma sample_address: "turn_server (sample_setup refused) sample_params st = (st, Inr ''1.2.3.4:3478'')"
  by (simp add: turn_server_def sample_setup_def sample_params_def act_bind_def attempt_def SplitHostPort_def
      last_colon_def JoinHostPort_def Let_def)

lemma session_all_or_nothing_witness:
  "\<exists>st e. createSmuxSession (sample_setup (Some ''quota'')) sample_params setup_start = (st, Inl e) \<and> su_cleanup st = [] \<and>
     turnSetupAddr e = Some ''1.2.3.4:3478''"
proof -
  let ?E = "sample_setup (Some ''quota'')"
  obtain st r where run: "createSmuxSession ?E sample_params setup_start = (st, r)" by fastforce
  have "se_newClient ?E = None" "se_listen ?E = None" "se_allocate ?E \<noteq> None" by (simp_all add: sample_setup_def)
  then show ?thesis using session_all_or_nothing [OF run] run sample_address by fastforce
qed

definition sample_run :: turn_run where
  "sample_run = \<lparr>su_log = [], su_cleanup = [],
     tr_creds = \<lparr>cs_streamsPerCache = 10, cs_caches = Map.empty, cs_offsets = (\<lambda>_. 0), cs_cooldowns = Map.empty,
       cs_lastFetch = None, cs_chain = chain_start\<rparr>, tr_connected = 3\<rparr>"


lemma stream_waits_for_lockout_witness:
  "case turn_loop_pause (1000 * second) (ch_lockout (fst (sample_fetch True)))
      (Some (''failed to get TURN credentials: '' @ ''CAPTCHA_WAIT_REQUIRED'')) of
    FatalStop \<Rightarrow> True | NoPause \<Rightarrow> False
  | Pause d \<Rightarrow> 0 \<le> d \<and> ch_lockout (fst (sample_fetch True)) * second \<le> 1000 * second + d"
proof (rule stream_waits_for_lockout)
  show "fetchVkCreds (sample_api True) 900 ''room'' chain_start = (fst (sample_fetch True), Inl ''CAPTCHA_WAIT_REQUIRED'')"
    by (simp add: sample_fetch_def prod_eq_iff vkCredentialsList_def sample_chain_simps)
  show "900 * second \<le> 1000 * second" by (simp add: second_def)
  show "ae_now (sample_api True) (ch_log (fst (sample_fetch True))) * second \<le> 1000 * second"
    by (simp add: sample_api_def)
qed

end
