(* ===== verification/Vless_Sessions.thy ===== *)
theory Vless_Sessions
  imports Client_Setup Bond_Client
begin

text \<open>
  The sessions of VLESS mode (\<open>runVLESSMode\<close> and \<open>maintainVLESSSession\<close> of \<open>pkg/clientcore/main.go\<close>): one goroutine
  per session sets it up, adds it to the pool, looks every second whether it has been closed, takes it out of the pool,
  releases its layers and starts again; a setup error that points at the TURN server moves the session to another one.
  The goroutines, the dispatch of TCP connections and the end of a session interleave.
\<close>

section \<open>State\<close>

datatype mt_phase = MWait | MTop | MServing nat "resource list" | MExited

text \<open>\<open>mt_log\<close> is the history of the resources of a goroutine.\<close>

record maintainer =
  mt_phase :: mt_phase
  mt_log :: "setup_event list"

record vless =
  vl_pool :: pool_world
  vl_creds :: cred_state
  vl_ms :: "nat \<Rightarrow> maintainer"
  vl_ctxDone :: bool

definition vless_start :: "cred_state \<Rightarrow> vless" where
  "vless_start cs =
     \<lparr>vl_pool = \<lparr>pw_sessions = [], pw_pool = \<lparr>sp_sessions = [], sp_counter = 0, sp_connCounter = 0\<rparr>\<rparr>,
      vl_creds = cs, vl_ms = (\<lambda>i. \<lparr>mt_phase = MWait, mt_log = []\<rparr>), vl_ctxDone = False\<rparr>"

definition set_mt :: "nat \<Rightarrow> mt_phase \<Rightarrow> setup_event list \<Rightarrow> vless \<Rightarrow> vless" where
  "set_mt i ph evs w =
     w\<lparr>vl_ms := (vl_ms w)(i := (vl_ms w i)\<lparr>mt_phase := ph, mt_log := mt_log (vl_ms w i) @ evs\<rparr>)\<rparr>"

section \<open>The loop\<close>

text \<open>The waits (the staggered start, the retry, the reconnect): the context or the timer ends them.\<close>

definition mt_wait :: "nat \<Rightarrow> bool \<Rightarrow> vless \<Rightarrow> vless" where
  "mt_wait i timer w = set_mt i (if timer \<or> \<not> vl_ctxDone w then MTop else MExited) [] w"

definition after_setup_error :: "int \<Rightarrow> int \<Rightarrow> setup_error \<Rightarrow> cred_state \<Rightarrow> cred_state" where
  "after_setup_error now sid e cs =
     (if shouldRotateTURNServer (Some e)
      then (let (cs1, _) = rotateStreamServer sid cs in
            case turnSetupAddr e of Some addr \<Rightarrow> markTURNServerCooldown now addr cs1 | None \<Rightarrow> cs1)
      else cs)"

definition mt_top :: "setup_env \<Rightarrow> turnParams \<Rightarrow> int \<Rightarrow> nat \<Rightarrow> vless \<Rightarrow> vless" where
  "mt_top E tp now i w =
     (if vl_ctxDone w then set_mt i MExited [] w
      else case createSmuxSession E tp setup_start of
             (st, Inl e) \<Rightarrow>
               (set_mt i MWait (su_log st) w)\<lparr>vl_creds := after_setup_error now (int i) e (vl_creds w)\<rparr>
           | (st, Inr _) \<Rightarrow>
               (let (pool, ps) = pool_add (int i) (vl_pool w)
                in (set_mt i (MServing ps (su_cleanup st)) (su_log st) w)\<lparr>vl_pool := pool\<rparr>))"

definition mt_end :: "nat \<Rightarrow> nat \<Rightarrow> resource list \<Rightarrow> mt_phase \<Rightarrow> vless \<Rightarrow> vless" where
  "mt_end i ps cleanup ph w =
     (set_mt i ph (map Released cleanup) w)\<lparr>vl_pool := pool_remove ps (vl_pool w)\<rparr>"

definition mt_serving :: "nat \<Rightarrow> vless \<Rightarrow> vless" where
  "mt_serving i w =
     (case mt_phase (vl_ms w i) of
        MServing ps cleanup \<Rightarrow>
          if ps_isClosed (pw_sessions (vl_pool w) ! ps) then mt_end i ps cleanup MWait w
          else if vl_ctxDone w then mt_end i ps cleanup MExited w
          else w
      | _ \<Rightarrow> w)"

inductive vless_step :: "nat \<Rightarrow> turnParams \<Rightarrow> vless \<Rightarrow> vless \<Rightarrow> bool" for numSessions tp where
  wait: "i < numSessions \<Longrightarrow> mt_phase (vl_ms w i) = MWait \<Longrightarrow> vless_step numSessions tp w (mt_wait i timer w)"
| top: "i < numSessions \<Longrightarrow> mt_phase (vl_ms w i) = MTop \<Longrightarrow> vless_step numSessions tp w (mt_top E tp now i w)"
| serving: "i < numSessions \<Longrightarrow> vless_step numSessions tp w (mt_serving i w)"
| session_closes: "ps < length (pw_sessions (vl_pool w)) \<Longrightarrow>
     vless_step numSessions tp w (w\<lparr>vl_pool := upd_pooled ps (\<lambda>p. p\<lparr>ps_isClosed := True\<rparr>) (vl_pool w)\<rparr>)"
| dispatch: "vless_step numSessions tp w (w\<lparr>vl_pool := fst (dispatch_tcp bond unixNano (vl_pool w))\<rparr>)"
| cancel: "vless_step numSessions tp w (w\<lparr>vl_ctxDone := True\<rparr>)"

section \<open>Invariant\<close>

text \<open>How often a resource is open after a history.\<close>

definition held :: "setup_event list \<Rightarrow> resource \<Rightarrow> int" where
  "held evs r = int (count_list evs (Opened r)) - int (count_list evs (Released r))"

definition is_serving :: "mt_phase \<Rightarrow> bool" where
  "is_serving ph \<longleftrightarrow> (case ph of MServing _ _ \<Rightarrow> True | _ \<Rightarrow> False)"

definition log_ok :: "vless \<Rightarrow> bool" where
  "log_ok w \<longleftrightarrow> (\<forall>i r. held (mt_log (vl_ms w i)) r = (if is_serving (mt_phase (vl_ms w i)) then 1 else 0)) \<and>
     (\<forall>i ps cleanup. mt_phase (vl_ms w i) = MServing ps cleanup \<longrightarrow> cleanup = rev session_layers)"

definition pool_ok :: "vless \<Rightarrow> bool" where
  "pool_ok w \<longleftrightarrow>
     (let pw = vl_pool w; listed = sp_sessions (pw_pool pw) in
       distinct listed \<and>
       (\<forall>i ps cleanup. mt_phase (vl_ms w i) = MServing ps cleanup \<longrightarrow>
          ps \<in> set listed \<and> ps < length (pw_sessions pw) \<and> ps_id (pw_sessions pw ! ps) = int i) \<and>
       (\<forall>ps \<in> set listed. \<exists>i cleanup. mt_phase (vl_ms w i) = MServing ps cleanup))"

lemma held_simps [simp]:
  "held [] r = 0" "held (xs @ ys) r = held xs r + held ys r"
  "held (map Released rs) r = - int (count_list rs r)" "held (map Opened rs) r = int (count_list rs r)"
  by (simp_all add: held_def) (induction rs, auto)+

lemma layers_count: "r \<in> set session_layers \<and> count_list session_layers r = 1"
  by (cases r) (simp_all add: session_layers_def)

lemma count_rev [simp]: "count_list (rev xs) r = count_list xs r"
  by (induction xs) auto

lemma set_mt_simps [simp]:
  "vl_pool (set_mt i ph evs w) = vl_pool w" "vl_creds (set_mt i ph evs w) = vl_creds w"
  "vl_ctxDone (set_mt i ph evs w) = vl_ctxDone w"
  "mt_phase (vl_ms (set_mt i ph evs w) j) = (if j = i then ph else mt_phase (vl_ms w j))"
  "mt_log (vl_ms (set_mt i ph evs w) j) = mt_log (vl_ms w j) @ (if j = i then evs else [])"
  by (simp_all add: set_mt_def)

lemma log_set_mt:
  assumes "log_ok w" and "\<And>r. held evs r = (if is_serving ph then 1 else 0) - (if is_serving (mt_phase (vl_ms w i)) then 1 else 0)"
    and "\<And>ps cleanup. ph = MServing ps cleanup \<Longrightarrow> cleanup = rev session_layers"
  shows "log_ok (set_mt i ph evs w)"
  using assms by (auto simp: log_ok_def)

lemma log_ok_cong: "log_ok (w\<lparr>vl_creds := cs\<rparr>) = log_ok w" "log_ok (w\<lparr>vl_pool := p\<rparr>) = log_ok w" "log_ok (w\<lparr>vl_ctxDone := b\<rparr>) = log_ok w"
  by (simp_all add: log_ok_def)

lemma setup_log_balance:
  assumes "createSmuxSession E tp setup_start = (st, res)"
  shows "held (su_log st) r = (case res of Inl e \<Rightarrow> 0 | Inr _ \<Rightarrow> 1)"
    and "res = Inr u \<Longrightarrow> su_cleanup st = rev session_layers"
  using createSmuxSession_log [OF assms] layers_count [of r] by (auto split: sum.splits)

lemma pool_add_simps:
  "pool_add sid w = (w', ps) \<Longrightarrow> ps = length (pw_sessions w) \<and> sp_sessions (pw_pool w') = sp_sessions (pw_pool w) @ [ps] \<and>
     length (pw_sessions w') = Suc ps \<and> ps_id (pw_sessions w' ! ps) = sid \<and> (\<forall>k < ps. pw_sessions w' ! k = pw_sessions w ! k)"
  by (auto simp: pool_add_def Let_def nth_append)

lemma dispatch_frame:
  "sp_sessions (pw_pool (fst (dispatch_tcp bond t w))) = sp_sessions (pw_pool w)"
  "length (pw_sessions (fst (dispatch_tcp bond t w))) = length (pw_sessions w)"
  "k < length (pw_sessions w) \<Longrightarrow> ps_id (pw_sessions (fst (dispatch_tcp bond t w)) ! k) = ps_id (pw_sessions w ! k)"
  by (auto simp: dispatch_tcp_def pool_nextConnID_def pool_pick_def upd_pooled_def Let_def split: option.splits
      intro: nth_update_same [where g = ps_id and f = "\<lambda>p. p\<lparr>ps_opened := ps_opened p + 1, ps_active := ps_active p + 1\<rparr>"])

lemma pool_ok_same:
  assumes "pool_ok w" and "\<And>i. mt_phase (vl_ms w' i) = mt_phase (vl_ms w i)"
    and "sp_sessions (pw_pool (vl_pool w')) = sp_sessions (pw_pool (vl_pool w))"
    and "length (pw_sessions (vl_pool w')) = length (pw_sessions (vl_pool w))"
    and "\<And>k. k < length (pw_sessions (vl_pool w)) \<Longrightarrow> ps_id (pw_sessions (vl_pool w') ! k) = ps_id (pw_sessions (vl_pool w) ! k)"
  shows "pool_ok w'"
  using assms(1) by (simp add: pool_ok_def Let_def assms(2-5))

lemma pool_ok_idle:
  assumes "pool_ok w" and "\<not> is_serving (mt_phase (vl_ms w i))" and "\<not> is_serving ph"
  shows "pool_ok (set_mt i ph evs w)"
proof -
  have "mt_phase (vl_ms (set_mt i ph evs w) j) = MServing ps c \<longleftrightarrow> mt_phase (vl_ms w j) = MServing ps c" for j ps c
    using assms(2,3) by (auto simp: is_serving_def)
  then show ?thesis using assms(1) by (simp add: pool_ok_def Let_def del: set_mt_simps(4))
qed

lemma pool_ok_add:
  assumes ok: "pool_ok w" and idle: "\<not> is_serving (mt_phase (vl_ms w i))" and add: "pool_add (int i) (vl_pool w) = (p', ps)"
  shows "pool_ok ((set_mt i (MServing ps cleanup) evs w)\<lparr>vl_pool := p'\<rparr>)"
proof -
  note p = pool_add_simps [OF add]
  have old: "q \<in> set (sp_sessions (pw_pool (vl_pool w))) \<Longrightarrow> q < length (pw_sessions (vl_pool w))" for q
    using ok unfolding pool_ok_def Let_def by blast
  have serving: "mt_phase (vl_ms w j) = MServing q c \<Longrightarrow> j \<noteq> i" for j q c using idle by (auto simp: is_serving_def)
  let ?w = "(set_mt i (MServing ps cleanup) evs w)\<lparr>vl_pool := p'\<rparr>"
  have ph: "mt_phase (vl_ms ?w j) = (if j = i then MServing ps cleanup else mt_phase (vl_ms w j))" for j
    using set_mt_simps(4) by simp
  have fwd: "q \<in> set (sp_sessions (pw_pool p')) \<and> q < length (pw_sessions p') \<and> ps_id (pw_sessions p' ! q) = int j"
    if "mt_phase (vl_ms ?w j) = MServing q c" for j q c
  proof (cases "j = i")
    case True
    then have "q = ps" using that by (simp add: ph)
    moreover have "ps \<in> set (sp_sessions (pw_pool p'))" "ps < length (pw_sessions p')" "ps_id (pw_sessions p' ! ps) = int i"
      using p by auto
    ultimately show ?thesis using True by simp
  next
    case False
    then have "mt_phase (vl_ms w j) = MServing q c" using that by (simp add: ph)
    then have "q \<in> set (sp_sessions (pw_pool (vl_pool w)))" "q < length (pw_sessions (vl_pool w))"
        "ps_id (pw_sessions (vl_pool w) ! q) = int j"
      using ok unfolding pool_ok_def Let_def by blast+
    then show ?thesis using p by simp
  qed
  have bwd: "\<exists>j c. mt_phase (vl_ms ?w j) = MServing q c" if "q \<in> set (sp_sessions (pw_pool p'))" for q
  proof (cases "q = ps")
    case True
    then show ?thesis using ph [of i] by auto
  next
    case False
    then have "q \<in> set (sp_sessions (pw_pool (vl_pool w)))" using that p by simp
    then obtain j where "\<exists>c. mt_phase (vl_ms w j) = MServing q c" using ok unfolding pool_ok_def Let_def by blast
    then show ?thesis using ph [of j] serving by auto
  qed
  have "distinct (sp_sessions (pw_pool p'))" using p old ok by (auto simp: pool_ok_def Let_def)
  then show ?thesis using fwd bwd unfolding pool_ok_def Let_def by simp
qed

lemma pool_ok_end:
  assumes ok: "pool_ok w" and serving: "mt_phase (vl_ms w i) = MServing ps cleanup" and ph: "\<not> is_serving ph"
  shows "pool_ok (mt_end i ps cleanup ph w)"
proof -
  have inj: "j = i" if "mt_phase (vl_ms w j) = MServing ps c" for j c
  proof -
    have "ps_id (pw_sessions (vl_pool w) ! ps) = int j" "ps_id (pw_sessions (vl_pool w) ! ps) = int i"
      using ok serving that unfolding pool_ok_def Let_def by blast+
    then show ?thesis by simp
  qed
  have "\<exists>j c. j \<noteq> i \<and> mt_phase (vl_ms w j) = MServing q c" if q: "q \<in> set (sp_sessions (pw_pool (vl_pool w)))" "q \<noteq> ps" for q
  proof -
    obtain j where "\<exists>c. mt_phase (vl_ms w j) = MServing q c" using ok q(1) unfolding pool_ok_def Let_def by blast
    then show ?thesis using serving q(2) by (intro exI [of _ j]) auto
  qed
  note rest = this
  let ?w = "mt_end i ps cleanup ph w"
  have phase: "mt_phase (vl_ms ?w j) = (if j = i then ph else mt_phase (vl_ms w j))" for j by (simp add: mt_end_def)
  have pool: "sp_sessions (pw_pool (vl_pool ?w)) = remove1 ps (sp_sessions (pw_pool (vl_pool w)))"
    "pw_sessions (vl_pool ?w) = pw_sessions (vl_pool w)" by (simp_all add: mt_end_def pool_remove_def)
  have distinct: "distinct (sp_sessions (pw_pool (vl_pool w)))" using ok by (simp add: pool_ok_def Let_def)
  have fwd: "q \<in> set (remove1 ps (sp_sessions (pw_pool (vl_pool w)))) \<and> q < length (pw_sessions (vl_pool w)) \<and>
      ps_id (pw_sessions (vl_pool w) ! q) = int j" if m: "mt_phase (vl_ms ?w j) = MServing q c" for j q c
  proof -
    have old: "mt_phase (vl_ms w j) = MServing q c" "j \<noteq> i" using m ph by (auto simp: phase is_serving_def split: if_splits)
    then have "q \<noteq> ps" using inj by blast
    moreover have "q \<in> set (sp_sessions (pw_pool (vl_pool w)))" "q < length (pw_sessions (vl_pool w))"
        "ps_id (pw_sessions (vl_pool w) ! q) = int j"
      using ok old(1) unfolding pool_ok_def Let_def by blast+
    ultimately show ?thesis using distinct by simp
  qed
  have bwd: "\<exists>j c. mt_phase (vl_ms ?w j) = MServing q c" if m: "q \<in> set (remove1 ps (sp_sessions (pw_pool (vl_pool w))))" for q
  proof -
    obtain j where "j \<noteq> i" "\<exists>c. mt_phase (vl_ms w j) = MServing q c" using rest [of q] m distinct by auto
    then show ?thesis by (intro exI [of _ j]) (simp add: phase)
  qed
  show ?thesis using fwd bwd distinct unfolding pool_ok_def Let_def pool by simp
qed

lemma setup_end_balance: "cleanup = rev session_layers \<Longrightarrow> held (map Released cleanup) r = - 1"
  using layers_count [of r] by simp

lemma vless_step_ok:
  assumes "vless_step n tp w w'" and "log_ok w" and "pool_ok w"
  shows "log_ok w' \<and> pool_ok w'"
  using assms(1)
proof cases
  case (wait i timer)
  then show ?thesis using assms(2,3)
    by (auto simp: mt_wait_def is_serving_def intro!: log_set_mt pool_ok_idle)
next
  case (top i E now)
  have idle: "\<not> is_serving (mt_phase (vl_ms w i))" using top(3) by (simp add: is_serving_def)
  obtain st r where run: "createSmuxSession E tp setup_start = (st, r)" by fastforce
  consider (stop) "vl_ctxDone w" | (err) e where "\<not> vl_ctxDone w" "r = Inl e" | (ok) u where "\<not> vl_ctxDone w" "r = Inr u"
    by (cases r) auto
  then show ?thesis
  proof cases
    case stop
    then show ?thesis using top(1) assms(2,3) idle by (auto simp: mt_top_def is_serving_def intro!: log_set_mt pool_ok_idle)
  next
    case (err e)
    have w': "w' = (set_mt i MWait (su_log st) w)\<lparr>vl_creds := after_setup_error now (int i) e (vl_creds w)\<rparr>"
      using top(1) err run by (simp add: mt_top_def)
    have "log_ok (set_mt i MWait (su_log st) w)"
      using assms(2) idle setup_log_balance(1) [OF run] err(2) by (intro log_set_mt) (auto simp: is_serving_def)
    moreover have "pool_ok (set_mt i MWait (su_log st) w)" by (rule pool_ok_idle [OF assms(3) idle]) (simp add: is_serving_def)
    ultimately show ?thesis unfolding w' using pool_ok_same [of "set_mt i MWait (su_log st) w"] by (auto simp: log_ok_cong)
  next
    case (ok u)
    obtain p' ps where add: "pool_add (int i) (vl_pool w) = (p', ps)" by fastforce
    have w': "w' = (set_mt i (MServing ps (su_cleanup st)) (su_log st) w)\<lparr>vl_pool := p'\<rparr>"
      using top(1) ok run add by (simp add: mt_top_def)
    have "log_ok (set_mt i (MServing ps (su_cleanup st)) (su_log st) w)"
      using assms(2) idle setup_log_balance [OF run] ok(2) by (intro log_set_mt) (auto simp: is_serving_def)
    then show ?thesis unfolding w' using pool_ok_add [OF assms(3) idle add] by (simp add: log_ok_cong)
  qed
next
  case (serving i)
  show ?thesis
  proof (cases "mt_phase (vl_ms w i)")
    case (MServing ps cleanup)
    have c: "cleanup = rev session_layers" using assms(2) MServing by (auto simp: log_ok_def)
    have fin: "log_ok (mt_end i ps cleanup ph w) \<and> pool_ok (mt_end i ps cleanup ph w)" if "\<not> is_serving ph" for ph
    proof -
      have "log_ok (set_mt i ph (map Released cleanup) w)"
        using assms(2) that MServing setup_end_balance [OF c] by (intro log_set_mt) (auto simp: is_serving_def)
      then show ?thesis using pool_ok_end [OF assms(3) MServing that] by (simp add: mt_end_def log_ok_cong)
    qed
    then show ?thesis using serving(1) MServing assms(2,3) by (simp add: mt_serving_def is_serving_def)
  qed (use serving(1) assms(2,3) in \<open>simp_all add: mt_serving_def\<close>)
next
  case (session_closes ps)
  have "pool_ok w'" unfolding session_closes(1)
    by (rule pool_ok_same [OF assms(3)])
      (simp_all add: upd_pooled_def nth_update_same [where g = ps_id and f = "\<lambda>p. p\<lparr>ps_isClosed := True\<rparr>"])
  then show ?thesis using session_closes(1) assms(2) by (simp add: log_ok_cong)
next
  case (dispatch bond unixNano)
  have "pool_ok w'" unfolding dispatch
    by (rule pool_ok_same [OF assms(3)]) (simp_all add: dispatch_frame)
  then show ?thesis using dispatch assms(2) by (simp add: log_ok_cong)
next
  case cancel
  have "pool_ok w'" unfolding cancel by (rule pool_ok_same [OF assms(3)]) simp_all
  then show ?thesis using cancel assms(2) by (simp add: log_ok_cong)
qed

lemma vless_start_ok: "log_ok (vless_start cs) \<and> pool_ok (vless_start cs)"
  by (auto simp: log_ok_def pool_ok_def vless_start_def is_serving_def)

interpretation vless: invariant_system "\<lambda>w. w = vless_start cs" "vless_step n tp" "\<lambda>w. log_ok w \<and> pool_ok w" for cs n tp
  by unfold_locales (use vless_start_ok vless_step_ok in blast)+

section \<open>Properties\<close>

definition serving :: "vless \<Rightarrow> nat \<Rightarrow> bool" where
  "serving w ps \<longleftrightarrow> (\<exists>i cleanup. mt_phase (vl_ms w i) = MServing ps cleanup)"

text \<open>C28: The pool of VLESS mode is exactly what the maintaining goroutines serve: at any time it holds the session of every
  goroutine that is serving one, once, under the number of the goroutine, and no other session; and each goroutine
  holds the seven layers of the session it serves, each opened once more than released, and nothing when it serves
  none, so that nothing is leaked over any number of failed setups and reconnects.\<close>

theorem pool_is_what_is_served:
  assumes "rtranclp (vless_step numSessions tp) (vless_start cs) w"
  shows "distinct (sp_sessions (pw_pool (vl_pool w))) \<and>
    (\<forall>ps. ps \<in> set (sp_sessions (pw_pool (vl_pool w))) \<longleftrightarrow> serving w ps) \<and>
    (\<forall>i ps cleanup. mt_phase (vl_ms w i) = MServing ps cleanup \<longrightarrow>
       ps_id (pw_sessions (vl_pool w) ! ps) = int i \<and> cleanup = rev session_layers) \<and>
    (\<forall>i r. held (mt_log (vl_ms w i)) r = (if is_serving (mt_phase (vl_ms w i)) then 1 else 0))"
proof -
  have ok: "log_ok w" "pool_ok w" using vless.reachable_inv [OF refl assms] by auto
  show ?thesis using ok(2) ok(1) unfolding pool_ok_def Let_def log_ok_def serving_def by blast
qed

text \<open>One session is set up, fails its first allocation, and is served after the second.\<close>

definition sample_vless :: "vless list" where
  "sample_vless =
     (let w1 = mt_wait 0 True (vless_start (tr_creds sample_run));
          w2 = mt_top (sample_setup (Some ''quota'')) sample_params 5 0 w1;
          w3 = mt_wait 0 True w2
      in [w1, w2, w3, mt_top (sample_setup None) sample_params 9 0 w3])"

lemma sample_setups:
  "createSmuxSession (sample_setup (Some ''quota'')) sample_params setup_start =
     (\<lparr>su_log = [Opened TurnConn, Opened TurnClient, Released TurnClient, Released TurnConn], su_cleanup = []\<rparr>,
      Inl (TurnSetupError ''1.2.3.4:3478'' ''TURN allocate: quota''))"
  "createSmuxSession (sample_setup None) sample_params setup_start =
     (\<lparr>su_log = map Opened session_layers, su_cleanup = rev session_layers\<rparr>, Inr ())"
  unfolding createSmuxSession_def act_bind_def sample_address
  by (simp_all add: open_relay_def relay_session_def sample_setup_def sample_params_def setup_defs setup_start_def session_layers_def
      newRelayPacketConn_def wrapKeyLen_def)

lemma sample_vless_run: "rtranclp (vless_step 1 sample_params) (vless_start (tr_creds sample_run)) (sample_vless ! 3)"
proof -
  have p: "mt_phase (vl_ms (vless_start cs) 0) = MWait" "mt_phase (vl_ms (sample_vless ! 0) 0) = MTop"
    "mt_phase (vl_ms (sample_vless ! 1) 0) = MWait" "mt_phase (vl_ms (sample_vless ! 2) 0) = MTop" for cs
    by (simp_all add: sample_vless_def Let_def mt_wait_def mt_top_def sample_setups) (simp_all add: vless_start_def)
  have "vless_step 1 sample_params (vless_start (tr_creds sample_run)) (sample_vless ! 0)"
    using vless_step.wait [of 0 1 "vless_start (tr_creds sample_run)" sample_params True] p by (simp add: sample_vless_def Let_def)
  moreover have "vless_step 1 sample_params (sample_vless ! 0) (sample_vless ! 1)"
    using vless_step.top [of 0 1 "sample_vless ! 0" sample_params "sample_setup (Some ''quota'')" 5] p
    by (simp add: sample_vless_def Let_def)
  moreover have "vless_step 1 sample_params (sample_vless ! 1) (sample_vless ! 2)"
    using vless_step.wait [of 0 1 "sample_vless ! 1" sample_params True] p by (simp add: sample_vless_def Let_def)
  moreover have "vless_step 1 sample_params (sample_vless ! 2) (sample_vless ! 3)"
    using vless_step.top [of 0 1 "sample_vless ! 2" sample_params "sample_setup None" 9] p by (simp add: sample_vless_def Let_def)
  ultimately show ?thesis by (meson rtranclp.rtrancl_into_rtrancl rtranclp.rtrancl_refl)
qed

lemma pool_is_what_is_served_witness:
  "sp_sessions (pw_pool (vl_pool (sample_vless ! 3))) = [0] \<and> serving (sample_vless ! 3) 0"
proof -
  have "sp_sessions (pw_pool (vl_pool (sample_vless ! 3))) = [0]"
    by (simp add: sample_vless_def Let_def mt_wait_def mt_top_def sample_setups)
      (simp add: vless_start_def pool_add_def Let_def)
  then show ?thesis using pool_is_what_is_served [OF sample_vless_run] by auto
qed

end
