(* ===== verification/Client_Run.thy ===== *)
theory Client_Run
  imports Client_Setup
begin

text \<open>
  The configuration that \<open>Run\<close> accepts (\<open>Config\<close>, \<open>setDefaults\<close> and the first part of \<open>Run\<close> in
  \<open>pkg/clientcore/main.go\<close>, \<open>setLocalCaptchaHost\<close> in \<open>manual_captcha.go\<close>): which configurations are refused with
  which error, and what the rest of the client is given. The resolver of the peer address is a parameter. The
  global variables that \<open>Run\<close> writes outlive it, so they are a state.
\<close>

section \<open>Configuration\<close>

record client_config =
  cfg_TURNHost :: string
  cfg_TURNPort :: string
  cfg_Listen :: string
  cfg_VKLink :: string
  cfg_PeerAddr :: string
  cfg_NumStreams :: int
  cfg_UseUDP :: bool
  cfg_NoDTLS :: bool
  cfg_VLESSMode :: bool
  cfg_VLESSBond :: bool
  cfg_WrapMode :: bool
  cfg_WrapKeyHex :: string
  cfg_StreamsPerCred :: int
  cfg_Debug :: bool
  cfg_ManualCaptcha :: bool
  cfg_CaptchaSolver :: string
  cfg_CaptchaHost :: string

record client_globals =
  gl_streamsPerCache :: int
  gl_isDebug :: bool
  gl_manualCaptcha :: bool
  gl_captchaSolverVersion :: string
  gl_customCaptchaHost :: string
  gl_autoCaptchaSliderPOC :: bool

definition setDefaults :: "client_globals \<Rightarrow> client_config \<Rightarrow> client_config" where
  "setDefaults gl cfg =
     (let cfg = (if cfg_Listen cfg = [] then cfg\<lparr>cfg_Listen := ''127.0.0.1:9000''\<rparr> else cfg);
          cfg = (if cfg_StreamsPerCred cfg \<le> 0 then cfg\<lparr>cfg_StreamsPerCred := gl_streamsPerCache gl\<rparr> else cfg)
      in if cfg_CaptchaSolver cfg = [] then cfg\<lparr>cfg_CaptchaSolver := ''v2''\<rparr> else cfg)"

text \<open>An URL with a scheme never prints as the empty string, so the last check of the code passes.\<close>

definition setLocalCaptchaHost :: "string \<Rightarrow> (client_globals, string, unit) sact" where
  "setLocalCaptchaHost raw gl =
     (let host = str_TrimSpace raw in
      if host = [] then (gl\<lparr>gl_customCaptchaHost := []\<rparr>, Inr ())
      else if str_Contains host ''://'' then (gl, Inl ''-captcha-host must be host:port without scheme'')
      else case SplitHostPort host of
             Inl e \<Rightarrow> (gl, Inl (''-captcha-host must be host:port: '' @ e))
           | Inr (hostname, port) \<Rightarrow>
               if hostname = [] \<or> port = [] then (gl, Inl ''-captcha-host must include both host and port'')
               else (gl\<lparr>gl_customCaptchaHost := host\<rparr>, Inr ()))"

definition solver_version :: "string \<Rightarrow> string" where
  "solver_version raw =
     (let v = str_ToLower (str_TrimSpace raw) in if v \<noteq> ''v1'' \<and> v \<noteq> ''v2'' then ''v2'' else v)"

text \<open>The identifier of the call: what follows the last \<open>join/\<close>, up to the first of the characters \<open>/?#\<close>.\<close>

definition is_link_end :: "char \<Rightarrow> bool" where
  "is_link_end c \<longleftrightarrow> c \<in> {CHR ''/'', CHR ''?'', CHR ''#''}"

definition link_of :: "string \<Rightarrow> string" where
  "link_of raw = takeWhile (\<lambda>c. \<not> is_link_end c) (last (str_SplitSub ''join/'' raw))"

section \<open>The first part of Run\<close>

datatype run_mode = VlessRun bool | UdpRun

record run_plan =
  rp_params :: turnParams
  rp_link :: string
  rp_peer :: string
  rp_listen :: string
  rp_numStreams :: int
  rp_noDTLS :: bool
  rp_mode :: run_mode

definition run_checks :: "(string \<Rightarrow> string + string) \<Rightarrow> client_config \<Rightarrow> string + string \<times> bytes option" where
  "run_checks resolve cfg =
     (if cfg_PeerAddr cfg = [] then Inl ''need peer address''
      else case resolve (cfg_PeerAddr cfg) of
        Inl e \<Rightarrow> Inl e
      | Inr peer \<Rightarrow>
          if cfg_VKLink cfg = [] then Inl ''need vk-link''
          else if cfg_WrapMode cfg \<and> cfg_NoDTLS cfg then Inl ''-wrap requires DTLS; remove -no-dtls''
          else case decodeWrapKey (cfg_WrapMode cfg) (cfg_WrapKeyHex cfg) of
            Inl e \<Rightarrow> Inl e
          | Inr wrapKey \<Rightarrow>
              if cfg_StreamsPerCred cfg \<le> 0 then Inl ''-streams-per-cred must be positive'' else Inr (peer, wrapKey))"

definition run_globals :: "client_config \<Rightarrow> client_globals \<Rightarrow> client_globals" where
  "run_globals cfg gl =
     gl\<lparr>gl_streamsPerCache := cfg_StreamsPerCred cfg, gl_isDebug := cfg_Debug cfg,
        gl_manualCaptcha := cfg_ManualCaptcha cfg, gl_captchaSolverVersion := solver_version (cfg_CaptchaSolver cfg)\<rparr>"

definition run_plan_of :: "client_config \<Rightarrow> string \<Rightarrow> bytes option \<Rightarrow> run_plan" where
  "run_plan_of cfg peer wrapKey =
     \<lparr>rp_params = \<lparr>tp_host = cfg_TURNHost cfg, tp_port = cfg_TURNPort cfg, tp_udp = cfg_UseUDP cfg,
        tp_wrapKey = (case wrapKey of None \<Rightarrow> [] | Some k \<Rightarrow> k)\<rparr>,
      rp_link = link_of (cfg_VKLink cfg), rp_peer = peer, rp_listen = cfg_Listen cfg,
      rp_numStreams = (if cfg_NumStreams cfg \<le> 0 then 10 else cfg_NumStreams cfg), rp_noDTLS = cfg_NoDTLS cfg,
      rp_mode = (if cfg_VLESSMode cfg then VlessRun (cfg_VLESSBond cfg) else UdpRun)\<rparr>"

definition run_prologue :: "(string \<Rightarrow> string + string) \<Rightarrow> client_config \<Rightarrow> (client_globals, string, run_plan) sact" where
  "run_prologue resolve cfg0 gl =
     (let cfg = setDefaults gl cfg0 in
      case run_checks resolve cfg of
        Inl e \<Rightarrow> (gl, Inl e)
      | Inr (peer, wrapKey) \<Rightarrow>
          act_bind (setLocalCaptchaHost (cfg_CaptchaHost cfg))
            (\<lambda>_ gl. act_return (run_plan_of cfg peer wrapKey) (gl\<lparr>gl_autoCaptchaSliderPOC := \<not> gl_manualCaptcha gl\<rparr>))
            (run_globals cfg gl))"

text \<open>What follows in UDP mode: the local socket, and no direct mode. In VLESS mode \<open>Run\<close> hands everything to
  \<open>runVLESSMode\<close> and returns no error; \<open>-no-dtls\<close> is not looked at.\<close>

definition run_outcome :: "string option \<Rightarrow> run_plan \<Rightarrow> string option" where
  "run_outcome listen_error plan =
     (case rp_mode plan of
        VlessRun bond \<Rightarrow> None
      | UdpRun \<Rightarrow>
          (case listen_error of
             Some e \<Rightarrow> Some (''failed to listen: '' @ e)
           | None \<Rightarrow> if rp_noDTLS plan then Some ''direct mode not supported with dispatcher'' else None))"

section \<open>What an accepted configuration guarantees\<close>

definition captcha_host_ok :: "string \<Rightarrow> bool" where
  "captcha_host_ok host \<longleftrightarrow>
     host = [] \<or> (\<not> str_Contains host ''://'' \<and> (\<exists>h p. SplitHostPort host = Inr (h, p) \<and> h \<noteq> [] \<and> p \<noteq> []))"

lemma setLocalCaptchaHost_spec:
  "setLocalCaptchaHost raw gl =
     (if captcha_host_ok (str_TrimSpace raw) then (gl\<lparr>gl_customCaptchaHost := str_TrimSpace raw\<rparr>, Inr ())
      else (gl, snd (setLocalCaptchaHost raw gl)))"
  "captcha_host_ok (str_TrimSpace raw) \<longleftrightarrow> snd (setLocalCaptchaHost raw gl) = Inr ()"
  by (auto simp: setLocalCaptchaHost_def captcha_host_ok_def Let_def split: sum.splits prod.splits)

lemma setDefaults_simps [simp]:
  "cfg_Listen (setDefaults gl cfg) = (if cfg_Listen cfg = [] then ''127.0.0.1:9000'' else cfg_Listen cfg)"
  "cfg_StreamsPerCred (setDefaults gl cfg) = (if cfg_StreamsPerCred cfg \<le> 0 then gl_streamsPerCache gl else cfg_StreamsPerCred cfg)"
  "cfg_CaptchaSolver (setDefaults gl cfg) = (if cfg_CaptchaSolver cfg = [] then ''v2'' else cfg_CaptchaSolver cfg)"
  "cfg_PeerAddr (setDefaults gl cfg) = cfg_PeerAddr cfg" "cfg_VKLink (setDefaults gl cfg) = cfg_VKLink cfg"
  "cfg_NoDTLS (setDefaults gl cfg) = cfg_NoDTLS cfg" "cfg_WrapMode (setDefaults gl cfg) = cfg_WrapMode cfg"
  "cfg_WrapKeyHex (setDefaults gl cfg) = cfg_WrapKeyHex cfg" "cfg_CaptchaHost (setDefaults gl cfg) = cfg_CaptchaHost cfg"
  "cfg_NumStreams (setDefaults gl cfg) = cfg_NumStreams cfg" "cfg_ManualCaptcha (setDefaults gl cfg) = cfg_ManualCaptcha cfg"
  "cfg_VLESSMode (setDefaults gl cfg) = cfg_VLESSMode cfg" "cfg_VLESSBond (setDefaults gl cfg) = cfg_VLESSBond cfg"
  by (simp_all add: setDefaults_def Let_def)

lemma link_of_spec:
  "\<exists>before rest. raw = before @ link_of raw @ rest \<and> (before = [] \<or> (\<exists>u. before = u @ ''join/'')) \<and>
     \<not> str_Contains (link_of raw @ rest) ''join/'' \<and> (rest = [] \<or> is_link_end (hd rest))"
proof -
  let ?l = "last (str_SplitSub ''join/'' raw)"
  define rest where "rest = dropWhile (\<lambda>c. \<not> is_link_end c) ?l"
  have l: "link_of raw @ rest = ?l" by (simp add: link_of_def rest_def)
  moreover have "rest = [] \<or> is_link_end (hd rest)" unfolding rest_def using hd_dropWhile by blast
  moreover have "\<not> str_Contains ?l ''join/'' \<and> (raw = ?l \<or> (\<exists>u. raw = u @ ''join/'' @ ?l))"
    by (rule str_SplitSub_last) simp
  ultimately show ?thesis by (metis append.assoc append_Nil)
qed

lemma solver_version_cases: "solver_version raw \<in> {''v1'', ''v2''}"
  by (auto simp: solver_version_def Let_def)

definition wrap_flags_ok :: "client_config \<Rightarrow> bool" where
  "wrap_flags_ok cfg \<longleftrightarrow>
     (cfg_WrapMode cfg \<longrightarrow> \<not> cfg_NoDTLS cfg \<and> (\<exists>k. hex_DecodeString (cfg_WrapKeyHex cfg) = Some k \<and> length k = wrapKeyLen))"

lemma decodeWrapKey_cases:
  "(\<exists>k. decodeWrapKey enabled raw = Inr k) \<longleftrightarrow> (enabled \<longrightarrow> (\<exists>k. hex_DecodeString raw = Some k \<and> length k = wrapKeyLen))"
  "decodeWrapKey enabled raw = Inr k \<Longrightarrow> (case k of None \<Rightarrow> \<not> enabled | Some k \<Rightarrow> enabled \<and> length k = wrapKeyLen)"
  by (cases "hex_DecodeString raw"; auto simp: decodeWrapKey_def wrapKeyLen_def split: if_splits)+

lemma run_checks_accepts:
  "(\<exists>r. run_checks resolve cfg = Inr r) \<longleftrightarrow>
     cfg_PeerAddr cfg \<noteq> [] \<and> (\<exists>peer. resolve (cfg_PeerAddr cfg) = Inr peer) \<and> cfg_VKLink cfg \<noteq> [] \<and>
     wrap_flags_ok cfg \<and> 0 < cfg_StreamsPerCred cfg"
  using decodeWrapKey_cases(1) [of "cfg_WrapMode cfg" "cfg_WrapKeyHex cfg"]
  by (cases "resolve (cfg_PeerAddr cfg)"; cases "decodeWrapKey (cfg_WrapMode cfg) (cfg_WrapKeyHex cfg)")
    (auto simp: run_checks_def wrap_flags_ok_def)

lemma run_checks_result:
  "run_checks resolve cfg = Inr (peer, k) \<Longrightarrow>
     resolve (cfg_PeerAddr cfg) = Inr peer \<and> 0 < cfg_StreamsPerCred cfg \<and> (cfg_WrapMode cfg \<longrightarrow> \<not> cfg_NoDTLS cfg) \<and>
     decodeWrapKey (cfg_WrapMode cfg) (cfg_WrapKeyHex cfg) = Inr k"
  by (auto simp: run_checks_def split: if_splits sum.splits)

lemma run_prologue_cases:
  assumes "run_prologue resolve cfg gl = (gl', res)"
  obtains (refused) e where "run_checks resolve (setDefaults gl cfg) = Inl e" "gl' = gl" "res = Inl e"
  | (captcha) peer k e where "run_checks resolve (setDefaults gl cfg) = Inr (peer, k)"
      "\<not> captcha_host_ok (str_TrimSpace (cfg_CaptchaHost cfg))" "gl' = run_globals (setDefaults gl cfg) gl" "res = Inl e"
  | (accepted) peer k where "run_checks resolve (setDefaults gl cfg) = Inr (peer, k)"
      "captcha_host_ok (str_TrimSpace (cfg_CaptchaHost cfg))"
      "gl' = (run_globals (setDefaults gl cfg) gl)\<lparr>gl_customCaptchaHost := str_TrimSpace (cfg_CaptchaHost cfg),
                gl_autoCaptchaSliderPOC := \<not> cfg_ManualCaptcha cfg\<rparr>"
      "res = Inr (run_plan_of (setDefaults gl cfg) peer k)"
proof (cases "run_checks resolve (setDefaults gl cfg)")
  case (Inl e)
  then show ?thesis using assms by (intro refused) (auto simp: run_prologue_def)
next
  case (Inr r)
  obtain peer k where r: "r = (peer, k)" by (cases r)
  let ?gl = "run_globals (setDefaults gl cfg) gl"
  show ?thesis
  proof (cases "captcha_host_ok (str_TrimSpace (cfg_CaptchaHost cfg))")
    case True
    have "setLocalCaptchaHost (cfg_CaptchaHost cfg) ?gl = (?gl\<lparr>gl_customCaptchaHost := str_TrimSpace (cfg_CaptchaHost cfg)\<rparr>, Inr ())"
      using setLocalCaptchaHost_spec(1) [of "cfg_CaptchaHost cfg" ?gl] True by simp
    then show ?thesis using assms Inr r True
      by (intro accepted) (simp_all add: run_prologue_def act_bind_def act_return_def run_globals_def Let_def del: setDefaults_simps(1-3), simp_all)
  next
    case False
    moreover have "setLocalCaptchaHost (cfg_CaptchaHost cfg) ?gl = (?gl, snd (setLocalCaptchaHost (cfg_CaptchaHost cfg) ?gl))"
      using setLocalCaptchaHost_spec(1) [of "cfg_CaptchaHost cfg" ?gl] False by simp
    moreover have "snd (setLocalCaptchaHost (cfg_CaptchaHost cfg) ?gl) \<noteq> Inr ()"
      using setLocalCaptchaHost_spec(2) False by blast
    ultimately obtain e where "setLocalCaptchaHost (cfg_CaptchaHost cfg) ?gl = (?gl, Inl e)"
      by (cases "snd (setLocalCaptchaHost (cfg_CaptchaHost cfg) ?gl)") auto
    then show ?thesis using assms Inr r False by (intro captcha [of peer k e]) (simp_all add: run_prologue_def act_bind_def Let_def del: setDefaults_simps(1-3))
  qed
qed

section \<open>Properties\<close>



definition sample_config :: client_config where
  "sample_config =
     \<lparr>cfg_TURNHost = [], cfg_TURNPort = [], cfg_Listen = [], cfg_VKLink = ''https://vk.com/call/join/abc?x'',
      cfg_PeerAddr = ''h:1'', cfg_NumStreams = 0, cfg_UseUDP = False, cfg_NoDTLS = False, cfg_VLESSMode = False,
      cfg_VLESSBond = False, cfg_WrapMode = False, cfg_WrapKeyHex = [], cfg_StreamsPerCred = 0, cfg_Debug = False,
      cfg_ManualCaptcha = False, cfg_CaptchaSolver = '' V1 '', cfg_CaptchaHost = ''h:8''\<rparr>"

definition initial_globals :: client_globals where
  "initial_globals = \<lparr>gl_streamsPerCache = 10, gl_isDebug = False, gl_manualCaptcha = False,
     gl_captchaSolverVersion = [], gl_customCaptchaHost = [], gl_autoCaptchaSliderPOC = False\<rparr>"


end
