(* ===== verification/Client_Dispatch.thy ===== *)
theory Client_Dispatch
  imports Client_Run "HOL-Library.Sublist"
begin

text \<open>
  The dispatcher of the client in UDP mode (second part of \<open>Run\<close>, \<open>oneDtlsConnection\<close> and \<open>dtlsFunc\<close> in
  \<open>pkg/clientcore/main.go\<close>): one goroutine reads the local socket into buffers of a pool and puts them into a
  channel of 2000, from which the sending goroutine of every DTLS connection takes them; every connection has a
  receiving goroutine that answers to the local address that sent last. Every stream has one DTLS connection after the
  other; a sending goroutine can outlive its connection. The buffers are objects of a heap, since they are shared by
  address. Histories (\<open>ds_arrived\<close> and those after it) are read by no operation; \<open>ds_toLocal\<close> also
  records how many datagrams had arrived.
\<close>

section \<open>State\<close>

definition udpPacketSize :: nat where "udpPacketSize = 2048"

definition inboundCap :: nat where "inboundCap = 2000"

definition handshakeCap :: nat where "handshakeCap = 3"

definition dtlsReadSize :: nat where "dtlsReadSize = 1600"

record udp_packet =
  up_Data :: bytes
  up_N :: nat

definition new_udp_packet :: udp_packet where
  "new_udp_packet = \<lparr>up_Data = replicate udpPacketSize 0, up_N = 0\<rparr>"

definition payload :: "udp_packet \<Rightarrow> bytes" where
  "payload p = take (up_N p) (up_Data p)"

datatype reader_pc = RdGet | RdRead nat | RdSend nat | RdDone

datatype sender_pc = TakePacket | WritePacket nat | PutPacket nat | SenderDone

record dtls_conn =
  dc_stream :: nat
  dc_sender :: sender_pc
  dc_receiving :: bool
  dc_cancelled :: bool
  dc_closed :: bool
  dc_sent :: "bytes list"

datatype stream_pc = Waiting | Handshaking | Connected nat | StreamDone

record dispatch =
  ds_packet :: "nat \<Rightarrow> udp_packet"
  ds_allocated :: nat
  ds_pool :: "nat list"
  ds_inbound :: "nat list"
  ds_activePeer :: "string option"
  ds_reader :: reader_pc
  ds_conn :: "nat \<Rightarrow> dtls_conn"
  ds_nconns :: nat
  ds_stream :: "nat \<Rightarrow> stream_pc"
  ds_handshakeSem :: nat
  ds_launched :: nat
  ds_mainWaits :: bool
  ds_ctxDone :: bool
  ds_arrived :: "(string \<times> bytes) list"
  ds_verdicts :: "(bytes \<times> bool) list"
  ds_taken :: "(nat \<times> bytes) list"
  ds_toLocal :: "(string \<times> bytes \<times> nat) list"

text \<open>\<open>Run\<close> launches stream 0. The pool and the active peer are global: an earlier run can have left values.\<close>

definition dispatch_start :: "string option \<Rightarrow> dispatch \<Rightarrow> bool" where
  "dispatch_start peer ds \<longleftrightarrow>
     ds_inbound ds = [] \<and> ds_activePeer ds = peer \<and> ds_reader ds = RdGet \<and> ds_nconns ds = 0 \<and>
     ds_stream ds = (\<lambda>_. Waiting) \<and> ds_handshakeSem ds = 0 \<and> ds_launched ds = 1 \<and> ds_mainWaits ds \<and>
     distinct (ds_pool ds) \<and> (\<forall>a \<in> set (ds_pool ds). a < ds_allocated ds) \<and>
     (\<forall>a. length (up_Data (ds_packet ds a)) = udpPacketSize) \<and>
     ds_arrived ds = [] \<and> ds_verdicts ds = [] \<and> ds_taken ds = [] \<and> ds_toLocal ds = []"

section \<open>Reading the local socket\<close>

text \<open>\<open>packetPool.Get()\<close>: any pooled buffer, or a new one.\<close>

definition reader_get :: "nat \<Rightarrow> dispatch \<Rightarrow> dispatch" where
  "reader_get i ds =
     (if i < length (ds_pool ds)
      then ds\<lparr>ds_reader := RdRead (ds_pool ds ! i), ds_pool := take i (ds_pool ds) @ drop (Suc i) (ds_pool ds)\<rparr>
      else ds\<lparr>ds_reader := RdRead (ds_allocated ds), ds_packet := (ds_packet ds)(ds_allocated ds := new_udp_packet),
              ds_allocated := Suc (ds_allocated ds)\<rparr>)"

definition store_peer :: "string \<Rightarrow> string option \<Rightarrow> string option" where
  "store_peer addr current =
     (case current of
        None \<Rightarrow> Some addr
      | Some old \<Rightarrow> if old \<noteq> addr then Some addr else current)"

text \<open>The goroutine ends with the first error of the socket; a datagram that is too long is cut off.\<close>

definition reader_read :: "(bytes \<times> string) option \<Rightarrow> nat \<Rightarrow> dispatch \<Rightarrow> dispatch" where
  "reader_read r a ds =
     (case r of
        None \<Rightarrow> ds\<lparr>ds_reader := RdDone\<rparr>
      | Some (datagram, addr) \<Rightarrow>
          (let pkt = ds_packet ds a; d = take (length (up_Data pkt)) datagram in
           ds\<lparr>ds_reader := RdSend a,
              ds_packet := (ds_packet ds)(a := \<lparr>up_Data = d @ drop (length d) (up_Data pkt), up_N = length d\<rparr>),
              ds_activePeer := store_peer addr (ds_activePeer ds),
              ds_arrived := ds_arrived ds @ [(addr, datagram)]\<rparr>))"

definition reader_send :: "nat \<Rightarrow> dispatch \<Rightarrow> dispatch" where
  "reader_send a ds =
     (let d = payload (ds_packet ds a) in
      case try_send inboundCap (ds_inbound ds) a of
        Some q \<Rightarrow> ds\<lparr>ds_reader := RdGet, ds_inbound := q, ds_verdicts := ds_verdicts ds @ [(d, True)]\<rparr>
      | None \<Rightarrow> ds\<lparr>ds_reader := RdGet, ds_pool := a # ds_pool ds, ds_verdicts := ds_verdicts ds @ [(d, False)]\<rparr>)"

section \<open>A DTLS connection\<close>

definition conn_cancelled :: "dispatch \<Rightarrow> nat \<Rightarrow> bool" where
  "conn_cancelled ds c \<longleftrightarrow> ds_ctxDone ds \<or> dc_cancelled (ds_conn ds c)"

definition upd_conn :: "nat \<Rightarrow> (dtls_conn \<Rightarrow> dtls_conn) \<Rightarrow> dispatch \<Rightarrow> dispatch" where
  "upd_conn c f ds = ds\<lparr>ds_conn := (ds_conn ds)(c := f (ds_conn ds c))\<rparr>"

text \<open>The sending goroutine. When its context is done and a packet waits, the \<open>select\<close> may take either branch.
  Errors of a write are ignored; a closed connection takes nothing.\<close>

definition sender_take :: "nat \<Rightarrow> dispatch \<Rightarrow> dispatch" where
  "sender_take c ds =
     (case ds_inbound ds of
        [] \<Rightarrow> ds
      | a # q \<Rightarrow>
          upd_conn c (\<lambda>k. k\<lparr>dc_sender := WritePacket a\<rparr>)
            (ds\<lparr>ds_inbound := q, ds_taken := ds_taken ds @ [(c, payload (ds_packet ds a))]\<rparr>))"

definition sender_stop :: "nat \<Rightarrow> dispatch \<Rightarrow> dispatch" where
  "sender_stop c ds = upd_conn c (\<lambda>k. k\<lparr>dc_sender := SenderDone, dc_cancelled := True\<rparr>) ds"

definition sender_write :: "bool \<Rightarrow> nat \<Rightarrow> nat \<Rightarrow> dispatch \<Rightarrow> dispatch" where
  "sender_write written c a ds =
     upd_conn c (\<lambda>k. k\<lparr>dc_sender := PutPacket a,
       dc_sent := (if written \<and> \<not> dc_closed k then dc_sent k @ [payload (ds_packet ds a)] else dc_sent k)\<rparr>) ds"

definition sender_put :: "nat \<Rightarrow> nat \<Rightarrow> dispatch \<Rightarrow> dispatch" where
  "sender_put c a ds = upd_conn c (\<lambda>k. k\<lparr>dc_sender := TakePacket\<rparr>) (ds\<lparr>ds_pool := a # ds_pool ds\<rparr>)"

text \<open>The receiving goroutine: a record that is read goes to the active peer, if there is one; \<open>written\<close> tells whether
  the local socket takes it.\<close>

definition receiver_read :: "bytes option \<Rightarrow> bool \<Rightarrow> nat \<Rightarrow> dispatch \<Rightarrow> dispatch" where
  "receiver_read r written c ds =
     (case r of
        None \<Rightarrow> upd_conn c (\<lambda>k. k\<lparr>dc_receiving := False, dc_cancelled := True\<rparr>) ds
      | Some d \<Rightarrow>
          (case ds_activePeer ds of
             None \<Rightarrow> ds
           | Some addr \<Rightarrow> if written then ds\<lparr>ds_toLocal := ds_toLocal ds @ [(addr, d, length (ds_arrived ds))]\<rparr> else ds))"

section \<open>The streams\<close>

text \<open>The handshakes of all streams share a semaphore.\<close>

definition handshake_begin :: "nat \<Rightarrow> dispatch \<Rightarrow> dispatch" where
  "handshake_begin i ds =
     ds\<lparr>ds_stream := (ds_stream ds)(i := Handshaking), ds_handshakeSem := Suc (ds_handshakeSem ds)\<rparr>"

definition new_dtls_conn :: "nat \<Rightarrow> dtls_conn" where
  "new_dtls_conn i = \<lparr>dc_stream = i, dc_sender = TakePacket, dc_receiving = True, dc_cancelled = False,
     dc_closed = False, dc_sent = []\<rparr>"

definition handshake_end :: "bool \<Rightarrow> nat \<Rightarrow> dispatch \<Rightarrow> dispatch" where
  "handshake_end ok i ds =
     (if ok then ds\<lparr>ds_handshakeSem := ds_handshakeSem ds - 1, ds_stream := (ds_stream ds)(i := Connected (ds_nconns ds)),
                    ds_conn := (ds_conn ds)(ds_nconns ds := new_dtls_conn i), ds_nconns := Suc (ds_nconns ds)\<rparr>
      else ds\<lparr>ds_handshakeSem := ds_handshakeSem ds - 1, ds_stream := (ds_stream ds)(i := Waiting)\<rparr>)"

text \<open>\<open>wg.Wait()\<close> returns when the receiving goroutine has ended; the deferred calls close the connection.\<close>

definition stream_finish :: "nat \<Rightarrow> nat \<Rightarrow> dispatch \<Rightarrow> dispatch" where
  "stream_finish i c ds =
     upd_conn c (\<lambda>k. k\<lparr>dc_closed := True, dc_cancelled := True\<rparr>) (ds\<lparr>ds_stream := (ds_stream ds)(i := Waiting)\<rparr>)"

text \<open>\<open>Run\<close> waits for stream 0 to report its first connection before it launches the others.\<close>

definition first_connected :: "dispatch \<Rightarrow> bool" where
  "first_connected ds \<longleftrightarrow> (\<exists>c < ds_nconns ds. dc_stream (ds_conn ds c) = 0)"

definition launch_rest :: "nat \<Rightarrow> dispatch \<Rightarrow> dispatch" where
  "launch_rest numStreams ds = ds\<lparr>ds_mainWaits := False, ds_launched := max 1 numStreams\<rparr>"

inductive dispatch_step :: "nat \<Rightarrow> dispatch \<Rightarrow> dispatch \<Rightarrow> bool" for numStreams where
  get: "ds_reader ds = RdGet \<Longrightarrow> dispatch_step numStreams ds (reader_get i ds)"
| collect: "i < length (ds_pool ds) \<Longrightarrow>
    dispatch_step numStreams ds (ds\<lparr>ds_pool := take i (ds_pool ds) @ drop (Suc i) (ds_pool ds)\<rparr>)"
| read_local: "ds_reader ds = RdRead a \<Longrightarrow> dispatch_step numStreams ds (reader_read r a ds)"
| send: "ds_reader ds = RdSend a \<Longrightarrow> dispatch_step numStreams ds (reader_send a ds)"
| take_packet: "c < ds_nconns ds \<Longrightarrow> dc_sender (ds_conn ds c) = TakePacket \<Longrightarrow> dispatch_step numStreams ds (sender_take c ds)"
| stop_sender: "c < ds_nconns ds \<Longrightarrow> dc_sender (ds_conn ds c) = TakePacket \<Longrightarrow> conn_cancelled ds c \<Longrightarrow>
    dispatch_step numStreams ds (sender_stop c ds)"
| write_packet: "c < ds_nconns ds \<Longrightarrow> dc_sender (ds_conn ds c) = WritePacket a \<Longrightarrow>
    dispatch_step numStreams ds (sender_write written c a ds)"
| put_packet: "c < ds_nconns ds \<Longrightarrow> dc_sender (ds_conn ds c) = PutPacket a \<Longrightarrow> dispatch_step numStreams ds (sender_put c a ds)"
| read_dtls: "c < ds_nconns ds \<Longrightarrow> dc_receiving (ds_conn ds c) \<Longrightarrow> (\<And>d. r = Some d \<Longrightarrow> length d \<le> dtlsReadSize) \<Longrightarrow>
    dispatch_step numStreams ds (receiver_read r written c ds)"
| begin_handshake: "i < ds_launched ds \<Longrightarrow> ds_stream ds i = Waiting \<Longrightarrow> ds_handshakeSem ds < handshakeCap \<Longrightarrow>
    dispatch_step numStreams ds (handshake_begin i ds)"
| end_handshake: "ds_stream ds i = Handshaking \<Longrightarrow> dispatch_step numStreams ds (handshake_end ok i ds)"
| finish: "ds_stream ds i = Connected c \<Longrightarrow> \<not> dc_receiving (ds_conn ds c) \<Longrightarrow>
    dispatch_step numStreams ds (stream_finish i c ds)"
| stop_stream: "i < ds_launched ds \<Longrightarrow> ds_stream ds i = Waiting \<Longrightarrow> ds_ctxDone ds \<Longrightarrow>
    dispatch_step numStreams ds (ds\<lparr>ds_stream := (ds_stream ds)(i := StreamDone)\<rparr>)"
| launch: "ds_mainWaits ds \<Longrightarrow> first_connected ds \<or> ds_ctxDone ds \<Longrightarrow> dispatch_step numStreams ds (launch_rest numStreams ds)"
| cancel: "dispatch_step numStreams ds (ds\<lparr>ds_ctxDone := True\<rparr>)"

section \<open>Invariants\<close>

fun reader_holds :: "reader_pc \<Rightarrow> nat option" where
  "reader_holds (RdRead a) = Some a"
| "reader_holds (RdSend a) = Some a"
| "reader_holds pc = None"

fun sender_holds :: "sender_pc \<Rightarrow> nat option" where
  "sender_holds (WritePacket a) = Some a"
| "sender_holds (PutPacket a) = Some a"
| "sender_holds pc = None"

text \<open>Every buffer has at most one owner: the pool, the channel, the reader or one sender.\<close>

definition held_by :: "dtls_conn \<Rightarrow> nat \<Rightarrow> nat" where
  "held_by k a = of_bool (sender_holds (dc_sender k) = Some a)"

definition owners :: "dispatch \<Rightarrow> nat \<Rightarrow> nat" where
  "owners ds a =
     count_list (ds_pool ds) a + count_list (ds_inbound ds) a + of_bool (reader_holds (ds_reader ds) = Some a) +
     (\<Sum>c < ds_nconns ds. held_by (ds_conn ds c) a)"

definition own_ok :: "dispatch \<Rightarrow> bool" where
  "own_ok ds \<longleftrightarrow> (\<forall>a. owners ds a \<le> of_bool (a < ds_allocated ds))"

definition size_ok :: "dispatch \<Rightarrow> bool" where
  "size_ok ds \<longleftrightarrow> (\<forall>a. length (up_Data (ds_packet ds a)) = udpPacketSize)"

definition reader_payload :: "(nat \<Rightarrow> udp_packet) \<Rightarrow> reader_pc \<Rightarrow> bytes list" where
  "reader_payload store pc = (case pc of RdSend a \<Rightarrow> [payload (store a)] | _ \<Rightarrow> [])"

definition flow_ok :: "dispatch \<Rightarrow> bool" where
  "flow_ok ds \<longleftrightarrow>
     map (\<lambda>m. take udpPacketSize (snd m)) (ds_arrived ds) = map fst (ds_verdicts ds) @ reader_payload (ds_packet ds) (ds_reader ds) \<and>
     map fst (filter snd (ds_verdicts ds)) = map snd (ds_taken ds) @ map (\<lambda>a. payload (ds_packet ds a)) (ds_inbound ds) \<and>
     length (ds_inbound ds) \<le> inboundCap"

definition taken_by :: "nat \<Rightarrow> dispatch \<Rightarrow> bytes list" where
  "taken_by c ds = map snd (filter (\<lambda>t. fst t = c) (ds_taken ds))"

definition sent_ok :: "dispatch \<Rightarrow> bool" where
  "sent_ok ds \<longleftrightarrow>
     (\<forall>t \<in> set (ds_taken ds). fst t < ds_nconns ds) \<and>
     (\<forall>c < ds_nconns ds.
        case dc_sender (ds_conn ds c) of
          WritePacket a \<Rightarrow> \<exists>xs. taken_by c ds = xs @ [payload (ds_packet ds a)] \<and> subseq (dc_sent (ds_conn ds c)) xs
        | _ \<Rightarrow> subseq (dc_sent (ds_conn ds c)) (taken_by c ds))"

definition sender_after :: "string option \<Rightarrow> (string \<times> bytes) list \<Rightarrow> nat \<Rightarrow> string option" where
  "sender_after peer arrived k = (if k = 0 then peer else Some (fst (arrived ! (k - 1))))"

definition peer_ok :: "string option \<Rightarrow> dispatch \<Rightarrow> bool" where
  "peer_ok peer ds \<longleftrightarrow>
     ds_activePeer ds = sender_after peer (ds_arrived ds) (length (ds_arrived ds)) \<and>
     (\<forall>(addr, d, k) \<in> set (ds_toLocal ds).
        length d \<le> dtlsReadSize \<and> k \<le> length (ds_arrived ds) \<and> sender_after peer (ds_arrived ds) k = Some addr)"

definition stream_ok :: "dispatch \<Rightarrow> bool" where
  "stream_ok ds \<longleftrightarrow>
     (\<forall>i c. ds_stream ds i = Connected c \<longrightarrow> c < ds_nconns ds \<and> dc_stream (ds_conn ds c) = i \<and> \<not> dc_closed (ds_conn ds c)) \<and>
     (\<forall>c < ds_nconns ds. \<not> dc_closed (ds_conn ds c) \<longrightarrow> ds_stream ds (dc_stream (ds_conn ds c)) = Connected c) \<and>
     (\<forall>c < ds_nconns ds. dc_receiving (ds_conn ds c) \<longrightarrow> \<not> dc_closed (ds_conn ds c)) \<and>
     (\<forall>i. ds_launched ds \<le> i \<longrightarrow> ds_stream ds i = Waiting) \<and>
     (\<forall>c < ds_nconns ds. dc_stream (ds_conn ds c) < ds_launched ds)"

definition limits_ok :: "dispatch \<Rightarrow> bool" where
  "limits_ok ds \<longleftrightarrow>
     ds_handshakeSem ds = card {i. ds_stream ds i = Handshaking} \<and> finite {i. ds_stream ds i = Handshaking} \<and>
     ds_handshakeSem ds \<le> handshakeCap \<and>
     1 \<le> ds_launched ds \<and> (ds_mainWaits ds \<longrightarrow> ds_launched ds = 1) \<and>
     (\<not> ds_mainWaits ds \<longrightarrow> ds_ctxDone ds \<or> first_connected ds)"

definition dispatch_ok :: "string option \<Rightarrow> dispatch \<Rightarrow> bool" where
  "dispatch_ok peer ds \<longleftrightarrow>
     own_ok ds \<and> size_ok ds \<and> flow_ok ds \<and> sent_ok ds \<and> peer_ok peer ds \<and> stream_ok ds \<and> limits_ok ds"

lemma count_le_1: "distinct xs \<Longrightarrow> count_list xs a = of_bool (a \<in> set xs)"
  by (induction xs) auto

lemma dispatch_start_ok: "dispatch_start peer ds \<Longrightarrow> dispatch_ok peer ds"
  by (auto simp: dispatch_start_def dispatch_ok_def own_ok_def owners_def count_le_1 size_ok_def flow_ok_def
      reader_payload_def sent_ok_def peer_ok_def sender_after_def stream_ok_def limits_ok_def handshakeCap_def inboundCap_def)

lemmas dispatch_ops = reader_get_def reader_read_def reader_send_def upd_conn_def sender_take_def sender_stop_def
  sender_write_def sender_put_def receiver_read_def handshake_begin_def handshake_end_def stream_finish_def launch_rest_def

section \<open>Ownership of the buffers\<close>

lemma count_remove_nth:
  assumes "i < length xs"
  shows "count_list (take i xs @ drop (Suc i) xs) a + of_bool (xs ! i = a) = count_list xs a"
  using arg_cong [OF id_take_nth_drop [OF assms], of "\<lambda>l. count_list l a"] by simp

lemma owners_upd:
  assumes "c < ds_nconns ds"
  shows "owners (upd_conn c f ds) a + held_by (ds_conn ds c) a = owners ds a + held_by (f (ds_conn ds c)) a"
proof -
  have "(\<Sum>d < ds_nconns ds. held_by (g d) a) = held_by (g c) a + (\<Sum>d \<in> {..< ds_nconns ds} - {c}. held_by (g d) a)" for g
    using assms by (simp add: sum.remove)
  moreover have "(\<Sum>d \<in> {..< ds_nconns ds} - {c}. held_by (((ds_conn ds)(c := k)) d) a) =
      (\<Sum>d \<in> {..< ds_nconns ds} - {c}. held_by (ds_conn ds d) a)" for k
    by (intro sum.cong) auto
  ultimately show ?thesis by (simp add: owners_def upd_conn_def del: fun_upd_apply) simp
qed

lemma owners_get: "ds_reader ds = RdGet \<Longrightarrow>
    owners (reader_get i ds) a = owners ds a + of_bool (length (ds_pool ds) \<le> i \<and> a = ds_allocated ds)"
  using count_remove_nth [of i "ds_pool ds" a] by (auto simp: owners_def reader_get_def)

lemma owners_read: "ds_reader ds = RdRead b \<Longrightarrow> owners (reader_read r b ds) a \<le> owners ds a"
  by (simp add: owners_def reader_read_def Let_def split: option.split)

lemma owners_send: "ds_reader ds = RdSend b \<Longrightarrow> owners (reader_send b ds) a = owners ds a"
  by (simp add: owners_def reader_send_def Let_def try_send_def)

lemma owners_sender:
  assumes "c < ds_nconns ds"
  shows "dc_sender (ds_conn ds c) = TakePacket \<Longrightarrow> owners (sender_take c ds) a = owners ds a"
    and "dc_sender (ds_conn ds c) = TakePacket \<Longrightarrow> owners (sender_stop c ds) a = owners ds a"
    and "dc_sender (ds_conn ds c) = WritePacket b \<Longrightarrow> owners (sender_write w c b ds) a = owners ds a"
    and "dc_sender (ds_conn ds c) = PutPacket b \<Longrightarrow> owners (sender_put c b ds) a = owners ds a"
proof -
  show "owners (sender_take c ds) a = owners ds a" if pc: "dc_sender (ds_conn ds c) = TakePacket"
  proof (cases "ds_inbound ds")
    case (Cons x q)
    define ds1 where "ds1 = ds\<lparr>ds_inbound := q, ds_taken := ds_taken ds @ [(c, payload (ds_packet ds x))]\<rparr>"
    have "owners ds1 a + of_bool (x = a) = owners ds a" by (simp add: owners_def ds1_def Cons)
    then show ?thesis
      using owners_upd [of c ds1 "\<lambda>k. k\<lparr>dc_sender := WritePacket x\<rparr>" a] assms pc Cons
      by (simp add: sender_take_def ds1_def held_by_def del: of_bool_eq_iff)
  qed (simp add: sender_take_def)
  show "owners (sender_put c b ds) a = owners ds a" if pc: "dc_sender (ds_conn ds c) = PutPacket b"
  proof -
    define ds1 where "ds1 = ds\<lparr>ds_pool := b # ds_pool ds\<rparr>"
    have "owners ds1 a = owners ds a + of_bool (b = a)" by (simp add: owners_def ds1_def)
    then show ?thesis
      using owners_upd [of c ds1 "\<lambda>k. k\<lparr>dc_sender := TakePacket\<rparr>" a] assms pc
      by (simp add: sender_put_def ds1_def held_by_def split: if_splits)
  qed
  show "owners (sender_stop c ds) a = owners ds a" if "dc_sender (ds_conn ds c) = TakePacket"
    using owners_upd [OF assms, of "\<lambda>k. k\<lparr>dc_sender := SenderDone, dc_cancelled := True\<rparr>" a] that
    by (simp add: sender_stop_def held_by_def)
  show "owners (sender_write w c b ds) a = owners ds a" if "dc_sender (ds_conn ds c) = WritePacket b"
    using owners_upd [OF assms, of "\<lambda>k. k\<lparr>dc_sender := PutPacket b,
        dc_sent := (if w \<and> \<not> dc_closed k then dc_sent k @ [payload (ds_packet ds b)] else dc_sent k)\<rparr>" a] that
    by (simp add: sender_write_def held_by_def)
qed

lemma owners_streams:
  "owners (ds\<lparr>ds_stream := st\<rparr>) a = owners ds a" "owners (ds\<lparr>ds_ctxDone := b\<rparr>) a = owners ds a"
  "owners (launch_rest n ds) a = owners ds a" "owners (handshake_begin i ds) a = owners ds a"
  "owners (handshake_end ok i ds) a = owners ds a"
  "c < ds_nconns ds \<Longrightarrow> owners (stream_finish i c ds) a = owners ds a"
  "c < ds_nconns ds \<Longrightarrow> owners (receiver_read r w c ds) a = owners ds a"
proof -
  have frame: "owners (ds\<lparr>ds_stream := st\<rparr>) a = owners ds a" for ds st by (simp add: owners_def)
  show "owners (stream_finish i c ds) a = owners ds a" if "c < ds_nconns ds"
    using owners_upd [of c "ds\<lparr>ds_stream := (ds_stream ds)(i := Waiting)\<rparr>" "\<lambda>k. k\<lparr>dc_closed := True, dc_cancelled := True\<rparr>" a] that
    by (simp add: stream_finish_def held_by_def frame)
  show "owners (receiver_read r w c ds) a = owners ds a" if "c < ds_nconns ds"
    using owners_upd [OF that, of "\<lambda>k. k\<lparr>dc_receiving := False, dc_cancelled := True\<rparr>" a]
    by (auto simp: receiver_read_def held_by_def owners_def split: option.split)
  have new: "held_by (new_dtls_conn i) a = 0" by (simp add: held_by_def new_dtls_conn_def)
  have "(\<Sum>c < ds_nconns ds. held_by (((ds_conn ds)(ds_nconns ds := k)) c) a) = (\<Sum>c < ds_nconns ds. held_by (ds_conn ds c) a)" for k
    by (intro sum.cong) auto
  then show "owners (handshake_end ok i ds) a = owners ds a"
    by (simp add: owners_def handshake_end_def Let_def new del: fun_upd_apply) (simp add: new)
qed (simp_all add: owners_def launch_rest_def handshake_begin_def)

text \<open>Only a new buffer changes the number of owners, to one.\<close>

lemma owners_step:
  assumes "dispatch_step n ds ds'" and "stream_ok ds"
  shows "owners ds' a \<le> owners ds a + of_bool (ds_allocated ds' = Suc (ds_allocated ds) \<and> a = ds_allocated ds) \<and>
    (ds_allocated ds' = ds_allocated ds \<or> ds_allocated ds' = Suc (ds_allocated ds))"
  using assms
proof (induction rule: dispatch_step.induct)
  case (get ds i)
  then show ?case using owners_get [of ds i a] by (auto simp: reader_get_def)
next
  case (collect i ds)
  then show ?case using count_remove_nth [of i "ds_pool ds" a] by (simp add: owners_def)
next
  case (read_local ds b r)
  then show ?case using owners_read [of ds b r a] by (simp add: reader_read_def Let_def split: option.split)
next
  case (send ds b)
  then show ?case using owners_send [of ds b a] by (simp add: reader_send_def Let_def split: option.split)
next
  case (take_packet c ds)
  then show ?case using owners_sender(1) [of c ds a] by (simp add: sender_take_def upd_conn_def split: list.split)
next
  case (finish ds i c)
  then show ?case using owners_streams(6) [of c ds i a] by (simp add: stream_ok_def stream_finish_def upd_conn_def)
next
  case (read_dtls c ds r w)
  then show ?case using owners_streams(7) [of c ds r w a] by (simp add: receiver_read_def upd_conn_def split: option.split)
qed (simp_all add: owners_sender owners_streams,
     simp_all add: sender_stop_def sender_write_def sender_put_def upd_conn_def launch_rest_def handshake_begin_def
       handshake_end_def Let_def)

lemma own_step:
  assumes "dispatch_step n ds ds'" and "own_ok ds" and "stream_ok ds"
  shows "own_ok ds'"
  unfolding own_ok_def
proof
  fix a
  have "owners ds a \<le> of_bool (a < ds_allocated ds)" using assms(2) by (simp add: own_ok_def)
  then show "owners ds' a \<le> of_bool (a < ds_allocated ds')"
    using owners_step [OF assms(1,3), of a] by (cases "a = ds_allocated ds") (auto simp: less_Suc_eq split: if_splits)
qed

section \<open>The other invariants\<close>

lemma own_held:
  assumes "own_ok ds" and "c < ds_nconns ds" and "sender_holds (dc_sender (ds_conn ds c)) = Some a"
  shows "a \<notin> set (ds_inbound ds)" and "reader_holds (ds_reader ds) \<noteq> Some a" and "a < ds_allocated ds"
proof -
  have "held_by (ds_conn ds c) a \<le> (\<Sum>d < ds_nconns ds. held_by (ds_conn ds d) a)"
    using assms(2) by (intro member_le_sum) auto
  then have "1 \<le> (\<Sum>d < ds_nconns ds. held_by (ds_conn ds d) a)" using assms(3) by (simp add: held_by_def)
  moreover have "owners ds a \<le> of_bool (a < ds_allocated ds)" using assms(1) by (simp add: own_ok_def)
  ultimately have "a < ds_allocated ds \<and> count_list (ds_inbound ds) a = 0 \<and> reader_holds (ds_reader ds) \<noteq> Some a"
    unfolding owners_def by (cases "a < ds_allocated ds"; cases "reader_holds (ds_reader ds) = Some a") auto
  then show "a \<notin> set (ds_inbound ds)" "reader_holds (ds_reader ds) \<noteq> Some a" "a < ds_allocated ds"
    by (simp_all add: count_list_0_iff)
qed

lemma own_inbound:
  assumes "own_ok ds" and "a \<in> set (ds_inbound ds)"
  shows "a < ds_allocated ds" and "reader_holds (ds_reader ds) \<noteq> Some a"
proof -
  have "owners ds a \<le> of_bool (a < ds_allocated ds)" using assms(1) by (simp add: own_ok_def)
  moreover have "count_list (ds_inbound ds) a \<noteq> 0" using assms(2) by (simp add: count_list_0_iff)
  ultimately have "a < ds_allocated ds \<and> reader_holds (ds_reader ds) \<noteq> Some a"
    unfolding owners_def by (cases "a < ds_allocated ds"; cases "reader_holds (ds_reader ds) = Some a") auto
  then show "a < ds_allocated ds" "reader_holds (ds_reader ds) \<noteq> Some a" by simp_all
qed

lemma size_step: "dispatch_step n ds ds' \<Longrightarrow> size_ok ds \<Longrightarrow> size_ok ds'"
  by (induction rule: dispatch_step.induct)
    (auto simp: size_ok_def dispatch_ops new_udp_packet_def Let_def split: option.split list.split)

lemma sender_after_snoc: "k \<le> length ms \<Longrightarrow> sender_after peer (ms @ [m]) k = sender_after peer ms k"
  by (auto simp: sender_after_def nth_append)

lemma store_peer_eq [simp]: "store_peer addr current = Some addr"
  by (simp add: store_peer_def split: option.split)

lemma peer_step: "dispatch_step n ds ds' \<Longrightarrow> peer_ok peer ds \<Longrightarrow> peer_ok peer ds'"
proof (induction rule: dispatch_step.induct)
  case (read_local ds a r)
  show ?case
  proof (cases r)
    case None
    then show ?thesis using read_local by (simp add: peer_ok_def reader_read_def)
  next
    case (Some m)
    obtain d addr where m: "m = (d, addr)" by (cases m)
    have "sender_after peer (ds_arrived ds @ [(addr, d)]) (Suc (length (ds_arrived ds))) = Some addr"
      by (simp add: sender_after_def)
    then show ?thesis using read_local Some m
      by (auto simp: peer_ok_def reader_read_def Let_def sender_after_snoc)
  qed
next
  case (read_dtls c ds r w)
  then show ?case by (auto simp: peer_ok_def receiver_read_def upd_conn_def split: option.split)
qed (simp_all add: peer_ok_def dispatch_ops Let_def split: option.split list.split)

lemma stream_cong:
  assumes "stream_ok ds" and "ds_stream ds' = ds_stream ds" and "ds_nconns ds' = ds_nconns ds" and "ds_launched ds' = ds_launched ds"
    and "\<And>c. dc_stream (ds_conn ds' c) = dc_stream (ds_conn ds c) \<and> dc_closed (ds_conn ds' c) = dc_closed (ds_conn ds c) \<and>
      (dc_receiving (ds_conn ds' c) \<longrightarrow> dc_receiving (ds_conn ds c))"
  shows "stream_ok ds'"
  using assms by (simp add: stream_ok_def)

lemma stream_launch: "stream_ok ds \<Longrightarrow> limits_ok ds \<Longrightarrow> ds_mainWaits ds \<Longrightarrow> stream_ok (launch_rest n ds)"
  by (auto simp: stream_ok_def limits_ok_def launch_rest_def)

lemma stream_launched: "stream_ok ds \<Longrightarrow> ds_stream ds i \<noteq> Waiting \<Longrightarrow> i < ds_launched ds"
  by (rule ccontr) (simp add: stream_ok_def)

lemma stream_open:
  "stream_ok ds \<Longrightarrow> c < ds_nconns ds \<Longrightarrow> \<not> dc_closed (ds_conn ds c) \<Longrightarrow> ds_stream ds (dc_stream (ds_conn ds c)) = Connected c"
  by (simp add: stream_ok_def)

lemma stream_idle:
  assumes "stream_ok ds" and "i < ds_launched ds" and "\<And>c. ds_stream ds i \<noteq> Connected c" and "\<And>c. pc \<noteq> Connected c"
  shows "stream_ok (ds\<lparr>ds_stream := (ds_stream ds)(i := pc), ds_handshakeSem := m\<rparr>)"
proof -
  have "dc_stream (ds_conn ds c) \<noteq> i" if "c < ds_nconns ds" "\<not> dc_closed (ds_conn ds c)" for c
    using stream_open [OF assms(1) that] assms(3) by auto
  then show ?thesis using assms by (simp add: stream_ok_def)
qed

lemma stream_end_ok:
  assumes "stream_ok ds" and "ds_stream ds i = Handshaking"
  shows "stream_ok (handshake_end ok i ds)"
proof (cases ok)
  case True
  have l: "i < ds_launched ds" using stream_launched [OF assms(1)] assms(2) by simp
  have "dc_stream (ds_conn ds c) \<noteq> i" if "c < ds_nconns ds" "\<not> dc_closed (ds_conn ds c)" for c
    using stream_open [OF assms(1) that] assms(2) by auto
  then show ?thesis using assms l True unfolding handshake_end_def
    by (simp add: stream_ok_def new_dtls_conn_def all_conj_distrib less_Suc_eq) blast
next
  case False
  have l: "i < ds_launched ds" using stream_launched [OF assms(1)] assms(2) by simp
  show ?thesis using False assms(2) l
    by (intro stream_cong [OF stream_idle [OF assms(1) l, of Waiting 0]]) (simp_all add: handshake_end_def)
qed

lemma stream_finish_ok:
  assumes "stream_ok ds" and "ds_stream ds i = Connected c" and "\<not> dc_receiving (ds_conn ds c)"
  shows "stream_ok (stream_finish i c ds)"
proof -
  let ?ds = "stream_finish i c ds"
  have c: "c < ds_nconns ds" "dc_stream (ds_conn ds c) = i" using assms by (auto simp: stream_ok_def)
  have other: "dc_stream (ds_conn ds d) \<noteq> i" if "d < ds_nconns ds" "\<not> dc_closed (ds_conn ds d)" "d \<noteq> c" for d
    using stream_open [OF assms(1) that(1,2)] assms(2) that(3) by auto
  have conn: "ds_conn ?ds d = (if d = c then (ds_conn ds c)\<lparr>dc_closed := True, dc_cancelled := True\<rparr> else ds_conn ds d)"
      "ds_stream ?ds = (ds_stream ds)(i := Waiting)" "ds_nconns ?ds = ds_nconns ds" "ds_launched ?ds = ds_launched ds" for d
    by (simp_all add: stream_finish_def upd_conn_def)
  have "c' < ds_nconns ds \<and> dc_stream (ds_conn ds c') = j \<and> \<not> dc_closed (ds_conn ds c') \<and> c' \<noteq> c"
    if "ds_stream ds j = Connected c'" "j \<noteq> i" for j c'
    using assms(1) that c by (auto simp: stream_ok_def)
  moreover note assms other c
  ultimately show ?thesis unfolding stream_ok_def conn by (simp add: all_conj_distrib) blast
qed

lemma stream_step: "dispatch_step n ds ds' \<Longrightarrow> limits_ok ds \<Longrightarrow> stream_ok ds \<Longrightarrow> stream_ok ds'"
proof (induction rule: dispatch_step.induct)
  case (begin_handshake i ds)
  then show ?case unfolding handshake_begin_def by (intro stream_idle) simp_all
next
  case (stop_stream i ds)
  then show ?case using stream_idle [of ds i StreamDone "ds_handshakeSem ds"] by simp
qed (simp_all add: stream_launch stream_end_ok stream_finish_ok,
     (erule stream_cong; simp add: dispatch_ops Let_def split: option.split list.split)+)

lemma handshaking_upd:
  "finite {i. st i = Handshaking} \<Longrightarrow> st i = Handshaking \<Longrightarrow> pc \<noteq> Handshaking \<Longrightarrow>
     card {j. (st(i := pc)) j = Handshaking} = card {j. st j = Handshaking} - 1 \<and> finite {j. (st(i := pc)) j = Handshaking}"
  "finite {i. st i = Handshaking} \<Longrightarrow> st i \<noteq> Handshaking \<Longrightarrow>
     card {j. (st(i := Handshaking)) j = Handshaking} = Suc (card {j. st j = Handshaking}) \<and>
     finite {j. (st(i := Handshaking)) j = Handshaking}"
  "st i \<noteq> Handshaking \<Longrightarrow> pc \<noteq> Handshaking \<Longrightarrow> {j. (st(i := pc)) j = Handshaking} = {j. st j = Handshaking}"
proof -
  show "card {j. (st(i := pc)) j = Handshaking} = card {j. st j = Handshaking} - 1 \<and> finite {j. (st(i := pc)) j = Handshaking}"
    if "finite {i. st i = Handshaking}" "st i = Handshaking" "pc \<noteq> Handshaking"
  proof -
    have "{j. (st(i := pc)) j = Handshaking} = {j. st j = Handshaking} - {i}" using that by auto
    then show ?thesis using that by simp
  qed
  show "card {j. (st(i := Handshaking)) j = Handshaking} = Suc (card {j. st j = Handshaking}) \<and>
      finite {j. (st(i := Handshaking)) j = Handshaking}"
    if "finite {i. st i = Handshaking}" "st i \<noteq> Handshaking"
  proof -
    have "{j. (st(i := Handshaking)) j = Handshaking} = insert i {j. st j = Handshaking}" by auto
    then show ?thesis using that by simp
  qed
qed auto

lemma limits_cong:
  assumes "limits_ok ds" and "\<And>j. ds_stream ds' j = Handshaking \<longleftrightarrow> ds_stream ds j = Handshaking"
    and "ds_handshakeSem ds' = ds_handshakeSem ds" and "ds_launched ds' = ds_launched ds"
    and "ds_mainWaits ds' = ds_mainWaits ds" and "ds_ctxDone ds \<longrightarrow> ds_ctxDone ds'"
    and "first_connected ds \<longrightarrow> first_connected ds'"
  shows "limits_ok ds'"
  using assms by (auto simp: limits_ok_def)

lemma limits_step: "dispatch_step n ds ds' \<Longrightarrow> limits_ok ds \<Longrightarrow> limits_ok ds'"
proof (induction rule: dispatch_step.induct)
  case (begin_handshake i ds)
  then show ?case using handshaking_upd(2) [of "ds_stream ds" i]
    by (simp add: limits_ok_def handshake_begin_def first_connected_def del: fun_upd_apply)
next
  case (end_handshake ds i ok)
  have first: "first_connected ds \<Longrightarrow> first_connected (handshake_end ok i ds)"
  proof -
    assume "first_connected ds"
    then obtain c where "c < ds_nconns ds" "dc_stream (ds_conn ds c) = 0" by (auto simp: first_connected_def)
    then show "first_connected (handshake_end ok i ds)"
      unfolding first_connected_def by (intro exI [of _ c]) (simp add: handshake_end_def Let_def)
  qed
  show ?case using end_handshake handshaking_upd(1) [of "ds_stream ds" i] first
    by (auto simp: limits_ok_def handshake_end_def Let_def simp del: fun_upd_apply)
next
  case (launch ds)
  then show ?case by (auto simp: limits_ok_def launch_rest_def first_connected_def)
qed (erule limits_cong; force simp: dispatch_ops first_connected_def Let_def split: option.split list.split)+


section \<open>The flow of the packets\<close>

lemma flow_cong:
  assumes "flow_ok ds" and "ds_arrived ds' = ds_arrived ds" and "ds_verdicts ds' = ds_verdicts ds"
    and "ds_taken ds' = ds_taken ds" and "ds_inbound ds' = ds_inbound ds"
    and "\<And>a. a \<in> set (ds_inbound ds) \<Longrightarrow> payload (ds_packet ds' a) = payload (ds_packet ds a)"
    and "reader_payload (ds_packet ds') (ds_reader ds') = reader_payload (ds_packet ds) (ds_reader ds)"
  shows "flow_ok ds'"
  using assms by (simp add: flow_ok_def)

lemma flow_get: "flow_ok ds \<Longrightarrow> own_ok ds \<Longrightarrow> ds_reader ds = RdGet \<Longrightarrow> flow_ok (reader_get i ds)"
  by (erule flow_cong) (auto simp: reader_get_def reader_payload_def dest: own_inbound)

lemma take_min_length [simp]: "take (min (length d) n) d = take n d"
  by (simp add: min_def)

lemma flow_read:
  assumes "flow_ok ds" and "own_ok ds" and "size_ok ds" and "ds_reader ds = RdRead a"
  shows "flow_ok (reader_read r a ds)"
proof (cases r)
  case None
  then show ?thesis using assms by (auto intro!: flow_cong [OF assms(1)] simp: reader_read_def reader_payload_def)
next
  case (Some m)
  obtain d addr where m: "m = (d, addr)" by (cases m)
  have "a \<notin> set (ds_inbound ds)" using own_inbound(2) [OF assms(2), of a] assms(4) by auto
  then show ?thesis using assms Some m
    by (auto simp: flow_ok_def reader_read_def reader_payload_def Let_def size_ok_def payload_def)
qed

lemma flow_send: "flow_ok ds \<Longrightarrow> ds_reader ds = RdSend a \<Longrightarrow> flow_ok (reader_send a ds)"
  by (auto simp: flow_ok_def reader_send_def reader_payload_def Let_def try_send_def inboundCap_def)

lemma flow_take: "flow_ok ds \<Longrightarrow> flow_ok (sender_take c ds)"
  by (cases "ds_inbound ds") (auto simp: flow_ok_def sender_take_def upd_conn_def)

lemma flow_step: "dispatch_step n ds ds' \<Longrightarrow> own_ok ds \<Longrightarrow> size_ok ds \<Longrightarrow> flow_ok ds \<Longrightarrow> flow_ok ds'"
  by (induction rule: dispatch_step.induct)
    (simp_all add: flow_get flow_read flow_send flow_take,
     (erule flow_cong; simp add: dispatch_ops Let_def split: option.split)+)

definition conn_sent_ok :: "dispatch \<Rightarrow> nat \<Rightarrow> bool" where
  "conn_sent_ok ds c \<longleftrightarrow>
     (case dc_sender (ds_conn ds c) of
        WritePacket a \<Rightarrow> \<exists>xs. taken_by c ds = xs @ [payload (ds_packet ds a)] \<and> subseq (dc_sent (ds_conn ds c)) xs
      | _ \<Rightarrow> subseq (dc_sent (ds_conn ds c)) (taken_by c ds))"

lemma sent_ok_alt: "sent_ok ds \<longleftrightarrow> (\<forall>t \<in> set (ds_taken ds). fst t < ds_nconns ds) \<and> (\<forall>c < ds_nconns ds. conn_sent_ok ds c)"
  by (simp add: sent_ok_def conn_sent_ok_def)

lemma conn_sent_cong:
  assumes "conn_sent_ok ds c" and "taken_by c ds' = taken_by c ds" and "dc_sender (ds_conn ds' c) = dc_sender (ds_conn ds c)"
    and "dc_sent (ds_conn ds' c) = dc_sent (ds_conn ds c)"
    and "\<And>a. sender_holds (dc_sender (ds_conn ds c)) = Some a \<Longrightarrow> payload (ds_packet ds' a) = payload (ds_packet ds a)"
  shows "conn_sent_ok ds' c"
  using assms by (cases "dc_sender (ds_conn ds c)") (auto simp: conn_sent_ok_def)

lemma sent_cong:
  assumes "sent_ok ds" and "ds_taken ds' = ds_taken ds" and "ds_nconns ds' = ds_nconns ds"
    and "\<And>c. c < ds_nconns ds \<Longrightarrow> dc_sender (ds_conn ds' c) = dc_sender (ds_conn ds c) \<and> dc_sent (ds_conn ds' c) = dc_sent (ds_conn ds c)"
    and "\<And>c a. c < ds_nconns ds \<Longrightarrow> sender_holds (dc_sender (ds_conn ds c)) = Some a \<Longrightarrow> payload (ds_packet ds' a) = payload (ds_packet ds a)"
  shows "sent_ok ds'"
  using assms unfolding sent_ok_alt by (auto intro!: conn_sent_cong [of ds _ ds'] simp: taken_by_def)

lemma sent_get: "sent_ok ds \<Longrightarrow> own_ok ds \<Longrightarrow> sent_ok (reader_get i ds)"
  by (erule sent_cong) (auto simp: reader_get_def dest: own_held(3))

lemma sent_read: "sent_ok ds \<Longrightarrow> own_ok ds \<Longrightarrow> ds_reader ds = RdRead a \<Longrightarrow> sent_ok (reader_read r a ds)"
  by (erule sent_cong) (auto simp: reader_read_def Let_def dest: own_held(2) split: option.split)

lemma sent_at:
  assumes "sent_ok ds" and "ds_nconns ds' = ds_nconns ds" and "\<forall>t \<in> set (ds_taken ds'). fst t < ds_nconns ds" and "conn_sent_ok ds' c"
    and "\<forall>d. d \<noteq> c \<longrightarrow> ds_conn ds' d = ds_conn ds d \<and> taken_by d ds' = taken_by d ds" and "ds_packet ds' = ds_packet ds"
  shows "sent_ok ds'"
  unfolding sent_ok_alt
proof (intro conjI allI impI)
  fix d assume d: "d < ds_nconns ds'"
  show "conn_sent_ok ds' d"
  proof (cases "d = c")
    case False
    then have "ds_conn ds' d = ds_conn ds d" "taken_by d ds' = taken_by d ds" using assms(5) by auto
    then show ?thesis using assms(1,2,6) d by (intro conn_sent_cong [of ds d ds']) (auto simp: sent_ok_alt)
  qed (use assms(4) in simp)
qed (use assms in simp)

lemma sent_conn: "sent_ok ds \<Longrightarrow> c < ds_nconns ds \<Longrightarrow> conn_sent_ok ds c"
  "sent_ok ds \<Longrightarrow> \<forall>t \<in> set (ds_taken ds). fst t < ds_nconns ds"
  by (simp_all add: sent_ok_alt)

lemma sent_take: "sent_ok ds \<Longrightarrow> c < ds_nconns ds \<Longrightarrow> dc_sender (ds_conn ds c) = TakePacket \<Longrightarrow> sent_ok (sender_take c ds)"
  using sent_conn(1) [of ds c] sent_conn(2) [of ds]
  by (cases "ds_inbound ds")
    (simp, simp add: sender_take_def, rule sent_at [of ds _ c],
     simp_all add: sender_take_def upd_conn_def conn_sent_ok_def taken_by_def)

lemma sent_stop: "sent_ok ds \<Longrightarrow> c < ds_nconns ds \<Longrightarrow> dc_sender (ds_conn ds c) = TakePacket \<Longrightarrow> sent_ok (sender_stop c ds)"
  using sent_conn(1) [of ds c] sent_conn(2) [of ds]
  apply -
  by (rule sent_at [of ds _ c]) (simp_all add: sender_stop_def upd_conn_def conn_sent_ok_def taken_by_def)

lemma sent_put: "sent_ok ds \<Longrightarrow> c < ds_nconns ds \<Longrightarrow> dc_sender (ds_conn ds c) = PutPacket a \<Longrightarrow> sent_ok (sender_put c a ds)"
  using sent_conn(1) [of ds c] sent_conn(2) [of ds]
  apply -
  by (rule sent_at [of ds _ c]) (simp_all add: sender_put_def upd_conn_def conn_sent_ok_def taken_by_def)

lemma sent_write: "sent_ok ds \<Longrightarrow> c < ds_nconns ds \<Longrightarrow> dc_sender (ds_conn ds c) = WritePacket a \<Longrightarrow> sent_ok (sender_write w c a ds)"
proof -
  assume s: "sent_ok ds" "c < ds_nconns ds" and pc: "dc_sender (ds_conn ds c) = WritePacket a"
  obtain xs where xs: "taken_by c ds = xs @ [payload (ds_packet ds a)]" "subseq (dc_sent (ds_conn ds c)) xs"
    using sent_conn(1) [OF s] pc by (auto simp: conn_sent_ok_def)
  have taken: "taken_by d (sender_write w c a ds) = taken_by d ds" for d
    by (simp add: taken_by_def sender_write_def upd_conn_def)
  have "conn_sent_ok (sender_write w c a ds) c"
    using xs unfolding conn_sent_ok_def taken by (simp add: sender_write_def upd_conn_def) (blast intro: subseq_order.trans)
  then show ?thesis using s sent_conn(2) [OF s(1)]
    by (intro sent_at [OF s(1), of _ c]) (simp_all add: taken, simp_all add: sender_write_def upd_conn_def)
qed

lemma sent_end:
  assumes "sent_ok ds"
  shows "sent_ok (handshake_end ok i ds)"
proof (cases ok)
  case True
  let ?ds = "handshake_end ok i ds"
  have taken: "taken_by c ?ds = taken_by c ds" for c by (simp add: taken_by_def handshake_end_def)
  have new: "conn_sent_ok ?ds (ds_nconns ds)" using True by (simp add: conn_sent_ok_def handshake_end_def new_dtls_conn_def)
  have "conn_sent_ok ?ds c" if "c < ds_nconns ds" for c
    using assms that True by (intro conn_sent_cong [of ds c ?ds] taken) (simp_all add: sent_ok_alt handshake_end_def)
  then show ?thesis using assms new True by (auto simp: sent_ok_alt handshake_end_def less_Suc_eq)
next
  case False
  then show ?thesis using assms by (intro sent_cong [OF assms]) (simp_all add: handshake_end_def)
qed

lemma sent_step: "dispatch_step n ds ds' \<Longrightarrow> own_ok ds \<Longrightarrow> sent_ok ds \<Longrightarrow> sent_ok ds'"
  by (induction rule: dispatch_step.induct)
    (simp_all add: sent_get sent_read sent_take sent_stop sent_write sent_put sent_end,
     (erule sent_cong; simp add: dispatch_ops Let_def split: option.split)+)

lemma dispatch_step_ok: "dispatch_step n ds ds' \<Longrightarrow> dispatch_ok peer ds \<Longrightarrow> dispatch_ok peer ds'"
  using own_step [of n ds ds'] size_step [of n ds ds'] flow_step [of n ds ds'] sent_step [of n ds ds']
    peer_step [of n ds ds' peer] stream_step [of n ds ds'] limits_step [of n ds ds']
  unfolding dispatch_ok_def by blast

interpretation dispatcher: invariant_system "dispatch_start peer" "dispatch_step n" "dispatch_ok peer" for peer n
  by unfold_locales (use dispatch_start_ok dispatch_step_ok in blast)+


section \<open>After the context is cancelled\<close>

lemma stream_can_stop:
  assumes "dispatch_ok peer ds" and "ds_ctxDone ds" and "i < ds_launched ds"
  shows "\<exists>ds'. rtranclp (dispatch_step n) ds ds' \<and> ds_stream ds' = (ds_stream ds)(i := StreamDone) \<and> ds_ctxDone ds' \<and>
    ds_launched ds' = ds_launched ds \<and> ds_mainWaits ds' = ds_mainWaits ds"
proof -
  have idle: "\<exists>ds'. rtranclp (dispatch_step n) k ds' \<and> ds_stream ds' = (ds_stream ds)(i := StreamDone) \<and> ds_ctxDone ds' \<and>
      ds_launched ds' = ds_launched ds \<and> ds_mainWaits ds' = ds_mainWaits ds"
    if "ds_stream k = (ds_stream ds)(i := Waiting)" "ds_ctxDone k" "ds_launched k = ds_launched ds" "ds_mainWaits k = ds_mainWaits ds" for k
    using dispatch_step.stop_stream [of i k n] that assms(3)
    by (intro exI [of _ "k\<lparr>ds_stream := (ds_stream k)(i := StreamDone)\<rparr>"]) (simp add: r_into_rtranclp)
  have closing: "\<exists>ds'. rtranclp (dispatch_step n) k ds' \<and> ds_stream ds' = (ds_stream ds)(i := StreamDone) \<and> ds_ctxDone ds' \<and>
      ds_launched ds' = ds_launched ds \<and> ds_mainWaits ds' = ds_mainWaits ds"
    if k: "ds_stream k = ds_stream ds" "ds_ctxDone k" "ds_launched k = ds_launched ds" "ds_mainWaits k = ds_mainWaits ds"
      "ds_stream k i = Connected c" "\<not> dc_receiving (ds_conn k c)" for k c
  proof -
    have step: "dispatch_step n k (stream_finish i c k)" by (rule dispatch_step.finish [OF k(5,6)])
    obtain ds' where "rtranclp (dispatch_step n) (stream_finish i c k) ds'" "ds_stream ds' = (ds_stream ds)(i := StreamDone) \<and> ds_ctxDone ds' \<and>
        ds_launched ds' = ds_launched ds \<and> ds_mainWaits ds' = ds_mainWaits ds"
      using idle [of "stream_finish i c k"] k by (auto simp: stream_finish_def upd_conn_def)
    then show ?thesis using step by (meson converse_rtranclp_into_rtranclp)
  qed
  show ?thesis
  proof (cases "ds_stream ds i")
    case Waiting
    then show ?thesis using idle [of ds] assms by (simp add: fun_upd_idem)
  next
    case Handshaking
    have "dispatch_step n ds (handshake_end False i ds)" by (rule dispatch_step.end_handshake [OF Handshaking])
    then show ?thesis using idle [of "handshake_end False i ds"] assms
      by (auto simp: handshake_end_def intro: converse_rtranclp_into_rtranclp)
  next
    case (Connected c)
    show ?thesis
    proof (cases "dc_receiving (ds_conn ds c)")
      case True
      have "c < ds_nconns ds" using assms(1) Connected by (auto simp: dispatch_ok_def stream_ok_def)
      then have "dispatch_step n ds (receiver_read None False c ds)" using True by (intro dispatch_step.read_dtls) simp_all
      then show ?thesis using closing [of "receiver_read None False c ds" c] assms Connected
        by (auto simp: receiver_read_def upd_conn_def intro: converse_rtranclp_into_rtranclp)
    qed (use closing [of ds c] assms Connected in auto)
  next
    case StreamDone
    then show ?thesis using assms by (intro exI [of _ ds]) (simp add: fun_upd_idem)
  qed
qed

lemma streams_can_stop:
  assumes "dispatch_ok peer ds" and "ds_ctxDone ds" and "k \<le> ds_launched ds"
  shows "\<exists>ds'. rtranclp (dispatch_step n) ds ds' \<and> (\<forall>i < k. ds_stream ds' i = StreamDone) \<and> ds_ctxDone ds' \<and>
    ds_launched ds' = ds_launched ds \<and> ds_mainWaits ds' = ds_mainWaits ds"
  using assms(3)
proof (induction k)
  case 0
  show ?case using assms(2) by (intro exI [of _ ds]) simp
next
  case (Suc k)
  then obtain ds1 where ds1: "rtranclp (dispatch_step n) ds ds1" "\<forall>i < k. ds_stream ds1 i = StreamDone" "ds_ctxDone ds1"
      "ds_launched ds1 = ds_launched ds" "ds_mainWaits ds1 = ds_mainWaits ds" by auto
  have "dispatch_ok peer ds1" by (rule dispatcher.steps_inv [OF ds1(1) assms(1)])
  then obtain ds2 where "rtranclp (dispatch_step n) ds1 ds2" "ds_stream ds2 = (ds_stream ds1)(k := StreamDone)" "ds_ctxDone ds2"
      "ds_launched ds2 = ds_launched ds" "ds_mainWaits ds2 = ds_mainWaits ds"
    using stream_can_stop [of peer ds1 k n] ds1 Suc.prems by auto
  then show ?case using ds1 by (intro exI [of _ ds2]) (auto simp: less_Suc_eq)
qed

lemma dropped_when_full:
  "ds_verdicts (reader_send a ds) = ds_verdicts ds @ [(payload (ds_packet ds a), length (ds_inbound ds) < inboundCap)]"
  by (simp add: reader_send_def Let_def try_send_def)

section \<open>Properties\<close>

text \<open>C30: Every datagram of the local socket (cut to 2048 bytes) goes to at most one DTLS connection, unchanged and in
  order: what the connections took, followed by what waits in the channel, is exactly what was not dropped; at most one
  datagram is still in the hands of the reader; a connection writes, in order, only packets that it took. No buffer has two
  owners, so no packet is overwritten while it waits.\<close>

theorem local_packets_once:
  assumes "dispatch_start peer ds0" and "rtranclp (dispatch_step n) ds0 ds"
  shows "map snd (ds_taken ds) @ map (\<lambda>a. payload (ds_packet ds a)) (ds_inbound ds) = map fst (filter snd (ds_verdicts ds)) \<and>
    (\<exists>rest. map (\<lambda>m. take 2048 (snd m)) (ds_arrived ds) = map fst (ds_verdicts ds) @ rest \<and> length rest \<le> 1) \<and>
    length (ds_inbound ds) \<le> 2000 \<and>
    (\<forall>c < ds_nconns ds. subseq (dc_sent (ds_conn ds c)) (map snd (filter (\<lambda>t. fst t = c) (ds_taken ds)))) \<and>
    (\<forall>a. owners ds a \<le> 1)"
proof -
  have ok: "dispatch_ok peer ds" by (rule dispatcher.reachable_inv [OF assms])
  have "length (reader_payload (ds_packet ds) (ds_reader ds)) \<le> 1" by (simp add: reader_payload_def split: reader_pc.split)
  then have "\<exists>rest. map (\<lambda>m. take 2048 (snd m)) (ds_arrived ds) = map fst (ds_verdicts ds) @ rest \<and> length rest \<le> 1"
    using ok by (intro exI [of _ "reader_payload (ds_packet ds) (ds_reader ds)"])
      (simp add: dispatch_ok_def flow_ok_def udpPacketSize_def)
  moreover have "subseq (dc_sent (ds_conn ds c)) (map snd (filter (\<lambda>t. fst t = c) (ds_taken ds)))" if "c < ds_nconns ds" for c
  proof -
    have "conn_sent_ok ds c" using ok that by (simp add: dispatch_ok_def sent_ok_alt)
    then show ?thesis
      by (cases "dc_sender (ds_conn ds c)") (auto simp: conn_sent_ok_def taken_by_def intro: subseq_rev_drop_many)
  qed
  moreover have "owners ds a \<le> 1" for a
  proof -
    have "owners ds a \<le> of_bool (a < ds_allocated ds)" using ok by (simp add: dispatch_ok_def own_ok_def)
    then show ?thesis by (cases "a < ds_allocated ds") auto
  qed
  ultimately show ?thesis using ok by (simp add: dispatch_ok_def flow_ok_def inboundCap_def)
qed

text \<open>C31: An answer from the server goes to the local address that sent the last datagram before it (or, while this run has
  received none, to the one an earlier run has left) and has at most 1600 bytes; without such an address it is not
  sent.\<close>

theorem downlink_to_last_sender:
  assumes "dispatch_start peer ds0" and "rtranclp (dispatch_step n) ds0 ds"
  shows "ds_activePeer ds = (if ds_arrived ds = [] then peer else Some (fst (last (ds_arrived ds)))) \<and>
    (\<forall>(addr, d, k) \<in> set (ds_toLocal ds). length d \<le> 1600 \<and> k \<le> length (ds_arrived ds) \<and>
       (if k = 0 then peer = Some addr else fst (ds_arrived ds ! (k - 1)) = addr))"
proof -
  have ok: "peer_ok peer ds" using dispatcher.reachable_inv [OF assms] by (simp add: dispatch_ok_def)
  then show ?thesis
    by (auto simp: peer_ok_def sender_after_def dtlsReadSize_def last_conv_nth split: if_splits)
qed

text \<open>C32: The streams start one after the other and share the handshakes: only stream 0 runs until it has had a DTLS
  connection or the context is cancelled, at most three handshakes are under way at once, and every stream has at
  most one connection that is not closed.\<close>

theorem streams_staged:
  assumes "dispatch_start peer ds0" and "rtranclp (dispatch_step n) ds0 ds"
  shows "(1 < ds_launched ds \<longrightarrow> ds_ctxDone ds \<or> first_connected ds) \<and>
    (\<forall>i. ds_stream ds i \<noteq> Waiting \<longrightarrow> i < ds_launched ds) \<and>
    card {i. ds_stream ds i = Handshaking} \<le> 3 \<and>
    (\<forall>c d. c < ds_nconns ds \<longrightarrow> d < ds_nconns ds \<longrightarrow> \<not> dc_closed (ds_conn ds c) \<longrightarrow> \<not> dc_closed (ds_conn ds d) \<longrightarrow>
       dc_stream (ds_conn ds c) = dc_stream (ds_conn ds d) \<longrightarrow> c = d)"
proof -
  have ok: "stream_ok ds" "limits_ok ds" using dispatcher.reachable_inv [OF assms] by (simp_all add: dispatch_ok_def)
  have one: "c = d" if "c < ds_nconns ds" "d < ds_nconns ds" "\<not> dc_closed (ds_conn ds c)" "\<not> dc_closed (ds_conn ds d)"
      "dc_stream (ds_conn ds c) = dc_stream (ds_conn ds d)" for c d
  proof -
    have "Connected c = Connected d" using stream_open [OF ok(1) that(1,3)] stream_open [OF ok(1) that(2,4)] that(5) by metis
    then show ?thesis by simp
  qed
  have three: "card {i. ds_stream ds i = Handshaking} \<le> 3" using ok(2) by (simp add: limits_ok_def handshakeCap_def)
  have launched: "1 < ds_launched ds \<longrightarrow> ds_ctxDone ds \<or> first_connected ds"
    using ok(2) by (cases "ds_mainWaits ds") (simp_all add: limits_ok_def)
  have idle: "\<forall>i. ds_stream ds i \<noteq> Waiting \<longrightarrow> i < ds_launched ds" using stream_launched [OF ok(1)] by simp
  show ?thesis by (intro conjI three launched idle) (use one in simp)
qed



section \<open>A run\<close>

definition sample_dispatch :: dispatch where
  "sample_dispatch =
     \<lparr>ds_packet = (\<lambda>_. new_udp_packet), ds_allocated = 0, ds_pool = [], ds_inbound = [], ds_activePeer = None,
      ds_reader = RdGet, ds_conn = (\<lambda>_. new_dtls_conn 0), ds_nconns = 0, ds_stream = (\<lambda>_. Waiting), ds_handshakeSem = 0,
      ds_launched = 1, ds_mainWaits = True, ds_ctxDone = False, ds_arrived = [], ds_verdicts = [], ds_taken = [], ds_toLocal = []\<rparr>"

lemma sample_dispatch_start: "dispatch_start None sample_dispatch"
  by (simp add: dispatch_start_def sample_dispatch_def new_udp_packet_def)

lemma sample_run:
  "\<exists>ds. rtranclp (dispatch_step 4) sample_dispatch ds \<and> dc_sent (ds_conn ds 0) = [[7, 8]] \<and> ds_nconns ds = 1 \<and>
     ds_toLocal ds = [(''a'', [9], 1)] \<and> ds_launched ds = 4 \<and> ds_ctxDone ds \<and> ds_arrived ds = [(''a'', [7, 8])]"
proof -
  define s1 where "s1 = reader_get 0 sample_dispatch"
  define s2 where "s2 = reader_read (Some ([7, 8], ''a'')) 0 s1"
  define s3 where "s3 = reader_send 0 s2"
  define s4 where "s4 = handshake_begin 0 s3"
  define s5 where "s5 = handshake_end True 0 s4"
  define s6 where "s6 = sender_take 0 s5"
  define s7 where "s7 = sender_write True 0 0 s6"
  define s8 where "s8 = receiver_read (Some [9]) True 0 s7"
  define s9 where "s9 = launch_rest 4 s8"
  have pay: "payload \<lparr>up_Data = [7, 8] @ replicate (udpPacketSize - 2) 0, up_N = 2\<rparr> = [7, 8 :: byte]"
    by (simp add: payload_def)
  have s2: "s2 = sample_dispatch\<lparr>ds_reader := RdSend 0, ds_allocated := 1, ds_activePeer := Some ''a'', ds_arrived := [(''a'', [7, 8])],
      ds_packet := (ds_packet sample_dispatch)(0 := \<lparr>up_Data = [7, 8] @ replicate (udpPacketSize - 2) 0, up_N = 2\<rparr>)\<rparr>"
    by (simp add: s2_def s1_def reader_get_def reader_read_def sample_dispatch_def new_udp_packet_def udpPacketSize_def Let_def
        numeral_2_eq_2)
  have s3: "s3 = s2\<lparr>ds_reader := RdGet, ds_inbound := [0], ds_verdicts := [([7, 8], True)]\<rparr>"
    by (simp add: s3_def s2 reader_send_def sample_dispatch_def pay try_send_def inboundCap_def del: append_Cons)
  note ops = sample_dispatch_def s1_def s2 s3 s4_def s5_def s6_def s7_def s8_def s9_def handshake_begin_def handshake_end_def
    sender_take_def sender_write_def receiver_read_def launch_rest_def upd_conn_def new_dtls_conn_def pay
  have "dispatch_step 4 sample_dispatch s1" unfolding s1_def by (rule dispatch_step.get) (simp add: sample_dispatch_def)
  moreover have "dispatch_step 4 s1 s2" unfolding s2_def by (rule dispatch_step.read_local) (simp add: s1_def reader_get_def sample_dispatch_def)
  moreover have "dispatch_step 4 s2 s3" unfolding s3_def by (rule dispatch_step.send) (simp add: s2)
  moreover have "dispatch_step 4 s3 s4" unfolding s4_def by (rule dispatch_step.begin_handshake) (simp_all add: s3 s2 sample_dispatch_def handshakeCap_def)
  moreover have "dispatch_step 4 s4 s5" unfolding s5_def by (rule dispatch_step.end_handshake) (simp add: s4_def handshake_begin_def)
  moreover have "dispatch_step 4 s5 s6" unfolding s6_def by (rule dispatch_step.take_packet) (simp_all add: ops del: append_Cons)
  moreover have "dispatch_step 4 s6 s7" unfolding s7_def by (rule dispatch_step.write_packet) (simp_all add: ops del: append_Cons)
  moreover have "dispatch_step 4 s7 s8" unfolding s8_def by (rule dispatch_step.read_dtls) (simp_all add: ops dtlsReadSize_def del: append_Cons)
  moreover have "dispatch_step 4 s8 s9" unfolding s9_def
    by (rule dispatch_step.launch) (simp_all add: ops first_connected_def del: append_Cons)
  moreover have "dispatch_step 4 s9 (s9\<lparr>ds_ctxDone := True\<rparr>)" by (rule dispatch_step.cancel)
  ultimately have "rtranclp (dispatch_step 4) sample_dispatch (s9\<lparr>ds_ctxDone := True\<rparr>)"
    by (meson rtranclp.rtrancl_into_rtrancl rtranclp.rtrancl_refl)
  then show ?thesis by (intro exI [of _ "s9\<lparr>ds_ctxDone := True\<rparr>"]) (simp add: ops del: append_Cons)
qed

theorem local_packets_once_witness:
  "\<exists>ds. rtranclp (dispatch_step 4) sample_dispatch ds \<and> dc_sent (ds_conn ds 0) = [[7, 8]] \<and> owners ds 0 \<le> 1"
  using sample_run local_packets_once [OF sample_dispatch_start] by blast

theorem downlink_to_last_sender_witness:
  "\<exists>ds. rtranclp (dispatch_step 4) sample_dispatch ds \<and> ds_toLocal ds = [(''a'', [9], 1)] \<and> ds_activePeer ds = Some ''a''"
proof -
  obtain ds where ds: "rtranclp (dispatch_step 4) sample_dispatch ds" "ds_toLocal ds = [(''a'', [9], 1)]" "ds_arrived ds = [(''a'', [7, 8])]"
    using sample_run by blast
  then show ?thesis using downlink_to_last_sender [OF sample_dispatch_start ds(1)] by auto
qed

theorem streams_staged_witness:
  "\<exists>ds. rtranclp (dispatch_step 4) sample_dispatch ds \<and> 1 < ds_launched ds \<and> card {i. ds_stream ds i = Handshaking} \<le> 3"
proof -
  obtain ds where ds: "rtranclp (dispatch_step 4) sample_dispatch ds" "ds_launched ds = 4" using sample_run by blast
  then show ?thesis using streams_staged [OF sample_dispatch_start ds(1)] by (intro exI [of _ ds]) simp
qed



end
