(* ===== verification/Observability.thy ===== *)
theory Observability
  imports Admission_Gate Aggregated_Session Bond_Server
begin

text \<open>
  The observability endpoints of the server (\<open>server/metrics.go\<close>): the text that \<open>/metrics\<close> answers, and the
  routes. A reader of the text format of Prometheus, written independently, states what a scraper gets: for every
  state and all printable labels exactly the numbers of the server, each under its own family.
\<close>

section \<open>Text\<close>

text \<open>The verb \<open>%q\<close> of \<open>fmt\<close> (\<open>strconv.Quote\<close>) on bytes; bytes beyond ASCII are taken to belong to printable
  characters, which are copied.\<close>

definition newline :: char where "newline = CHR 0x0A"

definition dquote :: char where "dquote = CHR 0x22"

definition backslash :: char where "backslash = CHR 0x5C"

definition quote_char :: "char \<Rightarrow> string" where
  "quote_char c =
     (let n = of_char c :: nat in
      if c = dquote \<or> c = backslash then [backslash, c]
      else if n = 7 then [backslash, CHR ''a''] else if n = 8 then [backslash, CHR ''b'']
      else if n = 9 then [backslash, CHR ''t''] else if n = 10 then [backslash, CHR ''n'']
      else if n = 11 then [backslash, CHR ''v''] else if n = 12 then [backslash, CHR ''f'']
      else if n = 13 then [backslash, CHR ''r'']
      else if n < 32 \<or> n = 127 then [backslash, CHR ''x'', hex_digit (n div 16), hex_digit (n mod 16)]
      else [c])"

definition str_Quote :: "string \<Rightarrow> string" where
  "str_Quote s = dquote # concat (map quote_char s) @ [dquote]"

text \<open>What is written, as lines: every format ends them with a newline.\<close>

definition write_lines :: "string list \<Rightarrow> string" where
  "write_lines ls = concat (map (\<lambda>l. l @ [newline]) ls)"

definition metricHelp :: "string \<Rightarrow> string \<Rightarrow> string \<Rightarrow> string list" where
  "metricHelp name kind help = [''# HELP '' @ name @ '' '' @ help, ''# TYPE '' @ name @ '' '' @ kind]"

definition metricValue :: "string \<Rightarrow> int \<Rightarrow> string list" where
  "metricValue name value = [name @ '' '' @ str_Itoa value]"

definition metricLabelValue :: "string \<Rightarrow> string \<Rightarrow> string \<Rightarrow> u64 \<Rightarrow> string list" where
  "metricLabelValue name label value number =
     [name @ ''{'' @ label @ ''='' @ str_Quote value @ ''} '' @ str_Itoa (uint number)]"

section \<open>The answer of /metrics\<close>

record observed =
  ob_metrics :: serverMetrics
  ob_gate :: connectionGate
  ob_udp :: udpRegistryStats
  ob_bond :: bondRegistryStats
  ob_goroutines :: nat
  ob_resources :: resourceMonitor

definition info_lines :: "string \<Rightarrow> string \<Rightarrow> string list" where
  "info_lines inst role =
     [''# HELP rabbithole_turn_info Static instance information.'', ''# TYPE rabbithole_turn_info gauge'',
      ''rabbithole_turn_info{instance='' @ str_Quote inst @ '',role='' @ str_Quote role @ ''} 1'']"

definition gate_lines :: "serverMetrics \<Rightarrow> connectionGate \<Rightarrow> string list" where
  "gate_lines m gate =
     metricHelp ''rabbithole_turn_sessions_active'' ''gauge'' ''Admitted DTLS connections, including handshakes.'' @
     metricValue ''rabbithole_turn_sessions_active'' (gt_active gate) @
     metricHelp ''rabbithole_turn_sessions_established'' ''gauge'' ''Established DTLS sessions.'' @
     metricValue ''rabbithole_turn_sessions_established'' (gt_established gate) @
     metricHelp ''rabbithole_turn_handshakes_active'' ''gauge'' ''DTLS handshakes currently in progress.'' @
     metricValue ''rabbithole_turn_handshakes_active'' (gt_handshakes gate) @
     metricHelp ''rabbithole_turn_sessions_admitted_total'' ''counter'' ''Sessions admitted since process start.'' @
     metricValue ''rabbithole_turn_sessions_admitted_total'' (uint (m_sessionsAdmitted m)) @
     metricHelp ''rabbithole_turn_sessions_rejected_total'' ''counter'' ''Sessions rejected before handler startup.'' @
     metricLabelValue ''rabbithole_turn_sessions_rejected_total'' ''reason'' admissionReasonDrain (m_rejectedDrain m) @
     metricLabelValue ''rabbithole_turn_sessions_rejected_total'' ''reason'' admissionReasonSessions (m_rejectedSessions m) @
     metricLabelValue ''rabbithole_turn_sessions_rejected_total'' ''reason'' admissionReasonHandshakes (m_rejectedHandshakes m) @
     metricLabelValue ''rabbithole_turn_sessions_rejected_total'' ''reason'' admissionReasonGoroutines (m_rejectedGoroutines m) @
     metricLabelValue ''rabbithole_turn_sessions_rejected_total'' ''reason'' admissionReasonFDs (m_rejectedFDs m) @
     metricHelp ''rabbithole_turn_handshake_failures_total'' ''counter'' ''Failed DTLS handshakes.'' @
     metricValue ''rabbithole_turn_handshake_failures_total'' (uint (m_handshakeFailures m))"

definition traffic_lines :: "serverMetrics \<Rightarrow> udpRegistryStats \<Rightarrow> bondRegistryStats \<Rightarrow> string list" where
  "traffic_lines m udpStats bondStats =
     metricHelp ''rabbithole_turn_backend_errors_total'' ''counter'' ''Backend I/O errors by operation.'' @
     metricLabelValue ''rabbithole_turn_backend_errors_total'' ''operation'' ''dial'' (m_backendDialErrors m) @
     metricLabelValue ''rabbithole_turn_backend_errors_total'' ''operation'' ''read'' (m_backendReadErrors m) @
     metricLabelValue ''rabbithole_turn_backend_errors_total'' ''operation'' ''write'' (m_backendWriteErrors m) @
     metricHelp ''rabbithole_turn_udp_downlink_queue_drops_total'' ''counter''
       ''Downlink packets dropped because all compatible client lane queues were full.'' @
     metricValue ''rabbithole_turn_udp_downlink_queue_drops_total'' (uint (m_udpDownlinkDrops m)) @
     metricHelp ''rabbithole_turn_packets_total'' ''counter'' ''Packets forwarded to or from the backend.'' @
     metricLabelValue ''rabbithole_turn_packets_total'' ''direction'' ''to_backend'' (m_packetsToBackend m) @
     metricLabelValue ''rabbithole_turn_packets_total'' ''direction'' ''from_backend'' (m_packetsFromBackend m) @
     metricHelp ''rabbithole_turn_udp_sessions_active'' ''gauge'' ''Aggregated Android UDP sessions.'' @
     metricValue ''rabbithole_turn_udp_sessions_active'' (int (rs_sessions udpStats)) @
     metricHelp ''rabbithole_turn_udp_lanes_active'' ''gauge'' ''Active lanes across aggregated UDP sessions.'' @
     metricValue ''rabbithole_turn_udp_lanes_active'' (int (rs_lanes udpStats)) @
     metricHelp ''rabbithole_turn_udp_queue_packets'' ''gauge'' ''Packets waiting in aggregated UDP downlink queues.'' @
     metricValue ''rabbithole_turn_udp_queue_packets'' (int (rs_queued udpStats)) @
     metricHelp ''rabbithole_turn_bond_sessions_active'' ''gauge'' ''Active bonded VLESS sessions.'' @
     metricValue ''rabbithole_turn_bond_sessions_active'' (int (brs_sessions bondStats)) @
     metricHelp ''rabbithole_turn_bond_lanes_active'' ''gauge'' ''Active bonded VLESS lanes.'' @
     metricValue ''rabbithole_turn_bond_lanes_active'' (int (brs_lanes bondStats)) @
     metricHelp ''rabbithole_turn_bond_queue_frames'' ''gauge'' ''Frames waiting in bonded VLESS receive queues.'' @
     metricValue ''rabbithole_turn_bond_queue_frames'' (int (brs_queued bondStats))"

definition process_lines :: "serverMetrics \<Rightarrow> nat \<Rightarrow> resourceMonitor \<Rightarrow> string list" where
  "process_lines m goroutines resources =
     (let (openFDs, maxFDs) = fdCounts resources in
     metricHelp ''rabbithole_turn_draining'' ''gauge'' ''Whether graceful drain is refusing new sessions.'' @
     (if m_draining m then metricValue ''rabbithole_turn_draining'' 1 else metricValue ''rabbithole_turn_draining'' 0) @
     metricHelp ''rabbithole_turn_drain_total'' ''counter'' ''Drain lifecycle events.'' @
     metricLabelValue ''rabbithole_turn_drain_total'' ''result'' ''started'' (m_drainStarted m) @
     metricLabelValue ''rabbithole_turn_drain_total'' ''result'' ''completed'' (m_drainCompleted m) @
     metricLabelValue ''rabbithole_turn_drain_total'' ''result'' ''forced'' (m_drainForced m) @
     metricHelp ''rabbithole_turn_process_goroutines'' ''gauge'' ''Current Go goroutine count.'' @
     metricValue ''rabbithole_turn_process_goroutines'' (int goroutines) @
     metricHelp ''rabbithole_turn_process_open_fds'' ''gauge'' ''Open file descriptors, or -1 when unavailable.'' @
     metricValue ''rabbithole_turn_process_open_fds'' openFDs @
     metricHelp ''rabbithole_turn_process_max_fds'' ''gauge'' ''Process file descriptor limit, or -1 when unavailable.'' @
     metricValue ''rabbithole_turn_process_max_fds'' maxFDs)"

definition writePrometheusMetrics :: "string \<Rightarrow> string \<Rightarrow> observed \<Rightarrow> string" where
  "writePrometheusMetrics inst role ob =
     write_lines (info_lines inst role @ gate_lines (ob_metrics ob) (ob_gate ob) @
       traffic_lines (ob_metrics ob) (ob_udp ob) (ob_bond ob) @
       process_lines (ob_metrics ob) (ob_goroutines ob) (ob_resources ob))"

section \<open>Routes\<close>

text \<open>Status and body of the three endpoints; other paths are not found. The environment of \<open>/readyz\<close> is that of
  the gate.\<close>

definition newObservabilityMux :: "string \<Rightarrow> string \<Rightarrow> gate_env \<Rightarrow> admission \<Rightarrow> observed \<Rightarrow> string \<Rightarrow> nat \<times> string" where
  "newObservabilityMux inst role env a ob path =
     (if path = ''/healthz'' then (200, ''ok'' @ [newline])
      else if path = ''/readyz'' then readyz env a
      else if path = ''/metrics'' then (200, writePrometheusMetrics inst role ob)
      else (404, ''404 page not found'' @ [newline]))"

text \<open>A blank address switches the server off; \<open>listen\<close> is the answer of the operating system.\<close>

definition startObservabilityServer :: "string \<Rightarrow> string option \<Rightarrow> string + bool" where
  "startObservabilityServer listenAddr listen_error =
     (if str_TrimSpace listenAddr = [] then Inr False
      else case listen_error of Some e \<Rightarrow> Inl e | None \<Rightarrow> Inr True)"

section \<open>A reader of the text format\<close>

text \<open>In a label value a backslash comes before another one, a quote or an \<open>n\<close>, and nothing else.\<close>

fun scan_quoted :: "string \<Rightarrow> (string \<times> string) option" where
  "scan_quoted [] = None"
| "scan_quoted (c # s) =
     (if c = dquote then Some ([], s)
      else if c = backslash then
        (case s of
           [] \<Rightarrow> None
         | e # t \<Rightarrow>
             (case (if e = dquote \<or> e = backslash then Some e else if e = CHR ''n'' then Some newline else None) of
                None \<Rightarrow> None
              | Some d \<Rightarrow> map_option (\<lambda>(v, r). (d # v, r)) (scan_quoted t)))
      else map_option (\<lambda>(v, r). (c # v, r)) (scan_quoted s))"

primrec scan_labels :: "nat \<Rightarrow> string \<Rightarrow> ((string \<times> string) list \<times> string) option" where
  "scan_labels 0 s = None"
| "scan_labels (Suc k) s =
     (let label = takeWhile (\<lambda>c. c \<noteq> CHR ''='') s; rest = drop (length label) s in
      case rest of
        eq # q # t \<Rightarrow>
          (if q \<noteq> dquote then None
           else case scan_quoted t of
             Some (v, c # t') \<Rightarrow>
               (if c = CHR ''}'' then Some ([(label, v)], t')
                else if c = CHR '','' then map_option (\<lambda>(ls, r). ((label, v) # ls, r)) (scan_labels k t')
                else None)
           | _ \<Rightarrow> None)
      | _ \<Rightarrow> None)"

type_synonym sample = "(string \<times> string) list \<times> int"

definition scan_value :: "string \<Rightarrow> int option" where
  "scan_value s = (case s of [] \<Rightarrow> None | c # t \<Rightarrow> if c = CHR '' '' then parse_sign t else None)"

definition scan_sample :: "string \<Rightarrow> (string \<times> sample) option" where
  "scan_sample line =
     (let name = takeWhile (\<lambda>c. c \<noteq> CHR '' '' \<and> c \<noteq> CHR ''{'') line; rest = drop (length name) line in
      if rest \<noteq> [] \<and> hd rest = CHR ''{'' then
        (case scan_labels (length line) (tl rest) of
           None \<Rightarrow> None
         | Some (ls, r) \<Rightarrow> map_option (\<lambda>v. (name, ls, v)) (scan_value r))
      else map_option (\<lambda>v. (name, [], v)) (scan_value rest))"

text \<open>A family is opened by its \<open>TYPE\<close> line, and may be opened only once; a sample must belong to the family that was
  opened last. The families come in reverse.\<close>

type_synonym family = "string \<times> string \<times> sample list"

fun scrape_line :: "string \<Rightarrow> family list \<Rightarrow> family list option" where
  "scrape_line line fams =
     (if line = [] \<or> str_HasPrefix line ''# HELP '' then Some fams
      else if str_HasPrefix line ''# TYPE '' then
        (case str_Split CHR '' '' (drop 7 line) of
           [name, kind] \<Rightarrow> if name \<in> fst ` set fams then None else Some ((name, kind, []) # fams)
         | _ \<Rightarrow> None)
      else (case (fams, scan_sample line) of
              ((name, kind, ss) # fs, Some (n, s)) \<Rightarrow> if n = name then Some ((name, kind, ss @ [s]) # fs) else None
            | _ \<Rightarrow> None))"

primrec scrape_lines :: "string list \<Rightarrow> family list \<Rightarrow> family list option" where
  "scrape_lines [] fams = Some (rev fams)"
| "scrape_lines (l # ls) fams = (case scrape_line l fams of None \<Rightarrow> None | Some fams' \<Rightarrow> scrape_lines ls fams')"

definition scrape :: "string \<Rightarrow> family list option" where
  "scrape text = scrape_lines (str_Split newline text) []"

section \<open>What a scraper reads\<close>

definition label_ok :: "string \<Rightarrow> bool" where
  "label_ok s \<longleftrightarrow> list_all (\<lambda>c. c = newline \<or> (32 \<le> (of_char c :: nat) \<and> (of_char c :: nat) \<noteq> 127)) s"

definition word_ok :: "string \<Rightarrow> bool" where
  "word_ok s \<longleftrightarrow> s \<noteq> [] \<and> list_all (\<lambda>c. c \<notin> {CHR '' '', CHR ''{'', CHR ''='', CHR ''#'', newline}) s"

lemma str_Split_lines:
  "list_all (\<lambda>l. newline \<notin> set l) ls \<Longrightarrow> str_Split newline (write_lines ls) = ls @ [[]]"
  by (induction ls) (simp_all add: write_lines_def str_Split_append)

lemma scan_quote_char:
  assumes "c = newline \<or> (32 \<le> (of_char c :: nat) \<and> (of_char c :: nat) \<noteq> 127)"
  shows "scan_quoted (quote_char c @ s) = map_option (\<lambda>(v, r). (c # v, r)) (scan_quoted s)"
proof (cases "c = newline")
  case True
  have "quote_char c = [backslash, CHR ''n'']" by (simp add: quote_char_def True newline_def dquote_def backslash_def)
  then show ?thesis by (simp add: True backslash_def dquote_def)
next
  case False
  then have n: "32 \<le> (of_char c :: nat)" "(of_char c :: nat) \<noteq> 127" using assms by auto
  show ?thesis
  proof (cases "c = dquote \<or> c = backslash")
    case True
    then have "quote_char c = [backslash, c]" by (simp add: quote_char_def)
    then show ?thesis using True by (auto simp: dquote_def backslash_def)
  next
    case False
    then have "quote_char c = [c]" using n by (simp add: quote_char_def Let_def)
    then show ?thesis using False by simp
  qed
qed

lemma scan_str_Quote: "label_ok v \<Longrightarrow> scan_quoted (concat (map quote_char v) @ dquote # r) = Some (v, r)"
proof (induction v)
  case (Cons c v)
  then show ?case using scan_quote_char [of c "concat (map quote_char v) @ dquote # r"] by (simp add: label_ok_def)
qed simp

lemma no_newline_hex: "d < 16 \<Longrightarrow> hex_digit d \<noteq> newline"
proof -
  assume d: "d < 16"
  have "(of_char (hex_digit d) :: nat) \<noteq> of_char newline" using d by (auto simp: hex_digit_def newline_def)
  then show ?thesis by metis
qed

lemma no_newline_quote: "newline \<notin> set (quote_char c)"
proof (cases "(of_char c :: nat) < 32 \<or> (of_char c :: nat) = 127")
  case True
  then have "hex_digit (of_char c div 16) \<noteq> newline" "hex_digit (of_char c mod 16) \<noteq> newline"
    by (auto intro!: no_newline_hex)
  then show ?thesis by (auto simp: quote_char_def Let_def newline_def backslash_def dquote_def)
next
  case False
  then have "c \<noteq> newline" by (auto simp: newline_def)
  then show ?thesis using False by (auto simp: quote_char_def Let_def newline_def backslash_def dquote_def)
qed

lemma no_newline_Quote [simp]: "newline \<notin> set (str_Quote v)"
  using no_newline_quote by (auto simp: str_Quote_def newline_def dquote_def)

lemma no_newline_Itoa [simp]: "newline \<notin> set (str_Itoa i)"
proof -
  have "newline \<notin> set (nat_digits n)" for n
    using nat_digits_ok [of n] by (auto simp: list_all_iff is_digit_def newline_def)
  then show ?thesis by (simp add: str_Itoa_def) (simp add: newline_def)
qed

lemma takeWhile_word: "list_all P w \<Longrightarrow> \<not> P c \<Longrightarrow> takeWhile P (w @ c # s) = w"
  by (induction w) auto

lemma scan_label:
  assumes "word_ok label" and "label_ok v"
  shows "scan_labels (Suc k) (label @ ''='' @ str_Quote v @ ''}'' @ r) = Some ([(label, v)], r)"
    and "scan_labels (Suc k) (label @ ''='' @ str_Quote v @ '','' @ r) = map_option (\<lambda>(ls, r). ((label, v) # ls, r)) (scan_labels k r)"
proof -
  have "takeWhile (\<lambda>c. c \<noteq> CHR ''='') (label @ CHR ''='' # s) = label" for s
    using assms(1) by (intro takeWhile_word) (auto simp: word_ok_def list_all_iff)
  then show "scan_labels (Suc k) (label @ ''='' @ str_Quote v @ ''}'' @ r) = Some ([(label, v)], r)"
    "scan_labels (Suc k) (label @ ''='' @ str_Quote v @ '','' @ r) = map_option (\<lambda>(ls, r). ((label, v) # ls, r)) (scan_labels k r)"
    using scan_str_Quote [OF assms(2), of "CHR ''}'' # r"] scan_str_Quote [OF assms(2), of "CHR '','' # r"]
    by (simp_all add: str_Quote_def)
qed

lemma scan_name:
  assumes "word_ok name"
  shows "scan_sample (name @ '' '' @ s) = map_option (\<lambda>v. (name, [], v)) (parse_sign s)"
    and "scan_sample (name @ ''{'' @ s) = (case scan_labels (Suc (length name + length s)) s of
           None \<Rightarrow> None | Some (ls, r) \<Rightarrow> map_option (\<lambda>v. (name, ls, v)) (scan_value r))"
proof -
  have "takeWhile (\<lambda>c. c \<noteq> CHR '' '' \<and> c \<noteq> CHR ''{'') (name @ c # s) = name" if "c = CHR '' '' \<or> c = CHR ''{''" for c s
    using assms that by (intro takeWhile_word) (auto simp: word_ok_def list_all_iff)
  then show "scan_sample (name @ '' '' @ s) = map_option (\<lambda>v. (name, [], v)) (parse_sign s)"
    "scan_sample (name @ ''{'' @ s) = (case scan_labels (Suc (length name + length s)) s of
           None \<Rightarrow> None | Some (ls, r) \<Rightarrow> map_option (\<lambda>v. (name, ls, v)) (scan_value r))"
    by (simp_all add: scan_sample_def scan_value_def)
qed

lemma word_first: "word_ok name \<Longrightarrow> name @ s \<noteq> [] \<and> \<not> str_HasPrefix (name @ s) (CHR ''#'' # p)"
  by (cases name) (auto simp: word_ok_def)

lemma scrape_value:
  assumes "word_ok name"
  shows "scrape_lines (metricValue name v @ ls) ((name, kind, ss) # fs) = scrape_lines ls ((name, kind, ss @ [([], v)]) # fs)"
  using word_first [OF assms] scan_name(1) [OF assms, of "str_Itoa v"] by (simp add: metricValue_def)

lemma scrape_labelled:
  assumes "word_ok name" and "word_ok label" and "label_ok value"
  shows "scrape_lines (metricLabelValue name label value n @ ls) ((name, kind, ss) # fs) =
    scrape_lines ls ((name, kind, ss @ [([(label, value)], uint n)]) # fs)"
  using word_first [OF assms(1)] scan_name(2) [OF assms(1), of "label @ ''='' @ str_Quote value @ ''} '' @ str_Itoa (uint n)"]
    scan_label(1) [OF assms(2,3), of _ "CHR '' '' # str_Itoa (uint n)"]
  by (simp add: metricLabelValue_def scan_value_def)

lemma scrape_help:
  assumes "word_ok name" and "word_ok kind" and "name \<notin> fst ` set fams"
  shows "scrape_lines (metricHelp name kind help @ ls) fams = scrape_lines ls ((name, kind, []) # fams)"
proof -
  have "str_Split CHR '' '' (name @ CHR '' '' # kind) = [name, kind]"
    using assms(1,2) by (subst str_Split_append) (auto simp: word_ok_def list_all_iff intro: str_Split_single)
  then show ?thesis using assms(3) by (simp add: metricHelp_def)
qed


section \<open>The families\<close>

definition gate_families :: "serverMetrics \<Rightarrow> connectionGate \<Rightarrow> family list" where
  "gate_families m gate =
     [(''rabbithole_turn_sessions_active'', ''gauge'', [([], gt_active gate)]),
      (''rabbithole_turn_sessions_established'', ''gauge'', [([], gt_established gate)]),
      (''rabbithole_turn_handshakes_active'', ''gauge'', [([], gt_handshakes gate)]),
      (''rabbithole_turn_sessions_admitted_total'', ''counter'', [([], uint (m_sessionsAdmitted m))]),
      (''rabbithole_turn_sessions_rejected_total'', ''counter'',
        [([(''reason'', ''drain'')], uint (m_rejectedDrain m)), ([(''reason'', ''sessions'')], uint (m_rejectedSessions m)),
         ([(''reason'', ''handshakes'')], uint (m_rejectedHandshakes m)), ([(''reason'', ''goroutines'')], uint (m_rejectedGoroutines m)),
         ([(''reason'', ''file_descriptors'')], uint (m_rejectedFDs m))]),
      (''rabbithole_turn_handshake_failures_total'', ''counter'', [([], uint (m_handshakeFailures m))])]"

definition traffic_families :: "serverMetrics \<Rightarrow> udpRegistryStats \<Rightarrow> bondRegistryStats \<Rightarrow> family list" where
  "traffic_families m us bs =
     [(''rabbithole_turn_backend_errors_total'', ''counter'',
        [([(''operation'', ''dial'')], uint (m_backendDialErrors m)), ([(''operation'', ''read'')], uint (m_backendReadErrors m)),
         ([(''operation'', ''write'')], uint (m_backendWriteErrors m))]),
      (''rabbithole_turn_udp_downlink_queue_drops_total'', ''counter'', [([], uint (m_udpDownlinkDrops m))]),
      (''rabbithole_turn_packets_total'', ''counter'',
        [([(''direction'', ''to_backend'')], uint (m_packetsToBackend m)), ([(''direction'', ''from_backend'')], uint (m_packetsFromBackend m))]),
      (''rabbithole_turn_udp_sessions_active'', ''gauge'', [([], int (rs_sessions us))]),
      (''rabbithole_turn_udp_lanes_active'', ''gauge'', [([], int (rs_lanes us))]),
      (''rabbithole_turn_udp_queue_packets'', ''gauge'', [([], int (rs_queued us))]),
      (''rabbithole_turn_bond_sessions_active'', ''gauge'', [([], int (brs_sessions bs))]),
      (''rabbithole_turn_bond_lanes_active'', ''gauge'', [([], int (brs_lanes bs))]),
      (''rabbithole_turn_bond_queue_frames'', ''gauge'', [([], int (brs_queued bs))])]"

definition process_families :: "serverMetrics \<Rightarrow> nat \<Rightarrow> resourceMonitor \<Rightarrow> family list" where
  "process_families m goroutines r =
     [(''rabbithole_turn_draining'', ''gauge'', [([], of_bool (m_draining m))]),
      (''rabbithole_turn_drain_total'', ''counter'',
        [([(''result'', ''started'')], uint (m_drainStarted m)), ([(''result'', ''completed'')], uint (m_drainCompleted m)),
         ([(''result'', ''forced'')], uint (m_drainForced m))]),
      (''rabbithole_turn_process_goroutines'', ''gauge'', [([], int goroutines)]),
      (''rabbithole_turn_process_open_fds'', ''gauge'', [([], openFDs r)]),
      (''rabbithole_turn_process_max_fds'', ''gauge'', [([], maxFDs r)])]"

definition info_family :: "string \<Rightarrow> string \<Rightarrow> family" where
  "info_family inst role = (''rabbithole_turn_info'', ''gauge'', [([(''instance'', inst), (''role'', role)], 1)])"

definition family_names :: "family list \<Rightarrow> string set" where
  "family_names fams = fst ` set fams"

lemmas scrape_rules = scrape_value scrape_labelled scrape_help

lemma scrape_info:
  assumes "label_ok inst" and "label_ok role"
  shows "scrape_lines (info_lines inst role @ ls) [] = scrape_lines ls [info_family inst role]"
proof -
  let ?rest = "CHR '' '' # str_Itoa 1"
  let ?s = "''instance='' @ str_Quote inst @ '',role='' @ str_Quote role @ ''} '' @ str_Itoa 1"
  have w: "word_ok ''rabbithole_turn_info''" "word_ok ''gauge''" "word_ok ''instance''" "word_ok ''role''"
    by (simp_all add: word_ok_def newline_def)
  have labels: "scan_labels (Suc (Suc k)) ?s = Some ([(''instance'', inst), (''role'', role)], ?rest)" for k
    using scan_label(2) [OF w(3) assms(1), of "Suc k" "''role='' @ str_Quote role @ ''}'' @ ?rest"]
      scan_label(1) [OF w(4) assms(2), of k ?rest] by simp
  have one: "str_Itoa 1 = ''1''" by code_simp
  have "scan_sample (''rabbithole_turn_info'' @ ''{'' @ ?s) = Some (''rabbithole_turn_info'', [(''instance'', inst), (''role'', role)], 1)"
    unfolding scan_name(2) [OF w(1)] using labels [of "length ''rabbithole_turn_info'' + length ?s - 1"]
    by (simp add: scan_value_def)
  moreover have "info_lines inst role = metricHelp ''rabbithole_turn_info'' ''gauge'' ''Static instance information.'' @
      [''rabbithole_turn_info'' @ ''{'' @ ?s]"
    by (simp add: info_lines_def metricHelp_def one)
  ultimately show ?thesis using scrape_help [OF w(1,2), of "[]" "''Static instance information.''" "[''rabbithole_turn_info'' @ ''{'' @ ?s] @ ls"]
      word_first [OF w(1), of "''{'' @ ?s"]
    by (simp add: info_family_def)
qed

lemmas reason_defs = admissionReasonDrain_def admissionReasonSessions_def admissionReasonHandshakes_def
  admissionReasonGoroutines_def admissionReasonFDs_def

lemma scrape_gate:
  assumes "family_names fams = {''rabbithole_turn_info''}"
  shows "scrape_lines (gate_lines m g @ ls) fams = scrape_lines ls (rev (gate_families m g) @ fams)"
  using assms
  by (simp add: gate_lines_def gate_families_def family_names_def scrape_rules word_ok_def label_ok_def newline_def
      reason_defs del: scrape_lines.simps scrape_line.simps)


lemma scrape_traffic:
  assumes "family_names fams = family_names [info_family inst role] \<union> family_names (gate_families m g)"
  shows "scrape_lines (traffic_lines m us bs @ ls) fams = scrape_lines ls (rev (traffic_families m us bs) @ fams)"
  using assms
  by (simp add: traffic_lines_def traffic_families_def family_names_def gate_families_def info_family_def scrape_rules word_ok_def
      label_ok_def newline_def del: scrape_lines.simps scrape_line.simps)

lemma scrape_process:
  assumes "family_names fams = family_names [info_family inst role] \<union> family_names (gate_families m g) \<union> family_names (traffic_families m us bs)"
  shows "scrape_lines (process_lines m n r @ ls) fams = scrape_lines ls (rev (process_families m n r) @ fams)"
  using assms
  by (simp add: process_lines_def process_families_def fdCounts_def family_names_def gate_families_def traffic_families_def
      info_family_def scrape_rules word_ok_def label_ok_def newline_def del: scrape_lines.simps scrape_line.simps)

lemma metric_lines_ok:
  "newline \<notin> set name \<Longrightarrow> newline \<notin> set kind \<Longrightarrow> newline \<notin> set help \<Longrightarrow> list_all (\<lambda>l. newline \<notin> set l) (metricHelp name kind help)"
  "newline \<notin> set name \<Longrightarrow> list_all (\<lambda>l. newline \<notin> set l) (metricValue name v)"
  "newline \<notin> set name \<Longrightarrow> newline \<notin> set label \<Longrightarrow> list_all (\<lambda>l. newline \<notin> set l) (metricLabelValue name label v' n)"
  using no_newline_Quote no_newline_Itoa
  by (simp_all add: metricHelp_def metricValue_def metricLabelValue_def) (simp_all add: newline_def)

lemma info_lines_ok: "list_all (\<lambda>l. newline \<notin> set l) (info_lines inst role)"
  using no_newline_Quote by (simp add: info_lines_def) (simp add: newline_def)

lemma gate_lines_ok: "list_all (\<lambda>l. newline \<notin> set l) (gate_lines m g)"
  unfolding gate_lines_def list_all_append by (intro conjI metric_lines_ok) (simp_all add: newline_def)

lemma traffic_lines_ok: "list_all (\<lambda>l. newline \<notin> set l) (traffic_lines m us bs)"
  unfolding traffic_lines_def list_all_append by (intro conjI metric_lines_ok) (simp_all add: newline_def)

lemma process_lines_ok: "list_all (\<lambda>l. newline \<notin> set l) (process_lines m n r)"
  unfolding process_lines_def fdCounts_def Let_def prod.case list_all_append if_distrib [of "list_all _"]
  by (cases "m_draining m"; simp only: if_True if_False; intro conjI metric_lines_ok; simp add: newline_def)

section \<open>Properties\<close>

text \<open>C34: Whatever the state of the server is, a scraper that reads the answer of \<open>/metrics\<close> gets exactly its numbers: every
  family once, with its kind, and under it the samples of the counters and gauges with their labels, the name and the role of
  the instance included; no label value can break out of its quotes. (The characters of the instance and the role have to
  be printable or newlines: the other escapes of \<open>%q\<close> are not part of the format.)\<close>

theorem scrape_reads_metrics:
  assumes "label_ok inst" and "label_ok role"
  shows "scrape (writePrometheusMetrics inst role ob) =
    Some (info_family inst role # gate_families (ob_metrics ob) (ob_gate ob) @
      traffic_families (ob_metrics ob) (ob_udp ob) (ob_bond ob) @
      process_families (ob_metrics ob) (ob_goroutines ob) (ob_resources ob))"
proof -
  let ?m = "ob_metrics ob" and ?g = "ob_gate ob" and ?us = "ob_udp ob" and ?bs = "ob_bond ob" and ?r = "ob_resources ob"
  let ?i = "info_family inst role"
  let ?lines = "info_lines inst role @ gate_lines ?m ?g @ traffic_lines ?m ?us ?bs @ process_lines ?m (ob_goroutines ob) ?r"
  have names: "family_names (rev fs @ gs) = family_names fs \<union> family_names gs" for fs gs
    by (simp add: family_names_def image_Un)
  have i: "family_names [?i] = {''rabbithole_turn_info''}" by (simp add: family_names_def info_family_def)
  have split: "str_Split newline (write_lines ?lines) = ?lines @ [[]]"
    by (rule str_Split_lines) (simp add: info_lines_ok gate_lines_ok traffic_lines_ok process_lines_ok)
  have "scrape_lines (?lines @ [[]]) [] = scrape_lines (gate_lines ?m ?g @ traffic_lines ?m ?us ?bs @
      process_lines ?m (ob_goroutines ob) ?r @ [[]]) [?i]"
    using scrape_info [OF assms, of "gate_lines ?m ?g @ traffic_lines ?m ?us ?bs @ process_lines ?m (ob_goroutines ob) ?r @ [[]]"] by simp
  also have "\<dots> = scrape_lines (traffic_lines ?m ?us ?bs @ process_lines ?m (ob_goroutines ob) ?r @ [[]]) (rev (gate_families ?m ?g) @ [?i])"
    by (rule scrape_gate) (simp add: i)
  also have "\<dots> = scrape_lines (process_lines ?m (ob_goroutines ob) ?r @ [[]]) (rev (traffic_families ?m ?us ?bs) @ rev (gate_families ?m ?g) @ [?i])"
    by (rule scrape_traffic [where m = ?m and g = ?g and inst = inst and role = role]) (simp add: names Un_commute)
  also have "\<dots> = scrape_lines [[]] (rev (process_families ?m (ob_goroutines ob) ?r) @ rev (traffic_families ?m ?us ?bs) @ rev (gate_families ?m ?g) @ [?i])"
    by (rule scrape_process [where m = ?m and g = ?g and inst = inst and role = role and us = ?us and bs = ?bs])
      (simp only: names Un_ac)
  finally show ?thesis by (simp add: scrape_def writePrometheusMetrics_def split)
qed

theorem scrape_reads_metrics_witness:
  "scrape (writePrometheusMetrics ''a b'' ''x'' \<lparr>ob_metrics = newServerMetrics\<lparr>m_rejectedDrain := 3\<rparr>,
      ob_gate = newConnectionGate \<lparr>maxSessions = 1, maxHandshakes = 1, maxGoroutines = 1, minFreeFDs = 0, canary = False, canaryMaxSessions = 0\<rparr>,
      ob_udp = \<lparr>rs_sessions = 1, rs_lanes = 2, rs_queued = 0\<rparr>, ob_bond = \<lparr>brs_sessions = 0, brs_lanes = 0, brs_queued = 0\<rparr>,
      ob_goroutines = 7, ob_resources = \<lparr>openFDs = -1, maxFDs = 1024\<rparr>\<rparr>) \<noteq> None"
  by (subst scrape_reads_metrics) (simp_all add: label_ok_def)


end
