(* ===== verification/Packet_Info.thy ===== *)
theory Packet_Info
  imports Turn_Prelude
begin

text \<open>
  The socket of the server on Linux (\<open>server/pktinfo_linux.go\<close>): it remembers to which local address the last datagram
  of each peer came, and sends the answers from there. Addresses of peers are what \<open>UDPAddr.String\<close> gives; an IP address
  is its bytes, the empty one being \<open>nil\<close>.
\<close>

section \<open>State and operations\<close>

type_synonym ip = bytes

record packetInfoUDPConn =
  pi_v6 :: bool
  pi_localIPs :: "string \<Rightarrow> ip option"

text \<open>\<open>IP.To4() != nil\<close>: four bytes, or sixteen with the prefix of a mapped address.\<close>

definition is_v4 :: "ip \<Rightarrow> bool" where
  "is_v4 a \<longleftrightarrow> length a = 4 \<or> (length a = 16 \<and> take 12 a = replicate 10 0 @ [0xff, 0xff])"

text \<open>\<open>laddr\<close> is the address to listen on, its IP being \<open>nil\<close> for any; \<open>listen\<close> and \<open>control\<close> are the errors of the
  operating system. The socket is closed when packet information cannot be switched on.\<close>

datatype socket_state = NoSocket | SocketClosed | SocketOpen packetInfoUDPConn

definition listenPacketInfoUDP :: "ip option \<Rightarrow> string option \<Rightarrow> string option \<Rightarrow> socket_state \<times> string option" where
  "listenPacketInfoUDP laddr listen control =
     (case listen of
        Some e \<Rightarrow> (NoSocket, Some e)
      | None \<Rightarrow>
          (let v6 = (case laddr of None \<Rightarrow> False | Some a \<Rightarrow> a \<noteq> [] \<and> \<not> is_v4 a) in
           case control of
             Some e \<Rightarrow> (SocketClosed, Some ((if v6 then ''enable IPv6 packet info: '' else ''enable IPv4 packet info: '') @ e))
           | None \<Rightarrow> (SocketOpen \<lparr>pi_v6 = v6, pi_localIPs = Map.empty\<rparr>, None)))"

definition rememberLocalIP :: "string \<Rightarrow> ip \<Rightarrow> packetInfoUDPConn \<Rightarrow> packetInfoUDPConn" where
  "rememberLocalIP remote a c = c\<lparr>pi_localIPs := (pi_localIPs c)(remote \<mapsto> a)\<rparr>"

definition localIPFor :: "string \<Rightarrow> packetInfoUDPConn \<Rightarrow> ip option" where
  "localIPFor remote c =
     (case pi_localIPs c remote of
        None \<Rightarrow> None
      | Some a \<Rightarrow> if a = [] then None else Some a)"

text \<open>A datagram: the peer (\<open>None\<close>: not a UDP address), the destination in the control message if there is one, and the
  bytes. An error of the socket changes nothing.\<close>

record datagram =
  dg_peer :: "string option"
  dg_dst :: "ip option"
  dg_data :: bytes

definition pi_ReadFrom :: "(string + datagram) \<Rightarrow> packetInfoUDPConn \<Rightarrow> packetInfoUDPConn \<times> (string + string option \<times> bytes)" where
  "pi_ReadFrom r c =
     (case r of
        Inl e \<Rightarrow> (c, Inl e)
      | Inr d \<Rightarrow>
          (case (dg_peer d, dg_dst d) of
             (Some peer, Some dst) \<Rightarrow> rememberLocalIP peer dst c
           | _ \<Rightarrow> c,
           Inr (dg_peer d, dg_data d)))"

datatype out_route = PlainSocket | FromIPv4 ip | FromIPv6 ip

definition pi_WriteTo :: "string option \<Rightarrow> packetInfoUDPConn \<Rightarrow> string + out_route" where
  "pi_WriteTo addr c =
     (case addr of
        None \<Rightarrow> Inl ''packet info write: expected *net.UDPAddr''
      | Some remote \<Rightarrow>
          (case localIPFor remote c of
             None \<Rightarrow> Inr PlainSocket
           | Some a \<Rightarrow> if is_v4 a then Inr (FromIPv4 a) else Inr (FromIPv6 a)))"

section \<open>Properties\<close>

definition read_all :: "(string + datagram) list \<Rightarrow> packetInfoUDPConn \<Rightarrow> packetInfoUDPConn" where
  "read_all rs c = fold (\<lambda>r c. fst (pi_ReadFrom r c)) rs c"

text \<open>The destinations of the datagrams of a peer, in the order of their arrival.\<close>

definition destinations :: "string \<Rightarrow> (string + datagram) list \<Rightarrow> ip list" where
  "destinations peer rs =
     concat (map (\<lambda>r. case r of Inl _ \<Rightarrow> []
                       | Inr d \<Rightarrow> (case dg_dst d of Some a \<Rightarrow> if dg_peer d = Some peer then [a] else [] | None \<Rightarrow> [])) rs)"

lemma read_all_snoc: "read_all (rs @ [r]) c = fst (pi_ReadFrom r (read_all rs c))"
  by (simp add: read_all_def)

lemma localIPs_read_all:
  "pi_localIPs (read_all rs c) peer = (if destinations peer rs = [] then pi_localIPs c peer else Some (last (destinations peer rs)))"
proof (induction rs rule: rev_induct)
  case Nil
  then show ?case by (simp add: read_all_def destinations_def)
next
  case (snoc r rs)
  have d: "destinations peer (rs @ [r]) = destinations peer rs @ destinations peer [r]" by (simp add: destinations_def)
  show ?case using snoc unfolding read_all_snoc d
    by (cases r) (auto simp: pi_ReadFrom_def rememberLocalIP_def destinations_def split: option.splits)
qed

text \<open>C35: An answer to a peer leaves from the local address to which the last datagram of this peer came, whatever the other
  peers send, over IPv4 or IPv6 according to that address; to a peer that has sent nothing the socket chooses. Nothing but a
  datagram of the peer changes this, and the answer is only refused for an address that is none of UDP.\<close>

theorem reply_leaves_where_asked:
  assumes "listenPacketInfoUDP laddr listen control = (SocketOpen c, e)"
  shows "pi_WriteTo (Some peer) (read_all rs c) =
      Inr (if destinations peer rs = [] \<or> last (destinations peer rs) = [] then PlainSocket
           else if is_v4 (last (destinations peer rs)) then FromIPv4 (last (destinations peer rs))
           else FromIPv6 (last (destinations peer rs))) \<and>
    (\<exists>e. pi_WriteTo None (read_all rs c) = Inl e)"
proof -
  have "pi_localIPs c = Map.empty"
    using assms by (auto simp: listenPacketInfoUDP_def Let_def split: option.splits)
  then show ?thesis by (simp add: pi_WriteTo_def localIPFor_def localIPs_read_all)
qed

theorem reply_leaves_where_asked_witness:
  "pi_WriteTo (Some ''a'') (read_all [Inr \<lparr>dg_peer = Some ''a'', dg_dst = Some [10, 0, 0, 1], dg_data = [1]\<rparr>,
      Inr \<lparr>dg_peer = Some ''b'', dg_dst = Some [10, 0, 0, 2], dg_data = [1]\<rparr>] \<lparr>pi_v6 = False, pi_localIPs = Map.empty\<rparr>)
   = Inr (FromIPv4 [10, 0, 0, 1])"
proof -
  have "listenPacketInfoUDP None None None = (SocketOpen \<lparr>pi_v6 = False, pi_localIPs = Map.empty\<rparr>, None)"
    by (simp add: listenPacketInfoUDP_def)
  from reply_leaves_where_asked [OF this] show ?thesis by (simp add: destinations_def is_v4_def)
qed

end
