(* ===== verification/Kcp_Profile.thy ===== *)
theory Kcp_Profile
  imports Go_Text "HOL-Library.Sublist"
begin

text \<open>
  The KCP transport over DTLS (\<open>tcputil/tcputil.go\<close>), shared by both ends: the parameters from the environment variables,
  the adapter from a connection to a packet connection, and the steps of \<open>NewKCPOverDTLS\<close>. The environment is a
  function from names to values, \<open>[]\<close> for a variable that is not set; the KCP library is a parameter that tells which of its
  calls fail.
\<close>

section \<open>Parameters\<close>

record kcpProfile =
  kp_nodelay :: int
  kp_interval :: int
  kp_resend :: int
  kp_nc :: int
  kp_sndWnd :: int
  kp_rcvWnd :: int
  kp_mtu :: int
  kp_ackNoDelay :: bool

definition profile_fast :: kcpProfile where
  "profile_fast = \<lparr>kp_nodelay = 1, kp_interval = 10, kp_resend = 2, kp_nc = 1, kp_sndWnd = 4096, kp_rcvWnd = 4096,
     kp_mtu = 1280, kp_ackNoDelay = True\<rparr>"

definition profile_balanced :: kcpProfile where
  "profile_balanced = \<lparr>kp_nodelay = 1, kp_interval = 20, kp_resend = 2, kp_nc = 0, kp_sndWnd = 512, kp_rcvWnd = 512,
     kp_mtu = 1200, kp_ackNoDelay = True\<rparr>"

definition profile_slow :: kcpProfile where
  "profile_slow = \<lparr>kp_nodelay = 0, kp_interval = 40, kp_resend = 2, kp_nc = 0, kp_sndWnd = 256, kp_rcvWnd = 256,
     kp_mtu = 1150, kp_ackNoDelay = False\<rparr>"

definition profile_default :: kcpProfile where
  "profile_default = \<lparr>kp_nodelay = 1, kp_interval = 20, kp_resend = 2, kp_nc = 1, kp_sndWnd = 512, kp_rcvWnd = 512,
     kp_mtu = 1200, kp_ackNoDelay = True\<rparr>"

definition base_profile :: "string \<Rightarrow> kcpProfile" where
  "base_profile name =
     (if name = ''legacy'' \<or> name = ''fast'' then profile_fast
      else if name = ''cc'' \<or> name = ''balanced'' then profile_balanced
      else if name = ''slow'' \<or> name = ''conservative'' then profile_slow
      else profile_default)"

definition envInt :: "(string \<Rightarrow> string) \<Rightarrow> string \<Rightarrow> int \<Rightarrow> int" where
  "envInt env name fallback =
     (let raw = str_TrimSpace (env name) in
      if raw = [] then fallback
      else case str_ParseInt raw of None \<Rightarrow> fallback | Some value \<Rightarrow> value)"

definition envBool :: "(string \<Rightarrow> string) \<Rightarrow> string \<Rightarrow> bool \<Rightarrow> bool" where
  "envBool env name fallback =
     (let raw = str_ToLower (str_TrimSpace (env name)) in
      if raw \<in> {''1'', ''true'', ''yes'', ''on''} then True
      else if raw \<in> {''0'', ''false'', ''no'', ''off''} then False
      else fallback)"

definition selectedKCPProfile :: "(string \<Rightarrow> string) \<Rightarrow> kcpProfile" where
  "selectedKCPProfile env =
     (let cfg = base_profile (str_ToLower (str_TrimSpace (env ''VK_TURN_KCP_PROFILE'')));
          cfg = cfg\<lparr>kp_nodelay := envInt env ''VK_TURN_KCP_NODELAY'' (kp_nodelay cfg)\<rparr>;
          cfg = cfg\<lparr>kp_interval := envInt env ''VK_TURN_KCP_INTERVAL'' (kp_interval cfg)\<rparr>;
          cfg = cfg\<lparr>kp_resend := envInt env ''VK_TURN_KCP_RESEND'' (kp_resend cfg)\<rparr>;
          cfg = cfg\<lparr>kp_nc := envInt env ''VK_TURN_KCP_NC'' (kp_nc cfg)\<rparr>;
          cfg = cfg\<lparr>kp_sndWnd := envInt env ''VK_TURN_KCP_SNDWND'' (kp_sndWnd cfg)\<rparr>;
          cfg = cfg\<lparr>kp_rcvWnd := envInt env ''VK_TURN_KCP_RCVWND'' (kp_rcvWnd cfg)\<rparr>;
          cfg = cfg\<lparr>kp_mtu := envInt env ''VK_TURN_KCP_MTU'' (kp_mtu cfg)\<rparr>
      in cfg\<lparr>kp_ackNoDelay := envBool env ''VK_TURN_KCP_ACK_NODELAY'' (kp_ackNoDelay cfg)\<rparr>)"

section \<open>Setting up a session\<close>

text \<open>The calls of the KCP library and what they answer: \<open>Some e\<close> is an error. The server listens on the connection and
  accepts one session within 30 seconds, the client dials.\<close>

record kcp_env =
  ke_block :: "string option"
  ke_serve :: "string option"
  ke_deadline :: "string option"
  ke_accept :: "string option"
  ke_dial :: "string option"

datatype kcp_call = NewBlock | ServeConn | ListenerDeadline nat | AcceptKCP | DialConn
  | SetNoDelay int int int int | SetWindowSize int int | SetMtu int | SetACKNoDelay bool

definition kcp_do :: "kcp_call \<Rightarrow> string option \<Rightarrow> kcp_call list \<Rightarrow> kcp_call list \<times> (string + unit)" where
  "kcp_do call answer log = (log @ [call], case answer of Some e \<Rightarrow> Inl e | None \<Rightarrow> Inr ())"

definition kcp_then :: "kcp_call list \<times> (string + unit) \<Rightarrow> (kcp_call list \<Rightarrow> kcp_call list \<times> (string + unit)) \<Rightarrow> kcp_call list \<times> (string + unit)" where
  "kcp_then r f = (case r of (log, Inl e) \<Rightarrow> (log, Inl e) | (log, Inr _) \<Rightarrow> f log)"

definition configure_kcp :: "kcpProfile \<Rightarrow> kcp_call list" where
  "configure_kcp p =
     [SetNoDelay (kp_nodelay p) (kp_interval p) (kp_resend p) (kp_nc p), SetWindowSize (kp_sndWnd p) (kp_rcvWnd p),
      SetMtu (kp_mtu p), SetACKNoDelay (kp_ackNoDelay p)]"

definition NewKCPOverDTLS :: "kcp_env \<Rightarrow> (string \<Rightarrow> string) \<Rightarrow> bool \<Rightarrow> kcp_call list \<times> (string + unit)" where
  "NewKCPOverDTLS E env isServer =
     kcp_then
       (kcp_then (kcp_do NewBlock (ke_block E) [])
         (if isServer
          then (\<lambda>log. kcp_then (kcp_then (kcp_do ServeConn (ke_serve E) log) (kcp_do (ListenerDeadline 30) (ke_deadline E)))
                 (kcp_do AcceptKCP (ke_accept E)))
          else kcp_do DialConn (ke_dial E)))
       (\<lambda>log. (log @ configure_kcp (selectedKCPProfile env), Inr ()))"

text \<open>The limits of the smux sessions: bytes a session and a stream may buffer, seconds between and until keep-alives.\<close>

record smux_config =
  sm_MaxReceiveBuffer :: nat
  sm_MaxStreamBuffer :: nat
  sm_KeepAliveInterval :: nat
  sm_KeepAliveTimeout :: nat

definition DefaultSmuxConfig :: smux_config where
  "DefaultSmuxConfig = \<lparr>sm_MaxReceiveBuffer = 4 * 1024 * 1024, sm_MaxStreamBuffer = 1 * 1024 * 1024,
     sm_KeepAliveInterval = 10, sm_KeepAliveTimeout = 30\<rparr>"

section \<open>Properties\<close>

lemma selected_fields:
  "selectedKCPProfile env =
     (let base = base_profile (str_ToLower (str_TrimSpace (env ''VK_TURN_KCP_PROFILE''))) in
      \<lparr>kp_nodelay = envInt env ''VK_TURN_KCP_NODELAY'' (kp_nodelay base),
       kp_interval = envInt env ''VK_TURN_KCP_INTERVAL'' (kp_interval base),
       kp_resend = envInt env ''VK_TURN_KCP_RESEND'' (kp_resend base),
       kp_nc = envInt env ''VK_TURN_KCP_NC'' (kp_nc base),
       kp_sndWnd = envInt env ''VK_TURN_KCP_SNDWND'' (kp_sndWnd base),
       kp_rcvWnd = envInt env ''VK_TURN_KCP_RCVWND'' (kp_rcvWnd base),
       kp_mtu = envInt env ''VK_TURN_KCP_MTU'' (kp_mtu base),
       kp_ackNoDelay = envBool env ''VK_TURN_KCP_ACK_NODELAY'' (kp_ackNoDelay base)\<rparr>)"
  by (simp add: selectedKCPProfile_def Let_def)

lemma envInt_range: "in_int64 d \<Longrightarrow> in_int64 (envInt env name d)"
  by (auto simp: envInt_def Let_def split: option.split dest: str_ParseInt_range)

lemma base_profile_cases: "base_profile name \<in> {profile_fast, profile_balanced, profile_slow, profile_default}"
  by (simp add: base_profile_def)

text \<open>A session is configured exactly once, after it exists, with the parameters of the environment; when a call fails,
  nothing after it happens, and the error is that of the call.\<close>

lemma kcp_setup:
  assumes "NewKCPOverDTLS E env isServer = (log, res)"
  shows "case res of
      Inr _ \<Rightarrow> log = (if isServer then [NewBlock, ServeConn, ListenerDeadline 30, AcceptKCP] else [NewBlock, DialConn]) @
        configure_kcp (selectedKCPProfile env)
    | Inl e \<Rightarrow> Some e \<in> {ke_block E, ke_serve E, ke_deadline E, ke_accept E, ke_dial E} \<and>
        set log \<inter> set (configure_kcp p) = {} \<and>
        prefix log (if isServer then [NewBlock, ServeConn, ListenerDeadline 30, AcceptKCP] else [NewBlock, DialConn])"
  using assms
  by (cases isServer)
    (auto simp: NewKCPOverDTLS_def kcp_then_def kcp_do_def configure_kcp_def split: option.splits)

text \<open>Whatever the variables are, the parameters are numbers of 64 bits.\<close>

lemma kcp_parameters_range:
  "in_int64 (kp_mtu (selectedKCPProfile env)) \<and> in_int64 (kp_sndWnd (selectedKCPProfile env)) \<and>
   in_int64 (kp_rcvWnd (selectedKCPProfile env)) \<and> in_int64 (kp_interval (selectedKCPProfile env))"
proof -
  have "in_int64 (kp_mtu b) \<and> in_int64 (kp_sndWnd b) \<and> in_int64 (kp_rcvWnd b) \<and> in_int64 (kp_interval b)"
    if "b \<in> {profile_fast, profile_balanced, profile_slow, profile_default}" for b
    using that by (auto simp: in_int64_def profile_fast_def profile_balanced_def profile_slow_def profile_default_def)
  from this [OF base_profile_cases] show ?thesis by (simp add: selected_fields Let_def envInt_range)
qed

end
