(* ===== verification/Captcha_Proxy.thy ===== *)
theory Captcha_Proxy
  imports Client_Run Captcha_Session
begin

text \<open>
  The manual captcha of the client (\<open>pkg/clientcore/manual_captcha.go\<close>): a local web server through which a person
  solves the captcha in a browser. It proxies the pages of the service and rewrites redirects, cookies, headers and the
  URLs in the pages so that the browser stays on the proxy, and it waits for the token. Parsing and printing of URLs, the
  regular expressions, gzip and JSON are parameters; a regular expression is given by the pieces into which it cuts a
  text. The script that is put into the pages is a parameter too.
\<close>

section \<open>Addresses\<close>

definition captchaListenPort :: string where "captchaListenPort = ''8765''"

definition localCaptchaHost :: "string \<Rightarrow> string" where
  "localCaptchaHost custom = (if custom \<noteq> [] then custom else ''localhost:'' @ captchaListenPort)"

definition appendUniqueFold :: "string list \<Rightarrow> string \<Rightarrow> string list" where
  "appendUniqueFold values value' = (if list_ex (\<lambda>e. str_EqualFold e value') values then values else values @ [value'])"

definition localCaptchaListenAddrs :: "string \<Rightarrow> string list" where
  "localCaptchaListenAddrs custom =
     (let addrs = [''127.0.0.1:'' @ captchaListenPort, ''[::1]:'' @ captchaListenPort]
      in if custom \<noteq> [] then appendUniqueFold addrs custom else addrs)"

definition localCaptchaHosts :: "string \<Rightarrow> string list" where
  "localCaptchaHosts custom =
     (let hosts = [''localhost:'' @ captchaListenPort, ''127.0.0.1:'' @ captchaListenPort, ''[::1]:'' @ captchaListenPort]
      in if custom \<noteq> [] then appendUniqueFold hosts custom else hosts)"

definition isLocalCaptchaHost :: "string \<Rightarrow> string \<Rightarrow> bool" where
  "isLocalCaptchaHost custom host = list_ex (\<lambda>h. str_EqualFold host h) (localCaptchaHosts custom)"

section \<open>URLs\<close>

text \<open>\<open>u_other\<close> stands for the parts that the code never looks at. \<open>ul_Parse\<close> and \<open>ul_String\<close> are \<open>url.Parse\<close> and
  \<open>URL.String\<close>.\<close>

record url =
  u_Scheme :: string
  u_Host :: string
  u_Path :: string
  u_RawPath :: string
  u_RawQuery :: string
  u_other :: string

record url_lib =
  ul_Parse :: "string \<Rightarrow> string + url"
  ul_String :: "url \<Rightarrow> string"

definition local_url :: "string \<Rightarrow> url" where
  "local_url custom = \<lparr>u_Scheme = ''http'', u_Host = localCaptchaHost custom, u_Path = [], u_RawPath = [], u_RawQuery = [], u_other = []\<rparr>"

definition localCaptchaOrigin :: "url_lib \<Rightarrow> string \<Rightarrow> string" where
  "localCaptchaOrigin L custom = ul_String L (local_url custom)"

definition localCaptchaURLForTarget :: "url_lib \<Rightarrow> string \<Rightarrow> url \<Rightarrow> string" where
  "localCaptchaURLForTarget L custom target =
     ul_String L ((local_url custom)\<lparr>u_Path := (if u_Path target = [] then ''/'' else u_Path target),
        u_RawPath := u_RawPath target, u_RawQuery := u_RawQuery target\<rparr>)"

definition targetOrigin :: "url \<Rightarrow> string" where
  "targetOrigin target = u_Scheme target @ ''://'' @ u_Host target"

definition isSafeLocalRedirectPath :: "string \<Rightarrow> bool" where
  "isSafeLocalRedirectPath raw =
     (case raw of
        [] \<Rightarrow> False
      | c # s \<Rightarrow> c = CHR ''/'' \<and> (case s of [] \<Rightarrow> True | d # _ \<Rightarrow> d \<noteq> CHR ''/'' \<and> d \<noteq> CHR 0x5C))"

definition rewriteProxyRedirectLocation :: "url_lib \<Rightarrow> string \<Rightarrow> string \<Rightarrow> url \<Rightarrow> string option" where
  "rewriteProxyRedirectLocation L custom raw target =
     (if isSafeLocalRedirectPath raw then Some raw
      else case ul_Parse L raw of
        Inl e \<Rightarrow> None
      | Inr parsed \<Rightarrow>
          if \<not> str_EqualFold (u_Scheme parsed) (u_Scheme target) \<or> \<not> str_EqualFold (u_Host parsed) (u_Host target) then None
          else Some (localCaptchaURLForTarget L custom parsed))"

definition rewriteProxyHeaderURL :: "url_lib \<Rightarrow> string \<Rightarrow> string \<Rightarrow> url \<Rightarrow> string" where
  "rewriteProxyHeaderURL L custom raw target =
     (if raw = [] then raw
      else case ul_Parse L raw of
        Inl e \<Rightarrow> raw
      | Inr parsed \<Rightarrow>
          if u_Scheme parsed \<noteq> ''http'' \<or> \<not> isLocalCaptchaHost custom (u_Host parsed) then raw
          else ul_String L (parsed\<lparr>u_Scheme := u_Scheme target, u_Host := u_Host target\<rparr>))"

section \<open>Requests\<close>

text \<open>A header gives the first value of a name, \<open>[]\<close> if there is none.\<close>

type_synonym header = "string \<Rightarrow> string"

definition hd_del :: "string \<Rightarrow> header \<Rightarrow> header" where
  "hd_del name h = h(name := [])"

definition hd_set :: "string \<Rightarrow> string \<Rightarrow> header \<Rightarrow> header" where
  "hd_set name v h = h(name := v)"

record proxied_request =
  pr_url :: url
  pr_Host :: string
  pr_header :: header

definition rewrite_header_url :: "url_lib \<Rightarrow> string \<Rightarrow> url \<Rightarrow> string \<Rightarrow> header \<Rightarrow> header" where
  "rewrite_header_url L custom target name h =
     (let rewritten = rewriteProxyHeaderURL L custom (h name) target
      in if rewritten \<noteq> [] then hd_set name rewritten h else hd_del name h)"

definition rewriteProxyRequest :: "url_lib \<Rightarrow> string \<Rightarrow> url \<Rightarrow> proxied_request \<Rightarrow> proxied_request" where
  "rewriteProxyRequest L custom target req =
     (let u = (pr_url req)\<lparr>u_Scheme := u_Scheme target, u_Host := u_Host target\<rparr>;
          u = (if u_Path u = [] then u\<lparr>u_Path := u_Path target\<rparr> else u);
          h = hd_del ''TE'' (hd_del ''Accept-Encoding'' (pr_header req))
      in req\<lparr>pr_url := u, pr_Host := u_Host target,
             pr_header := rewrite_header_url L custom target ''Referer'' (rewrite_header_url L custom target ''Origin'' h)\<rparr>)"

section \<open>Pages\<close>

definition rewrite_url :: "string \<Rightarrow> url \<Rightarrow> string \<Rightarrow> string" where
  "rewrite_url localOrigin target rawURL =
     (let upstream = targetOrigin target;
          absURL = (if str_HasPrefix rawURL ''//'' then u_Scheme target @ '':'' @ rawURL else rawURL)
      in if str_HasPrefix absURL upstream then localOrigin @ drop (length upstream) absURL
         else if str_HasPrefix absURL localOrigin then rawURL
         else ''/generic_proxy?proxy_url='' @ str_QueryEscape absURL)"

text \<open>How a regular expression cuts a text: what lies between the matches, and the groups of a match. The expressions for
  scripts and styles have three groups that make up the match; those for attributes have the name with the equals sign and
  the URL, with a quote on both sides of it.\<close>

datatype piece = Between string | Matched string string string

fun hide_contents :: "piece list \<Rightarrow> (string \<times> string) list \<Rightarrow> string \<times> (string \<times> string) list" where
  "hide_contents [] ph = ([], ph)"
| "hide_contents (Between t # ps) ph = (let (html, ph') = hide_contents ps ph in (t @ html, ph'))"
| "hide_contents (Matched opening body closing # ps) ph =
     (let marker = ''@@CONTENT_'' @ str_Itoa (int (length ph)) @ ''@@'';
          (html, ph') = hide_contents ps (ph @ [(marker, body)])
      in (opening @ marker @ closing @ html, ph'))"

definition rewrite_attrs :: "char \<Rightarrow> (string \<Rightarrow> string) \<Rightarrow> piece list \<Rightarrow> string" where
  "rewrite_attrs quot rewrite ps =
     concat (map (\<lambda>p. case p of Between t \<Rightarrow> t | Matched attr u _ \<Rightarrow> attr @ [quot] @ rewrite u @ [quot]) ps)"

record html_regexps =
  rx_script :: "string \<Rightarrow> piece list"
  rx_style :: "string \<Rightarrow> piece list"
  rx_double :: "string \<Rightarrow> piece list"
  rx_single :: "string \<Rightarrow> piece list"

text \<open>The placeholders are a Go map, whose order of iteration is up to the runtime: \<open>order\<close> permutes them.\<close>

definition restore_contents :: "(string \<times> string) list \<Rightarrow> string \<Rightarrow> string" where
  "restore_contents ph html = fold (\<lambda>(marker, body) h. str_ReplaceFirst h marker body) ph html"

definition rewriteHTMLAttrsServerSide ::
  "html_regexps \<Rightarrow> ((string \<times> string) list \<Rightarrow> (string \<times> string) list) \<Rightarrow> string \<Rightarrow> url \<Rightarrow> string \<Rightarrow> string" where
  "rewriteHTMLAttrsServerSide R order localOrigin target html =
     (let (html, ph) = hide_contents (rx_script R html) [];
          (html, ph) = hide_contents (rx_style R html) ph;
          html = rewrite_attrs CHR 0x22 (rewrite_url localOrigin target) (rx_double R html);
          html = rewrite_attrs CHR 0x27 (rewrite_url localOrigin target) (rx_single R html)
      in restore_contents (order ph) html)"

definition rewriteCaptchaHTML ::
  "html_regexps \<Rightarrow> ((string \<times> string) list \<Rightarrow> (string \<times> string) list) \<Rightarrow> string \<Rightarrow> url \<Rightarrow> string \<Rightarrow> string \<Rightarrow> string" where
  "rewriteCaptchaHTML R order localOrigin target script html =
     (let html = str_ReplaceAll html (targetOrigin target) localOrigin;
          html = rewriteHTMLAttrsServerSide R order localOrigin target html
      in if str_Contains html ''<head>'' then str_ReplaceFirst html ''<head>'' (''<head>'' @ script)
         else if str_Contains html ''</head>'' then str_ReplaceFirst html ''</head>'' (script @ ''</head>'')
         else if str_Contains html ''</body>'' then str_ReplaceFirst html ''</body>'' (script @ ''</body>'')
         else html @ script)"

section \<open>Responses\<close>

datatype same_site = SameSiteUnset | SameSiteDefault | SameSiteLax | SameSiteStrict | SameSiteNone

record cookie =
  ck_pair :: string
  ck_Domain :: string
  ck_Secure :: bool
  ck_Partitioned :: bool
  ck_SameSite :: same_site

text \<open>Cookies that cannot be parsed are dropped with the old header; without any that can be parsed it stays.\<close>

definition rewrite_cookie :: "cookie \<Rightarrow> cookie" where
  "rewrite_cookie c =
     c\<lparr>ck_Domain := [], ck_Secure := False, ck_Partitioned := False,
       ck_SameSite := (if ck_SameSite c = SameSiteNone \<or> ck_SameSite c = SameSiteStrict then SameSiteLax else ck_SameSite c)\<rparr>"

text \<open>The body: \<open>None\<close> if reading it fails. \<open>gunzip\<close> tells what becomes of a compressed body: the header of the format is
  wrong and some bytes are gone from the body, the rest cannot be read, or the contents.\<close>

datatype gunzipped = NotGzip nat | BrokenGzip | Gunzipped string

record proxied_response =
  ps_status :: nat
  ps_path :: string
  ps_cookies :: "cookie list"
  ps_header :: header
  ps_body :: "string option"

record proxy_env =
  px_url :: url_lib
  px_rx :: html_regexps
  px_order :: "(string \<times> string) list \<Rightarrow> (string \<times> string) list"
  px_gunzip :: "string \<Rightarrow> gunzipped"
  px_token :: "string \<Rightarrow> string"
  px_script :: "string \<Rightarrow> string \<Rightarrow> string"
  px_custom :: string

definition blocking_headers :: "string list" where
  "blocking_headers =
     [''Content-Security-Policy'', ''Content-Security-Policy-Report-Only'', ''X-Content-Security-Policy'', ''X-WebKit-CSP'',
      ''Cross-Origin-Opener-Policy'', ''Cross-Origin-Embedder-Policy'', ''Cross-Origin-Resource-Policy'',
      ''X-Frame-Options'', ''Strict-Transport-Security'']"

definition del_all :: "string list \<Rightarrow> header \<Rightarrow> header" where
  "del_all names h = fold hd_del names h"

definition rewrite_location :: "proxy_env \<Rightarrow> url \<Rightarrow> proxied_response \<Rightarrow> proxied_response" where
  "rewrite_location E target r =
     (let loc = ps_header r ''Location'' in
      if 300 \<le> ps_status r \<and> ps_status r < 400 \<and> loc \<noteq> []
      then r\<lparr>ps_header := (case rewriteProxyRedirectLocation (px_url E) (px_custom E) loc target of
               Some rewritten \<Rightarrow> hd_set ''Location'' rewritten (ps_header r)
             | None \<Rightarrow> hd_del ''Location'' (ps_header r))\<rparr>
      else r)"

definition is_html :: "proxied_response \<Rightarrow> bool" where
  "is_html r = str_Contains (ps_header r ''Content-Type'') ''text/html''"

definition is_check :: "proxied_response \<Rightarrow> bool" where
  "is_check r = str_Contains (ps_path r) ''captchaNotRobot.check''"

definition read_body :: "proxy_env \<Rightarrow> proxied_response \<Rightarrow> string option" where
  "read_body E r =
     (case ps_body r of
        None \<Rightarrow> None
      | Some raw \<Rightarrow>
          if ps_header r ''Content-Encoding'' = ''gzip''
          then (case px_gunzip E raw of NotGzip k \<Rightarrow> Some (drop k raw) | BrokenGzip \<Rightarrow> None | Gunzipped s \<Rightarrow> Some s)
          else Some raw)"

text \<open>\<open>notifyKey\<close> on the channel of capacity one.\<close>

definition notifyKey :: "string \<Rightarrow> string list \<Rightarrow> string list" where
  "notifyKey key ch = (if key = [] then ch else case try_send 1 ch key of Some q \<Rightarrow> q | None \<Rightarrow> ch)"

definition set_body :: "string \<Rightarrow> proxied_response \<Rightarrow> proxied_response" where
  "set_body body r = r\<lparr>ps_body := Some body, ps_header := hd_set ''Content-Length'' (str_Itoa (int (length body))) (ps_header r)\<rparr>"

definition rewrite_page :: "proxy_env \<Rightarrow> url \<Rightarrow> string \<Rightarrow> string" where
  "rewrite_page E target body =
     (let origin = localCaptchaOrigin (px_url E) (px_custom E)
      in rewriteCaptchaHTML (px_rx E) (px_order E) origin target (px_script E origin (targetOrigin target)) body)"

text \<open>\<open>ModifyResponse\<close> of the main proxy: \<open>None\<close> is an error, for which the proxy answers 502.\<close>

definition modify_response :: "proxy_env \<Rightarrow> url \<Rightarrow> proxied_response \<Rightarrow> string list \<Rightarrow> proxied_response option \<times> string list" where
  "modify_response E target r0 ch =
     (let r = rewrite_location E target (r0\<lparr>ps_cookies := map rewrite_cookie (ps_cookies r0)\<rparr>) in
      if \<not> (is_html r \<or> str_Contains (ps_header r ''Content-Type'') ''application/xhtml+xml'' \<or> is_check r) then (Some r, ch)
      else case read_body E r of
        None \<Rightarrow> (None, ch)
      | Some body \<Rightarrow>
          (let ch' = (if is_check r then notifyKey (px_token E body) ch else ch)
           in if is_html r
              then (Some (set_body (rewrite_page E target body)
                      (r\<lparr>ps_header := hd_del ''Content-Encoding'' (del_all (blocking_headers @ [''Alt-Svc'']) (ps_header r))\<rparr>)), ch')
              else (Some (set_body body r), ch')))"

text \<open>The proxy for resources of other hosts; a check that goes through it is recognised by its URL.\<close>

definition generic_target :: "url_lib \<Rightarrow> string \<Rightarrow> url option" where
  "generic_target L proxy_url =
     (case ul_Parse L proxy_url of Inl e \<Rightarrow> None | Inr u \<Rightarrow> if u_Host u = [] then None else Some u)"

definition generic_request :: "url_lib \<Rightarrow> string \<Rightarrow> url \<Rightarrow> proxied_request \<Rightarrow> proxied_request" where
  "generic_request L custom target req =
     rewriteProxyRequest L custom target
       (req\<lparr>pr_url := (pr_url req)\<lparr>u_Path := u_Path target, u_RawQuery := u_RawQuery target\<rparr>\<rparr>)"

definition generic_response :: "proxy_env \<Rightarrow> string \<Rightarrow> proxied_response \<Rightarrow> string list \<Rightarrow> proxied_response \<times> string list" where
  "generic_response E proxy_url r ch =
     (let r = r\<lparr>ps_header := hd_set ''Access-Control-Allow-Origin'' ''*'' (del_all blocking_headers (ps_header r))\<rparr>
      in case (str_Contains proxy_url ''captchaNotRobot.check'', ps_body r) of
           (True, Some body) \<Rightarrow> (set_body body r, notifyKey (px_token E body) ch)
         | _ \<Rightarrow> (r, ch))"

text \<open>The root page goes to the page of the captcha.\<close>

definition root_redirect :: "url_lib \<Rightarrow> string \<Rightarrow> url \<Rightarrow> string \<Rightarrow> string \<Rightarrow> string option" where
  "root_redirect L custom target path rawQuery =
     (if path = ''/'' \<and> u_Path target \<noteq> [] \<and> u_Path target \<noteq> ''/'' \<and> rawQuery = []
      then Some (localCaptchaURLForTarget L custom target) else None)"

section \<open>The local server\<close>

text \<open>All addresses are tried; \<open>listen\<close> gives the errors. What has been opened stays open even when an error is returned.\<close>

fun listen_loop :: "string \<Rightarrow> (string \<Rightarrow> string option) \<Rightarrow> string list \<Rightarrow> string list \<times> string list \<times> string" where
  "listen_loop custom listen [] = ([], [], [])"
| "listen_loop custom listen (addr # addrs) =
     (let (listening, errs, customErr) = listen_loop custom listen addrs in
      case listen addr of
        None \<Rightarrow> (addr # listening, errs, customErr)
      | Some e \<Rightarrow>
          (let msg = addr @ '' ('' @ e @ '')'' in
           (listening, msg # errs,
            if customErr = [] \<and> custom \<noteq> [] \<and> str_EqualFold addr custom then msg else customErr)))"

definition startCaptchaServer :: "string \<Rightarrow> (string \<Rightarrow> string option) \<Rightarrow> string list \<times> string option" where
  "startCaptchaServer custom listen =
     (let (listening, errs, customErr) = listen_loop custom listen (localCaptchaListenAddrs custom)
      in (listening,
          if customErr \<noteq> [] then Some (''captcha listener failed: '' @ customErr)
          else if listening \<noteq> [] then None
          else Some (''captcha listeners failed: '' @ str_Join errs ''; '')))"

text \<open>What the browser sends: the code typed into the form for a picture, a token posted by the script, the answer to a check.
  \<open>runCaptchaServerAndWait\<close> returns the first key; \<open>None\<close>: it waits on.\<close>

definition runCaptchaServerAndWait :: "string \<Rightarrow> (string \<Rightarrow> string option) \<Rightarrow> string list \<Rightarrow> string + string option" where
  "runCaptchaServerAndWait custom listen keys =
     (case snd (startCaptchaServer custom listen) of
        Some e \<Rightarrow> Inl e
      | None \<Rightarrow> Inr (case fold notifyKey keys [] of [] \<Rightarrow> None | key # _ \<Rightarrow> Some key))"

text \<open>The profile of the browser is saved from a request that has a device and a fingerprint; \<open>form\<close> gives the fields of the
  body.\<close>

definition captured_profile :: "string \<Rightarrow> header \<Rightarrow> (string \<Rightarrow> string) option \<Rightarrow> saved_profile option" where
  "captured_profile path h form =
     (case form of
        None \<Rightarrow> None
      | Some f \<Rightarrow>
          if (str_Contains path ''captchaNotRobot.check'' \<or> str_Contains path ''captchaNotRobot.componentDone'')
             \<and> f ''device'' \<noteq> [] \<and> f ''browser_fp'' \<noteq> []
          then Some \<lparr>sp_UserAgent = h ''User-Agent'', sp_DeviceJSON = f ''device'', sp_BrowserFp = f ''browser_fp''\<rparr>
          else None)"

section \<open>The browser\<close>

datatype browserCommand = Command string "string list"

definition browserOpenCommands :: "string \<Rightarrow> string \<Rightarrow> browserCommand list" where
  "browserOpenCommands goos url' =
     (let view = [''start'', ''-a'', ''android.intent.action.VIEW'', ''-d'', url'] in
      if goos = ''windows'' then
        [Command ''rundll32'' [''url.dll,FileProtocolHandler'', url'], Command ''cmd'' [''/c'', ''start'', [], url']]
      else if goos = ''darwin'' then [Command ''open'' [url']]
      else if goos = ''linux'' then [Command ''xdg-open'' [url'], Command ''gio'' [''open'', url']]
      else if goos = ''android'' then
        [Command ''termux-open-url'' [url'], Command ''/system/bin/am'' view, Command ''am'' view, Command ''xdg-open'' [url']]
      else if goos = ''ios'' then [Command ''open'' [url'], Command ''uiopen'' [url']]
      else [])"

text \<open>The commands are tried until one starts.\<close>

definition openBrowser :: "(browserCommand \<Rightarrow> bool) \<Rightarrow> string \<Rightarrow> string \<Rightarrow> browserCommand option" where
  "openBrowser starts goos url' = List.find starts (browserOpenCommands goos url')"


section \<open>Lemmas\<close>

lemma del_all_app: "del_all names h n = (if n \<in> set names then [] else h n)"
  unfolding del_all_def by (induction names arbitrary: h) (auto simp: hd_del_def)

lemma rewrite_location_frame [simp]:
  "ps_status (rewrite_location E t r) = ps_status r" "ps_path (rewrite_location E t r) = ps_path r"
  "ps_cookies (rewrite_location E t r) = ps_cookies r" "ps_body (rewrite_location E t r) = ps_body r"
  "n \<noteq> ''Location'' \<Longrightarrow> ps_header (rewrite_location E t r) n = ps_header r n"
  by (simp_all add: rewrite_location_def Let_def hd_set_def hd_del_def split: option.split)

lemma rewritten_redirect:
  assumes "rewriteProxyRedirectLocation L custom raw target = Some loc"
  shows "(loc = raw \<and> isSafeLocalRedirectPath raw) \<or>
    (\<exists>u. ul_Parse L raw = Inr u \<and> str_EqualFold (u_Scheme u) (u_Scheme target) \<and> str_EqualFold (u_Host u) (u_Host target) \<and>
       loc = localCaptchaURLForTarget L custom u)"
  using assms by (auto simp: rewriteProxyRedirectLocation_def split: if_splits sum.splits)

text \<open>A location that is passed on is a path of the proxy or an URL of it.\<close>

definition local_location :: "proxy_env \<Rightarrow> url \<Rightarrow> string \<Rightarrow> string \<Rightarrow> bool" where
  "local_location E target raw loc \<longleftrightarrow>
     loc = [] \<or> (loc = raw \<and> isSafeLocalRedirectPath raw) \<or>
     (\<exists>u. ul_Parse (px_url E) raw = Inr u \<and> str_EqualFold (u_Scheme u) (u_Scheme target) \<and>
        str_EqualFold (u_Host u) (u_Host target) \<and> loc = localCaptchaURLForTarget (px_url E) (px_custom E) u)"

lemma rewrite_location_local:
  "300 \<le> ps_status r \<Longrightarrow> ps_status r < 400 \<Longrightarrow>
     local_location E target (ps_header r ''Location'') (ps_header (rewrite_location E target r) ''Location'')"
  using rewritten_redirect [of "px_url E" "px_custom E" "ps_header r ''Location''" target]
  by (auto simp: rewrite_location_def local_location_def Let_def hd_set_def hd_del_def split: option.split)

definition cookie_local :: "cookie \<Rightarrow> bool" where
  "cookie_local c \<longleftrightarrow> ck_Domain c = [] \<and> \<not> ck_Secure c \<and> \<not> ck_Partitioned c \<and> ck_SameSite c \<notin> {SameSiteNone, SameSiteStrict}"

lemma rewrite_cookie_local: "cookie_local (rewrite_cookie c) \<and> ck_pair (rewrite_cookie c) = ck_pair c"
  by (simp add: rewrite_cookie_def cookie_local_def)

lemma set_body_simps [simp]:
  "ps_status (set_body b r) = ps_status r" "ps_cookies (set_body b r) = ps_cookies r" "ps_body (set_body b r) = Some b"
  "ps_header (set_body b r) n = (if n = ''Content-Length'' then str_Itoa (int (length b)) else ps_header r n)"
  by (simp_all add: set_body_def hd_set_def)

lemma blocking_no_location [simp]: "''Location'' \<notin> set blocking_headers" "''Content-Type'' \<notin> set blocking_headers"
  "''Content-Length'' \<notin> set blocking_headers"
  by (simp_all add: blocking_headers_def)

text \<open>The first key that is not empty is the one that is returned.\<close>

lemma notify_full: "length ch = 1 \<Longrightarrow> fold notifyKey keys ch = ch"
  by (induction keys) (auto simp: notifyKey_def try_send_def)

lemma notify_first: "fold notifyKey keys [] = (case filter (\<lambda>k. k \<noteq> []) keys of [] \<Rightarrow> [] | k # _ \<Rightarrow> [k])"
proof (induction keys)
  case (Cons a keys)
  have "notifyKey a [] = (if a = [] then [] else [a])" by (simp add: notifyKey_def try_send_def)
  then show ?case using Cons by (simp add: notify_full)
qed simp

lemma listen_loop_spec:
  "listen_loop custom listen addrs = (listening, errs, customErr) \<Longrightarrow>
     listening = filter (\<lambda>a. listen a = None) addrs \<and>
     (customErr = [] \<longleftrightarrow> (\<forall>a \<in> set addrs. custom \<noteq> [] \<and> str_EqualFold a custom \<longrightarrow> listen a = None))"
proof (induction addrs arbitrary: listening errs customErr)
  case (Cons addr addrs)
  obtain o1 e1 c1 where l: "listen_loop custom listen addrs = (o1, e1, c1)" by (cases "listen_loop custom listen addrs")
  show ?case using Cons.IH [OF l] Cons.prems l by (auto simp: Let_def split: option.splits if_splits)
qed simp

text \<open>An URL that the browser sends to the proxy: it begins with the origin of the proxy or goes to the proxy for other
  hosts. (The origin of the service is replaced wherever an URL begins with it, so what follows the origin need not
  begin with a slash.)\<close>

definition on_proxy :: "string \<Rightarrow> url \<Rightarrow> string \<Rightarrow> bool" where
  "on_proxy origin target u \<longleftrightarrow>
     str_HasPrefix u origin \<or> str_HasPrefix u ''/generic_proxy?proxy_url='' \<or>
     (str_HasPrefix u ''//'' \<and> str_HasPrefix (u_Scheme target @ '':'' @ u) origin)"

lemma rewrite_url_local: "on_proxy origin target (rewrite_url origin target raw)"
  by (auto simp: on_proxy_def rewrite_url_def Let_def str_HasPrefix_iff)

text \<open>What becomes of the pieces of a page: the attributes that the expression finds get an URL of the proxy, everything
  else stays.\<close>

fun piece_local :: "string \<Rightarrow> url \<Rightarrow> piece \<Rightarrow> piece \<Rightarrow> bool" where
  "piece_local origin target (Between t) p = (p = Between t)"
| "piece_local origin target (Matched attr u end) p = (\<exists>u'. p = Matched attr u' end \<and> on_proxy origin target u')"

definition attrs_text :: "char \<Rightarrow> piece list \<Rightarrow> string" where
  "attrs_text quot ps = concat (map (\<lambda>p. case p of Between t \<Rightarrow> t | Matched attr u _ \<Rightarrow> attr @ [quot] @ u @ [quot]) ps)"

lemma rewrite_attrs_local:
  "\<exists>ps'. rewrite_attrs quot (rewrite_url origin target) ps = attrs_text quot ps' \<and> list_all2 (piece_local origin target) ps ps'"
proof (induction ps)
  case Nil
  then show ?case by (simp add: rewrite_attrs_def attrs_text_def)
next
  case (Cons p ps)
  then obtain ps' where ps': "rewrite_attrs quot (rewrite_url origin target) ps = attrs_text quot ps'"
    "list_all2 (piece_local origin target) ps ps'" by blast
  define p' where "p' = (case p of Between t \<Rightarrow> p | Matched attr u end \<Rightarrow> Matched attr (rewrite_url origin target u) end)"
  have "piece_local origin target p p'" by (cases p) (simp_all add: p'_def rewrite_url_local)
  moreover have "rewrite_attrs quot (rewrite_url origin target) (p # ps) = attrs_text quot (p' # ps')"
    using ps'(1) by (cases p) (simp_all add: rewrite_attrs_def attrs_text_def p'_def)
  ultimately show ?case using ps'(2) by (intro exI [of _ "p' # ps'"]) simp
qed

text \<open>The page that the browser gets for \<open>body\<close>: with the contents of scripts and styles set aside, the attributes with double
  quotes and then those with single quotes have URLs of the proxy; the contents are put back, and the script is put in.\<close>

definition page_local :: "proxy_env \<Rightarrow> url \<Rightarrow> string \<Rightarrow> string \<Rightarrow> bool" where
  "page_local E target body page \<longleftrightarrow>
     (let origin = localCaptchaOrigin (px_url E) (px_custom E) in
      \<exists>html contents html' contents' ps qs before after.
        hide_contents (rx_script (px_rx E) (str_ReplaceAll body (targetOrigin target) origin)) [] = (html, contents) \<and>
        hide_contents (rx_style (px_rx E) html) contents = (html', contents') \<and>
        list_all2 (piece_local origin target) (rx_double (px_rx E) html') ps \<and>
        list_all2 (piece_local origin target) (rx_single (px_rx E) (attrs_text CHR 0x22 ps)) qs \<and>
        before @ after = restore_contents (px_order E contents') (attrs_text CHR 0x27 qs) \<and>
        page = before @ px_script E origin (targetOrigin target) @ after)"

lemma script_inserted:
  "str_Contains s mark \<Longrightarrow> mark \<noteq> [] \<Longrightarrow> \<exists>l r. s = l @ mark @ r \<and> str_ReplaceFirst s mark new = l @ new @ r"
proof (induction s)
  case Nil
  then show ?case by simp
next
  case (Cons c s)
  show ?case
  proof (cases "str_HasPrefix (c # s) mark")
    case True
    then obtain r where r: "c # s = mark @ r" by (auto simp: str_HasPrefix_iff)
    have "str_ReplaceFirst (c # s) mark new = new @ drop (length mark) (c # s)" using True by simp
    also have "\<dots> = new @ r" by (simp add: r)
    finally have "str_ReplaceFirst (c # s) mark new = new @ r" .
    then show ?thesis using r by (intro exI [of _ "[]"] exI [of _ r]) simp
  next
    case False
    then obtain l r where "s = l @ mark @ r" "str_ReplaceFirst s mark new = l @ new @ r" using Cons by auto
    then show ?thesis using False by (intro exI [of _ "c # l"] exI [of _ r]) simp
  qed
qed

lemma script_in_page:
  "\<exists>before after. html = before @ after \<and>
     (if str_Contains html ''<head>'' then str_ReplaceFirst html ''<head>'' (''<head>'' @ script)
      else if str_Contains html ''</head>'' then str_ReplaceFirst html ''</head>'' (script @ ''</head>'')
      else if str_Contains html ''</body>'' then str_ReplaceFirst html ''</body>'' (script @ ''</body>'')
      else html @ script) = before @ script @ after"
proof -
  have after: "\<exists>before after. html = before @ after \<and> str_ReplaceFirst html mark (mark @ script) = before @ script @ after"
    if "str_Contains html mark" "mark \<noteq> []" for mark
    using script_inserted [OF that, of "mark @ script"] by (metis append.assoc)
  have before: "\<exists>before after. html = before @ after \<and> str_ReplaceFirst html mark (script @ mark) = before @ script @ after"
    if "str_Contains html mark" "mark \<noteq> []" for mark
    using script_inserted [OF that, of "script @ mark"] by (metis append.assoc)
  consider "str_Contains html ''<head>''" | "\<not> str_Contains html ''<head>''" "str_Contains html ''</head>''"
    | "\<not> str_Contains html ''<head>''" "\<not> str_Contains html ''</head>''" "str_Contains html ''</body>''"
    | "\<not> str_Contains html ''<head>''" "\<not> str_Contains html ''</head>''" "\<not> str_Contains html ''</body>''" by blast
  then show ?thesis
  proof cases
    case 1
    then show ?thesis using after [OF 1] by (simp only: if_True list.distinct not_False_eq_True True_implies_equals)
  next
    case 2
    then show ?thesis using before [OF 2(2)] by (simp only: if_True if_False list.distinct not_False_eq_True True_implies_equals)
  next
    case 3
    then show ?thesis using before [OF 3(3)] by (simp only: if_True if_False list.distinct not_False_eq_True True_implies_equals)
  next
    case 4
    then show ?thesis by (intro exI [of _ html] exI [of _ "[]"]) simp
  qed
qed

lemma rewrite_page_local: "page_local E target body (rewrite_page E target body)"
proof -
  let ?o = "localCaptchaOrigin (px_url E) (px_custom E)"
  obtain html contents where h1: "hide_contents (rx_script (px_rx E) (str_ReplaceAll body (targetOrigin target) ?o)) [] = (html, contents)"
    by fastforce
  obtain html' contents' where h2: "hide_contents (rx_style (px_rx E) html) contents = (html', contents')" by fastforce
  obtain ps where ps: "rewrite_attrs CHR 0x22 (rewrite_url ?o target) (rx_double (px_rx E) html') = attrs_text CHR 0x22 ps"
    "list_all2 (piece_local ?o target) (rx_double (px_rx E) html') ps" using rewrite_attrs_local by blast
  obtain qs where qs: "rewrite_attrs CHR 0x27 (rewrite_url ?o target) (rx_single (px_rx E) (attrs_text CHR 0x22 ps)) = attrs_text CHR 0x27 qs"
    "list_all2 (piece_local ?o target) (rx_single (px_rx E) (attrs_text CHR 0x22 ps)) qs" using rewrite_attrs_local by blast
  have attrs: "rewriteHTMLAttrsServerSide (px_rx E) (px_order E) ?o target (str_ReplaceAll body (targetOrigin target) ?o) =
      restore_contents (px_order E contents') (attrs_text CHR 0x27 qs)"
    by (simp add: rewriteHTMLAttrsServerSide_def h1 h2 ps(1) qs(1) Let_def)
  obtain before after where "restore_contents (px_order E contents') (attrs_text CHR 0x27 qs) = before @ after"
    "rewrite_page E target body = before @ px_script E ?o (targetOrigin target) @ after"
    unfolding rewrite_page_def rewriteCaptchaHTML_def Let_def attrs using script_in_page by blast
  then show ?thesis unfolding page_local_def Let_def using h1 h2 ps(2) qs(2) by metis
qed

text \<open>The answer to a check that is compressed but not a page is sent on uncompressed, under the old encoding.\<close>

lemma check_keeps_encoding:
  assumes "is_check r" and "\<not> is_html r" and "ps_status r = 200" and "ps_body r = Some raw"
    and "ps_header r ''Content-Encoding'' = ''gzip''" and "px_gunzip E raw = Gunzipped s"
  shows "\<exists>r' ch'. modify_response E target r ch = (Some r', ch') \<and> ps_body r' = Some s \<and> ps_header r' ''Content-Encoding'' = ''gzip''"
  using assms
  by (simp add: modify_response_def Let_def is_html_def is_check_def read_body_def rewrite_location_def)

text \<open>A style that contains a script is restored or not, depending on the order in which the map is walked.\<close>

lemma restoration_depends_on_order:
  "let ph = [(''@@CONTENT_0@@'', ''x''), (''@@CONTENT_1@@'', ''<script>@@CONTENT_0@@</script>'')];
       html = ''<style>@@CONTENT_1@@</style>''
   in restore_contents (rev ph) html = ''<style><script>x</script></style>'' \<and>
      restore_contents ph html = ''<style><script>@@CONTENT_0@@</script></style>''"
  by code_simp

section \<open>Properties\<close>


text \<open>The manual captcha listens on exactly those of its addresses that the system gives it, and is an error if there are
  none or if the one that the user has asked for is not among them (what has been opened is then still open); otherwise it
  returns the first key that is not empty, whatever comes after it, and waits for ever without one.\<close>

theorem captcha_server_outcome:
  "fst (startCaptchaServer custom listen) = filter (\<lambda>a. listen a = None) (localCaptchaListenAddrs custom) \<and>
   runCaptchaServerAndWait custom listen keys =
     (if (\<exists>a \<in> set (localCaptchaListenAddrs custom). listen a = None) \<and>
         (custom = [] \<or> (\<forall>a \<in> set (localCaptchaListenAddrs custom). str_EqualFold a custom \<longrightarrow> listen a = None))
      then Inr (case filter (\<lambda>k. k \<noteq> []) keys of [] \<Rightarrow> None | k # _ \<Rightarrow> Some k)
      else Inl (the (snd (startCaptchaServer custom listen))))"
proof -
  obtain listening errs customErr where l: "listen_loop custom listen (localCaptchaListenAddrs custom) = (listening, errs, customErr)"
    by (cases "listen_loop custom listen (localCaptchaListenAddrs custom)")
  note spec = listen_loop_spec [OF l]
  have "listening \<noteq> [] \<longleftrightarrow> (\<exists>a \<in> set (localCaptchaListenAddrs custom). listen a = None)"
    using spec by (simp add: filter_empty_conv)
  then show ?thesis using spec l
    by (auto simp: startCaptchaServer_def runCaptchaServerAndWait_def notify_first split: list.split)
qed


definition sample_proxy :: proxy_env where
  "sample_proxy =
     \<lparr>px_url = \<lparr>ul_Parse = (\<lambda>s. Inr \<lparr>u_Scheme = ''https'', u_Host = ''VK.com'', u_Path = ''/p'', u_RawPath = [], u_RawQuery = [], u_other = []\<rparr>),
                ul_String = (\<lambda>u. u_Scheme u @ ''://'' @ u_Host u @ u_Path u)\<rparr>,
      px_rx = \<lparr>rx_script = (\<lambda>s. [Between s]), rx_style = (\<lambda>s. [Between s]), rx_double = (\<lambda>s. [Between s]), rx_single = (\<lambda>s. [Between s])\<rparr>,
      px_order = (\<lambda>ph. ph), px_gunzip = (\<lambda>s. NotGzip 0), px_token = (\<lambda>s. s), px_script = (\<lambda>a b. ''S''), px_custom = []\<rparr>"

definition sample_target :: url where
  "sample_target = \<lparr>u_Scheme = ''https'', u_Host = ''vk.com'', u_Path = ''/c'', u_RawPath = [], u_RawQuery = [], u_other = []\<rparr>"

definition sample_redirect :: proxied_response where
  "sample_redirect = \<lparr>ps_status = 302, ps_path = ''/c'',
     ps_cookies = [\<lparr>ck_pair = ''a=b'', ck_Domain = ''vk.com'', ck_Secure = True, ck_Partitioned = True, ck_SameSite = SameSiteNone\<rparr>],
     ps_header = (\<lambda>n. if n = ''Location'' then ''https://VK.com/p'' else []), ps_body = Some []\<rparr>"

definition page_proxy :: proxy_env where
  "page_proxy = sample_proxy\<lparr>px_rx := (px_rx sample_proxy)\<lparr>rx_double := (\<lambda>s. [Between ''<a '', Matched ''href='' ''//x'' [], Between ''>''])\<rparr>\<rparr>"

definition sample_page :: proxied_response where
  "sample_page = \<lparr>ps_status = 200, ps_path = ''/c'', ps_cookies = [],
     ps_header = (\<lambda>n. if n = ''Content-Type'' then ''text/html'' else if n = ''X-Frame-Options'' then ''DENY'' else []),
     ps_body = Some ''<a href=\"//x\">''\<rparr>"


theorem captcha_server_outcome_witness:
  "runCaptchaServerAndWait ''h:1'' (\<lambda>a. if a = ''[::1]:8765'' then Some ''no IPv6'' else None) [[], ''key'', ''x''] = Inr (Some ''key'')"
proof -
  have "localCaptchaListenAddrs ''h:1'' = [''127.0.0.1:8765'', ''[::1]:8765'', ''h:1'']"
    by (simp add: localCaptchaListenAddrs_def appendUniqueFold_def captchaListenPort_def str_EqualFold_def str_ToLower_def to_lower_def)
  then show ?thesis
    using captcha_server_outcome [of "''h:1''" "\<lambda>a. if a = ''[::1]:8765'' then Some ''no IPv6'' else None" "[[], ''key'', ''x'']"]
    by (simp add: str_EqualFold_def str_ToLower_def to_lower_def)
qed


end
