(* ===== verification/Bond_Download.thy ===== *)
theory Bond_Download
  imports Bond_Client Bond_Server_Safety
begin

text \<open>
  A bonded connection of the client from the side of the download (\<open>handleBondedTCP\<close> in \<open>pkg/clientcore/main.go\<close>): one
  goroutine per lane reads frames into a channel of 1024, another closes the channel when all of them have ended, and
  the download loop takes the frames and writes the local connection; its end cancels the connection. The upload loop is
  \<open>copyTCPToBond\<close> of \<open>Bond_Client\<close>; here it only ends at some time. A send on a closed channel would be a panic.
\<close>

section \<open>State\<close>

definition clientRecvCap :: nat where "clientRecvCap = 1024"

datatype lane_reader_pc = LaneRead | LaneSend bondFrame | LaneEnded

record bond_reader =
  br_input :: reader
  br_pc :: lane_reader_pc
  br_dead :: bool
  br_fromSession :: u64

record bond_client_conn =
  bc_readers :: "bond_reader list"
  bc_recvCh :: "bondFrame list"
  bc_chClosed :: bool
  bc_down :: client_reassembly
  bc_downRunning :: bool
  bc_upRunning :: bool
  bc_cancelled :: bool
  bc_returned :: bool
  bc_panicked :: bool

definition new_bond_reader :: "reader \<Rightarrow> u64 \<Rightarrow> bond_reader" where
  "new_bond_reader inp n = \<lparr>br_input = inp, br_pc = LaneRead, br_dead = False, br_fromSession = n\<rparr>"

text \<open>Both loops start once the lanes are open; \<open>tcp\<close> is the local connection.\<close>

definition bond_client_start :: "conn \<Rightarrow> (reader \<times> u64) list \<Rightarrow> bond_client_conn" where
  "bond_client_start tcp lanes =
     \<lparr>bc_readers = map (\<lambda>(inp, n). new_bond_reader inp n) lanes, bc_recvCh = [], bc_chClosed = False,
      bc_down = client_reassembly_start tcp, bc_downRunning = True, bc_upRunning = True, bc_cancelled = False,
      bc_returned = False, bc_panicked = False\<rparr>"

section \<open>The goroutines of the lanes\<close>

definition upd_reader :: "nat \<Rightarrow> (bond_reader \<Rightarrow> bond_reader) \<Rightarrow> bond_client_conn \<Rightarrow> bond_client_conn" where
  "upd_reader l f b = b\<lparr>bc_readers := (bc_readers b)[l := f (bc_readers b ! l)]\<rparr>"

text \<open>An error marks the lane as dead. The payload of a data frame is counted before the frame is sent on.\<close>

definition lane_read :: "nat \<Rightarrow> bond_client_conn \<Rightarrow> bond_client_conn" where
  "lane_read l b =
     (case client_readBondFrame (br_input (bc_readers b ! l)) of
        (Inl e, rest) \<Rightarrow> upd_reader l (\<lambda>r. r\<lparr>br_input := rest, br_dead := True, br_pc := LaneEnded\<rparr>) b
      | (Inr f, rest) \<Rightarrow>
          upd_reader l (\<lambda>r. r\<lparr>br_input := rest, br_pc := LaneSend f,
            br_fromSession := (if fr_typ f = bondFrameData then br_fromSession r + of_nat (length (fr_data f))
                               else br_fromSession r)\<rparr>) b)"

text \<open>The \<open>select\<close>: the frame is sent, or the context is done; \<open>None\<close> if that branch cannot be taken now.\<close>

definition lane_send :: "nat \<Rightarrow> bondFrame \<Rightarrow> bond_client_conn \<Rightarrow> bond_client_conn option" where
  "lane_send l f b =
     (if bc_chClosed b then Some (b\<lparr>bc_panicked := True\<rparr>)
      else case try_send clientRecvCap (bc_recvCh b) f of
        Some q \<Rightarrow> Some (upd_reader l (\<lambda>r. r\<lparr>br_pc := LaneRead\<rparr>) (b\<lparr>bc_recvCh := q\<rparr>))
      | None \<Rightarrow> None)"

definition lane_leave :: "nat \<Rightarrow> bond_client_conn \<Rightarrow> bond_client_conn option" where
  "lane_leave l b = (if bc_cancelled b then Some (upd_reader l (\<lambda>r. r\<lparr>br_pc := LaneEnded\<rparr>) b) else None)"

definition all_readers_ended :: "bond_client_conn \<Rightarrow> bool" where
  "all_readers_ended b = list_all (\<lambda>r. br_pc r = LaneEnded) (bc_readers b)"

definition close_channel :: "bond_client_conn \<Rightarrow> bond_client_conn" where
  "close_channel b = b\<lparr>bc_chClosed := True\<rparr>"

section \<open>The download loop and the end\<close>

definition down_stop :: "bond_client_conn \<Rightarrow> bond_client_conn" where
  "down_stop b = b\<lparr>bc_downRunning := False, bc_cancelled := True\<rparr>"

text \<open>One turn of \<open>copyBondToTCP\<close>: the head of the loop, then the select, in which \<open>leave\<close> chooses the end of the context.\<close>

definition client_down_turn :: "bool \<Rightarrow> bond_client_conn \<Rightarrow> bond_client_conn option" where
  "client_down_turn leave b =
     (let st = client_check_fin (bc_down b) in
      if cr_status st \<noteq> Running then Some (down_stop (b\<lparr>bc_down := st\<rparr>))
      else if leave then (if bc_cancelled b then Some (down_stop b) else None)
      else (case bc_recvCh b of
              [] \<Rightarrow> if bc_chClosed b then Some (down_stop (b\<lparr>bc_down := st\<lparr>cr_status := ChannelClosed\<rparr>\<rparr>)) else None
            | f # q \<Rightarrow>
                (let st1 = client_take_frame f st; b1 = b\<lparr>bc_recvCh := q, bc_down := st1\<rparr>
                 in Some (if cr_status st1 = Running then b1 else down_stop b1))))"

text \<open>\<open>wg.Wait()\<close> returns when both loops have ended; the deferred calls close the lanes.\<close>

definition conn_return :: "bond_client_conn \<Rightarrow> bond_client_conn" where
  "conn_return b =
     b\<lparr>bc_returned := True, bc_cancelled := True,
       bc_readers := map (\<lambda>r. r\<lparr>br_input := \<lparr>rd_bytes = [], rd_end = ErrIO ''closed''\<rparr>\<rparr>) (bc_readers b)\<rparr>"

text \<open>\<open>break\<close> is the end of the input of a lane: the network or the peer cuts it, or the deadline that the end of the
  context sets. \<open>mark\<close> is the upload loop, which gives up a lane to which it cannot write.\<close>

inductive bond_client_step :: "bond_client_conn \<Rightarrow> bond_client_conn \<Rightarrow> bool" where
  read: "l < length (bc_readers b) \<Longrightarrow> br_pc (bc_readers b ! l) = LaneRead \<Longrightarrow> bond_client_step b (lane_read l b)"
| send: "l < length (bc_readers b) \<Longrightarrow> br_pc (bc_readers b ! l) = LaneSend f \<Longrightarrow> lane_send l f b = Some b' \<Longrightarrow> bond_client_step b b'"
| leave: "l < length (bc_readers b) \<Longrightarrow> br_pc (bc_readers b ! l) = LaneSend f \<Longrightarrow> lane_leave l b = Some b' \<Longrightarrow> bond_client_step b b'"
| break: "l < length (bc_readers b) \<Longrightarrow>
    bond_client_step b (upd_reader l (\<lambda>r. r\<lparr>br_input := \<lparr>rd_bytes = [], rd_end = ErrIO ''closed''\<rparr>\<rparr>) b)"
| mark: "l < length (bc_readers b) \<Longrightarrow> bond_client_step b (upd_reader l (\<lambda>r. r\<lparr>br_dead := True\<rparr>) b)"
| close: "all_readers_ended b \<Longrightarrow> \<not> bc_chClosed b \<Longrightarrow> bond_client_step b (close_channel b)"
| down: "bc_downRunning b \<Longrightarrow> client_down_turn lv b = Some b' \<Longrightarrow> bond_client_step b b'"
| up: "bc_upRunning b \<Longrightarrow> bond_client_step b (b\<lparr>bc_upRunning := False\<rparr>)"
| cancel: "bond_client_step b (b\<lparr>bc_cancelled := True\<rparr>)"
| return: "\<not> bc_downRunning b \<Longrightarrow> \<not> bc_upRunning b \<Longrightarrow> \<not> bc_returned b \<Longrightarrow> bond_client_step b (conn_return b)"

section \<open>Invariant\<close>

text \<open>Once a reader has ended it is of no interest what it left unread.\<close>

definition reader_ok :: "bytes list \<Rightarrow> bond_reader \<Rightarrow> bool" where
  "reader_ok chunks r \<longleftrightarrow>
     (br_pc r \<noteq> LaneEnded \<longrightarrow> lane_src chunks (br_input r)) \<and> (case br_pc r of LaneSend f \<Rightarrow> genuine chunks f | _ \<Rightarrow> True)"

definition down_good :: "bytes list \<Rightarrow> bond_client_conn \<Rightarrow> bool" where
  "down_good chunks b \<longleftrightarrow>
     (\<exists>m. cn_sent (cr_conn (bc_down b)) = take m (concat chunks)) \<and>
     (cr_writeClosed (bc_down b) \<longrightarrow> cn_sent (cr_conn (bc_down b)) = concat chunks) \<and>
     (bc_downRunning b \<longrightarrow> (\<exists>st. bc_down b = client_view st \<and> up_live chunks st \<and> up_safe chunks st)) \<and>
     (\<not> bc_downRunning b \<longrightarrow> bc_cancelled b)"

definition bond_client_ok :: "bytes list \<Rightarrow> bond_client_conn \<Rightarrow> bool" where
  "bond_client_ok chunks b \<longleftrightarrow>
     list_all (reader_ok chunks) (bc_readers b) \<and> list_all (genuine chunks) (bc_recvCh b) \<and>
     length (bc_recvCh b) \<le> clientRecvCap \<and> down_good chunks b \<and>
     (bc_chClosed b \<longrightarrow> all_readers_ended b) \<and> \<not> bc_panicked b \<and>
     (bc_returned b \<longrightarrow> \<not> bc_downRunning b \<and> \<not> bc_upRunning b)"

lemma bond_client_start_ok:
  assumes "list_all (\<lambda>(inp, n). lane_src chunks inp) lanes"
  shows "bond_client_ok chunks (bond_client_start \<lparr>cn_sent = [], cn_script = script\<rparr> lanes)"
proof -
  let ?tcp = "\<lparr>cn_sent = [], cn_script = script\<rparr>"
  have "client_reassembly_start ?tcp = client_view (reassembly_start ?tcp)" by (simp add: client_view_start)
  moreover have "up_live chunks (reassembly_start ?tcp)" by (rule up_live_start)
  moreover have "up_safe chunks (reassembly_start ?tcp)" by (auto simp: up_safe_def reassembly_start_def intro: exI [of _ 0])
  ultimately have "down_good chunks (bond_client_start ?tcp lanes)"
    by (auto simp: down_good_def bond_client_start_def reassembly_start_def intro: exI [of _ 0])
  then show ?thesis using assms
    by (auto simp: bond_client_ok_def bond_client_start_def new_bond_reader_def reader_ok_def list_all_iff)
qed

lemma reader_update:
  "list_all P rs \<Longrightarrow> (l < length rs \<Longrightarrow> P r) \<Longrightarrow> list_all P (rs[l := r])"
  unfolding list_all_length by (metis length_list_update nth_list_update nth_list_update_neq)

lemma not_all_ended: "l < length (bc_readers b) \<Longrightarrow> br_pc (bc_readers b ! l) \<noteq> LaneEnded \<Longrightarrow> \<not> all_readers_ended b"
  by (auto simp: all_readers_ended_def list_all_length)

lemma down_good_frame [simp]: "down_good chunks (b\<lparr>bc_readers := rs\<rparr>) = down_good chunks b"
  "down_good chunks (b\<lparr>bc_recvCh := q\<rparr>) = down_good chunks b" "down_good chunks (b\<lparr>bc_chClosed := c\<rparr>) = down_good chunks b"
  "down_good chunks (b\<lparr>bc_upRunning := u\<rparr>) = down_good chunks b"
  by (simp_all add: down_good_def)

text \<open>A step of the goroutine of a lane.\<close>

lemma reader_step_ok:
  assumes "bond_client_ok chunks b" and "l < length (bc_readers b)" and "br_pc (bc_readers b ! l) \<noteq> LaneEnded"
    and "reader_ok chunks (f (bc_readers b ! l))" and "list_all (genuine chunks) q" and "length q \<le> clientRecvCap"
  shows "bond_client_ok chunks (upd_reader l f (b\<lparr>bc_recvCh := q\<rparr>))"
proof -
  have "\<not> bc_chClosed b" using assms(1) not_all_ended [OF assms(2,3)] by (auto simp: bond_client_ok_def)
  moreover have "list_all (reader_ok chunks) ((bc_readers b)[l := f (bc_readers b ! l)])"
    using assms by (intro reader_update) (simp_all add: bond_client_ok_def)
  ultimately show ?thesis using assms by (simp add: bond_client_ok_def upd_reader_def)
qed

lemma reader_step_same:
  assumes "bond_client_ok chunks b" and "l < length (bc_readers b)" and "br_pc (bc_readers b ! l) \<noteq> LaneEnded"
    and "reader_ok chunks (f (bc_readers b ! l))"
  shows "bond_client_ok chunks (upd_reader l f b)"
  proof -
  have "list_all (genuine chunks) (bc_recvCh b)" "length (bc_recvCh b) \<le> clientRecvCap"
    using assms(1) by (simp_all add: bond_client_ok_def)
  then have "bond_client_ok chunks (upd_reader l f (b\<lparr>bc_recvCh := bc_recvCh b\<rparr>))" 
    using reader_step_ok [of chunks b l f "bc_recvCh b"] assms by blast
  then show ?thesis by simp
qed

lemma client_read_ok:
  assumes "bond_client_ok chunks b" and "l < length (bc_readers b)" and "br_pc (bc_readers b ! l) = LaneRead"
  shows "bond_client_ok chunks (lane_read l b)"
proof -
  let ?r = "bc_readers b ! l"
  have r: "lane_src chunks (br_input ?r)" using assms by (simp add: bond_client_ok_def list_all_length reader_ok_def)
  obtain res rest where res: "readBondFrame (br_input ?r) = (res, rest)" by fastforce
  show ?thesis
  proof (cases res)
    case (Inl e)
    then show ?thesis using assms res
      by (simp add: lane_read_def client_readBondFrame_eq) (rule reader_step_same; simp add: reader_ok_def)
  next
    case (Inr f)
    then have "genuine chunks f" "lane_src chunks rest" using lane_src_read [OF r] res by simp_all
    then show ?thesis using assms res Inr
      by (simp add: lane_read_def client_readBondFrame_eq) (rule reader_step_same; simp add: reader_ok_def)
  qed
qed

lemma lane_send_ok:
  assumes "bond_client_ok chunks b" and "l < length (bc_readers b)" and "br_pc (bc_readers b ! l) = LaneSend f"
    and "lane_send l f b = Some b'"
  shows "bond_client_ok chunks b'"
proof -
  have r: "reader_ok chunks (bc_readers b ! l)" using assms by (simp add: bond_client_ok_def list_all_length)
  have "\<not> bc_chClosed b" using assms not_all_ended [OF assms(2)] by (auto simp: bond_client_ok_def)
  then obtain q where q: "try_send clientRecvCap (bc_recvCh b) f = Some q"
    "b' = upd_reader l (\<lambda>r. r\<lparr>br_pc := LaneRead\<rparr>) (b\<lparr>bc_recvCh := q\<rparr>)"
    using assms(4) by (auto simp: lane_send_def split: option.splits)
  then have "q = bc_recvCh b @ [f]" "length q \<le> clientRecvCap" by (auto simp: try_send_def split: if_splits)
  then show ?thesis unfolding q(2) using assms(1-3) r
    by (intro reader_step_ok) (auto simp: reader_ok_def bond_client_ok_def)
qed

lemma lane_leave_ok:
  assumes "bond_client_ok chunks b" and "l < length (bc_readers b)" and "br_pc (bc_readers b ! l) = LaneSend f"
    and "lane_leave l b = Some b'"
  shows "bond_client_ok chunks b'"
proof -
  have "b' = upd_reader l (\<lambda>r. r\<lparr>br_pc := LaneEnded\<rparr>) b" using assms(4) by (auto simp: lane_leave_def split: if_splits)
  then show ?thesis using assms by (auto intro!: reader_step_same simp: reader_ok_def)
qed

text \<open>The cut of a lane and the mark of the upload loop.\<close>

lemma reader_edit_ok:
  assumes "bond_client_ok chunks b" and "\<And>r. br_pc (f r) = br_pc r" and "\<And>r. reader_ok chunks r \<Longrightarrow> reader_ok chunks (f r)"
    and "l < length (bc_readers b)"
  shows "bond_client_ok chunks (upd_reader l f b)"
proof -
  have "list_all (reader_ok chunks) ((bc_readers b)[l := f (bc_readers b ! l)])"
    using assms by (intro reader_update) (simp_all add: bond_client_ok_def list_all_length)
  moreover have "all_readers_ended b \<Longrightarrow> all_readers_ended (upd_reader l f b)"
    using assms(2,4) by (simp add: all_readers_ended_def upd_reader_def) (rule reader_update; simp add: list_all_length)
  ultimately show ?thesis using assms(1) by (simp add: bond_client_ok_def upd_reader_def)
qed

lemma reader_break_ok: "reader_ok chunks r \<Longrightarrow> reader_ok chunks (r\<lparr>br_input := \<lparr>rd_bytes = [], rd_end = e\<rparr>\<rparr>)"
  by (simp add: reader_ok_def lane_src_empty)

lemma reader_mark_ok: "reader_ok chunks r \<Longrightarrow> reader_ok chunks (r\<lparr>br_dead := d\<rparr>)" by (simp add: reader_ok_def)

lemma down_stop_ok:
  assumes "bond_client_ok chunks b" and "up_safe chunks st"
  shows "bond_client_ok chunks (down_stop (b\<lparr>bc_recvCh := q, bc_down := (client_view st)\<lparr>cr_status := s\<rparr>\<rparr>))
    \<longleftrightarrow> list_all (genuine chunks) q \<and> length q \<le> clientRecvCap"
  using assms by (simp add: bond_client_ok_def down_stop_def down_good_def up_safe_def all_readers_ended_def)

lemma client_view_status: "client_view st = (client_view st)\<lparr>cr_status := ra_status st\<rparr>"
  by (simp add: client_view_def)

lemma down_stop_at: "bc_down b = client_view st
    \<Longrightarrow> down_stop b = down_stop (b\<lparr>bc_recvCh := bc_recvCh b, bc_down := (client_view st)\<lparr>cr_status := ra_status st\<rparr>\<rparr>)"
  by (cases b) (simp add: down_stop_def flip: client_view_status)

lemma client_down_ok:
  assumes ok: "bond_client_ok chunks b" and N: "length chunks < 2 ^ 64" and run: "bc_downRunning b"
    and t: "client_down_turn lv b = Some b'"
  shows "bond_client_ok chunks b'"
proof -
  obtain st where st: "bc_down b = client_view st" and live: "up_live chunks st" and safe: "up_safe chunks st"
    using ok run by (auto simp: bond_client_ok_def down_good_def)
  have q: "list_all (genuine chunks) (bc_recvCh b)" "length (bc_recvCh b) \<le> clientRecvCap"
    using ok by (simp_all add: bond_client_ok_def)
  note stop = down_stop_ok [OF ok, THEN iffD2]
  show ?thesis
  proof (cases "ra_status (check_fin st) = Running")
    case False
    then have "b' = down_stop (b\<lparr>bc_recvCh := bc_recvCh b,
        bc_down := (client_view (check_fin st))\<lparr>cr_status := ra_status (check_fin st)\<rparr>\<rparr>)"
      using t False by (simp add: client_down_turn_def st client_view_check Let_def flip: client_view_status)
    then show ?thesis
      using stop [OF up_check [OF live safe N False], of "bc_recvCh b" "ra_status (check_fin st)"] q by simp
  next
    case True
    then have same: "check_fin st = st" by (auto simp: check_fin_def split: if_splits)
    show ?thesis
    proof (cases "lv \<or> bc_recvCh b = []")
      case True
      then have "\<exists>s. b' = down_stop (b\<lparr>bc_recvCh := bc_recvCh b, bc_down := (client_view st)\<lparr>cr_status := s\<rparr>\<rparr>)"
        using t \<open>ra_status (check_fin st) = Running\<close> down_stop_at [OF st]
        by (auto simp: client_down_turn_def st client_view_check same Let_def intro: sym split: if_splits)
      then obtain s where "b' = down_stop (b\<lparr>bc_recvCh := bc_recvCh b, bc_down := (client_view st)\<lparr>cr_status := s\<rparr>\<rparr>)"
        by blast
      then show ?thesis using stop [OF safe, of "bc_recvCh b" s] q by simp
    next
      case False
      then obtain f r where fr: "bc_recvCh b = f # r" by (cases "bc_recvCh b") auto
      have f: "genuine chunks f" using q fr by simp
      note tk = up_take [OF live N f]
      let ?b = "b\<lparr>bc_recvCh := r, bc_down := client_view (take_frame f st)\<rparr>"
      have b': "b' = (if ra_status (take_frame f st) = Running then ?b else down_stop ?b)"
        using t \<open>ra_status (check_fin st) = Running\<close> False fr
        by (simp add: client_down_turn_def st client_view_check client_view_take same Let_def)
      show ?thesis
      proof (cases "ra_status (take_frame f st) = Running")
        case True
        then show ?thesis using b' ok tk q fr by (auto simp: bond_client_ok_def down_good_def up_safe_def all_readers_ended_def)
      next
        case False
        then have "b' = down_stop (b\<lparr>bc_recvCh := r,
            bc_down := (client_view (take_frame f st))\<lparr>cr_status := ra_status (take_frame f st)\<rparr>\<rparr>)"
          using b' by (simp flip: client_view_status)
        then show ?thesis using stop [of "take_frame f st" r "ra_status (take_frame f st)"] tk q fr by simp
      qed
    qed
  qed
qed

lemma bond_client_step_ok:
  assumes "bond_client_step b b'" and "bond_client_ok chunks b" and N: "length chunks < 2 ^ 64"
  shows "bond_client_ok chunks b'"
  using assms
proof cases
  case (read l)
  then show ?thesis using client_read_ok assms(2) by simp
next
  case (send l f)
  then show ?thesis using lane_send_ok assms(2) by blast
next
  case (leave l f)
  then show ?thesis using lane_leave_ok assms(2) by blast
next
  case (break l)
  then show ?thesis using reader_edit_ok [OF assms(2)] reader_break_ok by simp
next
  case (mark l)
  then show ?thesis using reader_edit_ok [OF assms(2)] reader_mark_ok by simp
next
  case close
  then show ?thesis using assms(2) by (simp add: bond_client_ok_def close_channel_def all_readers_ended_def)
next
  case (down lv)
  then show ?thesis using client_down_ok [OF assms(2) N] by blast
next
  case up
  then show ?thesis using assms(2) by (simp add: bond_client_ok_def all_readers_ended_def)
next
  case cancel
  then show ?thesis using assms(2) by (simp add: bond_client_ok_def down_good_def all_readers_ended_def)
next
  case return
  then show ?thesis using assms(2)
    by (auto simp: bond_client_ok_def down_good_def conn_return_def all_readers_ended_def list_all_iff reader_ok_def
        lane_src_empty)
qed

text \<open>The download of a connection whose lanes carry one stream.\<close>

definition bond_client_next :: "bytes list \<Rightarrow> bond_client_conn \<Rightarrow> bond_client_conn \<Rightarrow> bool" where
  "bond_client_next chunks b b' \<longleftrightarrow> length chunks < 2 ^ 64 \<and> bond_client_step b b'"

definition bond_client_init :: "bytes list \<Rightarrow> bond_client_conn \<Rightarrow> bool" where
  "bond_client_init chunks b \<longleftrightarrow>
     (\<exists>script lanes. list_all (\<lambda>(inp, n). lane_src chunks inp) lanes \<and>
        b = bond_client_start \<lparr>cn_sent = [], cn_script = script\<rparr> lanes)"

interpretation bond_download: invariant_system "bond_client_init chunks" "bond_client_next chunks" "bond_client_ok chunks"
  by unfold_locales (auto simp: bond_client_init_def bond_client_next_def intro: bond_client_start_ok bond_client_step_ok)

lemma bond_client_next_steps: "length chunks < 2 ^ 64 \<Longrightarrow> bond_client_step\<^sup>*\<^sup>* b b' \<Longrightarrow> (bond_client_next chunks)\<^sup>*\<^sup>* b b'"
  by (erule rtranclp_mono [THEN predicate2D, rotated]) (auto simp: bond_client_next_def)

lemma bond_client_reachable_ok:
  assumes "list_all (\<lambda>(inp, n). lane_src chunks inp) lanes" and "length chunks < 2 ^ 64"
    and "bond_client_step\<^sup>*\<^sup>* (bond_client_start \<lparr>cn_sent = [], cn_script = script\<rparr> lanes) b"
  shows "bond_client_ok chunks b"
  using assms by (intro bond_download.reachable_inv [of chunks, OF _ bond_client_next_steps]) (auto simp: bond_client_init_def)

section \<open>The end of a connection\<close>

text \<open>Once the context is done every goroutine can end, whatever the lanes and the channel hold.\<close>

definition live_readers :: "bond_client_conn \<Rightarrow> nat" where
  "live_readers b = card {l. l < length (bc_readers b) \<and> br_pc (bc_readers b ! l) \<noteq> LaneEnded}"

lemma live_readers_none: "all_readers_ended b \<longleftrightarrow> live_readers b = 0"
  by (auto simp: all_readers_ended_def live_readers_def list_all_length)

lemma live_readers_end:
  assumes "l < length (bc_readers b)" and "br_pc (bc_readers b ! l) \<noteq> LaneEnded" and "br_pc (f (bc_readers b ! l)) = LaneEnded"
  shows "live_readers (upd_reader l f b) < live_readers b"
  unfolding live_readers_def using assms by (intro psubset_card_mono) (auto simp: upd_reader_def nth_list_update split: if_splits)

lemma live_readers_same: "br_pc (f (bc_readers b ! l)) = br_pc (bc_readers b ! l) \<Longrightarrow> live_readers (upd_reader l f b) = live_readers b"
proof -
  assume "br_pc (f (bc_readers b ! l)) = br_pc (bc_readers b ! l)"
  then have "x < length (bc_readers b) \<Longrightarrow> br_pc ((bc_readers b)[l := f (bc_readers b ! l)] ! x) = br_pc (bc_readers b ! x)" for x
    by (cases "l = x") simp_all
  then show ?thesis unfolding live_readers_def by (intro arg_cong [of _ _ card]) (auto simp: upd_reader_def)
qed

lemma reader_can_end:
  assumes "l < length (bc_readers b)" and "br_pc (bc_readers b ! l) \<noteq> LaneEnded" and "bc_cancelled b"
  shows "\<exists>b'. bond_client_step\<^sup>*\<^sup>* b b' \<and> bc_cancelled b' \<and> live_readers b' < live_readers b"
proof (cases "br_pc (bc_readers b ! l)")
  case LaneRead
  let ?b = "upd_reader l (\<lambda>r. r\<lparr>br_input := \<lparr>rd_bytes = [], rd_end = ErrIO ''closed''\<rparr>\<rparr>) b"
  have l: "l < length (bc_readers ?b)" "br_pc (bc_readers ?b ! l) = LaneRead" "bc_cancelled ?b"
    using assms LaneRead by (simp_all add: upd_reader_def)
  have same: "live_readers ?b = live_readers b" by (rule live_readers_same) simp
  obtain e rest where e: "client_readBondFrame (br_input (bc_readers ?b ! l)) = (Inl e, rest)"
    using readBondFrame_end [of "br_input (bc_readers ?b ! l)"] assms(1) by (simp add: client_readBondFrame_eq upd_reader_def)
  then have "live_readers (lane_read l ?b) < live_readers b" "bc_cancelled (lane_read l ?b)"
    using live_readers_end [OF l(1)] l(2,3) same by (simp_all add: lane_read_def) (simp add: upd_reader_def)
  moreover have "bond_client_step b ?b" "bond_client_step ?b (lane_read l ?b)"
    using assms(1) l by (auto intro: bond_client_step.intros)
  ultimately show ?thesis by (meson converse_rtranclp_into_rtranclp rtranclp.rtrancl_refl)
next
  case (LaneSend f)
  let ?b = "upd_reader l (\<lambda>r. r\<lparr>br_pc := LaneEnded\<rparr>) b"
  have "bond_client_step b ?b"
    using assms LaneSend by (intro bond_client_step.leave [of l _ f]) (simp_all add: lane_leave_def)
  moreover have "live_readers ?b < live_readers b" using assms by (intro live_readers_end) simp_all
  moreover have "bc_cancelled ?b" using assms by (simp add: upd_reader_def)
  ultimately show ?thesis by blast
next
  case LaneEnded
  then show ?thesis using assms by simp
qed

lemma readers_can_end:
  assumes "bc_cancelled b"
  shows "\<exists>b'. bond_client_step\<^sup>*\<^sup>* b b' \<and> bc_cancelled b' \<and> all_readers_ended b'"
  using assms
proof (induction "live_readers b" arbitrary: b rule: less_induct)
  case less
  show ?case
  proof (cases "all_readers_ended b")
    case True
    then show ?thesis using less.prems by blast
  next
    case False
    then obtain l where "l < length (bc_readers b)" "br_pc (bc_readers b ! l) \<noteq> LaneEnded"
      by (auto simp: all_readers_ended_def list_all_length)
    then obtain b1 where b1: "bond_client_step\<^sup>*\<^sup>* b b1" "bc_cancelled b1" "live_readers b1 < live_readers b"
      using reader_can_end less.prems by blast
    then show ?thesis using less.hyps [OF b1(3,2)] by (meson rtranclp_trans)
  qed
qed

text \<open>The other goroutines: each of them ends in at most one step.\<close>

definition ended_ctx :: "bond_client_conn \<Rightarrow> bool" where
  "ended_ctx b \<longleftrightarrow> bc_cancelled b \<and> all_readers_ended b"

lemma close_can_happen: "ended_ctx b \<Longrightarrow> \<exists>b'. bond_client_step\<^sup>*\<^sup>* b b' \<and> ended_ctx b' \<and> bc_chClosed b'"
proof (cases "bc_chClosed b")
  case False
  assume "ended_ctx b"
  then have "bond_client_step b (close_channel b)" "ended_ctx (close_channel b)" "bc_chClosed (close_channel b)"
    using False bond_client_step.close [of b] by (simp_all add: ended_ctx_def close_channel_def all_readers_ended_def)
  then show ?thesis by blast
qed auto

lemma up_can_end: "ended_ctx b \<Longrightarrow> bc_chClosed b
    \<Longrightarrow> \<exists>b'. bond_client_step\<^sup>*\<^sup>* b b' \<and> ended_ctx b' \<and> bc_chClosed b' \<and> \<not> bc_upRunning b'"
proof (cases "bc_upRunning b")
  case True
  assume "ended_ctx b" "bc_chClosed b"
  then have "bond_client_step b (b\<lparr>bc_upRunning := False\<rparr>) \<and> ended_ctx (b\<lparr>bc_upRunning := False\<rparr>)"
    using bond_client_step.up [OF True] by (simp add: ended_ctx_def all_readers_ended_def)
  then show ?thesis using \<open>bc_chClosed b\<close> by (intro exI [of _ "b\<lparr>bc_upRunning := False\<rparr>"]) auto
qed auto

lemma down_can_end:
  assumes "ended_ctx b" and "bc_chClosed b" and "\<not> bc_upRunning b"
  shows "\<exists>b'. bond_client_step\<^sup>*\<^sup>* b b' \<and> ended_ctx b' \<and> bc_chClosed b' \<and> \<not> bc_upRunning b' \<and> \<not> bc_downRunning b'"
proof (cases "bc_downRunning b")
  case True
  obtain b' where b': "client_down_turn True b = Some b'" "\<exists>st. b' = down_stop (b\<lparr>bc_down := st\<rparr>) \<or> b' = down_stop b"
    using assms(1) by (cases "cr_status (client_check_fin (bc_down b)) = Running")
      (auto simp: client_down_turn_def ended_ctx_def Let_def)
  then have "ended_ctx b' \<and> bc_chClosed b' \<and> \<not> bc_upRunning b' \<and> \<not> bc_downRunning b'"
    using assms by (auto simp: ended_ctx_def down_stop_def all_readers_ended_def)
  then show ?thesis using bond_client_step.down [OF True b'(1)] by blast
qed (use assms in auto)

lemma loops_can_end:
  assumes "ended_ctx b"
  shows "\<exists>b'. bond_client_step\<^sup>*\<^sup>* b b' \<and> ended_ctx b' \<and> bc_chClosed b' \<and> \<not> bc_upRunning b' \<and> \<not> bc_downRunning b'"
  using close_can_happen [OF assms] up_can_end down_can_end by (meson rtranclp_trans)

lemma bonded_download_ends:
  assumes "bc_cancelled b"
  shows "\<exists>b'. bond_client_step\<^sup>*\<^sup>* b b' \<and> bc_returned b' \<and> bc_chClosed b' \<and> all_readers_ended b'"
proof -
  obtain b1 where b1: "bond_client_step\<^sup>*\<^sup>* b b1" "bc_cancelled b1" "all_readers_ended b1"
    using readers_can_end assms by blast
  obtain b2 where b2: "bond_client_step\<^sup>*\<^sup>* b1 b2" "all_readers_ended b2" "bc_chClosed b2" "\<not> bc_downRunning b2" "\<not> bc_upRunning b2"
    using loops_can_end [of b1] b1(2,3) by (auto simp: ended_ctx_def)
  show ?thesis
  proof (cases "bc_returned b2")
    case True
    then show ?thesis using b1(1) b2 by (meson rtranclp_trans)
  next
    case False
    then have "bond_client_step b2 (conn_return b2)" using b2 by (intro bond_client_step.return)
    moreover have "bc_returned (conn_return b2)" "bc_chClosed (conn_return b2)" "all_readers_ended (conn_return b2)"
      using b2 by (simp_all add: conn_return_def all_readers_ended_def list_all_iff)
    ultimately show ?thesis using b1(1) b2(1) by (meson rtranclp.rtrancl_into_rtrancl rtranclp_trans)
  qed
qed

subsection \<open>A sample run\<close>

text \<open>Two lanes: the end of the stream is read before its only chunk.\<close>

definition down_chunks :: "bytes list" where "down_chunks = [[1, 2]]"

definition down_lanes :: "(reader \<times> u64) list" where
  "down_lanes =
     [(\<lparr>rd_bytes = encode_frame (fin_frame down_chunks), rd_end = EOF\<rparr>, 0),
      (\<lparr>rd_bytes = encode_frame (chunk_frame down_chunks 0), rd_end = EOF\<rparr>, 0)]"

lemma down_lanes_src: "list_all (\<lambda>(inp, n). lane_src down_chunks inp) down_lanes"
proof -
  have "lane_src down_chunks \<lparr>rd_bytes = encode_frame f, rd_end = EOF\<rparr>" if "genuine down_chunks f" "frame_ok f" for f
    unfolding lane_src_def using that by (intro exI [of _ "[f]"] exI [of _ "[]"]) (simp add: readBondFrame_end)
  then show ?thesis
    by (simp add: down_lanes_def genuine_def frame_ok_def fin_frame_def chunk_frame_def) (simp add: down_chunks_def)
qed


text \<open>The states of the run, one per step.\<close>

definition down_states :: "bond_client_conn list" where
  "down_states =
     (let b0 = bond_client_start \<lparr>cn_sent = [], cn_script = []\<rparr> down_lanes;
          b1 = lane_read 0 b0;
          b2 = the (lane_send 0 (fin_frame down_chunks) b1);
          b3 = lane_read 1 b2;
          b4 = the (lane_send 1 (chunk_frame down_chunks 0) b3);
          b5 = the (client_down_turn False b4);
          b6 = the (client_down_turn False b5);
          b7 = the (client_down_turn False b6)
      in [b0, b1, b2, b3, b4, b5, b6, b7])"

lemma down_states_turns:
  "lane_send 0 (fin_frame down_chunks) (down_states ! 1) \<noteq> None"
  "lane_send 1 (chunk_frame down_chunks 0) (down_states ! 3) \<noteq> None"
  "client_down_turn False (down_states ! 4) \<noteq> None" "client_down_turn False (down_states ! 5) \<noteq> None"
  "client_down_turn False (down_states ! 6) \<noteq> None"
  "bc_downRunning (down_states ! 4) \<and> bc_downRunning (down_states ! 5) \<and> bc_downRunning (down_states ! 6)"
  "list_all (\<lambda>i. length (bc_readers (down_states ! i)) = 2) [0, 1, 2, 3]"
  "br_pc (bc_readers (down_states ! 0) ! 0) = LaneRead" "br_pc (bc_readers (down_states ! 2) ! 1) = LaneRead"
  "br_pc (bc_readers (down_states ! 1) ! 0) = LaneSend (fin_frame down_chunks)"
  "br_pc (bc_readers (down_states ! 3) ! 1) = LaneSend (chunk_frame down_chunks 0)"
  "cr_writeClosed (bc_down (down_states ! 7))"
  by code_simp+

lemma down_states_next:
  "down_states ! 1 = lane_read 0 (down_states ! 0)" "down_states ! 3 = lane_read 1 (down_states ! 2)"
  "down_states ! 2 = the (lane_send 0 (fin_frame down_chunks) (down_states ! 1))"
  "down_states ! 4 = the (lane_send 1 (chunk_frame down_chunks 0) (down_states ! 3))"
  "down_states ! 5 = the (client_down_turn False (down_states ! 4))" "down_states ! 6 = the (client_down_turn False (down_states ! 5))"
  "down_states ! 7 = the (client_down_turn False (down_states ! 6))"
  "down_states ! 0 = bond_client_start \<lparr>cn_sent = [], cn_script = []\<rparr> down_lanes"
  by (simp_all add: down_states_def Let_def)

lemma down_states_steps: "bond_client_step\<^sup>*\<^sup>* (bond_client_start \<lparr>cn_sent = [], cn_script = []\<rparr> down_lanes) (down_states ! 7)"
proof -
  note t = down_states_turns and n = down_states_next
  have "bond_client_step (down_states ! 0) (down_states ! 1)" unfolding n(1) using t(7,8) by (intro bond_client_step.read) simp_all
  moreover have "bond_client_step (down_states ! 1) (down_states ! 2)"
    using t(1,7,10) n(3) by (intro bond_client_step.send [of 0 _ "fin_frame down_chunks"]) auto
  moreover have "bond_client_step (down_states ! 2) (down_states ! 3)" unfolding n(2) using t(7,9) by (intro bond_client_step.read) simp_all
  moreover have "bond_client_step (down_states ! 3) (down_states ! 4)"
    using t(2,7,11) n(4) by (intro bond_client_step.send [of 1 _ "chunk_frame down_chunks 0"]) auto
  moreover have "bond_client_step (down_states ! 4) (down_states ! 5)" "bond_client_step (down_states ! 5) (down_states ! 6)"
    "bond_client_step (down_states ! 6) (down_states ! 7)"
    using t(3-6) n(5-7) by (auto intro!: bond_client_step.down [of _ False])
  ultimately show ?thesis unfolding n(8) [symmetric] by (meson converse_rtranclp_into_rtranclp rtranclp.rtrancl_refl)
qed

text \<open>C37: The download of a bonded connection, in every interleaving of its goroutines and whatever happens to the lanes: if
  the frames on the lanes are those of one stream (each at most once or many times, in any order, split over the lanes in
  any way, lanes cut in the middle of a frame), the local program receives a prefix of that stream, the end of the stream
  is signalled to it only after all of it, no goroutine ever sends on the closed channel, the channel never holds more
  than 1024 frames, the handler returns only after both loops, and it can return from every state in which the
  connection is cancelled, which is the case as soon as the download has ended; the goroutines of the lanes are then
  gone.\<close>

theorem bonded_download_safe:
  assumes "list_all (\<lambda>(inp, n). lane_src chunks inp) lanes" and "length chunks < 2 ^ 64"
    and "bond_client_step\<^sup>*\<^sup>* (bond_client_start \<lparr>cn_sent = [], cn_script = script\<rparr> lanes) b"
  shows "(\<exists>m. cn_sent (cr_conn (bc_down b)) = take m (concat chunks))
    \<and> (cr_writeClosed (bc_down b) \<longrightarrow> cn_sent (cr_conn (bc_down b)) = concat chunks)
    \<and> \<not> bc_panicked b \<and> length (bc_recvCh b) \<le> 1024
    \<and> (bc_returned b \<longrightarrow> \<not> bc_downRunning b \<and> \<not> bc_upRunning b)
    \<and> (bc_downRunning b \<or> bc_cancelled b)
    \<and> (bc_cancelled b \<longrightarrow> (\<exists>b'. bond_client_step\<^sup>*\<^sup>* b b' \<and> bc_returned b' \<and> bc_chClosed b' \<and> all_readers_ended b'))"
proof -
  have ok: "bond_client_ok chunks b" using bond_client_reachable_ok [OF assms] .
  moreover have "down_good chunks b" using ok by (simp add: bond_client_ok_def)
  ultimately show ?thesis using bonded_download_ends [of b]
    by (auto simp: bond_client_ok_def down_good_def clientRecvCap_def)
qed

theorem bonded_download_safe_witness: "cn_sent (cr_conn (bc_down (down_states ! 7))) = [1, 2]"
proof -
  have "length down_chunks < 2 ^ 64" by (simp add: down_chunks_def)
  then show ?thesis
    using bonded_download_safe [OF down_lanes_src _ down_states_steps] down_states_turns(12) by (simp add: down_chunks_def)
qed

end
