(* ===== verification/Vless_Server.thy ===== *)
theory Vless_Server
  imports Stream_Proxy Kcp_Profile Server_Metrics
begin

text \<open>
  A connection in VLESS mode (\<open>handleVLESSConnection\<close> of \<open>server/main.go\<close>): the KCP session over DTLS and the smux
  session over it are opened, every stream the client opens gets a goroutine, and when no more streams can be accepted
  the handler waits for these goroutines and its deferred calls close the layers. The pipes inside are those of
  \<open>Stream_Proxy\<close>; what a bonded lane does is in \<open>Bond_Server\<close>, here such a goroutine only ends at some time. A step is an
  action of one goroutine; what the network, the libraries and the backend answer is up to the environment.
\<close>

section \<open>State\<close>

text \<open>The layers with a deferred call, in the order in which they are opened.\<close>

datatype server_layer = ThroughputLog | KcpLayer | SmuxLayer

datatype layer_event = LayerOpened server_layer | LayerClosed server_layer

datatype vless_stream_pc = PrefixRead | BondLane | BackendDial bytes | PipeRun bytes server_pipe | StreamEnded

record server_stream =
  vs_pc :: vless_stream_pc
  vs_open :: bool
  vs_backend :: bool

datatype vless_pc = VhKcp | VhSmux | VhAccept | VhWait | VhDefers | VhReturned

record vless_handler =
  vh_pc :: vless_pc
  vh_deferred :: "server_layer list"
  vh_streams :: "server_stream list"
  vh_sessionDead :: bool
  vh_ctxDone :: bool
  vh_metrics :: serverMetrics
  vh_events :: "layer_event list"

text \<open>The handler starts with its connection and the log of the throughput.\<close>

definition vless_handler_start :: "serverMetrics \<Rightarrow> vless_handler" where
  "vless_handler_start m =
     \<lparr>vh_pc = VhKcp, vh_deferred = [ThroughputLog], vh_streams = [], vh_sessionDead = False, vh_ctxDone = False,
      vh_metrics = m, vh_events = [LayerOpened ThroughputLog]\<rparr>"

section \<open>The handler\<close>

text \<open>\<open>return\<close>: the deferred calls run, one after the other, the last one first.\<close>

definition vh_return :: "vless_handler \<Rightarrow> vless_handler" where
  "vh_return h = h\<lparr>vh_pc := VhDefers\<rparr>"

definition vh_run_deferred :: "vless_handler \<Rightarrow> vless_handler" where
  "vh_run_deferred h =
     (case vh_deferred h of
        [] \<Rightarrow> h\<lparr>vh_pc := VhReturned\<rparr>
      | layer # rest \<Rightarrow> h\<lparr>vh_deferred := rest, vh_events := vh_events h @ [LayerClosed layer]\<rparr>)"

definition vh_defer :: "server_layer \<Rightarrow> vless_pc \<Rightarrow> vless_handler \<Rightarrow> vless_handler" where
  "vh_defer layer pc h =
     h\<lparr>vh_pc := pc, vh_deferred := layer # vh_deferred h, vh_events := vh_events h @ [LayerOpened layer]\<rparr>"

definition open_kcp_layer :: "kcp_env \<Rightarrow> (string \<Rightarrow> string) \<Rightarrow> vless_handler \<Rightarrow> vless_handler" where
  "open_kcp_layer E env h =
     (case snd (NewKCPOverDTLS E env True) of Inl e \<Rightarrow> vh_return h | Inr _ \<Rightarrow> vh_defer KcpLayer VhSmux h)"

definition open_smux_layer :: "string option \<Rightarrow> vless_handler \<Rightarrow> vless_handler" where
  "open_smux_layer err h = (case err of Some e \<Rightarrow> vh_return h | None \<Rightarrow> vh_defer SmuxLayer VhAccept h)"

text \<open>\<open>AcceptStream\<close>: a new stream gets its goroutine; an error ends the loop, whatever the context.\<close>

definition new_server_stream :: server_stream where
  "new_server_stream = \<lparr>vs_pc = PrefixRead, vs_open = True, vs_backend = False\<rparr>"

definition vh_accept :: "vless_handler \<Rightarrow> vless_handler" where
  "vh_accept h = h\<lparr>vh_streams := vh_streams h @ [new_server_stream]\<rparr>"

definition vh_accept_error :: "vless_handler \<Rightarrow> vless_handler" where
  "vh_accept_error h = h\<lparr>vh_pc := VhWait\<rparr>"

definition streams_ended :: "vless_handler \<Rightarrow> bool" where
  "streams_ended h = list_all (\<lambda>s. vs_pc s = StreamEnded) (vh_streams h)"

section \<open>The goroutine of a stream\<close>

definition upd_stream :: "nat \<Rightarrow> (server_stream \<Rightarrow> server_stream) \<Rightarrow> vless_handler \<Rightarrow> vless_handler" where
  "upd_stream i f h = h\<lparr>vh_streams := (vh_streams h)[i := f (vh_streams h ! i)]\<rparr>"

definition end_stream :: "server_stream \<Rightarrow> server_stream" where
  "end_stream s = s\<lparr>vs_pc := StreamEnded, vs_open := False, vs_backend := False\<rparr>"

text \<open>The four bytes that tell a bonded lane from a plain stream; a stream that ends before them is closed.\<close>

definition stream_prefix :: "reader \<Rightarrow> server_stream \<Rightarrow> server_stream" where
  "stream_prefix inp s =
     (case fst (accept_stream inp) of
        DropStream \<Rightarrow> end_stream s
      | BondStream pre \<Rightarrow> s\<lparr>vs_pc := BondLane\<rparr>
      | PlainStream pre \<Rightarrow> s\<lparr>vs_pc := BackendDial pre\<rparr>)"

definition stream_dial :: "nat \<Rightarrow> bytes \<Rightarrow> string option \<Rightarrow> vless_handler \<Rightarrow> vless_handler" where
  "stream_dial i pre err h =
     (case err of
        Some e \<Rightarrow> upd_stream i end_stream (h\<lparr>vh_metrics := recordBackendError ''dial'' (vh_metrics h)\<rparr>)
      | None \<Rightarrow> upd_stream i (\<lambda>s. s\<lparr>vs_pc := PipeRun pre (server_pipe_start pre), vs_backend := True\<rparr>) h)"

definition stream_pipe :: "bytes \<Rightarrow> server_pipe \<Rightarrow> server_stream \<Rightarrow> server_stream" where
  "stream_pipe pre p s = s\<lparr>vs_pc := PipeRun pre p\<rparr>"

definition stream_at :: "vless_handler \<Rightarrow> nat \<Rightarrow> vless_stream_pc \<Rightarrow> bool" where
  "stream_at h i pc \<longleftrightarrow> i < length (vh_streams h) \<and> vs_pc (vh_streams h ! i) = pc"

text \<open>\<open>session_dies\<close> is the end of the session: the client closes it or stops answering the keep-alives, or the connection
  below it fails. \<open>AcceptStream\<close> of the smux library fails when the session is closed or when the deadline the program
  has set for it passes; this program sets none.\<close>

inductive vless_handler_step :: "vless_handler \<Rightarrow> vless_handler \<Rightarrow> bool" where
  kcp: "vh_pc h = VhKcp \<Longrightarrow> vless_handler_step h (open_kcp_layer E env h)"
| smux: "vh_pc h = VhSmux \<Longrightarrow> vless_handler_step h (open_smux_layer err h)"
| accept: "vh_pc h = VhAccept \<Longrightarrow> vless_handler_step h (vh_accept h)"
| accept_error: "vh_pc h = VhAccept \<Longrightarrow> vh_sessionDead h \<Longrightarrow> vless_handler_step h (vh_accept_error h)"
| wait: "vh_pc h = VhWait \<Longrightarrow> streams_ended h \<Longrightarrow> vless_handler_step h (vh_return h)"
| deferred: "vh_pc h = VhDefers \<Longrightarrow> vless_handler_step h (vh_run_deferred h)"
| prefix: "stream_at h i PrefixRead \<Longrightarrow> vless_handler_step h (upd_stream i (stream_prefix inp) h)"
| bond: "stream_at h i BondLane \<Longrightarrow> vless_handler_step h (upd_stream i end_stream h)"
| dial: "stream_at h i (BackendDial pre) \<Longrightarrow> vless_handler_step h (stream_dial i pre err h)"
| pipe: "stream_at h i (PipeRun pre p) \<Longrightarrow> pipeConn_step p p' \<Longrightarrow> vless_handler_step h (upd_stream i (stream_pipe pre p') h)"
| pipe_end: "stream_at h i (PipeRun pre p) \<Longrightarrow> sp_returned p \<Longrightarrow> vless_handler_step h (upd_stream i end_stream h)"
| session_dies: "vless_handler_step h (h\<lparr>vh_sessionDead := True\<rparr>)"
| ctx_done: "vless_handler_step h (h\<lparr>vh_ctxDone := True\<rparr>)"

inductive_cases vless_handler_stepE: "vless_handler_step h h'"

section \<open>Invariant\<close>

definition server_layers :: "server_layer list" where
  "server_layers = [ThroughputLog, KcpLayer, SmuxLayer]"

definition stream_ok :: "server_stream \<Rightarrow> bool" where
  "stream_ok s \<longleftrightarrow>
     (vs_open s \<longleftrightarrow> vs_pc s \<noteq> StreamEnded) \<and> (vs_backend s \<longleftrightarrow> (\<exists>pre p. vs_pc s = PipeRun pre p)) \<and>
     (case vs_pc s of PipeRun pre p \<Rightarrow> server_pipe_ok pre p | _ \<Rightarrow> True)"

text \<open>How many layers are open in a phase.\<close>

definition layers_open :: "vless_pc \<Rightarrow> nat" where
  "layers_open pc = (case pc of VhKcp \<Rightarrow> 1 | VhSmux \<Rightarrow> 2 | VhAccept \<Rightarrow> 3 | VhWait \<Rightarrow> 3 | _ \<Rightarrow> 0)"

definition returning :: "vless_handler \<Rightarrow> bool" where
  "returning h \<longleftrightarrow> vh_pc h \<in> {VhDefers, VhReturned}"

definition closing_ok :: "vless_handler \<Rightarrow> bool" where
  "closing_ok h \<longleftrightarrow>
     (\<exists>n \<in> {1, 2, 3}. \<exists>k \<le> n. vh_deferred h = drop k (rev (take n server_layers)) \<and>
        vh_events h = map LayerOpened (take n server_layers) @ map LayerClosed (take k (rev (take n server_layers))))"

lemma closing_ok_frame [simp]:
  "closing_ok (h\<lparr>vh_metrics := m\<rparr>) = closing_ok h" "closing_ok (h\<lparr>vh_sessionDead := b\<rparr>) = closing_ok h"
  "closing_ok (h\<lparr>vh_ctxDone := b\<rparr>) = closing_ok h" "closing_ok (h\<lparr>vh_pc := pc\<rparr>) = closing_ok h"
  by (simp_all add: closing_ok_def)

definition events_ok :: "vless_handler \<Rightarrow> bool" where
  "events_ok h \<longleftrightarrow>
     (if returning h then closing_ok h \<and> (vh_pc h = VhReturned \<longrightarrow> vh_deferred h = [])
      else vh_deferred h = rev (take (layers_open (vh_pc h)) server_layers) \<and>
        vh_events h = map LayerOpened (take (layers_open (vh_pc h)) server_layers))"

definition vless_handler_ok :: "vless_handler \<Rightarrow> bool" where
  "vless_handler_ok h \<longleftrightarrow>
     events_ok h \<and> list_all stream_ok (vh_streams h) \<and>
     (vh_pc h \<in> {VhKcp, VhSmux} \<longrightarrow> vh_streams h = []) \<and>
     (vh_pc h = VhWait \<or> returning h \<and> LayerOpened SmuxLayer \<in> set (vh_events h) \<longrightarrow> vh_sessionDead h) \<and>
     (returning h \<longrightarrow> streams_ended h)"

lemma server_layers_take [simp]: "take 1 server_layers = [ThroughputLog]" "take (Suc 0) server_layers = [ThroughputLog]"
  "take 2 server_layers = [ThroughputLog, KcpLayer]" "take 3 server_layers = [ThroughputLog, KcpLayer, SmuxLayer]"
  by (simp_all add: server_layers_def take_Cons')

lemma vless_handler_start_ok: "vless_handler_ok (vless_handler_start m)"
  by (simp add: vless_handler_ok_def events_ok_def vless_handler_start_def layers_open_def returning_def)

lemma stream_update_ok:
  assumes "vless_handler_ok h" and "stream_at h i pc" and "pc \<noteq> StreamEnded" and "stream_ok (f (vh_streams h ! i))"
  shows "vless_handler_ok (upd_stream i f h)"
proof -
  have i: "i < length (vh_streams h)" "vs_pc (vh_streams h ! i) \<noteq> StreamEnded" using assms(2,3) by (auto simp: stream_at_def)
  then have "\<not> returning h" using assms(1) by (auto simp: vless_handler_ok_def streams_ended_def list_all_length)
  moreover have "list_all stream_ok ((vh_streams h)[i := f (vh_streams h ! i)])"
    using assms(1,4) by (auto simp: vless_handler_ok_def list_all_iff dest!: set_update_subset_insert [THEN subsetD])
  ultimately show ?thesis using assms(1) i by (auto simp: vless_handler_ok_def upd_stream_def events_ok_def returning_def)
qed

lemma handler_metrics_ok [simp]: "vless_handler_ok (h\<lparr>vh_metrics := m\<rparr>) = vless_handler_ok h"
  by (simp add: vless_handler_ok_def events_ok_def streams_ended_def returning_def)

lemma stream_at_ok: "vless_handler_ok h \<Longrightarrow> stream_at h i pc \<Longrightarrow> stream_ok (vh_streams h ! i)"
  by (auto simp: vless_handler_ok_def stream_at_def list_all_length)

lemma end_stream_ok [simp]: "stream_ok (end_stream s)"
  by (simp add: stream_ok_def end_stream_def)

lemma closing_okE:
  assumes "closing_ok h"
  obtains n k where "n \<in> {1, 2, 3}" and "length (take n server_layers) = n" and "k \<le> n"
    and "vh_deferred h = drop k (rev (take n server_layers))"
    and "vh_events h = map LayerOpened (take n server_layers) @ map LayerClosed (take k (rev (take n server_layers)))"
proof -
  obtain n k where n: "n \<in> {1, 2, 3}" and k: "k \<le> n" "vh_deferred h = drop k (rev (take n server_layers))"
    "vh_events h = map LayerOpened (take n server_layers) @ map LayerClosed (take k (rev (take n server_layers)))"
    using assms unfolding closing_ok_def by blast
  moreover have "length (take n server_layers) = n" using n by (auto simp: server_layers_def)
  ultimately show ?thesis using that by blast
qed

lemma closing_okI:
  "n \<in> {1, 2, 3} \<Longrightarrow> k \<le> n \<Longrightarrow> vh_deferred h = drop k (rev (take n server_layers)) \<Longrightarrow>
   vh_events h = map LayerOpened (take n server_layers) @ map LayerClosed (take k (rev (take n server_layers))) \<Longrightarrow> closing_ok h"
  unfolding closing_ok_def by blast

lemma vh_return_ok:
  assumes "vless_handler_ok h" and "\<not> returning h" and "streams_ended h" and "vh_pc h \<in> {VhKcp, VhSmux} \<or> vh_sessionDead h"
  shows "vless_handler_ok (vh_return h)"
proof -
  have n: "layers_open (vh_pc h) \<in> {1, 2, 3}" using assms(2) by (cases "vh_pc h") (simp_all add: layers_open_def returning_def)
  have "closing_ok (vh_return h)" using assms(1,2)
    by (intro closing_okI [OF n, of 0]) (simp_all add: vless_handler_ok_def events_ok_def vh_return_def)
  then show ?thesis using assms n
    by (cases "vh_pc h") (auto simp: vless_handler_ok_def vh_return_def returning_def streams_ended_def events_ok_def layers_open_def)
qed

lemma deferred_next:
  assumes "closing_ok h" and "vh_deferred h = layer # rest"
  shows "closing_ok (vh_run_deferred h)"
proof -
  obtain n k where n: "n \<in> {1, 2, 3}" "length (take n server_layers) = n" and k: "k \<le> n"
    "vh_deferred h = drop k (rev (take n server_layers))"
    "vh_events h = map LayerOpened (take n server_layers) @ map LayerClosed (take k (rev (take n server_layers)))"
    using assms(1) by (rule closing_okE)
  let ?ls = "rev (take n server_layers)"
  have "k < length ?ls" using k(2) assms(2) by (metis drop_all leI list.discI)
  then have "layer = ?ls ! k" "rest = drop (Suc k) ?ls" "take (Suc k) ?ls = take k ?ls @ [?ls ! k]"
    using k(2) assms(2) by (metis Cons_nth_drop_Suc list.inject, metis Cons_nth_drop_Suc list.inject, simp only: take_Suc_conv_app_nth)
  moreover have "Suc k \<le> n" using \<open>k < length ?ls\<close> n(2) by simp
  ultimately show ?thesis using assms(2) k(3)
    by (intro closing_okI [OF n(1), of "Suc k"]) (simp_all add: vh_run_deferred_def)
qed

lemma vh_run_deferred_ok:
  assumes "vless_handler_ok h" and pc: "vh_pc h = VhDefers"
  shows "vless_handler_ok (vh_run_deferred h)"
proof -
  have ok: "closing_ok h" using assms by (simp add: vless_handler_ok_def events_ok_def returning_def)
  show ?thesis
  proof (cases "vh_deferred h")
    case Nil
    then have "vh_run_deferred h = h\<lparr>vh_pc := VhReturned\<rparr>" by (simp add: vh_run_deferred_def)
    then show ?thesis using assms Nil by (simp add: vless_handler_ok_def events_ok_def returning_def streams_ended_def closing_ok_def)
  next
    case (Cons layer rest)
    have "vh_pc (vh_run_deferred h) = VhDefers" using pc Cons by (simp add: vh_run_deferred_def)
    then show ?thesis using assms(1) deferred_next [OF ok Cons] Cons pc
      by (auto simp: vless_handler_ok_def events_ok_def returning_def streams_ended_def vh_run_deferred_def)
  qed
qed

lemma vless_handler_step_ok: "vless_handler_step h h' \<Longrightarrow> vless_handler_ok h \<Longrightarrow> vless_handler_ok h'"
proof (induction rule: vless_handler_step.induct)
  case (kcp h E env)
  then have "streams_ended h" by (simp add: vless_handler_ok_def streams_ended_def)
  then show ?case using kcp vh_return_ok [of h]
    by (auto simp: open_kcp_layer_def vh_defer_def vless_handler_ok_def events_ok_def layers_open_def returning_def split: sum.split)
next
  case (smux h err)
  then have "streams_ended h" by (simp add: vless_handler_ok_def streams_ended_def)
  then show ?case using smux vh_return_ok [of h]
    by (auto simp: open_smux_layer_def vh_defer_def vless_handler_ok_def events_ok_def layers_open_def returning_def split: option.split)
next
  case (accept h)
  then show ?case
    by (auto simp: vh_accept_def vless_handler_ok_def events_ok_def new_server_stream_def stream_ok_def layers_open_def returning_def)
next
  case (accept_error h)
  then show ?case by (auto simp: vh_accept_error_def vless_handler_ok_def events_ok_def layers_open_def returning_def)
next
  case (wait h)
  then show ?case using vh_return_ok [of h] by (auto simp: vless_handler_ok_def returning_def)
next
  case (deferred h)
  then show ?case by (intro vh_run_deferred_ok)
next
  case (prefix h i inp)
  then show ?case using stream_at_ok [of h i]
    by (intro stream_update_ok) (auto simp: stream_prefix_def stream_ok_def stream_at_def end_stream_def split: stream_plan.split)
next
  case (bond h i)
  then show ?case by (intro stream_update_ok) auto
next
  case (dial h i pre err)
  then show ?case using stream_at_ok [of h i] server_pipe_start_ok [of pre]
    by (cases err) (auto simp: stream_dial_def stream_ok_def stream_at_def end_stream_def intro!: stream_update_ok)
next
  case (pipe h i pre p p')
  then show ?case using stream_at_ok [of h i] pipeConn_step_ok
    by (intro stream_update_ok) (auto simp: stream_pipe_def stream_ok_def stream_at_def)
next
  case (pipe_end h i pre p)
  then show ?case by (intro stream_update_ok) auto
next
  case (session_dies h)
  then show ?case by (auto simp: vless_handler_ok_def events_ok_def streams_ended_def returning_def)
next
  case (ctx_done h)
  then show ?case by (auto simp: vless_handler_ok_def events_ok_def streams_ended_def returning_def)
qed

interpretation vless_handlers: invariant_system "\<lambda>h. \<exists>m. h = vless_handler_start m" vless_handler_step vless_handler_ok
  by unfold_locales (use vless_handler_start_ok vless_handler_step_ok in blast)+

section \<open>The end of a handler\<close>

text \<open>A pipe can always end: the connections answer with errors.\<close>

lemma copy_fail_ended: "cp_pc c = CopyWrite data e \<Longrightarrow> copy_ended (copy_write 0 True c)"
  by (simp add: copy_write_def copy_ended_def)

lemma up_copy_ends: "\<exists>p'. pipeConn_step\<^sup>*\<^sup>* p p' \<and> copy_ended (sp_up p') \<and> (sp_down p') = sp_down p"
proof -
  have failing: "\<exists>p'. pipeConn_step\<^sup>*\<^sup>* p p' \<and> copy_ended (sp_up p') \<and> sp_down p' = sp_down p" if "cp_pc (sp_up p) = CopyWrite data e" for p data e
    using pipeConn_step.up_write [OF that, of 0 True] copy_fail_ended [OF that]
    by (intro exI [of _ "p\<lparr>sp_up := copy_write 0 True (sp_up p)\<rparr>"]) auto
  show ?thesis
  proof (cases "cp_pc (sp_up p)")
    case CopyRead
    let ?p = "server_up_read ([], Some EOF) p"
    have "pipeConn_step p ?p" using CopyRead by (intro pipeConn_step.up_read) simp_all
    moreover have "copy_ended (sp_up ?p) \<or> (\<exists>data e. cp_pc (sp_up ?p) = CopyWrite data e)"
      by (auto simp: server_up_read_def prefixed_read_def copy_read_def copy_ended_def after_read_def copyBufferSize_def)
    moreover have "sp_down ?p = sp_down p" by (simp add: server_up_read_def split: prod.split)
    ultimately show ?thesis using failing [of ?p] by (metis converse_rtranclp_into_rtranclp rtranclp.rtrancl_refl)
  next
    case (CopyWrite data e)
    then show ?thesis by (rule failing)
  next
    case (CopyDone x)
    then show ?thesis by (auto simp: copy_ended_def)
  qed
qed

lemma down_copy_ends: "copy_ended (sp_up p) \<Longrightarrow> \<exists>p'. pipeConn_step\<^sup>*\<^sup>* p p' \<and> copy_ended (sp_up p') \<and> copy_ended (sp_down p')"
proof (cases "cp_pc (sp_down p)")
  case CopyRead
  assume "copy_ended (sp_up p)"
  moreover have "copy_ended (copy_read ([], Some EOF) (sp_down p))" by (simp add: copy_read_def copy_ended_def after_read_def)
  ultimately show ?thesis using pipeConn_step.down_read [OF CopyRead, of "([], Some EOF)"]
    by (intro exI [of _ "p\<lparr>sp_down := copy_read ([], Some EOF) (sp_down p)\<rparr>"]) auto
next
  case (CopyWrite data e)
  assume "copy_ended (sp_up p)"
  then show ?thesis using pipeConn_step.down_write [OF CopyWrite, of 0 True] copy_fail_ended [OF CopyWrite]
    by (intro exI [of _ "p\<lparr>sp_down := copy_write 0 True (sp_down p)\<rparr>"]) auto
next
  case (CopyDone x)
  assume "copy_ended (sp_up p)"
  then show ?thesis using CopyDone by (auto simp: copy_ended_def)
qed

lemma server_pipe_can_end: "\<exists>p'. pipeConn_step\<^sup>*\<^sup>* p p' \<and> sp_returned p'"
proof -
  obtain p1 where p1: "pipeConn_step\<^sup>*\<^sup>* p p1" "copy_ended (sp_up p1)" using up_copy_ends by blast
  obtain p2 where p2: "pipeConn_step\<^sup>*\<^sup>* p1 p2" "copy_ended (sp_up p2)" "copy_ended (sp_down p2)"
    using down_copy_ends p1(2) by blast
  show ?thesis
  proof (cases "sp_returned p2")
    case True
    then show ?thesis using p1(1) p2(1) by (meson rtranclp_trans)
  next
    case False
    then have "pipeConn_step p2 (p2\<lparr>sp_returned := True\<rparr>)" using p2 by (intro pipeConn_step.return)
    moreover have "sp_returned (p2\<lparr>sp_returned := True\<rparr>)" by simp
    ultimately show ?thesis using p1(1) p2(1) by (meson rtranclp.rtrancl_into_rtrancl rtranclp_trans)
  qed
qed

text \<open>What the end of one stream leaves as it was.\<close>

definition same_handler :: "vless_handler \<Rightarrow> vless_handler \<Rightarrow> bool" where
  "same_handler h h' \<longleftrightarrow> vh_pc h' = vh_pc h \<and> vh_sessionDead h' = vh_sessionDead h \<and> length (vh_streams h') = length (vh_streams h)"

lemma same_upd [simp]: "same_handler h (upd_stream i f h)" by (simp add: same_handler_def upd_stream_def)

definition running_streams :: "vless_handler \<Rightarrow> nat" where
  "running_streams h = card {i. i < length (vh_streams h) \<and> vs_pc (vh_streams h ! i) \<noteq> StreamEnded}"

lemma running_none: "streams_ended h \<longleftrightarrow> running_streams h = 0"
  by (auto simp: streams_ended_def running_streams_def list_all_length)

lemma running_end: "i < length (vh_streams h) \<Longrightarrow> vs_pc (vh_streams h ! i) \<noteq> StreamEnded \<Longrightarrow> vs_pc (f (vh_streams h ! i)) = StreamEnded
    \<Longrightarrow> running_streams (upd_stream i f h) < running_streams h"
  unfolding running_streams_def by (intro psubset_card_mono) (auto simp: upd_stream_def nth_list_update split: if_splits)

lemma pipe_steps_lift:
  "pipeConn_step\<^sup>*\<^sup>* p p' \<Longrightarrow> stream_at h i (PipeRun pre p)
    \<Longrightarrow> \<exists>h'. vless_handler_step\<^sup>*\<^sup>* h h' \<and> stream_at h' i (PipeRun pre p') \<and> same_handler h h' \<and> running_streams h' = running_streams h"
proof (induction rule: rtranclp_induct)
  case base
  then show ?case by (auto simp: same_handler_def)
next
  case (step p1 p2)
  then obtain h1 where h1: "vless_handler_step\<^sup>*\<^sup>* h h1" "stream_at h1 i (PipeRun pre p1)" "same_handler h h1" "running_streams h1 = running_streams h"
    by blast
  let ?h = "upd_stream i (stream_pipe pre p2) h1"
  have "vless_handler_step h1 ?h" by (rule vless_handler_step.pipe [OF h1(2) step.hyps(2)])
  moreover have "stream_at ?h i (PipeRun pre p2)" using h1(2) by (simp add: stream_at_def upd_stream_def stream_pipe_def)
  moreover have "running_streams ?h = running_streams h1" unfolding running_streams_def using h1(2)
    by (intro arg_cong [of _ _ card]) (auto simp: upd_stream_def nth_list_update stream_pipe_def stream_at_def split: if_splits)
  ultimately show ?case using h1 by (intro exI [of _ ?h]) (auto simp: same_handler_def upd_stream_def)
qed

lemma stream_can_end:
  assumes "i < length (vh_streams h)" and "vs_pc (vh_streams h ! i) \<noteq> StreamEnded"
  shows "\<exists>h'. vless_handler_step\<^sup>*\<^sup>* h h' \<and> vh_pc h' = vh_pc h \<and> vh_sessionDead h' = vh_sessionDead h \<and> running_streams h' < running_streams h"
proof -
  have one: "\<exists>h'. vless_handler_step\<^sup>*\<^sup>* h h' \<and> vh_pc h' = vh_pc h \<and> vh_sessionDead h' = vh_sessionDead h \<and> running_streams h' < running_streams h"
    if "vless_handler_step h (upd_stream i f h)" "vs_pc (f (vh_streams h ! i)) = StreamEnded" for f
    using that running_end [of i h f] assms by (intro exI [of _ "upd_stream i f h"]) (auto simp: upd_stream_def)
  show ?thesis
  proof (cases "vs_pc (vh_streams h ! i)")
    case PrefixRead
    then show ?thesis using assms
      by (intro one [of "stream_prefix \<lparr>rd_bytes = [], rd_end = EOF\<rparr>"] vless_handler_step.prefix)
        (simp_all add: stream_at_def stream_prefix_def accept_stream_cases end_stream_def)
  next
    case BondLane
    then show ?thesis using assms by (intro one [of end_stream] vless_handler_step.bond) (simp_all add: stream_at_def end_stream_def)
  next
    case (BackendDial pre)
    let ?h = "stream_dial i pre (Some ''refused'') h"
    have "vless_handler_step h ?h" using assms BackendDial by (intro vless_handler_step.dial) (simp add: stream_at_def)
    moreover have "running_streams ?h < running_streams h"
      using running_end [of i "h\<lparr>vh_metrics := recordBackendError ''dial'' (vh_metrics h)\<rparr>" end_stream] assms
      by (simp add: stream_dial_def end_stream_def running_streams_def)
    ultimately show ?thesis by (intro exI [of _ ?h]) (auto simp: stream_dial_def upd_stream_def)
  next
    case (PipeRun pre p)
    obtain p' where p': "pipeConn_step\<^sup>*\<^sup>* p p'" "sp_returned p'" using server_pipe_can_end by blast
    obtain h1 where h1: "vless_handler_step\<^sup>*\<^sup>* h h1" "stream_at h1 i (PipeRun pre p')" "same_handler h h1" "running_streams h1 = running_streams h"
      using pipe_steps_lift [OF p'(1), of h i pre] assms PipeRun by (auto simp: stream_at_def)
    let ?h = "upd_stream i end_stream h1"
    have "vless_handler_step h1 ?h" using h1(2) p'(2) by (rule vless_handler_step.pipe_end)
    moreover have "running_streams ?h < running_streams h1" using h1(2) by (intro running_end) (auto simp: stream_at_def end_stream_def)
    ultimately show ?thesis using h1 by (intro exI [of _ ?h]) (auto simp: same_handler_def upd_stream_def)
  next
    case StreamEnded
    then show ?thesis using assms by simp
  qed
qed

lemma streams_can_end:
  "\<exists>h'. vless_handler_step\<^sup>*\<^sup>* h h' \<and> vh_pc h' = vh_pc h \<and> vh_sessionDead h' = vh_sessionDead h \<and> streams_ended h'"
proof (induction "running_streams h" arbitrary: h rule: less_induct)
  case less
  show ?case
  proof (cases "streams_ended h")
    case True
    then show ?thesis by blast
  next
    case False
    then obtain i where "i < length (vh_streams h)" "vs_pc (vh_streams h ! i) \<noteq> StreamEnded"
      by (auto simp: streams_ended_def list_all_length)
    then obtain h1 where h1: "vless_handler_step\<^sup>*\<^sup>* h h1" "vh_pc h1 = vh_pc h" "vh_sessionDead h1 = vh_sessionDead h"
      "running_streams h1 < running_streams h" using stream_can_end by blast
    then show ?thesis using less [OF h1(4)] by (metis rtranclp_trans)
  qed
qed

lemma deferred_run:
  "vh_pc h = VhDefers \<Longrightarrow> \<exists>h'. vless_handler_step\<^sup>*\<^sup>* h h' \<and> vh_pc h' = VhReturned"
proof (induction "vh_deferred h" arbitrary: h)
  case Nil
  then have "vless_handler_step h (vh_run_deferred h)" by (intro vless_handler_step.deferred)
  moreover have "vh_pc (vh_run_deferred h) = VhReturned" by (simp add: vh_run_deferred_def Nil(1) [symmetric])
  ultimately show ?case by blast
next
  case (Cons layer rest)
  have "vless_handler_step h (vh_run_deferred h)" using Cons.prems by (rule vless_handler_step.deferred)
  moreover have next_layer: "rest = vh_deferred (vh_run_deferred h)" "vh_pc (vh_run_deferred h) = VhDefers"
    using Cons.prems by (simp_all add: vh_run_deferred_def Cons.hyps(2) [symmetric])
  ultimately show ?case using Cons.hyps(1) [OF next_layer] by (meson converse_rtranclp_into_rtranclp)
qed

lemma return_then_ends:
  assumes "vless_handler_step h (vh_return k)"
  shows "\<exists>h'. vless_handler_step\<^sup>*\<^sup>* h h' \<and> vh_pc h' = VhReturned"
  using deferred_run [of "vh_return k"] assms by (auto simp: vh_return_def intro: converse_rtranclp_into_rtranclp)

lemma handler_can_return:
  assumes "vh_sessionDead h"
  shows "\<exists>h'. vless_handler_step\<^sup>*\<^sup>* h h' \<and> vh_pc h' = VhReturned"
proof -
  have wait: "\<exists>h'. vless_handler_step\<^sup>*\<^sup>* h h' \<and> vh_pc h' = VhReturned" if pc: "vh_pc h = VhWait" for h
  proof -
    obtain h1 where h1: "vless_handler_step\<^sup>*\<^sup>* h h1" "vh_pc h1 = VhWait" "streams_ended h1" using streams_can_end [of h] pc by metis
    then have "vless_handler_step h1 (vh_return h1)" by (intro vless_handler_step.wait)
    then show ?thesis using h1(1) return_then_ends by (meson rtranclp_trans)
  qed
  show ?thesis
  proof (cases "vh_pc h")
    case VhKcp
    let ?E = "\<lparr>ke_block = Some ''closed'', ke_serve = None, ke_deadline = None, ke_accept = None, ke_dial = None\<rparr>"
    have "vless_handler_step h (open_kcp_layer ?E (\<lambda>_. []) h)" using VhKcp by (rule vless_handler_step.kcp)
    moreover have "open_kcp_layer ?E (\<lambda>_. []) h = vh_return h"
      by (simp add: open_kcp_layer_def NewKCPOverDTLS_def kcp_then_def kcp_do_def)
    ultimately show ?thesis using return_then_ends by metis
  next
    case VhSmux
    then have "vless_handler_step h (open_smux_layer (Some ''closed'') h)" by (rule vless_handler_step.smux)
    then show ?thesis unfolding open_smux_layer_def by (simp add: return_then_ends)
  next
    case VhAccept
    then have "vless_handler_step h (vh_accept_error h)" using assms by (rule vless_handler_step.accept_error)
    then show ?thesis using wait [of "vh_accept_error h"] by (auto simp: vh_accept_error_def intro: converse_rtranclp_into_rtranclp)
  next
    case VhWait
    then show ?thesis by (rule wait)
  next
    case VhDefers
    then show ?thesis by (rule deferred_run)
  next
    case VhReturned
    then show ?thesis by blast
  qed
qed

section \<open>Property\<close>

text \<open>Once a session has been opened, the handler returns only when that session has failed: the end of the server's
  context alone does not end it.\<close>

lemma vless_handler_outlives_context:
  assumes "vless_handler_step\<^sup>*\<^sup>* (vless_handler_start m) h" and "returning h" and "LayerOpened SmuxLayer \<in> set (vh_events h)"
  shows "vh_sessionDead h"
proof -
  have "vless_handler_ok h" by (rule vless_handlers.reachable_inv [OF _ assms(1)]) blast
  then show ?thesis using assms(2,3) by (auto simp: vless_handler_ok_def)
qed


text \<open>The example: the session ends after one stream that brought fewer than four bytes.\<close>

definition short_visit :: "vless_handler" where
  "short_visit =
     (vh_run_deferred ^^ Suc 3) (vh_return (upd_stream 0 (stream_prefix \<lparr>rd_bytes = [1, 2], rd_end = EOF\<rparr>)
       (vh_accept_error ((vh_accept (open_smux_layer None
          (open_kcp_layer \<lparr>ke_block = None, ke_serve = None, ke_deadline = None, ke_accept = None, ke_dial = None\<rparr> (\<lambda>_. [])
            (vless_handler_start newServerMetrics))))\<lparr>vh_sessionDead := True\<rparr>))))"

lemma deferred_steps:
  "vh_pc h = VhDefers \<Longrightarrow> length (vh_deferred h) = n \<Longrightarrow> vless_handler_step\<^sup>*\<^sup>* h ((vh_run_deferred ^^ Suc n) h)"
proof (induction n arbitrary: h)
  case 0
  then show ?case using vless_handler_step.deferred [of h] by auto
next
  case (Suc n)
  have "vless_handler_step h (vh_run_deferred h)" using Suc.prems(1) by (rule vless_handler_step.deferred)
  moreover have "vless_handler_step\<^sup>*\<^sup>* (vh_run_deferred h) ((vh_run_deferred ^^ Suc n) (vh_run_deferred h))"
    using Suc.prems by (intro Suc.IH) (cases "vh_deferred h"; simp add: vh_run_deferred_def)+
  ultimately show ?case by (simp only: funpow_Suc_right o_apply converse_rtranclp_into_rtranclp)
qed

lemma short_visit_steps: "vless_handler_step\<^sup>*\<^sup>* (vless_handler_start newServerMetrics) short_visit"
proof -
  let ?E = "\<lparr>ke_block = None, ke_serve = None, ke_deadline = None, ke_accept = None, ke_dial = None\<rparr>"
  let ?h0 = "vless_handler_start newServerMetrics"
  let ?h1 = "open_kcp_layer ?E (\<lambda>_. []) ?h0"
  let ?h2 = "open_smux_layer None ?h1"
  let ?h3 = "vh_accept ?h2"
  let ?h4 = "?h3\<lparr>vh_sessionDead := True\<rparr>"
  let ?h5 = "vh_accept_error ?h4"
  let ?h6 = "upd_stream 0 (stream_prefix \<lparr>rd_bytes = [1, 2], rd_end = EOF\<rparr>) ?h5"
  have h1: "?h1 = vh_defer KcpLayer VhSmux ?h0"
    by (simp add: open_kcp_layer_def NewKCPOverDTLS_def kcp_then_def kcp_do_def)
  have s: "vless_handler_step ?h0 ?h1" "vless_handler_step ?h1 ?h2" "vless_handler_step ?h2 ?h3" "vless_handler_step ?h3 ?h4"
    "vless_handler_step ?h4 ?h5" "vless_handler_step ?h5 ?h6" "vless_handler_step ?h6 (vh_return ?h6)"
  proof -
    show "vless_handler_step ?h0 ?h1" by (rule vless_handler_step.kcp) (simp add: vless_handler_start_def)
    show "vless_handler_step ?h1 ?h2" by (rule vless_handler_step.smux) (simp add: h1 vh_defer_def)
    show "vless_handler_step ?h2 ?h3" by (rule vless_handler_step.accept) (simp add: open_smux_layer_def vh_defer_def)
    show "vless_handler_step ?h3 ?h4" by (rule vless_handler_step.session_dies)
    show "vless_handler_step ?h4 ?h5"
      by (rule vless_handler_step.accept_error) (simp_all add: open_smux_layer_def vh_defer_def vh_accept_def)
    have streams: "vh_streams ?h5 = [new_server_stream]"
      unfolding h1 by (simp add: open_smux_layer_def vh_defer_def vh_accept_def vh_accept_error_def vless_handler_start_def)
    show "vless_handler_step ?h5 ?h6" by (rule vless_handler_step.prefix) (simp add: stream_at_def streams new_server_stream_def)
    have "vh_streams ?h6 = [end_stream new_server_stream]"
      by (simp add: upd_stream_def streams stream_prefix_def accept_stream_cases)
    then show "vless_handler_step ?h6 (vh_return ?h6)"
      by (intro vless_handler_step.wait) (simp_all add: streams_ended_def end_stream_def upd_stream_def vh_accept_error_def)
  qed
  show ?thesis unfolding short_visit_def
    by (rule converse_rtranclp_into_rtranclp, rule s(1), rule converse_rtranclp_into_rtranclp, rule s(2),
      rule converse_rtranclp_into_rtranclp, rule s(3), rule converse_rtranclp_into_rtranclp, rule s(4),
      rule converse_rtranclp_into_rtranclp, rule s(5), rule converse_rtranclp_into_rtranclp, rule s(6),
      rule converse_rtranclp_into_rtranclp, rule s(7), rule deferred_steps)
      (simp_all add: vh_return_def upd_stream_def vh_accept_error_def vh_accept_def open_smux_layer_def
        open_kcp_layer_def NewKCPOverDTLS_def kcp_then_def kcp_do_def vh_defer_def vless_handler_start_def)
qed


end
