(* ===== verification/Server_Config.thy ===== *)
theory Server_Config
  imports Wrap_Framing Observability Packet_Info Server_Lifecycle Udp_Listener
begin

text \<open>
  The start of the server (\<open>main\<close> of \<open>server/main.go\<close> up to the accept loop): the flags with their defaults, the checks
  in the order in which they are made, and what the server then runs on. A check that fails ends the process with a
  panic; the calls into the operating system and the libraries are the environment.
\<close>

section \<open>Flags and environment\<close>

record server_flags =
  sf_listen :: string
  sf_connect :: string
  sf_vless :: bool
  sf_vlessBond :: bool
  sf_wrap :: bool
  sf_wrapKey :: string
  sf_genWrapKey :: bool
  sf_drainTimeout :: int
  sf_metricsListen :: string
  sf_instanceName :: string
  sf_maxSessions :: int
  sf_maxHandshakes :: int
  sf_maxGoroutines :: int
  sf_minFreeFDs :: int
  sf_canary :: bool
  sf_canaryMaxSessions :: int
  sf_debug :: bool

text \<open>The timeout is in nanoseconds.\<close>

definition default_flags :: server_flags where
  "default_flags =
     \<lparr>sf_listen = ''0.0.0.0:56000'', sf_connect = '''', sf_vless = False, sf_vlessBond = False, sf_wrap = False,
      sf_wrapKey = '''', sf_genWrapKey = False, sf_drainTimeout = 30 * 1000000000, sf_metricsListen = ''127.0.0.1:9090'',
      sf_instanceName = ''default'', sf_maxSessions = 2048, sf_maxHandshakes = 128, sf_maxGoroutines = 20000,
      sf_minFreeFDs = 128, sf_canary = False, sf_canaryMaxSessions = 64, sf_debug = False\<rparr>"

text \<open>What the calls answer; an address is its IP, \<open>None\<close> for any.\<close>

record server_env =
  ev_rand :: "string + bytes"
  ev_resolve :: "string \<Rightarrow> string + ip option"
  ev_metricsListen :: "string option"
  ev_certificate :: "string option"
  ev_udpListen :: "string option"
  ev_packetInfo :: "string option"
  ev_dtlsListen :: "string option"

datatype start_error = KeyGenFailed string | NegativeLimit | BadListenAddress string | NoServerAddress
  | WrapWithoutKey | WrapKeyNotHex | WrapKeyLength nat | ObservabilityFailed string | CertificateFailed string
  | ListenFailed string | DtlsFailed string

text \<open>What a running server was started with. The first component of a listener tells whether datagrams of new
  addresses pass the DTLS filter first.\<close>

record running_server =
  rn_connect :: string
  rn_vless :: bool
  rn_bond :: bool
  rn_wrapKey :: "bytes option"
  rn_role :: string
  rn_instance :: string
  rn_observed :: bool
  rn_drainTimeout :: int
  rn_admission :: admission
  rn_socket :: packetInfoUDPConn
  rn_filtered :: bool
  rn_debug :: bool

datatype start_outcome = PrintKey string | StartPanic start_error | Running_server running_server

section \<open>The checks\<close>

definition generated_key :: "server_env \<Rightarrow> start_outcome" where
  "generated_key E =
     (case ev_rand E of Inl e \<Rightarrow> StartPanic (KeyGenFailed e) | Inr key \<Rightarrow> PrintKey (hex_EncodeToString key))"

definition negative_limit :: "server_flags \<Rightarrow> bool" where
  "negative_limit fl \<longleftrightarrow>
     sf_drainTimeout fl < 0 \<or> sf_maxSessions fl < 0 \<or> sf_maxHandshakes fl < 0 \<or> sf_maxGoroutines fl < 0 \<or>
     sf_minFreeFDs fl < 0 \<or> sf_canaryMaxSessions fl < 0"

definition server_wrapKey :: "server_flags \<Rightarrow> start_error + bytes option" where
  "server_wrapKey fl =
     (if \<not> sf_wrap fl then Inr None
      else if sf_wrapKey fl = [] then Inl WrapWithoutKey
      else case hex_DecodeString (sf_wrapKey fl) of
             None \<Rightarrow> Inl WrapKeyNotHex
           | Some key \<Rightarrow> if length key \<noteq> wrapKeyLen then Inl (WrapKeyLength (length key)) else Inr (Some key))"

definition server_role :: "server_flags \<Rightarrow> string" where
  "server_role fl = (if sf_canary fl then ''canary'' else ''stable'')"

definition admission_of :: "server_flags \<Rightarrow> admissionConfig" where
  "admission_of fl =
     \<lparr>maxSessions = sf_maxSessions fl, maxHandshakes = sf_maxHandshakes fl, maxGoroutines = sf_maxGoroutines fl,
      minFreeFDs = sf_minFreeFDs fl, canary = sf_canary fl, canaryMaxSessions = sf_canaryMaxSessions fl\<rparr>"

definition start_admission :: "server_flags \<Rightarrow> admission" where
  "start_admission fl = \<lparr>ad_gate = newConnectionGate (admission_of fl), ad_leases = [], ad_metrics = newServerMetrics\<rparr>"

section \<open>The listener\<close>

text \<open>The socket of both kinds of listener; with WRAP the state of the key comes first.\<close>

definition listenUDPForDTLS :: "server_env \<Rightarrow> ip option \<Rightarrow> string + packetInfoUDPConn" where
  "listenUDPForDTLS E addr =
     (case listenPacketInfoUDP addr (ev_udpListen E) (ev_packetInfo E) of
        (SocketOpen c, None) \<Rightarrow> Inr c
      | (_, Some e) \<Rightarrow> Inl e
      | (_, None) \<Rightarrow> Inl [])"

definition listenWrapped :: "server_env \<Rightarrow> ip option \<Rightarrow> bytes \<Rightarrow> string + packetInfoUDPConn" where
  "listenWrapped E addr key =
     (case newWrapState key of
        Inl e \<Rightarrow> Inl e
      | Inr _ \<Rightarrow>
          (case listenPacketInfoUDP addr (ev_udpListen E) (ev_packetInfo E) of
             (SocketOpen c, None) \<Rightarrow> Inr c
           | (_, Some e) \<Rightarrow> Inl (''wrap: udp listen: '' @ e)
           | (_, None) \<Rightarrow> Inl []))"

definition start_listener :: "server_env \<Rightarrow> ip option \<Rightarrow> bytes option \<Rightarrow> start_error + packetInfoUDPConn" where
  "start_listener E addr key =
     (case (case key of Some k \<Rightarrow> listenWrapped E addr k | None \<Rightarrow> listenUDPForDTLS E addr) of
        Inl e \<Rightarrow> Inl (ListenFailed e)
      | Inr c \<Rightarrow> (case ev_dtlsListen E of Some e \<Rightarrow> Inl (DtlsFailed e) | None \<Rightarrow> Inr c))"

section \<open>The start\<close>

definition server_setup :: "server_env \<Rightarrow> server_flags \<Rightarrow> start_outcome" where
  "server_setup E fl =
     (if sf_genWrapKey fl then generated_key E
      else if negative_limit fl then StartPanic NegativeLimit
      else case ev_resolve E (sf_listen fl) of
        Inl e \<Rightarrow> StartPanic (BadListenAddress e)
      | Inr addr \<Rightarrow>
          if sf_connect fl = [] then StartPanic NoServerAddress
          else case server_wrapKey fl of
            Inl e \<Rightarrow> StartPanic e
          | Inr key \<Rightarrow>
              (case startObservabilityServer (sf_metricsListen fl) (ev_metricsListen E) of
                 Inl e \<Rightarrow> StartPanic (ObservabilityFailed e)
               | Inr observed \<Rightarrow>
                   (case ev_certificate E of
                      Some e \<Rightarrow> StartPanic (CertificateFailed e)
                    | None \<Rightarrow>
                        (case start_listener E addr key of
                           Inl e \<Rightarrow> StartPanic e
                         | Inr c \<Rightarrow>
                             Running_server
                               \<lparr>rn_connect = sf_connect fl, rn_vless = sf_vless fl, rn_bond = sf_vlessBond fl,
                                rn_wrapKey = key, rn_role = server_role fl, rn_instance = sf_instanceName fl,
                                rn_observed = observed, rn_drainTimeout = sf_drainTimeout fl,
                                rn_admission = start_admission fl, rn_socket = c, rn_filtered = (key = None),
                                rn_debug = sf_debug fl\<rparr>))))"

text \<open>The state of the lifecycle with which the accept loop begins.\<close>

definition accept_start :: "running_server \<Rightarrow> server" where
  "accept_start r =
     \<lparr>sv_adm = rn_admission r, sv_handlers = [], sv_main = WaitSignal, sv_drained = False, sv_ctx_done = False,
      sv_listener_open = True, sv_accepting = True\<rparr>"

section \<open>Property\<close>

definition flags_ok :: "server_flags \<Rightarrow> bool" where
  "flags_ok fl \<longleftrightarrow>
     0 \<le> sf_drainTimeout fl \<and> 0 \<le> maxSessions (admission_of fl) \<and> 0 \<le> maxHandshakes (admission_of fl) \<and>
     0 \<le> maxGoroutines (admission_of fl) \<and> 0 \<le> minFreeFDs (admission_of fl) \<and>
     0 \<le> canaryMaxSessions (admission_of fl) \<and> sf_connect fl \<noteq> [] \<and>
     (sf_wrap fl \<longrightarrow> (\<exists>key. hex_DecodeString (sf_wrapKey fl) = Some key \<and> length key = wrapKeyLen))"

definition start_env_ok :: "server_env \<Rightarrow> server_flags \<Rightarrow> bool" where
  "start_env_ok E fl \<longleftrightarrow> (\<exists>addr. ev_resolve E (sf_listen fl) = Inr addr) \<and>
     (str_TrimSpace (sf_metricsListen fl) = [] \<or> ev_metricsListen E = None) \<and> ev_certificate E = None \<and>
     ev_udpListen E = None \<and> ev_packetInfo E = None \<and> ev_dtlsListen E = None"

text \<open>What runs for given flags: every option of the running server is the one of its flag, the key is a key of WRAP, the
  limits are those of the gate, and the lifecycle is in a start state.\<close>

definition runs_as :: "server_flags \<Rightarrow> running_server \<Rightarrow> bool" where
  "runs_as fl r \<longleftrightarrow>
     rn_connect r = sf_connect fl \<and> rn_connect r \<noteq> [] \<and>
     rn_vless r = sf_vless fl \<and> rn_bond r = sf_vlessBond fl \<and>
     rn_wrapKey r = (if sf_wrap fl then hex_DecodeString (sf_wrapKey fl) else None) \<and>
     (case rn_wrapKey r of Some key \<Rightarrow> newWrapState key = Inr key | None \<Rightarrow> True) \<and>
     rn_filtered r = (\<not> sf_wrap fl) \<and>
     rn_drainTimeout r = sf_drainTimeout fl \<and> 0 \<le> rn_drainTimeout r \<and>
     rn_role r = (if sf_canary fl then ''canary'' else ''stable'') \<and> rn_instance r = sf_instanceName fl \<and>
     rn_observed r = (str_TrimSpace (sf_metricsListen fl) \<noteq> []) \<and> rn_debug r = sf_debug fl \<and>
     server_start (accept_start r) \<and>
     gt_config (ad_gate (rn_admission r)) = admission_of fl \<and> pi_localIPs (rn_socket r) = Map.empty"

lemma flags_ok_iff: "flags_ok fl \<longleftrightarrow> \<not> negative_limit fl \<and> sf_connect fl \<noteq> [] \<and>
     (sf_wrap fl \<longrightarrow> (\<exists>key. hex_DecodeString (sf_wrapKey fl) = Some key \<and> length key = wrapKeyLen))"
  by (auto simp: flags_ok_def negative_limit_def admission_of_def)

lemma server_wrapKey_spec:
  "server_wrapKey fl = Inr key \<longleftrightarrow>
     (if sf_wrap fl then \<exists>k. key = Some k \<and> hex_DecodeString (sf_wrapKey fl) = Some k \<and> length k = wrapKeyLen else key = None)"
  by (cases "sf_wrapKey fl = []") (auto simp: server_wrapKey_def wrapKeyLen_def split: option.splits)

lemma listen_cases: "listenPacketInfoUDP addr e1 e2 = (s, r) \<Longrightarrow>
    (if e1 = None \<and> e2 = None then (\<exists>c. s = SocketOpen c \<and> pi_localIPs c = Map.empty) \<and> r = None else r \<noteq> None)"
  by (auto simp: listenPacketInfoUDP_def Let_def split: option.splits)

lemma start_listener_spec:
  assumes "\<forall>k. key = Some k \<longrightarrow> length k = wrapKeyLen"
  shows "case start_listener E addr key of
      Inr c \<Rightarrow> ev_udpListen E = None \<and> ev_packetInfo E = None \<and> ev_dtlsListen E = None \<and> pi_localIPs c = Map.empty
    | Inl _ \<Rightarrow> \<not> (ev_udpListen E = None \<and> ev_packetInfo E = None \<and> ev_dtlsListen E = None)"
proof -
  obtain s r where l: "listenPacketInfoUDP addr (ev_udpListen E) (ev_packetInfo E) = (s, r)" by fastforce
  show ?thesis using assms listen_cases [OF l]
    by (auto simp: start_listener_def listenWrapped_def listenUDPForDTLS_def newWrapState_def l
        split: option.splits sum.splits socket_state.splits if_splits)
qed

lemma accept_start_ok: "server_start (accept_start r)" if "rn_admission r = start_admission fl"
  using that by (auto simp: server_start_def accept_start_def start_admission_def)

lemma setup_checks:
  assumes "\<not> sf_genWrapKey fl" and "flags_ok fl" and "ev_resolve E (sf_listen fl) = Inr addr"
  shows "\<exists>key. server_wrapKey fl = Inr key \<and> (\<forall>k. key = Some k \<longrightarrow> length k = wrapKeyLen) \<and>
    key = (if sf_wrap fl then hex_DecodeString (sf_wrapKey fl) else None) \<and>
    server_setup E fl =
      (case startObservabilityServer (sf_metricsListen fl) (ev_metricsListen E) of
         Inl e \<Rightarrow> StartPanic (ObservabilityFailed e)
       | Inr observed \<Rightarrow>
           (case ev_certificate E of
              Some e \<Rightarrow> StartPanic (CertificateFailed e)
            | None \<Rightarrow>
                (case start_listener E addr key of
                   Inl e \<Rightarrow> StartPanic e
                 | Inr c \<Rightarrow>
                     Running_server
                       \<lparr>rn_connect = sf_connect fl, rn_vless = sf_vless fl, rn_bond = sf_vlessBond fl,
                        rn_wrapKey = key, rn_role = server_role fl, rn_instance = sf_instanceName fl,
                        rn_observed = observed, rn_drainTimeout = sf_drainTimeout fl,
                        rn_admission = start_admission fl, rn_socket = c, rn_filtered = (key = None),
                        rn_debug = sf_debug fl\<rparr>)))"
proof -
  obtain key where key: "server_wrapKey fl = Inr key" and k: "\<forall>k. key = Some k \<longrightarrow> length k = wrapKeyLen"
    "key = (if sf_wrap fl then hex_DecodeString (sf_wrapKey fl) else None)"
    using assms(2) server_wrapKey_spec [of fl] by (cases "sf_wrap fl") (auto simp: flags_ok_iff)
  then show ?thesis using assms by (auto simp: server_setup_def flags_ok_iff)
qed

lemma setup_refused:
  assumes "\<not> sf_genWrapKey fl" and "\<not> (flags_ok fl \<and> (\<exists>addr. ev_resolve E (sf_listen fl) = Inr addr))"
  shows "\<exists>e. server_setup E fl = StartPanic e"
proof (cases "\<exists>key. server_wrapKey fl = Inr key")
  case True
  then have "sf_wrap fl \<longrightarrow> (\<exists>key. hex_DecodeString (sf_wrapKey fl) = Some key \<and> length key = wrapKeyLen)"
    using server_wrapKey_spec [of fl] by auto
  then show ?thesis using assms by (auto simp: server_setup_def flags_ok_iff split: sum.split)
next
  case False
  then obtain e where "server_wrapKey fl = Inl e" by (cases "server_wrapKey fl") auto
  then show ?thesis using assms by (auto simp: server_setup_def split: sum.split)
qed

lemma setup_runs:
  assumes "\<not> sf_genWrapKey fl" and "flags_ok fl" and "ev_resolve E (sf_listen fl) = Inr addr"
  shows "if start_env_ok E fl then \<exists>r. server_setup E fl = Running_server r \<and> runs_as fl r
    else \<exists>e. server_setup E fl = StartPanic e"
proof -
  obtain key where key: "\<forall>k. key = Some k \<longrightarrow> length k = wrapKeyLen" "key = (if sf_wrap fl then hex_DecodeString (sf_wrapKey fl) else None)"
    and s: "server_setup E fl =
      (case startObservabilityServer (sf_metricsListen fl) (ev_metricsListen E) of
         Inl e \<Rightarrow> StartPanic (ObservabilityFailed e)
       | Inr observed \<Rightarrow>
           (case ev_certificate E of
              Some e \<Rightarrow> StartPanic (CertificateFailed e)
            | None \<Rightarrow>
                (case start_listener E addr key of
                   Inl e \<Rightarrow> StartPanic e
                 | Inr c \<Rightarrow>
                     Running_server
                       \<lparr>rn_connect = sf_connect fl, rn_vless = sf_vless fl, rn_bond = sf_vlessBond fl,
                        rn_wrapKey = key, rn_role = server_role fl, rn_instance = sf_instanceName fl,
                        rn_observed = observed, rn_drainTimeout = sf_drainTimeout fl,
                        rn_admission = start_admission fl, rn_socket = c, rn_filtered = (key = None),
                        rn_debug = sf_debug fl\<rparr>)))" using setup_checks [OF assms] by blast
  note l = start_listener_spec [OF key(1), of E addr]
  show ?thesis
  proof (cases "start_env_ok E fl")
    case True
    then obtain c where c: "start_listener E addr key = Inr c" "pi_localIPs c = Map.empty"
      using l by (auto simp: start_env_ok_def split: sum.splits)
    have "startObservabilityServer (sf_metricsListen fl) (ev_metricsListen E) = Inr (str_TrimSpace (sf_metricsListen fl) \<noteq> [])"
      "ev_certificate E = None" using True by (auto simp: start_env_ok_def startObservabilityServer_def)
    then show ?thesis using True c key assms(2)
      by (auto simp: s runs_as_def server_role_def flags_ok_iff negative_limit_def newWrapState_def newConnectionGate_def
          start_admission_def accept_start_ok split: option.split)
  next
    case False
    then show ?thesis using l assms(3)
      by (auto simp: s start_env_ok_def startObservabilityServer_def split: option.splits sum.splits if_splits)
  qed
qed


text \<open>A canary with WRAP: it is refused with a key of 31 bytes, and runs with one of 32.\<close>

definition sample_start_env :: server_env where
  "sample_start_env =
     \<lparr>ev_rand = Inr (replicate 32 7), ev_resolve = (\<lambda>_. Inr None), ev_metricsListen = None, ev_certificate = None,
      ev_udpListen = None, ev_packetInfo = None, ev_dtlsListen = None\<rparr>"

definition canary_flags :: server_flags where
  "canary_flags =
     default_flags\<lparr>sf_connect := ''127.0.0.1:443'', sf_vless := True, sf_vlessBond := True, sf_canary := True, sf_wrap := True,
       sf_wrapKey := hex_EncodeToString (replicate 32 7)\<rparr>"


end
