(* ===== verification/Vless_Mode.thy ===== *)
theory Vless_Mode
  imports Vless_Sessions Stream_Proxy Bond_Download
begin

text \<open>
  VLESS mode of the client as a whole (\<open>runVLESSMode\<close> of \<open>pkg/clientcore/main.go\<close>): the goroutines that maintain the
  sessions (\<open>Vless_Sessions\<close>), the wait for the first session, the accept loop of the local TCP listener, and one
  goroutine per accepted connection, which is a pipe over one stream (\<open>Stream_Proxy\<close>) or a bonded connection over all
  sessions (\<open>Bond_Client\<close>, \<open>Bond_Download\<close>). All of them interleave; a step is an action of one goroutine.
\<close>

section \<open>State\<close>

text \<open>A connection: waiting for its stream or its lanes, or copying. \<open>vc_tcpOpen\<close>: the local connection is open.\<close>

datatype vm_conn_pc = PlainStart nat | PlainPipe nat client_pipe | BondStart u64 "nat list"
  | BondRun "bondClientLane list" bond_client_conn | ConnDone

record vm_conn =
  vc_pc :: vm_conn_pc
  vc_tcpOpen :: bool

datatype vm_phase = VmWaitFirst | VmListen | VmAccept | VmWaitConns | VmWaitMaint | VmReturned | VmPanicked

record vless_mode =
  vm_world :: vless
  vm_phase :: vm_phase
  vm_listening :: bool
  vm_conns :: "vm_conn list"

definition vless_mode_start :: "cred_state \<Rightarrow> vless_mode" where
  "vless_mode_start cs = \<lparr>vm_world = vless_start cs, vm_phase = VmWaitFirst, vm_listening = False, vm_conns = []\<rparr>"

definition upd_world_pool :: "(pool_world \<Rightarrow> pool_world) \<Rightarrow> vless_mode \<Rightarrow> vless_mode" where
  "upd_world_pool f m = m\<lparr>vm_world := (vm_world m)\<lparr>vl_pool := f (vl_pool (vm_world m))\<rparr>\<rparr>"

definition set_vconn :: "nat \<Rightarrow> vm_conn_pc \<Rightarrow> vless_mode \<Rightarrow> vless_mode" where
  "set_vconn i pc m = m\<lparr>vm_conns := (vm_conns m)[i := \<lparr>vc_pc = pc, vc_tcpOpen = (pc \<noteq> ConnDone)\<rparr>]\<rparr>"

section \<open>The main goroutine\<close>

text \<open>The wait for the first session: every 100 ms, or until the context is done.\<close>

definition vm_poll :: "bool \<Rightarrow> vless_mode \<Rightarrow> vless_mode" where
  "vm_poll timer m =
     (if timer then (if 0 < pool_count (vl_pool (vm_world m)) then m\<lparr>vm_phase := VmListen\<rparr> else m)
      else if vl_ctxDone (vm_world m) then m\<lparr>vm_phase := VmWaitMaint\<rparr> else m)"

definition vm_listen :: "string option \<Rightarrow> vless_mode \<Rightarrow> vless_mode" where
  "vm_listen err m =
     (case err of
        Some e \<Rightarrow> m\<lparr>vm_phase := VmPanicked\<rparr>
      | None \<Rightarrow> m\<lparr>vm_phase := VmAccept, vm_listening := True\<rparr>)"

definition vm_accept :: "bool \<Rightarrow> u64 \<Rightarrow> vless_mode \<Rightarrow> vless_mode" where
  "vm_accept bond unixNano m =
     (case dispatch_tcp bond unixNano (vl_pool (vm_world m)) of
        (p, d) \<Rightarrow>
          (let m1 = upd_world_pool (\<lambda>_. p) m in
           case d of
             RejectConn \<Rightarrow> m1\<lparr>vm_conns := vm_conns m1 @ [\<lparr>vc_pc = ConnDone, vc_tcpOpen = False\<rparr>]\<rparr>
           | BondConn cid lanes \<Rightarrow> m1\<lparr>vm_conns := vm_conns m1 @ [\<lparr>vc_pc = BondStart cid lanes, vc_tcpOpen = True\<rparr>]\<rparr>
           | PlainConn ps n \<Rightarrow> m1\<lparr>vm_conns := vm_conns m1 @ [\<lparr>vc_pc = PlainStart ps, vc_tcpOpen = True\<rparr>]\<rparr>))"

text \<open>An error of \<open>Accept\<close>: the loop ends only if the context is done.\<close>

definition vm_accept_error :: "vless_mode \<Rightarrow> vless_mode" where
  "vm_accept_error m = (if vl_ctxDone (vm_world m) then m\<lparr>vm_phase := VmWaitConns\<rparr> else m)"

definition conns_done :: "vless_mode \<Rightarrow> bool" where
  "conns_done m = list_all (\<lambda>c. vc_pc c = ConnDone) (vm_conns m)"

definition maintainers_done :: "nat \<Rightarrow> vless_mode \<Rightarrow> bool" where
  "maintainers_done n m = (\<forall>i < n. mt_phase (vl_ms (vm_world m) i) = MExited)"

section \<open>The goroutine of a connection\<close>

definition count_close :: "pooledSession \<Rightarrow> pooledSession" where
  "count_close p = p\<lparr>ps_active := ps_active p - 1, ps_closed := ps_closed p + 1\<rparr>"

text \<open>\<open>OpenStream\<close> fails, or the pipe starts.\<close>

definition plain_open :: "nat \<Rightarrow> nat \<Rightarrow> string option \<Rightarrow> vless_mode \<Rightarrow> vless_mode" where
  "plain_open i ps err m =
     (case err of
        Some e \<Rightarrow> upd_world_pool (upd_pooled ps count_close) (set_vconn i ConnDone m)
      | None \<Rightarrow> set_vconn i (PlainPipe ps client_pipe_start) m)"

definition plain_end :: "nat \<Rightarrow> nat \<Rightarrow> nat \<times> nat \<Rightarrow> vless_mode \<Rightarrow> vless_mode" where
  "plain_end i ps counts m =
     upd_world_pool
       (upd_pooled ps (\<lambda>p. count_close (p\<lparr>ps_fromSession := ps_fromSession p + of_nat (fst counts),
          ps_toSession := ps_toSession p + of_nat (snd counts)\<rparr>)))
       (set_vconn i ConnDone m)"

text \<open>The lanes are opened on the sessions of the snapshot; each comes with the stream that \<open>OpenStream\<close> gives and what the
  server will send on it. Without a lane the connection is closed at once.\<close>

definition bond_open_lanes :: "nat \<Rightarrow> u64 \<Rightarrow> nat list \<Rightarrow> conn option list \<Rightarrow> (nat \<Rightarrow> reader) \<Rightarrow> conn \<Rightarrow> vless_mode \<Rightarrow> vless_mode" where
  "bond_open_lanes i cid candidates streams inputs tcp m =
     (case open_lanes cid (length candidates) 0 (zip candidates streams) (vl_pool (vm_world m)) of
        (p, lanes) \<Rightarrow>
          set_vconn i (if lanes = [] then ConnDone
             else BondRun lanes (bond_client_start tcp (map (\<lambda>l. (inputs l, 0)) [0..<length lanes])))
            (upd_world_pool (\<lambda>_. p) m))"

definition bond_conn_end :: "nat \<Rightarrow> bondClientLane list \<Rightarrow> vless_mode \<Rightarrow> vless_mode" where
  "bond_conn_end i lanes m = upd_world_pool (close_lanes lanes) (set_vconn i ConnDone m)"

definition vconn_at :: "vless_mode \<Rightarrow> nat \<Rightarrow> vm_conn_pc \<Rightarrow> bool" where
  "vconn_at m i pc \<longleftrightarrow> i < length (vm_conns m) \<and> vc_pc (vm_conns m ! i) = pc"

inductive vless_mode_step :: "nat \<Rightarrow> turnParams \<Rightarrow> vless_mode \<Rightarrow> vless_mode \<Rightarrow> bool" for n tp where
  mt_wait: "i < n \<Longrightarrow> mt_phase (vl_ms (vm_world m) i) = MWait
     \<Longrightarrow> vless_mode_step n tp m (m\<lparr>vm_world := mt_wait i timer (vm_world m)\<rparr>)"
| mt_top: "i < n \<Longrightarrow> mt_phase (vl_ms (vm_world m) i) = MTop
     \<Longrightarrow> vless_mode_step n tp m (m\<lparr>vm_world := mt_top E tp now i (vm_world m)\<rparr>)"
| mt_serving: "i < n \<Longrightarrow> vless_mode_step n tp m (m\<lparr>vm_world := mt_serving i (vm_world m)\<rparr>)"
| session_closes: "ps < length (pw_sessions (vl_pool (vm_world m)))
     \<Longrightarrow> vless_mode_step n tp m (upd_world_pool (upd_pooled ps (\<lambda>p. p\<lparr>ps_isClosed := True\<rparr>)) m)"
| poll: "vm_phase m = VmWaitFirst \<Longrightarrow> vless_mode_step n tp m (vm_poll timer m)"
| listen: "vm_phase m = VmListen \<Longrightarrow> vless_mode_step n tp m (vm_listen err m)"
| close_listener: "vl_ctxDone (vm_world m) \<Longrightarrow> vless_mode_step n tp m (m\<lparr>vm_listening := False\<rparr>)"
| accept: "vm_phase m = VmAccept \<Longrightarrow> vm_listening m \<Longrightarrow> vless_mode_step n tp m (vm_accept bond unixNano m)"
| accept_error: "vm_phase m = VmAccept \<Longrightarrow> vless_mode_step n tp m (vm_accept_error m)"
| open_stream: "vconn_at m i (PlainStart ps) \<Longrightarrow> vless_mode_step n tp m (plain_open i ps err m)"
| pipe: "vconn_at m i (PlainPipe ps c) \<Longrightarrow> pipe_step c c' \<Longrightarrow> vless_mode_step n tp m (set_vconn i (PlainPipe ps c') m)"
| pipe_end: "vconn_at m i (PlainPipe ps c) \<Longrightarrow> cc_result c = Some counts \<Longrightarrow> vless_mode_step n tp m (plain_end i ps counts m)"
| bond_open: "vconn_at m i (BondStart cid candidates) \<Longrightarrow> length streams = length candidates
     \<Longrightarrow> vless_mode_step n tp m (bond_open_lanes i cid candidates streams inputs tcp m)"
| bond: "vconn_at m i (BondRun lanes b) \<Longrightarrow> bond_client_step b b' \<Longrightarrow> vless_mode_step n tp m (set_vconn i (BondRun lanes b') m)"
| bond_end: "vconn_at m i (BondRun lanes b) \<Longrightarrow> bc_returned b \<Longrightarrow> vless_mode_step n tp m (bond_conn_end i lanes m)"
| conns_end: "vm_phase m = VmWaitConns \<Longrightarrow> conns_done m \<Longrightarrow> vless_mode_step n tp m (m\<lparr>vm_phase := VmWaitMaint\<rparr>)"
| finish: "vm_phase m = VmWaitMaint \<Longrightarrow> maintainers_done n m \<Longrightarrow> vless_mode_step n tp m (m\<lparr>vm_phase := VmReturned\<rparr>)"
| cancel: "vless_mode_step n tp m (m\<lparr>vm_world := (vm_world m)\<lparr>vl_ctxDone := True\<rparr>\<rparr>)"

inductive_cases vless_mode_stepE: "vless_mode_step n tp m m'"

section \<open>Invariant\<close>

text \<open>How often a connection counts as active on a session, and the sessions it refers to.\<close>

fun conn_uses :: "nat \<Rightarrow> vm_conn_pc \<Rightarrow> nat" where
  "conn_uses k (PlainStart ps) = (if ps = k then 1 else 0)"
| "conn_uses k (PlainPipe ps c) = (if ps = k then 1 else 0)"
| "conn_uses k (BondRun lanes b) = length (filter (\<lambda>l. cl_ps l = k) lanes)"
| "conn_uses k _ = 0"

fun conn_refs :: "vm_conn_pc \<Rightarrow> nat set" where
  "conn_refs (PlainStart ps) = {ps}"
| "conn_refs (PlainPipe ps c) = {ps}"
| "conn_refs (BondStart cid candidates) = set candidates"
| "conn_refs (BondRun lanes b) = cl_ps ` set lanes"
| "conn_refs ConnDone = {}"

definition total_uses :: "vm_conn list \<Rightarrow> nat \<Rightarrow> nat" where
  "total_uses cs k = sum_list (map (\<lambda>c. conn_uses k (vc_pc c)) cs)"

definition gauge_ok :: "pooledSession list \<Rightarrow> (nat \<Rightarrow> nat) \<Rightarrow> bool" where
  "gauge_ok ss u \<longleftrightarrow>
     (\<forall>k < length ss. ps_active (ss ! k) = of_nat (u k) \<and> ps_opened (ss ! k) = ps_closed (ss ! k) + of_nat (u k))"

definition vconn_ok :: "nat \<Rightarrow> vm_conn \<Rightarrow> bool" where
  "vconn_ok len c \<longleftrightarrow> conn_refs (vc_pc c) \<subseteq> {..<len} \<and> (vc_tcpOpen c \<longleftrightarrow> vc_pc c \<noteq> ConnDone)"

abbreviation mode_sessions :: "vless_mode \<Rightarrow> pooledSession list" where
  "mode_sessions m \<equiv> pw_sessions (vl_pool (vm_world m))"

definition mode_phase_ok :: "nat \<Rightarrow> vless_mode \<Rightarrow> bool" where
  "mode_phase_ok n m \<longleftrightarrow>
     (vm_phase m \<in> {VmWaitFirst, VmListen} \<longrightarrow> vm_conns m = []) \<and>
     (vm_phase m \<in> {VmWaitMaint, VmReturned} \<longrightarrow> conns_done m) \<and>
     (vm_phase m = VmReturned \<longrightarrow> maintainers_done n m) \<and>
     (vm_phase m \<in> {VmWaitConns, VmWaitMaint, VmReturned} \<longrightarrow> vl_ctxDone (vm_world m))"

definition mode_ok :: "nat \<Rightarrow> vless_mode \<Rightarrow> bool" where
  "mode_ok n m \<longleftrightarrow>
     log_ok (vm_world m) \<and> pool_ok (vm_world m) \<and> mode_phase_ok n m \<and>
     gauge_ok (mode_sessions m) (total_uses (vm_conns m)) \<and>
     list_all (vconn_ok (length (mode_sessions m))) (vm_conns m)"

lemma mode_start_ok: "mode_ok n (vless_mode_start cs)"
  using vless_start_ok [of cs]
  by (simp add: mode_ok_def vless_mode_start_def mode_phase_ok_def gauge_ok_def vless_start_def)

subsection \<open>Connections\<close>

lemma total_uses_Nil [simp]: "total_uses [] k = 0" by (simp add: total_uses_def)

lemma total_uses_append [simp]: "total_uses (cs @ [c]) k = total_uses cs k + conn_uses k (vc_pc c)"
  by (simp add: total_uses_def)

lemma total_uses_update: "i < length cs \<Longrightarrow> total_uses (cs[i := c]) k + conn_uses k (vc_pc (cs ! i)) = total_uses cs k + conn_uses k (vc_pc c)"
proof (induction cs arbitrary: i)
  case (Cons d cs)
  then show ?case by (cases i) (auto simp: total_uses_def)
qed simp

lemma total_uses_beyond:
  assumes "list_all (vconn_ok len) cs" and "len \<le> k"
  shows "total_uses cs k = 0"
proof -
  have "conn_uses k pc = 0" if "conn_refs pc \<subseteq> {..<len}" for pc
    using that assms(2) by (cases pc) (auto simp: filter_empty_conv)
  then show ?thesis using assms(1) by (auto simp: total_uses_def list_all_iff vconn_ok_def)
qed

lemma vconn_ok_mono: "vconn_ok len c \<Longrightarrow> len \<le> len' \<Longrightarrow> vconn_ok len' c"
  by (auto simp: vconn_ok_def)

lemma set_vconn_simps [simp]:
  "vm_world (set_vconn i pc m) = vm_world m" "vm_phase (set_vconn i pc m) = vm_phase m"
  "vm_listening (set_vconn i pc m) = vm_listening m"
  "vm_conns (set_vconn i pc m) = (vm_conns m)[i := \<lparr>vc_pc = pc, vc_tcpOpen = (pc \<noteq> ConnDone)\<rparr>]"
  by (simp_all add: set_vconn_def)

lemma upd_world_pool_simps [simp]:
  "vl_pool (vm_world (upd_world_pool f m)) = f (vl_pool (vm_world m))" "vl_ms (vm_world (upd_world_pool f m)) = vl_ms (vm_world m)"
  "vl_ctxDone (vm_world (upd_world_pool f m)) = vl_ctxDone (vm_world m)"
  "vm_phase (upd_world_pool f m) = vm_phase m" "vm_conns (upd_world_pool f m) = vm_conns m"
  "log_ok (vm_world (upd_world_pool f m)) = log_ok (vm_world m)"
  by (simp_all add: upd_world_pool_def log_ok_cong)

lemma vconn_list_update:
  "list_all (vconn_ok len) cs \<Longrightarrow> conn_refs pc \<subseteq> {..<len}
    \<Longrightarrow> list_all (vconn_ok len) (cs[i := \<lparr>vc_pc = pc, vc_tcpOpen = (pc \<noteq> ConnDone)\<rparr>])"
  by (rule reader_update) (simp_all add: vconn_ok_def)

text \<open>A connection moves from \<open>pc0\<close> to \<open>pc\<close> and the counters of the sessions change by \<open>f\<close>.\<close>

lemma conn_move_ok:
  assumes ok: "mode_ok n m" and at: "vconn_at m i pc0" and live: "pc0 \<noteq> ConnDone"
    and p: "f (vl_pool (vm_world m)) = p" and pool: "pw_pool p = pw_pool (vl_pool (vm_world m))"
    and len: "length (pw_sessions p) = length (mode_sessions m)"
    and refs: "conn_refs pc \<subseteq> {..<length (mode_sessions m)}"
    and counts: "\<And>k. k < length (mode_sessions m) \<Longrightarrow>
      ps_id (pw_sessions p ! k) = ps_id (mode_sessions m ! k) \<and>
      ps_active (pw_sessions p ! k) + of_nat (conn_uses k pc0) = ps_active (mode_sessions m ! k) + of_nat (conn_uses k pc) \<and>
      ps_opened (pw_sessions p ! k) - ps_closed (pw_sessions p ! k) + of_nat (conn_uses k pc0) =
        ps_opened (mode_sessions m ! k) - ps_closed (mode_sessions m ! k) + of_nat (conn_uses k pc)"
  shows "mode_ok n (set_vconn i pc (upd_world_pool f m))"
proof -
  let ?m = "set_vconn i pc (upd_world_pool f m)"
  have i: "i < length (vm_conns m)" "vc_pc (vm_conns m ! i) = pc0" using at by (simp_all add: vconn_at_def)
  have notdone: "\<not> conns_done m" using i live by (auto simp: conns_done_def list_all_length)
  have sess: "mode_sessions ?m = pw_sessions p" by (simp add: p)
  have "pool_ok (vm_world ?m)"
  proof (rule pool_ok_same [of "vm_world m"])
    show "pool_ok (vm_world m)" using ok by (simp add: mode_ok_def)
    show "sp_sessions (pw_pool (vl_pool (vm_world ?m))) = sp_sessions (pw_pool (vl_pool (vm_world m)))" by (simp only: set_vconn_simps upd_world_pool_simps p pool)
    show "length (mode_sessions ?m) = length (mode_sessions m)" unfolding sess by (rule len)
    show "ps_id (mode_sessions ?m ! k) = ps_id (mode_sessions m ! k)" if "k < length (mode_sessions m)" for k
      unfolding sess using counts [OF that] by blast
  qed simp
  moreover have "list_all (vconn_ok (length (pw_sessions p))) (vm_conns ?m)"
    unfolding len using ok refs vconn_list_update by (simp add: mode_ok_def)
  moreover have "gauge_ok (pw_sessions p) (total_uses (vm_conns ?m))" unfolding gauge_ok_def
  proof (intro allI impI)
    fix k
    assume "k < length (pw_sessions p)"
    then have k: "k < length (mode_sessions m)" unfolding len .
    let ?u = "total_uses (vm_conns m) k" and ?u' = "total_uses (vm_conns ?m) k"
    have u: "?u' + conn_uses k pc0 = ?u + conn_uses k pc"
      using total_uses_update [OF i(1), of "\<lparr>vc_pc = pc, vc_tcpOpen = (pc \<noteq> ConnDone)\<rparr>" k] i(2) by simp
    have old: "ps_active (mode_sessions m ! k) = of_nat ?u" "ps_opened (mode_sessions m ! k) - ps_closed (mode_sessions m ! k) = of_nat ?u"
      using ok k by (simp_all add: mode_ok_def gauge_ok_def)
    have "ps_active (pw_sessions p ! k) + of_nat (conn_uses k pc0) = of_nat (?u' + conn_uses k pc0)"
      using counts [OF k] unfolding u old by (simp only: of_nat_add)
    moreover have "ps_opened (pw_sessions p ! k) - ps_closed (pw_sessions p ! k) + of_nat (conn_uses k pc0) = of_nat (?u' + conn_uses k pc0)"
      using counts [OF k] unfolding u old by (simp only: of_nat_add)
    ultimately have "ps_active (pw_sessions p ! k) = of_nat ?u'" "ps_opened (pw_sessions p ! k) - ps_closed (pw_sessions p ! k) = of_nat ?u'"
      unfolding of_nat_add by (metis add_right_cancel)+
    then show "ps_active (pw_sessions p ! k) = of_nat ?u' \<and> ps_opened (pw_sessions p ! k) = ps_closed (pw_sessions p ! k) + of_nat ?u'"
      by (metis diff_add_cancel add.commute)
  qed
  moreover have "mode_phase_ok n ?m"
    using ok notdone by (auto simp: mode_ok_def mode_phase_ok_def maintainers_done_def i)
  ultimately show ?thesis using ok unfolding mode_ok_def sess by simp
qed

subsection \<open>The goroutines of the sessions\<close>

text \<open>The sessions that are new have counted nothing.\<close>

definition sessions_grow :: "pooledSession list \<Rightarrow> pooledSession list \<Rightarrow> bool" where
  "sessions_grow ss ss' \<longleftrightarrow> length ss \<le> length ss' \<and>
     (\<forall>k < length ss'. if k < length ss
        then ps_active (ss' ! k) = ps_active (ss ! k) \<and> ps_opened (ss' ! k) = ps_opened (ss ! k) \<and> ps_closed (ss' ! k) = ps_closed (ss ! k)
        else ps_active (ss' ! k) = 0 \<and> ps_opened (ss' ! k) = 0 \<and> ps_closed (ss' ! k) = 0)"

lemma sessions_grow_refl [simp]: "sessions_grow ss ss" by (simp add: sessions_grow_def)

lemma world_move_ok:
  assumes ok: "mode_ok n m" and w: "log_ok w" "pool_ok w"
    and grow: "sessions_grow (mode_sessions m) (pw_sessions (vl_pool w))"
    and ctx: "vl_ctxDone (vm_world m) \<Longrightarrow> vl_ctxDone w"
    and exited: "\<And>i. mt_phase (vl_ms (vm_world m) i) = MExited \<Longrightarrow> mt_phase (vl_ms w i) = MExited"
  shows "mode_ok n (m\<lparr>vm_world := w\<rparr>)"
proof -
  have len: "length (mode_sessions m) \<le> length (pw_sessions (vl_pool w))" using grow by (simp add: sessions_grow_def)
  have conns: "list_all (vconn_ok (length (mode_sessions m))) (vm_conns m)" using ok by (simp add: mode_ok_def)
  then have "list_all (vconn_ok (length (pw_sessions (vl_pool w)))) (vm_conns m)"
    using vconn_ok_mono [OF _ len] by (simp add: list_all_iff)
  moreover have "gauge_ok (pw_sessions (vl_pool w)) (total_uses (vm_conns m))" unfolding gauge_ok_def
  proof (intro allI impI)
    fix k
    assume k: "k < length (pw_sessions (vl_pool w))"
    show "ps_active (pw_sessions (vl_pool w) ! k) = of_nat (total_uses (vm_conns m) k) \<and>
      ps_opened (pw_sessions (vl_pool w) ! k) = ps_closed (pw_sessions (vl_pool w) ! k) + of_nat (total_uses (vm_conns m) k)"
    proof (cases "k < length (mode_sessions m)")
      case True
      then show ?thesis using grow ok k by (simp add: sessions_grow_def mode_ok_def gauge_ok_def)
    next
      case False
      then show ?thesis using grow k total_uses_beyond [OF conns, of k] by (simp add: sessions_grow_def)
    qed
  qed
  moreover have "mode_phase_ok n (m\<lparr>vm_world := w\<rparr>)"
    using ok ctx exited by (auto simp: mode_ok_def mode_phase_ok_def maintainers_done_def conns_done_def)
  ultimately show ?thesis using w by (simp add: mode_ok_def)
qed

lemma maintainer_move_ok:
  assumes "mode_ok n m" and "vless_step n tp (vm_world m) w"
    and "sessions_grow (mode_sessions m) (pw_sessions (vl_pool w))" and "vl_ctxDone w = vl_ctxDone (vm_world m)"
    and "\<And>i. mt_phase (vl_ms (vm_world m) i) = MExited \<Longrightarrow> mt_phase (vl_ms w i) = MExited"
  shows "mode_ok n (m\<lparr>vm_world := w\<rparr>)"
  using assms vless_step_ok [OF assms(2)] by (intro world_move_ok) (auto simp: mode_ok_def)

lemma mt_top_frame:
  "sessions_grow (pw_sessions (vl_pool w)) (pw_sessions (vl_pool (mt_top E tp now i w)))"
  "vl_ctxDone (mt_top E tp now i w) = vl_ctxDone w"
  "j \<noteq> i \<Longrightarrow> mt_phase (vl_ms (mt_top E tp now i w) j) = mt_phase (vl_ms w j)"
proof -
  obtain st r where r: "createSmuxSession E tp setup_start = (st, r)" by fastforce
  show "sessions_grow (pw_sessions (vl_pool w)) (pw_sessions (vl_pool (mt_top E tp now i w)))"
    by (cases r) (auto simp: mt_top_def r sessions_grow_def pool_add_def Let_def nth_append less_Suc_eq)
  show "vl_ctxDone (mt_top E tp now i w) = vl_ctxDone w"
    by (cases r) (auto simp: mt_top_def r pool_add_def Let_def)
  show "j \<noteq> i \<Longrightarrow> mt_phase (vl_ms (mt_top E tp now i w) j) = mt_phase (vl_ms w j)"
    by (cases r) (auto simp: mt_top_def r pool_add_def Let_def)
qed

lemma mt_serving_frame: "pw_sessions (vl_pool (mt_serving i w)) = pw_sessions (vl_pool w)" "vl_ctxDone (mt_serving i w) = vl_ctxDone w"
  "mt_phase (vl_ms w j) = MExited \<Longrightarrow> mt_phase (vl_ms (mt_serving i w) j) = MExited"
  by (auto simp: mt_serving_def mt_end_def pool_remove_def split: mt_phase.split)

lemma mt_wait_frame: "vl_pool (mt_wait i timer w) = vl_pool w" "vl_ctxDone (mt_wait i timer w) = vl_ctxDone w"
  "j \<noteq> i \<Longrightarrow> mt_phase (vl_ms (mt_wait i timer w) j) = mt_phase (vl_ms w j)"
  by (simp_all add: mt_wait_def)

subsection \<open>The main goroutine\<close>

lemma phase_move_ok:
  assumes "mode_ok n m" and "mode_phase_ok n (m\<lparr>vm_phase := ph, vm_listening := l\<rparr>)"
  shows "mode_ok n (m\<lparr>vm_phase := ph, vm_listening := l\<rparr>)"
  using assms by (simp add: mode_ok_def)

lemma pick_listed: "pool_pick w = (w', Some ps) \<Longrightarrow> ps \<in> set (sp_sessions (pw_pool w))"
proof -
  assume p: "pool_pick w = (w', Some ps)"
  let ?ss = "sp_sessions (pw_pool w)" and ?c = "sp_counter (pw_pool w)"
  have ps: "?ss \<noteq> []" "ps = ?ss ! unat (?c mod of_nat (length ?ss))" using p by (auto simp: pool_pick_def Let_def split: if_splits)
  have b: "unat (of_nat (length ?ss) :: u64) = length ?ss mod 2 ^ 64" by (simp add: unat_of_nat)
  have "unat (?c mod of_nat (length ?ss)) < length ?ss"
  proof (cases "length ?ss mod 2 ^ 64 = 0")
    case True
    then have "(of_nat (length ?ss) :: u64) = 0" using b by (simp add: unat_eq_zero)
    moreover have "2 ^ 64 \<le> length ?ss" using True ps(1) by (metis dvd_imp_le length_greater_0_conv mod_0_imp_dvd)
    moreover have "unat ?c < 2 ^ 64" using unsigned_less [of ?c] by simp
    ultimately show ?thesis by simp
  next
    case False
    then have "unat (?c mod of_nat (length ?ss)) < length ?ss mod 2 ^ 64" using b by (simp add: unat_mod)
    then show ?thesis by (meson mod_less_eq_dividend order_less_le_trans)
  qed
  then show ?thesis unfolding ps(2) by (rule nth_mem)
qed

lemma dispatch_sessions:
  assumes "dispatch_tcp bond t w = (w', d)" and "\<And>ps. ps \<in> set (sp_sessions (pw_pool w)) \<Longrightarrow> ps < length (pw_sessions w)"
  shows "length (pw_sessions w') = length (pw_sessions w) \<and> sp_sessions (pw_pool w') = sp_sessions (pw_pool w) \<and>
    (case d of
       RejectConn \<Rightarrow> pw_sessions w' = pw_sessions w
     | BondConn cid lanes \<Rightarrow> pw_sessions w' = pw_sessions w \<and> set lanes \<subseteq> {..<length (pw_sessions w)} \<and> bond
     | PlainConn ps n \<Rightarrow> ps < length (pw_sessions w) \<and>
         pw_sessions w' = (pw_sessions w)[ps := (pw_sessions w ! ps)\<lparr>ps_opened := ps_opened (pw_sessions w ! ps) + 1,
           ps_active := ps_active (pw_sessions w ! ps) + 1\<rparr>])"
proof (cases bond)
  case True
  then show ?thesis using assms by (auto simp: dispatch_tcp_def pool_nextConnID_def pool_snapshot_def Let_def split: if_splits)
next
  case False
  obtain w1 r where r: "pool_pick w = (w1, r)" by fastforce
  then have w1: "pw_sessions w1 = pw_sessions w" "sp_sessions (pw_pool w1) = sp_sessions (pw_pool w)"
    by (auto simp: pool_pick_def Let_def split: if_splits)
  show ?thesis
  proof (cases r)
    case None
    then show ?thesis using assms(1) False r w1 by (auto simp: dispatch_tcp_def)
  next
    case (Some ps)
    then have "ps < length (pw_sessions w)" using pick_listed r assms(2) by blast
    then show ?thesis using assms(1) False r Some w1
      by (auto simp: dispatch_tcp_def pool_nextConnID_def Let_def upd_pooled_def split: if_splits)
  qed
qed

lemma listed_exist: "pool_ok w \<Longrightarrow> ps \<in> set (sp_sessions (pw_pool (vl_pool w))) \<Longrightarrow> ps < length (pw_sessions (vl_pool w))"
  unfolding pool_ok_def Let_def by blast

lemma vm_accept_ok:
  assumes ok: "mode_ok n m" and acc: "vm_phase m = VmAccept"
  shows "mode_ok n (vm_accept bond t m)"
proof -
  obtain p d where d: "dispatch_tcp bond t (vl_pool (vm_world m)) = (p, d)" by fastforce
  note D = dispatch_sessions [OF d listed_exist]
  have pok: "pool_ok (vm_world m)" using ok by (simp add: mode_ok_def)
  note D = D [OF pok]
  obtain c where c: "vm_accept bond t m = (upd_world_pool (\<lambda>_. p) m)\<lparr>vm_conns := vm_conns m @ [c]\<rparr>"
    "vconn_ok (length (mode_sessions m)) c" "gauge_ok (pw_sessions p) (total_uses (vm_conns m @ [c]))"
    using ok D by (cases d)
      (auto simp: vm_accept_def d vconn_ok_def mode_ok_def gauge_ok_def nth_list_update add.commute add.left_commute)
  have "pool_ok (vm_world (upd_world_pool (\<lambda>_. p) m))"
  proof (rule pool_ok_same [OF pok])
    fix k
    assume "k < length (mode_sessions m)"
    then show "ps_id (mode_sessions (upd_world_pool (\<lambda>_. p) m) ! k) = ps_id (mode_sessions m ! k)"
      using dispatch_frame(3) [of k "vl_pool (vm_world m)" bond t] d by simp
  qed (use D in simp_all)
  then show ?thesis using ok acc c D by (simp add: mode_ok_def mode_phase_ok_def)
qed

lemma open_lanes_from:
  "open_lanes cid n i cs w = (w', lanes) \<Longrightarrow>
    pw_pool w' = pw_pool w \<and> length (pw_sessions w') = length (pw_sessions w) \<and> cl_ps ` set lanes \<subseteq> fst ` set cs"
proof (induction cid n i cs w arbitrary: w' lanes rule: open_lanes.induct)
  case (2 cid n i ps opened rest w)
  show ?case
  proof (cases "ps_isClosed (pw_sessions w ! ps) \<or> opened = None")
    case True
    then show ?thesis using 2 by (cases "ps_isClosed (pw_sessions w ! ps)") fastforce+
  next
    case False
    then obtain stream where o: "opened = Some stream" "\<not> ps_isClosed (pw_sessions w ! ps)" by auto
    obtain s1 e where h: "client_writeBondHello stream cid (of_nat i) (of_nat n) = (s1, e)" by fastforce
    show ?thesis
    proof (cases e)
      case (Some x)
      then show ?thesis using 2(4) [OF o(2,1) h [symmetric] Some] 2(5) o h by fastforce
    next
      case None
      obtain w2 ls where r: "open_lanes cid n (Suc i) rest
          (upd_pooled ps (\<lambda>p. p\<lparr>ps_opened := ps_opened p + 1, ps_active := ps_active p + 1\<rparr>) w) = (w2, ls)" by fastforce
      show ?thesis 
        using 2(3) [OF o(2,1) h [symmetric] None refl r] 2(5) o h None r by (auto simp: Let_def image_subset_iff)
    qed
  qed
qed simp

subsection \<open>The steps\<close>

lemma world_pool_commute: "upd_world_pool f (set_vconn i pc m) = set_vconn i pc (upd_world_pool f m)"
  by (simp add: upd_world_pool_def set_vconn_def)

lemma world_pool_id: "upd_world_pool (\<lambda>p. p) m = m" by (simp add: upd_world_pool_def)

lemma vconn_refs: "mode_ok n m \<Longrightarrow> vconn_at m i pc \<Longrightarrow> conn_refs pc \<subseteq> {..<length (mode_sessions m)}"
  by (auto simp: mode_ok_def vconn_at_def list_all_length vconn_ok_def)

text \<open>A step of a connection that counts nothing.\<close>

lemma conn_same_ok:
  assumes "mode_ok n m" and "vconn_at m i pc0" and "pc0 \<noteq> ConnDone"
    and "\<And>k. conn_uses k pc = conn_uses k pc0" and "conn_refs pc \<subseteq> conn_refs pc0"
  shows "mode_ok n (set_vconn i pc m)"
  using conn_move_ok [OF assms(1-3), of "\<lambda>p. p" "vl_pool (vm_world m)" pc] assms(4,5) vconn_refs [OF assms(1,2)]
  by (simp add: world_pool_id subset_trans)

lemma conn_close_ok:
  assumes ok: "mode_ok n m" and at: "vconn_at m i pc0" and uses: "\<And>k. conn_uses k pc0 = (if k = ps then 1 else 0)"
    and live: "pc0 \<noteq> ConnDone"
    and g: "\<And>p. ps_id (g p) = ps_id p \<and> ps_active (g p) = ps_active p - 1 \<and> ps_opened (g p) = ps_opened p \<and> ps_closed (g p) = ps_closed p + 1"
  shows "mode_ok n (set_vconn i ConnDone (upd_world_pool (upd_pooled ps g) m))"
  using g by (intro conn_move_ok [OF ok at live refl]) (auto simp: uses algebra_simps)

lemma bond_open_ok:
  assumes ok: "mode_ok n m" and at: "vconn_at m i (BondStart cid candidates)" and len: "length streams = length candidates"
  shows "mode_ok n (bond_open_lanes i cid candidates streams inputs tcp m)"
proof -
  obtain p lanes where o: "open_lanes cid (length candidates) 0 (zip candidates streams) (vl_pool (vm_world m)) = (p, lanes)"
    by fastforce
  let ?pc = "if lanes = [] then ConnDone else BondRun lanes (bond_client_start tcp (map (\<lambda>l. (inputs l, 0)) [0..<length lanes]))"
  have refs: "set candidates \<subseteq> {..<length (mode_sessions m)}" using vconn_refs [OF ok at] by simp
  have lanes: "cl_ps ` set lanes \<subseteq> set candidates"
  proof -
    have "fst ` set (zip candidates streams) \<subseteq> set candidates" by (auto dest: set_zip_leftD)
    then show ?thesis using open_lanes_from [OF o] by blast
  qed
  have pool: "pw_pool p = pw_pool (vl_pool (vm_world m))" using open_lanes_from [OF o] by simp
  have plen: "length (pw_sessions p) = length (mode_sessions m)" using open_lanes_from [OF o] by simp
  have uses: "conn_uses k ?pc = length (filter (\<lambda>l. cl_ps l = k) lanes)" for k by simp
  have "mode_ok n (set_vconn i ?pc (upd_world_pool (\<lambda>_. p) m))"
  proof (rule conn_move_ok [OF ok at _ refl])
    show "pw_pool p = pw_pool (vl_pool (vm_world m))" by (rule pool)
    show "length (pw_sessions p) = length (mode_sessions m)" by (rule plen)
    show "conn_refs ?pc \<subseteq> {..<length (mode_sessions m)}" using refs lanes by auto
    show "ps_id (pw_sessions p ! k) = ps_id (mode_sessions m ! k) \<and>
      ps_active (pw_sessions p ! k) + of_nat (conn_uses k (BondStart cid candidates)) = ps_active (mode_sessions m ! k) + of_nat (conn_uses k ?pc) \<and>
      ps_opened (pw_sessions p ! k) - ps_closed (pw_sessions p ! k) + of_nat (conn_uses k (BondStart cid candidates)) =
        ps_opened (mode_sessions m ! k) - ps_closed (mode_sessions m ! k) + of_nat (conn_uses k ?pc)"
      if "k < length (mode_sessions m)" for k
      using open_lanes_counts [OF o that] unfolding uses by (simp add: Let_def)
  qed simp
  then show ?thesis by (simp add: bond_open_lanes_def o)
qed

lemma bond_conn_end_ok:
  assumes ok: "mode_ok n m" and at: "vconn_at m i (BondRun lanes b)"
  shows "mode_ok n (bond_conn_end i lanes m)"
proof -
  have pool: "pw_pool (close_lanes lanes w) = pw_pool w \<and> length (pw_sessions (close_lanes lanes w)) = length (pw_sessions w)" for w
    by (induction lanes arbitrary: w) simp_all
  show ?thesis unfolding bond_conn_end_def world_pool_commute
  proof (rule conn_move_ok [OF ok at _ refl])
    show "ps_id (pw_sessions (close_lanes lanes (vl_pool (vm_world m))) ! k) = ps_id (mode_sessions m ! k) \<and>
      ps_active (pw_sessions (close_lanes lanes (vl_pool (vm_world m))) ! k) + of_nat (conn_uses k (BondRun lanes b)) =
        ps_active (mode_sessions m ! k) + of_nat (conn_uses k ConnDone) \<and>
      ps_opened (pw_sessions (close_lanes lanes (vl_pool (vm_world m))) ! k) - ps_closed (pw_sessions (close_lanes lanes (vl_pool (vm_world m))) ! k) +
        of_nat (conn_uses k (BondRun lanes b)) =
        ps_opened (mode_sessions m ! k) - ps_closed (mode_sessions m ! k) + of_nat (conn_uses k ConnDone)"
      if "k < length (mode_sessions m)" for k
      using close_lanes_counts [OF that, of lanes] by (simp add: Let_def)
  qed (use pool in simp_all)
qed

lemma vless_mode_step_ok:
  assumes "vless_mode_step n tp m m'" and ok: "mode_ok n m"
  shows "mode_ok n m'"
  using assms(1)
proof cases
  case (mt_wait i timer)
  have "mt_phase (vl_ms (mt_wait i timer (vm_world m)) j) = MExited" if "mt_phase (vl_ms (vm_world m) j) = MExited" for j
    using that mt_wait(3) mt_wait_frame(3) by (metis mt_phase.distinct(5))
  then show ?thesis unfolding mt_wait(1) using mt_wait mt_wait_frame(1,2)
    by (intro maintainer_move_ok [OF ok] vless_step.wait) auto
next
  case (mt_top i E now)
  have "mt_phase (vl_ms (mt_top E tp now i (vm_world m)) j) = MExited" if "mt_phase (vl_ms (vm_world m) j) = MExited" for j
    using that mt_top(3) mt_top_frame(3) by (metis mt_phase.distinct(10))
  then show ?thesis unfolding mt_top(1) using mt_top mt_top_frame(1,2)
    by (intro maintainer_move_ok [OF ok, of tp] vless_step.top) auto
next
  case (mt_serving i)
  then show ?thesis using ok mt_serving_frame by (auto intro!: maintainer_move_ok vless_step.serving)
next
  case (session_closes ps)
  have eq: "m' = m\<lparr>vm_world := (vm_world m)\<lparr>vl_pool := upd_pooled ps (\<lambda>p. p\<lparr>ps_isClosed := True\<rparr>) (vl_pool (vm_world m))\<rparr>\<rparr>"
    using session_closes(1) by (simp add: upd_world_pool_def)
  show ?thesis unfolding eq
  proof (rule maintainer_move_ok [OF ok])
    show "vless_step n tp (vm_world m) ((vm_world m)\<lparr>vl_pool := upd_pooled ps (\<lambda>p. p\<lparr>ps_isClosed := True\<rparr>) (vl_pool (vm_world m))\<rparr>)"
      using session_closes(2) by (rule vless_step.session_closes)
  qed (auto simp: sessions_grow_def)
next
  case (poll timer)
  then show ?thesis using ok
    by (auto simp: vm_poll_def mode_ok_def mode_phase_ok_def conns_done_def)
next
  case (listen err)
  then show ?thesis using ok by (cases err) (auto simp: vm_listen_def mode_ok_def mode_phase_ok_def)
next
  case close_listener
  then show ?thesis using ok by (auto simp: mode_ok_def mode_phase_ok_def conns_done_def maintainers_done_def)
next
  case (accept bond t)
  then show ?thesis using ok vm_accept_ok by simp
next
  case accept_error
  then show ?thesis using ok by (auto simp: vm_accept_error_def mode_ok_def mode_phase_ok_def)
next
  case (open_stream i ps err)
  show ?thesis
  proof (cases err)
    case None
    then show ?thesis using open_stream conn_same_ok [OF ok open_stream(2), of "PlainPipe ps client_pipe_start"]
      by (simp add: plain_open_def)
  next
    case (Some e)
    then show ?thesis unfolding open_stream(1) plain_open_def Some option.case world_pool_commute
      using conn_close_ok [OF ok open_stream(2), of ps count_close] by (auto simp: count_close_def)
  qed
next
  case (pipe i ps c c')
  then show ?thesis using conn_same_ok [OF ok pipe(2), of "PlainPipe ps c'"] by simp
next
  case (pipe_end i ps c counts)
  then show ?thesis unfolding pipe_end(1) plain_end_def world_pool_commute
    by (intro conn_close_ok [OF ok pipe_end(2)]) (auto simp: count_close_def)
next
  case (bond_open i cid candidates streams inputs tcp)
  then show ?thesis using bond_open_ok ok by simp
next
  case (bond i lanes b b')
  then show ?thesis using conn_same_ok [OF ok bond(2), of "BondRun lanes b'"] by simp
next
  case (bond_end i lanes b)
  then show ?thesis using bond_conn_end_ok ok by simp
next
  case conns_end
  then show ?thesis using ok by (auto simp: mode_ok_def mode_phase_ok_def conns_done_def)
next
  case finish
  then show ?thesis using ok by (auto simp: mode_ok_def mode_phase_ok_def conns_done_def maintainers_done_def)
next
  case cancel
  have "log_ok ((vm_world m)\<lparr>vl_ctxDone := True\<rparr>)" "pool_ok ((vm_world m)\<lparr>vl_ctxDone := True\<rparr>)"
    using vless_step_ok [OF vless_step.cancel] ok by (simp_all add: mode_ok_def)
  then show ?thesis unfolding cancel by (intro world_move_ok [OF ok]) simp_all
qed

interpretation vless_modes: invariant_system "\<lambda>m. \<exists>cs. m = vless_mode_start cs" "vless_mode_step n tp" "mode_ok n" for n tp
  by unfold_locales (use mode_start_ok vless_mode_step_ok in blast)+

section \<open>The end\<close>

text \<open>A pipe of the client can always end.\<close>

lemma client_copy_ends:
  assumes "\<And>q r. cp_pc (get q) = CopyRead \<Longrightarrow> length (fst r) \<le> copyBufferSize \<Longrightarrow> pipe_step q (put (copy_read r (get q)) q)"
    and "\<And>q data e k failed. cp_pc (get q) = CopyWrite data e \<Longrightarrow> k \<le> length data \<Longrightarrow> pipe_step q (put (copy_write k failed (get q)) q)"
    and "\<And>c q. get (put c q) = c"
  shows "\<exists>c. pipe_step\<^sup>*\<^sup>* p (put c p) \<and> copy_ended c \<or> copy_ended (get p)"
proof (cases "cp_pc (get p)")
  case CopyRead
  have "copy_ended (copy_read ([], Some EOF) (get p))" by (simp add: copy_read_def copy_ended_def after_read_def)
  then show ?thesis using assms(1) [OF CopyRead, of "([], Some EOF)"] by auto
next
  case (CopyWrite data e)
  have "copy_ended (copy_write 0 True (get p))" using CopyWrite by (simp add: copy_write_def copy_ended_def)
  then show ?thesis using assms(2) [OF CopyWrite, of 0 True] by auto
next
  case (CopyDone b)
  then show ?thesis by (simp add: copy_ended_def)
qed

lemma client_pipe_can_end: "\<exists>p' counts. pipe_step\<^sup>*\<^sup>* p p' \<and> cc_result p' = Some counts"
proof (cases "cc_result p")
  case (Some counts)
  then show ?thesis by blast
next
  case None
  obtain p1 where p1: "pipe_step\<^sup>*\<^sup>* p p1" "copy_ended (cc_to_local p1)" "cc_result p1 = None"
  proof -
    have "\<exists>c. pipe_step\<^sup>*\<^sup>* p (p\<lparr>cc_to_local := c\<rparr>) \<and> copy_ended c \<or> copy_ended (cc_to_local p)"
      by (rule client_copy_ends) (auto intro: pipe_step.local_read pipe_step.local_write)
    then show ?thesis using that [of p] that [of "p\<lparr>cc_to_local := c\<rparr>" for c] None by auto
  qed
  obtain p2 where p2: "pipe_step\<^sup>*\<^sup>* p1 p2" "copy_ended (cc_to_local p2)" "copy_ended (cc_to_stream p2)" "cc_result p2 = None"
  proof -
    have "\<exists>c. pipe_step\<^sup>*\<^sup>* p1 (p1\<lparr>cc_to_stream := c\<rparr>) \<and> copy_ended c \<or> copy_ended (cc_to_stream p1)"
      by (rule client_copy_ends) (auto intro: pipe_step.stream_read pipe_step.stream_write)
    then show ?thesis using that [of p1] that [of "p1\<lparr>cc_to_stream := c\<rparr>" for c] p1 by auto
  qed
  let ?p3 = "p2\<lparr>cc_cancelled := True\<rparr>"
  let ?p4 = "?p3\<lparr>cc_result := Some (length (cp_written (cc_to_local ?p3)), length (cp_written (cc_to_stream ?p3)))\<rparr>"
  have "pipe_step p2 ?p3" using p2(2) by (intro pipe_step.cancel) simp
  moreover have "pipe_step ?p3 ?p4" using p2 by (intro pipe_step.return) simp_all
  ultimately have "pipe_step\<^sup>*\<^sup>* p ?p4" using p1(1) p2(1) by (meson rtranclp.rtrancl_into_rtrancl rtranclp_trans)
  moreover have "cc_result ?p4 = Some (length (cp_written (cc_to_local ?p3)), length (cp_written (cc_to_stream ?p3)))" by simp
  ultimately show ?thesis by blast
qed

definition live_conns :: "vless_mode \<Rightarrow> nat" where
  "live_conns m = card {i. i < length (vm_conns m) \<and> vc_pc (vm_conns m ! i) \<noteq> ConnDone}"

definition quiet :: "vless_mode \<Rightarrow> vless_mode \<Rightarrow> bool" where
  "quiet m m' \<longleftrightarrow> vm_phase m' = vm_phase m \<and> vl_ctxDone (vm_world m') = vl_ctxDone (vm_world m) \<and>
     length (vm_conns m') = length (vm_conns m)"

lemma quiet_simps [simp]: "quiet m m" "quiet m (set_vconn i pc m)" "quiet m (upd_world_pool f m)" "quiet m (set_vconn i pc (upd_world_pool f m))"
  by (simp_all add: quiet_def)

lemma quiet_trans: "quiet m m1 \<Longrightarrow> quiet m1 m2 \<Longrightarrow> quiet m m2" by (simp add: quiet_def)

lemma live_conns_end:
  "vconn_at m i pc0 \<Longrightarrow> pc0 \<noteq> ConnDone \<Longrightarrow> vm_conns m' = (vm_conns m)[i := \<lparr>vc_pc = ConnDone, vc_tcpOpen = False\<rparr>]
    \<Longrightarrow> live_conns m' < live_conns m"
  unfolding live_conns_def by (intro psubset_card_mono) (auto simp: vconn_at_def nth_list_update split: if_splits)

lemma live_conns_same:
  assumes "vconn_at m i pc0" and "pc0 \<noteq> ConnDone" and "pc \<noteq> ConnDone"
  shows "live_conns (set_vconn i pc m) = live_conns m"
  unfolding live_conns_def using assms
  by (intro arg_cong [of _ _ card]) (auto simp: vconn_at_def nth_list_update split: if_splits)

lemma conn_steps_lift:
  assumes step: "\<And>m x y. vconn_at m i (F x) \<Longrightarrow> R x y \<Longrightarrow> vless_mode_step n tp m (set_vconn i (F y) m)"
    and live: "\<And>x. F x \<noteq> ConnDone"
  shows "R\<^sup>*\<^sup>* x y \<Longrightarrow> vconn_at m i (F x)
    \<Longrightarrow> \<exists>m'. (vless_mode_step n tp)\<^sup>*\<^sup>* m m' \<and> vconn_at m' i (F y) \<and> quiet m m' \<and> live_conns m' = live_conns m"
proof (induction rule: rtranclp_induct)
  case base
  then show ?case by (intro exI [of _ m]) simp
next
  case (step y z)
  then obtain m1 where m1: "(vless_mode_step n tp)\<^sup>*\<^sup>* m m1" "vconn_at m1 i (F y)" "quiet m m1" "live_conns m1 = live_conns m"
    by blast
  let ?m = "set_vconn i (F z) m1"
  have "vless_mode_step n tp m1 ?m" using assms(1) m1(2) step.hyps(2) by blast
  moreover have "vconn_at ?m i (F z)" using m1(2) by (simp add: vconn_at_def)
  moreover have "live_conns ?m = live_conns m1" by (rule live_conns_same [OF m1(2) live live])
  ultimately show ?case using m1 by (intro exI [of _ ?m]) (auto simp: quiet_def)
qed

lemma open_lanes_none: "snd (open_lanes cid n i (zip cs (replicate (length cs) None)) w) = []"
  by (induction cs arbitrary: i w) simp_all

lemma conn_can_end:
  assumes i: "i < length (vm_conns m)" and live: "vc_pc (vm_conns m ! i) \<noteq> ConnDone"
  shows "\<exists>m'. (vless_mode_step n tp)\<^sup>*\<^sup>* m m' \<and> quiet m m' \<and> live_conns m' < live_conns m"
proof -
  have one: ?thesis if "(vless_mode_step n tp)\<^sup>*\<^sup>* m m1" "quiet m m1" "live_conns m1 = live_conns m" "vconn_at m1 i pc0" "pc0 \<noteq> ConnDone"
      "vless_mode_step n tp m1 m2" "quiet m1 m2" "vm_conns m2 = (vm_conns m1)[i := \<lparr>vc_pc = ConnDone, vc_tcpOpen = False\<rparr>]" for m1 m2 pc0
    using that live_conns_end [OF that(4,5,8)] by (intro exI [of _ m2]) (auto intro: quiet_trans)
  show ?thesis
  proof (cases "vc_pc (vm_conns m ! i)")
    case (PlainStart ps)
    then have at: "vconn_at m i (PlainStart ps)" using i by (simp add: vconn_at_def)
    have "vless_mode_step n tp m (plain_open i ps (Some ''closed'') m)" using at by (rule vless_mode_step.open_stream)
    then show ?thesis using at by (intro one [of m "PlainStart ps" "plain_open i ps (Some ''closed'') m"]) (simp_all add: plain_open_def quiet_def)
  next
    case (PlainPipe ps c)
    then have at: "vconn_at m i (PlainPipe ps c)" using i by (simp add: vconn_at_def)
    obtain c' counts where c': "pipe_step\<^sup>*\<^sup>* c c'" "cc_result c' = Some counts" using client_pipe_can_end by blast
    obtain m1 where m1: "(vless_mode_step n tp)\<^sup>*\<^sup>* m m1" "vconn_at m1 i (PlainPipe ps c')" "quiet m m1" "live_conns m1 = live_conns m"
      using conn_steps_lift [where F = "PlainPipe ps" and R = pipe_step and n = n and tp = tp, OF _ _ c'(1) at] vless_mode_step.pipe by blast
    have "vless_mode_step n tp m1 (plain_end i ps counts m1)" using m1(2) c'(2) by (rule vless_mode_step.pipe_end)
    then show ?thesis using m1 by (intro one [of m1 "PlainPipe ps c'" "plain_end i ps counts m1"]) (simp_all add: plain_end_def quiet_def)
  next
    case (BondStart cid candidates)
    then have at: "vconn_at m i (BondStart cid candidates)" using i by (simp add: vconn_at_def)
    let ?m = "bond_open_lanes i cid candidates (replicate (length candidates) None) (\<lambda>_. \<lparr>rd_bytes = [], rd_end = EOF\<rparr>) \<lparr>cn_sent = [], cn_script = []\<rparr> m"
    obtain p lanes where o: "open_lanes cid (length candidates) 0 (zip candidates (replicate (length candidates) None)) (vl_pool (vm_world m)) = (p, lanes)"
      by fastforce
    then have "lanes = []" using open_lanes_none [of cid "length candidates" 0 candidates "vl_pool (vm_world m)"] by simp
    then have m': "?m = set_vconn i ConnDone (upd_world_pool (\<lambda>_. p) m)" using o by (simp add: bond_open_lanes_def)
    have "vless_mode_step n tp m ?m" using at by (rule vless_mode_step.bond_open) simp
    then show ?thesis using at unfolding m' by (intro one [of m "BondStart cid candidates" "set_vconn i ConnDone (upd_world_pool (\<lambda>_. p) m)"]) (simp_all add: quiet_def)
  next
    case (BondRun lanes b)
    then have at: "vconn_at m i (BondRun lanes b)" using i by (simp add: vconn_at_def)
    have "bond_client_step b (b\<lparr>bc_cancelled := True\<rparr>)" by (rule bond_client_step.cancel)
    then obtain b' where b': "bond_client_step\<^sup>*\<^sup>* b b'" "bc_returned b'"
      using bonded_download_ends [of "b\<lparr>bc_cancelled := True\<rparr>"] by (auto intro: converse_rtranclp_into_rtranclp)
    obtain m1 where m1: "(vless_mode_step n tp)\<^sup>*\<^sup>* m m1" "vconn_at m1 i (BondRun lanes b')" "quiet m m1" "live_conns m1 = live_conns m"
      using conn_steps_lift [where F = "BondRun lanes" and R = bond_client_step and n = n and tp = tp, OF _ _ b'(1) at] vless_mode_step.bond by blast
    have "vless_mode_step n tp m1 (bond_conn_end i lanes m1)" using m1(2) b'(2) by (rule vless_mode_step.bond_end)
    then show ?thesis using m1 by (intro one [of m1 "BondRun lanes b'" "bond_conn_end i lanes m1"]) (simp_all add: bond_conn_end_def quiet_def)
  next
    case ConnDone
    then show ?thesis using live by simp
  qed
qed

lemma conns_can_end: "\<exists>m'. (vless_mode_step n tp)\<^sup>*\<^sup>* m m' \<and> quiet m m' \<and> conns_done m'"
proof (induction "live_conns m" arbitrary: m rule: less_induct)
  case less
  show ?case
  proof (cases "conns_done m")
    case True
    then show ?thesis by (intro exI [of _ m]) simp
  next
    case False
    then obtain i where "i < length (vm_conns m)" "vc_pc (vm_conns m ! i) \<noteq> ConnDone"
      by (auto simp: conns_done_def list_all_length)
    then obtain m1 where m1: "(vless_mode_step n tp)\<^sup>*\<^sup>* m m1" "quiet m m1" "live_conns m1 < live_conns m"
      using conn_can_end by blast
    then show ?thesis using less [OF m1(3)] by (meson quiet_trans rtranclp_trans)
  qed
qed

text \<open>A maintaining goroutine leaves its loop once the context is done; the others keep their phases.\<close>

lemma maintainer_can_exit:
  assumes "i < n" and ctx: "vl_ctxDone (vm_world m)"
  shows "\<exists>m'. (vless_mode_step n tp)\<^sup>*\<^sup>* m m' \<and> quiet m m' \<and> vm_conns m' = vm_conns m \<and> mt_phase (vl_ms (vm_world m') i) = MExited \<and>
    (\<forall>j. j \<noteq> i \<longrightarrow> mt_phase (vl_ms (vm_world m') j) = mt_phase (vl_ms (vm_world m) j))"
proof -
  have wait: "\<exists>m'. (vless_mode_step n tp)\<^sup>*\<^sup>* m m' \<and> quiet m m' \<and> vm_conns m' = vm_conns m \<and> mt_phase (vl_ms (vm_world m') i) = MExited \<and>
      (\<forall>j. j \<noteq> i \<longrightarrow> mt_phase (vl_ms (vm_world m') j) = mt_phase (vl_ms (vm_world m) j))"
    if "mt_phase (vl_ms (vm_world m) i) = MWait" "vl_ctxDone (vm_world m)" for m
    using vless_mode_step.mt_wait [OF assms(1) that(1), of tp False] that(2)
    by (intro exI [of _ "m\<lparr>vm_world := mt_wait i False (vm_world m)\<rparr>"]) (auto simp: quiet_def mt_wait_def)
  show ?thesis
  proof (cases "mt_phase (vl_ms (vm_world m) i)")
    case MWait
    then show ?thesis using wait ctx by blast
  next
    case MTop
    then show ?thesis using vless_mode_step.mt_top [OF assms(1) MTop] ctx
      by (intro exI [of _ "m\<lparr>vm_world := mt_top undefined tp 0 i (vm_world m)\<rparr>"]) (auto simp: quiet_def mt_top_def)
  next
    case (MServing ps cleanup)
    let ?m = "m\<lparr>vm_world := mt_serving i (vm_world m)\<rparr>"
    have step: "vless_mode_step n tp m ?m" using assms(1) by (rule vless_mode_step.mt_serving)
    have other: "j \<noteq> i \<longrightarrow> mt_phase (vl_ms (vm_world ?m) j) = mt_phase (vl_ms (vm_world m) j)" for j
      by (simp add: mt_serving_def mt_end_def MServing)
    have q: "quiet m ?m" "vl_ctxDone (vm_world ?m)" using ctx mt_serving_frame(2) by (simp_all add: quiet_def)
    show ?thesis
    proof (cases "ps_isClosed (mode_sessions m ! ps)")
      case True
      then have "mt_phase (vl_ms (vm_world ?m) i) = MWait" using MServing by (simp add: mt_serving_def mt_end_def)
      then obtain m' where "(vless_mode_step n tp)\<^sup>*\<^sup>* ?m m'" "quiet ?m m'" "vm_conns m' = vm_conns ?m" "mt_phase (vl_ms (vm_world m') i) = MExited"
        "\<forall>j. j \<noteq> i \<longrightarrow> mt_phase (vl_ms (vm_world m') j) = mt_phase (vl_ms (vm_world ?m) j)"
        using wait q(2) by blast
      then show ?thesis using step q other
        by (intro exI [of _ m']) (auto intro: quiet_trans converse_rtranclp_into_rtranclp)
    next
      case False
      then have "mt_phase (vl_ms (vm_world ?m) i) = MExited" using MServing ctx by (simp add: mt_serving_def mt_end_def)
      then show ?thesis using step q other by (intro exI [of _ ?m]) auto
    qed
  next
    case MExited
    then show ?thesis by (intro exI [of _ m]) simp
  qed
qed

lemma maintainers_can_exit:
  assumes "k \<le> n" and "vl_ctxDone (vm_world m)"
  shows "\<exists>m'. (vless_mode_step n tp)\<^sup>*\<^sup>* m m' \<and> quiet m m' \<and> vm_conns m' = vm_conns m \<and> (\<forall>i < k. mt_phase (vl_ms (vm_world m') i) = MExited)"
  using assms(1)
proof (induction k)
  case 0
  then show ?case by (intro exI [of _ m]) simp
next
  case (Suc k)
  then obtain m1 where m1: "(vless_mode_step n tp)\<^sup>*\<^sup>* m m1" "quiet m m1" "vm_conns m1 = vm_conns m" "\<forall>i < k. mt_phase (vl_ms (vm_world m1) i) = MExited"
    by auto
  have "vl_ctxDone (vm_world m1)" using m1(2) assms(2) by (simp add: quiet_def)
  then obtain m2 where m2: "(vless_mode_step n tp)\<^sup>*\<^sup>* m1 m2" "quiet m1 m2" "vm_conns m2 = vm_conns m1" "mt_phase (vl_ms (vm_world m2) k) = MExited"
      "\<forall>j. j \<noteq> k \<longrightarrow> mt_phase (vl_ms (vm_world m2) j) = mt_phase (vl_ms (vm_world m1) j)"
    using maintainer_can_exit [of k n m1 tp] Suc.prems by auto
  have "\<forall>i < Suc k. mt_phase (vl_ms (vm_world m2) i) = MExited" using m1(4) m2(4,5) by (metis less_SucE)
  then show ?case using m1 m2 by (intro exI [of _ m2]) (auto intro: quiet_trans)
qed

lemma mode_can_wait:
  assumes ctx: "vl_ctxDone (vm_world m)" and ok: "mode_ok n m" and phase: "vm_phase m \<noteq> VmPanicked" "vm_phase m \<noteq> VmReturned"
  shows "\<exists>m'. (vless_mode_step n tp)\<^sup>*\<^sup>* m m' \<and> vm_phase m' = VmWaitMaint \<and> vl_ctxDone (vm_world m')"
proof -
  have conns: "\<exists>m'. (vless_mode_step n tp)\<^sup>*\<^sup>* m m' \<and> vm_phase m' = VmWaitMaint \<and> vl_ctxDone (vm_world m')"
    if "vm_phase m = VmWaitConns" "vl_ctxDone (vm_world m)" for m
  proof -
    obtain m1 where m1: "(vless_mode_step n tp)\<^sup>*\<^sup>* m m1" "quiet m m1" "conns_done m1" using conns_can_end by blast
    then have "vless_mode_step n tp m1 (m1\<lparr>vm_phase := VmWaitMaint\<rparr>)" using that(1) by (intro vless_mode_step.conns_end) (simp_all add: quiet_def)
    then show ?thesis using m1 that(2) by (intro exI [of _ "m1\<lparr>vm_phase := VmWaitMaint\<rparr>"]) (auto simp: quiet_def)
  qed
  have accept: "\<exists>m'. (vless_mode_step n tp)\<^sup>*\<^sup>* m m' \<and> vm_phase m' = VmWaitMaint \<and> vl_ctxDone (vm_world m')"
    if "vm_phase m = VmAccept" "vl_ctxDone (vm_world m)" for m
    using vless_mode_step.accept_error [OF that(1)] conns [of "vm_accept_error m"] that(2)
    by (auto simp: vm_accept_error_def intro: converse_rtranclp_into_rtranclp)
  show ?thesis
  proof (cases "vm_phase m")
    case VmWaitFirst
    then show ?thesis using vless_mode_step.poll [OF VmWaitFirst, of n tp False] ctx
      by (intro exI [of _ "vm_poll False m"]) (auto simp: vm_poll_def)
  next
    case VmListen
    then show ?thesis using vless_mode_step.listen [OF VmListen, of n tp None] accept [of "vm_listen None m"] ctx
      by (auto simp: vm_listen_def intro: converse_rtranclp_into_rtranclp)
  next
    case VmWaitMaint
    then show ?thesis using ctx by blast
  qed (use phase accept conns ctx in auto)
qed

lemma mode_can_return:
  assumes "vl_ctxDone (vm_world m)" and "mode_ok n m" and "vm_phase m \<noteq> VmPanicked"
  shows "\<exists>m'. (vless_mode_step n tp)\<^sup>*\<^sup>* m m' \<and> vm_phase m' = VmReturned"
proof (cases "vm_phase m = VmReturned")
  case True
  then show ?thesis by blast
next
  case False
  obtain m1 where m1: "(vless_mode_step n tp)\<^sup>*\<^sup>* m m1" "vm_phase m1 = VmWaitMaint" "vl_ctxDone (vm_world m1)"
    using mode_can_wait [OF assms False] by blast
  obtain m2 where m2: "(vless_mode_step n tp)\<^sup>*\<^sup>* m1 m2" "quiet m1 m2" "\<forall>i < n. mt_phase (vl_ms (vm_world m2) i) = MExited"
    using maintainers_can_exit [of n n m1 tp] m1(3) by auto
  have "vless_mode_step n tp m2 (m2\<lparr>vm_phase := VmReturned\<rparr>)"
    using m1(2) m2 by (intro vless_mode_step.finish) (auto simp: quiet_def maintainers_done_def)
  then show ?thesis using m1(1) m2(1) by (intro exI [of _ "m2\<lparr>vm_phase := VmReturned\<rparr>"]) (auto intro: rtranclp_trans)
qed

section \<open>Property\<close>

text \<open>C40: VLESS mode of the client as a whole, over any interleaving of its sessions and connections: at any time the gauge of
  a session is the number of plain connections and of bonded lanes that use it, and the connections counted as opened
  are those closed and those active. When the mode has returned, every local connection is closed, every gauge is zero
  and the goroutines of the sessions hold no layer any more; and once the context is done, the mode can return from
  every state, unless listening on the local address failed.\<close>

theorem vless_mode_accounts:
  assumes "(vless_mode_step n tp)\<^sup>*\<^sup>* (vless_mode_start cs) m"
  shows "(k < length (mode_sessions m) \<longrightarrow>
       ps_active (mode_sessions m ! k) = of_nat (total_uses (vm_conns m) k) \<and>
       ps_opened (mode_sessions m ! k) = ps_closed (mode_sessions m ! k) + of_nat (total_uses (vm_conns m) k))
    \<and> (vm_phase m = VmReturned \<longrightarrow>
         list_all (\<lambda>c. \<not> vc_tcpOpen c) (vm_conns m) \<and> total_uses (vm_conns m) k = 0 \<and>
         (\<forall>i < n. held (mt_log (vl_ms (vm_world m) i)) r = 0))
    \<and> (vl_ctxDone (vm_world m) \<and> vm_phase m \<noteq> VmPanicked \<longrightarrow>
         (\<exists>m'. (vless_mode_step n tp)\<^sup>*\<^sup>* m m' \<and> vm_phase m' = VmReturned))"
proof -
  have ok: "mode_ok n m" by (rule vless_modes.reachable_inv [OF _ assms]) blast
  have "list_all (\<lambda>c. \<not> vc_tcpOpen c) (vm_conns m) \<and> total_uses (vm_conns m) k = 0 \<and>
      (\<forall>i < n. held (mt_log (vl_ms (vm_world m) i)) r = 0)" if "vm_phase m = VmReturned"
  proof -
    have fin: "conns_done m" "maintainers_done n m" using ok that by (auto simp: mode_ok_def mode_phase_ok_def)
    have "list_all (\<lambda>c. \<not> vc_tcpOpen c) (vm_conns m)"
      using fin(1) ok by (auto simp: mode_ok_def conns_done_def list_all_iff vconn_ok_def)
    moreover have "total_uses (vm_conns m) k = 0" using fin(1) by (auto simp: conns_done_def list_all_iff total_uses_def)
    moreover have "held (mt_log (vl_ms (vm_world m) i)) r = 0" if "i < n" for i
      using fin(2) ok that unfolding mode_ok_def log_ok_def maintainers_done_def by (simp add: is_serving_def)
    ultimately show ?thesis by blast
  qed
  then show ?thesis using ok mode_can_return [OF _ ok] by (auto simp: mode_ok_def gauge_ok_def)
qed

text \<open>The example: one session comes up at the second attempt, and a local connection is accepted.\<close>

definition sample_mode :: "vless_mode" where
  "sample_mode =
     (let m0 = (vless_mode_start (tr_creds sample_run))\<lparr>vm_world := sample_vless ! 3\<rparr>
      in vm_accept False 0 (vm_listen None (vm_poll True m0)))"

lemma sample_mode_up:
  "(vless_mode_step 1 sample_params)\<^sup>*\<^sup>* (vless_mode_start (tr_creds sample_run)) ((vless_mode_start (tr_creds sample_run))\<lparr>vm_world := sample_vless ! 3\<rparr>)"
proof -
  let ?m = "\<lambda>w. (vless_mode_start (tr_creds sample_run))\<lparr>vm_world := w\<rparr>"
  have p: "mt_phase (vl_ms (vless_start cs) 0) = MWait" "mt_phase (vl_ms (sample_vless ! 0) 0) = MTop"
    "mt_phase (vl_ms (sample_vless ! 1) 0) = MWait" "mt_phase (vl_ms (sample_vless ! 2) 0) = MTop" for cs
    by (simp_all add: sample_vless_def Let_def mt_wait_def mt_top_def sample_setups) (simp_all add: vless_start_def)
  have start: "?m (vless_start (tr_creds sample_run)) = vless_mode_start (tr_creds sample_run)" by (simp add: vless_mode_start_def)
  have "vless_mode_step 1 sample_params (?m (vless_start (tr_creds sample_run))) (?m (sample_vless ! 0))"
    using vless_mode_step.mt_wait [of 0 1 "?m (vless_start (tr_creds sample_run))" sample_params True] p by (simp add: sample_vless_def Let_def)
  moreover have "vless_mode_step 1 sample_params (?m (sample_vless ! 0)) (?m (sample_vless ! 1))"
    using vless_mode_step.mt_top [of 0 1 "?m (sample_vless ! 0)" sample_params "sample_setup (Some ''quota'')" 5] p by (simp add: sample_vless_def Let_def)
  moreover have "vless_mode_step 1 sample_params (?m (sample_vless ! 1)) (?m (sample_vless ! 2))"
    using vless_mode_step.mt_wait [of 0 1 "?m (sample_vless ! 1)" sample_params True] p by (simp add: sample_vless_def Let_def)
  moreover have "vless_mode_step 1 sample_params (?m (sample_vless ! 2)) (?m (sample_vless ! 3))"
    using vless_mode_step.mt_top [of 0 1 "?m (sample_vless ! 2)" sample_params "sample_setup None" 9] p by (simp add: sample_vless_def Let_def)
  ultimately show ?thesis unfolding start by (meson rtranclp.rtrancl_into_rtrancl rtranclp.rtrancl_refl)
qed

lemma sample_mode_shape:
  "sp_sessions (pw_pool (vl_pool (sample_vless ! 3))) = [0]"
  "pw_sessions (vl_pool (sample_vless ! 3)) = [\<lparr>ps_id = 0, ps_isClosed = False, ps_active = 0, ps_opened = 0, ps_closed = 0, ps_toSession = 0, ps_fromSession = 0\<rparr>]"
  by (simp_all add: sample_vless_def Let_def mt_wait_def mt_top_def sample_setups)
    (simp_all add: vless_start_def pool_add_def Let_def)

lemma sample_mode_steps: "(vless_mode_step 1 sample_params)\<^sup>*\<^sup>* (vless_mode_start (tr_creds sample_run)) sample_mode"
proof -
  let ?m0 = "(vless_mode_start (tr_creds sample_run))\<lparr>vm_world := sample_vless ! 3\<rparr>"
  have poll: "vm_poll True ?m0 = ?m0\<lparr>vm_phase := VmListen\<rparr>" by (simp add: vm_poll_def pool_count_def sample_mode_shape)
  have "vless_mode_step 1 sample_params ?m0 (vm_poll True ?m0)" by (rule vless_mode_step.poll) (simp add: vless_mode_start_def)
  moreover have "vless_mode_step 1 sample_params (vm_poll True ?m0) (vm_listen None (vm_poll True ?m0))"
    by (rule vless_mode_step.listen) (simp add: poll)
  moreover have "vless_mode_step 1 sample_params (vm_listen None (vm_poll True ?m0)) sample_mode"
    unfolding sample_mode_def Let_def by (rule vless_mode_step.accept) (simp_all add: vm_listen_def)
  ultimately show ?thesis using sample_mode_up by (meson rtranclp.rtrancl_into_rtrancl)
qed

theorem vless_mode_accounts_witness: "ps_active (mode_sessions sample_mode ! 0) = 1"
proof -
  let ?m0 = "(vless_mode_start (tr_creds sample_run))\<lparr>vm_world := sample_vless ! 3\<rparr>"
  have poll: "vm_poll True ?m0 = ?m0\<lparr>vm_phase := VmListen\<rparr>" by (simp add: vm_poll_def pool_count_def sample_mode_shape)
  have "vm_conns sample_mode = [\<lparr>vc_pc = PlainStart 0, vc_tcpOpen = True\<rparr>] \<and> length (mode_sessions sample_mode) = 1"
    unfolding sample_mode_def Let_def poll
    by (simp add: Let_def vm_listen_def vm_accept_def dispatch_tcp_def pool_pick_def pool_nextConnID_def
        sample_mode_shape upd_world_pool_def vless_mode_start_def)
  then show ?thesis using vless_mode_accounts [OF sample_mode_steps, of 0] by (simp add: total_uses_def)
qed

end
