(* ===== verification/Throughput.thy ===== *)
theory Throughput
  imports Turn_Prelude
begin

text \<open>
  The counters of the throughput log: \<open>throughputStats\<close>, \<open>countingConn\<close> and \<open>logEvery\<close>, which \<open>server/main.go\<close> and
  \<open>pkg/clientcore/main.go\<close> have with the same text. The quantities that a line shows are kept as the quotient, the number
  of decimals and the unit that are given to the formatter of the library; how a floating point number is rounded and
  printed is left to it.
\<close>

section \<open>Counters\<close>

record throughputStats =
  tp_tx :: u64
  tp_rx :: u64

definition addTx :: "int \<Rightarrow> throughputStats \<Rightarrow> throughputStats" where
  "addTx n s = (if 0 < n then s\<lparr>tp_tx := tp_tx s + of_int n\<rparr> else s)"

definition addRx :: "int \<Rightarrow> throughputStats \<Rightarrow> throughputStats" where
  "addRx n s = (if 0 < n then s\<lparr>tp_rx := tp_rx s + of_int n\<rparr> else s)"

text \<open>The connection that counts: what the inner connection answers is passed on.\<close>

definition counting_Read :: "int \<times> 'e \<Rightarrow> throughputStats \<Rightarrow> throughputStats \<times> (int \<times> 'e)" where
  "counting_Read answer s = (case answer of (n, err) \<Rightarrow> (addRx n s, (n, err)))"

definition counting_Write :: "int \<times> 'e \<Rightarrow> throughputStats \<Rightarrow> throughputStats \<times> (int \<times> 'e)" where
  "counting_Write answer s = (case answer of (n, err) \<Rightarrow> (addTx n s, (n, err)))"

section \<open>Quantities\<close>

text \<open>\<open>am_num / am_den\<close> with so many decimals, and the unit.\<close>

record amount =
  am_num :: nat
  am_den :: nat
  am_decimals :: nat
  am_unit :: string

definition formatByteCount :: "u64 \<Rightarrow> amount" where
  "formatByteCount bytes =
     (if 1024 * 1024 \<le> bytes then \<lparr>am_num = unat bytes, am_den = 1024 * 1024, am_decimals = 2, am_unit = ''MiB''\<rparr>
      else if 1024 \<le> bytes then \<lparr>am_num = unat bytes, am_den = 1024, am_decimals = 1, am_unit = ''KiB''\<rparr>
      else \<lparr>am_num = unat bytes, am_den = 1, am_decimals = 0, am_unit = ''B''\<rparr>)"

text \<open>The interval is in nanoseconds; the product with eight wraps like the code's. The comparisons are those of the exact
  quotient.\<close>

definition formatBitsPerSecond :: "u64 \<Rightarrow> int \<Rightarrow> amount" where
  "formatBitsPerSecond bytes interval =
     (let ns = (if interval \<le> 0 then 1000000000 else nat interval);
          num = unat (bytes * 8) * 1000000000
      in if 1000000 * ns \<le> num then \<lparr>am_num = num, am_den = ns * 1000000, am_decimals = 2, am_unit = ''Mbit/s''\<rparr>
         else if 1000 * ns \<le> num then \<lparr>am_num = num, am_den = ns * 1000, am_decimals = 1, am_unit = ''kbit/s''\<rparr>
         else \<lparr>am_num = num, am_den = ns, am_decimals = 0, am_unit = ''bit/s''\<rparr>)"

section \<open>The log\<close>

record throughput_line =
  tl_tx :: amount
  tl_rx :: amount
  tl_totalTx :: amount
  tl_totalRx :: amount

text \<open>A tick of the timer: the counters are compared with those of the tick before.\<close>

definition logInterval :: int where "logInterval = 5 * 1000000000"

definition log_tick :: "throughputStats \<Rightarrow> throughputStats \<Rightarrow> throughputStats \<times> throughput_line option" where
  "log_tick prev now =
     (let deltaTx = tp_tx now - tp_tx prev; deltaRx = tp_rx now - tp_rx prev in
      (now,
       if deltaTx = 0 \<and> deltaRx = 0 then None
       else Some \<lparr>tl_tx = formatBitsPerSecond deltaTx logInterval, tl_rx = formatBitsPerSecond deltaRx logInterval,
              tl_totalTx = formatByteCount (tp_tx now), tl_totalRx = formatByteCount (tp_rx now)\<rparr>))"

text \<open>The loop over the ticks until the context is done; only in debug mode.\<close>

fun log_ticks :: "throughputStats \<Rightarrow> throughputStats list \<Rightarrow> throughput_line list" where
  "log_ticks prev [] = []"
| "log_ticks prev (now # rest) =
     (case log_tick prev now of
        (prev', None) \<Rightarrow> log_ticks prev' rest
      | (prev', Some line) \<Rightarrow> line # log_ticks prev' rest)"

definition logEvery :: "bool \<Rightarrow> throughputStats list \<Rightarrow> throughput_line list" where
  "logEvery debug ticks = (if debug then log_ticks \<lparr>tp_tx = 0, tp_rx = 0\<rparr> ticks else [])"

section \<open>Lemmas\<close>

lemma counting_transparent: "snd (counting_Read a s) = a" "snd (counting_Write a s) = a"
  by (simp_all add: counting_Read_def counting_Write_def split: prod.split)

text \<open>An error with a negative count leaves the counters as they are.\<close>

lemma counting_errors: "n \<le> 0 \<Longrightarrow> fst (counting_Read (n, e) s) = s" "n \<le> 0 \<Longrightarrow> fst (counting_Write (n, e) s) = s"
  by (simp_all add: counting_Read_def counting_Write_def addRx_def addTx_def)

text \<open>The counters are the sums of what was read and written, modulo the width.\<close>

lemma counted_reads: "tp_rx (fold (\<lambda>a s. fst (counting_Read a s)) answers s) = tp_rx s + of_int (sum_list (map (\<lambda>a. max 0 (fst a)) answers))"
  by (induction answers arbitrary: s) (auto simp: counting_Read_def addRx_def max_def add.assoc split: prod.split)

text \<open>The mantissa of a quantity that has a unit of its own is at least one, and below the next unit.\<close>

lemma byte_count_bounds:
  "am_den (formatByteCount b) \<le> am_num (formatByteCount b) \<or> am_unit (formatByteCount b) = ''B''"
  "am_unit (formatByteCount b) \<noteq> ''MiB'' \<Longrightarrow> am_num (formatByteCount b) < 1024 * am_den (formatByteCount b)"
  by (auto simp: formatByteCount_def word_le_nat_alt not_le)

lemma bits_bounds:
  "0 < am_den (formatBitsPerSecond b interval)"
  "am_unit (formatBitsPerSecond b interval) \<noteq> ''bit/s'' \<Longrightarrow> am_den (formatBitsPerSecond b interval) \<le> am_num (formatBitsPerSecond b interval)"
  by (auto simp: formatBitsPerSecond_def Let_def mult.commute)

text \<open>An idle tick prints nothing, and the next one compares with it: the differences of the ticks sum up to the total.\<close>

definition tick_deltas :: "throughputStats \<Rightarrow> throughputStats list \<Rightarrow> u64 list" where
  "tick_deltas prev ticks = map2 (\<lambda>a b. tp_tx b - tp_tx a) (prev # ticks) ticks"

lemma tick_deltas_sum: "tp_tx prev + sum_list (tick_deltas prev ticks) = tp_tx (last (prev # ticks))"
proof (induction ticks arbitrary: prev)
  case (Cons now rest)
  show ?case using Cons.IH [of now] by (simp add: tick_deltas_def)
qed (simp add: tick_deltas_def)

lemma log_ticks_count:
  "length (log_ticks prev ticks) = length (filter (\<lambda>(a, b). a \<noteq> b) (zip (prev # ticks) ticks))"
proof (induction ticks arbitrary: prev)
  case (Cons now rest)
  have "(tp_tx now - tp_tx prev = 0 \<and> tp_rx now - tp_rx prev = 0) \<longleftrightarrow> prev = now" by (cases prev; cases now) auto
  then show ?case using Cons.IH [of now] by (auto simp: log_tick_def Let_def)
qed simp

end
