(* ===== verification/Name_Generator.thy ===== *)
theory Name_Generator
  imports Turn_Prelude "HOL-Library.Sublist"
begin

text \<open>
  The names under which the client asks for anonymous tokens (\<open>pkg/clientcore/namegen.go\<close>): the tables, the female form of a
  surname and the random choice. A name is written in letters of the Cyrillic block, given by their code points; a Go
  string holds their two-byte UTF-8 encoding, on which the code works. What the random source answers is an argument.
\<close>

section \<open>Encoding\<close>

type_synonym letters = "nat list"

text \<open>UTF-8 of a code point from 0x80 to 0x7ff.\<close>

definition utf8_letter :: "nat \<Rightarrow> bytes" where
  "utf8_letter c = [of_nat (0xc0 + c div 64), of_nat (0x80 + c mod 64)]"

definition utf8 :: "letters \<Rightarrow> bytes" where "utf8 cs = concat (map utf8_letter cs)"

definition two_byte :: "letters \<Rightarrow> bool" where "two_byte cs \<longleftrightarrow> list_all (\<lambda>c. 0x80 \<le> c \<and> c < 0x800) cs"

section \<open>Tables\<close>

definition maleFirstNames :: "letters list" where
  "maleFirstNames =
    [[0x410, 0x43b, 0x435, 0x43a, 0x441, 0x430, 0x43d, 0x434, 0x440],
     [0x410, 0x43b, 0x435, 0x43a, 0x441, 0x435, 0x439],
     [0x410, 0x43d, 0x434, 0x440, 0x435, 0x439],
     [0x410, 0x43d, 0x442, 0x43e, 0x43d],
     [0x410, 0x440, 0x441, 0x435, 0x43d, 0x438, 0x439],
     [0x410, 0x440, 0x442, 0x443, 0x440],
     [0x410, 0x440, 0x442, 0x451, 0x43c],
     [0x411, 0x43e, 0x433, 0x434, 0x430, 0x43d],
     [0x412, 0x430, 0x43b, 0x435, 0x440, 0x438, 0x439],
     [0x412, 0x430, 0x441, 0x438, 0x43b, 0x438, 0x439],
     [0x412, 0x438, 0x43a, 0x442, 0x43e, 0x440],
     [0x412, 0x43b, 0x430, 0x434, 0x438, 0x441, 0x43b, 0x430, 0x432],
     [0x413, 0x43b, 0x435, 0x431],
     [0x413, 0x440, 0x438, 0x433, 0x43e, 0x440, 0x438, 0x439],
     [0x414, 0x430, 0x43d, 0x438, 0x438, 0x43b],
     [0x414, 0x435, 0x43d, 0x438, 0x441],
     [0x414, 0x43c, 0x438, 0x442, 0x440, 0x438, 0x439],
     [0x415, 0x432, 0x433, 0x435, 0x43d, 0x438, 0x439],
     [0x415, 0x433, 0x43e, 0x440],
     [0x418, 0x432, 0x430, 0x43d],
     [0x418, 0x433, 0x43e, 0x440, 0x44c],
     [0x418, 0x43b, 0x44c, 0x44f],
     [0x41a, 0x438, 0x440, 0x438, 0x43b, 0x43b],
     [0x41b, 0x435, 0x43e, 0x43d, 0x438, 0x434],
     [0x41c, 0x430, 0x43a, 0x441, 0x438, 0x43c],
     [0x41c, 0x430, 0x440, 0x43a],
     [0x41c, 0x430, 0x442, 0x432, 0x435, 0x439],
     [0x41c, 0x438, 0x445, 0x430, 0x438, 0x43b],
     [0x41d, 0x438, 0x43a, 0x438, 0x442, 0x430],
     [0x41d, 0x438, 0x43a, 0x43e, 0x43b, 0x430, 0x439],
     [0x41e, 0x43b, 0x435, 0x433],
     [0x41f, 0x430, 0x432, 0x435, 0x43b],
     [0x41f, 0x451, 0x442, 0x440],
     [0x420, 0x43e, 0x43c, 0x430, 0x43d],
     [0x420, 0x443, 0x441, 0x43b, 0x430, 0x43d],
     [0x421, 0x435, 0x440, 0x433, 0x435, 0x439],
     [0x421, 0x442, 0x430, 0x43d, 0x438, 0x441, 0x43b, 0x430, 0x432],
     [0x422, 0x438, 0x43c, 0x43e, 0x444, 0x435, 0x439],
     [0x424, 0x451, 0x434, 0x43e, 0x440]]"

definition femaleFirstNames :: "letters list" where
  "femaleFirstNames =
    [[0x410, 0x43b, 0x438, 0x43d, 0x430],
     [0x410, 0x43b, 0x451, 0x43d, 0x430],
     [0x410, 0x43d, 0x430, 0x441, 0x442, 0x430, 0x441, 0x438, 0x44f],
     [0x410, 0x43d, 0x433, 0x435, 0x43b, 0x438, 0x43d, 0x430],
     [0x410, 0x43d, 0x43d, 0x430],
     [0x412, 0x435, 0x440, 0x430],
     [0x412, 0x435, 0x440, 0x43e, 0x43d, 0x438, 0x43a, 0x430],
     [0x412, 0x438, 0x43a, 0x442, 0x43e, 0x440, 0x438, 0x44f],
     [0x414, 0x430, 0x440, 0x44c, 0x44f],
     [0x415, 0x432, 0x430],
     [0x415, 0x43a, 0x430, 0x442, 0x435, 0x440, 0x438, 0x43d, 0x430],
     [0x415, 0x43b, 0x435, 0x43d, 0x430],
     [0x415, 0x43b, 0x438, 0x437, 0x430, 0x432, 0x435, 0x442, 0x430],
     [0x418, 0x440, 0x438, 0x43d, 0x430],
     [0x41a, 0x438, 0x440, 0x430],
     [0x41a, 0x440, 0x438, 0x441, 0x442, 0x438, 0x43d, 0x430],
     [0x41a, 0x441, 0x435, 0x43d, 0x438, 0x44f],
     [0x41b, 0x44e, 0x431, 0x43e, 0x432, 0x44c],
     [0x41c, 0x430, 0x440, 0x433, 0x430, 0x440, 0x438, 0x442, 0x430],
     [0x41c, 0x430, 0x440, 0x438, 0x43d, 0x430],
     [0x41c, 0x430, 0x440, 0x438, 0x44f],
     [0x41c, 0x438, 0x43b, 0x430, 0x43d, 0x430],
     [0x41d, 0x430, 0x434, 0x435, 0x436, 0x434, 0x430],
     [0x41d, 0x430, 0x442, 0x430, 0x43b, 0x44c, 0x44f],
     [0x41e, 0x43b, 0x44c, 0x433, 0x430],
     [0x41f, 0x43e, 0x43b, 0x438, 0x43d, 0x430],
     [0x421, 0x432, 0x435, 0x442, 0x43b, 0x430, 0x43d, 0x430],
     [0x421, 0x43e, 0x444, 0x438, 0x44f],
     [0x422, 0x430, 0x442, 0x44c, 0x44f, 0x43d, 0x430],
     [0x42e, 0x43b, 0x438, 0x44f],
     [0x42f, 0x43d, 0x430]]"

definition lastNames :: "letters list" where
  "lastNames =
    [[0x410, 0x43b, 0x435, 0x43a, 0x441, 0x435, 0x435, 0x432],
     [0x410, 0x43d, 0x434, 0x440, 0x435, 0x435, 0x432],
     [0x410, 0x43d, 0x442, 0x43e, 0x43d, 0x43e, 0x432],
     [0x411, 0x430, 0x440, 0x430, 0x43d, 0x43e, 0x432],
     [0x411, 0x435, 0x43b, 0x43e, 0x432],
     [0x411, 0x435, 0x43b, 0x44b, 0x439],
     [0x411, 0x435, 0x43b, 0x44c, 0x441, 0x43a, 0x438, 0x439],
     [0x411, 0x435, 0x43b, 0x44f, 0x435, 0x432],
     [0x411, 0x43e, 0x440, 0x438, 0x441, 0x43e, 0x432],
     [0x412, 0x430, 0x441, 0x438, 0x43b, 0x44c, 0x435, 0x432],
     [0x412, 0x435, 0x43b, 0x438, 0x43a, 0x438, 0x439],
     [0x412, 0x43e, 0x43b, 0x43a, 0x43e, 0x432],
     [0x412, 0x43e, 0x440, 0x43e, 0x431, 0x44c, 0x451, 0x432],
     [0x413, 0x440, 0x438, 0x433, 0x43e, 0x440, 0x44c, 0x435, 0x432],
     [0x414, 0x430, 0x432, 0x44b, 0x434, 0x43e, 0x432],
     [0x415, 0x433, 0x43e, 0x440, 0x43e, 0x432],
     [0x416, 0x443, 0x43a, 0x43e, 0x432],
     [0x417, 0x430, 0x439, 0x446, 0x435, 0x432],
     [0x417, 0x430, 0x445, 0x430, 0x440, 0x43e, 0x432],
     [0x418, 0x432, 0x430, 0x43d, 0x43e, 0x432],
     [0x41a, 0x430, 0x43b, 0x438, 0x43d, 0x438, 0x43d],
     [0x41a, 0x43e, 0x432, 0x430, 0x43b, 0x451, 0x432],
     [0x41a, 0x43e, 0x437, 0x43b, 0x43e, 0x432],
     [0x41a, 0x43e, 0x43c, 0x430, 0x440, 0x43e, 0x432],
     [0x41a, 0x440, 0x430, 0x43c, 0x441, 0x43a, 0x43e, 0x439],
     [0x41a, 0x443, 0x437, 0x43d, 0x435, 0x446, 0x43e, 0x432],
     [0x41a, 0x443, 0x437, 0x44c, 0x43c, 0x438, 0x43d],
     [0x41b, 0x435, 0x431, 0x435, 0x434, 0x435, 0x432],
     [0x41c, 0x430, 0x43a, 0x430, 0x440, 0x43e, 0x432],
     [0x41c, 0x435, 0x434, 0x432, 0x435, 0x434, 0x435, 0x432],
     [0x41c, 0x438, 0x445, 0x430, 0x439, 0x43b, 0x43e, 0x432],
     [0x41c, 0x43e, 0x440, 0x43e, 0x437, 0x43e, 0x432],
     [0x41d, 0x438, 0x43a, 0x438, 0x442, 0x438, 0x43d],
     [0x41d, 0x438, 0x43a, 0x43e, 0x43b, 0x430, 0x435, 0x432],
     [0x41d, 0x43e, 0x432, 0x438, 0x43a, 0x43e, 0x432],
     [0x41e, 0x440, 0x43b, 0x43e, 0x432],
     [0x41e, 0x441, 0x442, 0x440, 0x43e, 0x432, 0x441, 0x43a, 0x438, 0x439],
     [0x41f, 0x430, 0x432, 0x43b, 0x43e, 0x432],
     [0x41f, 0x435, 0x442, 0x440, 0x43e, 0x432],
     [0x41f, 0x43e, 0x43a, 0x440, 0x43e, 0x432, 0x441, 0x43a, 0x438, 0x439],
     [0x41f, 0x43e, 0x43f, 0x43e, 0x432],
     [0x420, 0x430, 0x435, 0x432, 0x441, 0x43a, 0x438, 0x439],
     [0x420, 0x43e, 0x43c, 0x430, 0x43d, 0x43e, 0x432],
     [0x421, 0x435, 0x43c, 0x451, 0x43d, 0x43e, 0x432],
     [0x421, 0x435, 0x440, 0x433, 0x435, 0x435, 0x432],
     [0x421, 0x43c, 0x438, 0x440, 0x43d, 0x43e, 0x432],
     [0x421, 0x43e, 0x43a, 0x43e, 0x43b, 0x43e, 0x432],
     [0x421, 0x43e, 0x43b, 0x43e, 0x432, 0x44c, 0x451, 0x432],
     [0x421, 0x442, 0x435, 0x43f, 0x430, 0x43d, 0x43e, 0x432],
     [0x422, 0x430, 0x440, 0x430, 0x441, 0x43e, 0x432],
     [0x422, 0x438, 0x442, 0x43e, 0x432],
     [0x422, 0x43e, 0x43b, 0x441, 0x442, 0x43e, 0x439],
     [0x422, 0x440, 0x443, 0x431, 0x435, 0x446, 0x43a, 0x43e, 0x439],
     [0x424, 0x438, 0x43b, 0x438, 0x43f, 0x43f, 0x43e, 0x432],
     [0x424, 0x440, 0x43e, 0x43b, 0x43e, 0x432],
     [0x424, 0x451, 0x434, 0x43e, 0x440, 0x43e, 0x432],
     [0x427, 0x430, 0x439, 0x43a, 0x43e, 0x432, 0x441, 0x43a, 0x438, 0x439],
     [0x427, 0x435, 0x440, 0x43d, 0x44b, 0x439],
     [0x42f, 0x43a, 0x43e, 0x432, 0x43b, 0x435, 0x432]]"

section \<open>The female form of a surname\<close>

text \<open>\<open>strings.HasSuffix\<close>.\<close>

definition has_suffix :: "bytes \<Rightarrow> bytes \<Rightarrow> bool" where
  "has_suffix s suf \<longleftrightarrow> length suf \<le> length s \<and> drop (length s - length suf) s = suf"

text \<open>The endings of adjectives and of possessive surnames.\<close>

definition adjective_endings :: "letters list" where
  "adjective_endings = [[0x438, 0x439], [0x44b, 0x439], [0x43e, 0x439]]"

definition possessive_endings :: "letters list" where
  "possessive_endings = [[0x43e, 0x432], [0x435, 0x432], [0x438, 0x43d], [0x44b, 0x43d], [0x451, 0x432]]"

definition convertToFemaleSurname :: "bytes \<Rightarrow> bytes" where
  "convertToFemaleSurname surname =
     (if list_ex (\<lambda>e. has_suffix surname (utf8 e)) adjective_endings
      then take (length surname - 4) surname @ utf8 [0x430, 0x44f]
      else if list_ex (\<lambda>e. has_suffix surname (utf8 e)) possessive_endings then surname @ utf8 [0x430]
      else surname)"

section \<open>The choice of a name\<close>

text \<open>\<open>rnd k\<close> is what \<open>rand.Intn\<close> answers to its \<open>k\<close>-th call, reduced to the range it is asked for; \<open>surnameless\<close> is the
  outcome of \<open>rand.Float32() < 0.3\<close>.\<close>

definition pick_name :: "letters list \<Rightarrow> nat \<Rightarrow> bytes" where "pick_name table r = utf8 (table ! (r mod length table))"

definition generateName :: "(nat \<Rightarrow> nat) \<Rightarrow> bool \<Rightarrow> bytes" where
  "generateName rnd surnameless =
     (let isFemale = (rnd 0 mod 2 = 0);
          fn = (if isFemale then pick_name femaleFirstNames (rnd 1) else pick_name maleFirstNames (rnd 1))
      in if surnameless then fn
         else (let ln = pick_name lastNames (rnd 2);
                   ln' = (if isFemale then convertToFemaleSurname ln else ln)
               in fn @ [0x20] @ ln'))"

section \<open>Lemmas\<close>

lemma utf8_simps [simp]: "utf8 [] = []" "utf8 (c # cs) = utf8_letter c @ utf8 cs" "utf8 (xs @ ys) = utf8 xs @ utf8 ys"
  by (simp_all add: utf8_def)

lemma length_utf8_letter [simp]: "length (utf8_letter c) = 2" by (simp add: utf8_letter_def)

lemma length_utf8 [simp]: "length (utf8 cs) = 2 * length cs"
  by (induction cs) simp_all

lemma take_utf8: "take (2 * k) (utf8 cs) = utf8 (take k cs)"
proof (induction cs arbitrary: k)
  case (Cons c cs)
  then show ?case by (cases k) simp_all
qed simp

lemma drop_utf8: "drop (2 * k) (utf8 cs) = utf8 (drop k cs)"
proof (induction cs arbitrary: k)
  case (Cons c cs)
  then show ?case by (cases k) simp_all
qed simp

lemma two_byte_simps [simp]: "two_byte []" "two_byte (c # cs) \<longleftrightarrow> (0x80 \<le> c \<and> c < 0x800) \<and> two_byte cs"
  by (simp_all add: two_byte_def)

lemma two_byte_drop: "two_byte cs \<Longrightarrow> two_byte (drop k cs)"
  by (auto simp: two_byte_def list_all_iff dest: in_set_dropD)

lemma utf8_letter_inject:
  assumes "c < 0x800" and "d < 0x800" and "utf8_letter c = utf8_letter d"
  shows "c = d"
proof -
  have unat_byte: "unat (of_nat a :: 8 word) = a" if "a < 256" for a
    using that by (simp add: unat_of_nat take_bit_nat_eq_self)
  have byte: "a = b" if "a < 256" "b < 256" "(of_nat a :: 8 word) = of_nat b" for a b
    using unat_byte [OF that(1)] unat_byte [OF that(2)] that(3) by metis
  have "0xc0 + c div 64 = 0xc0 + d div 64" "0x80 + c mod 64 = 0x80 + d mod 64"
    using assms byte by (auto simp: utf8_letter_def)
  then show ?thesis by (metis add_left_cancel div_mult_mod_eq)
qed

lemma utf8_inject: "two_byte cs \<Longrightarrow> two_byte ds \<Longrightarrow> utf8 cs = utf8 ds \<longleftrightarrow> cs = ds"
proof (induction cs arbitrary: ds)
  case Nil
  then show ?case by (cases ds) (simp_all add: utf8_letter_def)
next
  case (Cons c cs)
  show ?case
  proof (cases ds)
    case Nil
    then show ?thesis by (simp add: utf8_letter_def)
  next
    case (Cons d ds')
    then show ?thesis using Cons.IH [of ds'] Cons.prems utf8_letter_inject [of c d] by auto
  qed
qed

lemma suffix_by_drop: "suffix e cs \<longleftrightarrow> length e \<le> length cs \<and> drop (length cs - length e) cs = e"
  by (metis append_take_drop_id suffix_length_le suffix_def suffix_take append_eq_conv_conj same_append_eq)

text \<open>A suffix of the bytes is a suffix of the letters.\<close>

lemma has_suffix_utf8:
  assumes "two_byte cs" and "two_byte e"
  shows "has_suffix (utf8 cs) (utf8 e) \<longleftrightarrow> suffix e cs"
proof -
  have "has_suffix (utf8 cs) (utf8 e) \<longleftrightarrow> length e \<le> length cs \<and> drop (length cs - length e) cs = e"
    using drop_utf8 [of "length cs - length e" cs] utf8_inject [OF two_byte_drop [OF assms(1)] assms(2)]
    by (auto simp: has_suffix_def simp flip: diff_mult_distrib2)
  also have "\<dots> \<longleftrightarrow> suffix e cs" by (simp add: suffix_by_drop)
  finally show ?thesis .
qed

text \<open>The female form on letters, as the reference for the code on bytes.\<close>

definition female_letters :: "letters \<Rightarrow> letters" where
  "female_letters cs =
     (if \<exists>e \<in> set adjective_endings. suffix e cs then take (length cs - 2) cs @ [0x430, 0x44f]
      else if \<exists>e \<in> set possessive_endings. suffix e cs then cs @ [0x430] else cs)"

lemma endings_two_byte: "list_all two_byte adjective_endings" "list_all two_byte possessive_endings"
  by (simp_all add: adjective_endings_def possessive_endings_def)

lemma female_form:
  assumes "two_byte cs"
  shows "convertToFemaleSurname (utf8 cs) = utf8 (female_letters cs)"
proof -
  have ex: "list_ex (\<lambda>e. has_suffix (utf8 cs) (utf8 e)) es \<longleftrightarrow> (\<exists>e \<in> set es. suffix e cs)" if "list_all two_byte es" for es
    using that has_suffix_utf8 [OF assms] by (auto simp: list_ex_iff list_all_iff)
  have "take (2 * length cs - 4) (utf8 cs) = utf8 (take (length cs - 2) cs)"
    using take_utf8 [of "length cs - 2" cs] by (simp add: diff_mult_distrib2)
  then show ?thesis by (auto simp: convertToFemaleSurname_def female_letters_def ex endings_two_byte)
qed

text \<open>All names of the tables are in letters of two bytes, so no name is cut inside a letter.\<close>

lemma tables_two_byte: "list_all two_byte maleFirstNames" "list_all two_byte femaleFirstNames" "list_all two_byte lastNames"
  by (simp_all add: maleFirstNames_def femaleFirstNames_def lastNames_def)

text \<open>Every surname of the table has a female form, which ends like one.\<close>

definition ends_female :: "letters \<Rightarrow> bool" where "ends_female cs \<longleftrightarrow> cs \<noteq> [] \<and> last cs \<in> {0x430, 0x44f}"

definition ends_male :: "letters \<Rightarrow> bool" where "ends_male cs \<longleftrightarrow> cs \<noteq> [] \<and> last cs \<in> {0x432, 0x43d, 0x439}"

lemma surnames_agree: "list_all (\<lambda>cs. ends_male cs \<and> ends_female (female_letters cs)) lastNames"
  by (simp add: lastNames_def ends_male_def ends_female_def female_letters_def adjective_endings_def possessive_endings_def suffix_by_drop)

lemma pick_name_in: "table \<noteq> [] \<Longrightarrow> \<exists>cs \<in> set table. pick_name table r = utf8 cs"
  unfolding pick_name_def by (intro bexI [of _ "table ! (r mod length table)"]) auto

text \<open>A generated name is a first name, or a first name and a surname of the same gender.\<close>

lemma generated_name_agrees:
  "\<exists>female first. first \<in> set (if female then femaleFirstNames else maleFirstNames) \<and>
     (if surnameless then generateName rnd surnameless = utf8 first
      else \<exists>ln. generateName rnd surnameless = utf8 first @ [0x20] @ utf8 ln \<and> (if female then ends_female ln else ends_male ln) \<and>
             (\<exists>cs \<in> set lastNames. ln = (if female then female_letters cs else cs)))"
proof -
  let ?female = "rnd 0 mod 2 = 0"
  let ?table = "if ?female then femaleFirstNames else maleFirstNames"
  have nonempty: "?table \<noteq> []" "lastNames \<noteq> []" by (simp_all add: femaleFirstNames_def maleFirstNames_def lastNames_def)
  obtain first where first: "first \<in> set ?table" "pick_name ?table (rnd 1) = utf8 first" using pick_name_in [OF nonempty(1)] by blast
  obtain cs where cs: "cs \<in> set lastNames" "pick_name lastNames (rnd 2) = utf8 cs" using pick_name_in [OF nonempty(2)] by blast
  have "two_byte cs" using tables_two_byte(3) cs(1) by (simp add: list_all_iff)
  then have conv: "convertToFemaleSurname (utf8 cs) = utf8 (female_letters cs)" by (rule female_form)
  have "ends_male cs \<and> ends_female (female_letters cs)" using surnames_agree cs(1) by (simp add: list_all_iff)
  then show ?thesis using first cs conv
    by (intro exI [of _ ?female] exI [of _ first]) (auto simp: generateName_def Let_def split: if_splits)
qed

end
