(* ===== verification/Ish_Conn.thy ===== *)
theory Ish_Conn
  imports Turn_Prelude
begin

text \<open>
  The listener and the connections for the iSH emulator (\<open>pkg/clientcore/ish_listener_linux_386.go\<close>), which go around Go's
  network poller with blocking system calls. A call that is interrupted is made again, so the loops end only if the
  kernel answers something else at some time; \<open>E k\<close> is its answer to the \<open>k\<close>-th call. On other platforms
  (\<open>ish_listener_other.go\<close>) the listener is left as it is.
\<close>

section \<open>Listener\<close>

datatype errno = EINTR | Errno nat

datatype ish_error = SysError errno | OsErrClosed | IoShortWrite

text \<open>What \<open>wrapISHListener\<close> returns: not a TCP listener, no file, or the wrapped one.\<close>

datatype wrapped = Unwrapped | FileError string | IshListener

definition wrapISHListener :: "bool \<Rightarrow> string option \<Rightarrow> wrapped" where
  "wrapISHListener isTCP fileErr =
     (if \<not> isTCP then Unwrapped else case fileErr of Some e \<Rightarrow> FileError e | None \<Rightarrow> IshListener)"

partial_function (option) accept_loop :: "(nat \<Rightarrow> errno + nat) \<Rightarrow> nat \<Rightarrow> (errno + nat) option" where
  "accept_loop E k =
     (case E k of
        Inl e \<Rightarrow> if e = EINTR then accept_loop E (Suc k) else Some (Inl e)
      | Inr fd \<Rightarrow> Some (Inr fd))"

text \<open>The socket is put into blocking mode first.\<close>

definition ish_Accept :: "errno option \<Rightarrow> (nat \<Rightarrow> errno + nat) \<Rightarrow> (errno + nat) option" where
  "ish_Accept nonblock E = (case nonblock of Some e \<Rightarrow> Some (Inl e) | None \<Rightarrow> accept_loop E 0)"

text \<open>Both descriptors are closed; the first error is the result.\<close>

definition ish_listener_Close :: "string option \<Rightarrow> string option \<Rightarrow> string option" where
  "ish_listener_Close err1 err2 = (case err1 of Some e \<Rightarrow> Some e | None \<Rightarrow> err2)"

section \<open>Connections\<close>

text \<open>The count that \<open>read(2)\<close> gives with an error is \<open>-1\<close>, and it is passed on; the end of the stream is an error of its own.\<close>

partial_function (option) ish_Read :: "(nat \<Rightarrow> errno + bytes) \<Rightarrow> nat \<Rightarrow> (int \<times> bytes \<times> ish_error option) option" where
  "ish_Read E k =
     (case E k of
        Inl e \<Rightarrow> if e = EINTR then ish_Read E (Suc k) else Some (- 1, [], Some (SysError e))
      | Inr d \<Rightarrow> if d = [] then Some (0, [], Some OsErrClosed) else Some (int (length d), d, None))"

text \<open>The rest of the buffer is written until it is empty; \<open>sent\<close> is what the kernel has taken. Its answer
  depends on what it is given.\<close>

partial_function (option) ish_Write ::
  "(nat \<Rightarrow> bytes \<Rightarrow> errno + nat) \<Rightarrow> nat \<Rightarrow> bytes \<Rightarrow> nat \<Rightarrow> bytes \<Rightarrow> (nat \<times> ish_error option \<times> bytes) option" where
  "ish_Write E k b n sent =
     (if n < length b then
        (case E k (drop n b) of
           Inl e \<Rightarrow> if e = EINTR then ish_Write E (Suc k) b n sent else Some (n, Some (SysError e), sent)
         | Inr written \<Rightarrow>
             if written = 0 then Some (n, Some IoShortWrite, sent)
             else ish_Write E (Suc k) b (n + written) (sent @ take written (drop n b)))
      else Some (n, None, sent))"

text \<open>Deadlines are ignored, and there is no way to close one direction.\<close>

definition ish_SetDeadline :: "int \<Rightarrow> string option" where "ish_SetDeadline t = None"

section \<open>Lemmas\<close>

text \<open>The kernel does not interrupt for ever.\<close>

definition answers :: "(nat \<Rightarrow> errno + 'a) \<Rightarrow> bool" where
  "answers E \<longleftrightarrow> (\<forall>k. \<exists>j \<ge> k. E j \<noteq> Inl EINTR)"

text \<open>The first call from \<open>k\<close> on that is not interrupted.\<close>

definition next_answer :: "(nat \<Rightarrow> errno + 'a) \<Rightarrow> nat \<Rightarrow> nat" where
  "next_answer E k = (LEAST j. k \<le> j \<and> E j \<noteq> Inl EINTR)"

lemma next_answer:
  assumes "answers E"
  shows "k \<le> next_answer E k" "E (next_answer E k) \<noteq> Inl EINTR"
  using assms LeastI_ex [of "\<lambda>j. k \<le> j \<and> E j \<noteq> Inl EINTR"] by (auto simp: answers_def next_answer_def)

lemma next_answer_skip: "answers E \<Longrightarrow> E k = Inl EINTR \<Longrightarrow> next_answer E (Suc k) = next_answer E k"
  unfolding next_answer_def by (rule arg_cong [of _ _ Least]) (auto simp: fun_eq_iff Suc_le_eq le_less)

lemma next_answer_here: "E k \<noteq> Inl EINTR \<Longrightarrow> next_answer E k = k"
  unfolding next_answer_def by (rule Least_equality) auto

lemma EINTR_induct [consumes 1, case_names interrupted answered]:
  assumes "answers E" and "\<And>k. E k = Inl EINTR \<Longrightarrow> P (Suc k) \<Longrightarrow> P k" and "\<And>k. E k \<noteq> Inl EINTR \<Longrightarrow> P k"
  shows "P k"
proof (induction "next_answer E k - k" arbitrary: k rule: less_induct)
  case less
  show ?case
  proof (cases "E k = Inl EINTR")
    case True
    have "next_answer E k \<noteq> k" using next_answer(2) [OF assms(1), of k] True by metis
    then have "k < next_answer E k" using next_answer(1) [OF assms(1), of k] by simp
    then have "P (Suc k)" using next_answer_skip [OF assms(1) True] by (intro less) simp
    then show ?thesis using assms(2) True by blast
  next
    case False
    then show ?thesis by (rule assms(3))
  qed
qed

lemma accept_returns:
  assumes "answers E"
  shows "accept_loop E k = Some (E (next_answer E k))"
  using assms
proof (induction k rule: EINTR_induct)
  case (interrupted k)
  then show ?case using next_answer_skip [OF assms] by (subst accept_loop.simps) simp
next
  case (answered k)
  then show ?case by (subst accept_loop.simps) (auto simp: next_answer_here split: sum.split)
qed

lemma read_returns:
  assumes "answers E"
  shows "ish_Read E k =
     (case E (next_answer E k) of
        Inl e \<Rightarrow> Some (- 1, [], Some (SysError e))
      | Inr d \<Rightarrow> Some (if d = [] then (0, [], Some OsErrClosed) else (int (length d), d, None)))"
  using assms
proof (induction k rule: EINTR_induct)
  case (interrupted k)
  then show ?case using next_answer_skip [OF assms] by (subst ish_Read.simps) simp
next
  case (answered k)
  then show ?case by (subst ish_Read.simps) (auto simp: next_answer_here split: sum.split)
qed

text \<open>A write returns; what was sent is the beginning of the buffer, of the length that is reported, and all of it exactly
  when there is no error.\<close>

lemma write_loop_returns:
  assumes "\<And>d. answers (\<lambda>k. E k d)" and fits: "\<And>k d w. E k d = Inr w \<Longrightarrow> w \<le> length d" and "n \<le> length b"
  shows "\<exists>n' err. ish_Write E k b n (take n b) = Some (n', err, take n' b) \<and> n \<le> n' \<and> n' \<le> length b \<and> (err = None \<longleftrightarrow> n' = length b)"
  using assms(3)
proof (induction "length b - n" arbitrary: n k rule: less_induct)
  case less
  have ans: "answers (\<lambda>k. E k (drop n b))" by (rule assms(1))
  show ?case
  proof (cases "n < length b")
    case False
    then show ?thesis using less.prems by (subst ish_Write.simps) auto
  next
    case True
    from ans show ?thesis
    proof (induction k rule: EINTR_induct)
      case (interrupted k)
      then show ?case using True by (subst ish_Write.simps) simp
    next
      case (answered k)
      show ?case
      proof (cases "E k (drop n b)")
        case (Inl e)
        then show ?thesis using answered True by (subst ish_Write.simps) auto
      next
        case (Inr w)
        show ?thesis
        proof (cases "w = 0")
          case True
          then show ?thesis using Inr \<open>n < length b\<close> by (subst ish_Write.simps) auto
        next
          case False
          have "w \<le> length b - n" using fits [OF Inr] by simp
          then have "length b - (n + w) < length b - n" "n + w \<le> length b" using False True by auto
          from less.hyps [OF this, of "Suc k"] obtain n' err where
            r: "ish_Write E (Suc k) b (n + w) (take (n + w) b) = Some (n', err, take n' b)" "n + w \<le> n'" "n' \<le> length b"
              "err = None \<longleftrightarrow> n' = length b" by blast
          have "ish_Write E k b n (take n b) = Some (n', err, take n' b)"
            using r(1) Inr False True by (subst ish_Write.simps) (simp add: take_add)
          then show ?thesis using r by auto
        qed
      qed
    qed
  qed
qed

lemma write_returns:
  assumes "\<And>d. answers (\<lambda>k. E k d)" and "\<And>k d w. E k d = Inr w \<Longrightarrow> w \<le> length d"
  shows "\<exists>n err. ish_Write E 0 b 0 [] = Some (n, err, take n b) \<and> n \<le> length b \<and> (err = None \<longleftrightarrow> n = length b)"
  using write_loop_returns [OF assms, where n = 0 and b = b and k = 0] by auto

end
