(* ===== verification/Client_Cli.thy ===== *)
theory Client_Cli
  imports Client_Run
begin

text \<open>
  The command line of the client (\<open>RunCLI\<close> in \<open>pkg/clientcore/cli.go\<close>) with the goroutine of the signals, and the choice
  of a DNS server by the two resolvers of \<open>main.go\<close>. The flag parser and the calls into the operating system are
  parameters.
\<close>

section \<open>Flags\<close>

definition cli_defaults :: client_config where
  "cli_defaults =
     \<lparr>cfg_TURNHost = [], cfg_TURNPort = [], cfg_Listen = ''127.0.0.1:9000'', cfg_VKLink = [], cfg_PeerAddr = [],
      cfg_NumStreams = 0, cfg_UseUDP = False, cfg_NoDTLS = False, cfg_VLESSMode = False, cfg_VLESSBond = False,
      cfg_WrapMode = False, cfg_WrapKeyHex = [], cfg_StreamsPerCred = gl_streamsPerCache initial_globals,
      cfg_Debug = False, cfg_ManualCaptcha = False, cfg_CaptchaSolver = ''v2'', cfg_CaptchaHost = []\<rparr>"

text \<open>How the process ends: with the key on its output, with a panic, or, when \<open>Run\<close> has returned without an error, normally.
  In VLESS mode a listener that cannot be opened, once a session is up, is a panic of its own.\<close>

datatype cli_outcome = CliPrint string | CliPanic string | CliReturn

definition cli_run_end :: "(string \<Rightarrow> string + string) \<Rightarrow> string option \<Rightarrow> client_config \<Rightarrow> cli_outcome" where
  "cli_run_end resolve listen_error cfg =
     (case snd (run_prologue resolve cfg initial_globals) of
        Inl e \<Rightarrow> CliPanic e
      | Inr plan \<Rightarrow>
          (case (rp_mode plan, listen_error) of
             (VlessRun bond, Some e) \<Rightarrow> CliPanic (''TCP listen: '' @ e)
           | _ \<Rightarrow> (case run_outcome listen_error plan of Some e \<Rightarrow> CliPanic e | None \<Rightarrow> CliReturn)))"

definition RunCLI ::
  "(string \<Rightarrow> string + string) \<Rightarrow> string option \<Rightarrow> bytes option \<Rightarrow> bool \<Rightarrow> client_config \<Rightarrow> cli_outcome" where
  "RunCLI resolve listen_error rnd genWrapKey cfg =
     (if genWrapKey then (case genWrapKeyHex rnd of Inl e \<Rightarrow> CliPanic e | Inr key \<Rightarrow> CliPrint key)
      else cli_run_end resolve listen_error cfg)"

section \<open>Signals\<close>

text \<open>The runtime puts a signal into a channel with one place and drops it when the place is taken. The first signal that
  the goroutine takes cancels the context; the second, or five seconds, end the process with status 1. When \<open>RunCLI\<close>
  returns before that, the process ends with status 0, wherever the goroutine is.\<close>

datatype cli_pc = SignalWait | SignalGrace

record cli_process =
  cp_chan :: nat
  cp_pc :: cli_pc
  cp_cancelled :: bool
  cp_exit :: "nat option"

datatype cli_event = Signal | TakeSignal | GraceOver | CliReturns

definition cli_started :: cli_process where
  "cli_started = \<lparr>cp_chan = 0, cp_pc = SignalWait, cp_cancelled = False, cp_exit = None\<rparr>"

fun cli_step :: "cli_event \<Rightarrow> cli_process \<Rightarrow> cli_process option" where
  "cli_step Signal p = (if cp_exit p = None then Some (p\<lparr>cp_chan := 1\<rparr>) else None)"
| "cli_step TakeSignal p =
     (if cp_exit p = None \<and> 0 < cp_chan p then
        (case cp_pc p of
           SignalWait \<Rightarrow> Some (p\<lparr>cp_chan := 0, cp_pc := SignalGrace, cp_cancelled := True\<rparr>)
         | SignalGrace \<Rightarrow> Some (p\<lparr>cp_chan := 0, cp_exit := Some 1\<rparr>))
      else None)"
| "cli_step GraceOver p = (if cp_exit p = None \<and> cp_pc p = SignalGrace then Some (p\<lparr>cp_exit := Some 1\<rparr>) else None)"
| "cli_step CliReturns p = (if cp_exit p = None then Some (p\<lparr>cp_exit := Some 0\<rparr>) else None)"

fun cli_run :: "cli_event list \<Rightarrow> cli_process \<Rightarrow> cli_process option" where
  "cli_run [] p = Some p"
| "cli_run (ev # evs) p = (case cli_step ev p of None \<Rightarrow> None | Some p' \<Rightarrow> cli_run evs p')"

section \<open>The resolvers\<close>

text \<open>Both resolvers hold the same list and the same loop, which runs over the servers until a dial succeeds.\<close>

definition dnsServers :: "string list" where
  "dnsServers = [''77.88.8.8:53'', ''77.88.8.1:53'', ''8.8.8.8:53'', ''8.8.4.4:53'', ''1.1.1.1:53'', ''1.0.0.1:53'']"

fun dial_loop :: "(string \<Rightarrow> 'e + 'c) \<Rightarrow> string list \<Rightarrow> 'e option \<Rightarrow> 'e option + 'c" where
  "dial_loop dial [] lastErr = Inl lastErr"
| "dial_loop dial (dns # rest) lastErr =
     (case dial dns of Inr conn \<Rightarrow> Inr conn | Inl e \<Rightarrow> dial_loop dial rest (Some e))"

definition resolver_Dial :: "(string \<Rightarrow> 'e + 'c) \<Rightarrow> 'e option + 'c" where
  "resolver_Dial dial = dial_loop dial dnsServers None"

section \<open>Lemmas\<close>

lemma dial_loop_spec:
  "dial_loop dial servers lastErr =
     (case List.find (\<lambda>s. \<not> isl (dial s)) servers of
        Some s \<Rightarrow> Inr (projr (dial s))
      | None \<Rightarrow> Inl (if servers = [] then lastErr else Some (projl (dial (last servers)))))"
  by (induction servers arbitrary: lastErr) (auto split: sum.splits option.splits)

text \<open>A failed lookup has an error to report: the one of the last server. The first server is used whenever it can be
  dialled; since a UDP dial sends nothing, it can be dialled also when the server does not answer.\<close>

lemma resolver_Dial_error:
  "resolver_Dial dial = Inl err \<Longrightarrow> (\<forall>s \<in> set dnsServers. isl (dial s)) \<and> err = Some (projl (dial ''1.0.0.1:53''))"
  by (auto simp: resolver_Dial_def dnsServers_def split: sum.splits)

lemma resolver_Dial_first: "dial ''77.88.8.8:53'' = Inr c \<Longrightarrow> resolver_Dial dial = Inr c"
  by (simp add: resolver_Dial_def dnsServers_def)

text \<open>The flags that must be given: without them the command panics, whatever the others are.\<close>

lemma cli_needs_peer: "cfg_PeerAddr cfg = [] \<Longrightarrow> RunCLI resolve le rnd False cfg = CliPanic ''need peer address''"
  by (simp add: RunCLI_def cli_run_end_def run_prologue_def run_checks_def setDefaults_def Let_def)

lemma setDefaults_fields [simp]:
  "cfg_PeerAddr (setDefaults gl cfg) = cfg_PeerAddr cfg" "cfg_VKLink (setDefaults gl cfg) = cfg_VKLink cfg"
  "cfg_WrapMode (setDefaults gl cfg) = cfg_WrapMode cfg" "cfg_WrapKeyHex (setDefaults gl cfg) = cfg_WrapKeyHex cfg"
  "cfg_NoDTLS (setDefaults gl cfg) = cfg_NoDTLS cfg" "cfg_VLESSMode (setDefaults gl cfg) = cfg_VLESSMode cfg"
  by (simp_all add: setDefaults_def Let_def)

lemma cli_needs_link:
  assumes "cfg_PeerAddr cfg \<noteq> []" and "resolve (cfg_PeerAddr cfg) = Inr a" and "cfg_VKLink cfg = []"
  shows "RunCLI resolve le rnd False cfg = CliPanic ''need vk-link''"
  using assms by (simp add: RunCLI_def cli_run_end_def run_prologue_def run_checks_def Let_def)

text \<open>The process exits with status 1 only after the context has been cancelled; the context is cancelled only by a signal;
  after a signal has been taken, the grace period ends the process if nothing else does.\<close>

definition cli_inv :: "cli_process \<Rightarrow> bool" where
  "cli_inv p \<longleftrightarrow> (cp_cancelled p \<longleftrightarrow> cp_pc p = SignalGrace) \<and> cp_chan p \<le> 1 \<and> (cp_exit p = Some 1 \<longrightarrow> cp_cancelled p) \<and>
     (\<forall>n. cp_exit p = Some n \<longrightarrow> n \<le> 1)"

lemma cli_step_inv: "cli_inv p \<Longrightarrow> cli_step ev p = Some p' \<Longrightarrow> cli_inv p'"
  by (cases ev) (auto simp: cli_inv_def split: if_splits cli_pc.splits)

lemma cli_run_inv: "cli_inv p \<Longrightarrow> cli_run evs p = Some p' \<Longrightarrow> cli_inv p'"
  by (induction evs arbitrary: p) (auto split: option.splits dest: cli_step_inv)

lemma cli_cancel_step: "cli_step ev p = Some p' \<Longrightarrow> cp_cancelled p' \<Longrightarrow> cp_cancelled p \<or> ev = TakeSignal \<and> 0 < cp_chan p"
  by (cases ev) (auto split: if_splits cli_pc.splits)

lemma cli_chan_step: "cli_step ev p = Some p' \<Longrightarrow> 0 < cp_chan p' \<Longrightarrow> 0 < cp_chan p \<or> ev = Signal"
  by (cases ev) (auto split: if_splits cli_pc.splits)

lemma cli_cancel_needs_signal:
  "cli_run evs p = Some p' \<Longrightarrow> cp_cancelled p' \<Longrightarrow> \<not> cp_cancelled p \<Longrightarrow> cp_chan p = 0 \<Longrightarrow> Signal \<in> set evs"
proof (induction evs arbitrary: p)
  case (Cons ev evs)
  then obtain p1 where p1: "cli_step ev p = Some p1" "cli_run evs p1 = Some p'" by (auto split: option.splits)
  show ?case using Cons p1 cli_cancel_step [OF p1(1)] cli_chan_step [OF p1(1)] by force
qed simp

lemma cli_status_1:
  assumes "cli_run evs cli_started = Some p" and "cp_exit p = Some 1"
  shows "cp_cancelled p \<and> Signal \<in> set evs"
proof -
  have "cli_inv cli_started" by (simp add: cli_inv_def cli_started_def)
  then have "cli_inv p" by (rule cli_run_inv [OF _ assms(1)])
  then have "cp_cancelled p" using assms(2) unfolding cli_inv_def by blast
  then show ?thesis using cli_cancel_needs_signal [OF assms(1)] by (simp add: cli_started_def)
qed

lemma cli_grace: "cp_exit p = None \<Longrightarrow> cp_pc p = SignalGrace \<Longrightarrow> \<exists>p'. cli_step GraceOver p = Some p' \<and> cp_exit p' = Some 1"
  by simp

end
