(* ===== verification/Spec2Isabelle.thy ===== *)
theory Spec2Isabelle
  imports Lane_Selector Server_Lifecycle Session_Properties Wrap_Framing Bond_End_To_End Turn_Credentials Captcha_V2 Udp_Listener Stream_Proxy Legacy_Udp Vless_Sessions Client_Dispatch Observability Packet_Info Kcp_Profile Captcha_Proxy Bond_Download Vless_Server Server_Config Vless_Mode Throughput Name_Generator Ish_Conn Client_Cli
begin

text \<open>
  A model of the RabbitHole TURN proxy and its correctness theorems. The program tunnels UDP (WireGuard) or TCP
  (VLESS) through the TURN relays of a video call: the client (\<open>src/pkg/clientcore\<close>) obtains TURN credentials from
  the VK API, solving captchas on the way, allocates relays, and runs DTLS over them; the server (\<open>src/server\<close>)
  terminates DTLS and forwards to a backend. Between the two there are an optional obfuscation layer (WRAP), sessions
  that aggregate several streams of one client (UDP), and smux sessions whose streams carry TCP connections, one each
  or bonded over all of them (VLESS).

  \<^bold>\<open>The server.\<close>
  \<^item> \<open>Session_Preface\<close>: the session preface and the probe packets (\<open>session_udp.go\<close>, \<open>probe.go\<close>), as the exact sets of
    packets they accept.
  \<^item> \<open>Packet_Pool\<close>, \<open>Lane_Selector\<close>: the pool of downlink packets and the choice of a lane for a downlink packet
    (\<open>udpLaneSelector.choose\<close>), pinned while a client lane cannot reorder, striped otherwise.
  \<^item> \<open>Server_Metrics\<close>, \<open>Observability\<close>: the counters and the resource monitor of \<open>metrics.go\<close>, and the text that
    \<open>/metrics\<close> answers.
  \<^item> \<open>Admission_Gate\<close>, \<open>Server_Lifecycle\<close>: limits, leases and draining (\<open>drain.go\<close>); the accept loop, the handlers, the
    signals and the exit of \<open>main.go\<close> as a step relation. \<open>Server_Config\<close>: the flags, the checks of the start and the state
    in which the accept loop begins.
  \<^item> \<open>Aggregated_Session\<close>, \<open>Session_World\<close>, \<open>Session_Invariants\<close>, \<open>Session_Flow\<close>, \<open>Session_Properties\<close>: the aggregated UDP
    sessions of \<open>session_udp.go\<close>. The state is a store of session and lane objects with the registry; every action of a
    goroutine that a lock or a channel makes indivisible is a step. The invariants come first, then the flow of the
    packets, then the properties.
  \<^item> \<open>Legacy_Udp\<close>: the connections without a preface. \<open>Udp_Listener\<close>: one socket shared by all peers, shown to be a set of
    mailboxes (a simulation). \<open>Packet_Info\<close>: the local address a reply leaves from (\<open>pktinfo_linux.go\<close>).
  \<^item> \<open>Bond_Server\<close>, \<open>Bond_Server_Safety\<close>: the bonded connections of the server with their registry, lanes and goroutines.
    \<open>Stream_Proxy\<close>: plain connections over a stream, with both copy loops on either side. \<open>Vless_Server\<close>: the handler of a
    connection in VLESS mode, with its layers and one goroutine per stream, whose pipes are those of \<open>Stream_Proxy\<close>.

  \<^bold>\<open>Shared by both ends.\<close>
  \<^item> \<open>Wrap_Framing\<close>: both implementations of WRAP (\<open>server/wrap.go\<close>, \<open>clientcore/wrap.go\<close>), over an AEAD given by its laws.
  \<^item> \<open>Bond_Frames\<close>, \<open>Bond_Reassembly\<close>, \<open>Bond_Client\<close>, \<open>Bond_End_To_End\<close>: the frames, the two reassembly loops, the session
    pool and the upload of the client, and the composition: what the backend receives is what the client sent.
    \<open>Bond_Download\<close>: the other direction on the client, with the goroutines of its lanes and the end of a connection.
  \<^item> \<open>Kcp_Profile\<close>: the parameters of the KCP transport (\<open>tcputil.go\<close>). \<open>Throughput\<close>: the counters of both ends and their log.

  \<^bold>\<open>The client.\<close>
  \<^item> \<open>Vk_Api\<close>, \<open>Token_Chain\<close>, \<open>Turn_Credentials\<close>: captcha errors, the chain of requests that ends in TURN credentials, the
    global lockout, the caches and the choice of a TURN server.
  \<^item> \<open>Slider_Puzzle\<close>, \<open>Captcha_Session\<close>, \<open>Slider_V2\<close>, \<open>Captcha_V2\<close>: the two automatic captcha solvers.
  \<^item> \<open>Captcha_Proxy\<close>: the rewriting proxy through which a person solves a captcha (\<open>manual_captcha.go\<close>).
  \<^item> \<open>Client_Setup\<close>, \<open>Vless_Sessions\<close>: the layers of a session or stream with what is released when one fails, the waits of
    the loops, and the goroutines that keep the sessions of the pool alive. \<open>Vless_Mode\<close>: VLESS mode as a whole, these
    goroutines with the accept loop and one goroutine per local connection, whose bodies are those of \<open>Stream_Proxy\<close> and
    \<open>Bond_Download\<close>, from the first session to the return of \<open>runVLESSMode\<close>.
  \<^item> \<open>Client_Run\<close>: the configuration that \<open>Run\<close> accepts. \<open>Client_Dispatch\<close>: the dispatcher between the local socket and the
    streams, with its packet buffers and the launch of the streams. \<open>Client_Cli\<close>: the command line, the signals and the
    choice of a DNS server.
  \<^item> \<open>Name_Generator\<close>: the name under which a stream joins the call (\<open>namegen.go\<close>), on the bytes of UTF-8 as the code works,
    with the rule on letters as its reference. \<open>Ish_Conn\<close>: the blocking listener and connections for iSH.

  \<open>Turn_Prelude\<close> has what they share: big-endian integers, readers and connections, buffered channels, the actions with
  errors, and the locales. \<open>invariant_system\<close>, \<open>monotone_system\<close> and \<open>simulation\<close> are the interfaces of a step relation, and
  the locales of a codec and of a registry those of the frames and of the two registries; each is interpreted on the
  model's own definitions, and the properties rest on its facts. \<open>Go_Text\<close> has the functions of Go on strings.

  \<^bold>\<open>Conventions.\<close> Integers of a fixed width are words where they can wrap (counters, sequence numbers, offsets), and \<open>int\<close>
  elsewhere; strings are lists of bytes. A panic is the value \<open>None\<close> or an error of its own, an error a value of a sum.
  What a network, a clock, a random source or the operating system answers is an argument of an operation or a
  component of an environment record, and the theorems hold for every answer. Concurrent code is a step relation over an
  explicit state; fields that only record the past (logs of packets, of resources, of requests) are histories that no
  operation reads.

  \<^bold>\<open>Bounds.\<close> The loops of the code that cannot run forever are total functions: the loop over the captcha challenges by the
  measure of the challenge that is left, with the fuel 2 proved to be enough; the second-token loop by the attempts that are
  left (at most three solvers); the proof of work by its 10,000,000 attempts; the decoding loops of the frames by fuel that
  the length of the input bounds. The loops that run until a connection ends are step relations. The retries of \<open>Ish_Conn\<close>
  are partial functions, which return if the kernel does not interrupt for ever.

  \<^bold>\<open>Not modelled.\<close> The libraries (DTLS, TURN, KCP, smux, DNS), TLS certificates, sockets and the HTTP server and client are
  the environment; so are the decoders of JSON and of pictures, regular expressions and SHA-256. Log output, the browser
  script that \<open>manual_captcha.go\<close> injects, the random mouse trace of captcha version 2 (floating point), the file of the
  saved browser profile, the functions that only hand their arguments to package \<open>net\<close>, and the command line parser are
  left out. The list of components in \<open>PROJECT.json\<close> says for each what is left out.
\<close>

end
